(* ===== verification/Prelude.thy ===== *)
theory Prelude
  imports Main "HOL-Library.Word"
begin

text \<open>
  Shared vocabulary of the development: the integer types of \<open>include/types.hpp\<close> for
  the x86\_64 build, the ways kernel code can stop, the collections of simplification rules
  that the component theories extend, and the generic facts on lists, maps and words that
  several components use.
\<close>

unbundle bit_operations_syntax

subsection \<open>Integer types\<close>

type_synonym u8 = "8 word"
type_synonym u16 = "16 word"
type_synonym u32 = "32 word"
type_synonym u64 = "64 word"
type_synonym mword = "64 word"
type_synonym paddr = "64 word"

text \<open>
  A step of kernel code either returns a value or stops: a failed \<open>assert\<close>, a call of
  \<open>Console::panic\<close>, an access outside an array, a dereference of a null pointer or a
  division by zero. Loops without a structural bound take a number of rounds as an argument;
  \<open>Out_of_fuel\<close> is the model's own value for a loop that did not end within it.
\<close>

datatype fault = Assert_failed | Panic | Out_of_bounds | Null_deref | Divide_error | Out_of_fuel

type_synonym 'a result = "fault + 'a"

definition bind_result :: "'a result \<Rightarrow> ('a \<Rightarrow> 'b result) \<Rightarrow> 'b result" where
  "bind_result r f = (case r of Inl e \<Rightarrow> Inl e | Inr a \<Rightarrow> f a)"

lemma bind_result_simps [simp]:
  "bind_result (Inl e) f = Inl e"
  "bind_result (Inr a) f = f a"
  by (simp_all add: bind_result_def)

lemma bind_result_Inr_iff:
  "bind_result r f = Inr b \<longleftrightarrow> (\<exists>a. r = Inr a \<and> f a = Inr b)"
  by (cases r) auto

text \<open>
  Kernel paths that may give up the CPU: such a path ends with \<^term>\<open>None\<close> when it has
  switched to another thread and does not return to its caller.
\<close>

type_synonym ('s, 'a) kern = "'s \<Rightarrow> ('a option \<times> 's) result"

definition kret :: "'a \<Rightarrow> ('s, 'a) kern" where
  "kret a s = Inr (Some a, s)"

definition kfail :: "fault \<Rightarrow> ('s, 'a) kern" where
  "kfail e s = Inl e"

definition kbind :: "('s, 'a) kern \<Rightarrow> ('a \<Rightarrow> ('s, 'b) kern) \<Rightarrow> ('s, 'b) kern" where
  "kbind m f s = bind_result (m s) (\<lambda>(r, s'). case r of None \<Rightarrow> Inr (None, s') | Some a \<Rightarrow> f a s')"

definition kupd :: "('s \<Rightarrow> 's) \<Rightarrow> ('s, unit) kern" where
  "kupd f s = Inr (Some (), f s)"

definition klift :: "('s \<Rightarrow> 's result) \<Rightarrow> ('s, unit) kern" where
  "klift f s = bind_result (f s) (\<lambda>s'. Inr (Some (), s'))"

definition kget :: "('s \<Rightarrow> 'a) \<Rightarrow> ('s, 'a) kern" where
  "kget f s = Inr (Some (f s), s)"

text \<open>A property of the final state, whether the path returns or switches away.\<close>

definition kpost :: "('a option \<times> 's) result \<Rightarrow> ('s \<Rightarrow> bool) \<Rightarrow> bool" where
  "kpost r P = (case r of Inl e \<Rightarrow> True | Inr (a, s) \<Rightarrow> P s)"

lemma kpost_kret [simp]: "kpost (kret a s) P = P s" "kpost (kupd f s) P = P (f s)"
  "kpost (kget g s) P = P s" "kpost (kfail e s) P" "kpost (Inl e) P"
  by (simp_all add: kret_def kupd_def kget_def kfail_def kpost_def)

lemma kpost_klift: "kpost (klift f s) P \<longleftrightarrow> (\<forall>s'. f s = Inr s' \<longrightarrow> P s')"
  by (cases "f s") (auto simp: klift_def kpost_def)

lemma kpost_kbind:
  assumes "kpost (m s) P" "\<And>a s'. m s = Inr (Some a, s') \<Longrightarrow> P s' \<Longrightarrow> kpost (f a s') P"
  shows "kpost (kbind m f s) P"
  using assms by (auto simp: kbind_def kpost_def bind_result_def split: sum.splits option.splits)

named_theorems kernel_defs "definitions of kernel operations unfolded in component proofs"
named_theorems inv_defs "invariants of the components"

subsection \<open>Lists\<close>

lemma filter_upt_first:
  assumes "filter P [a..<b] = i # is"
  shows "P i" "a \<le> i" "i < b" "\<And>j. a \<le> j \<Longrightarrow> j < i \<Longrightarrow> \<not> P j"
proof -
  have mem: "i \<in> set (filter P [a..<b])" using assms by simp
  then show "P i" "a \<le> i" "i < b" by auto
  fix j assume j: "a \<le> j" "j < i"
  show "\<not> P j"
  proof
    assume "P j"
    with j \<open>i < b\<close> have "j \<in> set (filter P [a..<b])" by simp
    then have "j \<in> set (i # is)" using assms by simp
    moreover have "sorted (filter P [a..<b])" by (simp add: sorted_wrt_filter)
    then have "sorted (i # is)" by (simp only: assms)
    ultimately show False using j by auto
  qed
qed

lemma filter_upt_last:
  assumes eq: "filter P [a..<b] = is @ [i]"
  shows "P i" "a \<le> i" "i < b" "\<And>j. i < j \<Longrightarrow> j < b \<Longrightarrow> \<not> P j"
proof -
  have "i \<in> set (filter P [a..<b])" by (simp only: eq) simp
  then show "P i" "a \<le> i" "i < b" by auto
  fix j assume j: "i < j" "j < b"
  show "\<not> P j"
  proof
    assume "P j"
    with j \<open>a \<le> i\<close> have "j \<in> set (filter P [a..<b])" by simp
    then have "j \<in> set (is @ [i])" by (simp only: eq)
    moreover have "sorted (filter P [a..<b])" by (simp add: sorted_wrt_filter)
    then have "sorted (is @ [i])" by (simp only: eq)
    ultimately show False using j by (auto simp: sorted_append)
  qed
qed

lemma distinct_concat_map:
  assumes "distinct is" "\<And>i. i \<in> set is \<Longrightarrow> distinct (f i)"
    and "\<And>i j. i \<in> set is \<Longrightarrow> j \<in> set is \<Longrightarrow> i \<noteq> j \<Longrightarrow> set (f i) \<inter> set (f j) = {}"
  shows "distinct (concat (map f is))"
  using assms
proof (induction "is")
  case (Cons i "is")
  have "distinct (concat (map f is))" by (rule Cons.IH) (use Cons.prems in auto)
  moreover have "set (f i) \<inter> set (f j) = {}" if "j \<in> set is" for j
    using Cons.prems(1) Cons.prems(3)[of i j] that by auto
  ultimately show ?case using Cons.prems(2)[of i] by auto
qed simp

end
