(* ===== verification/Bits.thy ===== *)
theory Bits
  imports Prelude
begin

text \<open>
  The bit helpers of \<open>include/bits.hpp\<close> and \<open>include/util.hpp\<close> on 64-bit words:
  the scans compiled to \<open>bsr\<close> and \<open>bsf\<close>, the largest block order that fits an
  address and a size, 64-by-32-bit division and alignment to a power of two.
\<close>

subsection \<open>Definitions\<close>

definition set_bits_of :: "mword \<Rightarrow> nat list" where
  "set_bits_of v = filter (bit v) [0..<64]"

definition bit_scan_reverse :: "mword \<Rightarrow> int" where
  "bit_scan_reverse v = (if v = 0 then -1 else int (last (set_bits_of v)))"

definition bit_scan_forward :: "mword \<Rightarrow> int" where
  "bit_scan_forward v = (if v = 0 then -1 else int (hd (set_bits_of v)))"

definition max_order :: "mword \<Rightarrow> mword \<Rightarrow> mword" where
  "max_order base sz =
     (let ord = bit_scan_reverse sz
      in word_of_int (if base \<noteq> 0 then min (bit_scan_forward base) ord else ord))"

definition div64 :: "u64 \<Rightarrow> u32 \<Rightarrow> (u64 \<times> u32) result" where
  "div64 n d = (if d = 0 then Inl Divide_error else Inr (n div ucast d, ucast (n mod ucast d)))"

definition align_dn :: "mword \<Rightarrow> mword \<Rightarrow> mword" where
  "align_dn val align = val AND NOT (align - 1)"

definition align_up :: "mword \<Rightarrow> mword \<Rightarrow> mword" where
  "align_up val align = align_dn (val + (align - 1)) align"

definition popcount :: "mword \<Rightarrow> mword" where
  "popcount bitset = of_nat (length (set_bits_of bitset))"

subsection \<open>The bit scans\<close>

lemma in_set_bits_of [simp]: "i \<in> set (set_bits_of v) \<longleftrightarrow> bit v i"
  by (auto simp: set_bits_of_def dest: bit_imp_le_length)

lemma set_bits_of_Nil [simp]: "set_bits_of v = [] \<longleftrightarrow> v = 0"
proof
  assume "set_bits_of v = []"
  then have "\<not> bit v i" for i by (metis in_set_bits_of empty_iff list.set(1))
  then show "v = 0" by (auto intro: bit_eqI)
qed (simp add: set_bits_of_def)

lemma bit_scan_forward_first:
  assumes "v \<noteq> 0"
  obtains i where "bit_scan_forward v = int i" "i < 64" "bit v i" "\<And>j. j < i \<Longrightarrow> \<not> bit v j"
proof -
  obtain i xs where "set_bits_of v = i # xs" using assms by (cases "set_bits_of v") auto
  with assms show thesis
    using that[of i] filter_upt_first[of "bit v" 0 64 i xs]
    by (simp add: bit_scan_forward_def set_bits_of_def)
qed

lemma bit_scan_reverse_last:
  assumes "v \<noteq> 0"
  obtains i where "bit_scan_reverse v = int i" "i < 64" "bit v i" "\<And>j. i < j \<Longrightarrow> \<not> bit v j"
proof -
  obtain i xs where eq: "set_bits_of v = xs @ [i]"
    using assms by (cases "set_bits_of v" rule: rev_cases) auto
  then have f: "filter (bit v) [0..<64] = xs @ [i]" by (simp only: set_bits_of_def)
  have nb: "\<not> bit v j" if "i < j" for j
  proof
    assume b: "bit v j"
    then have "j < 64" using bit_imp_le_length[of v j] by simp
    with b filter_upt_last(4)[OF f that] show False by blast
  qed
  show thesis
    by (rule that[of i])
      (use assms eq filter_upt_last[OF f] nb in \<open>simp_all add: bit_scan_reverse_def\<close>)
qed

lemma unat_ge_if_bit: "bit (v :: mword) i \<Longrightarrow> 2 ^ i \<le> unat v"
proof -
  assume "bit v i"
  then have "odd (unat v div 2 ^ i)" by (simp add: bit_unsigned_iff flip: bit_iff_odd)
  then have "unat v div 2 ^ i \<noteq> 0" by (metis even_zero)
  then show ?thesis by (simp add: div_eq_0_iff)
qed

lemma dvd_unat_iff_low_bits: "2 ^ k dvd unat (v :: mword) \<longleftrightarrow> (\<forall>j<k. \<not> bit v j)"
proof -
  have "2 ^ k dvd unat v \<longleftrightarrow> take_bit k (unat v) = 0"
    by (simp add: take_bit_eq_mod mod_eq_0_iff_dvd)
  also have "\<dots> \<longleftrightarrow> (\<forall>j. \<not> bit (take_bit k (unat v)) j)"
    by (metis bit_eqI bit_0_eq bot_apply bot_bool_def)
  also have "\<dots> \<longleftrightarrow> (\<forall>j<k. \<not> bit v j)"
    by (auto simp: bit_take_bit_iff bit_unsigned_iff dest: bit_imp_le_length)
  finally show ?thesis .
qed

lemma unat_lt_if_high_bits: 
  assumes "\<And>j. i < j \<Longrightarrow> \<not> bit (v :: mword) j"
  shows "unat v < 2 ^ Suc i"
proof -
  have "j \<le> i" if "bit v j" for j using assms that by (meson not_le)
  then have "take_bit (Suc i) (unat v) = unat v"
    by (intro bit_eqI) (auto simp: bit_take_bit_iff bit_unsigned_iff less_Suc_eq_le)
  then show ?thesis by (metis take_bit_nat_less_exp)
qed

lemma bit_scan_reverse_bounds:
  assumes "v \<noteq> 0" "bit_scan_reverse v = int i"
  shows "2 ^ i \<le> unat v" "unat v < 2 ^ Suc i"
proof -
  obtain j where j: "bit_scan_reverse v = int j" "j < 64" "bit v j" "\<And>l. j < l \<Longrightarrow> \<not> bit v l"
    using assms(1) by (rule bit_scan_reverse_last) blast
  with assms(2) have "i = j" by simp
  then show "2 ^ i \<le> unat v" "unat v < 2 ^ Suc i"
    using j unat_lt_if_high_bits[of j v] by (auto intro: unat_ge_if_bit)
qed

lemma bit_scan_forward_dvd:
  assumes "v \<noteq> 0" "bit_scan_forward v = int i"
  shows "2 ^ k dvd unat v \<longleftrightarrow> k \<le> i"
proof -
  obtain j where j: "bit_scan_forward v = int j" "j < 64" "bit v j" "\<And>l. l < j \<Longrightarrow> \<not> bit v l"
    using assms(1) by (rule bit_scan_forward_first) blast
  with assms(2) have "i = j" by simp
  then show ?thesis using j by (auto simp: dvd_unat_iff_low_bits not_less[symmetric])
qed

subsection \<open>The largest aligned block\<close>

lemma max_order_nat:
  assumes "sz \<noteq> 0"
  obtains n where "max_order base sz = of_nat n" "n < 64" "unat (max_order base sz) = n"
    "2 ^ n \<le> unat sz" "2 ^ n dvd unat base"
    "\<And>m. 2 ^ m \<le> unat sz \<Longrightarrow> 2 ^ m dvd unat base \<Longrightarrow> m \<le> n"
proof -
  obtain r where r: "bit_scan_reverse sz = int r" "r < 64"
    using assms by (rule bit_scan_reverse_last)
  note rb = bit_scan_reverse_bounds[OF assms r(1)]
  have r_max: "m \<le> r" if "2 ^ m \<le> unat sz" for m
    using power_less_imp_less_exp[OF _ order.strict_trans1[OF that rb(2)]] by simp
  have small: "unat (of_nat n :: mword) = n" if "n < 64" for n
    using that by (simp add: unat_of_nat)
  show thesis
  proof (cases "base = 0")
    case True
    then show thesis using that[of r] r rb r_max small by (simp add: max_order_def Let_def)
  next
    case False
    obtain f where f: "bit_scan_forward base = int f" "f < 64"
      using False by (rule bit_scan_forward_first)
    note fd = bit_scan_forward_dvd[OF False f(1)]
    have "(2::nat) ^ min f r \<le> 2 ^ r" by simp
    then have "2 ^ min f r \<le> unat sz" using rb(1) by linarith
    moreover have "max_order base sz = of_nat (min f r)"
      using False f r by (simp add: max_order_def Let_def min_def)
    ultimately show thesis
      using that[of "min f r"] f r r_max fd small[of "min f r"] by simp
  qed
qed

subsection \<open>Alignment\<close>

lemma align_dn_eq_push_drop: "align_dn v (2 ^ k) = push_bit k (drop_bit k v)"
  by (rule bit_eqI)
    (auto simp: align_dn_def bit_simps not_less simp flip: mask_eq_exp_minus_1)

lemma unat_align_dn:
  assumes "k < 64"
  shows "unat (align_dn v (2 ^ k)) = unat v div 2 ^ k * 2 ^ k"
proof -
  have "unat v div 2 ^ k * 2 ^ k < 2 ^ 64"
    by (rule order.strict_trans1[OF div_times_less_eq_dividend]) (use unsigned_less[of v] in simp)
  then have "take_bit 64 (push_bit k (drop_bit k (unat v))) = push_bit k (drop_bit k (unat v))"
    by (simp add: drop_bit_eq_div push_bit_eq_mult take_bit_nat_eq_self)
  then have "unat (push_bit k (drop_bit k v)) = push_bit k (drop_bit k (unat v))"
    using unsigned_less[where 'a = nat, of v]
    by (simp add: unsigned_push_bit_eq unsigned_drop_bit_eq take_bit_nat_eq_self)
  then show ?thesis
    by (simp only: align_dn_eq_push_drop drop_bit_eq_div push_bit_eq_mult)
qed

lemma unat_mask:
  assumes "k < 64"
  shows "unat (mask k :: mword) = 2 ^ k - 1"
proof -
  have "unat (mask k :: mword) = mask k"
    using assms by (intro bit_eqI) (auto simp: bit_unsigned_iff bit_mask_iff)
  then show ?thesis by (simp add: mask_eq_exp_minus_1)
qed

lemma unat_align_up:
  assumes "k < 64" "unat v + 2 ^ k \<le> 2 ^ 64"
  shows "unat (align_up v (2 ^ k)) = (unat v + (2 ^ k - 1)) div 2 ^ k * 2 ^ k"
proof -
  have p: "unat (2 ^ k - 1 :: mword) = 2 ^ k - 1"
    using unat_mask[of k] assms(1) by (simp add: mask_eq_exp_minus_1)
  have "unat v + (2 ^ k - 1) < 2 ^ 64" using assms(2) by (simp add: less_eq_iff_succ_less)
  then have "unat (v + (2 ^ k - 1)) = unat v + (2 ^ k - 1)"
    using p by (simp add: unat_word_ariths)
  then show ?thesis using assms(1) by (simp add: align_up_def unat_align_dn)
qed

subsection \<open>Properties\<close>

text \<open>max_order_largest. For a non-empty range, \<open>max_order\<close> is the order of the
  largest block that starts at the base, is aligned to its own size and does not exceed the
  size of the range.\<close>
theorem max_order_largest:
  assumes "sz \<noteq> 0"
  shows "2 ^ unat (max_order base sz) \<le> unat sz \<and> 2 ^ unat (max_order base sz) dvd unat base \<and>
         (\<forall>m. 2 ^ m \<le> unat sz \<and> 2 ^ m dvd unat base \<longrightarrow> m \<le> unat (max_order base sz))"
  using max_order_nat[OF assms, of base] by metis

theorem max_order_largest_witness:
  "2 ^ unat (max_order 0x3000 0x5000) \<le> unat (0x5000 :: mword) \<and>
   2 ^ unat (max_order 0x3000 0x5000) dvd unat (0x3000 :: mword)"
  using max_order_largest[of "0x5000" "0x3000"] by simp

lemma div_round:
  fixes n M :: nat
  assumes "0 < M"
  shows "n div M * M \<le> n" "n < n div M * M + M"
    "n \<le> (n + (M - 1)) div M * M" "(n + (M - 1)) div M * M < n + M"
proof -
  have b: "m div M * M \<le> m" "m < m div M * M + M" for m
    using dividend_less_div_times[OF assms, of m] by (simp_all add: add.commute)
  show "n div M * M \<le> n" "n < n div M * M + M" by (rule b)+
  show "n \<le> (n + (M - 1)) div M * M" "(n + (M - 1)) div M * M < n + M"
    using b[of "n + (M - 1)"] assms by linarith+
qed

text \<open>align_bounds. Alignment to a power of two rounds to the nearest multiple below, and to
  the nearest above when the sum does not leave the 64-bit range.\<close>
theorem align_bounds:
  assumes "k < 64" "unat v + 2 ^ k \<le> 2 ^ 64"
  shows "unat (align_dn v (2 ^ k)) \<le> unat v \<and> unat v < unat (align_dn v (2 ^ k)) + 2 ^ k \<and>
         unat v \<le> unat (align_up v (2 ^ k)) \<and> unat (align_up v (2 ^ k)) < unat v + 2 ^ k \<and>
         2 ^ k dvd unat (align_dn v (2 ^ k)) \<and> 2 ^ k dvd unat (align_up v (2 ^ k))"
proof -
  have "(0::nat) < 2 ^ k" by simp
  from div_round[OF this, of "unat v"] show ?thesis
    unfolding unat_align_dn[OF assms(1)] unat_align_up[OF assms] by simp
qed

theorem align_bounds_witness:
  "unat (align_up 0x1234 (2 ^ 12)) < unat (0x1234 :: mword) + 2 ^ 12 \<and> unat (0x1234 :: mword) \<le> unat (align_up 0x1234 (2 ^ 12))"
  using align_bounds[of 12 "0x1234"] by simp

end
