(* ===== verification/Quota.thy ===== *)
theory Quota
  imports Prelude
begin

text \<open>
  Kernel-memory accounting of protection domains, \<open>include/quota.hpp\<close>. A quota counts
  the pages in use, the pages freed beyond that count (\<open>over\<close>), the limit and the part
  of the limit that may not be handed on. Quotas live in a store indexed by their owner, so
  that an operation on two quotas is also right when both are the same object. The fields
  are 64-bit words and wrap as in the code.
\<close>

record quota =
  used :: mword
  over :: mword
  upli :: mword
  notr :: mword

type_synonym 'i quotas = "'i \<Rightarrow> quota"

definition Quota_new :: quota where
  "Quota_new = \<lparr>used = 0, over = 0, upli = 0, notr = 0\<rparr>"

definition quota_alloc :: "quota \<Rightarrow> mword \<Rightarrow> quota" where
  "quota_alloc q p = q\<lparr>used := used q + p\<rparr>"

definition quota_free :: "quota \<Rightarrow> mword \<Rightarrow> quota" where
  "quota_free q p =
     (if p \<le> used q then q\<lparr>used := used q - p\<rparr>
      else q\<lparr>over := over q + (p - used q), upli := upli q + (p - used q), used := 0\<rparr>)"

definition usage :: "quota \<Rightarrow> mword" where
  "usage q = used q"

definition limit :: "quota \<Rightarrow> mword" where
  "limit q = upli q"

definition boot :: "'i quotas \<Rightarrow> 'i \<Rightarrow> 'i \<Rightarrow> 'i quotas" where
  "boot s kern root =
     (let s1 = s(kern := (s kern)\<lparr>upli := used (s kern)\<rparr>)
      in s1(root := (s1 root)\<lparr>upli := upli (s1 root) - used (s1 kern)\<rparr>))"

definition free_up :: "'i quotas \<Rightarrow> 'i \<Rightarrow> 'i \<Rightarrow> 'i quotas" where
  "free_up s self to =
     (let l = upli (s self); u = used (s self); ov = over (s self);
          s1 = s(self := (s self)\<lparr>upli := 0, over := 0, used := 0\<rparr>);
          t = (s1 to)\<lparr>used := used (s1 to) + u, upli := upli (s1 to) + l, over := over (s1 to) + ov\<rparr>;
          t' = (if over t \<noteq> 0 \<and> used t \<noteq> 0
                then (let m = min (used t) (over t)
                      in t\<lparr>used := used t - m, over := over t - m, upli := upli t - m\<rparr>)
                else t)
      in s1(to := t'))"

definition hit_limit :: "quota \<Rightarrow> mword \<Rightarrow> bool" where
  "hit_limit q free_space =
     (if free_space > upli q then True else usage q > upli q - free_space)"

definition transfer_to :: "'i quotas \<Rightarrow> 'i \<Rightarrow> 'i \<Rightarrow> mword \<Rightarrow> bool \<Rightarrow> bool \<times> 'i quotas" where
  "transfer_to s self to transfer check_notr =
     (if hit_limit (s self) 0 then (False, s)
      else
        (let not_for_transfer = (if check_notr then notr (s self) else 0)
         in if usage (s self) + transfer > upli (s self) - not_for_transfer then (False, s)
            else
              (let ov = min (over (s self)) transfer;
                   s1 = s(self := (s self)\<lparr>upli := upli (s self) - transfer, over := over (s self) - ov\<rparr>);
                   t = (s1 to)\<lparr>upli := upli (s1 to) + transfer\<rparr>;
                   t' = (if used t \<noteq> 0 \<and> ov \<noteq> 0
                         then (let u = min (used t) ov
                               in t\<lparr>used := used t - u, upli := upli t - u, over := over t + (ov - u)\<rparr>)
                         else t)
               in (True, s1(to := t')))))"

definition set_limit :: "'i quotas \<Rightarrow> 'i \<Rightarrow> mword \<Rightarrow> mword \<Rightarrow> 'i \<Rightarrow> bool \<times> 'i quotas" where
  "set_limit s self l h from =
     (case transfer_to s from self h True of
        (False, s1) \<Rightarrow> (False, s1)
      | (True, s1) \<Rightarrow> (True, s1(self := (s1 self)\<lparr>notr := l\<rparr>)))"

text \<open>
  \<open>Quota_guard\<close> pairs a local quota with a reference to the one it draws on: here two
  indices of the store.
\<close>

definition quota_guard_check :: "'i quotas \<Rightarrow> 'i \<Rightarrow> 'i \<Rightarrow> mword \<Rightarrow> bool \<times> 'i quotas" where
  "quota_guard_check s q r req =
     (if \<not> hit_limit (s q) req then (True, s)
      else
        (let req' = (if limit (s q) \<le> usage (s q) then req + (usage (s q) - limit (s q))
                     else req - (limit (s q) - usage (s q)))
         in transfer_to s r q req' False))"

definition quota_guard_destroy :: "'i quotas \<Rightarrow> 'i \<Rightarrow> 'i \<Rightarrow> 'i quotas" where
  "quota_guard_destroy s q r = free_up s q r"

subsection \<open>What is conserved\<close>

text \<open>
  The headroom of a quota is the number of pages it may still allocate. Pages freed beyond
  the count raise the limit instead of lowering the usage, so a free of \<open>p\<close> pages always
  adds \<open>p\<close> to the headroom. All equations are in word arithmetic and need no bounds.
\<close>

definition headroom :: "quota \<Rightarrow> mword" where
  "headroom q = upli q - used q"

lemma alloc_headroom: "headroom (quota_alloc q p) = headroom q - p"
  by (simp add: headroom_def quota_alloc_def)

lemma free_headroom: "headroom (quota_free q p) = headroom q + p"
  by (simp add: headroom_def quota_free_def algebra_simps)

lemma free_alloc_inverse: "quota_free (quota_alloc q p) p = q" if "unat (used q) + unat p < 2 ^ 64"
  using that by (simp add: quota_free_def quota_alloc_def word_le_nat_alt unat_plus_if')

lemma transfer_to_other:
  assumes "i \<noteq> self" "i \<noteq> to"
  shows "snd (transfer_to s self to n c) i = s i"
  using assms by (simp add: transfer_to_def Let_def)

lemma transfer_to_failed: "transfer_to s self to n c = (False, s') \<Longrightarrow> s' = s"
  by (simp add: transfer_to_def Let_def split: if_splits)

lemma transfer_to_headroom:
  assumes "self \<noteq> to" "transfer_to s self to n c = (True, s')"
  shows "headroom (s' self) = headroom (s self) - n" "headroom (s' to) = headroom (s to) + n"
  using assms
  by (auto simp: transfer_to_def Let_def headroom_def algebra_simps split: if_splits)

lemma transfer_to_self:
  assumes "transfer_to s self self n c = (ok, s')"
  shows "headroom (s' self) = headroom (s self)"
  using assms
  by (auto simp: transfer_to_def Let_def headroom_def algebra_simps split: if_splits)

lemma free_up_headroom:
  assumes "self \<noteq> to"
  shows "headroom (free_up s self to self) = 0"
    and "headroom (free_up s self to to) = headroom (s self) + headroom (s to)"
  using assms by (simp_all add: free_up_def Let_def headroom_def algebra_simps)

lemma free_up_cancels:
  assumes "self \<noteq> to"
  shows "over (free_up s self to to) = 0 \<or> used (free_up s self to to) = 0"
  using assms by (auto simp: free_up_def Let_def min_def)

subsection \<open>When a transfer succeeds\<close>

lemma hit_limit_nat: "hit_limit q n \<longleftrightarrow> unat (upli q) < unat (used q) + unat n"
  by (auto simp: hit_limit_def usage_def word_less_nat_alt unat_sub word_le_nat_alt not_less)

lemma transfer_to_iff:
  assumes "unat (used (s self)) + unat n < 2 ^ 64" "unat (notr (s self)) \<le> unat (upli (s self))"
  shows "fst (transfer_to s self to n True) \<longleftrightarrow>
           unat (used (s self)) + unat n + unat (notr (s self)) \<le> unat (upli (s self))"
  using assms
  by (auto simp: transfer_to_def hit_limit_nat Let_def usage_def word_less_nat_alt unat_sub
      word_le_nat_alt unat_plus_if' not_less)

lemma transfer_to_keeps_headroom:
  assumes "self \<noteq> to" "unat (used (s self)) + unat n < 2 ^ 64"
    and "unat (notr (s self)) \<le> unat (upli (s self))"
    and "transfer_to s self to n True = (True, s')"
  shows "unat (upli (s' self)) = unat (upli (s self)) - unat n" "used (s' self) = used (s self)"
    and "unat (used (s' self)) + unat (notr (s self)) \<le> unat (upli (s' self))"
proof -
  have "unat (used (s self)) + unat n + unat (notr (s self)) \<le> unat (upli (s self))"
    using transfer_to_iff[of s self n to] assms(2,3) assms(4) by simp
  moreover have "upli (s' self) = upli (s self) - n" and u: "used (s' self) = used (s self)"
    using assms(1,4) by (auto simp: transfer_to_def Let_def split: if_splits)
  ultimately show "unat (upli (s' self)) = unat (upli (s self)) - unat n"
    by (simp add: unat_sub word_le_nat_alt)
  with u \<open>unat (used (s self)) + unat n + unat (notr (s self)) \<le> unat (upli (s self))\<close>
  show "used (s' self) = used (s self)"
    "unat (used (s' self)) + unat (notr (s self)) \<le> unat (upli (s' self))" by simp_all
qed

subsection \<open>The guard\<close>

lemma transfer_to_room:
  assumes "q \<noteq> r" "transfer_to s r q n c = (True, s')"
  obtains u where "unat u \<le> unat (used (s q))" "used (s' q) = used (s q) - u"
    "upli (s' q) = upli (s q) + n - u"
proof (cases "used (s q) \<noteq> 0 \<and> min (over (s r)) n \<noteq> 0")
  case True
  then show thesis
    using assms that[of "min (used (s q)) (min (over (s r)) n)"]
    by (auto simp: transfer_to_def Let_def word_le_nat_alt min_def split: if_splits)
next
  case False
  then show thesis
    using assms that[of 0] by (auto simp: transfer_to_def Let_def split: if_splits)
qed

lemma guard_check_room:
  assumes "q \<noteq> r" "unat (used (s q)) + unat req < 2 ^ 64"
    and "quota_guard_check s q r req = (True, s')"
  shows "\<not> hit_limit (s' q) req"
proof (cases "hit_limit (s q) req")
  case False
  then show ?thesis using assms(3) by (simp add: quota_guard_check_def)
next
  case True
  let ?u = "used (s q)" and ?l = "upli (s q)"
  define n where "n = req + ?u - ?l"
  have "transfer_to s r q n False = (True, s')"
    using assms(3) True
    by (simp add: quota_guard_check_def Let_def limit_def usage_def n_def algebra_simps split: if_splits)
  then obtain u where u: "unat u \<le> unat ?u" "used (s' q) = ?u - u" "upli (s' q) = ?l + n - u"
    using transfer_to_room[OF assms(1)] by blast
  have "upli (s' q) = (?u - u) + req" using u(3) by (simp add: n_def algebra_simps)
  then show ?thesis
    using u(1,2) assms(2) by (simp add: hit_limit_nat unat_plus_if' unat_sub word_le_nat_alt)
qed

subsection \<open>Properties\<close>

text \<open>C28: quota_conserved. Memory accounting conserves headroom (limit minus usage): an
  allocation lowers it and a free raises it by the number of pages, a transfer between two
  quotas moves exactly the transferred amount and changes no third quota, a failed transfer changes
  nothing, and handing everything back adds the whole headroom of the giver to the
  receiver.\<close>
theorem quota_conserved:
  assumes "self \<noteq> to"
  shows "headroom (quota_alloc q p) = headroom q - p \<and> headroom (quota_free q p) = headroom q + p \<and>
     (transfer_to s self to n c = (True, s') \<longrightarrow>
        headroom (s' self) = headroom (s self) - n \<and> headroom (s' to) = headroom (s to) + n) \<and>
     (transfer_to s self to n c = (False, s') \<longrightarrow> s' = s) \<and>
     (i \<noteq> self \<and> i \<noteq> to \<longrightarrow> snd (transfer_to s self to n c) i = s i) \<and>
     headroom (free_up s self to self) = 0 \<and>
     headroom (free_up s self to to) = headroom (s self) + headroom (s to)"
proof (intro conjI impI)
  show "snd (transfer_to s self to n c) i = s i" if "i \<noteq> self \<and> i \<noteq> to"
    using that by (simp add: transfer_to_other)
qed (use assms in \<open>simp_all add: alloc_headroom free_headroom transfer_to_headroom[OF assms]
      transfer_to_failed free_up_headroom\<close>)

definition ex_quotas :: "nat quotas" where
  "ex_quotas i = (if i = 0 then \<lparr>used = 10, over = 0, upli = 100, notr = 20\<rparr> else Quota_new)"

theorem quota_conserved_witness:
  "\<exists>s'. transfer_to ex_quotas 0 1 50 True = (True, s') \<and> headroom (s' 0) = 40 \<and> headroom (s' 1) = 50"
proof -
  obtain s' where s': "transfer_to ex_quotas 0 1 50 True = (True, s')"
    by (simp add: transfer_to_def ex_quotas_def hit_limit_def usage_def Let_def)
  with quota_conserved[of 0 1 Quota_new 0 ex_quotas 50 True s' 2] show ?thesis
    by (simp add: headroom_def ex_quotas_def Quota_new_def)
qed

text \<open>quota_transfer_exact. As long as the sum of usage and amount stays within 64 bits, a
  transfer succeeds exactly when usage, amount and the reserved part together fit under the
  limit; after it the giver's limit still covers its usage and its reserved part.\<close>
theorem quota_transfer_exact:
  assumes "self \<noteq> to" "unat (used (s self)) + unat n < 2 ^ 64"
    and "unat (notr (s self)) \<le> unat (upli (s self))"
  shows "(fst (transfer_to s self to n True) \<longleftrightarrow>
            unat (used (s self)) + unat n + unat (notr (s self)) \<le> unat (upli (s self))) \<and>
         (transfer_to s self to n True = (True, s') \<longrightarrow>
            unat (upli (s' self)) = unat (upli (s self)) - unat n \<and>
            unat (used (s' self)) + unat (notr (s self)) \<le> unat (upli (s' self)))"
  using transfer_to_iff[of s self n to] transfer_to_keeps_headroom[of self to s n s'] assms by blast

theorem quota_transfer_exact_witness:
  "fst (transfer_to ex_quotas 0 1 70 True) \<and> \<not> fst (transfer_to ex_quotas 0 1 71 True)"
  using quota_transfer_exact[of 0 1 ex_quotas 70] quota_transfer_exact[of 0 1 ex_quotas 71]
  by (simp add: ex_quotas_def)

text \<open>quota_guard_room. When the guard reports success, the local quota has room for the
  requested number of pages, whatever had to be drawn from the quota behind it.\<close>
theorem quota_guard_room:
  assumes "q \<noteq> r" "unat (used (s q)) + unat req < 2 ^ 64"
    and "quota_guard_check s q r req = (True, s')"
  shows "unat (used (s' q)) + unat req \<le> unat (upli (s' q))"
  using guard_check_room[OF assms] by (simp add: hit_limit_nat)

theorem quota_guard_room_witness:
  "\<exists>s'. quota_guard_check ex_quotas 1 0 30 = (True, s') \<and> unat (used (s' 1)) + 30 \<le> unat (upli (s' 1))"
proof -
  obtain s' where s': "quota_guard_check ex_quotas 1 0 30 = (True, s')"
    by (simp add: quota_guard_check_def transfer_to_def ex_quotas_def hit_limit_def usage_def
        limit_def Let_def Quota_new_def)
  then show ?thesis using quota_guard_room[of 1 0 ex_quotas 30 s'] by (simp add: ex_quotas_def Quota_new_def)
qed

text \<open>quota_transfer_wraps. The check of \<open>transfer_to\<close> adds usage and amount in 64 bits:
  for an amount just below \<open>2\<^sup>64\<close>, as a caller of the quota system call can pass, the sum wraps
  and the transfer succeeds; it raises the limit of the giver and lowers that of the receiver.\<close>
theorem quota_transfer_wraps:
  assumes "self \<noteq> to" "unat m \<le> unat (used (s self))" "0 < m"
    and "unat (used (s self)) + unat (notr (s self)) \<le> unat (upli (s self))" "over (s self) = 0"
  shows "fst (transfer_to s self to (- m) True) \<and>
         upli (snd (transfer_to s self to (- m) True) self) = upli (s self) + m \<and>
         upli (snd (transfer_to s self to (- m) True) to) = upli (s to) - m"
proof -
  have "unat (used (s self) + - m) = unat (used (s self)) - unat m"
    using assms(2) by (simp add: unat_sub word_le_nat_alt)
  moreover have "unat (upli (s self) - notr (s self)) = unat (upli (s self)) - unat (notr (s self))"
    using assms(4) by (simp add: unat_sub word_le_nat_alt)
  ultimately have "\<not> usage (s self) + - m > upli (s self) - notr (s self)" "\<not> hit_limit (s self) 0"
    using assms(4) by (simp_all add: usage_def word_less_nat_alt hit_limit_nat)
  then show ?thesis using assms(1,5) by (simp add: transfer_to_def Let_def)
qed

theorem quota_transfer_wraps_witness:
  "upli (snd (transfer_to ex_quotas 0 1 (- 5) True) 0) = 105"
  using quota_transfer_wraps[of 0 1 5 ex_quotas] by (simp add: ex_quotas_def)

end
