(* ===== verification/Crd.thy ===== *)
theory Crd
  imports Prelude
begin

text \<open>
  The packed descriptors that cross the system-call interface: capability range descriptors
  and transfer descriptors (\<open>include/crd.hpp\<close>), capabilities (\<open>include/capability.hpp\<close>)
  and quantum-priority descriptors (\<open>include/qpd.hpp\<close>). Each is one machine word; the
  constructors and the field selectors are written with the shifts and masks of the code.
\<close>

text \<open>The types of kernel objects, \<open>include/kobject.hpp\<close>.\<close>

datatype ktype = PD | EC | SC | PT | SM | INVALID

subsection \<open>Capability range descriptors\<close>

definition Crd_MEM :: mword where "Crd_MEM = 1"
definition Crd_PIO :: mword where "Crd_PIO = 2"
definition Crd_OBJ :: mword where "Crd_OBJ = 3"

definition Crd_null :: mword where
  "Crd_null = 0"

definition Crd_make :: "mword \<Rightarrow> mword \<Rightarrow> mword \<Rightarrow> mword \<Rightarrow> mword" where
  "Crd_make t b o' a = push_bit 12 b OR push_bit 7 o' OR push_bit 2 a OR t"

definition crd_type :: "mword \<Rightarrow> mword" where
  "crd_type v = v AND 0x3"

definition crd_attr :: "mword \<Rightarrow> u32" where
  "crd_attr v = ucast (drop_bit 2 v AND 0x1f)"

definition crd_order :: "mword \<Rightarrow> u32" where
  "crd_order v = ucast (drop_bit 7 v AND 0x1f)"

definition crd_base :: "mword \<Rightarrow> mword" where
  "crd_base v = drop_bit 12 v"

record xfer =
  xfer_crd :: mword
  xfer_val :: mword

definition Xfer_make :: "mword \<Rightarrow> mword \<Rightarrow> xfer" where
  "Xfer_make c v = \<lparr>xfer_crd = c, xfer_val = v\<rparr>"

definition xfer_flags :: "xfer \<Rightarrow> mword" where
  "xfer_flags x = xfer_val x AND 0xfff"

definition xfer_hotspot :: "xfer \<Rightarrow> mword" where
  "xfer_hotspot x = drop_bit 12 (xfer_val x)"

subsection \<open>Capabilities and quantum-priority descriptors\<close>

definition cap_perm :: mword where
  "cap_perm = 0x1f"

definition Capability_null :: mword where
  "Capability_null = 0"

definition Capability_make :: "mword \<Rightarrow> mword \<Rightarrow> mword" where
  "Capability_make o' a = (if a \<noteq> 0 then o' OR (a AND cap_perm) else 0)"

definition cap_obj :: "mword \<Rightarrow> mword" where
  "cap_obj v = v AND NOT cap_perm"

definition cap_prm :: "mword \<Rightarrow> u32" where
  "cap_prm v = ucast (v AND cap_perm)"

definition qpd_quantum :: "mword \<Rightarrow> u32" where
  "qpd_quantum v = ucast (drop_bit 12 v)"

definition qpd_prio :: "mword \<Rightarrow> u32" where
  "qpd_prio v = ucast (v AND 0xff)"

subsection \<open>Masks and bounds\<close>

lemma low_masks:
  "(0x3 :: mword) = mask 2" "(0x1f :: mword) = mask 5" "(0xfff :: mword) = mask 12"
  "(0xff :: mword) = mask 8"
  by (simp_all add: mask_eq_exp_minus_1)

lemma bits_below:
  fixes v :: mword
  assumes "v < 2 ^ k"
  shows "bit v j \<longleftrightarrow> j < k \<and> bit v j"
proof -
  have "v = v AND mask k" using less_mask_eq[OF assms] by simp
  then show ?thesis by (metis bit_and_iff bit_mask_iff)
qed

lemma Crd_fields:
  assumes t: "t < 2 ^ 2" and b: "b < 2 ^ 52" and o': "o' < 2 ^ 5" and a: "a < 2 ^ 5"
  shows "crd_type (Crd_make t b o' a) = t" "crd_base (Crd_make t b o' a) = b"
    "crd_order (Crd_make t b o' a) = ucast o'" "crd_attr (Crd_make t b o' a) = ucast a"
proof -
  have s: "bit t j \<Longrightarrow> j < 2" "bit b j \<Longrightarrow> j < 52" "bit o' j \<Longrightarrow> j < 5" "bit a j \<Longrightarrow> j < 5" for j
    using bits_below[OF t, of j] bits_below[OF b, of j] bits_below[OF o', of j] bits_below[OF a, of j]
    by blast+
  show "crd_type (Crd_make t b o' a) = t"
    by (rule bit_word_eqI) (auto simp: crd_type_def Crd_make_def low_masks bit_simps dest: s)
  show "crd_base (Crd_make t b o' a) = b"
    by (rule bit_word_eqI) (auto simp: crd_base_def Crd_make_def bit_simps dest: s)
  have "drop_bit 7 (Crd_make t b o' a) AND 0x1f = o'"
    by (rule bit_word_eqI) (auto simp: Crd_make_def low_masks bit_simps dest: s)
  then show "crd_order (Crd_make t b o' a) = ucast o'" by (simp only: crd_order_def)
  have "drop_bit 2 (Crd_make t b o' a) AND 0x1f = a"
    by (rule bit_word_eqI) (auto simp: Crd_make_def low_masks bit_simps dest: s)
  then show "crd_attr (Crd_make t b o' a) = ucast a" by (simp only: crd_attr_def)
qed

lemma Crd_rebuild:
  "Crd_make (crd_type v) (crd_base v) (ucast (crd_order v)) (ucast (crd_attr v)) = v"
proof (rule bit_word_eqI)
  fix n assume "n < LENGTH(64)"
  consider "n < 2" | "2 \<le> n" "n < 7" | "7 \<le> n" "n < 12" | "12 \<le> n" by linarith
  then show "bit (Crd_make (crd_type v) (crd_base v) (ucast (crd_order v)) (ucast (crd_attr v))) n
      = bit v n"
    by cases
      (use \<open>n < LENGTH(64)\<close> in
        \<open>auto simp: Crd_make_def crd_type_def crd_base_def crd_order_def crd_attr_def low_masks bit_simps
            dest!: le_Suc_ex\<close>)
qed

lemma cap_fields:
  assumes "o' AND cap_perm = 0"
  shows "cap_obj (Capability_make o' a) = (if a = 0 then 0 else o')"
    "cap_prm (Capability_make o' a) = ucast (a AND cap_perm)"
proof -
  have o_bits: "\<not> (bit o' j \<and> j < 5)" for j
  proof -
    have "\<not> bit (o' AND cap_perm) j" using assms by simp
    then show ?thesis
      using bit_imp_le_length[of o' j] by (auto simp: cap_perm_def low_masks bit_simps)
  qed
  show "cap_obj (Capability_make o' a) = (if a = 0 then 0 else o')"
    by (rule bit_word_eqI)
      (use o_bits in \<open>auto simp: cap_obj_def Capability_make_def cap_perm_def low_masks bit_simps\<close>)
  have "(o' OR (a AND cap_perm)) AND cap_perm = a AND cap_perm"
    by (rule bit_word_eqI) (use o_bits in \<open>auto simp: cap_perm_def low_masks bit_simps\<close>)
  then show "cap_prm (Capability_make o' a) = ucast (a AND cap_perm)"
    by (simp add: cap_prm_def Capability_make_def)
qed

subsection \<open>Properties\<close>

text \<open>crd_roundtrip. Every range descriptor is determined by its four fields, and the fields
  of a descriptor built from values that fit their widths (2, 52, 5 and 5 bits) are the values
  it was built from.\<close>
theorem crd_roundtrip:
  "Crd_make (crd_type v) (crd_base v) (ucast (crd_order v)) (ucast (crd_attr v)) = v
   \<and> (t < 2 ^ 2 \<and> b < 2 ^ 52 \<and> o' < 2 ^ 5 \<and> a < 2 ^ 5 \<longrightarrow>
        crd_type (Crd_make t b o' a) = t \<and> crd_base (Crd_make t b o' a) = b
        \<and> crd_order (Crd_make t b o' a) = ucast o' \<and> crd_attr (Crd_make t b o' a) = ucast a)"
  using Crd_rebuild Crd_fields by blast

theorem crd_roundtrip_witness:
  "crd_base (Crd_make Crd_OBJ 0x1234 3 0x1f) = 0x1234 \<and> crd_order (Crd_make Crd_OBJ 0x1234 3 0x1f) = 3"
  using crd_roundtrip[of 0 Crd_OBJ "0x1234" 3 "0x1f"] by (simp add: Crd_OBJ_def)

text \<open>capability_fields. A capability packs an object pointer, whose five low bits are
  zero, with a permission mask: both are read back exactly, and a capability without any
  permission is the null capability, with neither object nor permission.\<close>
theorem capability_fields:
  assumes "o' AND cap_perm = 0"
  shows "(a \<noteq> 0 \<longrightarrow> cap_obj (Capability_make o' a) = o' \<and> cap_prm (Capability_make o' a) = ucast (a AND cap_perm))
     \<and> Capability_make o' 0 = Capability_null \<and> cap_obj Capability_null = 0 \<and> cap_prm Capability_null = 0"
proof -
  have "Capability_make o' 0 = Capability_null" "cap_obj Capability_null = 0" "cap_prm Capability_null = 0"
    by (simp_all add: Capability_null_def cap_obj_def cap_prm_def Capability_make_def)
  then show ?thesis using cap_fields[OF assms, of a] by simp
qed

theorem capability_fields_witness:
  "cap_obj (Capability_make 0x1000 7) = 0x1000 \<and> cap_prm (Capability_make 0x1000 7) = 7"
  using capability_fields[of "0x1000" 7] by (simp add: cap_perm_def)

end
