(* ===== verification/Bit_alloc.thy ===== *)
theory Bit_alloc
  imports Bits
begin

text \<open>
  The bitmap allocator of \<open>include/bit_alloc.hpp\<close>, from which process-context and
  IOMMU-domain identifiers are drawn. The class template is instantiated at a capacity \<open>C\<close>
  (here 64 times the length of the word array) and a reserved identifier \<open>INV\<close> that
  stands for failure. Storage of a static object starts zeroed.
\<close>

record bit_alloc =
  bits :: "mword list"
  last_ix :: mword

definition ba_MAX :: "bit_alloc \<Rightarrow> nat" where
  "ba_MAX s = length (bits s)"

definition ba_max :: "bit_alloc \<Rightarrow> mword" where
  "ba_max s = of_nat (64 * ba_MAX s)"

definition ba_test_set :: "mword list \<Rightarrow> nat \<Rightarrow> nat \<Rightarrow> bool \<times> mword list" where
  "ba_test_set bs i b = (bit (bs ! i) b, bs[i := Bit_Operations.set_bit b (bs ! i)])"

definition ba_test_clr :: "mword list \<Rightarrow> nat \<Rightarrow> nat \<Rightarrow> bool \<times> mword list" where
  "ba_test_clr bs i b = (bit (bs ! i) b, bs[i := Bit_Operations.unset_bit b (bs ! i)])"

definition Bit_alloc_new :: "nat \<Rightarrow> mword \<Rightarrow> bit_alloc" where
  "Bit_alloc_new n INV =
     \<lparr>bits = snd (ba_test_set (replicate n 0) (unat INV div 64) (unat INV mod 64)), last_ix = 0\<rparr>"

text \<open>
  One round of the search loop per unit of fuel. The branch that repeats a round, where the
  code steps both counters back before the loop header steps them forward, is taken when
  another CPU wins the race for the bit.
\<close>

fun alloc_loop :: "nat \<Rightarrow> mword \<Rightarrow> nat \<Rightarrow> nat \<Rightarrow> bit_alloc \<Rightarrow> (mword \<times> bit_alloc) option" where
  "alloc_loop 0 INV i j s = None"
| "alloc_loop (Suc n) INV i j s =
     (if \<not> j < ba_MAX s then Some (INV, s)
      else
        (let i = i mod ba_MAX s
         in if bits s ! i = - 1 then alloc_loop n INV (i + 1) (j + 1) s
            else
              (let b = bit_scan_forward (NOT (bits s ! i))
               in if b < 0 \<or> b \<ge> 64 then alloc_loop n INV i j s
                  else
                    (case ba_test_set (bits s) i (nat b) of
                       (True, bs) \<Rightarrow> alloc_loop n INV i j (s\<lparr>bits := bs\<rparr>)
                     | (False, bs) \<Rightarrow>
                         (let s1 = s\<lparr>bits := bs\<rparr>;
                              s2 = (if bs ! i \<noteq> - 1 \<and> last_ix s1 \<noteq> of_nat i
                                    then s1\<lparr>last_ix := of_nat i\<rparr> else s1)
                          in Some (of_nat (i * 64 + nat b), s2))))))"

definition ba_alloc :: "mword \<Rightarrow> bit_alloc \<Rightarrow> (mword \<times> bit_alloc) option" where
  "ba_alloc INV s = alloc_loop (Suc (ba_MAX s)) INV (unat (last_ix s)) 0 s"

definition ba_release :: "mword \<Rightarrow> bit_alloc \<Rightarrow> mword \<Rightarrow> bit_alloc" where
  "ba_release INV s n =
     (if n = INV \<or> n \<ge> ba_max s then s
      else
        (let i = unat n div 64; b = unat n mod 64
         in if (bits s ! i) AND push_bit b 1 \<noteq> 0
            then s\<lparr>bits := snd (ba_test_clr (bits s) i b)\<rparr> else s))"

text \<open>
  The bit offset \<open>b\<close> is a remainder modulo 64 in the first round and 0 afterwards; the
  guard on it only serves termination.
\<close>

function reserve_loop :: "nat \<Rightarrow> nat \<Rightarrow> nat \<Rightarrow> mword list \<Rightarrow> mword list" where
  "reserve_loop i b cnt bs =
     (if cnt = 0 \<or> \<not> b < 64 then bs
      else
        (let c = (if cnt > 64 then 64 else cnt);
             bc = (if c > 64 - b then 64 - b else c);
             bs1 = (if bs ! i \<noteq> - 1
                    then (if bc \<ge> 64 then bs[i := - 1]
                          else bs[i := (bs ! i) OR push_bit b (push_bit bc 1 - 1)])
                    else bs)
         in reserve_loop (i + 1) 0 (cnt - bc) bs1))"
  by pat_completeness auto
termination
  by (relation "measure (\<lambda>(i, b, cnt, bs). cnt)") auto

declare reserve_loop.simps [simp del]

definition ba_reserve :: "bit_alloc \<Rightarrow> mword \<Rightarrow> mword \<Rightarrow> bit_alloc" where
  "ba_reserve s start count =
     (if start \<ge> ba_max s then s
      else
        (let cnt = (if count > ba_max s then ba_max s else count);
             cnt' = (if start + cnt > ba_max s then ba_max s - start else cnt)
         in s\<lparr>bits := reserve_loop (unat start div 64) (unat start mod 64) (unat cnt') (bits s)\<rparr>))"

subsection \<open>Identifiers in use\<close>

definition bit_at :: "mword list \<Rightarrow> nat \<Rightarrow> bool" where
  "bit_at bs k = (k < 64 * length bs \<and> bit (bs ! (k div 64)) (k mod 64))"

definition taken :: "bit_alloc \<Rightarrow> nat \<Rightarrow> bool" where
  "taken s k = bit_at (bits s) k"

definition ba_inv :: "mword \<Rightarrow> bit_alloc \<Rightarrow> bool" where
  "ba_inv INV s \<longleftrightarrow>
     0 < ba_MAX s \<and> 64 * ba_MAX s < 2 ^ 32 \<and> unat INV < 64 * ba_MAX s \<and> taken s (unat INV)"

lemma bit_at_list_update:
  assumes "i < length bs"
  shows "bit_at (bs[i := w]) k \<longleftrightarrow> (if k div 64 = i then bit w (k mod 64) else bit_at bs k)"
proof (cases "k div 64 = i")
  case True
  then have "k < 64 * length bs" using assms by (metis div_less_iff_less_mult mult.commute zero_less_numeral)
  then show ?thesis using True assms by (simp add: bit_at_def)
qed (use assms in \<open>auto simp: bit_at_def\<close>)

lemma bit_at_set:
  assumes "i < length bs" "b < 64"
  shows "bit_at (bs[i := Bit_Operations.set_bit b (bs ! i)]) k \<longleftrightarrow> k = i * 64 + b \<or> bit_at bs k"
proof -
  have "k div 64 = i \<and> k mod 64 = b \<longleftrightarrow> k = i * 64 + b" using assms(2) by auto
  moreover have "k div 64 = i \<Longrightarrow> k < 64 * length bs" using assms(1) by auto
  ultimately show ?thesis
    using assms by (auto simp: bit_at_list_update bit_simps) (auto simp: bit_at_def)
qed

lemma bit_at_unset:
  assumes "i < length bs" "b < 64"
  shows "bit_at (bs[i := Bit_Operations.unset_bit b (bs ! i)]) k \<longleftrightarrow> k \<noteq> i * 64 + b \<and> bit_at bs k"
proof -
  have "k div 64 = i \<and> k mod 64 = b \<longleftrightarrow> k = i * 64 + b" using assms(2) by auto
  moreover have "k div 64 = i \<Longrightarrow> k < 64 * length bs" using assms(1) by auto
  ultimately show ?thesis
    using assms by (auto simp: bit_at_list_update bit_simps) (auto simp: bit_at_def)
qed

subsection \<open>Allocation\<close>

lemma not_full_word:
  assumes "(w :: mword) \<noteq> - 1"
  obtains b where "bit_scan_forward (NOT w) = int b" "b < 64" "\<not> bit w b"
proof -
  have "NOT w \<noteq> 0" using assms by (metis bit.compl_zero bit.double_compl)
  then obtain b where "bit_scan_forward (NOT w) = int b" "b < 64" "bit (NOT w) b"
    by (rule bit_scan_forward_first)
  then show thesis using that by (simp add: bit_not_iff)
qed

definition alloc_outcome :: "mword \<Rightarrow> bit_alloc \<Rightarrow> mword \<Rightarrow> bit_alloc \<Rightarrow> bool" where
  "alloc_outcome INV s r s' \<longleftrightarrow>
     (if \<forall>k<64 * ba_MAX s. taken s k then r = INV \<and> s' = s
      else unat r < 64 * ba_MAX s \<and> \<not> taken s (unat r) \<and> ba_MAX s' = ba_MAX s \<and>
           (\<forall>k. taken s' k \<longleftrightarrow> k = unat r \<or> taken s k))"

lemma alloc_outcome_found:
  assumes "i < ba_MAX s" "b < 64" "\<not> bit (bits s ! i) b" "64 * ba_MAX s < 2 ^ 32"
    and "bits s' = (bits s)[i := Bit_Operations.set_bit b (bits s ! i)]"
  shows "alloc_outcome INV s (of_nat (i * 64 + b)) s'"
proof -
  have lt: "i * 64 + b < 64 * ba_MAX s" using assms(1,2) by simp
  then have u: "unat (of_nat (i * 64 + b) :: mword) = i * 64 + b"
    using assms(4) by (simp only: unat_of_nat) simp
  have "\<not> taken s (i * 64 + b)" using assms(2,3) by (simp add: taken_def bit_at_def)
  moreover have "taken s' k \<longleftrightarrow> k = i * 64 + b \<or> taken s k" for k
    using assms bit_at_set[of i "bits s" b k] by (simp add: taken_def ba_MAX_def)
  moreover have "ba_MAX s' = ba_MAX s" using assms(5) by (simp add: ba_MAX_def)
  ultimately show ?thesis using lt u unfolding alloc_outcome_def by metis
qed

lemma all_words_full:
  assumes "0 < M" "\<forall>m<M. w ! ((st + m) mod M) = (- 1 :: mword)" "i < M"
  shows "w ! i = - 1"
proof -
  define m where "m = (i + M - st mod M) mod M"
  have "(st + m) mod M = (st mod M + (i + M - st mod M)) mod M"
    by (simp add: m_def mod_add_left_eq mod_add_right_eq)
  also have "st mod M + (i + M - st mod M) = i + M" using mod_less_divisor[OF assms(1), of st] by linarith
  also have "(i + M) mod M = i" using assms(3) by simp
  finally show ?thesis using assms(1,2) by (metis m_def mod_less_divisor)
qed

lemma alloc_loop_outcome:
  assumes "0 < ba_MAX s" "64 * ba_MAX s < 2 ^ 32"
    and "j \<le> ba_MAX s" "ba_MAX s - j < n" "i mod ba_MAX s = (st + j) mod ba_MAX s"
    and "\<forall>m<j. bits s ! ((st + m) mod ba_MAX s) = - 1"
  shows "\<exists>r s'. alloc_loop n INV i j s = Some (r, s') \<and> alloc_outcome INV s r s'"
  using assms(3-6)
proof (induction n arbitrary: i j)
  case (Suc n)
  let ?M = "ba_MAX s" and ?i = "i mod ba_MAX s"
  show ?case
  proof (cases "j < ?M")
    case False
    then have "\<forall>m<?M. bits s ! ((st + m) mod ?M) = - 1" using Suc.prems by simp
    then have "taken s k" if "k < 64 * ?M" for k
      using that all_words_full[OF assms(1), of "bits s" st "k div 64"]
      by (simp add: taken_def bit_at_def ba_MAX_def less_mult_imp_div_less mult.commute)
    then show ?thesis using False by (simp add: alloc_outcome_def)
  next
    case True
    show ?thesis
    proof (cases "bits s ! ?i = - 1")
      case full: True
      have "\<exists>r s'. alloc_loop n INV (?i + 1) (j + 1) s = Some (r, s') \<and> alloc_outcome INV s r s'"
      proof (rule Suc.IH)
        show "(?i + 1) mod ?M = (st + (j + 1)) mod ?M"
          using Suc.prems(3) by (metis add.assoc mod_add_left_eq)
        show "\<forall>m<j + 1. bits s ! ((st + m) mod ?M) = - 1"
          using Suc.prems(3,4) full by (auto simp: less_Suc_eq)
      qed (use Suc.prems True in auto)
      then show ?thesis using True full by (simp add: Let_def)
    next
      case notfull: False
      obtain b where b: "bit_scan_forward (NOT (bits s ! ?i)) = int b" "b < 64" "\<not> bit (bits s ! ?i) b"
        by (rule not_full_word[OF notfull])
      have "?i < ?M" using assms(1) by simp
      note found = alloc_outcome_found[OF this b(2,3) assms(2), where INV = INV, simplified]
      show ?thesis
        using True notfull b(1,2,3) by (simp add: Let_def ba_test_set_def found)
    qed
  qed
qed simp

lemma ba_alloc_outcome:
  assumes "0 < ba_MAX s" "64 * ba_MAX s < 2 ^ 32"
  shows "\<exists>r s'. ba_alloc INV s = Some (r, s') \<and> alloc_outcome INV s r s'"
  unfolding ba_alloc_def
  by (rule alloc_loop_outcome[OF assms, where st = "unat (last_ix s)"]) simp_all

subsection \<open>Release and reservation\<close>

lemma ba_max_nat: "64 * ba_MAX s < 2 ^ 32 \<Longrightarrow> unat (ba_max s) = 64 * ba_MAX s"
  by (simp only: ba_max_def unat_of_nat) simp

lemma taken_release:
  assumes "64 * ba_MAX s < 2 ^ 32"
  shows "taken (ba_release INV s n) k \<longleftrightarrow> taken s k \<and> (k = unat n \<longrightarrow> n = INV)"
proof (cases "n = INV \<or> n \<ge> ba_max s")
  case True
  then have "taken s (unat n) \<Longrightarrow> n = INV"
    using ba_max_nat[OF assms] by (auto simp: taken_def bit_at_def ba_MAX_def word_le_nat_alt)
  with True show ?thesis by (auto simp: ba_release_def)
next
  case False
  then have "unat n div 64 < length (bits s)"
    using ba_max_nat[OF assms] by (auto simp: ba_MAX_def word_le_nat_alt not_le less_mult_imp_div_less mult.commute)
  then have u: "bit_at ((bits s)[unat n div 64 := unset_bit (unat n mod 64) (bits s ! (unat n div 64))]) k
      \<longleftrightarrow> k \<noteq> unat n \<and> bit_at (bits s) k"
    using bit_at_unset[of "unat n div 64" "bits s" "unat n mod 64" k] by simp
  have "\<not> bit (bits s ! (unat n div 64)) (unat n mod 64) \<Longrightarrow> \<not> taken s (unat n)"
    by (simp add: taken_def bit_at_def)
  then show ?thesis
    using False u unfolding ba_release_def taken_def ba_test_clr_def Let_def
    by (auto simp: bit_iff_and_push_bit_not_eq_0)
qed

lemma ba_MAX_release [simp]: "ba_MAX (ba_release INV s n) = ba_MAX s"
  by (simp add: ba_release_def ba_MAX_def Let_def ba_test_clr_def)

lemma bit_low_run: "bc < 64 \<Longrightarrow> bit (push_bit b (push_bit bc 1 - 1) :: mword) j \<longleftrightarrow> b \<le> j \<and> j < b + bc \<and> j < 64"
  unfolding push_bit_of_1 mask_eq_exp_minus_1[symmetric] by (auto simp: bit_simps)

lemma reserve_word:
  assumes "i < length bs" "b < 64" "bc \<le> 64 - b"
  shows "bit_at (if bs ! i \<noteq> - 1
                 then (if bc \<ge> 64 then bs[i := - 1]
                       else bs[i := (bs ! i) OR push_bit b (push_bit bc 1 - 1)])
                 else bs) k
         \<longleftrightarrow> bit_at bs k \<or> (i * 64 + b \<le> k \<and> k < i * 64 + b + bc)"
proof -
  have kd: "i * 64 + b \<le> k \<and> k < i * 64 + b + bc \<longleftrightarrow> k div 64 = i \<and> b \<le> k mod 64 \<and> k mod 64 < b + bc"
  proof -
    obtain q r where k: "k = q * 64 + r" "r < 64" by (metis div_mult_mod_eq mod_less_divisor zero_less_numeral)
    then have "k div 64 = q" "k mod 64 = r" by simp_all
    moreover have "i * 64 + b \<le> q * 64 + r \<and> q * 64 + r < i * 64 + b + bc \<longleftrightarrow> q = i \<and> b \<le> r \<and> r < b + bc"
      by (cases q i rule: linorder_cases) (use k(2) assms(2,3) in auto)
    ultimately show ?thesis using k by simp
  qed
  have in_r: "k div 64 = i \<Longrightarrow> k < 64 * length bs" using assms(1) by auto
  show ?thesis
    unfolding kd using assms in_r bit_low_run[of bc b "k mod 64"]
    by (auto simp: bit_at_list_update bit_simps) (auto simp: bit_at_def bit_simps)
qed

lemma reserve_loop_bits:
  assumes "b < 64" "i * 64 + b + cnt \<le> 64 * length bs"
  shows "length (reserve_loop i b cnt bs) = length bs \<and>
         (bit_at (reserve_loop i b cnt bs) k \<longleftrightarrow>
            bit_at bs k \<or> (i * 64 + b \<le> k \<and> k < i * 64 + b + cnt))"
  using assms
proof (induction cnt arbitrary: i b bs rule: less_induct)
  case (less cnt)
  show ?case
  proof (cases "cnt = 0")
    case True
    then show ?thesis using less.prems by (auto simp: reserve_loop.simps)
  next
    case False
    define c where "c = (if cnt > 64 then 64 else cnt)"
    define bc where "bc = (if c > 64 - b then 64 - b else c)"
    define bs1 where "bs1 = (if bs ! i \<noteq> - 1
      then (if bc \<ge> 64 then bs[i := - 1] else bs[i := (bs ! i) OR push_bit b (push_bit bc 1 - 1)])
      else bs)"
    have go: "reserve_loop i b cnt bs = reserve_loop (i + 1) 0 (cnt - bc) bs1"
      using False less.prems(1) by (subst reserve_loop.simps) (simp add: Let_def c_def bc_def bs1_def)
    have len: "length bs1 = length bs" by (simp add: bs1_def)
    have bc: "0 < bc" "bc \<le> cnt" "bc \<le> 64 - b" "bc = cnt \<or> bc = 64 - b"
      using False less.prems(1) by (auto simp: bc_def c_def)
    have i: "i < length bs" using less.prems False by linarith
    have fits: "(i + 1) * 64 + 0 + (cnt - bc) \<le> 64 * length bs1"
      using less.prems len bc(4) i by auto
    have "bit_at bs1 k \<longleftrightarrow> bit_at bs k \<or> (i * 64 + b \<le> k \<and> k < i * 64 + b + bc)"
      using reserve_word[OF i less.prems(1) bc(3)] by (simp only: bs1_def)
    moreover have "length (reserve_loop (i + 1) 0 (cnt - bc) bs1) = length bs1 \<and>
       (bit_at (reserve_loop (i + 1) 0 (cnt - bc) bs1) k \<longleftrightarrow>
          bit_at bs1 k \<or> ((i + 1) * 64 + 0 \<le> k \<and> k < (i + 1) * 64 + 0 + (cnt - bc)))"
      by (rule less.IH) (use bc fits in auto)
    ultimately show ?thesis using go len bc less.prems(1) by auto
  qed
qed

lemma taken_reserve:
  assumes "64 * ba_MAX s < 2 ^ 32"
  shows "taken (ba_reserve s start cnt) k \<longleftrightarrow>
           taken s k \<or> (unat start \<le> k \<and> k < unat start + unat cnt \<and> k < 64 * ba_MAX s)"
proof (cases "start \<ge> ba_max s")
  case True
  then show ?thesis using ba_max_nat[OF assms] by (auto simp: ba_reserve_def word_le_nat_alt)
next
  case False
  define c1 where "c1 = (if cnt > ba_max s then ba_max s else cnt)"
  define c2 where "c2 = (if start + c1 > ba_max s then ba_max s - start else c1)"
  note M = ba_max_nat[OF assms]
  have st: "unat start < 64 * ba_MAX s" using False M by (simp add: word_le_nat_alt)
  have u1: "unat c1 = min (unat cnt) (64 * ba_MAX s)"
    using M by (auto simp: c1_def word_less_nat_alt)
  then have "unat (start + c1) = unat start + unat c1"
    using st assms by (subst unat_plus_if') (simp add: min_def)
  then have u2: "unat c2 = min (unat cnt) (64 * ba_MAX s - unat start)"
    using M u1 st False by (auto simp: c2_def word_less_nat_alt unat_sub word_le_nat_alt)
  have "unat start div 64 * 64 + unat start mod 64 + unat c2 \<le> 64 * length (bits s)"
    using u2 st by (simp add: ba_MAX_def)
  from reserve_loop_bits[OF _ this, of k] show ?thesis
    using False u2 st unfolding ba_reserve_def c1_def c2_def Let_def taken_def ba_MAX_def by auto
qed

subsection \<open>The contract of an identifier pool\<close>

text \<open>
  What the users of the allocator rely on: an allocation returns an identifier that was not
  in use, or the reserved one and leaves the pool as it is; a release makes exactly the given
  identifier available again.
\<close>

fun alloc_many :: "('s \<Rightarrow> ('i \<times> 's) option) \<Rightarrow> nat \<Rightarrow> 's \<Rightarrow> ('i list \<times> 's) option" where
  "alloc_many al 0 s = Some ([], s)"
| "alloc_many al (Suc n) s =
     (case al s of None \<Rightarrow> None
      | Some (r, s1) \<Rightarrow> (case alloc_many al n s1 of None \<Rightarrow> None
                        | Some (rs, s2) \<Rightarrow> Some (r # rs, s2)))"

locale id_pool =
  fixes al :: "'s \<Rightarrow> ('i \<times> 's) option" and rel :: "'s \<Rightarrow> 'i \<Rightarrow> 's"
    and ids :: "'s \<Rightarrow> 'i set" and ok :: "'s \<Rightarrow> bool" and none :: 'i
  assumes al_ok: "ok s \<Longrightarrow> \<exists>r s'. al s = Some (r, s') \<and> ok s' \<and>
                    (r = none \<and> s' = s \<or> r \<notin> ids s \<and> ids s' = insert r (ids s))"
    and rel_ok: "ok s \<Longrightarrow> ok (rel s i) \<and> ids (rel s i) = (if i = none then ids s else ids s - {i})"
    and none_used: "ok s \<Longrightarrow> none \<in> ids s"
begin

lemma many_distinct:
  assumes "ok s"
  shows "\<exists>rs s'. alloc_many al n s = Some (rs, s') \<and> ok s' \<and> length rs = n \<and>
           distinct (filter (\<lambda>r. r \<noteq> none) rs) \<and>
           (\<forall>r\<in>set rs. r \<noteq> none \<longrightarrow> r \<notin> ids s) \<and> ids s' = ids s \<union> set rs"
  using assms
proof (induction n arbitrary: s)
  case 0
  then show ?case by simp
next
  case (Suc n)
  obtain r s1 where r: "al s = Some (r, s1)" "ok s1"
    "r = none \<and> s1 = s \<or> r \<notin> ids s \<and> ids s1 = insert r (ids s)"
    using al_ok[OF Suc.prems] by blast
  obtain rs s2 where rs: "alloc_many al n s1 = Some (rs, s2)" "ok s2" "length rs = n"
    "distinct (filter (\<lambda>r. r \<noteq> none) rs)" "\<forall>r\<in>set rs. r \<noteq> none \<longrightarrow> r \<notin> ids s1"
    "ids s2 = ids s1 \<union> set rs"
    using Suc.IH[OF r(2)] by blast
  show ?case using r rs none_used[OF Suc.prems] by auto
qed

lemma rel_al_available:
  assumes "ok s" "i \<noteq> none" "i \<in> ids s"
  shows "\<exists>r s'. al (rel s i) = Some (r, s') \<and> i \<notin> ids (rel s i)"
  using assms rel_ok[of s i] al_ok[of "rel s i"] by auto

end

definition ids_used :: "bit_alloc \<Rightarrow> mword set" where
  "ids_used s = {v. taken s (unat v)}"

lemma ba_inv_alloc:
  assumes "ba_inv INV s"
  obtains r s' where "ba_alloc INV s = Some (r, s')" "ba_inv INV s'" "alloc_outcome INV s r s'"
proof -
  obtain r s' where r: "ba_alloc INV s = Some (r, s')" "alloc_outcome INV s r s'"
    using assms ba_alloc_outcome[of s INV] by (auto simp: ba_inv_def)
  moreover have "ba_inv INV s'"
    using r(2) assms by (auto simp: alloc_outcome_def ba_inv_def split: if_splits)
  ultimately show thesis using that by blast
qed

interpretation bp: id_pool "ba_alloc INV" "ba_release INV" ids_used "ba_inv INV" INV for INV
proof
  fix s i assume ok: "ba_inv INV s"
  obtain r s' where r: "ba_alloc INV s = Some (r, s')" "ba_inv INV s'" "alloc_outcome INV s r s'"
    using ok by (rule ba_inv_alloc)
  then have "r = INV \<and> s' = s \<or> r \<notin> ids_used s \<and> ids_used s' = insert r (ids_used s)"
    by (auto simp: alloc_outcome_def ids_used_def word_unat_eq_iff split: if_splits)
  with r show "\<exists>r s'. ba_alloc INV s = Some (r, s') \<and> ba_inv INV s' \<and>
      (r = INV \<and> s' = s \<or> r \<notin> ids_used s \<and> ids_used s' = insert r (ids_used s))" by blast
  show "ba_inv INV (ba_release INV s i) \<and>
      ids_used (ba_release INV s i) = (if i = INV then ids_used s else ids_used s - {i})"
  proof -
    have t: "taken (ba_release INV s i) k \<longleftrightarrow> taken s k \<and> (k = unat i \<longrightarrow> i = INV)" for k
      using ok by (intro taken_release) (simp add: ba_inv_def)
    then have "ids_used (ba_release INV s i) = (if i = INV then ids_used s else ids_used s - {i})"
      by (auto simp: ids_used_def simp flip: word_unat_eq_iff)
    moreover have "ba_inv INV (ba_release INV s i)"
      using ok by (simp add: ba_inv_def t) (metis word_unat_eq_iff)
    ultimately show ?thesis by blast
  qed
  show "INV \<in> ids_used s" using ok by (simp add: ba_inv_def ids_used_def)
qed

lemma ba_inv_new:
  assumes "0 < n" "64 * n < 2 ^ 32" "unat INV < 64 * n"
  shows "ba_inv INV (Bit_alloc_new n INV)"
    and "taken (Bit_alloc_new n INV) k \<longleftrightarrow> k = unat INV"
proof -
  have i: "unat INV div 64 < length (replicate n (0::mword))" using assms(3) by auto
  show t: "taken (Bit_alloc_new n INV) k \<longleftrightarrow> k = unat INV" for k
    using bit_at_set[OF i, of "unat INV mod 64" k] i
    by (simp add: taken_def Bit_alloc_new_def ba_test_set_def) (auto simp: bit_at_def)
  show "ba_inv INV (Bit_alloc_new n INV)"
    using assms t by (simp add: ba_inv_def ba_MAX_def Bit_alloc_new_def ba_test_set_def)
qed

subsection \<open>Properties\<close>

text \<open>bit_alloc_fresh. In every state of the identifier allocator in which the reserved
  identifier is marked, an allocation ends; it returns an identifier within the capacity that
  was free, marks this identifier and no other, and it returns the reserved identifier, with
  the state unchanged, exactly when every identifier is in use.\<close>
theorem bit_alloc_fresh:
  assumes "ba_inv INV s"
  shows "\<exists>r s'. ba_alloc INV s = Some (r, s') \<and> ba_inv INV s' \<and>
     (if \<forall>k<64 * ba_MAX s. taken s k then r = INV \<and> s' = s
      else unat r < 64 * ba_MAX s \<and> \<not> taken s (unat r) \<and> (\<forall>k. taken s' k \<longleftrightarrow> k = unat r \<or> taken s k))"
proof -
  obtain r s' where "ba_alloc INV s = Some (r, s')" "ba_inv INV s'" "alloc_outcome INV s r s'"
    using assms by (rule ba_inv_alloc)
  then show ?thesis unfolding alloc_outcome_def by metis
qed

theorem bit_alloc_fresh_witness:
  "\<exists>r s'. ba_alloc 0 (Bit_alloc_new 2 0) = Some (r, s') \<and> \<not> taken (Bit_alloc_new 2 0) (unat r)"
proof -
  have "ba_inv 0 (Bit_alloc_new 2 0)" by (rule ba_inv_new) simp_all
  moreover have "\<not> (\<forall>k<64 * ba_MAX (Bit_alloc_new 2 0). taken (Bit_alloc_new 2 0) k)"
    using ba_inv_new(2)[of 2 0 1] by (auto simp: ba_MAX_def Bit_alloc_new_def ba_test_set_def intro!: exI[of _ 1])
  ultimately show ?thesis using bit_alloc_fresh[of 0 "Bit_alloc_new 2 0"] by metis
qed

text \<open>C30: bit_alloc_distinct. Any number of allocations in a row yields pairwise different
  identifiers, apart from repeated failures, none of which was in use before.\<close>
theorem bit_alloc_distinct:
  assumes "ba_inv INV s"
  shows "\<exists>rs s'. alloc_many (ba_alloc INV) n s = Some (rs, s') \<and> length rs = n \<and>
           distinct (filter (\<lambda>r. r \<noteq> INV) rs) \<and> (\<forall>r\<in>set rs. r \<noteq> INV \<longrightarrow> r \<notin> ids_used s)"
  using bp.many_distinct[OF assms, of n] by blast

theorem bit_alloc_distinct_witness:
  "\<exists>rs s'. alloc_many (ba_alloc 0) 3 (Bit_alloc_new 2 0) = Some (rs, s') \<and> length rs = 3 \<and>
     distinct (filter (\<lambda>r. r \<noteq> 0) rs)"
  using bit_alloc_distinct[OF ba_inv_new(1)[of 2 0], of 3] by auto

text \<open>bit_alloc_reserve. A reservation marks exactly the identifiers of the requested range
  that lie within the capacity, in addition to those in use, also when the range does not start
  at a word boundary or its length is larger than the capacity; a release frees exactly
  the given identifier and never the reserved one.\<close>
theorem bit_alloc_reserve:
  assumes "ba_inv INV s"
  shows "(taken (ba_reserve s start cnt) k \<longleftrightarrow>
            taken s k \<or> (unat start \<le> k \<and> k < unat start + unat cnt \<and> k < 64 * ba_MAX s)) \<and>
         (taken (ba_release INV s n) k \<longleftrightarrow> taken s k \<and> (k = unat n \<longrightarrow> n = INV))"
  using assms taken_reserve[of s start cnt k] taken_release[of s INV n k] by (simp_all add: ba_inv_def)

theorem bit_alloc_reserve_witness:
  "taken (ba_reserve (Bit_alloc_new 2 0) 60 10) 69 \<and> \<not> taken (ba_reserve (Bit_alloc_new 2 0) 60 10) 70"
  using bit_alloc_reserve[OF ba_inv_new(1)[of 2 0], of 60 10 69]
    bit_alloc_reserve[OF ba_inv_new(1)[of 2 0], of 60 10 70] ba_inv_new(2)[of 2 0 70]
  by (simp add: ba_MAX_def Bit_alloc_new_def ba_test_set_def)

end
