(* ===== verification/Spinlock.thy ===== *)
theory Spinlock
  imports Prelude
begin

text \<open>
  The ticket lock of \<open>include/spinlock.hpp\<close> and the guard of
  \<open>include/lock_guard.hpp\<close>. The lock is one 16-bit word: the high byte is the next
  ticket, the low byte the ticket being served. The instruction sequence of \<open>lock\<close> is a
  transition system over all CPUs: the atomic \<open>xadd\<close>, the comparison of the two bytes of
  the local copy, the reload of its low byte, and the \<open>incb\<close> of \<open>unlock\<close>. A CPU
  is named by an 8-bit word, as \<open>NUM_CPU\<close> is 256.
\<close>

type_synonym spinlock = u16

definition hi_byte :: "u16 \<Rightarrow> u8" where
  "hi_byte v = ucast (drop_bit 8 v)"

definition lo_byte :: "u16 \<Rightarrow> u8" where
  "lo_byte v = ucast v"

definition set_lo_byte :: "u16 \<Rightarrow> u8 \<Rightarrow> u16" where
  "set_lo_byte v b = push_bit 8 (ucast (hi_byte v)) OR ucast b"

definition Spinlock_new :: spinlock where
  "Spinlock_new = 0"

definition lock_xadd :: "spinlock \<Rightarrow> u16 \<times> spinlock" where
  "lock_xadd val = (val, val + 0x100)"

definition lock_reload :: "spinlock \<Rightarrow> u16 \<Rightarrow> u16" where
  "lock_reload val tmp = set_lo_byte tmp (lo_byte val)"

definition lock_granted :: "u16 \<Rightarrow> bool" where
  "lock_granted tmp = (hi_byte tmp = lo_byte tmp)"

definition unlock :: "spinlock \<Rightarrow> spinlock" where
  "unlock val = set_lo_byte val (lo_byte val + 1)"

datatype pc = Out | Cmp u16 | Pause u16 | Held

record lock_state =
  lk_val :: spinlock
  lk_pc :: "u8 \<Rightarrow> pc"

definition lock_init :: lock_state where
  "lock_init = \<lparr>lk_val = Spinlock_new, lk_pc = (\<lambda>_. Out)\<rparr>"

inductive lock_step :: "lock_state \<Rightarrow> lock_state \<Rightarrow> bool" where
  ls_xadd: "lk_pc s c = Out \<Longrightarrow> lock_xadd (lk_val s) = (tmp, v) \<Longrightarrow>
     lock_step s (s\<lparr>lk_val := v, lk_pc := (lk_pc s)(c := Cmp tmp)\<rparr>)"
| ls_enter: "lk_pc s c = Cmp tmp \<Longrightarrow> lock_granted tmp \<Longrightarrow>
     lock_step s (s\<lparr>lk_pc := (lk_pc s)(c := Held)\<rparr>)"
| ls_wait: "lk_pc s c = Cmp tmp \<Longrightarrow> \<not> lock_granted tmp \<Longrightarrow>
     lock_step s (s\<lparr>lk_pc := (lk_pc s)(c := Pause tmp)\<rparr>)"
| ls_reload: "lk_pc s c = Pause tmp \<Longrightarrow>
     lock_step s (s\<lparr>lk_pc := (lk_pc s)(c := Cmp (lock_reload (lk_val s) tmp))\<rparr>)"
| ls_unlock: "lk_pc s c = Held \<Longrightarrow>
     lock_step s (s\<lparr>lk_val := unlock (lk_val s), lk_pc := (lk_pc s)(c := Out)\<rparr>)"

inductive_cases lock_stepE: "lock_step s t"

subsection \<open>The two bytes\<close>

lemma lo_byte_set [simp]: "lo_byte (set_lo_byte v b) = b"
  by (rule bit_word_eqI) (auto simp: lo_byte_def set_lo_byte_def bit_simps)

lemma hi_byte_set [simp]: "hi_byte (set_lo_byte v b) = hi_byte v"
  by (rule bit_word_eqI) (auto simp: hi_byte_def set_lo_byte_def bit_simps dest: bit_imp_le_length)

lemma unat_hi_byte: "unat (hi_byte v) = unat v div 256"
proof -
  have "unat v < 2 ^ 16" using unsigned_less[where 'a = nat, of v] by simp
  then show ?thesis
    by (simp add: hi_byte_def unsigned_ucast_eq drop_bit_eq_div take_bit_eq_mod unat_div_distrib)
qed

lemma unat_lo_byte: "unat (lo_byte v) = unat v mod 256"
  by (simp add: lo_byte_def unsigned_ucast_eq take_bit_eq_mod)

lemma xadd_bytes [simp]:
  "lo_byte (v + 0x100) = lo_byte v" "hi_byte (v + 0x100) = hi_byte v + 1"
proof -
  have lt: "unat v < 65536" using unsigned_less[where 'a = nat, of v] by simp
  have u: "unat (v + 0x100) = (unat v + 256) mod 65536"
    by (simp add: unat_word_ariths)
  have "unat (lo_byte (v + 0x100)) = unat (lo_byte v)"
    by (simp add: unat_lo_byte u mod_mod_cancel)
  then show "lo_byte (v + 0x100) = lo_byte v" by (simp only: word_unat_eq_iff)
  have "unat (hi_byte (v + 0x100)) = (unat v div 256 + 1) mod 256"
  proof (cases "unat v + 256 < 65536")
    case True
    then show ?thesis by (simp add: unat_hi_byte u)
  next
    case False
    then have "(unat v + 256) mod 65536 = unat v + 256 - 65536"
      using lt mod_if[of "unat v + 256" 65536] by simp
    moreover have "unat v div 256 = 255" using lt False by simp
    ultimately show ?thesis using lt False by (simp add: unat_hi_byte u)
  qed
  also have "\<dots> = unat (hi_byte v + 1)" by (simp add: unat_word_ariths unat_hi_byte)
  finally show "hi_byte (v + 0x100) = hi_byte v + 1" by (simp only: word_unat_eq_iff)
qed

lemma unlock_bytes [simp]:
  "lo_byte (unlock v) = lo_byte v + 1" "hi_byte (unlock v) = hi_byte v"
  by (simp_all add: unlock_def)

lemma reload_bytes [simp]:
  "lo_byte (lock_reload v t) = lo_byte v" "hi_byte (lock_reload v t) = hi_byte t"
  by (simp_all add: lock_reload_def)

subsection \<open>The queue of waiting CPUs\<close>

text \<open>
  A state of the lock stands for the list \<open>q\<close> of the CPUs between their \<open>xadd\<close>
  and their \<open>unlock\<close>, in the order of their tickets. The low byte of a local copy may be
  stale, by \<open>k\<close> increments; it stays away from the ticket because \<open>i + k\<close> never
  reaches 256.
\<close>

definition place_ok :: "spinlock \<Rightarrow> nat \<Rightarrow> pc \<Rightarrow> bool" where
  "place_ok v i p =
     (case p of Out \<Rightarrow> False | Held \<Rightarrow> i = 0
      | Cmp t \<Rightarrow> hi_byte t = lo_byte v + of_nat i \<and> (\<exists>k. i + k < 256 \<and> lo_byte t = lo_byte v - of_nat k)
      | Pause t \<Rightarrow> hi_byte t = lo_byte v + of_nat i \<and> (\<exists>k. i + k < 256 \<and> lo_byte t = lo_byte v - of_nat k))"

definition lock_inv :: "lock_state \<Rightarrow> u8 list \<Rightarrow> bool" where
  "lock_inv s q \<longleftrightarrow> distinct q \<and> set q = {c. lk_pc s c \<noteq> Out} \<and>
     hi_byte (lk_val s) = lo_byte (lk_val s) + of_nat (length q) \<and>
     (\<forall>i<length q. place_ok (lk_val s) i (lk_pc s (q ! i)))"

definition lock_held :: "lock_state \<Rightarrow> bool" where
  "lock_held s \<longleftrightarrow> (\<exists>c. lk_pc s c = Held)"

inductive fifo_lock_step :: "u8 list \<times> bool \<Rightarrow> u8 list \<times> bool \<Rightarrow> bool" where
  fl_arrive: "c \<notin> set q \<Longrightarrow> fifo_lock_step (q, h) (q @ [c], h)"
| fl_enter: "fifo_lock_step (c # q, False) (c # q, True)"
| fl_leave: "fifo_lock_step (c # q, True) (q, False)"

lemma held_upd: "f c \<noteq> Held \<Longrightarrow> p \<noteq> Held \<Longrightarrow> (\<exists>d. (f(c := p)) d = Held) \<longleftrightarrow> (\<exists>d. f d = Held)"
  by (metis fun_upd_other fun_upd_same)

lemma length_cpus: "distinct (q :: u8 list) \<Longrightarrow> length q \<le> 256"
  using card_mono[of UNIV "set q"] distinct_card[of q] by (simp add: card_word)

lemma of_nat_u8_0: "m < 256 \<Longrightarrow> (of_nat m :: u8) = 0 \<longleftrightarrow> m = 0"
  by (auto simp: word_unat_eq_iff unat_of_nat)

lemma place_granted:
  assumes "place_ok v i (Cmp t)" "lock_granted t"
  shows "i = 0"
proof -
  obtain k where k: "i + k < 256" "lo_byte t = lo_byte v - of_nat k" and h: "hi_byte t = lo_byte v + of_nat i"
    using assms(1) by (auto simp: place_ok_def)
  then have "lo_byte v + of_nat i = lo_byte v - (of_nat k :: u8)" using assms(2) by (simp add: lock_granted_def)
  then have "(of_nat i + of_nat k :: u8) = 0" by (simp add: algebra_simps)
  then have "(of_nat (i + k) :: u8) = 0" by simp
  then show ?thesis using of_nat_u8_0[OF k(1)] by simp
qed

lemma place_reload:
  assumes "place_ok v i (Pause t)" "i < 256"
  shows "place_ok v i (Cmp (lock_reload v t))"
  using assms by (auto simp: place_ok_def intro!: exI[of _ 0])

lemma place_unlock:
  assumes "place_ok v (Suc i) p"
  shows "place_ok (unlock v) i p"
proof -
  have "\<exists>k. i + k < 256 \<and> lo_byte t = lo_byte v + 1 - of_nat k"
    if "\<exists>k. Suc i + k < 256 \<and> lo_byte t = lo_byte v - of_nat k" for t
  proof -
    from that obtain k where "Suc i + k < 256" "lo_byte t = lo_byte v - of_nat k" by blast
    then show ?thesis by (intro exI[of _ "Suc k"]) simp
  qed
  with assms show ?thesis by (cases p) (auto simp: place_ok_def algebra_simps)
qed

lemma lock_inv_init: "lock_inv lock_init []"
  by (simp add: lock_inv_def lock_init_def Spinlock_new_def hi_byte_def lo_byte_def)

lemma lock_inv_update:
  assumes inv: "lock_inv s q" and i: "i < length q" and p: "place_ok (lk_val s) i p" "p \<noteq> Out"
  shows "lock_inv (s\<lparr>lk_pc := (lk_pc s)(q ! i := p)\<rparr>) q"
proof -
  have "q ! j \<noteq> q ! i" if "j < length q" "j \<noteq> i" for j
    using inv i that by (simp add: lock_inv_def nth_eq_iff_index_eq)
  moreover have "q ! i \<in> set q" using i by simp
  ultimately show ?thesis using assms unfolding lock_inv_def by auto
qed

lemma lock_inv_index:
  assumes "lock_inv s q" "lk_pc s c \<noteq> Out"
  obtains i where "i < length q" "q ! i = c" "place_ok (lk_val s) i (lk_pc s c)" "i < 256"
proof -
  have "c \<in> set q" using assms by (simp add: lock_inv_def)
  then obtain i where "i < length q" "q ! i = c" by (auto simp: in_set_conv_nth)
  with assms length_cpus[of q] show thesis by (intro that[of i]) (auto simp: lock_inv_def)
qed

lemma lock_held_head:
  assumes "lock_inv s q" "lk_pc s c = Held"
  shows "\<exists>q'. q = c # q'"
proof -
  obtain i where "i < length q" "q ! i = c" "place_ok (lk_val s) i (lk_pc s c)"
    using assms by (auto elim: lock_inv_index[where c = c])
  then show ?thesis using assms(2) by (cases q) (auto simp: place_ok_def)
qed

lemma lock_inv_arrive:
  assumes inv: "lock_inv s q" and c: "lk_pc s c = Out"
  shows "lock_inv (s\<lparr>lk_val := lk_val s + 0x100, lk_pc := (lk_pc s)(c := Cmp (lk_val s))\<rparr>) (q @ [c])"
proof -
  have nin: "c \<notin> set q" using inv c by (simp add: lock_inv_def)
  then have len: "length q < 256" using inv length_cpus[of "c # q"] by (simp add: lock_inv_def)
  have same: "place_ok (v + 0x100) i p = place_ok v i p" for v i p
    by (simp add: place_ok_def split: pc.split)
  have "place_ok (lk_val s) (length q) (Cmp (lk_val s))"
    using inv len by (auto simp: place_ok_def lock_inv_def intro!: exI[of _ 0])
  then have "place_ok (lk_val s) i (((lk_pc s)(c := Cmp (lk_val s))) ((q @ [c]) ! i))" if "i < length (q @ [c])" for i
    using that inv nin by (auto simp: lock_inv_def nth_append less_Suc_eq)
  then show ?thesis using inv nin unfolding lock_inv_def by (auto simp: same algebra_simps)
qed

lemma lock_inv_leave:
  assumes inv: "lock_inv s (c # q)"
  shows "lock_inv (s\<lparr>lk_val := unlock (lk_val s), lk_pc := (lk_pc s)(c := Out)\<rparr>) q"
proof -
  have "place_ok (unlock (lk_val s)) i (lk_pc s (q ! i))" if "i < length q" for i
    using inv that by (intro place_unlock) (auto simp: lock_inv_def)
  then show ?thesis using inv unfolding lock_inv_def by (auto simp: algebra_simps)
qed

text \<open>Every step of the lock is a step of the first-come first-served lock, or no step of it.\<close>

lemma lock_step_sim:
  assumes "lock_step s t" "lock_inv s q"
  shows "\<exists>q'. lock_inv t q' \<and>
           ((q', lock_held t) = (q, lock_held s) \<or> fifo_lock_step (q, lock_held s) (q', lock_held t))"
  using assms
proof cases
  case (ls_xadd c tmp v)
  then have t: "t = s\<lparr>lk_val := lk_val s + 0x100, lk_pc := (lk_pc s)(c := Cmp (lk_val s))\<rparr>"
    by (auto simp: lock_xadd_def)
  have "lock_held t = lock_held s" using ls_xadd(2) held_upd[of "lk_pc s" c "Cmp (lk_val s)"] by (simp add: t lock_held_def)
  moreover have "c \<notin> set q" using assms(2) ls_xadd(2) by (simp add: lock_inv_def)
  ultimately show ?thesis
    using lock_inv_arrive[OF assms(2) ls_xadd(2)] unfolding t[symmetric] by (auto intro: fl_arrive)
next
  case (ls_enter c tmp)
  obtain i where i: "i < length q" "q ! i = c" "place_ok (lk_val s) i (lk_pc s c)"
    using assms(2) ls_enter(2) by (auto elim: lock_inv_index[where c = c])
  then have "i = 0" using place_granted ls_enter by metis
  have inv: "lock_inv t q"
    using lock_inv_update[OF assms(2) i(1), of Held] i \<open>i = 0\<close> ls_enter(1) by (simp add: place_ok_def)
  obtain q' where q: "q = c # q'" using i \<open>i = 0\<close> by (cases q) auto
  have "\<not> lock_held s"
    using lock_held_head[OF assms(2)] q ls_enter(2) by (fastforce simp: lock_held_def)
  moreover have "lock_held t" by (auto simp: ls_enter(1) lock_held_def)
  ultimately show ?thesis using inv q by (auto intro: fl_enter)
next
  case (ls_wait c tmp)
  obtain i where i: "i < length q" "q ! i = c" "place_ok (lk_val s) i (lk_pc s c)"
    using assms(2) ls_wait(2) by (auto elim: lock_inv_index[where c = c])
  have "lock_inv t q"
    using lock_inv_update[OF assms(2) i(1), of "Pause tmp"] i ls_wait by (simp add: place_ok_def)
  moreover have "lock_held t = lock_held s" using ls_wait held_upd[of "lk_pc s" c "Pause tmp"] by (simp add: lock_held_def)
  ultimately show ?thesis by blast
next
  case (ls_reload c tmp)
  obtain i where i: "i < length q" "q ! i = c" "place_ok (lk_val s) i (lk_pc s c)" "i < 256"
    using assms(2) ls_reload(2) by (auto elim: lock_inv_index[where c = c])
  have "lock_inv t q"
    using lock_inv_update[OF assms(2) i(1) place_reload[OF _ i(4), of "lk_val s" tmp]] i ls_reload by simp
  moreover have "lock_held t = lock_held s" using ls_reload held_upd[of "lk_pc s" c "Cmp (lock_reload (lk_val s) tmp)"]
    by (simp add: lock_held_def)
  ultimately show ?thesis by blast
next
  case (ls_unlock c)
  obtain q' where q: "q = c # q'" using lock_held_head[OF assms(2) ls_unlock(2)] by blast
  have "d = c" if "lk_pc s d = Held" for d using lock_held_head[OF assms(2) that] q by simp
  then have "\<not> lock_held t" by (auto simp: ls_unlock(1) lock_held_def)
  moreover have "lock_held s" using ls_unlock(2) by (auto simp: lock_held_def)
  ultimately show ?thesis
    using lock_inv_leave assms(2) q ls_unlock(1) by (auto intro: fl_leave)
qed

lemma lock_reach_inv: "lock_step\<^sup>*\<^sup>* lock_init s \<Longrightarrow> \<exists>q. lock_inv s q"
  by (induction rule: rtranclp_induct) (use lock_inv_init lock_step_sim in blast)+

subsection \<open>The guard\<close>

text \<open>
  \<open>Lock_guard\<close> samples the interrupt flag, disables preemption if it was on, takes the
  lock, and undoes both in its destructor. Taking the lock is waiting for the transition
  system above, so here the guard is the change of the CPU-local state around it.
\<close>

record cpu_local =
  preemption :: bool
  intr_flag :: bool

definition preempt_disable :: "cpu_local \<Rightarrow> cpu_local result" where
  "preempt_disable s =
     (if preemption s then Inr (s\<lparr>intr_flag := False, preemption := False\<rparr>) else Inl Assert_failed)"

definition preempt_enable :: "cpu_local \<Rightarrow> cpu_local result" where
  "preempt_enable s =
     (if \<not> preemption s then Inr (s\<lparr>preemption := True, intr_flag := True\<rparr>) else Inl Assert_failed)"

definition preempt_status :: "cpu_local \<Rightarrow> bool" where
  "preempt_status s = intr_flag s"

definition Lock_guard_new :: "cpu_local \<Rightarrow> (bool \<times> cpu_local) result" where
  "Lock_guard_new s =
     (let pre = preempt_status s
      in bind_result (if pre then preempt_disable s else Inr s) (\<lambda>s. Inr (pre, s)))"

definition Lock_guard_delete :: "bool \<Rightarrow> cpu_local \<Rightarrow> cpu_local result" where
  "Lock_guard_delete pre s = (if pre then preempt_enable s else Inr s)"

subsection \<open>Properties\<close>

text \<open>C7: spinlock_mutex. In every state that the CPUs can reach by any interleaving of the lock
  and unlock sequences, at most one CPU is past its \<open>lock\<close> and before its \<open>unlock\<close>.
  The 256 tickets suffice because there are at most 256 CPUs, stale copies included.\<close>
theorem spinlock_mutex:
  assumes "lock_step\<^sup>*\<^sup>* lock_init s" "lk_pc s c = Held" "lk_pc s d = Held"
  shows "c = d"
proof -
  obtain q where "lock_inv s q" using lock_reach_inv[OF assms(1)] by blast
  from lock_held_head[OF this assms(2)] lock_held_head[OF this assms(3)] show ?thesis by auto
qed

text \<open>spinlock_fifo. The ticket lock refines a first-come first-served lock: every reachable
  state stands for a queue of CPUs, in the order of their \<open>xadd\<close>; every step either
  leaves queue and holder as they are, or appends a CPU that arrives, or lets the
  front CPU enter while nobody holds the lock, or removes the front CPU as it leaves.\<close>
theorem spinlock_fifo:
  assumes "lock_step\<^sup>*\<^sup>* lock_init s"
  shows "\<exists>q. lock_inv s q \<and>
     (\<forall>t. lock_step s t \<longrightarrow>
        (\<exists>q'. lock_inv t q' \<and>
           ((q', lock_held t) = (q, lock_held s) \<or> fifo_lock_step (q, lock_held s) (q', lock_held t))))"
  using lock_reach_inv[OF assms] lock_step_sim by blast

text \<open>spinlock_progress. When no CPU holds the lock, the CPU with the oldest ticket gets
  it as soon as it reloads the served ticket: the lock is never lost.\<close>
theorem spinlock_progress:
  assumes "lock_inv s (c # q)" "lk_pc s c = Pause tmp"
  shows "lock_granted (lock_reload (lk_val s) tmp)"
  using assms by (force simp: lock_inv_def place_ok_def lock_granted_def)

lemma lock_one_in:
  "lock_step\<^sup>*\<^sup>* lock_init \<lparr>lk_val = 0x100, lk_pc = (\<lambda>_. Out)(3 := Held)\<rparr>"
proof -
  let ?s = "\<lparr>lk_val = 0x100, lk_pc = (\<lambda>_. Out)(3 := Cmp 0)\<rparr>"
  have "lock_step lock_init ?s"
    using ls_xadd[of lock_init 3 0 "0x100"] by (simp add: lock_init_def lock_xadd_def Spinlock_new_def)
  moreover have "lock_step ?s \<lparr>lk_val = 0x100, lk_pc = (\<lambda>_. Out)(3 := Held)\<rparr>"
    using ls_enter[of ?s 3 0] by (simp add: lock_granted_def hi_byte_def lo_byte_def)
  ultimately show ?thesis by (meson converse_rtranclp_into_rtranclp r_into_rtranclp)
qed

theorem spinlock_mutex_witness:
  "\<exists>s. lock_step\<^sup>*\<^sup>* lock_init s \<and> lk_pc s 3 = Held \<and> (\<forall>d. lk_pc s d = Held \<longrightarrow> 3 = d)"
proof (intro exI conjI allI impI)
  let ?s = "\<lparr>lk_val = 0x100, lk_pc = (\<lambda>_. Out)(3 := Held)\<rparr>"
  show "lock_step\<^sup>*\<^sup>* lock_init ?s" by (rule lock_one_in)
  show held: "lk_pc ?s 3 = Held" by simp
  show "3 = d" if "lk_pc ?s d = Held" for d by (rule spinlock_mutex[OF lock_one_in held that])
qed

theorem spinlock_fifo_witness:
  "\<exists>q. lock_inv \<lparr>lk_val = 0x100, lk_pc = (\<lambda>_. Out)(3 := Held)\<rparr> q"
  using spinlock_fifo[OF lock_one_in] by blast

theorem spinlock_progress_witness:
  "lock_granted (lock_reload (lk_val \<lparr>lk_val = 0x605, lk_pc = (\<lambda>_. Out)(3 := Pause 0x504)\<rparr>) 0x504)"
proof (rule spinlock_progress)
  show "lock_inv \<lparr>lk_val = 0x605, lk_pc = (\<lambda>_. Out)(3 := Pause 0x504)\<rparr> [3]"
    by (auto simp: lock_inv_def place_ok_def hi_byte_def lo_byte_def intro!: exI[of _ 1])
qed simp

end
