(* ===== verification/Ring.thy ===== *)
theory Ring
  imports Prelude
begin

text \<open>
  Circular doubly linked lists, the shape behind \<open>Queue<T>\<close>, the ready and remote
  queues of \<open>Sc\<close>, the mapping database list of \<open>Mdb\<close> and the block lists of
  \<open>Buddy\<close>. The link fields of all elements form one store; a null pointer is
  \<^term>\<open>None\<close>. The predicate \<open>ring\<close> relates the store to the list of elements
  met from a given element on; insertion and removal are proved once, here.
\<close>

record 'a links =
  lnext :: "'a \<Rightarrow> 'a option"
  lprev :: "'a \<Rightarrow> 'a option"

fun linked :: "'a links \<Rightarrow> 'a list \<Rightarrow> bool" where
  "linked l [] \<longleftrightarrow> True"
| "linked l [x] \<longleftrightarrow> True"
| "linked l (x # y # zs) \<longleftrightarrow> lnext l x = Some y \<and> lprev l y = Some x \<and> linked l (y # zs)"

definition ring :: "'a links \<Rightarrow> 'a list \<Rightarrow> bool" where
  "ring l xs \<longleftrightarrow> distinct xs \<and> (xs \<noteq> [] \<longrightarrow> linked l (xs @ [hd xs]))"

definition unlinked :: "'a links \<Rightarrow> 'a \<Rightarrow> bool" where
  "unlinked l t \<longleftrightarrow> lnext l t = None \<and> lprev l t = None"

definition set_next :: "'a \<Rightarrow> 'a option \<Rightarrow> 'a links \<Rightarrow> 'a links" where
  "set_next x v l = l\<lparr>lnext := (lnext l)(x := v)\<rparr>"

definition set_prev :: "'a \<Rightarrow> 'a option \<Rightarrow> 'a links \<Rightarrow> 'a links" where
  "set_prev x v l = l\<lparr>lprev := (lprev l)(x := v)\<rparr>"

lemma set_links_sel [simp]:
  "lnext (set_next x v l) = (lnext l)(x := v)"
  "lprev (set_next x v l) = lprev l"
  "lnext (set_prev x v l) = lnext l"
  "lprev (set_prev x v l) = (lprev l)(x := v)"
  by (simp_all add: set_next_def set_prev_def)

subsection \<open>Paths\<close>

lemma linked_append: "linked l (as @ a # bs) \<longleftrightarrow> linked l (as @ [a]) \<and> linked l (a # bs)"
proof (induction as)
  case (Cons x as)
  then show ?case by (cases as) auto
qed simp

lemma linked_cong:
  assumes "\<And>x. x \<in> set (butlast xs) \<Longrightarrow> lnext l' x = lnext l x"
    and "\<And>x. x \<in> set (tl xs) \<Longrightarrow> lprev l' x = lprev l x"
  shows "linked l' xs = linked l xs"
  using assms
proof (induction xs rule: induct_list012)
  case (3 x y zs)
  then show ?case by (cases zs) auto
qed auto

lemma ring_cong:
  assumes "\<And>x. x \<in> set xs \<Longrightarrow> lnext l' x = lnext l x" "\<And>x. x \<in> set xs \<Longrightarrow> lprev l' x = lprev l x"
  shows "ring l' xs = ring l xs"
proof (cases "xs = []")
  case False
  then have "linked l' (xs @ [hd xs]) = linked l (xs @ [hd xs])"
    using assms by (intro linked_cong) (auto simp: tl_append2 butlast_append dest: list.set_sel)
  then show ?thesis by (simp add: ring_def)
qed (simp add: ring_def)

subsection \<open>Rings\<close>

lemma ring_Nil [simp]: "ring l []"
  by (simp add: ring_def)

lemma ring_single [simp]: "ring l [x] \<longleftrightarrow> lnext l x = Some x \<and> lprev l x = Some x"
  by (simp add: ring_def)

lemma ring_distinct: "ring l xs \<Longrightarrow> distinct xs"
  by (simp add: ring_def)

lemma ring_rotate: "ring l (as @ bs) \<Longrightarrow> ring l (bs @ as)"
proof (cases as; cases bs)
  fix a as' b bs'
  assume r: "ring l (as @ bs)" and eq: "as = a # as'" "bs = b # bs'"
  from r have "linked l ((a # as') @ b # bs' @ [a])" by (simp add: ring_def eq)
  then have "linked l ((a # as') @ [b])" "linked l (b # bs' @ [a])"
    using linked_append[of l "a # as'" b "bs' @ [a]"] by auto
  then have "linked l ((b # bs') @ a # as' @ [b])"
    using linked_append[of l "b # bs'" a "as' @ [b]"] by simp
  then show ?thesis using r by (auto simp: ring_def eq)
qed auto

lemma ring_to_front:
  assumes "ring l xs" "t \<in> set xs"
  obtains as bs where "xs = as @ t # bs" "ring l (t # bs @ as)"
proof -
  obtain as bs where "xs = as @ t # bs" using split_list[OF assms(2)] by blast
  with assms(1) ring_rotate[of l as "t # bs"] show thesis by (intro that[of as bs]) auto
qed

lemma ring_next_prev:
  assumes "ring l (t # zs)"
  shows "lnext l t = Some (hd (zs @ [t]))" "lprev l t = Some (last (t # zs))"
proof -
  from assms have lk: "linked l (t # zs @ [t])" by (simp add: ring_def)
  then show "lnext l t = Some (hd (zs @ [t]))" by (cases zs) auto
  obtain ys y where y: "t # zs = ys @ [y]" by (metis list.distinct(1) rev_exhaust)
  then have "linked l (ys @ y # [t])" using lk by (metis append_Cons append.assoc append_Nil)
  then have "linked l (y # [t])" using linked_append[of l ys y "[t]"] by simp
  then show "lprev l t = Some (last (t # zs))" by (simp add: y)
qed

lemma ring_some:
  assumes "ring l xs" "t \<in> set xs"
  shows "\<exists>y \<in> set xs. lnext l t = Some y" "\<exists>y \<in> set xs. lprev l t = Some y"
proof -
  obtain as bs where xs: "xs = as @ t # bs" and r: "ring l (t # bs @ as)"
    using assms by (rule ring_to_front)
  show "\<exists>y \<in> set xs. lnext l t = Some y"
    using ring_next_prev(1)[OF r] hd_in_set[of "(bs @ as) @ [t]"] xs by auto
  show "\<exists>y \<in> set xs. lprev l t = Some y"
    using ring_next_prev(2)[OF r] last_in_set[of "t # bs @ as"] xs by auto
qed

text \<open>Insertion between the last element and the first, the tail end of the ring.\<close>

lemma ring_insert_last:
  assumes r: "ring l (h # ys)" and t: "t \<notin> set (h # ys)" and e: "e = last (h # ys)"
    and n: "lnext l' = (lnext l)(t := Some h, e := Some t)"
    and p: "lprev l' = (lprev l)(t := Some e, h := Some t)"
  shows "ring l' (h # ys @ [t])"
proof -
  obtain zs where zs: "h # ys = zs @ [e]" by (metis append_butlast_last_id e list.distinct(1))
  have d: "distinct (zs @ [e])" using r by (simp add: ring_def flip: zs)
  from r have "linked l ((h # ys) @ [h])" by (simp add: ring_def)
  then have "linked l (zs @ e # [h])" by (simp only: zs append_assoc append_Cons append_Nil)
  then have lk: "linked l (zs @ [e])" using linked_append[of l zs e "[h]"] by simp
  have "linked l' (zs @ [e]) = linked l (zs @ [e])"
  proof (rule linked_cong)
    fix x assume "x \<in> set (butlast (zs @ [e]))"
    then have "x \<noteq> e" "x \<noteq> t" using d t by (auto simp: zs)
    then show "lnext l' x = lnext l x" by (simp add: n)
  next
    fix x assume x: "x \<in> set (tl (zs @ [e]))"
    then have "x \<in> set ys" by (simp flip: zs)
    then have "x \<noteq> h" "x \<noteq> t" using r t by (auto simp: ring_def)
    then show "lprev l' x = lprev l x" by (simp add: p)
  qed
  moreover have "h \<noteq> t" "e \<noteq> t" using t by auto (use t zs in auto)
  ultimately have "linked l' (zs @ e # [t, h])"
    using lk linked_append[of l' zs e "[t, h]"] by (auto simp: n p)
  then have "linked l' ((h # ys) @ [t, h])" by (simp add: zs)
  then show ?thesis using r t by (auto simp: ring_def)
qed

text \<open>Removal of the front element; with rotation this removes any element.\<close>

lemma ring_remove_front:
  assumes r: "ring l (t # zs)" and z: "zs \<noteq> []"
    and n: "\<And>x. x \<noteq> t \<Longrightarrow> lnext l' x = ((lnext l)(last zs := Some (hd zs))) x"
    and p: "\<And>x. x \<noteq> t \<Longrightarrow> lprev l' x = ((lprev l)(hd zs := Some (last zs))) x"
  shows "ring l' zs"
proof -
  obtain ys e where ys: "zs = ys @ [e]" using z by (metis rev_exhaust)
  have d: "distinct zs" "t \<notin> set zs" using r by (auto simp: ring_def)
  have "linked l (t # zs @ [t])" using r by (simp add: ring_def)
  then have "linked l (zs @ [t])" by (cases zs) auto
  then have lk: "linked l (ys @ [e])" using linked_append[of l ys e "[t]"] by (simp add: ys)
  have "linked l' (ys @ [e]) = linked l (ys @ [e])"
  proof (rule linked_cong)
    fix x assume "x \<in> set (butlast (ys @ [e]))"
    then have "x \<noteq> e" "x \<noteq> t" using d by (auto simp: ys)
    then show "lnext l' x = lnext l x" using n by (simp add: ys)
  next
    fix x assume "x \<in> set (tl (ys @ [e]))"
    then have "x \<noteq> hd zs" "x \<noteq> t" using d z by (auto simp: ys) (cases ys; auto)+
    then show "lprev l' x = lprev l x" using p by simp
  qed
  moreover have "e \<noteq> t" "hd zs \<noteq> t" using d z by (auto simp: ys) (cases ys; auto)
  ultimately have "linked l' (ys @ e # [hd zs])"
    using lk linked_append[of l' ys e "[hd zs]"] n[of e] p[of "hd zs"] by (simp add: ys)
  then show ?thesis using d z by (simp add: ring_def ys)
qed

end
