(* ===== verification/Queue.thy ===== *)
theory Queue
  imports Ring
begin

text \<open>
  The intrusive FIFO queue \<open>Queue<T>\<close> of \<open>include/queue.hpp\<close>: a head pointer and
  the \<open>prev\<close>/\<open>next\<close> fields of the elements. The operations are written on the link
  store; the interface \<open>fifo\<close> states what clients (semaphores, signals, cells) rely on,
  and \<open>Queue\<close> is shown to provide it.
\<close>

subsection \<open>Operations\<close>

type_synonym 'a queue = "'a links \<times> 'a option"

definition head :: "'a queue \<Rightarrow> 'a option" where
  "head q = snd q"

definition enqueue :: "'a queue \<Rightarrow> 'a \<Rightarrow> 'a queue result" where
  "enqueue q t =
     (case q of (l, headptr) \<Rightarrow>
        (case headptr of
           None \<Rightarrow> Inr (set_next t (Some t) (set_prev t (Some t) l), Some t)
         | Some h \<Rightarrow>
             (let l1 = set_next t (Some h) l;
                  l2 = set_prev t (lprev l1 h) l1
              in (case lprev l2 t of
                    None \<Rightarrow> Inl Null_deref
                  | Some e \<Rightarrow> Inr (set_prev h (Some t) (set_next e (Some t) l2), headptr)))))"

definition dequeue :: "'a queue \<Rightarrow> 'a option \<Rightarrow> bool \<times> 'a queue" where
  "dequeue q p =
     (case p of
        None \<Rightarrow> (False, q)
      | Some t \<Rightarrow>
          (case (lnext (fst q) t, lprev (fst q) t) of
             (Some n, Some e) \<Rightarrow>
               (let (l, headptr) = q;
                    (l1, headptr1) =
                      (if t = n then (l, None)
                       else (set_next e (Some n) (set_prev n (Some e) l),
                             if headptr = Some t then Some n else headptr))
                in (True, set_prev t None (set_next t None l1), headptr1))
           | _ \<Rightarrow> (False, q)))"

text \<open>
  \<open>for_each\<close> visits elements until the link is null or leads back to the head; the list
  returned is the order in which the functor is applied, for a functor that leaves the links
  alone. The first argument bounds the number of visits.
\<close>

fun for_each_from :: "nat \<Rightarrow> 'a queue \<Rightarrow> 'a \<Rightarrow> 'a list option" where
  "for_each_from 0 q e = None"
| "for_each_from (Suc n) q e =
     (case lnext (fst q) e of
        None \<Rightarrow> Some [e]
      | Some e' \<Rightarrow> (if head q = Some e' then Some [e] else map_option ((#) e) (for_each_from n q e')))"

definition for_each :: "nat \<Rightarrow> 'a queue \<Rightarrow> 'a list option" where
  "for_each n q = (case head q of None \<Rightarrow> Some [] | Some e \<Rightarrow> for_each_from n q e)"

subsection \<open>The interface\<close>

locale fifo =
  fixes enq :: "'q \<Rightarrow> 'a \<Rightarrow> 'q result"
    and deq :: "'q \<Rightarrow> 'a option \<Rightarrow> bool \<times> 'q"
    and front :: "'q \<Rightarrow> 'a option"
    and holds :: "'q \<Rightarrow> 'a list \<Rightarrow> bool"
  assumes front_holds: "holds q xs \<Longrightarrow> front q = (case xs of [] \<Rightarrow> None | x # _ \<Rightarrow> Some x)"
    and enq_holds: "holds q xs \<Longrightarrow> t \<notin> set xs \<Longrightarrow> \<exists>q'. enq q t = Inr q' \<and> holds q' (xs @ [t])"
    and deq_holds: "holds q xs \<Longrightarrow> t \<in> set xs \<Longrightarrow> \<exists>q'. deq q (Some t) = (True, q') \<and> holds q' (remove1 t xs)"
    and deq_None: "deq q None = (False, q)"
    and holds_distinct: "holds q xs \<Longrightarrow> distinct xs"
begin

primrec enq_all :: "'q \<Rightarrow> 'a list \<Rightarrow> 'q result" where
  "enq_all q [] = Inr q"
| "enq_all q (x # xs) = bind_result (enq q x) (\<lambda>q'. enq_all q' xs)"

primrec drain :: "nat \<Rightarrow> 'q \<Rightarrow> 'a list \<times> 'q" where
  "drain 0 q = ([], q)"
| "drain (Suc n) q =
     (case front q of
        None \<Rightarrow> ([], q)
      | Some x \<Rightarrow> (let (ys, q') = drain n (snd (deq q (Some x))) in (x # ys, q')))"

lemma enq_all_holds:
  "holds q xs \<Longrightarrow> distinct (xs @ ys) \<Longrightarrow> \<exists>q'. enq_all q ys = Inr q' \<and> holds q' (xs @ ys)"
proof (induction ys arbitrary: q xs)
  case (Cons y ys)
  then obtain q1 where q1: "enq q y = Inr q1" "holds q1 (xs @ [y])"
    using enq_holds[of q xs y] by auto
  with Cons.IH[OF q1(2)] Cons.prems show ?case by auto
qed simp

lemma drain_holds: "holds q xs \<Longrightarrow> fst (drain (length xs) q) = xs"
proof (induction xs arbitrary: q)
  case (Cons x xs)
  obtain q1 where q1: "deq q (Some x) = (True, q1)" "holds q1 xs"
    using deq_holds[OF Cons.prems, of x] by auto
  then show ?case
    using front_holds[OF Cons.prems] Cons.IH[OF q1(2)] by (simp add: case_prod_beta Let_def)
qed simp

lemma deq_front_order:
  assumes "holds q (x # xs)"
  shows "\<exists>q'. deq q (front q) = (True, q') \<and> holds q' xs"
  using assms deq_holds[OF assms, of x] front_holds[OF assms] by simp

end

subsection \<open>The link store provides the interface\<close>

definition queue_rep :: "'a queue \<Rightarrow> 'a list \<Rightarrow> bool" where
  "queue_rep q xs \<longleftrightarrow> ring (fst q) xs \<and> snd q = (case xs of [] \<Rightarrow> None | x # _ \<Rightarrow> Some x)"

lemma enqueue_rep:
  assumes "queue_rep (l, h) xs" "t \<notin> set xs"
  obtains l' h' where "enqueue (l, h) t = Inr (l', h')" "queue_rep (l', h') (xs @ [t])"
    "\<And>x. x \<notin> set (t # xs) \<Longrightarrow> lnext l' x = lnext l x \<and> lprev l' x = lprev l x"
proof (cases xs)
  case Nil
  then show thesis
    using assms that by (force simp: enqueue_def queue_rep_def)
next
  case (Cons x ys)
  define e where "e = last (x # ys)"
  have r: "ring l (x # ys)" and h: "h = Some x" using assms Cons by (auto simp: queue_rep_def)
  have pe: "lprev l x = Some e" using ring_next_prev(2)[OF r] by (simp add: e_def)
  have tx: "t \<noteq> x" using assms Cons by auto
  let ?l' = "set_prev x (Some t) (set_next e (Some t) (set_prev t (Some e) (set_next t (Some x) l)))"
  have ring': "ring ?l' (x # ys @ [t])"
    by (rule ring_insert_last[OF r _ e_def]) (use assms Cons in auto)
  show thesis
  proof (rule that[of ?l' h])
    show "enqueue (l, h) t = Inr (?l', h)" using pe tx by (simp add: enqueue_def h Let_def)
    show "queue_rep (?l', h) (xs @ [t])" using ring' by (simp add: queue_rep_def h Cons)
    have "e \<in> set xs" using last_in_set[of "x # ys"] by (simp add: e_def Cons)
    then show "lnext ?l' y = lnext l y \<and> lprev ?l' y = lprev l y" if "y \<notin> set (t # xs)" for y
      using that Cons by auto
  qed
qed

lemma dequeue_rep:
  assumes "queue_rep (l, h) xs" "t \<in> set xs"
  obtains l' h' where "dequeue (l, h) (Some t) = (True, l', h')" "queue_rep (l', h') (remove1 t xs)"
    "unlinked l' t" "\<And>x. x \<notin> set xs \<Longrightarrow> lnext l' x = lnext l x \<and> lprev l' x = lprev l x"
proof -
  from assms have r: "ring l xs" by (simp add: queue_rep_def)
  obtain as bs where xs: "xs = as @ t # bs" and rt: "ring l (t # bs @ as)"
    using r assms(2) by (rule ring_to_front)
  define zs where "zs = bs @ as"
  have rm: "remove1 t xs = as @ bs" using ring_distinct[OF r] xs by (simp add: remove1_append)
  have t: "t \<notin> set zs" using ring_distinct[OF rt] by (simp add: zs_def)
  note np = ring_next_prev[OF rt, folded zs_def]
  show thesis
  proof (cases "zs = []")
    case True
    then show thesis
      using that np xs rm assms
      by (force simp: dequeue_def zs_def queue_rep_def unlinked_def split: prod.split)
  next
    case False
    define n e where "n = hd zs" and "e = last zs"
    have ne: "lnext l t = Some n" "lprev l t = Some e" "t \<noteq> n" "n \<in> set zs" "e \<in> set zs"
      using np False t by (auto simp: n_def e_def dest: hd_in_set last_in_set)
    let ?l = "set_prev t None (set_next t None (set_next e (Some n) (set_prev n (Some e) l)))"
    have "ring ?l (bs @ as)"
      using ring_remove_front[OF rt[folded zs_def] False, of ?l] by (simp add: n_def e_def zs_def)
    then have rr: "ring ?l (as @ bs)" by (rule ring_rotate)
    have hd: "(if h = Some t then Some n else h) = (case as @ bs of [] \<Rightarrow> None | x # _ \<Rightarrow> Some x)"
      using assms(1) False ring_distinct[OF r]
      by (cases as; cases bs) (auto simp: queue_rep_def xs n_def zs_def)
    show thesis
    proof (rule that[of ?l "if h = Some t then Some n else h"])
      show "dequeue (l, h) (Some t) = (True, ?l, if h = Some t then Some n else h)"
        using ne by (simp add: dequeue_def)
      show "queue_rep (?l, if h = Some t then Some n else h) (remove1 t xs)"
        using rr hd by (simp add: queue_rep_def rm)
      show "unlinked ?l t" by (simp add: unlinked_def)
      show "lnext ?l y = lnext l y \<and> lprev ?l y = lprev l y" if "y \<notin> set xs" for y
        using that ne by (auto simp: xs zs_def)
    qed
  qed
qed

lemma dequeue_unlinked:
  "unlinked l t \<Longrightarrow> dequeue (l, h) (Some t) = (False, l, h)"
  by (simp add: dequeue_def unlinked_def)

lemma queue_rep_cong:
  assumes "queue_rep (l, h) xs" "\<And>y. y \<in> set xs \<Longrightarrow> lnext l' y = lnext l y \<and> lprev l' y = lprev l y"
  shows "queue_rep (l', h) xs"
  using assms ring_cong[of xs l' l] by (auto simp: queue_rep_def)

lemma queue_rep_Nil: "queue_rep (l, h) [] \<longleftrightarrow> h = None"
  by (simp add: queue_rep_def)

lemma queue_rep_head: "queue_rep (l, h) xs \<Longrightarrow> h = None \<longleftrightarrow> xs = []"
  by (cases xs) (auto simp: queue_rep_def)

interpretation kq: fifo enqueue dequeue head queue_rep
proof
  fix q :: "'a queue" and xs t
  assume q: "queue_rep q xs"
  show "head q = (case xs of [] \<Rightarrow> None | x # _ \<Rightarrow> Some x)"
    using q by (simp add: queue_rep_def head_def)
  show "distinct xs" using q ring_distinct by (auto simp: queue_rep_def)
  show "\<exists>q'. enqueue q t = Inr q' \<and> queue_rep q' (xs @ [t])" if "t \<notin> set xs"
    using q that by (cases q) (metis enqueue_rep)
  show "\<exists>q'. dequeue q (Some t) = (True, q') \<and> queue_rep q' (remove1 t xs)" if "t \<in> set xs"
    using q that by (cases q) (metis dequeue_rep)
qed (simp add: dequeue_def)

subsection \<open>Traversal\<close>

lemma for_each_from_suffix:
  assumes "queue_rep q (as @ bs)" "bs \<noteq> []" "length bs \<le> n"
  shows "for_each_from n q (hd bs) = Some bs"
  using assms
proof (induction bs arbitrary: as n)
  case (Cons b bs)
  obtain m where n: "n = Suc m" using Cons.prems(3) by (cases n) auto
  have r: "ring (fst q) (b # bs @ as)" using Cons.prems(1) ring_rotate[of _ as "b # bs"]
    by (simp add: queue_rep_def)
  note nx = ring_next_prev(1)[OF r]
  have hq: "head q = Some (hd (as @ b # bs))"
    using Cons.prems(1) by (cases as) (auto simp: queue_rep_def head_def)
  show ?case
  proof (cases bs)
    case Nil
    then show ?thesis using nx hq n by (cases as) auto
  next
    case (Cons c cs)
    have "c \<noteq> hd (as @ b # bs)" using ring_distinct[OF r] Cons by (cases as) auto
    moreover have "for_each_from m q c = Some bs"
      using Cons.IH[of "as @ [b]" m] Cons.prems n Cons by simp
    ultimately show ?thesis using nx hq n Cons by auto
  qed
qed simp

subsection \<open>Properties\<close>

text \<open>C31: queue_fifo. The intrusive queue behaves as a list without repetition: inserting an
  element that is not queued appends it and cannot fault, the head is the oldest element, removing
  a queued element takes out exactly this one and clears its links, and removing one
  that is not linked is refused without any change.\<close>
theorem queue_fifo:
  assumes "queue_rep q xs"
  shows "head q = (case xs of [] \<Rightarrow> None | x # _ \<Rightarrow> Some x) \<and>
     (t \<notin> set xs \<longrightarrow> (\<exists>q'. enqueue q t = Inr q' \<and> queue_rep q' (xs @ [t]))) \<and>
     (t \<in> set xs \<longrightarrow> (\<exists>q'. dequeue q (Some t) = (True, q') \<and> queue_rep q' (remove1 t xs) \<and> unlinked (fst q') t)) \<and>
     (unlinked (fst q) t \<longrightarrow> dequeue q (Some t) = (False, q)) \<and> dequeue q None = (False, q)"
proof (intro conjI impI)
  show "head q = (case xs of [] \<Rightarrow> None | x # _ \<Rightarrow> Some x)" using assms by (rule kq.front_holds)
  show "\<exists>q'. enqueue q t = Inr q' \<and> queue_rep q' (xs @ [t])" if "t \<notin> set xs"
    using assms that by (rule kq.enq_holds)
  show "\<exists>q'. dequeue q (Some t) = (True, q') \<and> queue_rep q' (remove1 t xs) \<and> unlinked (fst q') t" if "t \<in> set xs"
    using assms that by (cases q) (metis dequeue_rep fst_conv)
  show "dequeue q (Some t) = (False, q)" if "unlinked (fst q) t"
    using dequeue_unlinked[OF that, of "snd q"] by simp
qed (rule kq.deq_None)

definition ex_queue :: "nat queue" where
  "ex_queue = (\<lparr>lnext = [1 \<mapsto> 2, 2 \<mapsto> 1], lprev = [1 \<mapsto> 2, 2 \<mapsto> 1]\<rparr>, Some 1)"

lemma ex_queue_rep: "queue_rep ex_queue [1, 2]"
  by (simp add: ex_queue_def queue_rep_def ring_def)

theorem queue_fifo_witness:
  "\<exists>q'. enqueue ex_queue 3 = Inr q' \<and> queue_rep q' [1, 2, 3]"
  using queue_fifo[OF ex_queue_rep, of 3] by simp

text \<open>queue_for_each. The traversal ends and visits every element once, from the oldest to
  the newest.\<close>
theorem queue_for_each:
  assumes "queue_rep q xs" "length xs \<le> n"
  shows "for_each n q = Some xs"
  using assms for_each_from_suffix[of q "[]" xs n] kq.front_holds[OF assms(1)]
  by (cases xs) (auto simp: for_each_def)

theorem queue_for_each_witness: "for_each 2 ex_queue = Some [1, 2]"
  using queue_for_each[OF ex_queue_rep, of 2] by simp

end
