(* ===== verification/Timeout.thy ===== *)
theory Timeout
  imports Ring
begin

text \<open>
  The per-CPU list of pending timeouts, \<open>include/timeout.hpp\<close> and
  \<open>src/timeout.cpp\<close>: a null-terminated doubly linked list in the order of expiry, whose
  first entry is what the local APIC timer is programmed to. \<open>Lapic::set_timer\<close> is
  recorded as the value written; \<open>Lapic::time()\<close> is an input, one reading per call.
\<close>

record 'a timeouts =
  tl_links :: "'a links"
  tl_time :: "'a \<Rightarrow> u64"
  tl_list :: "'a option"
  tl_timer :: "u64 option"

definition set_timer :: "'a timeouts \<Rightarrow> u64 \<Rightarrow> 'a timeouts" where
  "set_timer s t = s\<lparr>tl_timer := Some t\<rparr>"

definition active :: "'a timeouts \<Rightarrow> 'a \<Rightarrow> bool" where
  "active s t = (lprev (tl_links s) t \<noteq> None \<or> tl_list s = Some t)"

text \<open>The loop of \<open>enqueue\<close>: the last entry met before one that expires no earlier.\<close>

fun find_prev :: "nat \<Rightarrow> 'a timeouts \<Rightarrow> u64 \<Rightarrow> 'a option \<Rightarrow> 'a option \<Rightarrow> 'a option result" where
  "find_prev 0 s t p n = Inl Out_of_fuel"
| "find_prev (Suc k) s t p n =
     (case n of None \<Rightarrow> Inr p
      | Some e \<Rightarrow> (if tl_time s e \<ge> t then Inr p
                   else find_prev k s t (Some e) (lnext (tl_links s) e)))"

definition timeout_enqueue :: "nat \<Rightarrow> 'a timeouts \<Rightarrow> 'a \<Rightarrow> u64 \<Rightarrow> 'a timeouts result" where
  "timeout_enqueue k s this t =
     (if lprev (tl_links s) this \<noteq> None \<or> lnext (tl_links s) this \<noteq> None then Inl Assert_failed
      else
        (let s1 = s\<lparr>tl_time := (tl_time s)(this := t)\<rparr>
         in bind_result (find_prev k s1 t None (tl_list s1)) (\<lambda>p.
              let s2 = s1\<lparr>tl_links := set_prev this p (tl_links s1)\<rparr>;
                  s3 = (case p of
                          None \<Rightarrow> set_timer (s2\<lparr>tl_links := set_next this (tl_list s2) (tl_links s2),
                                              tl_list := Some this\<rparr>) t
                        | Some e \<Rightarrow> s2\<lparr>tl_links := set_next e (Some this)
                                         (set_next this (lnext (tl_links s2) e) (tl_links s2))\<rparr>);
                  s4 = (case lnext (tl_links s3) this of
                          None \<Rightarrow> s3
                        | Some n \<Rightarrow> s3\<lparr>tl_links := set_prev n (Some this) (tl_links s3)\<rparr>)
              in Inr s4)))"

definition timeout_dequeue :: "'a timeouts \<Rightarrow> 'a \<Rightarrow> u64 \<times> 'a timeouts" where
  "timeout_dequeue s this =
     (let s1 =
        (if active s this
         then
           (let nx = lnext (tl_links s) this; pv = lprev (tl_links s) this;
                s1 = (case nx of None \<Rightarrow> s | Some n \<Rightarrow> s\<lparr>tl_links := set_prev n pv (tl_links s)\<rparr>)
            in (case pv of
                  Some e \<Rightarrow> s1\<lparr>tl_links := set_next e nx (tl_links s1)\<rparr>
                | None \<Rightarrow> (let s2 = s1\<lparr>tl_list := nx\<rparr>
                           in case nx of None \<Rightarrow> s2 | Some n \<Rightarrow> set_timer s2 (tl_time s2 n))))
         else s)
      in (tl_time s1 this, s1\<lparr>tl_links := set_prev this None (set_next this None (tl_links s1))\<rparr>))"

definition timeout_delete :: "'a timeouts \<Rightarrow> 'a \<Rightarrow> 'a timeouts" where
  "timeout_delete s this = (if active s this then snd (timeout_dequeue s this) else s)"

text \<open>
  \<open>check\<close> with the readings of the clock as a list: the loop ends at the latest when the
  readings given are used up. The virtual \<open>trigger\<close> is an argument; it works on the whole
  state, of which the timeout list is one part.
\<close>

fun check_loop ::
  "('a \<Rightarrow> 'a timeouts \<times> 's \<Rightarrow> ('a timeouts \<times> 's) result) \<Rightarrow> u64 list \<Rightarrow> 'a timeouts \<times> 's \<Rightarrow>
   ('a timeouts \<times> 's) result" where
  "check_loop trigger now (s, g) =
     (case tl_list s of
        None \<Rightarrow> Inr (s, g)
      | Some t \<Rightarrow>
          (case now of
             [] \<Rightarrow> Inl Out_of_fuel
           | r # now' \<Rightarrow>
               (if tl_time s t \<le> r
                then bind_result (trigger t (snd (timeout_dequeue s t), g)) (check_loop trigger now')
                else Inr (s, g))))"

definition timeout_check ::
  "('a \<Rightarrow> 'a timeouts \<times> 's \<Rightarrow> ('a timeouts \<times> 's) result) \<Rightarrow> u64 list \<Rightarrow> 'a timeouts \<times> 's \<Rightarrow>
   ('a timeouts \<times> 's) result" where
  "timeout_check trigger now sg =
     (let prev_list = tl_list (fst sg)
      in bind_result (check_loop trigger now sg) (\<lambda>(s, g).
           case tl_list s of
             Some t \<Rightarrow> Inr (if tl_list s = prev_list then set_timer s (tl_time s t) else s, g)
           | None \<Rightarrow> Inr (s, g)))"

definition timeout_sync :: "'a timeouts \<Rightarrow> 'a timeouts" where
  "timeout_sync s = (case tl_list s of None \<Rightarrow> s | Some t \<Rightarrow> set_timer s (tl_time s t))"

subsection \<open>Null-terminated lists\<close>

definition first :: "'a list \<Rightarrow> 'a option" where
  "first xs = (case xs of [] \<Rightarrow> None | x # _ \<Rightarrow> Some x)"

definition final :: "'a list \<Rightarrow> 'a option" where
  "final xs = (if xs = [] then None else Some (last xs))"

lemma first_simps [simp]: "first [] = None" "first (x # xs) = Some x"
  by (simp_all add: first_def)

lemma final_simps [simp]: "final [] = None" "final (xs @ [x]) = Some x"
  by (simp_all add: final_def)

definition dll :: "'a links \<Rightarrow> 'a list \<Rightarrow> bool" where
  "dll l xs \<longleftrightarrow> distinct xs \<and> linked l xs \<and>
     (xs \<noteq> [] \<longrightarrow> lprev l (hd xs) = None \<and> lnext l (last xs) = None) \<and> (\<forall>x. x \<notin> set xs \<longrightarrow> unlinked l x)"

lemma linked_snoc:
  "linked l (as @ [a, t]) \<longleftrightarrow> linked l (as @ [a]) \<and> lnext l a = Some t \<and> lprev l t = Some a"
  using linked_append[of l as a "[t]"] by simp

lemma linked_around:
  "linked l (as @ t # bs) \<longleftrightarrow>
     linked l as \<and> linked l bs \<and>
     (as \<noteq> [] \<longrightarrow> lnext l (last as) = Some t \<and> lprev l t = Some (last as)) \<and>
     (bs \<noteq> [] \<longrightarrow> lnext l t = Some (hd bs) \<and> lprev l (hd bs) = Some t)"
proof -
  have "linked l (as @ [t]) \<longleftrightarrow> linked l as \<and> (as \<noteq> [] \<longrightarrow> lnext l (last as) = Some t \<and> lprev l t = Some (last as))"
    by (cases as rule: rev_cases) (auto simp: linked_snoc)
  moreover have "linked l (t # bs) \<longleftrightarrow> linked l bs \<and> (bs \<noteq> [] \<longrightarrow> lnext l t = Some (hd bs) \<and> lprev l (hd bs) = Some t)"
    by (cases bs) auto
  ultimately show ?thesis using linked_append[of l as t bs] by blast
qed

lemma dll_around:
  "dll l (as @ t # bs) \<longleftrightarrow>
     distinct (as @ t # bs) \<and> linked l as \<and> linked l bs \<and>
     lprev l t = final as \<and> lnext l t = first bs \<and>
     (as \<noteq> [] \<longrightarrow> lprev l (hd as) = None \<and> lnext l (last as) = Some t) \<and>
     (bs \<noteq> [] \<longrightarrow> lprev l (hd bs) = Some t \<and> lnext l (last bs) = None) \<and>
     (\<forall>x. x \<notin> set (as @ t # bs) \<longrightarrow> unlinked l x)"
  unfolding dll_def linked_around
  by (cases as; cases bs) (auto simp: final_def)

lemma linked_join:
  "linked l (as @ bs) \<longleftrightarrow> linked l as \<and> linked l bs \<and>
     (as \<noteq> [] \<and> bs \<noteq> [] \<longrightarrow> lnext l (last as) = Some (hd bs) \<and> lprev l (hd bs) = Some (last as))"
  by (cases bs) (auto simp: linked_around[of l as] linked_around[of l "[]" _, simplified])

lemma dll_join:
  "dll l (as @ bs) \<longleftrightarrow>
     distinct (as @ bs) \<and> linked l as \<and> linked l bs \<and>
     (as \<noteq> [] \<longrightarrow> lprev l (hd as) = None \<and> lnext l (last as) = first bs) \<and>
     (bs \<noteq> [] \<longrightarrow> lprev l (hd bs) = final as \<and> lnext l (last bs) = None) \<and>
     (\<forall>x. x \<notin> set (as @ bs) \<longrightarrow> unlinked l x)"
  unfolding dll_def linked_join by (cases as; cases bs) (auto simp: final_def)

lemma linked_cong_inner:
  assumes "linked l xs" "distinct xs"
    and "\<And>x. x \<in> set xs \<Longrightarrow> x \<noteq> last xs \<Longrightarrow> lnext l' x = lnext l x"
    and "\<And>x. x \<in> set xs \<Longrightarrow> x \<noteq> hd xs \<Longrightarrow> lprev l' x = lprev l x"
  shows "linked l' xs"
proof -
  have "x \<noteq> last xs" if "x \<in> set (butlast xs)" for x
    using that assms(2) by (cases xs rule: rev_cases) auto
  moreover have "x \<noteq> hd xs" if "x \<in> set (tl xs)" for x using that assms(2) by (cases xs) auto
  ultimately have "linked l' xs = linked l xs"
    using assms(3,4) by (intro linked_cong) (metis in_set_butlastD, metis list.set_sel(2) tl_Nil)
  with assms(1) show ?thesis by simp
qed

lemma first_final_mem:
  "first xs = Some x \<longleftrightarrow> xs \<noteq> [] \<and> x = hd xs" "final xs = Some x \<longleftrightarrow> xs \<noteq> [] \<and> x = last xs"
  by (auto simp: first_def final_def split: list.split)

lemma dll_insert:
  assumes d: "dll l (as @ bs)" and t: "t \<notin> set (as @ bs)"
    and n: "\<And>x. lnext l' x = (if x = t then first bs else if final as = Some x then Some t else lnext l x)"
    and p: "\<And>x. lprev l' x = (if x = t then final as else if first bs = Some x then Some t else lprev l x)"
  shows "dll l' (as @ t # bs)"
proof -
  note d' = d[unfolded dll_join]
  have dis: "\<And>x. x \<in> set as \<Longrightarrow> x \<in> set bs \<Longrightarrow> False" using d' by auto
  have hl: "as \<noteq> [] \<Longrightarrow> hd as \<in> set as" "as \<noteq> [] \<Longrightarrow> last as \<in> set as"
    "bs \<noteq> [] \<Longrightarrow> hd bs \<in> set bs" "bs \<noteq> [] \<Longrightarrow> last bs \<in> set bs" by auto
  have sep: "as \<noteq> [] \<Longrightarrow> last as \<notin> set bs" "as \<noteq> [] \<Longrightarrow> hd as \<notin> set bs"
    "bs \<noteq> [] \<Longrightarrow> hd bs \<notin> set as" "bs \<noteq> [] \<Longrightarrow> last bs \<notin> set as" using dis hl by blast+
  have "linked l' as"
    by (rule linked_cong_inner[of l]) (use d' t hl sep in \<open>auto simp: n p first_final_mem\<close>)
  moreover have "linked l' bs"
    by (rule linked_cong_inner[of l]) (use d' t hl sep in \<open>auto simp: n p first_final_mem\<close>)
  ultimately show ?thesis
    unfolding dll_around using d' t hl sep
    by (cases "as = []"; cases "bs = []"; simp add: n p first_final_mem unlinked_def; fastforce)
qed

lemma dll_remove:
  assumes d: "dll l (as @ t # bs)"
    and n: "\<And>x. lnext l' x = (if x = t then None else if final as = Some x then first bs else lnext l x)"
    and p: "\<And>x. lprev l' x = (if x = t then None else if first bs = Some x then final as else lprev l x)"
  shows "dll l' (as @ bs)"
proof -
  note d' = d[unfolded dll_around]
  have dis: "\<And>x. x \<in> set as \<Longrightarrow> x \<in> set bs \<Longrightarrow> False" using d' by auto
  have hl: "as \<noteq> [] \<Longrightarrow> hd as \<in> set as" "as \<noteq> [] \<Longrightarrow> last as \<in> set as"
    "bs \<noteq> [] \<Longrightarrow> hd bs \<in> set bs" "bs \<noteq> [] \<Longrightarrow> last bs \<in> set bs" by auto
  have sep: "as \<noteq> [] \<Longrightarrow> last as \<notin> set bs" "as \<noteq> [] \<Longrightarrow> hd as \<notin> set bs"
    "bs \<noteq> [] \<Longrightarrow> hd bs \<notin> set as" "bs \<noteq> [] \<Longrightarrow> last bs \<notin> set as" using dis hl by blast+
  have "linked l' as"
    by (rule linked_cong_inner[of l]) (use d' hl sep in \<open>auto simp: n p first_final_mem\<close>)
  moreover have "linked l' bs"
    by (rule linked_cong_inner[of l]) (use d' hl sep in \<open>auto simp: n p first_final_mem\<close>)
  ultimately show ?thesis
    unfolding dll_join using d' hl sep
    by (cases "as = []"; cases "bs = []"; simp add: n p first_final_mem unlinked_def; fastforce)
qed

subsection \<open>The list of timeouts\<close>

definition timeouts_rep :: "'a timeouts \<Rightarrow> 'a list \<Rightarrow> bool" where
  "timeouts_rep s xs \<longleftrightarrow>
     dll (tl_links s) xs \<and> tl_list s = first xs \<and> sorted (map (tl_time s) xs) \<and>
     (xs \<noteq> [] \<longrightarrow> tl_timer s = Some (tl_time s (hd xs)))"

lemma find_prev_spec:
  assumes "dll (tl_links s) (ys @ zs)" "length zs < k"
  shows "find_prev k s t (final ys) (first zs) = Inr (final (ys @ takeWhile (\<lambda>x. tl_time s x < t) zs))"
  using assms
proof (induction zs arbitrary: ys k)
  case Nil
  then show ?case by (cases k) auto
next
  case (Cons z zs)
  obtain m where k: "k = Suc m" using Cons.prems(2) by (cases k) auto
  have nx: "lnext (tl_links s) z = first zs" using Cons.prems(1) by (simp add: dll_around)
  have "find_prev m s t (final (ys @ [z])) (first zs) =
      Inr (final ((ys @ [z]) @ takeWhile (\<lambda>x. tl_time s x < t) zs))"
    by (rule Cons.IH) (use Cons.prems k in auto)
  then show ?case using nx k by (auto simp: not_le)
qed

lemma links_eqI:
  fixes l :: "'a links"
  assumes "\<And>x. lnext l x = lnext l' x" "\<And>x. lprev l x = lprev l' x"
  shows "l = l'"
  using assms by (intro links.equality) (auto simp: fun_eq_iff)

lemma timeout_enqueue_eq:
  assumes "lprev (tl_links s) this = None" "lnext (tl_links s) this = None"
    and "find_prev k (s\<lparr>tl_time := (tl_time s)(this := t)\<rparr>) t None (tl_list s) = Inr p"
    and "nx = (case p of None \<Rightarrow> tl_list s | Some e \<Rightarrow> lnext (tl_links s) e)"
    and "p \<noteq> Some this" "nx \<noteq> Some this"
  shows "timeout_enqueue k s this t = Inr
    (s\<lparr>tl_links := \<lparr>lnext = (\<lambda>x. if x = this then nx else if p = Some x then Some this else lnext (tl_links s) x),
                   lprev = (\<lambda>x. if x = this then p else if nx = Some x then Some this else lprev (tl_links s) x)\<rparr>,
       tl_time := (tl_time s)(this := t),
       tl_list := (if p = None then Some this else tl_list s),
       tl_timer := (if p = None then Some t else tl_timer s)\<rparr>)"
proof (cases p; cases nx)
qed (use assms in \<open>simp_all add: timeout_enqueue_def Let_def set_timer_def links_eqI\<close>)

lemma timeout_enqueue_rep:
  assumes r: "timeouts_rep s xs" and t: "this \<notin> set xs" and k: "length xs < k"
  obtains s' where "timeout_enqueue k s this t = Inr s'"
    "timeouts_rep s' (takeWhile (\<lambda>x. tl_time s x < t) xs @ this # dropWhile (\<lambda>x. tl_time s x < t) xs)"
    "tl_time s' = (tl_time s)(this := t)"
proof -
  define as bs where "as = takeWhile (\<lambda>x. tl_time s x < t) xs" and "bs = dropWhile (\<lambda>x. tl_time s x < t) xs"
  let ?s1 = "s\<lparr>tl_time := (tl_time s)(this := t)\<rparr>"
  have xs: "xs = as @ bs" by (simp add: as_def bs_def)
  have d: "dll (tl_links s) (as @ bs)" using r by (simp add: timeouts_rep_def xs)
  have tw: "takeWhile (\<lambda>x. tl_time ?s1 x < t) xs = as"
    unfolding as_def using t by (auto intro: takeWhile_cong)
  have "find_prev k ?s1 t (final []) (first xs) = Inr (final ([] @ takeWhile (\<lambda>x. tl_time ?s1 x < t) xs))"
    by (rule find_prev_spec) (use r k in \<open>auto simp: timeouts_rep_def\<close>)
  then have fp: "find_prev k ?s1 t None (tl_list s) = Inr (final as)"
    using tw r by (simp add: timeouts_rep_def)
  have un: "lprev (tl_links s) this = None" "lnext (tl_links s) this = None"
    using r t by (auto simp: timeouts_rep_def dll_def unlinked_def)
  have "(case final as of None \<Rightarrow> tl_list s | Some e \<Rightarrow> lnext (tl_links s) e) = first bs"
    using r d by (cases "as = []") (auto simp: timeouts_rep_def xs dll_join final_def)
  note eq = timeout_enqueue_eq[OF un fp this[symmetric]]
  have "final as \<noteq> Some this" "first bs \<noteq> Some this"
    using t by (auto simp: xs first_final_mem)
  then obtain s' where s': "timeout_enqueue k s this t = Inr s'"
    and lk: "\<And>x. lnext (tl_links s') x = (if x = this then first bs else if final as = Some x then Some this else lnext (tl_links s) x)"
    "\<And>x. lprev (tl_links s') x = (if x = this then final as else if first bs = Some x then Some this else lprev (tl_links s) x)"
    "tl_time s' = (tl_time s)(this := t)" "tl_list s' = (if final as = None then Some this else tl_list s)"
    "tl_timer s' = (if final as = None then Some t else tl_timer s)"
    using eq by simp
  have f: "tl_list s' = first (as @ this # bs)"
    using r by (cases as) (auto simp: lk timeouts_rep_def xs final_def)
  have "dll (tl_links s') (as @ this # bs)"
    using dll_insert[OF d, of this "tl_links s'"] t lk(1,2) by (simp add: xs)
  moreover have "sorted (map (tl_time s') (as @ this # bs))"
  proof -
    have srt: "sorted (map (tl_time s) (as @ bs))" using r by (simp add: timeouts_rep_def xs)
    have "tl_time s x \<le> t" if "x \<in> set as" for x using that set_takeWhileD by (force simp: as_def)
    moreover have "t \<le> tl_time s x" if x: "x \<in> set bs" for x
    proof (cases bs)
      case (Cons b bs')
      then have "t \<le> tl_time s b" using hd_dropWhile[of "\<lambda>x. tl_time s x < t" xs] by (simp add: bs_def)
      then show ?thesis using srt x Cons by (auto simp: sorted_append)
    qed (use x in simp)
    moreover have "map (tl_time s') (as @ this # bs) = map (tl_time s) as @ t # map (tl_time s) bs"
      using t by (auto simp: lk(3) xs)
    moreover have "sorted (map (tl_time s) as @ t # map (tl_time s) bs)"
      using calculation(1,2) srt by (auto simp: sorted_append)
    ultimately show ?thesis by (simp only:)
  qed
  moreover have "tl_timer s' = Some (tl_time s' (hd (as @ this # bs)))"
    using r t by (cases as) (auto simp: lk timeouts_rep_def xs final_def)
  ultimately have "timeouts_rep s' (as @ this # bs)" using f by (simp add: timeouts_rep_def)
  then show thesis using that[OF s' _ lk(3)] by (simp add: as_def bs_def)
qed

lemma timeout_dequeue_eq:
  assumes "active s this" "lnext (tl_links s) this = nx" "lprev (tl_links s) this = pv"
    and "nx \<noteq> Some this" "pv \<noteq> Some this"
  shows "timeout_dequeue s this = (tl_time s this,
    s\<lparr>tl_links := \<lparr>lnext = (\<lambda>x. if x = this then None else if pv = Some x then nx else lnext (tl_links s) x),
                  lprev = (\<lambda>x. if x = this then None else if nx = Some x then pv else lprev (tl_links s) x)\<rparr>,
      tl_list := (if pv = None then nx else tl_list s),
      tl_timer := (if pv = None \<and> nx \<noteq> None then Some (tl_time s (the nx)) else tl_timer s)\<rparr>)"
proof (cases pv; cases nx)
qed (use assms in \<open>simp_all add: timeout_dequeue_def Let_def set_timer_def links_eqI\<close>)

lemma timeout_active_iff:
  assumes "timeouts_rep s xs"
  shows "active s t \<longleftrightarrow> t \<in> set xs"
proof
  assume "t \<in> set xs"
  then obtain as bs where xs: "xs = as @ t # bs" by (metis split_list)
  then have "lprev (tl_links s) t = final as" using assms by (simp add: timeouts_rep_def dll_around)
  then show "active s t"
    using assms xs by (cases as) (auto simp: active_def timeouts_rep_def final_def)
qed (use assms in \<open>auto simp: active_def timeouts_rep_def dll_def unlinked_def first_final_mem\<close>)

lemma timeout_dequeue_rep:
  assumes r: "timeouts_rep s (as @ t # bs)"
  obtains s' where "timeout_dequeue s t = (tl_time s t, s')" "timeouts_rep s' (as @ bs)"
    "tl_time s' = tl_time s"
proof -
  have d: "dll (tl_links s) (as @ t # bs)" using r by (simp add: timeouts_rep_def)
  have a: "active s t" using timeout_active_iff[OF r] by simp
  have "lnext (tl_links s) t = first bs" "lprev (tl_links s) t = final as"
    "first bs \<noteq> Some t" "final as \<noteq> Some t"
    using d by (auto simp: dll_around first_final_mem)
  from timeout_dequeue_eq[OF a this]
  obtain s' where s': "timeout_dequeue s t = (tl_time s t, s')"
    and lk: "\<And>x. lnext (tl_links s') x = (if x = t then None else if final as = Some x then first bs else lnext (tl_links s) x)"
    "\<And>x. lprev (tl_links s') x = (if x = t then None else if first bs = Some x then final as else lprev (tl_links s) x)"
    "tl_time s' = tl_time s" "tl_list s' = (if final as = None then first bs else tl_list s)"
    "tl_timer s' = (if final as = None \<and> first bs \<noteq> None then Some (tl_time s (the (first bs))) else tl_timer s)"
    by simp
  have "dll (tl_links s') (as @ bs)" by (rule dll_remove[OF d]) (simp_all add: lk)
  then have "timeouts_rep s' (as @ bs)"
    using r by (cases as; cases bs) (auto simp: timeouts_rep_def lk final_def sorted_append)
  with s' lk(3) show thesis by (intro that)
qed

lemma timeout_dequeue_idle:
  assumes "timeouts_rep s xs" "t \<notin> set xs"
  shows "timeout_dequeue s t = (tl_time s t, s)"
proof -
  have "\<not> active s t" using timeout_active_iff[OF assms(1)] assms(2) by simp
  moreover have "set_prev t None (set_next t None (tl_links s)) = tl_links s"
    using assms by (intro links_eqI) (auto simp: timeouts_rep_def dll_def unlinked_def)
  ultimately show ?thesis by (simp add: timeout_dequeue_def)
qed

text \<open>Which entries a run of \<open>check\<close> takes off the list, given the readings of the clock.\<close>

fun due :: "('a \<Rightarrow> u64) \<Rightarrow> 'a list \<Rightarrow> u64 list \<Rightarrow> 'a list" where
  "due tm (x # xs) (r # rs) = (if tm x \<le> r then x # due tm xs rs else [])"
| "due tm xs rs = []"

lemma check_loop_due:
  assumes "timeouts_rep s xs" "length xs < length now"
    and "\<And>t s g. trigger t (s, g) = Inr (s, h t g)"
  shows "\<exists>s'. check_loop trigger now (s, g) = Inr (s', fold h (due (tl_time s) xs now) g) \<and>
           timeouts_rep s' (drop (length (due (tl_time s) xs now)) xs) \<and> tl_time s' = tl_time s"
  using assms(1,2)
proof (induction xs arbitrary: s g now)
  case Nil
  then show ?case by (cases now) (auto simp: timeouts_rep_def)
next
  case (Cons x xs)
  obtain r now' where n: "now = r # now'" using Cons.prems(2) by (cases now) auto
  obtain s1 where s1: "timeout_dequeue s x = (tl_time s x, s1)" "timeouts_rep s1 xs" "tl_time s1 = tl_time s"
    using timeout_dequeue_rep[of s "[]" x xs] Cons.prems(1) by auto
  have l: "tl_list s = Some x" using Cons.prems(1) by (simp add: timeouts_rep_def)
  show ?case
  proof (cases "tl_time s x \<le> r")
    case True
    then show ?thesis
      using Cons.IH[OF s1(2), of now' "h x g"] Cons.prems(2) s1 l n assms(3) by simp
  next
    case False
    then show ?thesis using l n Cons.prems(1) by simp
  qed
qed

subsection \<open>Properties\<close>

text \<open>timeout_enqueue_sorted. Setting a timeout that is not pending inserts it before the first
  entry that expires no earlier and leaves the order of the others: the list stays linked and
  sorted by expiry, and the timer is programmed to the earliest expiry. The search ends within
  as many rounds as there are entries, plus one.\<close>
theorem timeout_enqueue_sorted:
  assumes "timeouts_rep s xs" "this \<notin> set xs" "length xs < k"
  shows "\<exists>s'. timeout_enqueue k s this t = Inr s' \<and>
     timeouts_rep s' (takeWhile (\<lambda>x. tl_time s x < t) xs @ this # dropWhile (\<lambda>x. tl_time s x < t) xs) \<and>
     tl_time s' = (tl_time s)(this := t)"
  using timeout_enqueue_rep[OF assms] by metis

definition empty_timeouts :: "nat timeouts" where
  "empty_timeouts = \<lparr>tl_links = \<lparr>lnext = (\<lambda>_. None), lprev = (\<lambda>_. None)\<rparr>, tl_time = (\<lambda>_. 0),
     tl_list = None, tl_timer = None\<rparr>"

lemma empty_timeouts_rep: "timeouts_rep empty_timeouts []"
  by (simp add: timeouts_rep_def empty_timeouts_def dll_def unlinked_def)

theorem timeout_enqueue_sorted_witness:
  "\<exists>s'. timeout_enqueue 1 empty_timeouts 7 100 = Inr s' \<and> timeouts_rep s' [7] \<and> tl_time s' 7 = 100"
  using timeout_enqueue_sorted[OF empty_timeouts_rep, of 7 1 100] by auto

text \<open>timeout_dequeue_removes. Cancelling a pending timeout removes it and no other entry,
  returns its expiry and keeps the list sorted with the timer at the earliest expiry;
  cancelling one that is not pending changes nothing.\<close>
theorem timeout_dequeue_removes:
  assumes "timeouts_rep s xs"
  shows "\<exists>s'. timeout_dequeue s t = (tl_time s t, s') \<and> timeouts_rep s' (remove1 t xs) \<and>
              tl_time s' = tl_time s \<and> (t \<notin> set xs \<longrightarrow> s' = s)"
proof (cases "t \<in> set xs")
  case True
  then obtain as bs where xs: "xs = as @ t # bs" "t \<notin> set as" by (metis split_list_first)
  with timeout_dequeue_rep[of s as t bs] assms True show ?thesis by (force simp: remove1_append)
next
  case False
  then show ?thesis using timeout_dequeue_idle[OF assms False] assms by (simp add: remove1_idem)
qed

lemma one_timeout: "\<exists>s. timeouts_rep s [7 :: nat] \<and> tl_time s 7 = 100"
  by (rule timeout_enqueue_rep[OF empty_timeouts_rep, of 7 1 100]) auto

theorem timeout_dequeue_removes_witness:
  "\<exists>s s'. timeouts_rep s [7 :: nat] \<and> timeout_dequeue s 7 = (100, s') \<and> timeouts_rep s' []"
proof -
  obtain s where s: "timeouts_rep s [7 :: nat]" "tl_time s 7 = 100" using one_timeout by blast
  then show ?thesis using timeout_dequeue_removes[OF s(1), of 7] by auto
qed

text \<open>C29: timeout_check_due. With enough readings of the clock and triggers that leave the
  list alone, \<open>check\<close> ends; it triggers exactly the entries at the front that are due at the
  reading taken for them, in the order of expiry, and the entries left are sorted, still linked and
  the timer is at the first of them.\<close>
theorem timeout_check_due:
  assumes "timeouts_rep s xs" "length xs < length now"
    and "\<And>t s g. trigger t (s, g) = Inr (s, h t g)"
  shows "\<exists>s'. timeout_check trigger now (s, g) = Inr (s', fold h (due (tl_time s) xs now) g) \<and>
              timeouts_rep s' (drop (length (due (tl_time s) xs now)) xs)"
proof -
  obtain s' where s': "check_loop trigger now (s, g) = Inr (s', fold h (due (tl_time s) xs now) g)"
    "timeouts_rep s' (drop (length (due (tl_time s) xs now)) xs)"
    using check_loop_due[where trigger = trigger and h = h, OF assms] by blast
  have "timeouts_rep (set_timer s' (tl_time s' t)) ys" if "timeouts_rep s' ys" "tl_list s' = Some t" for ys t
    using that by (cases ys) (auto simp: timeouts_rep_def set_timer_def)
  then show ?thesis using s' by (auto simp: timeout_check_def Let_def split: option.split)
qed

theorem timeout_check_due_witness:
  "\<exists>s s'. timeouts_rep s [7] \<and>
     timeout_check (\<lambda>t (s, g). Inr (s, t # g)) [200, 300] (s, []) = Inr (s', [7 :: nat]) \<and> timeouts_rep s' []"
proof -
  obtain s where s: "timeouts_rep s [7 :: nat]" "tl_time s 7 = 100" using one_timeout by blast
  from timeout_check_due[OF s(1), of "[200, 300]" "\<lambda>t (s, g). Inr (s, t # g)" "\<lambda>t g. t # g" "[]"]
  show ?thesis using s by auto
qed

end
