(* ===== verification/Refcount.thy ===== *)
theory Refcount
  imports Prelude
begin

text \<open>
  Reference counts, \<open>include/refptr.hpp\<close>. The count is a 32-bit word. The
  compare-and-swap loop of \<open>add_ref\<close> is modelled twice: as the function it computes when
  no other CPU interferes, and as a transition system in which every CPU may be between its
  read and its compare-and-swap, with the other operations of the class as further steps.
\<close>

type_synonym refcount = u32

definition Refcount_new :: refcount where
  "Refcount_new = 1"

definition add_ref :: "refcount \<Rightarrow> bool \<times> refcount" where
  "add_ref ref = (if ref \<noteq> 0 then (True, ref + 1) else (False, ref))"

definition del_ref :: "refcount \<Rightarrow> bool \<times> refcount" where
  "del_ref ref = (ref - 1 = 0, ref - 1)"

definition last_ref :: "refcount \<Rightarrow> bool" where
  "last_ref ref = (ref = 1)"

definition del_rcu :: "refcount \<Rightarrow> bool \<times> refcount" where
  "del_rcu ref =
     (if last_ref ref then (True, ref)
      else case del_ref ref of (True, r) \<Rightarrow> (True, 1) | (False, r) \<Rightarrow> (False, r))"

text \<open>
  \<open>Refptr\<close> keeps the object only when the reference was taken; its destructor hands the
  object to \<open>Rcu::call\<close> when the reference dropped was the last one. The second result
  is whether this call is made.
\<close>

definition Refptr_new :: "'o \<Rightarrow> ('o \<Rightarrow> refcount) \<Rightarrow> 'o option \<times> ('o \<Rightarrow> refcount)" where
  "Refptr_new p refs =
     (case add_ref (refs p) of (ok, r) \<Rightarrow> (if ok then Some p else None, refs(p := r)))"

definition Refptr_delete :: "'o option \<Rightarrow> ('o \<Rightarrow> refcount) \<Rightarrow> bool \<times> ('o \<Rightarrow> refcount)" where
  "Refptr_delete ptr refs =
     (case ptr of None \<Rightarrow> (False, refs)
      | Some p \<Rightarrow> (case del_rcu (refs p) of (call, r) \<Rightarrow> (call, refs(p := r))))"

subsection \<open>Sequential behaviour\<close>

lemma del_rcu_cases:
  "del_rcu 1 = (True, 1)"
  "ref \<noteq> 1 \<Longrightarrow> del_rcu ref = (False, ref - 1)"
  by (auto simp: del_rcu_def last_ref_def del_ref_def split: prod.split bool.split)

lemma add_del_ref:
  assumes "ref \<noteq> 0" "ref + 1 \<noteq> 1" 
  shows "del_rcu (snd (add_ref ref)) = (False, ref)"
  using assms by (simp add: add_ref_def del_rcu_cases)

subsection \<open>Interleaving\<close>

text \<open>
  \<open>local c\<close> is the value CPU \<open>c\<close> has read in the loop of \<open>add_ref\<close>, if it is
  in that loop.
\<close>

record 'c rc_state =
  rc_ref :: refcount
  rc_local :: "'c \<Rightarrow> refcount option"

datatype rc_event = Tau | Added | Dropped

inductive rc_step :: "'c rc_state \<Rightarrow> rc_event \<Rightarrow> 'c rc_state \<Rightarrow> bool" where
  rc_read: "rc_ref s \<noteq> 0 \<Longrightarrow> rc_local s c = None \<Longrightarrow>
     rc_step s Tau (s\<lparr>rc_local := (rc_local s)(c := Some (rc_ref s))\<rparr>)"
| rc_swap: "rc_local s c = Some r \<Longrightarrow> rc_ref s = r \<Longrightarrow>
     rc_step s Added (s\<lparr>rc_ref := r + 1, rc_local := (rc_local s)(c := None)\<rparr>)"
| rc_retry: "rc_local s c = Some r \<Longrightarrow> rc_ref s \<noteq> r \<Longrightarrow>
     rc_step s Tau (s\<lparr>rc_local := (rc_local s)(c := None)\<rparr>)"
| rc_del: "rc_step s Dropped (s\<lparr>rc_ref := snd (del_ref (rc_ref s))\<rparr>)"

inductive rc_run :: "'c rc_state \<Rightarrow> rc_event list \<Rightarrow> 'c rc_state \<Rightarrow> bool" where
  rc_done: "rc_run s [] s"
| rc_more: "rc_step s e t \<Longrightarrow> rc_run t es u \<Longrightarrow> rc_run s (e # es) u"

inductive_cases rc_stepE: "rc_step s e t"
inductive_cases rc_runE: "rc_run s (e # es) t"

definition rc_init :: "'c rc_state" where
  "rc_init = \<lparr>rc_ref = Refcount_new, rc_local = (\<lambda>_. None)\<rparr>"

definition rc_ok :: "'c rc_state \<Rightarrow> bool" where
  "rc_ok s \<longleftrightarrow> (\<forall>c. rc_local s c \<noteq> Some 0)"

lemma rc_ok_step: "rc_step s e t \<Longrightarrow> rc_ok s \<Longrightarrow> rc_ok t"
  by (induction rule: rc_step.induct) (auto simp: rc_ok_def)

lemma rc_ok_run: "rc_run s es t \<Longrightarrow> rc_ok s \<Longrightarrow> rc_ok t"
  by (induction rule: rc_run.induct) (auto dest: rc_ok_step)

lemma rc_zero_step:
  assumes "rc_step s e t" "rc_ok s" "rc_ref s = 0"
  shows "e \<noteq> Added"
  using assms by (auto elim!: rc_stepE simp: rc_ok_def)

lemma rc_run_count:
  assumes "rc_run s es t"
  shows "rc_ref t = rc_ref s + of_nat (count_list es Added) - of_nat (count_list es Dropped)"
  using assms
proof (induction rule: rc_run.induct)
  case (rc_more s e t es u)
  from rc_more.hyps(1) show ?case
    by cases (use rc_more.IH in \<open>auto simp: del_ref_def algebra_simps\<close>)
qed simp

subsection \<open>Properties\<close>

text \<open>refcount_linearizable. Under every interleaving of the compare-and-swap loops of
  \<open>add_ref\<close> with each other and with \<open>del_ref\<close>, no update is lost: the count is the
  initial one plus the references added minus those dropped. A reference is never
  added while the count is zero.\<close>
theorem refcount_linearizable:
  assumes "rc_run rc_init es s"
  shows "rc_ref s = Refcount_new + of_nat (count_list es Added) - of_nat (count_list es Dropped)
         \<and> (\<forall>e t. rc_step s e t \<longrightarrow> rc_ref s = 0 \<longrightarrow> e \<noteq> Added)"
proof -
  have "rc_ok rc_init" by (simp add: rc_ok_def rc_init_def)
  then have "rc_ok s" using assms by (rule rc_ok_run[rotated])
  then show ?thesis using rc_run_count[OF assms] rc_zero_step[of s] by (auto simp: rc_init_def)
qed

theorem refcount_linearizable_witness:
  "rc_ref \<lparr>rc_ref = 2, rc_local = (\<lambda>_::nat. None)\<rparr> = Refcount_new + of_nat (count_list [Tau, Added] Added)
      - of_nat (count_list [Tau, Added] Dropped)"
proof -
  let ?s = "\<lparr>rc_ref = 1, rc_local = (\<lambda>_::nat. None)(0 := Some 1)\<rparr>"
  have "rc_step rc_init Tau ?s"
    using rc_read[of "rc_init :: nat rc_state" 0] by (simp add: rc_init_def Refcount_new_def)
  moreover have "rc_step ?s Added \<lparr>rc_ref = 2, rc_local = (\<lambda>_. None)\<rparr>"
    using rc_swap[of ?s 0 1] by simp
  ultimately have "rc_run rc_init [Tau, Added] \<lparr>rc_ref = 2, rc_local = (\<lambda>_::nat. None)\<rparr>"
    by (rule rc_more[OF _ rc_more[OF _ rc_done]])
  then show ?thesis using refcount_linearizable by blast
qed

end
