(* ===== verification/Sched.thy ===== *)
theory Sched
  imports Queue Timeout Refcount
begin

text \<open>
  Scheduling contexts, \<open>include/sc.hpp\<close> and \<open>src/sc.cpp\<close>. The state is that of
  one CPU: its ready lists by priority, the highest priority in use, the current context, its
  hazards and its timeouts; the remote queues of all CPUs and the scheduling contexts with
  their link fields are shared. Calls into other parts of the kernel that do not come back
  into the scheduler (inter-processor interrupts, RCU, FPU flush, release of memory) are
  recorded as events, in their order. Readings of the time-stamp counter are inputs.
\<close>

definition HZD_SCHED :: u32 where "HZD_SCHED = 0x1"
definition HZD_TSC :: u32 where "HZD_TSC = 0x20000000"

definition priorities :: nat where
  "priorities = 128"

record 'e sc =
  sc_ec :: "'e option"
  sc_cpu :: u16
  sc_prio :: u16
  sc_disable :: bool
  sc_budget :: u64
  sc_time :: u64
  sc_time_m :: u64
  sc_left :: u64
  sc_tsc :: u64
  sc_ref :: refcount
  sc_pre :: bool

datatype ('s, 'e) sched_event =
  Ipi_rrq u16 | Ipi_rke u16 | Rcu_call 's | Flush_from_cpu 'e | Delete 's

record ('s, 'e, 't) sched =
  cpu_id :: u16
  scs :: "'s \<Rightarrow> 'e sc"
  sc_links :: "'s links"
  ready :: "nat \<Rightarrow> 's option"
  prio_top :: nat
  rqs :: "u16 \<Rightarrow> 's option"
  cur :: "'s option"
  ctr_loop :: u32
  hazard :: u32
  ec_current :: "'e option"
  ec_tsc_offset :: "'e \<Rightarrow> u64"
  ec_hazard :: "'e \<Rightarrow> u32"
  ec_partner :: "'e \<Rightarrow> bool"
  ec_rcap :: "'e \<Rightarrow> bool"
  tmo :: "'t timeouts"
  budget_tmo :: 't
  cross_time :: "u16 \<Rightarrow> u64"
  killed_time :: "u16 \<Rightarrow> u64"
  events :: "('s, 'e) sched_event list"

definition upd_sc :: "'s \<Rightarrow> ('e sc \<Rightarrow> 'e sc) \<Rightarrow> ('s, 'e, 't) sched \<Rightarrow> ('s, 'e, 't) sched" where
  "upd_sc x f s = s\<lparr>scs := (scs s)(x := f (scs s x))\<rparr>"

definition log_event :: "('s, 'e) sched_event \<Rightarrow> ('s, 'e, 't) sched \<Rightarrow> ('s, 'e, 't) sched" where
  "log_event e s = s\<lparr>events := events s @ [e]\<rparr>"

definition raise_sched :: "('s, 'e, 't) sched \<Rightarrow> ('s, 'e, 't) sched" where
  "raise_sched s = s\<lparr>hazard := hazard s OR HZD_SCHED\<rparr>"

subsection \<open>Construction\<close>

definition Sc_kern :: "u64 \<Rightarrow> 'e option \<Rightarrow> mword \<Rightarrow> 'e sc" where
  "Sc_kern freq_tsc e sel =
     \<lparr>sc_ec = e, sc_cpu = ucast sel, sc_prio = 0, sc_disable = False, sc_budget = freq_tsc * 1000,
      sc_time = 0, sc_time_m = 0, sc_left = 0, sc_tsc = 0, sc_ref = Refcount_new, sc_pre = False\<rparr>"

definition Sc_user :: "u64 \<Rightarrow> 'e option \<Rightarrow> u16 \<Rightarrow> u32 \<Rightarrow> u32 \<Rightarrow> 'e sc" where
  "Sc_user freq_tsc e c p q =
     \<lparr>sc_ec = e, sc_cpu = c, sc_prio = ucast p, sc_disable = False,
      sc_budget = freq_tsc div 1000 * ucast q,
      sc_time = 0, sc_time_m = 0, sc_left = 0, sc_tsc = 0, sc_ref = Refcount_new, sc_pre = True\<rparr>"

definition Sc_xcpu :: "'e option \<Rightarrow> u16 \<Rightarrow> 'e sc \<Rightarrow> 'e sc" where
  "Sc_xcpu e c x =
     \<lparr>sc_ec = e, sc_cpu = c,
      sc_prio = (if unat (sc_prio x) + 32 > 127 then 127 else sc_prio x + 32), sc_disable = False,
      sc_budget = sc_budget x, sc_time = 0, sc_time_m = 0, sc_left = sc_left x, sc_tsc = 0,
      sc_ref = Refcount_new, sc_pre = False\<rparr>"

definition Sc_move :: "'e option \<Rightarrow> u16 \<Rightarrow> 'e sc \<Rightarrow> 'e sc" where
  "Sc_move e ecpu x =
     \<lparr>sc_ec = e, sc_cpu = ecpu, sc_prio = sc_prio x, sc_disable = sc_disable x,
      sc_budget = sc_budget x, sc_time = sc_time x, sc_time_m = sc_time_m x, sc_left = sc_left x,
      sc_tsc = 0, sc_ref = Refcount_new, sc_pre = True\<rparr>"

definition measured :: "'e sc \<Rightarrow> 'e sc" where
  "measured x = x\<lparr>sc_time_m := sc_time x\<rparr>"

definition xcpu_clone :: "'e sc \<Rightarrow> 'e sc \<Rightarrow> u16 \<Rightarrow> 'e sc" where
  "xcpu_clone x y tcpu =
     x\<lparr>sc_prio := sc_prio y, sc_budget := sc_budget y, sc_left := sc_left y, sc_disable := False,
       sc_cpu := tcpu, sc_time := 0, sc_time_m := 0, sc_tsc := 0\<rparr>"

subsection \<open>The ready lists\<close>

text \<open>
  Both lists are rings with a pointer to the first element. The insertion code of
  \<open>ready_enqueue\<close> and \<open>remote_enqueue\<close> is that of \<open>Queue::enqueue\<close>, line by line.
\<close>

definition take_ref :: "'s \<Rightarrow> bool \<Rightarrow> ('s, 'e, 't) sched \<Rightarrow> ('s, 'e, 't) sched result" where
  "take_ref this inc_ref s =
     (if inc_ref
      then (case add_ref (sc_ref (scs s this)) of
              (True, r) \<Rightarrow> Inr (upd_sc this (\<lambda>x. x\<lparr>sc_ref := r\<rparr>) s)
            | (False, r) \<Rightarrow> Inl Assert_failed)
      else Inr s)"

definition note_top :: "'s \<Rightarrow> ('s, 'e, 't) sched \<Rightarrow> ('s, 'e, 't) sched" where
  "note_top this s =
     (if unat (sc_prio (scs s this)) > prio_top s then s\<lparr>prio_top := unat (sc_prio (scs s this))\<rparr> else s)"

definition link_ready :: "'s \<Rightarrow> bool \<Rightarrow> ('s, 'e, 't) sched \<Rightarrow> ('s, 'e, 't) sched result" where
  "link_ready this use_left s =
     (let p = unat (sc_prio (scs s this))
      in bind_result (enqueue (sc_links s, ready s p) this) (\<lambda>(l, h).
           Inr (s\<lparr>sc_links := l,
                  ready := (ready s)(p := if ready s p \<noteq> None \<and> use_left \<and> sc_left (scs s this) \<noteq> 0
                                          then Some this else h)\<rparr>)))"

definition check_preempt :: "'s \<Rightarrow> bool \<Rightarrow> ('s, 'e, 't) sched \<Rightarrow> ('s, 'e, 't) sched result" where
  "check_preempt this use_left s =
     (case cur s of
        None \<Rightarrow> Inl Null_deref
      | Some c \<Rightarrow>
          Inr (if sc_prio (scs s this) > sc_prio (scs s c) \<or>
                  (this \<noteq> c \<and> sc_prio (scs s this) = sc_prio (scs s c) \<and> use_left \<and> sc_left (scs s this) \<noteq> 0)
               then raise_sched s else s))"

definition refill :: "'s \<Rightarrow> u64 \<Rightarrow> ('s, 'e, 't) sched \<Rightarrow> ('s, 'e, 't) sched" where
  "refill this t s =
     upd_sc this (\<lambda>x. x\<lparr>sc_left := (if sc_left x = 0 then sc_budget x else sc_left x), sc_tsc := t\<rparr>) s"

definition ready_enqueue ::
  "'s \<Rightarrow> u64 \<Rightarrow> bool \<Rightarrow> bool \<Rightarrow> ('s, 'e, 't) sched \<Rightarrow> ('s, 'e, 't) sched result" where
  "ready_enqueue this t inc_ref use_left s =
     (if \<not> unat (sc_prio (scs s this)) < priorities \<or> sc_cpu (scs s this) \<noteq> cpu_id s then Inl Assert_failed
      else bind_result (take_ref this inc_ref s) (\<lambda>s.
        bind_result (link_ready this use_left (note_top this s)) (\<lambda>s.
          bind_result (check_preempt this use_left s) (\<lambda>s. Inr (refill this t s)))))"

primrec lower_top :: "(nat \<Rightarrow> 's option) \<Rightarrow> nat \<Rightarrow> nat" where
  "lower_top f 0 = 0"
| "lower_top f (Suc n) = (if f (Suc n) = None then lower_top f n else Suc n)"

definition add_tsc_offset :: "'e \<Rightarrow> u64 \<Rightarrow> ('s, 'e, 't) sched \<Rightarrow> ('s, 'e, 't) sched" where
  "add_tsc_offset e d s =
     s\<lparr>ec_tsc_offset := (ec_tsc_offset s)(e := ec_tsc_offset s e + d),
       ec_hazard := (ec_hazard s)(e := ec_hazard s e OR HZD_TSC)\<rparr>"

definition ready_dequeue :: "'s \<Rightarrow> u64 \<Rightarrow> ('s, 'e, 't) sched \<Rightarrow> ('s, 'e, 't) sched result" where
  "ready_dequeue this t s =
     (let p = unat (sc_prio (scs s this)); l = sc_links s
      in if \<not> p < priorities \<or> sc_cpu (scs s this) \<noteq> cpu_id s then Inl Assert_failed
         else
           (case (lprev l this, lnext l this) of
              (Some e, Some n) \<Rightarrow>
                (let f = (if ready s p = Some this
                          then (ready s)(p := if n = this then None else Some n) else ready s);
                     l = set_next this None (set_prev this None (set_next e (Some n) (set_prev n (Some e) l)));
                     s = s\<lparr>ready := f, sc_links := l, prio_top := lower_top f (prio_top s)\<rparr>
                 in (case sc_ec (scs s this) of
                       None \<Rightarrow> Inl Null_deref
                     | Some ec \<Rightarrow>
                         Inr (upd_sc this (\<lambda>x. x\<lparr>sc_tsc := t\<rparr>)
                               (add_tsc_offset ec (sc_tsc (scs s this) - t) s))))
            | _ \<Rightarrow> Inl Assert_failed))"

subsection \<open>Release\<close>

text \<open>\<open>Rcu::call\<close> first runs the \<open>pre_func\<close> of the element, if it has one.\<close>

definition pre_free :: "'s \<Rightarrow> ('s, 'e, 't) sched \<Rightarrow> ('s, 'e, 't) sched result" where
  "pre_free x s =
     (let s = upd_sc x (\<lambda>y. y\<lparr>sc_disable := True\<rparr>) s;
          s = (if cur s = Some x then raise_sched s else s)
      in (case cur s of
            None \<Rightarrow> Inl Null_deref
          | Some c \<Rightarrow>
              Inr (if sc_cpu (scs s x) = sc_cpu (scs s c)
                   then (case sc_ec (scs s x) of None \<Rightarrow> s | Some e \<Rightarrow> log_event (Flush_from_cpu e) s)
                   else log_event (Ipi_rke (sc_cpu (scs s x))) s)))"

definition rcu_call :: "'s \<Rightarrow> ('s, 'e, 't) sched \<Rightarrow> ('s, 'e, 't) sched result" where
  "rcu_call x s =
     bind_result (if sc_pre (scs s x) then pre_free x s else Inr s) (\<lambda>s. Inr (log_event (Rcu_call x) s))"

definition drop_ref :: "'s \<Rightarrow> ('s, 'e, 't) sched \<Rightarrow> ('s, 'e, 't) sched result" where
  "drop_ref x s =
     (case del_rcu (sc_ref (scs s x)) of
        (True, r) \<Rightarrow> rcu_call x (upd_sc x (\<lambda>y. y\<lparr>sc_ref := r\<rparr>) s)
      | (False, r) \<Rightarrow> Inr (upd_sc x (\<lambda>y. y\<lparr>sc_ref := r\<rparr>) s))"

subsection \<open>The scheduler\<close>

text \<open>
  One reading of the time-stamp counter per round; \<open>k\<close> bounds the search in the timeout
  list. The loop ends with a context that is not a disabled one of the current EC.
\<close>

definition disabled_self :: "('s, 'e, 't) sched \<Rightarrow> 's \<Rightarrow> bool" where
  "disabled_self s c = (sc_disable (scs s c) \<and> sc_ec (scs s c) = ec_current s)"

definition budget_left :: "u64 \<Rightarrow> u64 \<Rightarrow> u64" where
  "budget_left d t = (if d > t then d - t else 0)"

text \<open>The accounting at the start of a round: run time, rest of the budget, the hazard.\<close>

definition account :: "u64 \<Rightarrow> 's \<Rightarrow> ('s, 'e, 't) sched \<Rightarrow> ('s, 'e, 't) sched" where
  "account t c s =
     (let (d, tm) = timeout_dequeue (tmo s) (budget_tmo s);
          s = upd_sc c (\<lambda>x. x\<lparr>sc_time := sc_time x + (t - sc_tsc x), sc_left := budget_left d t\<rparr>) (s\<lparr>tmo := tm\<rparr>)
      in s\<lparr>hazard := hazard s AND NOT HZD_SCHED\<rparr>)"

definition schedule_round ::
  "nat \<Rightarrow> u64 \<Rightarrow> bool \<Rightarrow> bool \<Rightarrow> ('s, 'e, 't) sched \<Rightarrow> (bool \<times> ('s, 'e, 't) sched) result" where
  "schedule_round k t suspend use_left s =
     (case cur s of
        None \<Rightarrow> Inl Assert_failed
      | Some c \<Rightarrow>
          if \<not> (suspend \<or> lprev (sc_links s) c = None) then Inl Assert_failed
          else
            (let s = account t c s;
                 suspend = (suspend \<or> disabled_self s c)
             in bind_result (if \<not> suspend then ready_enqueue c t False use_left s else drop_ref c s) (\<lambda>s.
                  (case ready s (prio_top s) of
                     None \<Rightarrow> Inl Assert_failed
                   | Some n \<Rightarrow>
                       bind_result (timeout_enqueue k (tmo s) (budget_tmo s) (t + sc_left (scs s n))) (\<lambda>tm.
                         bind_result (ready_dequeue n t (s\<lparr>tmo := tm, ctr_loop := 0, cur := Some n\<rparr>)) (\<lambda>s.
                           Inr (suspend, s)))))))"

fun schedule_wo_activate ::
  "nat \<Rightarrow> u64 list \<Rightarrow> bool \<Rightarrow> bool \<Rightarrow> ('s, 'e, 't) sched \<Rightarrow> ('s, 'e, 't) sched result" where
  "schedule_wo_activate k [] suspend use_left s = Inl Out_of_fuel"
| "schedule_wo_activate k (t # ts) suspend use_left s =
     bind_result (schedule_round k t suspend use_left s) (\<lambda>(suspend, s).
       (case cur s of
          None \<Rightarrow> Inl Null_deref
        | Some c \<Rightarrow> (if disabled_self s c then schedule_wo_activate k ts suspend use_left s else Inr s)))"

subsection \<open>Remote queues\<close>

definition remote_enqueue :: "'s \<Rightarrow> u64 \<Rightarrow> bool \<Rightarrow> ('s, 'e, 't) sched \<Rightarrow> ('s, 'e, 't) sched result" where
  "remote_enqueue this t inc_ref s =
     (if cpu_id s = sc_cpu (scs s this) then ready_enqueue this t inc_ref True s
      else bind_result (take_ref this inc_ref s) (\<lambda>s.
        let c = sc_cpu (scs s this); was_empty = (rqs s c = None)
        in bind_result (enqueue (sc_links s, rqs s c) this) (\<lambda>(l, h).
             let s = s\<lparr>sc_links := l, rqs := (rqs s)(c := h)\<rparr>
             in Inr (if was_empty then log_event (Ipi_rrq c) s else s))))"

text \<open>
  The loop of \<open>rrq_handler\<close>: the element is taken out of the ring, the successor is read
  from its own link field, and the element goes to its ready list or, if it is disabled, loses
  its reference.
\<close>

fun rrq_loop :: "nat \<Rightarrow> u64 \<Rightarrow> 's option \<Rightarrow> ('s, 'e, 't) sched \<Rightarrow> ('s, 'e, 't) sched result" where
  "rrq_loop k t None s = Inr s"
| "rrq_loop 0 t (Some x) s = Inl Out_of_fuel"
| "rrq_loop (Suc k) t (Some x) s =
     (case (lnext (sc_links s) x, lprev (sc_links s) x) of
        (Some n, Some e) \<Rightarrow>
          (let l = set_prev n (Some e) (sc_links s)
           in (case lprev l x of
                 None \<Rightarrow> Inl Null_deref
               | Some e' \<Rightarrow>
                   (let l = set_next e' (lnext l x) l;
                        s = s\<lparr>sc_links := l\<rparr>;
                        nx = (if lnext l x = Some x then None else lnext l x)
                    in if sc_disable (scs s x)
                       then (case sc_ec (scs s x) of
                               None \<Rightarrow> Inl Null_deref
                             | Some ec \<Rightarrow>
                                 bind_result
                                   (if \<not> ec_partner s ec \<and> \<not> ec_rcap s ec then drop_ref x s
                                    else ready_enqueue x t False True s)
                                   (rrq_loop k t nx))
                       else bind_result (ready_enqueue x t False True s) (rrq_loop k t nx))))
      | _ \<Rightarrow> Inl Null_deref)"

definition rrq_handler :: "nat \<Rightarrow> u64 \<Rightarrow> ('s, 'e, 't) sched \<Rightarrow> ('s, 'e, 't) sched result" where
  "rrq_handler k t s =
     bind_result (rrq_loop k t (rqs s (cpu_id s)) s) (\<lambda>s. Inr (s\<lparr>rqs := (rqs s)(cpu_id s := None)\<rparr>))"

text \<open>The flag is whether the TLB shoot-down mask of the current domain names this CPU.\<close>

definition rke_handler :: "bool \<Rightarrow> ('s, 'e, 't) sched \<Rightarrow> ('s, 'e, 't) sched result" where
  "rke_handler htlb_chk s =
     (case cur s of
        None \<Rightarrow> Inl Null_deref
      | Some c \<Rightarrow>
          (let s = (if sc_disable (scs s c) then raise_sched s else s)
           in Inr (if htlb_chk then raise_sched s else s)))"

definition sc_remove :: "'s \<Rightarrow> u64 \<Rightarrow> ('s, 'e, 't) sched \<Rightarrow> (bool \<times> ('s, 'e, 't) sched) result" where
  "sc_remove x t s =
     (if sc_cpu (scs s x) \<noteq> cpu_id s
      then (case del_rcu (sc_ref (scs s x)) of
              (False, r) \<Rightarrow> Inr (False, upd_sc x (\<lambda>y. y\<lparr>sc_ref := r\<rparr>) s)
            | (True, r) \<Rightarrow>
                bind_result
                  (remote_enqueue x t False (upd_sc x (\<lambda>y. y\<lparr>sc_ref := r, sc_disable := True\<rparr>) s))
                  (\<lambda>s. Inr (False, s)))
      else (case del_ref (sc_ref (scs s x)) of (z, r) \<Rightarrow> Inr (z, upd_sc x (\<lambda>y. y\<lparr>sc_ref := r\<rparr>) s)))"

definition NUM_CPU :: nat where
  "NUM_CPU = 256"

definition sc_free :: "'s \<Rightarrow> u64 \<Rightarrow> ('s, 'e, 't) sched \<Rightarrow> ('s, 'e, 't) sched result" where
  "sc_free x t s =
     bind_result (sc_remove x t s) (\<lambda>(last, s).
       if \<not> last then Inr s
       else if cur s = Some x then Inl Assert_failed
       else
         (let y = scs s x; c = sc_cpu y
          in if sc_time y > sc_time_m y
             then (if unat c < NUM_CPU
                   then Inr (log_event (Delete x)
                          (s\<lparr>killed_time := (killed_time s)(c := killed_time s c + (sc_time y - sc_time_m y))\<rparr>))
                   else Inl Assert_failed)
             else Inr (log_event (Delete x) s)))"

definition sc_free_xcpu :: "'s \<Rightarrow> u64 \<Rightarrow> ('s, 'e, 't) sched \<Rightarrow> ('s, 'e, 't) sched result" where
  "sc_free_xcpu x t s =
     bind_result (sc_remove x t s) (\<lambda>(last, s).
       if \<not> last then Inr s
       else if cur s = Some x then Inl Assert_failed
       else
         (let c = sc_cpu (scs s x)
          in if unat c < NUM_CPU
             then Inr (log_event (Delete x)
                    (s\<lparr>cross_time := (cross_time s)(c := cross_time s c + sc_time (scs s x))\<rparr>))
             else Inl Assert_failed))"

subsection \<open>The ready lists as lists\<close>

type_synonym 's rqueues = "nat \<Rightarrow> 's list"

definition ready_inv :: "('s, 'e, 't) sched \<Rightarrow> 's rqueues \<Rightarrow> bool" where
  "ready_inv s q \<longleftrightarrow>
     (\<forall>p. queue_rep (sc_links s, ready s p) (q p)) \<and>
     (\<forall>p. \<forall>x\<in>set (q p). unat (sc_prio (scs s x)) = p \<and> p < priorities \<and> sc_cpu (scs s x) = cpu_id s) \<and>
     prio_top s < priorities \<and> (\<forall>p. q p \<noteq> [] \<longrightarrow> p \<le> prio_top s) \<and>
     (prio_top s \<noteq> 0 \<longrightarrow> q (prio_top s) \<noteq> [])"

definition queued :: "'s rqueues \<Rightarrow> 's set" where
  "queued q = (\<Union>p. set (q p))"

text \<open>Where a context goes: to the front of its level with budget left, else to the end.\<close>

definition insert_ready :: "bool \<Rightarrow> nat \<Rightarrow> 's \<Rightarrow> 's rqueues \<Rightarrow> 's rqueues" where
  "insert_ready front p x q = q(p := if front then x # q p else q p @ [x])"

text \<open>The parts of the state that the list operations leave alone.\<close>

definition same_rest :: "('s, 'e, 't) sched \<Rightarrow> ('s, 'e, 't) sched \<Rightarrow> bool" where
  "same_rest s s' \<longleftrightarrow> cpu_id s' = cpu_id s \<and> cur s' = cur s \<and> rqs s' = rqs s \<and> tmo s' = tmo s \<and>
     budget_tmo s' = budget_tmo s \<and> ec_current s' = ec_current s \<and> ec_partner s' = ec_partner s \<and>
     ec_rcap s' = ec_rcap s \<and> events s' = events s"

lemma same_rest_simps [simp]:
  "same_rest s s" "same_rest s (upd_sc x f s') = same_rest s s'" "same_rest s (raise_sched s') = same_rest s s'"
  "same_rest s (add_tsc_offset e d s') = same_rest s s'"
  by (auto simp: same_rest_def upd_sc_def raise_sched_def add_tsc_offset_def)

lemma upd_sc_simps [simp]:
  "scs (upd_sc x f s) = (scs s)(x := f (scs s x))" "sc_links (upd_sc x f s) = sc_links s"
  "ready (upd_sc x f s) = ready s" "prio_top (upd_sc x f s) = prio_top s" "cpu_id (upd_sc x f s) = cpu_id s"
  "cur (upd_sc x f s) = cur s" "rqs (upd_sc x f s) = rqs s"
  "scs (raise_sched s) = scs s" "sc_links (raise_sched s) = sc_links s" "ready (raise_sched s) = ready s"
  "prio_top (raise_sched s) = prio_top s" "cpu_id (raise_sched s) = cpu_id s" "cur (raise_sched s) = cur s"
  "scs (add_tsc_offset e d s) = scs s" "sc_links (add_tsc_offset e d s) = sc_links s"
  "ready (add_tsc_offset e d s) = ready s" "prio_top (add_tsc_offset e d s) = prio_top s"
  "cpu_id (add_tsc_offset e d s) = cpu_id s"
  by (simp_all add: upd_sc_def raise_sched_def add_tsc_offset_def)

lemma ready_inv_mem:
  assumes "ready_inv s q" "x \<in> set (q p)"
  shows "unat (sc_prio (scs s x)) = p" "p < priorities" "sc_cpu (scs s x) = cpu_id s"
  using assms by (auto simp: ready_inv_def)

lemma ready_inv_rep: "ready_inv s q \<Longrightarrow> queue_rep (sc_links s, ready s p) (q p)"
  by (simp add: ready_inv_def)

lemma ready_inv_level: "ready_inv s q \<Longrightarrow> x \<in> set (q p) \<Longrightarrow> x \<in> set (q p') \<Longrightarrow> p = p'"
  using ready_inv_mem(1) by metis

lemma ready_inv_cong:
  assumes "sc_links s' = sc_links s" "ready s' = ready s" "prio_top s' = prio_top s" "cpu_id s' = cpu_id s"
    and "\<And>x. sc_prio (scs s' x) = sc_prio (scs s x) \<and> sc_cpu (scs s' x) = sc_cpu (scs s x)"
  shows "ready_inv s' q = ready_inv s q"
  using assms by (simp add: ready_inv_def)

lemma ready_inv_upd_sc:
  assumes "\<And>y. sc_prio (f y) = sc_prio y" "\<And>y. sc_cpu (f y) = sc_cpu y"
  shows "ready_inv (upd_sc x f s) q = ready_inv s q"
  using assms by (intro ready_inv_cong) simp_all

lemma queue_rep_push:
  assumes "queue_rep (l, h) (xs @ [x])"
  shows "queue_rep (l, Some x) (x # xs)"
  using assms ring_rotate[of l xs "[x]"] by (simp add: queue_rep_def)

lemma ready_enqueue_links:
  assumes inv: "ready_inv s q" and x: "x \<notin> queued q"
  obtains l h where "enqueue (sc_links s, ready s p) x = Inr (l, h)"
    "queue_rep (l, h) (q p @ [x])" "\<And>p'. p' \<noteq> p \<Longrightarrow> queue_rep (l, ready s p') (q p')"
    "ready s p = None \<longleftrightarrow> q p = []" "\<And>y. y \<noteq> x \<Longrightarrow> y \<notin> set (q p) \<Longrightarrow> lnext l y = lnext (sc_links s) y \<and> lprev l y = lprev (sc_links s) y"
proof -
  have rep: "queue_rep (sc_links s, ready s p') (q p')" for p' using inv by (simp add: ready_inv_def)
  have nin: "x \<notin> set (q p')" for p' using x by (auto simp: queued_def)
  obtain l h where lh: "enqueue (sc_links s, ready s p) x = Inr (l, h)" "queue_rep (l, h) (q p @ [x])"
    and fr: "\<And>y. y \<notin> set (x # q p) \<Longrightarrow> lnext l y = lnext (sc_links s) y \<and> lprev l y = lprev (sc_links s) y"
    using enqueue_rep[OF rep nin] by metis
  have "queue_rep (l, ready s p') (q p')" if "p' \<noteq> p" for p'
  proof (rule queue_rep_cong[OF rep])
    fix y assume y: "y \<in> set (q p')"
    then have "y \<notin> set (x # q p)" using ready_inv_level[OF inv y, of p] nin[of p'] that y by auto
    then show "lnext l y = lnext (sc_links s) y \<and> lprev l y = lprev (sc_links s) y" by (rule fr)
  qed
  moreover have "ready s p = None \<longleftrightarrow> q p = []"
    using rep[of p] by (cases "q p") (auto simp: queue_rep_def)
  ultimately show thesis using lh fr by (intro that[of l h]) auto
qed

lemma note_top_eq: "note_top x s = s\<lparr>prio_top := max (unat (sc_prio (scs s x))) (prio_top s)\<rparr>"
  by (simp add: note_top_def max_def)

lemma link_ready_inv:
  assumes inv: "ready_inv s q" and x: "x \<notin> queued q"
    and p: "unat (sc_prio (scs s x)) = p" "p < priorities" "sc_cpu (scs s x) = cpu_id s"
  obtains l f where "link_ready x ul (note_top x s) = Inr (s\<lparr>prio_top := max p (prio_top s), sc_links := l, ready := f\<rparr>)"
    "ready_inv (s\<lparr>prio_top := max p (prio_top s), sc_links := l, ready := f\<rparr>)
       (insert_ready (ul \<and> sc_left (scs s x) \<noteq> 0) p x q)"
    "\<And>y. y \<noteq> x \<Longrightarrow> y \<notin> queued q \<Longrightarrow> lnext l y = lnext (sc_links s) y \<and> lprev l y = lprev (sc_links s) y"
proof -
  obtain l h where lh: "enqueue (sc_links s, ready s p) x = Inr (l, h)"
    "queue_rep (l, h) (q p @ [x])" "\<And>p'. p' \<noteq> p \<Longrightarrow> queue_rep (l, ready s p') (q p')"
    "ready s p = None \<longleftrightarrow> q p = []"
    and fr: "\<And>y. y \<noteq> x \<Longrightarrow> y \<notin> set (q p) \<Longrightarrow> lnext l y = lnext (sc_links s) y \<and> lprev l y = lprev (sc_links s) y"
    using ready_enqueue_links[OF inv x] by metis
  define front where "front = (ul \<and> sc_left (scs s x) \<noteq> 0)"
  define f where "f = (ready s)(p := if ready s p \<noteq> None \<and> front then Some x else h)"
  define q' where "q' = insert_ready front p x q"
  let ?s1 = "s\<lparr>prio_top := max p (prio_top s), sc_links := l, ready := f\<rparr>"
  have rep: "queue_rep (l, f p') (q' p')" for p'
  proof (cases "p' = p")
    case True
    then show ?thesis
      using lh(2,4) queue_rep_push[OF lh(2)] by (cases "q p") (auto simp: f_def q'_def insert_ready_def)
  qed (use lh(3) in \<open>simp add: f_def q'_def insert_ready_def\<close>)
  have mem: "unat (sc_prio (scs s y)) = p' \<and> p' < priorities \<and> sc_cpu (scs s y) = cpu_id s"
    if "y \<in> set (q' p')" for y p'
    using that p ready_inv_mem[OF inv, of y p'] by (auto simp: q'_def insert_ready_def split: if_splits)
  have "ready_inv ?s1 q'"
    unfolding ready_inv_def
  proof (intro conjI allI ballI impI)
    show "p' \<le> prio_top ?s1" if "q' p' \<noteq> []" for p'
      using that inv by (auto simp: q'_def insert_ready_def ready_inv_def le_max_iff_disj split: if_splits)
    show "q' (prio_top ?s1) \<noteq> []" if "prio_top ?s1 \<noteq> 0"
      using that inv by (auto simp: q'_def insert_ready_def ready_inv_def max_def split: if_splits)
    show "prio_top ?s1 < priorities" using inv p(2) by (simp add: ready_inv_def)
  qed (use rep mem in auto)
  moreover have "link_ready x ul (note_top x s) = Inr ?s1"
    using lh(1) p(1) by (simp add: link_ready_def note_top_eq f_def front_def)
  ultimately show thesis using fr by (intro that[of f l]) (auto simp: q'_def front_def queued_def)
qed

lemma ready_enqueue_spec:
  assumes inv: "ready_inv s q" and x: "x \<notin> queued q" and c: "cur s = Some c"
    and p: "unat (sc_prio (scs s x)) = p" "p < priorities" "sc_cpu (scs s x) = cpu_id s"
  obtains s' where "ready_enqueue x t False ul s = Inr s'"
    "ready_inv s' (insert_ready (ul \<and> sc_left (scs s x) \<noteq> 0) p x q)" "same_rest s s'"
    "scs s' = (scs s)(x := (scs s x)\<lparr>sc_left := (if sc_left (scs s x) = 0 then sc_budget (scs s x)
                                                  else sc_left (scs s x)), sc_tsc := t\<rparr>)"
    "prio_top s' = max p (prio_top s)"
    "\<And>y. y \<noteq> x \<Longrightarrow> y \<notin> queued q \<Longrightarrow> lnext (sc_links s') y = lnext (sc_links s) y \<and> lprev (sc_links s') y = lprev (sc_links s) y"
    "sc_prio (scs s x) > sc_prio (scs s c) \<Longrightarrow> hazard s' = hazard s OR HZD_SCHED"
proof -
  obtain l f where lf: "link_ready x ul (note_top x s) = Inr (s\<lparr>prio_top := max p (prio_top s), sc_links := l, ready := f\<rparr>)"
    and inv1: "ready_inv (s\<lparr>prio_top := max p (prio_top s), sc_links := l, ready := f\<rparr>)
       (insert_ready (ul \<and> sc_left (scs s x) \<noteq> 0) p x q)"
    and fr: "\<And>y. y \<noteq> x \<Longrightarrow> y \<notin> queued q \<Longrightarrow> lnext l y = lnext (sc_links s) y \<and> lprev l y = lprev (sc_links s) y"
    using link_ready_inv[OF inv x p] by metis
  let ?s1 = "s\<lparr>prio_top := max p (prio_top s), sc_links := l, ready := f\<rparr>"
  obtain s2 where s2: "check_preempt x ul ?s1 = Inr s2" "s2 = ?s1 \<or> s2 = raise_sched ?s1"
    "sc_prio (scs s x) > sc_prio (scs s c) \<Longrightarrow> s2 = raise_sched ?s1"
    using c by (simp add: check_preempt_def)
  have "ready_inv s2 (insert_ready (ul \<and> sc_left (scs s x) \<noteq> 0) p x q)"
    using s2(2) inv1 by (subst ready_inv_cong[of _ ?s1]) auto
  moreover have "ready_enqueue x t False ul s = Inr (refill x t s2)"
    using p lf s2 by (simp add: ready_enqueue_def take_ref_def)
  ultimately show thesis
  proof (intro that[of "refill x t s2"])
    show "same_rest s (refill x t s2)" "prio_top (refill x t s2) = max p (prio_top s)"
      using s2(2) by (auto simp: refill_def same_rest_def upd_sc_def raise_sched_def)
    show "lnext (sc_links (refill x t s2)) y = lnext (sc_links s) y \<and>
        lprev (sc_links (refill x t s2)) y = lprev (sc_links s) y" if "y \<noteq> x" "y \<notin> queued q" for y
      using s2(2) fr[OF that] by (auto simp: refill_def)
    show "hazard (refill x t s2) = hazard s OR HZD_SCHED" if "sc_prio (scs s x) > sc_prio (scs s c)"
      using s2(3)[OF that] by (simp add: refill_def upd_sc_def raise_sched_def)
    show "scs (refill x t s2) = (scs s)(x := (scs s x)\<lparr>sc_left := (if sc_left (scs s x) = 0
        then sc_budget (scs s x) else sc_left (scs s x)), sc_tsc := t\<rparr>)"
      using s2(2) by (auto simp: refill_def)
  qed (simp_all add: refill_def ready_inv_upd_sc)
qed

lemma lower_top_props:
  "lower_top f n \<le> n" "lower_top f n \<noteq> 0 \<Longrightarrow> f (lower_top f n) \<noteq> None"
  "f p \<noteq> None \<Longrightarrow> p \<le> n \<Longrightarrow> p \<le> lower_top f n"
  by (induction n) (auto simp: le_Suc_eq)

lemma ready_head: "ready_inv s q \<Longrightarrow> ready s p = first (q p)"
  using ready_inv_rep[of s q p] by (simp add: queue_rep_def first_def)

lemma ready_unlink:
  assumes inv: "ready_inv s q" and x: "x \<in> set (q p)"
  obtains n e where "lnext (sc_links s) x = Some n" "lprev (sc_links s) x = Some e"
    "\<And>f l. f = (if ready s p = Some x then (ready s)(p := if n = x then None else Some n) else ready s) \<Longrightarrow>
       l = set_next x None (set_prev x None (set_next e (Some n) (set_prev n (Some e) (sc_links s)))) \<Longrightarrow>
       (\<forall>p'. queue_rep (l, f p') ((q(p := remove1 x (q p))) p')) \<and> unlinked l x \<and>
       (\<forall>y. y \<notin> queued q \<longrightarrow> lnext l y = lnext (sc_links s) y \<and> lprev l y = lprev (sc_links s) y)"
proof -
  let ?l = "sc_links s"
  note rep = ready_inv_rep[OF inv]
  have ring: "ring ?l (q p)" using rep[of p] by (simp add: queue_rep_def)
  obtain n e where ne: "lnext ?l x = Some n" "lprev ?l x = Some e" using ring_some[OF ring x] by blast
  have single: "q p = [x]" if "n = x"
  proof -
    obtain as bs where qp: "q p = as @ x # bs" and r: "ring ?l (x # bs @ as)"
      using ring x by (rule ring_to_front)
    have "hd ((bs @ as) @ [x]) = x" using ring_next_prev(1)[OF r] ne(1) that by simp
    then have "bs @ as = []" using ring_distinct[OF r] by (cases "bs @ as") auto
    then show ?thesis using qp by simp
  qed
  obtain l' h' where dq: "dequeue (?l, ready s p) (Some x) = (True, l', h')"
    "queue_rep (l', h') (remove1 x (q p))" "unlinked l' x"
    and fr: "\<And>y. y \<notin> set (q p) \<Longrightarrow> lnext l' y = lnext ?l y \<and> lprev l' y = lprev ?l y"
    using dequeue_rep[OF rep x] by metis
  show thesis
  proof (rule that[OF ne])
    fix f l
    assume f: "f = (if ready s p = Some x then (ready s)(p := if n = x then None else Some n) else ready s)"
      and l: "l = set_next x None (set_prev x None (set_next e (Some n) (set_prev n (Some e) ?l)))"
    have "n = x \<Longrightarrow> e = x \<and> ready s p = Some x"
      using single ready_head[OF inv, of p] ring ne by auto
    then have l': "l = l'" and f': "f p = h'"
      using dq(1) ne f l by (auto simp: dequeue_def intro!: links_eqI split: if_splits)
    have "queue_rep (l, f p') (q p')" if "p' \<noteq> p" for p'
    proof -
      have "f p' = ready s p'" using that f by simp
      moreover have "y \<notin> set (q p)" if "y \<in> set (q p')" for y
        using ready_inv_level[OF inv that, of p] \<open>p' \<noteq> p\<close> by auto
      ultimately show ?thesis using queue_rep_cong[OF rep[of p'], of l] fr l' by metis
    qed
    then show "(\<forall>p'. queue_rep (l, f p') ((q(p := remove1 x (q p))) p')) \<and> unlinked l x \<and>
       (\<forall>y. y \<notin> queued q \<longrightarrow> lnext l y = lnext ?l y \<and> lprev l y = lprev ?l y)"
      using dq(2,3) fr l' f' by (auto simp: queued_def)
  qed
qed

lemma ready_dequeue_spec:
  assumes inv: "ready_inv s q" and x: "x \<in> set (q p)" and ec: "sc_ec (scs s x) = Some ec"
  obtains s' where "ready_dequeue x t s = Inr s'" "ready_inv s' (q(p := remove1 x (q p)))"
    "same_rest s s'" "scs s' = (scs s)(x := (scs s x)\<lparr>sc_tsc := t\<rparr>)" "unlinked (sc_links s') x"
    "ec_tsc_offset s' ec = ec_tsc_offset s ec + (sc_tsc (scs s x) - t)" "hazard s' = hazard s"
    "\<And>y. y \<notin> queued q \<Longrightarrow> lnext (sc_links s') y = lnext (sc_links s) y \<and> lprev (sc_links s') y = lprev (sc_links s) y"
proof -
  note mem = ready_inv_mem[OF inv x]
  obtain n e where ne: "lnext (sc_links s) x = Some n" "lprev (sc_links s) x = Some e"
    and un: "\<And>f l. f = (if ready s p = Some x then (ready s)(p := if n = x then None else Some n) else ready s) \<Longrightarrow>
       l = set_next x None (set_prev x None (set_next e (Some n) (set_prev n (Some e) (sc_links s)))) \<Longrightarrow>
       (\<forall>p'. queue_rep (l, f p') ((q(p := remove1 x (q p))) p')) \<and> unlinked l x \<and>
       (\<forall>y. y \<notin> queued q \<longrightarrow> lnext l y = lnext (sc_links s) y \<and> lprev l y = lprev (sc_links s) y)"
    by (rule ready_unlink[OF inv x]) blast
  define f where "f = (if ready s p = Some x then (ready s)(p := if n = x then None else Some n) else ready s)"
  define l where "l = set_next x None (set_prev x None (set_next e (Some n) (set_prev n (Some e) (sc_links s))))"
  define q' where "q' = q(p := remove1 x (q p))"
  note un' = un[OF f_def l_def, folded q'_def]
  let ?s1 = "s\<lparr>ready := f, sc_links := l, prio_top := lower_top f (prio_top s)\<rparr>"
  let ?s' = "upd_sc x (\<lambda>y. y\<lparr>sc_tsc := t\<rparr>) (add_tsc_offset ec (sc_tsc (scs s x) - t) ?s1)"
  have fq: "f p' = first (q' p')" for p' using un' by (auto simp: queue_rep_def first_def)
  have sub: "set (q' p') \<subseteq> set (q p')" for p' using set_remove1_subset[of x "q p"] by (auto simp: q'_def)
  have "ready_inv ?s1 q'"
    unfolding ready_inv_def
  proof (intro conjI allI ballI impI)
    show "p' \<le> prio_top ?s1" if "q' p' \<noteq> []" for p'
    proof -
      have "q p' \<noteq> []" using that sub[of p'] by (cases "q' p'") auto
      then have "p' \<le> prio_top s" using inv by (simp add: ready_inv_def)
      then show ?thesis using that lower_top_props(3)[of f p' "prio_top s"] by (simp add: fq first_def split: list.splits)
    qed
    show "q' (prio_top ?s1) \<noteq> []" if "prio_top ?s1 \<noteq> 0"
      using that lower_top_props(2)[of f "prio_top s"] by (auto simp: fq)
    show "prio_top ?s1 < priorities"
      using inv lower_top_props(1)[of f "prio_top s"] by (auto simp: ready_inv_def)
    show "unat (sc_prio (scs ?s1 y)) = p'" "p' < priorities" "sc_cpu (scs ?s1 y) = cpu_id ?s1"
      if "y \<in> set (q' p')" for y p'
      using that sub[of p'] ready_inv_mem[OF inv, of y p'] by auto
  qed (use un' in simp)
  then have "ready_inv ?s' q'" by (subst ready_inv_cong[of _ ?s1]) auto
  moreover have "ready_dequeue x t s = Inr ?s'"
    using mem ne ec by (simp add: ready_dequeue_def Let_def f_def l_def)
  moreover have "same_rest s ?s'" by (simp add: same_rest_def upd_sc_def add_tsc_offset_def)
  ultimately show thesis
    using un' by (intro that[of ?s']) (auto simp: q'_def add_tsc_offset_def upd_sc_def)
qed

lemma ready_top:
  assumes "ready_inv s q" "queued q \<noteq> {}"
  shows "q (prio_top s) \<noteq> []" "\<And>p. q p \<noteq> [] \<Longrightarrow> p \<le> prio_top s"
proof -
  show le: "\<And>p. q p \<noteq> [] \<Longrightarrow> p \<le> prio_top s" using assms(1) by (simp add: ready_inv_def)
  obtain p where "q p \<noteq> []" using assms(2) by (auto simp: queued_def)
  then show "q (prio_top s) \<noteq> []"
    using le[of p] assms(1) by (cases "prio_top s = 0") (auto simp: ready_inv_def)
qed

text \<open>Dropping a reference touches one context, the hazards and the events only.\<close>

definition sc_frame :: "'s \<Rightarrow> ('s, 'e, 't) sched \<Rightarrow> ('s, 'e, 't) sched \<Rightarrow> bool" where
  "sc_frame x s s' \<longleftrightarrow>
     sc_links s' = sc_links s \<and> ready s' = ready s \<and> prio_top s' = prio_top s \<and> cpu_id s' = cpu_id s \<and>
     cur s' = cur s \<and> tmo s' = tmo s \<and> budget_tmo s' = budget_tmo s \<and> ec_current s' = ec_current s \<and>
     rqs s' = rqs s \<and> (\<forall>y. y \<noteq> x \<longrightarrow> scs s' y = scs s y) \<and>
     sc_prio (scs s' x) = sc_prio (scs s x) \<and> sc_cpu (scs s' x) = sc_cpu (scs s x) \<and>
     sc_ec (scs s' x) = sc_ec (scs s x)"

lemma sc_frame_simps [simp]:
  "sc_frame x s s"
  "sc_frame x s (raise_sched s') = sc_frame x s s'" "sc_frame x s (log_event e s') = sc_frame x s s'"
  by (auto simp: sc_frame_def raise_sched_def log_event_def)

lemma sc_frame_upd:
  assumes "\<And>y. sc_prio (f y) = sc_prio y" "\<And>y. sc_cpu (f y) = sc_cpu y" "\<And>y. sc_ec (f y) = sc_ec y"
  shows "sc_frame x s (upd_sc x f s') = sc_frame x s s'"
  using assms by (auto simp: sc_frame_def upd_sc_def)

lemma drop_ref_frame:
  assumes "cur s = Some c"
  shows "\<exists>s'. drop_ref x s = Inr s' \<and> sc_frame x s s'"
  using assms
  by (cases "del_rcu (sc_ref (scs s x))"; cases "fst (del_rcu (sc_ref (scs s x)))")
    (auto simp: drop_ref_def rcu_call_def pre_free_def Let_def sc_frame_upd log_event_def[symmetric]
      split: option.split)

lemma ready_inv_frame: "sc_frame x s s' \<Longrightarrow> ready_inv s' q = ready_inv s q"
proof (rule ready_inv_cong)
  fix y assume "sc_frame x s s'"
  then show "sc_prio (scs s' y) = sc_prio (scs s y) \<and> sc_cpu (scs s' y) = sc_cpu (scs s y)"
    by (cases "y = x") (auto simp: sc_frame_def)
qed (simp_all add: sc_frame_def)

text \<open>
  What one round of the scheduler does, on the abstract ready lists: the context that gave up
  the CPU is inserted unless it suspends, then the first context of the highest level leaves.
\<close>

definition sched_pre :: "nat \<Rightarrow> ('s, 'e, 't) sched \<Rightarrow> 's rqueues \<Rightarrow> 's \<Rightarrow> bool" where
  "sched_pre k s q c \<longleftrightarrow>
     ready_inv s q \<and> cur s = Some c \<and> c \<notin> queued q \<and> lprev (sc_links s) c = None \<and>
     unat (sc_prio (scs s c)) < priorities \<and> sc_cpu (scs s c) = cpu_id s \<and>
     (\<forall>x\<in>insert c (queued q). sc_ec (scs s x) \<noteq> None \<and> \<not> disabled_self s x) \<and>
     (\<exists>xs. timeouts_rep (tmo s) xs \<and> length xs < k)"

text \<open>Taking the first context of the highest level, with the budget timer set for it.\<close>

definition picked :: "('s, 'e, 't) sched \<Rightarrow> 's rqueues \<Rightarrow> u64 \<Rightarrow> ('s, 'e, 't) sched \<Rightarrow> 's \<Rightarrow> bool" where
  "picked s q t s' n \<longleftrightarrow>
     (\<exists>top. q top \<noteq> [] \<and> (\<forall>p. q p \<noteq> [] \<longrightarrow> p \<le> top) \<and> n = hd (q top) \<and> ready_inv s' (q(top := tl (q top)))) \<and>
     cur s' = Some n \<and> unlinked (sc_links s') n \<and> ec_current s' = ec_current s \<and>
     scs s' = (scs s)(n := (scs s n)\<lparr>sc_tsc := t\<rparr>) \<and>
     tl_time (tmo s') (budget_tmo s') = t + sc_left (scs s n) \<and>
     (\<exists>xs. timeouts_rep (tmo s') xs \<and> budget_tmo s' \<in> set xs)"

lemma pick_next:
  assumes inv: "ready_inv s q" and ne: "queued q \<noteq> {}"
    and ec: "\<And>x. x \<in> queued q \<Longrightarrow> sc_ec (scs s x) \<noteq> None"
    and tm: "timeouts_rep (tmo s) xs" "budget_tmo s \<notin> set xs" "length xs < k"
  obtains n tm' s' where "ready s (prio_top s) = Some n"
    "timeout_enqueue k (tmo s) (budget_tmo s) (t + sc_left (scs s n)) = Inr tm'"
    "ready_dequeue n t (s\<lparr>tmo := tm', ctr_loop := 0, cur := Some n\<rparr>) = Inr s'" "picked s q t s' n"
proof -
  let ?top = "prio_top s"
  obtain n ns where qt: "q ?top = n # ns" using ready_top(1)[OF inv ne] by (cases "q ?top") auto
  have n: "ready s ?top = Some n" using ready_head[OF inv, of ?top] qt by simp
  obtain tm' where tm': "timeout_enqueue k (tmo s) (budget_tmo s) (t + sc_left (scs s n)) = Inr tm'"
    "timeouts_rep tm' (takeWhile (\<lambda>x. tl_time (tmo s) x < t + sc_left (scs s n)) xs @
       budget_tmo s # dropWhile (\<lambda>x. tl_time (tmo s) x < t + sc_left (scs s n)) xs)"
    "tl_time tm' = (tl_time (tmo s))(budget_tmo s := t + sc_left (scs s n))"
    using timeout_enqueue_rep[OF tm] by blast
  let ?s1 = "s\<lparr>tmo := tm', ctr_loop := 0, cur := Some n\<rparr>"
  have inv1: "ready_inv ?s1 q" using inv by (subst ready_inv_cong[of _ s]) auto
  have nq: "n \<in> set (q ?top)" using qt by simp
  then obtain e where "sc_ec (scs ?s1 n) = Some e" using ec[of n] by (auto simp: queued_def)
  from ready_dequeue_spec[OF inv1 nq this]
  obtain s' where s': "ready_dequeue n t ?s1 = Inr s'" "ready_inv s' (q(?top := remove1 n (q ?top)))"
    "same_rest ?s1 s'" "scs s' = (scs s)(n := (scs s n)\<lparr>sc_tsc := t\<rparr>)" "unlinked (sc_links s') n"
    by (metis sched.select_convs(2) sched.update_convs(7,8,15) sched.surjective)
  have "picked s q t s' n"
    unfolding picked_def
  proof (intro conjI)
    show "\<exists>top. q top \<noteq> [] \<and> (\<forall>p. q p \<noteq> [] \<longrightarrow> p \<le> top) \<and> n = hd (q top) \<and> ready_inv s' (q(top := tl (q top)))"
      using s'(2) qt ready_top(2)[OF inv ne] by (intro exI[of _ ?top]) auto
    show "\<exists>xs. timeouts_rep (tmo s') xs \<and> budget_tmo s' \<in> set xs"
      using s'(3) tm'(2) by (auto simp: same_rest_def)
  qed (use s' tm'(3) in \<open>auto simp: same_rest_def\<close>)
  with n tm'(1) s'(1) show thesis by (rule that)
qed

lemma account_props:
  assumes "timeouts_rep (tmo s) xs"
  obtains ys where "timeouts_rep (tmo (account t c s)) ys" "budget_tmo s \<notin> set ys" "length ys \<le> length xs"
    "ready_inv (account t c s) q = ready_inv s q" "cur (account t c s) = cur s"
    "sc_links (account t c s) = sc_links s" "budget_tmo (account t c s) = budget_tmo s"
    "ec_current (account t c s) = ec_current s" "cpu_id (account t c s) = cpu_id s"
    "scs (account t c s) = (scs s)(c := (scs s c)\<lparr>sc_time := sc_time (scs s c) + (t - sc_tsc (scs s c)),
       sc_left := budget_left (tl_time (tmo s) (budget_tmo s)) t\<rparr>)"
proof -
  let ?b = "budget_tmo s"
  obtain tm ys where tm: "timeout_dequeue (tmo s) ?b = (tl_time (tmo s) ?b, tm)" "timeouts_rep tm ys"
    "?b \<notin> set ys" "length ys \<le> length xs"
  proof (cases "?b \<in> set xs")
    case True
    then obtain as bs where xs: "xs = as @ ?b # bs" by (metis split_list)
    then have "distinct xs" using assms by (simp add: timeouts_rep_def dll_def)
    with timeout_dequeue_rep[of "tmo s" as ?b bs] assms xs show thesis
      by (metis that distinct_append distinct.simps(2) Un_iff disjoint_iff list.set_intros(1) set_append
          length_append length_Cons add_Suc_right le_SucI order_refl)
  next
    case False
    with timeout_dequeue_idle[OF assms False] assms show thesis by (intro that) auto
  qed
  then have a: "account t c s = (upd_sc c (\<lambda>x. x\<lparr>sc_time := sc_time x + (t - sc_tsc x),
      sc_left := budget_left (tl_time (tmo s) ?b) t\<rparr>) (s\<lparr>tmo := tm\<rparr>))\<lparr>hazard := hazard s AND NOT HZD_SCHED\<rparr>"
    by (simp add: account_def upd_sc_def)
  have "ready_inv (account t c s) q = ready_inv s q"
    by (rule ready_inv_cong) (simp_all add: a)
  then show thesis using tm a by (intro that[of ys]) (auto simp: upd_sc_def)
qed

lemma queued_insert: "queued (insert_ready b p c q) = insert c (queued q)"
  by (auto simp: queued_def insert_ready_def split: if_splits)

lemma schedule_run:
  assumes pre: "sched_pre k s q c"
  obtains s1 s' n where "schedule_wo_activate k (t # ts) False ul s = Inr s'"
    "picked s1 (insert_ready (ul \<and> budget_left (tl_time (tmo s) (budget_tmo s)) t \<noteq> 0)
                  (unat (sc_prio (scs s c))) c q) t s' n"
    "sc_time (scs s1 c) = sc_time (scs s c) + (t - sc_tsc (scs s c))"
    "sc_left (scs s1 c) = (let l = budget_left (tl_time (tmo s) (budget_tmo s)) t
                           in if l = 0 then sc_budget (scs s c) else l)"
    "\<And>y. y \<noteq> c \<Longrightarrow> scs s1 y = scs s y"
proof -
  let ?l = "budget_left (tl_time (tmo s) (budget_tmo s)) t"
  obtain xs where xs: "timeouts_rep (tmo s) xs" "length xs < k" using pre by (auto simp: sched_pre_def)
  define s0 where "s0 = account t c s"
  obtain ys where ys: "timeouts_rep (tmo s0) ys" "budget_tmo s \<notin> set ys" "length ys \<le> length xs"
    "ready_inv s0 q" "cur s0 = Some c" "budget_tmo s0 = budget_tmo s" "ec_current s0 = ec_current s"
    "cpu_id s0 = cpu_id s"
    and s0: "scs s0 = (scs s)(c := (scs s c)\<lparr>sc_time := sc_time (scs s c) + (t - sc_tsc (scs s c)), sc_left := ?l\<rparr>)"
    using account_props[OF xs(1), of t c q] pre unfolding s0_def sched_pre_def by metis
  have nd: "\<not> disabled_self s0 c" using pre ys(7) by (auto simp: sched_pre_def disabled_self_def s0)
  define q1 where "q1 = insert_ready (ul \<and> ?l \<noteq> 0) (unat (sc_prio (scs s c))) c q"
  obtain s1 where s1: "ready_enqueue c t False ul s0 = Inr s1" "ready_inv s1 q1" "same_rest s0 s1"
    "scs s1 = (scs s0)(c := (scs s0 c)\<lparr>sc_left := (if ?l = 0 then sc_budget (scs s c) else ?l), sc_tsc := t\<rparr>)"
  proof -
    have "c \<notin> queued q" "unat (sc_prio (scs s0 c)) = unat (sc_prio (scs s c))"
      "unat (sc_prio (scs s c)) < priorities" "sc_cpu (scs s0 c) = cpu_id s0"
      using pre by (auto simp: sched_pre_def s0 ys(8))
    note spec = ready_enqueue_spec[OF ys(4) this(1) ys(5) this(2-4), of t ul]
    have l: "sc_left (scs s0 c) = ?l" "sc_budget (scs s0 c) = sc_budget (scs s c)" by (simp_all add: s0)
    show thesis by (rule spec[unfolded l, folded q1_def]) (rule that)
  qed
  have qd: "queued q1 = insert c (queued q)" by (simp add: q1_def queued_insert)
  have "sc_ec (scs s1 x) \<noteq> None" if "x \<in> queued q1" for x
    using that pre by (auto simp: sched_pre_def qd s1(4) s0)
  moreover have "timeouts_rep (tmo s1) ys" "budget_tmo s1 \<notin> set ys" "length ys < k"
    using ys s1(3) xs by (auto simp: same_rest_def)
  ultimately obtain n tm' s' where n: "ready s1 (prio_top s1) = Some n"
    "timeout_enqueue k (tmo s1) (budget_tmo s1) (t + sc_left (scs s1 n)) = Inr tm'"
    "ready_dequeue n t (s1\<lparr>tmo := tm', ctr_loop := 0, cur := Some n\<rparr>) = Inr s'" "picked s1 q1 t s' n"
    using pick_next[OF s1(2), of ys k t] qd by (metis insert_not_empty)
  have "schedule_round k t False ul s = Inr (False, s')"
    using pre nd s1(1) n(1-3)
    by (simp add: sched_pre_def schedule_round_def s0_def[symmetric])
  moreover have "n \<in> queued q1" using n(4) hd_in_set unfolding picked_def queued_def by blast
  then have "\<not> disabled_self s' n"
    using pre n(4) s1(3) ys(7)
    by (auto simp: picked_def disabled_self_def sched_pre_def qd s1(4) s0 same_rest_def)
  ultimately have "schedule_wo_activate k (t # ts) False ul s = Inr s'"
    using n(4) by (simp add: picked_def)
  then show thesis using n(4) by (rule that[unfolded q1_def[symmetric]]) (auto simp: s1(4) s0 Let_def)
qed

subsection \<open>Remote queues\<close>

lemma rrq_unlink:
  assumes r: "ring l (x # xs)"
  obtains n e l' where "lnext l x = Some n" "lprev l x = Some e" "lprev (set_prev n (Some e) l) x = Some e"
    "l' = set_next e (Some n) (set_prev n (Some e) l)" "ring l' xs"
    "(if lnext l' x = Some x then None else lnext l' x) = first xs"
    "\<And>y. y \<notin> set (x # xs) \<Longrightarrow> lnext l' y = lnext l y \<and> lprev l' y = lprev l y"
proof -
  define n e where "n = hd (xs @ [x])" and "e = last (x # xs)"
  define l' where "l' = set_next e (Some n) (set_prev n (Some e) l)"
  have ne: "lnext l x = Some n" "lprev l x = Some e" using ring_next_prev[OF r] by (simp_all add: n_def e_def)
  have mem: "n \<in> set (x # xs)" "e \<in> set (x # xs)" by (cases xs; simp add: n_def e_def)+
  have x: "x \<notin> set xs" using ring_distinct[OF r] by simp
  have "ring l' xs"
  proof (cases "xs = []")
    case False
    then show ?thesis
      using ring_remove_front[OF r False, of l'] by (simp add: l'_def n_def e_def)
  qed simp
  moreover have "(if lnext l' x = Some x then None else lnext l' x) = first xs"
    using x ne by (cases xs) (auto simp: l'_def n_def e_def split: if_splits)
  ultimately show thesis
    using ne mem by (intro that[of n e l']) (auto simp: l'_def n_def e_def)
qed

definition movable :: "('s, 'e, 't) sched \<Rightarrow> 's \<Rightarrow> bool" where
  "movable s x \<longleftrightarrow> unat (sc_prio (scs s x)) < priorities \<and> sc_cpu (scs s x) = cpu_id s \<and> \<not> sc_disable (scs s x)"

primrec insert_all :: "('s \<Rightarrow> 'e sc) \<Rightarrow> 's list \<Rightarrow> 's rqueues \<Rightarrow> 's rqueues" where
  "insert_all f [] q = q"
| "insert_all f (x # xs) q = insert_all f xs (insert_ready (sc_left (f x) \<noteq> 0) (unat (sc_prio (f x))) x q)"

lemma insert_all_cong: "(\<And>x. x \<in> set xs \<Longrightarrow> f x = g x) \<Longrightarrow> insert_all f xs q = insert_all g xs q"
  by (induction xs arbitrary: q) auto

lemma rrq_loop_spec:
  assumes "ready_inv s q" "ring (sc_links s) xs" "set xs \<inter> queued q = {}" "length xs \<le> k"
    and "\<And>x. x \<in> set xs \<Longrightarrow> movable s x" "cur s \<noteq> None"
  shows "\<exists>s'. rrq_loop k t (first xs) s = Inr s' \<and> ready_inv s' (insert_all (scs s) xs q) \<and> same_rest s s'"
  using assms
proof (induction xs arbitrary: s q k)
  case (Cons x xs)
  obtain m where k: "k = Suc m" using Cons.prems(4) by (cases k) auto
  let ?l = "sc_links s" and ?p = "unat (sc_prio (scs s x))"
  obtain n e l' where un: "lnext ?l x = Some n" "lprev ?l x = Some e" "lprev (set_prev n (Some e) ?l) x = Some e"
    "l' = set_next e (Some n) (set_prev n (Some e) ?l)" "ring l' xs"
    "(if lnext l' x = Some x then None else lnext l' x) = first xs"
    and fr: "\<And>y. y \<notin> set (x # xs) \<Longrightarrow> lnext l' y = lnext ?l y \<and> lprev l' y = lprev ?l y"
    by (rule rrq_unlink[OF Cons.prems(2)]) blast
  let ?s1 = "s\<lparr>sc_links := l'\<rparr>"
  have inv1: "ready_inv ?s1 q"
  proof -
    have "queue_rep (l', ready s p) (q p)" for p
    proof (rule queue_rep_cong[OF ready_inv_rep[OF Cons.prems(1)]])
      fix y assume "y \<in> set (q p)"
      then have "y \<notin> set (x # xs)" using Cons.prems(3) by (auto simp: queued_def)
      then show "lnext l' y = lnext ?l y \<and> lprev l' y = lprev ?l y" by (rule fr)
    qed
    then show ?thesis using Cons.prems(1) by (simp add: ready_inv_def)
  qed
  have x: "x \<notin> queued q" "x \<notin> set xs" using Cons.prems(3) ring_distinct[OF Cons.prems(2)] by auto
  have mv: "movable s x" using Cons.prems(5) by simp
  obtain c where c: "cur ?s1 = Some c" using Cons.prems(6) by auto
  obtain s2 where s2: "ready_enqueue x t False True ?s1 = Inr s2"
    "ready_inv s2 (insert_ready (sc_left (scs s x) \<noteq> 0) ?p x q)" "same_rest ?s1 s2"
    "\<And>y. y \<noteq> x \<Longrightarrow> scs s2 y = scs s y"
    "\<And>y. y \<noteq> x \<Longrightarrow> y \<notin> queued q \<Longrightarrow> lnext (sc_links s2) y = lnext l' y \<and> lprev (sc_links s2) y = lprev l' y"
  proof -
    have "unat (sc_prio (scs ?s1 x)) = ?p" "?p < priorities" "sc_cpu (scs ?s1 x) = cpu_id ?s1"
      using mv by (auto simp: movable_def)
    note spec = ready_enqueue_spec[OF inv1 x(1) c this, of t True]
    show thesis by (rule spec) (erule that, auto)
  qed
  have "\<exists>s'. rrq_loop m t (first xs) s2 = Inr s' \<and>
      ready_inv s' (insert_all (scs s2) xs (insert_ready (sc_left (scs s x) \<noteq> 0) ?p x q)) \<and> same_rest s2 s'"
  proof (rule Cons.IH[OF s2(2)])
    have "lnext (sc_links s2) y = lnext l' y \<and> lprev (sc_links s2) y = lprev l' y" if "y \<in> set xs" for y
      using s2(5)[of y] that x(2) Cons.prems(3) by auto
    then show "ring (sc_links s2) xs" using un(5) ring_cong[of xs "sc_links s2" l'] by simp
    show "set xs \<inter> queued (insert_ready (sc_left (scs s x) \<noteq> 0) ?p x q) = {}"
      using Cons.prems(3) x(2) by (auto simp: queued_insert)
    show "movable s2 y" if "y \<in> set xs" for y
    proof -
      have "scs s2 y = scs s y" using that x(2) by (intro s2(4)) auto
      then show ?thesis using Cons.prems(5)[of y] s2(3) that by (simp add: movable_def same_rest_def)
    qed
    show "cur s2 \<noteq> None" using s2(3) Cons.prems(6) by (simp add: same_rest_def)
  qed (use Cons.prems(4) k in simp)
  then obtain s' where s': "rrq_loop m t (first xs) s2 = Inr s'"
    "ready_inv s' (insert_all (scs s2) xs (insert_ready (sc_left (scs s x) \<noteq> 0) ?p x q))" "same_rest s2 s'" by blast
  have "insert_all (scs s2) xs q' = insert_all (scs s) xs q'" for q'
    by (rule insert_all_cong, rule s2(4)) (use x(2) in auto)
  moreover have "rrq_loop k t (first (x # xs)) s = Inr s'"
  proof -
    have "lnext l' x = Some n" using un(1,4) by simp
    then have "first xs = (if n = x then None else Some n)" using un(6) by (cases "n = x") auto
    then show ?thesis using un(1-4) s2(1) s'(1) mv k by (cases "n = x") (auto simp: Let_def movable_def)
  qed
  moreover have "same_rest s s'" using s2(3) s'(3) by (simp add: same_rest_def)
  ultimately show ?case using s'(2) by simp
qed simp

subsection \<open>Properties\<close>

text \<open>C2: schedule_picks_highest. When the current context gives up the CPU without suspending, the
  scheduler puts it back into the ready list of its priority, at the front if it has budget left (and
  may use it) and at the end otherwise, with its budget refilled when it is used up; then it
  takes the first context of the highest non-empty priority, which is no longer linked. The run time
  is charged to the old context, the ready lists stay well-formed, and the budget
  timeout is pending at the moment the new context runs out of budget.\<close>
theorem schedule_picks_highest:
  assumes "sched_pre k s q c"
    and "l = budget_left (tl_time (tmo s) (budget_tmo s)) t"
    and "q1 = insert_ready (use_left \<and> l \<noteq> 0) (unat (sc_prio (scs s c))) c q"
  shows "\<exists>s' n top. schedule_wo_activate k (t # ts) False use_left s = Inr s' \<and> cur s' = Some n \<and>
     q1 top \<noteq> [] \<and> (\<forall>p. q1 p \<noteq> [] \<longrightarrow> p \<le> top) \<and> n = hd (q1 top) \<and>
     ready_inv s' (q1(top := tl (q1 top))) \<and> unlinked (sc_links s') n \<and>
     sc_time (scs s' c) = sc_time (scs s c) + (t - sc_tsc (scs s c)) \<and>
     sc_left (scs s' c) = (if l = 0 then sc_budget (scs s c) else l) \<and>
     tl_time (tmo s') (budget_tmo s') = t + sc_left (scs s' n) \<and>
     (\<exists>xs. timeouts_rep (tmo s') xs \<and> budget_tmo s' \<in> set xs)"
proof -
  obtain s1 s' n where s': "schedule_wo_activate k (t # ts) False use_left s = Inr s'"
    "picked s1 q1 t s' n" "sc_time (scs s1 c) = sc_time (scs s c) + (t - sc_tsc (scs s c))"
    "sc_left (scs s1 c) = (if l = 0 then sc_budget (scs s c) else l)"
    by (rule schedule_run[OF assms(1), of t ts use_left, folded assms(2), folded assms(3), unfolded Let_def])
  then show ?thesis unfolding picked_def by (elim conjE exE) (intro exI conjI, auto)
qed


text \<open>rrq_moves_all. The handler of the remote-queue interrupt empties the queue of its
  CPU: it ends, every context queued there, none of them disabled, is moved to the ready list of its priority
  in the order of arrival, and the ready lists stay well-formed.\<close>
theorem rrq_moves_all:
  assumes "ready_inv s q" "queue_rep (sc_links s, rqs s (cpu_id s)) xs" "set xs \<inter> queued q = {}"
    and "\<forall>x\<in>set xs. movable s x" "cur s \<noteq> None" "length xs \<le> k"
  shows "\<exists>s'. rrq_handler k t s = Inr s' \<and> ready_inv s' (insert_all (scs s) xs q) \<and> rqs s' (cpu_id s') = None"
proof -
  have r: "ring (sc_links s) xs" "rqs s (cpu_id s) = first xs"
    using assms(2) by (simp_all add: queue_rep_def first_def)
  obtain s' where s': "rrq_loop k t (first xs) s = Inr s'" "ready_inv s' (insert_all (scs s) xs q)" "same_rest s s'"
    using rrq_loop_spec[OF assms(1) r(1) assms(3,6) _ assms(5), of t] assms(4) by blast
  have "ready_inv (s'\<lparr>rqs := (rqs s')(cpu_id s' := None)\<rparr>) (insert_all (scs s) xs q)"
    using s'(2) by (subst ready_inv_cong[of _ s']) auto
  then show ?thesis using s' r(2) by (simp add: rrq_handler_def)
qed

text \<open>remote_enqueue_appends. Making a context of another CPU ready appends it to that CPU's
  remote queue and interrupts that CPU exactly when the queue was empty.\<close>
theorem remote_enqueue_appends:
  assumes "sc_cpu (scs s x) = c" "c \<noteq> cpu_id s" "queue_rep (sc_links s, rqs s c) xs" "x \<notin> set xs"
  shows "\<exists>s'. remote_enqueue x t False s = Inr s' \<and> queue_rep (sc_links s', rqs s' c) (xs @ [x]) \<and>
           events s' = events s @ (if xs = [] then [Ipi_rrq c] else [])"
proof -
  obtain l h where "enqueue (sc_links s, rqs s c) x = Inr (l, h)" "queue_rep (l, h) (xs @ [x])"
    using enqueue_rep[OF assms(3,4)] by metis
  moreover have "rqs s c = None \<longleftrightarrow> xs = []" using assms(3) by (cases xs) (auto simp: queue_rep_def)
  ultimately show ?thesis
    using assms(1,2) by (auto simp: remote_enqueue_def take_ref_def Let_def log_event_def)
qed

subsection \<open>A concrete state\<close>

text \<open>
  CPU 0 runs context 0 of priority 3; context 1 of priority 5 is ready, context 2 of priority 7
  waits in the remote queue of CPU 0, and context 3 belongs to CPU 1.
\<close>

definition ex_sched :: "(nat, nat, nat) sched" where
  "ex_sched =
     \<lparr>cpu_id = 0,
      scs = (\<lambda>x. \<lparr>sc_ec = Some 9, sc_cpu = (if x = 3 then 1 else 0),
                  sc_prio = (if x = 1 then 5 else if x = 2 then 7 else 3), sc_disable = False,
                  sc_budget = 100, sc_time = 0, sc_time_m = 0, sc_left = 0, sc_tsc = 10, sc_ref = 1, sc_pre = True\<rparr>),
      sc_links = \<lparr>lnext = [1 \<mapsto> 1, 2 \<mapsto> 2], lprev = [1 \<mapsto> 1, 2 \<mapsto> 2]\<rparr>,
      ready = [5 \<mapsto> 1], prio_top = 5, rqs = [0 \<mapsto> 2], cur = Some 0, ctr_loop = 0, hazard = 0,
      ec_current = Some 8, ec_tsc_offset = (\<lambda>_. 0), ec_hazard = (\<lambda>_. 0), ec_partner = (\<lambda>_. False),
      ec_rcap = (\<lambda>_. False), tmo = empty_timeouts, budget_tmo = 0, cross_time = (\<lambda>_. 0),
      killed_time = (\<lambda>_. 0), events = []\<rparr>"

definition ex_queues :: "nat rqueues" where
  "ex_queues = (\<lambda>_. [])(5 := [1])"

lemma ex_ready_inv: "ready_inv ex_sched ex_queues"
  unfolding ready_inv_def
proof (intro conjI allI ballI impI)
  show "queue_rep (sc_links ex_sched, ready ex_sched p) (ex_queues p)" for p
    by (simp add: ex_sched_def ex_queues_def queue_rep_def)
  show "unat (sc_prio (scs ex_sched x)) = p" "p < priorities" "sc_cpu (scs ex_sched x) = cpu_id ex_sched"
    if "x \<in> set (ex_queues p)" for x p
    using that by (simp_all add: ex_sched_def ex_queues_def priorities_def split: if_splits)
  show "p \<le> prio_top ex_sched" if "ex_queues p \<noteq> []" for p
    using that by (simp add: ex_sched_def ex_queues_def split: if_splits)
qed (simp_all add: ex_sched_def ex_queues_def priorities_def)

lemma ex_queued: "queued ex_queues = {1}"
proof -
  have "set (ex_queues p) = (if p = 5 then {1} else {})" for p by (simp add: ex_queues_def)
  then show ?thesis by (auto simp: queued_def split: if_splits)
qed

lemma ex_sched_pre: "sched_pre 1 ex_sched ex_queues 0"
proof -
  have "timeouts_rep (tmo ex_sched) []" using empty_timeouts_rep by (simp add: ex_sched_def)
  moreover have "cur ex_sched = Some 0" "lprev (sc_links ex_sched) 0 = None"
    "unat (sc_prio (scs ex_sched 0)) < priorities" "sc_cpu (scs ex_sched 0) = cpu_id ex_sched"
    "sc_ec (scs ex_sched x) \<noteq> None \<and> \<not> disabled_self ex_sched x" for x
    by (simp_all add: ex_sched_def priorities_def disabled_self_def)
  ultimately show ?thesis
    using ex_ready_inv ex_queued unfolding sched_pre_def by (intro conjI exI[of _ "[]"]) auto
qed

theorem schedule_picks_highest_witness:
  "\<exists>s'. schedule_wo_activate 1 [60] False True ex_sched = Inr s' \<and> cur s' = Some 1 \<and> sc_time (scs s' 0) = 50"
proof -
  let ?q = "insert_ready False 3 (0::nat) ex_queues"
  have l: "budget_left (tl_time (tmo ex_sched) (budget_tmo ex_sched)) 60 = 0"
    by (simp add: ex_sched_def empty_timeouts_def budget_left_def)
  have q: "?q = insert_ready (True \<and> (0::u64) \<noteq> 0) (unat (sc_prio (scs ex_sched 0))) 0 ex_queues"
    by (simp add: ex_sched_def)
  obtain s' n top where s': "schedule_wo_activate 1 [60] False True ex_sched = Inr s'" "cur s' = Some n"
    "?q top \<noteq> []" "\<forall>p. ?q p \<noteq> [] \<longrightarrow> p \<le> top" "n = hd (?q top)"
    "sc_time (scs s' 0) = sc_time (scs ex_sched 0) + (60 - sc_tsc (scs ex_sched 0))"
    using schedule_picks_highest[OF ex_sched_pre l[symmetric] q, of "[]"] by blast
  have "5 \<le> top" using s'(4) by (auto simp: insert_ready_def ex_queues_def)
  then have "top = 5" using s'(3) by (auto simp: insert_ready_def ex_queues_def split: if_splits)
  then show ?thesis using s' by (simp add: insert_ready_def ex_queues_def ex_sched_def)
qed


theorem rrq_moves_all_witness:
  "\<exists>s'. rrq_handler 1 20 ex_sched = Inr s' \<and>
     ready_inv s' (ex_queues(7 := [2])) \<and> rqs s' (cpu_id s') = None"
proof -
  have "queue_rep (sc_links ex_sched, rqs ex_sched (cpu_id ex_sched)) [2]" "movable ex_sched 2"
    "cur ex_sched \<noteq> None"
    by (simp_all add: ex_sched_def queue_rep_def movable_def priorities_def)
  then have "\<exists>s'. rrq_handler 1 20 ex_sched = Inr s' \<and>
      ready_inv s' (insert_all (scs ex_sched) [2] ex_queues) \<and> rqs s' (cpu_id s') = None"
    by (intro rrq_moves_all[OF ex_ready_inv]) (auto simp: ex_queued)
  moreover have "insert_all (scs ex_sched) [2] ex_queues = ex_queues(7 := [2])"
    by (simp add: ex_sched_def insert_ready_def ex_queues_def)
  ultimately show ?thesis by simp
qed

theorem remote_enqueue_appends_witness:
  "\<exists>s'. remote_enqueue 3 20 False ex_sched = Inr s' \<and> events s' = [Ipi_rrq 1]"
  using remote_enqueue_appends[of ex_sched 3 1 "[]" 20] by (auto simp: ex_sched_def queue_rep_def)

end
