(* ===== verification/Semaphore.thy ===== *)
theory Semaphore
  imports Queue Refcount
begin

text \<open>
  Semaphores and signals, \<open>include/sm.hpp\<close>, \<open>src/sm.cpp\<close>, \<open>include/si.hpp\<close>
  and \<open>src/si.cpp\<close>. A semaphore has a counter, a queue of waiting execution contexts and,
  as a signal receiver, a queue of signals; every semaphore is itself a signal that may be
  bound to another semaphore. Execution contexts are known by their links, their reference
  count, their continuation and the registers that carry signal results. What the operations
  ask of the scheduler, of the timeouts and of RCU is recorded as events.

  An operation that gives up the CPU with \<open>Sc::schedule\<close> does not return to its caller;
  the first component of a result says whether the caller goes on.
\<close>

datatype ('m, 'e, 'k) sm_event =
  Schedule bool | Block_sc 'e | Release 'e | Rcu_ec 'e | Rcu_sm 'm
  | Set_timeout 'e u64 | Clr_timeout 'e | Destroy 'm

record ('m, 'e, 'k) sms =
  counter :: "'m \<Rightarrow> mword"
  ec_links :: "'e links"
  ecq :: "'m \<Rightarrow> 'e option"
  si_links :: "'m links"
  siq :: "'m \<Rightarrow> 'm option"
  si_sm :: "'m \<Rightarrow> 'm option"
  si_value :: "'m \<Rightarrow> mword"
  sm_kern :: "'m \<Rightarrow> bool"
  sm_ref :: "'m \<Rightarrow> refcount"
  ec_ref :: "'e \<Rightarrow> refcount"
  ec_cont :: "'e \<Rightarrow> 'k option"
  ec_si_regs :: "'e \<Rightarrow> mword \<times> mword"
  ec_tmo_sm :: "'e \<Rightarrow> 'm option"
  sm_events :: "('m, 'e, 'k) sm_event list"

definition emit :: "('m, 'e, 'k) sm_event \<Rightarrow> ('m, 'e, 'k) sms \<Rightarrow> ('m, 'e, 'k) sms" where
  "emit e s = s\<lparr>sm_events := sm_events s @ [e]\<rparr>"

subsection \<open>Operations on execution contexts\<close>

definition blocked :: "('m, 'e, 'k) sms \<Rightarrow> 'e \<Rightarrow> bool" where
  "blocked s e = (lnext (ec_links s) e \<noteq> None \<or> ec_cont s e = None)"

definition set_si_regs :: "'e \<Rightarrow> mword \<Rightarrow> mword \<Rightarrow> ('m, 'e, 'k) sms \<Rightarrow> ('m, 'e, 'k) sms" where
  "set_si_regs e sig cnt s = s\<lparr>ec_si_regs := (ec_si_regs s)(e := (sig, cnt))\<rparr>"

definition ec_release :: "'e \<Rightarrow> 'k option \<Rightarrow> ('m, 'e, 'k) sms \<Rightarrow> ('m, 'e, 'k) sms" where
  "ec_release e c s =
     emit (Release e) (if c \<noteq> None then s\<lparr>ec_cont := (ec_cont s)(e := c)\<rparr> else s)"

definition sm_drop :: "'m \<Rightarrow> ('m, 'e, 'k) sms \<Rightarrow> ('m, 'e, 'k) sms" where
  "sm_drop m s =
     (case del_rcu (sm_ref s m) of
        (True, r) \<Rightarrow> emit (Rcu_sm m) (s\<lparr>sm_ref := (sm_ref s)(m := r)\<rparr>)
      | (False, r) \<Rightarrow> s\<lparr>sm_ref := (sm_ref s)(m := r)\<rparr>)"

definition timeout_hypercall_enqueue :: "'e \<Rightarrow> u64 \<Rightarrow> 'm \<Rightarrow> ('m, 'e, 'k) sms \<Rightarrow> ('m, 'e, 'k) sms" where
  "timeout_hypercall_enqueue e t m s =
     (let s1 = (case ec_tmo_sm s e of None \<Rightarrow> s | Some old \<Rightarrow> sm_drop old s)
      in (case add_ref (sm_ref s1 m) of
            (False, r) \<Rightarrow> s1\<lparr>ec_tmo_sm := (ec_tmo_sm s1)(e := None)\<rparr>
          | (True, r) \<Rightarrow> emit (Set_timeout e t)
              (s1\<lparr>sm_ref := (sm_ref s1)(m := r), ec_tmo_sm := (ec_tmo_sm s1)(e := Some m)\<rparr>)))"

definition timeout_hypercall_delete :: "'e \<Rightarrow> ('m, 'e, 'k) sms \<Rightarrow> ('m, 'e, 'k) sms" where
  "timeout_hypercall_delete e s = (case ec_tmo_sm s e of None \<Rightarrow> s | Some m \<Rightarrow> sm_drop m s)"

definition set_timeout :: "'e \<Rightarrow> u64 \<Rightarrow> 'm \<Rightarrow> ('m, 'e, 'k) sms \<Rightarrow> ('m, 'e, 'k) sms" where
  "set_timeout e t m s = (if t \<noteq> 0 then timeout_hypercall_enqueue e t m s else s)"

definition block_sc :: "'e \<Rightarrow> ('m, 'e, 'k) sms \<Rightarrow> bool \<times> ('m, 'e, 'k) sms" where
  "block_sc e s = (if \<not> blocked s e then (True, s) else (False, emit (Block_sc e) s))"

subsection \<open>Semaphores\<close>

definition sm_reset :: "'m \<Rightarrow> ('m, 'e, 'k) sms \<Rightarrow> mword \<times> ('m, 'e, 'k) sms" where
  "sm_reset m s = (counter s m, s\<lparr>counter := (counter s)(m := 0)\<rparr>)"

definition sm_dn :: "'m \<Rightarrow> bool \<Rightarrow> u64 \<Rightarrow> 'e \<Rightarrow> bool \<Rightarrow> ('m, 'e, 'k) sms \<Rightarrow> (bool \<times> ('m, 'e, 'k) sms) result" where
  "sm_dn m zero t e block s =
     (if counter s m \<noteq> 0
      then
        (let s = s\<lparr>counter := (counter s)(m := if zero then 0 else counter s m - 1)\<rparr>;
             si = siq s m
         in (case dequeue (si_links s, si) si of
               (False, _) \<Rightarrow> Inr (True, s)
             | (True, l, h) \<Rightarrow>
                 (case si of
                    None \<Rightarrow> Inl Null_deref
                  | Some i \<Rightarrow>
                      (let s = s\<lparr>si_links := l, siq := (siq s)(m := h)\<rparr>;
                           (cnt, s) = sm_reset i s
                       in Inr (True, set_si_regs e (si_value s i) cnt s)))))
      else
        (case add_ref (ec_ref s e) of
           (False, r) \<Rightarrow> Inr (False, emit (Schedule block) s)
         | (True, r) \<Rightarrow>
             bind_result (enqueue (ec_links s, ecq s m) e) (\<lambda>(l, h).
               let s = s\<lparr>ec_ref := (ec_ref s)(e := r), ec_links := l, ecq := (ecq s)(m := h)\<rparr>
               in if \<not> block then Inr (False, emit (Schedule False) s)
                  else
                    (case block_sc e (set_timeout e t m s) of
                       (False, s) \<Rightarrow> Inr (False, s)
                     | (True, s) \<Rightarrow> Inr (True, emit (Clr_timeout e) s)))))"

text \<open>The loop of \<open>up\<close> repeats as long as the context it woke held the last reference.\<close>

fun up_loop :: "nat \<Rightarrow> 'm \<Rightarrow> 'k option \<Rightarrow> 'm option \<Rightarrow> 'e option \<Rightarrow> ('m, 'e, 'k) sms \<Rightarrow> ('m, 'e, 'k) sms result" where
  "up_loop 0 m c si prev s = Inl Out_of_fuel"
| "up_loop (Suc n) m c si prev s =
     (let s = (case prev of None \<Rightarrow> s | Some p \<Rightarrow> emit (Rcu_ec p) s);
          ec = ecq s m
      in (case dequeue (ec_links s, ec) ec of
            (False, _) \<Rightarrow>
              (case si of
                 None \<Rightarrow> Inr (s\<lparr>counter := (counter s)(m := counter s m + 1)\<rparr>)
               | Some i \<Rightarrow>
                   (if lnext (si_links s) i \<noteq> None then Inr s
                    else bind_result (enqueue (si_links s, siq s m) i) (\<lambda>(l, h).
                           Inr (s\<lparr>si_links := l, siq := (siq s)(m := h),
                                  counter := (counter s)(m := counter s m + 1)\<rparr>))))
          | (True, l, h) \<Rightarrow>
              (case ec of
                 None \<Rightarrow> Inl Null_deref
               | Some e \<Rightarrow>
                   (let s = s\<lparr>ec_links := l, ecq := (ecq s)(m := h)\<rparr>;
                        s = (case si of None \<Rightarrow> s
                             | Some i \<Rightarrow> (case sm_reset i s of (cnt, s) \<Rightarrow> set_si_regs e (si_value s i) cnt s));
                        s = ec_release e c s
                    in (case del_rcu (ec_ref s e) of
                          (z, r) \<Rightarrow>
                            (let s = s\<lparr>ec_ref := (ec_ref s)(e := r)\<rparr>
                             in if z then up_loop n m c si (Some e) s else Inr s))))))"

definition sm_up :: "nat \<Rightarrow> 'm \<Rightarrow> 'k option \<Rightarrow> 'm option \<Rightarrow> ('m, 'e, 'k) sms \<Rightarrow> ('m, 'e, 'k) sms result" where
  "sm_up n m c si s = up_loop n m c si None s"

definition sm_timeout :: "'m \<Rightarrow> 'k \<Rightarrow> 'e \<Rightarrow> ('m, 'e, 'k) sms \<Rightarrow> ('m, 'e, 'k) sms" where
  "sm_timeout m com_tim e s =
     (case dequeue (ec_links s, ecq s m) (Some e) of
        (False, _) \<Rightarrow> s
      | (True, l, h) \<Rightarrow> ec_release e (Some com_tim) (s\<lparr>ec_links := l, ecq := (ecq s)(m := h)\<rparr>))"

definition timeout_hypercall_trigger :: "'k \<Rightarrow> 'e \<Rightarrow> ('m, 'e, 'k) sms \<Rightarrow> ('m, 'e, 'k) sms" where
  "timeout_hypercall_trigger com_tim e s =
     (case ec_tmo_sm s e of None \<Rightarrow> s | Some m \<Rightarrow> sm_timeout m com_tim e s)"

text \<open>The destructor: wake waiters until the counter is no longer zero.\<close>

fun sm_delete :: "nat \<Rightarrow> nat \<Rightarrow> 'm \<Rightarrow> 'k \<Rightarrow> ('m, 'e, 'k) sms \<Rightarrow> ('m, 'e, 'k) sms result" where
  "sm_delete 0 k m bad_cap s = (if counter s m \<noteq> 0 then Inr s else Inl Out_of_fuel)"
| "sm_delete (Suc n) k m bad_cap s =
     (if counter s m \<noteq> 0 then Inr s
      else bind_result (sm_up k m (Some bad_cap) None s) (sm_delete n k m bad_cap))"

text \<open>
  \<open>Rcu::call\<close> may refuse an element that is already queued; what it answers is an argument.
\<close>

definition add_to_rcu :: "bool \<Rightarrow> 'm \<Rightarrow> ('m, 'e, 'k) sms \<Rightarrow> ('m, 'e, 'k) sms" where
  "add_to_rcu accepted m s =
     (case add_ref (sm_ref s m) of
        (False, r) \<Rightarrow> s
      | (True, r) \<Rightarrow>
          (let s = emit (Rcu_sm m) (s\<lparr>sm_ref := (sm_ref s)(m := r)\<rparr>)
           in if accepted then s else sm_drop m s))"

subsection \<open>Signals\<close>

definition Si_new :: "'m \<Rightarrow> 'm option \<Rightarrow> mword \<Rightarrow> ('m, 'e, 'k) sms \<Rightarrow> ('m, 'e, 'k) sms result" where
  "Si_new this sm v s =
     (let s = s\<lparr>si_sm := (si_sm s)(this := sm), si_value := (si_value s)(this := v),
               si_links := set_next this None (set_prev this None (si_links s))\<rparr>
      in (case sm of
            None \<Rightarrow> Inr s
          | Some m \<Rightarrow>
              (case add_ref (sm_ref s m) of
                 (True, r) \<Rightarrow> Inr (s\<lparr>sm_ref := (sm_ref s)(m := r)\<rparr>)
               | (False, r) \<Rightarrow> Inl Assert_failed)))"

definition Sm_new ::
  "'m \<Rightarrow> bool \<Rightarrow> mword \<Rightarrow> 'm option \<Rightarrow> mword \<Rightarrow> ('m, 'e, 'k) sms \<Rightarrow> ('m, 'e, 'k) sms result" where
  "Sm_new this kern cnt sm v s =
     Si_new this sm v
       (s\<lparr>counter := (counter s)(this := cnt), ecq := (ecq s)(this := None), siq := (siq s)(this := None),
          sm_kern := (sm_kern s)(this := kern), sm_ref := (sm_ref s)(this := Refcount_new)\<rparr>)"

definition is_signal :: "('m, 'e, 'k) sms \<Rightarrow> 'm \<Rightarrow> bool" where
  "is_signal s i = (si_sm s i \<noteq> None)"

definition si_queued :: "('m, 'e, 'k) sms \<Rightarrow> 'm \<Rightarrow> bool" where
  "si_queued s i = (lnext (si_links s) i \<noteq> None)"

definition Si_delete :: "'m \<Rightarrow> ('m, 'e, 'k) sms \<Rightarrow> ('m, 'e, 'k) sms result" where
  "Si_delete this s =
     (case si_sm s this of
        None \<Rightarrow> Inr s
      | Some m \<Rightarrow>
          bind_result
            (if si_queued s this
             then (case dequeue (si_links s, siq s m) (Some this) of
                     (False, _) \<Rightarrow> Inl Assert_failed
                   | (True, l, h) \<Rightarrow> Inr (s\<lparr>si_links := l, siq := (siq s)(m := h)\<rparr>))
             else Inr s)
            (\<lambda>s. case del_ref (sm_ref s m) of
                   (z, r) \<Rightarrow>
                     (let s = s\<lparr>sm_ref := (sm_ref s)(m := r)\<rparr>
                      in Inr (if z then emit (Destroy m) s else s))))"

fun submit :: "nat \<Rightarrow> nat \<Rightarrow> 'm \<Rightarrow> ('m, 'e, 'k) sms \<Rightarrow> ('m, 'e, 'k) sms result" where
  "submit 0 k i s = Inl Out_of_fuel"
| "submit (Suc n) k i s =
     (case (sm_kern s i, si_sm s i) of
        (True, Some si) \<Rightarrow> submit n k si s
      | _ \<Rightarrow>
          bind_result (sm_up k i None None s) (\<lambda>s.
            case si_sm s i of
              None \<Rightarrow> Inr s
            | Some m \<Rightarrow> sm_up k m None (Some i) s))"

fun submit_times :: "nat \<Rightarrow> nat \<Rightarrow> nat \<Rightarrow> 'm \<Rightarrow> ('m, 'e, 'k) sms \<Rightarrow> ('m, 'e, 'k) sms result" where
  "submit_times 0 n k i s = Inr s"
| "submit_times (Suc c) n k i s = bind_result (submit n k i s) (submit_times c n k i)"

text \<open>
  The loop counter of \<open>chain\<close> has 32 bits and the bound 64: for a bound of \<open>2\<^sup>32\<close> or
  more the loop does not end.
\<close>

definition chain :: "nat \<Rightarrow> nat \<Rightarrow> 'm \<Rightarrow> 'm option \<Rightarrow> ('m, 'e, 'k) sms \<Rightarrow> ('m, 'e, 'k) sms result" where
  "chain n k this si s =
     (if \<not> sm_kern s this then Inl Assert_failed
      else
        (let s = (case si_sm s this of None \<Rightarrow> s | Some old \<Rightarrow> sm_drop old s);
             s = s\<lparr>si_sm := (si_sm s)(this := si)\<rparr>
         in bind_result
              (case si of
                 None \<Rightarrow> Inr s
               | Some m \<Rightarrow>
                   (case add_ref (sm_ref s m) of
                      (True, r) \<Rightarrow> Inr (s\<lparr>sm_ref := (sm_ref s)(m := r)\<rparr>)
                    | (False, r) \<Rightarrow> Inl Assert_failed))
              (\<lambda>s. case sm_reset this s of
                     (c, s) \<Rightarrow> (if unat c < 2 ^ 32 then submit_times (unat c) n k this s
                                 else Inl Out_of_fuel))))"

definition sm_free :: "nat \<Rightarrow> 'm \<Rightarrow> ('m, 'e, 'k) sms \<Rightarrow> ('m, 'e, 'k) sms result" where
  "sm_free k m s =
     (case del_ref (sm_ref s m) of
        (True, r) \<Rightarrow> Inr (emit (Destroy m) (s\<lparr>sm_ref := (sm_ref s)(m := r)\<rparr>))
      | (False, r) \<Rightarrow> sm_up k m None None (s\<lparr>sm_ref := (sm_ref s)(m := r)\<rparr>))"

subsection \<open>The waiting queues as lists\<close>

definition sm_inv :: "('m, 'e, 'k) sms \<Rightarrow> ('m \<Rightarrow> 'e list) \<Rightarrow> bool" where
  "sm_inv s w \<longleftrightarrow>
     (\<forall>m. queue_rep (ec_links s, ecq s m) (w m)) \<and>
     (\<forall>m m' e. e \<in> set (w m) \<longrightarrow> e \<in> set (w m') \<longrightarrow> m = m') \<and>
     (\<forall>m. counter s m \<noteq> 0 \<longrightarrow> w m = [])"

definition waiting :: "('m \<Rightarrow> 'e list) \<Rightarrow> 'e set" where
  "waiting w = (\<Union>m. set (w m))"

fun releases :: "('m, 'e, 'k) sm_event list \<Rightarrow> 'e list" where
  "releases [] = []"
| "releases (Release e # es) = e # releases es"
| "releases (_ # es) = releases es"

lemma releases_append [simp]: "releases (xs @ ys) = releases xs @ releases ys"
  by (induction xs rule: releases.induct) auto

text \<open>A waiting context is dying when the reference of the queue is the last one.\<close>

definition dying :: "('m, 'e, 'k) sms \<Rightarrow> 'e \<Rightarrow> bool" where
  "dying s e \<longleftrightarrow> ec_ref s e = 1"

lemma sm_inv_dequeue:
  assumes inv: "sm_inv s w" and w: "w m = e # es"
  obtains l h where "dequeue (ec_links s, ecq s m) (Some e) = (True, l, h)" "ecq s m = Some e"
    "sm_inv (s\<lparr>ec_links := l, ecq := (ecq s)(m := h)\<rparr>) (w(m := es))"
proof -
  have rep: "queue_rep (ec_links s, ecq s m') (w m')" for m' using inv by (simp add: sm_inv_def)
  have hd: "ecq s m = Some e" using rep[of m] w by (simp add: queue_rep_def)
  obtain l h where lh: "dequeue (ec_links s, ecq s m) (Some e) = (True, l, h)" "queue_rep (l, h) (remove1 e (w m))"
    and fr: "\<And>x. x \<notin> set (w m) \<Longrightarrow> lnext l x = lnext (ec_links s) x \<and> lprev l x = lprev (ec_links s) x"
    by (rule dequeue_rep[OF rep, of e m]) (use w in auto)
  have "queue_rep (l, ecq s m') (w m')" if "m' \<noteq> m" for m'
  proof (rule queue_rep_cong[OF rep])
    fix y assume "y \<in> set (w m')"
    then have "y \<notin> set (w m)" using inv that by (auto simp: sm_inv_def)
    then show "lnext l y = lnext (ec_links s) y \<and> lprev l y = lprev (ec_links s) y" by (rule fr)
  qed
  moreover have "set (remove1 e (w m)) \<subseteq> set (w m)" by (rule set_remove1_subset)
  ultimately have "sm_inv (s\<lparr>ec_links := l, ecq := (ecq s)(m := h)\<rparr>) (w(m := es))"
    using inv lh(2) w unfolding sm_inv_def by (auto split: if_splits)
  then show thesis using lh(1) hd by (intro that)
qed

lemma sm_inv_cong:
  assumes "ec_links s' = ec_links s" "ecq s' = ecq s" "counter s' = counter s"
  shows "sm_inv s' w = sm_inv s w"
  using assms by (simp add: sm_inv_def)

lemma emit_simps [simp]:
  "ec_links (emit e s) = ec_links s" "ecq (emit e s) = ecq s" "counter (emit e s) = counter s"
  "ec_ref (emit e s) = ec_ref s" "sm_events (emit e s) = sm_events s @ [e]"
  "si_links (emit e s) = si_links s" "siq (emit e s) = siq s" "ec_cont (emit e s) = ec_cont s"
  "sm_ref (emit e s) = sm_ref s" "si_sm (emit e s) = si_sm s"
  by (simp_all add: emit_def)

lemma release_simps [simp]:
  "ec_links (ec_release e c s) = ec_links s" "ecq (ec_release e c s) = ecq s"
  "counter (ec_release e c s) = counter s" "ec_ref (ec_release e c s) = ec_ref s"
  "sm_events (ec_release e c s) = sm_events s @ [Release e]"
  by (simp_all add: ec_release_def)

lemma up_loop_spec:
  assumes "sm_inv s w" "length (w m) < n"
  shows "\<exists>s'. up_loop n m c None prev s = Inr s' \<and>
     sm_inv s' (w(m := tl (dropWhile (dying s) (w m)))) \<and>
     counter s' = (if dropWhile (dying s) (w m) = [] then (counter s)(m := counter s m + 1) else counter s) \<and>
     releases (sm_events s') = releases (sm_events s) @ takeWhile (dying s) (w m) @ take 1 (dropWhile (dying s) (w m))"
  using assms
proof (induction "w m" arbitrary: w s n prev)
  case Nil
  obtain k where n: "n = Suc k" using Nil.prems(2) by (cases n) auto
  let ?s = "case prev of None \<Rightarrow> s | Some p \<Rightarrow> emit (Rcu_ec p) s"
  have p: "ec_links ?s = ec_links s" "ecq ?s = ecq s" "counter ?s = counter s"
    "releases (sm_events ?s) = releases (sm_events s)" by (simp_all split: option.split)
  have "ecq s m = None" using Nil by (metis queue_rep_Nil sm_inv_def)
  moreover have "w(m := []) = w" using Nil.hyps by (simp add: fun_upd_idem)
  then have "sm_inv (?s\<lparr>counter := (counter ?s)(m := counter ?s m + 1)\<rparr>) (w(m := []))"
    using Nil.prems(1) Nil.hyps[symmetric] unfolding sm_inv_def by (auto simp: p)
  ultimately show ?case
    using Nil.hyps[symmetric] p by (simp add: n Let_def dequeue_def fun_upd_def)
next
  case (Cons e es)
  obtain k where n: "n = Suc k" using Cons.prems(2) by (cases n) auto
  define s0 where "s0 = (case prev of None \<Rightarrow> s | Some p \<Rightarrow> emit (Rcu_ec p) s)"
  have p: "ec_links s0 = ec_links s" "ecq s0 = ecq s" "counter s0 = counter s" "ec_ref s0 = ec_ref s"
    "releases (sm_events s0) = releases (sm_events s)" by (simp_all add: s0_def split: option.split)
  have inv0: "sm_inv s0 w" using Cons.prems(1) sm_inv_cong[of s0 s w] p by simp
  obtain l h where lh: "dequeue (ec_links s0, ecq s0 m) (Some e) = (True, l, h)" "ecq s0 m = Some e"
    "sm_inv (s0\<lparr>ec_links := l, ecq := (ecq s0)(m := h)\<rparr>) (w(m := es))"
    using sm_inv_dequeue[OF inv0 Cons.hyps(2)[symmetric]] by metis
  let ?s1 = "ec_release e c (s0\<lparr>ec_links := l, ecq := (ecq s0)(m := h)\<rparr>)"
  obtain z r where zr: "del_rcu (ec_ref s e) = (z, r)" by (cases "del_rcu (ec_ref s e)")
  define s2 where "s2 = ?s1\<lparr>ec_ref := (ec_ref ?s1)(e := r)\<rparr>"
  have inv2: "sm_inv s2 (w(m := es))"
    using lh(3) sm_inv_cong[of s2 "s0\<lparr>ec_links := l, ecq := (ecq s0)(m := h)\<rparr>"] by (simp add: s2_def)
  have p2: "counter s2 = counter s" "releases (sm_events s2) = releases (sm_events s) @ [e]"
    "ec_ref s2 = (ec_ref s)(e := r)" by (simp_all add: s2_def p)
  have z: "z \<longleftrightarrow> dying s e"
    using zr del_rcu_cases(2)[of "ec_ref s e"] del_rcu_cases(1) by (auto simp: dying_def)
  have step: "up_loop n m c None prev s = (if z then up_loop k m c None (Some e) s2 else Inr s2)"
    using lh(1,2) zr p by (simp add: n Let_def s0_def[symmetric] s2_def)
  show ?case
  proof (cases z)
    case False
    then show ?thesis using step inv2 Cons.hyps(2)[symmetric] z p2 by simp
  next
    case True
    have nin: "e \<notin> set es"
      using Cons.prems(1) Cons.hyps(2) kq.holds_distinct by (metis distinct.simps(2) sm_inv_def)
    have d: "dropWhile (dying s2) es = dropWhile (dying s) es" "takeWhile (dying s2) es = takeWhile (dying s) es"
      using nin by (auto intro!: dropWhile_cong takeWhile_cong simp: dying_def p2 split: if_splits)
    have len: "length ((w(m := es)) m) < k" using Cons.prems(2) Cons.hyps(2)[symmetric] n by simp
    have es: "es = (w(m := es)) m" by simp
    obtain s' where s': "up_loop k m c None (Some e) s2 = Inr s'" "sm_inv s' (w(m := tl (dropWhile (dying s) es)))"
      "counter s' = (if dropWhile (dying s) es = [] then (counter s)(m := counter s m + 1) else counter s)"
      "releases (sm_events s') = releases (sm_events s) @ e # takeWhile (dying s) es @ take 1 (dropWhile (dying s) es)"
      using Cons.hyps(1)[OF es inv2 len, of "Some e"] by (auto simp: d p2 fun_upd_def simp del: dropWhile_eq_Nil_conv cong: if_cong)
    have w: "w m = e # es" "dying s e" using Cons.hyps(2) z True by simp_all
    show ?thesis
      by (rule exI[of _ s']) (use s' step True in \<open>simp add: w del: dropWhile_eq_Nil_conv\<close>)
  qed
qed

lemma sm_inv_enqueue:
  assumes inv: "sm_inv s w" and e: "e \<notin> waiting w" and c: "counter s m = 0"
  obtains l h where "enqueue (ec_links s, ecq s m) e = Inr (l, h)" "lnext l e \<noteq> None"
    "sm_inv (s\<lparr>ec_links := l, ecq := (ecq s)(m := h)\<rparr>) (w(m := w m @ [e]))"
proof -
  have rep: "queue_rep (ec_links s, ecq s m') (w m')" for m' using inv by (simp add: sm_inv_def)
  have nin: "e \<notin> set (w m')" for m' using e by (auto simp: waiting_def)
  obtain l h where lh: "enqueue (ec_links s, ecq s m) e = Inr (l, h)" "queue_rep (l, h) (w m @ [e])"
    and fr: "\<And>x. x \<notin> set (e # w m) \<Longrightarrow> lnext l x = lnext (ec_links s) x \<and> lprev l x = lprev (ec_links s) x"
    by (rule enqueue_rep[OF rep nin]) blast
  have "queue_rep (l, ecq s m') (w m')" if "m' \<noteq> m" for m'
  proof (rule queue_rep_cong[OF rep])
    fix y assume "y \<in> set (w m')"
    then have "y \<notin> set (e # w m)" using inv nin[of m'] that by (auto simp: sm_inv_def)
    then show "lnext l y = lnext (ec_links s) y \<and> lprev l y = lprev (ec_links s) y" by (rule fr)
  qed
  then have "sm_inv (s\<lparr>ec_links := l, ecq := (ecq s)(m := h)\<rparr>) (w(m := w m @ [e]))"
    using inv lh(2) nin c unfolding sm_inv_def by (auto split: if_splits)
  moreover have "ring l (w m @ [e])" using lh(2) by (simp add: queue_rep_def)
  then have "lnext l e \<noteq> None" using ring_some(1)[of l "w m @ [e]" e] by auto
  ultimately show thesis using lh(1) by (intro that)
qed

text \<open>Bookkeeping that touches neither the counters nor the queues of waiting contexts.\<close>

lemma set_timeout_simps [simp]:
  "ec_links (set_timeout e t m s) = ec_links s" "ecq (set_timeout e t m s) = ecq s"
  "counter (set_timeout e t m s) = counter s" "ec_cont (set_timeout e t m s) = ec_cont s"
  "ec_ref (set_timeout e t m s) = ec_ref s"
  by (simp_all add: set_timeout_def timeout_hypercall_enqueue_def sm_drop_def Let_def
      split: option.split prod.split bool.split)

lemma sm_dn_block:
  assumes inv: "sm_inv s w" and c: "counter s m = 0" and e: "e \<notin> waiting w" "ec_ref s e \<noteq> 0"
  obtains s' where "sm_dn m zero t e block s = Inr (False, s')" "sm_inv s' (w(m := w m @ [e]))"
    "counter s' = counter s" "ec_ref s' = (ec_ref s)(e := ec_ref s e + 1)"
proof -
  obtain l h where lh: "enqueue (ec_links s, ecq s m) e = Inr (l, h)" "lnext l e \<noteq> None"
    "sm_inv (s\<lparr>ec_links := l, ecq := (ecq s)(m := h)\<rparr>) (w(m := w m @ [e]))"
    using sm_inv_enqueue[OF inv e(1) c] by metis
  let ?s = "s\<lparr>ec_ref := (ec_ref s)(e := ec_ref s e + 1), ec_links := l, ecq := (ecq s)(m := h)\<rparr>"
  let ?s' = "if block then emit (Block_sc e) (set_timeout e t m ?s) else emit (Schedule False) ?s"
  have "sm_dn m zero t e block s = Inr (False, ?s')"
    using c e(2) lh(1,2) by (simp add: sm_dn_def add_ref_def Let_def block_sc_def blocked_def)
  moreover have "sm_inv ?s' (w(m := w m @ [e]))"
    using lh(3) sm_inv_cong[of ?s' "s\<lparr>ec_links := l, ecq := (ecq s)(m := h)\<rparr>"] by simp
  ultimately show thesis by (rule that) simp_all
qed

lemma sm_dn_take:
  assumes inv: "sm_inv s w" and c: "counter s m \<noteq> 0"
    and q: "\<And>m. queue_rep (si_links s, siq s m) (v m)"
  obtains s' where "sm_dn m zero t e block s = Inr (True, s')"
    "sm_inv s' w" "\<And>m'. m' \<noteq> m \<Longrightarrow> v m \<noteq> m' # tl (v m) \<Longrightarrow> counter s' m' = counter s m'"
    "v m = [] \<or> hd (v m) \<noteq> m \<Longrightarrow> counter s' m = (if zero then 0 else counter s m - 1)"
    "v m \<noteq> [] \<Longrightarrow> ec_si_regs s' e = (si_value s (hd (v m)),
        if hd (v m) = m then (if zero then 0 else counter s m - 1) else counter s (hd (v m)))"
    "queue_rep (si_links s', siq s' m) (tl (v m))"
proof (cases "v m")
  case Nil
  let ?s' = "s\<lparr>counter := (counter s)(m := if zero then 0 else counter s m - 1)\<rparr>"
  have "siq s m = None" using q[of m] Nil by (simp add: queue_rep_def)
  then have "sm_dn m zero t e block s = Inr (True, ?s')"
    using c by (simp add: sm_dn_def Let_def dequeue_def)
  moreover have "sm_inv ?s' w" using inv c by (auto simp: sm_inv_def)
  ultimately show thesis using q[of m] Nil by (intro that[of ?s']) auto
next
  case (Cons i js)
  have hd: "siq s m = Some i" using q[of m] Cons by (simp add: queue_rep_def)
  obtain l h where lh: "dequeue (si_links s, siq s m) (Some i) = (True, l, h)" "queue_rep (l, h) (remove1 i (v m))"
    by (rule dequeue_rep[OF q, of i m]) (use Cons in auto)
  let ?s1 = "s\<lparr>counter := (counter s)(m := if zero then 0 else counter s m - 1),
              si_links := l, siq := (siq s)(m := h)\<rparr>"
  let ?s' = "set_si_regs e (si_value s i) (counter ?s1 i) (?s1\<lparr>counter := (counter ?s1)(i := 0)\<rparr>)"
  have "sm_dn m zero t e block s = Inr (True, ?s')"
    using c hd lh(1) by (simp add: sm_dn_def Let_def sm_reset_def)
  moreover have "sm_inv ?s' w" using inv c by (auto simp: sm_inv_def set_si_regs_def split: if_splits)
  ultimately show thesis
    using Cons lh(2) by (intro that[of ?s']) (auto simp: set_si_regs_def)
qed

lemma sm_delete_spec:
  assumes "sm_inv s w" "length (w m) < k" "length (w m) < n" "counter s m = 0"
  shows "\<exists>s'. sm_delete n k m bc s = Inr s' \<and> sm_inv s' (w(m := [])) \<and> counter s' m = 1 \<and>
     releases (sm_events s') = releases (sm_events s) @ w m"
  using assms
proof (induction "length (w m)" arbitrary: s w n rule: less_induct)
  case less
  obtain n' where n: "n = Suc n'" using less.prems(3) by (cases n) auto
  let ?d = "dropWhile (dying s) (w m)"
  let ?w = "w(m := tl ?d)"
  obtain s1 where s1: "up_loop k m (Some bc) None None s = Inr s1" "sm_inv s1 ?w"
    "counter s1 = (if ?d = [] then (counter s)(m := counter s m + 1) else counter s)"
    "releases (sm_events s1) = releases (sm_events s) @ takeWhile (dying s) (w m) @ take 1 ?d"
    using up_loop_spec[OF less.prems(1,2), of "Some bc" None] by blast
  have split: "takeWhile (dying s) (w m) @ ?d = w m" by simp
  show ?case
  proof (cases ?d)
    case Nil
    then have "counter s1 m = 1" using s1(3) less.prems(4) by simp
    moreover have "takeWhile (dying s) (w m) = w m" using split Nil by simp
    ultimately show ?thesis using s1 Nil less.prems(4) n by (cases n') (auto simp: sm_up_def)
  next
    case (Cons e es)
    have len: "length (?w m) < length (w m)"
      using Cons length_dropWhile_le[of "dying s" "w m"] by simp
    have "\<exists>s'. sm_delete n' k m bc s1 = Inr s' \<and> sm_inv s' (?w(m := [])) \<and> counter s' m = 1 \<and>
        releases (sm_events s') = releases (sm_events s1) @ ?w m"
      by (rule less.hyps[OF len s1(2)]) (use len less.prems n Cons s1(3) in auto)
    moreover have "takeWhile (dying s) (w m) @ e # es = w m" using split Cons by simp
    ultimately show ?thesis using s1(1,4) less.prems(4) n Cons by (auto simp: sm_up_def)
  qed
qed

lemma sm_timeout_spec:
  assumes inv: "sm_inv s w" and e: "e \<in> set (w m)"
  shows "sm_inv (sm_timeout m k e s) (w(m := remove1 e (w m)))"
    and "releases (sm_events (sm_timeout m k e s)) = releases (sm_events s) @ [e]"
    and "ec_ref (sm_timeout m k e s) = ec_ref s"
proof -
  have rep: "queue_rep (ec_links s, ecq s m') (w m')" for m' using inv by (simp add: sm_inv_def)
  obtain l h where lh: "dequeue (ec_links s, ecq s m) (Some e) = (True, l, h)" "queue_rep (l, h) (remove1 e (w m))"
    and fr: "\<And>x. x \<notin> set (w m) \<Longrightarrow> lnext l x = lnext (ec_links s) x \<and> lprev l x = lprev (ec_links s) x"
    by (rule dequeue_rep[OF rep e]) blast
  let ?s = "s\<lparr>ec_links := l, ecq := (ecq s)(m := h)\<rparr>"
  have t: "sm_timeout m k e s = ec_release e (Some k) ?s" using lh(1) by (simp add: sm_timeout_def)
  have "queue_rep (l, ecq s m') (w m')" if "m' \<noteq> m" for m'
  proof (rule queue_rep_cong[OF rep])
    fix y assume "y \<in> set (w m')"
    then have "y \<notin> set (w m)" using inv that by (auto simp: sm_inv_def)
    then show "lnext l y = lnext (ec_links s) y \<and> lprev l y = lprev (ec_links s) y" by (rule fr)
  qed
  moreover have "set (remove1 e (w m)) \<subseteq> set (w m)" by (rule set_remove1_subset)
  ultimately have "sm_inv ?s (w(m := remove1 e (w m)))"
    using inv lh(2) unfolding sm_inv_def by (auto split: if_splits)
  then show "sm_inv (sm_timeout m k e s) (w(m := remove1 e (w m)))"
    using sm_inv_cong[of "ec_release e (Some k) ?s" ?s] by (simp add: t)
  show "releases (sm_events (sm_timeout m k e s)) = releases (sm_events s) @ [e]"
    "ec_ref (sm_timeout m k e s) = ec_ref s" by (simp_all add: t)
qed

text \<open>An \<open>up\<close> binds no signal.\<close>

lemma up_loop_si_sm: "up_loop n m c si prev s = Inr s' \<Longrightarrow> si_sm s' = si_sm s"
proof (induction n arbitrary: prev s)
  case (Suc n)
  define s0 where "s0 = (case prev of None \<Rightarrow> s | Some p \<Rightarrow> emit (Rcu_ec p) s)"
  have p: "si_sm s0 = si_sm s" by (simp add: s0_def emit_def split: option.split)
  show ?case
  proof (cases "dequeue (ec_links s0, ecq s0 m) (ecq s0 m)")
    case (fields ok l h)
    show ?thesis
    proof (cases ok)
      case False
      then show ?thesis using Suc.prems fields p
        by (auto simp: Let_def bind_result_Inr_iff simp flip: s0_def split: option.splits if_splits)
    next
      case True
      then obtain e where e: "ecq s0 m = Some e" using fields by (cases "ecq s0 m") (auto simp: dequeue_def)
      define s1 where "s1 = s0\<lparr>ec_links := l, ecq := (ecq s0)(m := h)\<rparr>"
      define s2 where "s2 = (case si of None \<Rightarrow> s1
        | Some i \<Rightarrow> (case sm_reset i s1 of (cnt, s) \<Rightarrow> set_si_regs e (si_value s i) cnt s))"
      define s3 where "s3 = ec_release e c s2"
      have q: "si_sm s3 = si_sm s"
        using p by (simp add: s3_def s2_def s1_def ec_release_def emit_def set_si_regs_def sm_reset_def split: option.split)
      obtain z r where z: "del_rcu (ec_ref s3 e) = (z, r)" by force
      have "up_loop (Suc n) m c si prev s =
          (if z then up_loop n m c si (Some e) (s3\<lparr>ec_ref := (ec_ref s3)(e := r)\<rparr>) else Inr (s3\<lparr>ec_ref := (ec_ref s3)(e := r)\<rparr>))"
        using True fields e z unfolding s3_def s2_def s1_def by (simp add: Let_def s0_def[symmetric])
      then show ?thesis using Suc.prems Suc.IH q by (cases z) auto
    qed
  qed
qed simp

subsection \<open>Properties\<close>


text \<open>sm_dn_blocks. A \<open>dn\<close> on a semaphore whose counter is not zero goes on and takes
  one unit, or all of them on request; with a counter of zero it takes a reference to the context,
  appends it to the waiting ones and gives up the CPU. Both keep the invariant that nobody waits
  while there are units.\<close>
theorem sm_dn_blocks:
  assumes "sm_inv s w" "e \<notin> waiting w" "ec_ref s e \<noteq> 0" "siq s m = None"
  shows "if counter s m \<noteq> 0
         then \<exists>s'. sm_dn m zero t e block s = Inr (True, s') \<and> sm_inv s' w \<and>
                counter s' = (counter s)(m := if zero then 0 else counter s m - 1)
         else \<exists>s'. sm_dn m zero t e block s = Inr (False, s') \<and> sm_inv s' (w(m := w m @ [e])) \<and>
                counter s' = counter s \<and> ec_ref s' e = ec_ref s e + 1"
proof (cases "counter s m = 0")
  case True
  obtain s' where "sm_dn m zero t e block s = Inr (False, s')" "sm_inv s' (w(m := w m @ [e]))"
    "counter s' = counter s" "ec_ref s' = (ec_ref s)(e := ec_ref s e + 1)"
    by (rule sm_dn_block[OF assms(1) True assms(2,3)])
  then show ?thesis using True by simp
next
  case False
  let ?s' = "s\<lparr>counter := (counter s)(m := if zero then 0 else counter s m - 1)\<rparr>"
  have "sm_dn m zero t e block s = Inr (True, ?s')"
    using False assms(4) by (simp add: sm_dn_def Let_def dequeue_def)
  moreover have "sm_inv ?s' w" using assms(1) False by (auto simp: sm_inv_def)
  ultimately show ?thesis using False by simp
qed

text \<open>sm_delete_wakes_all. The destructor ends: it releases all contexts that wait, in the
  order of arrival, each with the error continuation, and leaves the semaphore without
  waiters.\<close>
theorem sm_delete_wakes_all:
  assumes "sm_inv s w" "counter s m = 0" "length (w m) < n" "length (w m) < k"
  shows "\<exists>s'. sm_delete n k m bad_cap s = Inr s' \<and> sm_inv s' (w(m := [])) \<and>
     releases (sm_events s') = releases (sm_events s) @ w m"
  using sm_delete_spec[OF assms(1,4,3,2), of bad_cap] by blast

text \<open>signal_delivery. A signal to a semaphore on which nobody waits is queued once, with one
  unit on the semaphore, and is dropped while it is already queued; the next
  \<open>dn\<close> takes the unit, delivers the value of the oldest signal and the number of its
  occurrences, and resets that number.\<close>
theorem signal_delivery:
  assumes "sm_inv s w" "w m = []" "i \<noteq> m" "unlinked (si_links s) i" "siq s m = None" "counter s m = 0"
  shows "\<exists>s'. sm_up 1 m None (Some i) s = Inr s' \<and> counter s' m = 1 \<and>
           sm_up 1 m None (Some i) s' = Inr s' \<and>
           (\<exists>s''. sm_dn m False t e True s' = Inr (True, s'') \<and> counter s'' m = 0 \<and> counter s'' i = 0 \<and>
              ec_si_regs s'' e = (si_value s i, counter s i) \<and> unlinked (si_links s'') i)"
proof -
  have q: "ecq s m = None" using assms(1,2) by (metis queue_rep_Nil sm_inv_def)
  let ?l = "set_next i (Some i) (set_prev i (Some i) (si_links s))"
  let ?s' = "s\<lparr>si_links := ?l, siq := (siq s)(m := Some i), counter := (counter s)(m := 1)\<rparr>"
  have "lnext (si_links s) i = None" using assms(4) by (simp add: unlinked_def)
  then have up: "sm_up 1 m None (Some i) s = Inr ?s'"
    using q assms(5,6) by (simp add: sm_up_def Let_def dequeue_def enqueue_def)
  moreover have "sm_up 1 m None (Some i) ?s' = Inr ?s'"
    using q by (simp add: sm_up_def Let_def dequeue_def)
  moreover have "\<exists>s''. sm_dn m False t e True ?s' = Inr (True, s'') \<and> counter s'' m = 0 \<and> counter s'' i = 0 \<and>
      ec_si_regs s'' e = (si_value s i, counter s i) \<and> unlinked (si_links s'') i"
    using assms(3) by (simp add: sm_dn_def Let_def dequeue_def sm_reset_def set_si_regs_def unlinked_def)
  ultimately show ?thesis by (intro exI[of _ ?s']) simp
qed


subsection \<open>A concrete state\<close>

text \<open>Semaphore 0 has no units and contexts 1 and 2 wait on it; context 1 is dying.\<close>

definition ex_sms :: "(nat, nat, nat) sms" where
  "ex_sms =
     \<lparr>counter = (\<lambda>_. 0), ec_links = \<lparr>lnext = [1 \<mapsto> 2, 2 \<mapsto> 1], lprev = [1 \<mapsto> 2, 2 \<mapsto> 1]\<rparr>,
      ecq = [0 \<mapsto> 1], si_links = \<lparr>lnext = (\<lambda>_. None), lprev = (\<lambda>_. None)\<rparr>, siq = (\<lambda>_. None),
      si_sm = (\<lambda>_. None), si_value = (\<lambda>i. of_nat i), sm_kern = (\<lambda>_. False), sm_ref = (\<lambda>_. 1),
      ec_ref = (\<lambda>e. if e = 1 then 1 else 2), ec_cont = (\<lambda>_. Some 0), ec_si_regs = (\<lambda>_. (0, 0)),
      ec_tmo_sm = (\<lambda>_. None), sm_events = []\<rparr>"

definition ex_waiters :: "nat \<Rightarrow> nat list" where
  "ex_waiters = (\<lambda>_. [])(0 := [1, 2])"

lemma ex_sm_inv: "sm_inv ex_sms ex_waiters"
  unfolding sm_inv_def
proof (intro conjI allI impI)
  show "queue_rep (ec_links ex_sms, ecq ex_sms m) (ex_waiters m)" for m
    by (simp add: ex_sms_def ex_waiters_def queue_rep_def ring_def)
  show "m = m'" if "e \<in> set (ex_waiters m)" "e \<in> set (ex_waiters m')" for m m' e
    using that by (simp add: ex_waiters_def split: if_splits)
  show "ex_waiters m = []" if "counter ex_sms m \<noteq> 0" for m using that by (simp add: ex_sms_def)
qed

lemma ex_waiting: "e \<in> waiting ex_waiters \<longleftrightarrow> e = 1 \<or> e = 2"
proof -
  have "set (ex_waiters m) = (if m = 0 then {1, 2} else {})" for m by (auto simp: ex_waiters_def)
  then show ?thesis by (auto simp: waiting_def split: if_splits)
qed


theorem sm_dn_blocks_witness:
  "\<exists>s'. sm_dn 0 True 0 5 True ex_sms = Inr (False, s') \<and> sm_inv s' (ex_waiters(0 := [1, 2, 5]))"
  using sm_dn_blocks[OF ex_sm_inv, of 5 0 True 0 True] ex_waiting[of 5]
  by (simp add: ex_sms_def ex_waiters_def split: if_splits) metis

theorem sm_delete_wakes_all_witness:
  "\<exists>s'. sm_delete 3 3 0 7 ex_sms = Inr s' \<and> releases (sm_events s') = [1, 2]"
  using sm_delete_wakes_all[OF ex_sm_inv, of 0 3 3 7] by (auto simp: ex_waiters_def) (auto simp: ex_sms_def)

theorem signal_delivery_witness:
  "\<exists>s'. sm_up 1 3 None (Some 4) ex_sms = Inr s' \<and> counter s' 3 = 1"
  using signal_delivery[OF ex_sm_inv, of 3 4 0 0]
  by (auto simp: ex_waiters_def unlinked_def) (auto simp: ex_sms_def)


end
