(* ===== verification/Cpuset.thy ===== *)
theory Cpuset
  imports Bits
begin

text \<open>
  Sets of CPU cores, \<open>include/cpuset.hpp\<close>: an array of 64-bit words with one bit per
  core. \<open>NUM_CPU\<close> is 256, so a core number is an 8-bit word and the array has four
  words; the type of a core number keeps every index in range. The traversals take the state
  the functor works on, since the functor may change the very set that is traversed.
\<close>

type_synonym cpu = "8 word"
type_synonym cpuset = "mword list"

subsection \<open>Operations\<close>

definition raw_len :: nat where
  "raw_len = 4"

definition Cpuset_new :: "mword \<Rightarrow> cpuset" where
  "Cpuset_new v = replicate raw_len v"

definition value_ix :: "cpu \<Rightarrow> nat" where
  "value_ix c = unat c div 64"

definition bit_cpu :: "cpu \<Rightarrow> nat" where
  "bit_cpu c = unat c mod 64"

definition chk :: "cpuset \<Rightarrow> cpu \<Rightarrow> bool" where
  "chk s c = ((s ! value_ix c) AND push_bit (bit_cpu c) 1 \<noteq> 0)"

definition cs_set :: "cpuset \<Rightarrow> cpu \<Rightarrow> bool \<times> cpuset" where
  "cs_set s c = (\<not> bit (s ! value_ix c) (bit_cpu c),
                s[value_ix c := Bit_Operations.set_bit (bit_cpu c) (s ! value_ix c)])"

definition clr :: "cpuset \<Rightarrow> cpu \<Rightarrow> cpuset" where
  "clr s c = s[value_ix c := (s ! value_ix c) AND NOT (push_bit (bit_cpu c) 1)]"

definition merge :: "cpuset \<Rightarrow> cpuset \<Rightarrow> cpuset" where
  "merge s t = map (\<lambda>i. (s ! i) OR (t ! i)) [0..<raw_len]"

definition subtract :: "cpuset \<Rightarrow> cpuset \<Rightarrow> cpuset" where
  "subtract s t = map (\<lambda>i. (s ! i) AND NOT (t ! i)) [0..<raw_len]"

definition clear :: "cpuset \<Rightarrow> cpuset" where
  "clear s = replicate raw_len 0"

text \<open>
  \<open>count\<close> runs its index up to \<open>sizeof(raw)\<close>, which is the number of bytes, not of
  words; \<open>first_cpu\<close> has the constant \<open>values()\<close> as its loop condition and returns
  the bit position within the word. Both are written as they are, with an access beyond the
  array as the fault \<^const>\<open>Out_of_bounds\<close>.
\<close>

definition raw_at :: "cpuset \<Rightarrow> nat \<Rightarrow> mword result" where
  "raw_at s i = (if i < raw_len then Inr (s ! i) else Inl Out_of_bounds)"

fun count_from :: "nat \<Rightarrow> nat \<Rightarrow> u32 \<Rightarrow> cpuset \<Rightarrow> u32 result" where
  "count_from i 0 n s = Inr n"
| "count_from i (Suc k) n s =
     bind_result (raw_at s i) (\<lambda>w. count_from (Suc i) k (n + ucast (popcount w)) s)"

definition count :: "cpuset \<Rightarrow> u32 result" where
  "count s = count_from 0 (8 * raw_len) 0 s"

function first_cpu_from :: "nat \<Rightarrow> cpuset \<Rightarrow> u32 result" where
  "first_cpu_from i s =
     (if i < raw_len
      then (let c = bit_scan_forward (s ! i)
            in if c \<noteq> -1 then Inr (word_of_int c) else first_cpu_from (Suc i) s)
      else Inl Out_of_bounds)"
  by pat_completeness auto
termination
  by (relation "measure (\<lambda>(i, s). raw_len - i)") auto

definition first_cpu :: "cpuset \<Rightarrow> u32 result" where
  "first_cpu s = first_cpu_from 0 s"

text \<open>The inner loop of the traversals: scan, clear the bit found in the copy, go on.\<close>

function scan_bits :: "mword \<Rightarrow> nat list" where
  "scan_bits sub =
     (if bit_scan_forward sub = -1 then []
      else (let c = nat (bit_scan_forward sub)
            in c # scan_bits (sub AND NOT (push_bit (c mod 64) 1))))"
  by pat_completeness auto
termination
proof (relation "measure unat")
  fix sub :: mword and c
  assume a: "bit_scan_forward sub \<noteq> -1" and c: "c = nat (bit_scan_forward sub)"
  then have "sub \<noteq> 0" by (auto simp: bit_scan_forward_def)
  then obtain i where i: "bit_scan_forward sub = int i" "i < 64" "bit sub i"
    by (rule bit_scan_forward_first) blast
  let ?t = "sub AND NOT (push_bit (c mod 64) 1)"
  have "c mod 64 = i" using i c by simp
  then have "\<not> bit ?t i" by (simp add: bit_simps)
  then have "?t \<noteq> sub" using i by metis
  moreover have "?t \<le> sub" by (rule word_and_le2)
  ultimately have "?t < sub" by simp
  then show "(sub AND NOT (push_bit (c mod 64) 1), sub) \<in> measure unat"
    by (simp add: word_less_nat_alt)
qed simp

declare scan_bits.simps [simp del] first_cpu_from.simps [simp del]

definition word_cpus :: "nat \<Rightarrow> mword \<Rightarrow> cpu list" where
  "word_cpus i sub = map (\<lambda>c. of_nat (c + i * 64)) (scan_bits sub)"

primrec run_list :: "(cpu \<Rightarrow> 's \<Rightarrow> 's result) \<Rightarrow> cpu list \<Rightarrow> 's \<Rightarrow> 's result" where
  "run_list fn [] s = Inr s"
| "run_list fn (c # cs) s = bind_result (fn c s) (run_list fn cs)"

primrec run_list_until ::
  "('s \<Rightarrow> bool) \<Rightarrow> (cpu \<Rightarrow> 's \<Rightarrow> 's result) \<Rightarrow> cpu list \<Rightarrow> 's \<Rightarrow> 's result" where
  "run_list_until cond fn [] s = Inr s"
| "run_list_until cond fn (c # cs) s =
     (if cond s then Inr s else bind_result (fn c s) (run_list_until cond fn cs))"

primrec for_each_words ::
  "('s \<Rightarrow> cpuset) \<Rightarrow> (cpu \<Rightarrow> 's \<Rightarrow> 's result) \<Rightarrow> nat list \<Rightarrow> 's \<Rightarrow> 's result" where
  "for_each_words get fn [] s = Inr s"
| "for_each_words get fn (i # is) s =
     bind_result (run_list fn (word_cpus i (get s ! i)) s) (for_each_words get fn is)"

definition for_each_cpu ::
  "('s \<Rightarrow> cpuset) \<Rightarrow> (cpu \<Rightarrow> 's \<Rightarrow> 's result) \<Rightarrow> 's \<Rightarrow> 's result" where
  "for_each_cpu get fn s = for_each_words get fn [0..<raw_len] s"

primrec until_words ::
  "('s \<Rightarrow> cpuset) \<Rightarrow> ('s \<Rightarrow> bool) \<Rightarrow> (cpu \<Rightarrow> 's \<Rightarrow> 's result) \<Rightarrow> nat list \<Rightarrow> 's \<Rightarrow> 's result" where
  "until_words get cond fn [] s = Inr s"
| "until_words get cond fn (i # is) s =
     (if cond s then Inr s
      else bind_result (run_list_until cond fn (word_cpus i (get s ! i)) s)
             (until_words get cond fn is))"

definition for_each_until ::
  "('s \<Rightarrow> cpuset) \<Rightarrow> ('s \<Rightarrow> bool) \<Rightarrow> (cpu \<Rightarrow> 's \<Rightarrow> 's result) \<Rightarrow> 's \<Rightarrow> 's result" where
  "for_each_until get cond fn s = until_words get cond fn [0..<raw_len] s"

subsection \<open>The set of cores a bit array stands for\<close>

definition cpuset_ok :: "cpuset \<Rightarrow> bool" where
  "cpuset_ok s \<longleftrightarrow> length s = raw_len"

definition cpus_of :: "cpuset \<Rightarrow> cpu set" where
  "cpus_of s = {c. chk s c}"

lemma chk_bit: "chk s c \<longleftrightarrow> bit (s ! value_ix c) (bit_cpu c)"
  unfolding chk_def by (simp only: bit_iff_and_push_bit_not_eq_0)

lemma value_ix_less [simp]: "value_ix c < raw_len"
  using unsigned_less[where 'a = nat, of c] by (simp add: value_ix_def raw_len_def)

lemma bit_cpu_less [simp]: "bit_cpu c < 64"
  by (simp add: bit_cpu_def)

lemma cpu_eq_iff: "c = d \<longleftrightarrow> value_ix c = value_ix d \<and> bit_cpu c = bit_cpu d"
  unfolding value_ix_def bit_cpu_def by (metis div_mult_mod_eq word_unat_eq_iff)

lemma cpuset_ok_ops [simp]:
  "cpuset_ok (Cpuset_new v)"
  "cpuset_ok s \<Longrightarrow> cpuset_ok (snd (cs_set s c))"
  "cpuset_ok s \<Longrightarrow> cpuset_ok (clr s c)"
  "cpuset_ok (merge s t)" "cpuset_ok (subtract s t)" "cpuset_ok (clear s)"
  by (simp_all add: cpuset_ok_def Cpuset_new_def cs_set_def clr_def merge_def subtract_def clear_def)

lemma chk_new [simp]: "chk (Cpuset_new 0) c \<longleftrightarrow> False" "chk (clear s) c \<longleftrightarrow> False"
  by (simp_all add: chk_bit Cpuset_new_def clear_def)

lemma chk_new_full [simp]: "chk (Cpuset_new (- 1)) c"
  by (simp add: chk_bit Cpuset_new_def)

lemma cs_set_fst [simp]: "fst (cs_set s c) \<longleftrightarrow> \<not> chk s c"
  by (simp add: cs_set_def chk_bit)

lemma chk_set [simp]: "cpuset_ok s \<Longrightarrow> chk (snd (cs_set s c)) d \<longleftrightarrow> d = c \<or> chk s d"
  by (auto simp: chk_bit cs_set_def cpuset_ok_def nth_list_update cpu_eq_iff bit_simps)

lemma chk_clr [simp]: "cpuset_ok s \<Longrightarrow> chk (clr s c) d \<longleftrightarrow> d \<noteq> c \<and> chk s d"
  by (auto simp: chk_bit clr_def cpuset_ok_def nth_list_update cpu_eq_iff bit_simps)

lemma chk_merge [simp]: "chk (merge s t) c \<longleftrightarrow> chk s c \<or> chk t c"
  by (simp add: chk_bit merge_def bit_simps)

lemma chk_subtract [simp]: "chk (subtract s t) c \<longleftrightarrow> chk s c \<and> \<not> chk t c"
  by (simp add: chk_bit subtract_def bit_simps)

lemma cpus_of_ops:
  "cpus_of (Cpuset_new 0) = {}" "cpus_of (clear s) = {}"
  "cpuset_ok s \<Longrightarrow> cpus_of (snd (cs_set s c)) = insert c (cpus_of s)"
  "cpuset_ok s \<Longrightarrow> cpus_of (clr s c) = cpus_of s - {c}"
  "cpus_of (merge s t) = cpus_of s \<union> cpus_of t"
  "cpus_of (subtract s t) = cpus_of s - cpus_of t"
  by (auto simp: cpus_of_def)

subsection \<open>Traversal\<close>

lemma set_bits_of_clear_first:
  assumes "set_bits_of v = i # is"
  shows "set_bits_of (v AND NOT (push_bit i 1)) = is"
proof -
  have d: "distinct (i # is)" by (metis assms distinct_filter distinct_upt set_bits_of_def)
  have "set_bits_of (v AND NOT (push_bit i 1)) = filter (\<lambda>j. j \<noteq> i) (set_bits_of v)"
    by (auto simp: set_bits_of_def bit_simps intro: filter_cong)
  also have "\<dots> = is" using d by (auto simp: assms filter_id_conv)
  finally show ?thesis .
qed

lemma scan_bits_eq: "scan_bits v = set_bits_of v"
proof (induction v rule: scan_bits.induct)
  case (1 v)
  show ?case
  proof (cases "set_bits_of v")
    case Nil
    then have "v = 0" by simp
    then show ?thesis by (simp add: scan_bits.simps[of 0] bit_scan_forward_def set_bits_of_def)
  next
    case (Cons i "is")
    moreover have "v \<noteq> 0" using Cons set_bits_of_Nil[of v] by fastforce
    ultimately have f: "bit_scan_forward v = int i" by (simp add: bit_scan_forward_def)
    have "i < 64" using Cons in_set_bits_of[of i v] bit_imp_le_length[of v i] by simp
    then show ?thesis
      using 1 Cons f set_bits_of_clear_first[OF Cons] by (simp add: scan_bits.simps[of v] Let_def)
  qed
qed

definition cpu_list :: "cpuset \<Rightarrow> cpu list" where
  "cpu_list s = concat (map (\<lambda>i. word_cpus i (s ! i)) [0..<raw_len])"

lemma unat_word_cpu: "c < 64 \<Longrightarrow> i < raw_len \<Longrightarrow> unat (of_nat (c + i * 64) :: cpu) = c + i * 64"
  unfolding raw_len_def by (simp only: unat_of_nat) simp

lemma in_word_cpus:
  assumes "i < raw_len"
  shows "c \<in> set (word_cpus i v) \<longleftrightarrow> value_ix c = i \<and> bit v (bit_cpu c)"
proof
  assume "c \<in> set (word_cpus i v)"
  then obtain b where b: "c = of_nat (b + i * 64)" "bit v b"
    by (auto simp: word_cpus_def scan_bits_eq)
  then have "b < 64" using bit_imp_le_length[of v b] by simp
  then have "unat c = b + i * 64" using b assms unat_word_cpu by blast
  then show "value_ix c = i \<and> bit v (bit_cpu c)"
    using \<open>b < 64\<close> b by (simp add: value_ix_def bit_cpu_def)
next
  assume a: "value_ix c = i \<and> bit v (bit_cpu c)"
  have "c = of_nat (bit_cpu c + i * 64)"
    using a unat_word_cpu[OF bit_cpu_less, of i c] assms
    unfolding word_unat_eq_iff value_ix_def bit_cpu_def by (metis mod_div_mult_eq)
  then show "c \<in> set (word_cpus i v)" using a by (force simp: word_cpus_def scan_bits_eq)
qed

lemma set_cpu_list: "set (cpu_list s) = cpus_of s"
  using in_word_cpus by (auto simp: cpu_list_def cpus_of_def chk_bit)

lemma distinct_cpu_list: "distinct (cpu_list s)"
proof -
  have "distinct (map (\<lambda>c. of_nat (c + i * 64) :: cpu) (set_bits_of v))" if "i < raw_len" for i v
  proof -
    have "inj_on (\<lambda>c. of_nat (c + i * 64) :: cpu) (set (set_bits_of v))"
    proof (rule inj_onI)
      fix x y assume "x \<in> set (set_bits_of v)" "y \<in> set (set_bits_of v)"
        and e: "(of_nat (x + i * 64) :: cpu) = of_nat (y + i * 64)"
      then have "x < 64" "y < 64" using bit_imp_le_length[of v] by force+
      then show "x = y" using e unat_word_cpu[OF _ that] by (metis add_right_cancel)
    qed
    then show ?thesis by (simp add: distinct_map set_bits_of_def)
  qed
  then have "distinct (word_cpus i v)" if "i < raw_len" for i v
    using that by (simp add: word_cpus_def scan_bits_eq)
  then show ?thesis
    unfolding cpu_list_def
    by (intro distinct_concat_map) (auto simp: in_word_cpus)
qed


lemma run_list_append:
  "run_list fn (as @ bs) s = bind_result (run_list fn as s) (run_list fn bs)"
  by (induction as arbitrary: s) (auto simp: bind_result_def split: sum.split)

lemma run_list_keeps:
  assumes "\<And>c s s'. fn c s = Inr s' \<Longrightarrow> get s' = get s" "run_list fn cs s = Inr s'"
  shows "get s' = get s"
  using assms(2) by (induction cs arbitrary: s) (auto simp: bind_result_Inr_iff dest: assms(1))

lemma for_each_words_run:
  assumes "\<And>c s s'. fn c s = Inr s' \<Longrightarrow> get s' = get s"
  shows "for_each_words get fn is s = run_list fn (concat (map (\<lambda>i. word_cpus i (get s ! i)) is)) s"
proof (induction "is" arbitrary: s)
  case (Cons i "is")
  show ?case
  proof (cases "run_list fn (word_cpus i (get s ! i)) s")
    case (Inr s')
    then have "get s' = get s" using assms run_list_keeps by metis
    then show ?thesis using Inr Cons.IH by (simp add: run_list_append)
  qed (simp add: run_list_append)
qed simp

lemma for_each_cpu_run:
  assumes "\<And>c s s'. fn c s = Inr s' \<Longrightarrow> get s' = get s"
  shows "for_each_cpu get fn s = run_list fn (cpu_list (get s)) s"
  using for_each_words_run[where fn = fn and get = get] assms by (simp add: for_each_cpu_def cpu_list_def)

lemma for_each_cpu_idle:
  assumes "cpus_of (get s) = {}" "\<And>c s s'. fn c s = Inr s' \<Longrightarrow> get s' = get s"
  shows "for_each_cpu get fn s = Inr s"
  using for_each_cpu_run[where fn = fn and get = get and s = s] assms(2) set_cpu_list[of "get s"] assms(1)
  by simp

text \<open>
  What a traversal keeps and achieves: \<open>I\<close> is an invariant of the functor,
  \<open>ok\<close> what it establishes for the core it is applied to; the set may shrink on the way.
\<close>

lemma run_list_until_complete:
  assumes step: "\<And>c a a'. I a \<Longrightarrow> \<not> cond a \<Longrightarrow> fn c a = Inr a' \<Longrightarrow>
      I a' \<and> ok a' c \<and> (\<forall>n. ok a n \<longrightarrow> ok a' n) \<and> (\<forall>n. chk (get a') n \<longrightarrow> chk (get a) n)"
    and "I a" "run_list_until cond fn cs a = Inr a'"
  shows "I a' \<and> (cond a' \<or> (\<forall>n\<in>set cs. ok a' n)) \<and> (\<forall>n. ok a n \<longrightarrow> ok a' n) \<and>
         (\<forall>n. chk (get a') n \<longrightarrow> chk (get a) n)"
  using assms(2,3)
proof (induction cs arbitrary: a)
  case (Cons c cs)
  show ?case
  proof (cases "cond a")
    case False
    with Cons.prems(2) obtain b where b: "fn c a = Inr b" "run_list_until cond fn cs b = Inr a'"
      by (auto simp: bind_result_Inr_iff)
    from step[OF Cons.prems(1) False b(1)] Cons.IH[OF _ b(2)] show ?thesis by auto
  qed (use Cons.prems in auto)
qed auto

lemma until_words_complete:
  assumes step: "\<And>c a a'. I a \<Longrightarrow> \<not> cond a \<Longrightarrow> fn c a = Inr a' \<Longrightarrow>
      I a' \<and> ok a' c \<and> (\<forall>n. ok a n \<longrightarrow> ok a' n) \<and> (\<forall>n. chk (get a') n \<longrightarrow> chk (get a) n)"
    and "I a" "until_words get cond fn is a = Inr a'" "\<forall>i\<in>set is. i < raw_len"
  shows "I a' \<and> (cond a' \<or> (\<forall>n. value_ix n \<in> set is \<longrightarrow> chk (get a') n \<longrightarrow> ok a' n)) \<and>
         (\<forall>n. ok a n \<longrightarrow> ok a' n) \<and> (\<forall>n. chk (get a') n \<longrightarrow> chk (get a) n)"
  using assms(2,3,4)
proof (induction "is" arbitrary: a)
  case (Cons i "is")
  show ?case
  proof (cases "cond a")
    case False
    with Cons.prems(2) obtain b where
      b: "run_list_until cond fn (word_cpus i (get a ! i)) a = Inr b" "until_words get cond fn is b = Inr a'"
      by (auto simp: bind_result_Inr_iff)
    have 1: "I b \<and> (cond b \<or> (\<forall>n\<in>set (word_cpus i (get a ! i)). ok b n)) \<and> (\<forall>n. ok a n \<longrightarrow> ok b n) \<and>
        (\<forall>n. chk (get b) n \<longrightarrow> chk (get a) n)"
      by (rule run_list_until_complete[where I = I and cond = cond and fn = fn and ok = ok and get = get, OF step Cons.prems(1) b(1)])
    have 2: "I a' \<and> (cond a' \<or> (\<forall>n. value_ix n \<in> set is \<longrightarrow> chk (get a') n \<longrightarrow> ok a' n)) \<and>
        (\<forall>n. ok b n \<longrightarrow> ok a' n) \<and> (\<forall>n. chk (get a') n \<longrightarrow> chk (get b) n)"
      using Cons.IH[of b] 1 b(2) Cons.prems(3) by auto
    show ?thesis
    proof (cases "cond b")
      case True
      then have "a' = b" using b(2) by (cases "is") auto
      then show ?thesis using 1 True by auto
    next
      case False
      have "ok a' n" if "value_ix n = i" "chk (get a') n" for n
      proof -
        have "chk (get a) n" using that 1 2 by blast
        then have "n \<in> set (word_cpus i (get a ! i))"
          using that Cons.prems(3) in_word_cpus[of i n "get a ! i"] by (simp add: chk_bit)
        then show ?thesis using 1 2 False by blast
      qed
      then show ?thesis using 1 2 by auto
    qed
  qed (use Cons.prems in auto)
qed auto

lemma for_each_until_complete:
  assumes step: "\<And>c a a'. I a \<Longrightarrow> \<not> cond a \<Longrightarrow> fn c a = Inr a' \<Longrightarrow>
      I a' \<and> ok a' c \<and> (\<forall>n. ok a n \<longrightarrow> ok a' n) \<and> (\<forall>n. chk (get a') n \<longrightarrow> chk (get a) n)"
    and "I a" "for_each_until get cond fn a = Inr a'"
  shows "I a' \<and> (cond a' \<or> (\<forall>n. chk (get a') n \<longrightarrow> ok a' n))"
proof -
  have u: "until_words get cond fn [0..<raw_len] a = Inr a'" using assms(3) by (simp add: for_each_until_def)
  have "I a' \<and> (cond a' \<or> (\<forall>n. value_ix n \<in> set [0..<raw_len] \<longrightarrow> chk (get a') n \<longrightarrow> ok a' n)) \<and>
         (\<forall>n. ok a n \<longrightarrow> ok a' n) \<and> (\<forall>n. chk (get a') n \<longrightarrow> chk (get a) n)"
    by (rule until_words_complete[where I = I and cond = cond and fn = fn and ok = ok and get = get, OF step assms(2) u]) auto
  then show ?thesis by simp
qed

lemma run_list_until_total:
  assumes "\<forall>c a. I a \<longrightarrow> \<not> cond a \<longrightarrow> (\<exists>a'. fn c a = Inr a' \<and> I a')" "I a"
  shows "\<exists>a'. run_list_until cond fn cs a = Inr a' \<and> I a'"
  using assms(2)
proof (induction cs arbitrary: a)
  case (Cons c cs)
  show ?case
  proof (cases "cond a")
    case False
    then obtain b where "fn c a = Inr b" "I b" using assms(1) Cons.prems by blast
    then show ?thesis using Cons.IH[of b] False by simp
  qed (use Cons.prems in simp)
qed simp

lemma until_words_total:
  assumes "\<forall>c a. I a \<longrightarrow> \<not> cond a \<longrightarrow> (\<exists>a'. fn c a = Inr a' \<and> I a')" "I a"
  shows "\<exists>a'. until_words get cond fn is a = Inr a' \<and> I a'"
  using assms(2)
proof (induction "is" arbitrary: a)
  case (Cons i "is")
  obtain b where "run_list_until cond fn (word_cpus i (get a ! i)) a = Inr b" "I b"
    using run_list_until_total[OF assms(1) Cons.prems] by blast
  then show ?case using Cons.IH[of b] Cons.prems by simp
qed simp

lemma for_each_until_total:
  assumes "\<forall>c a. I a \<longrightarrow> \<not> cond a \<longrightarrow> (\<exists>a'. fn c a = Inr a' \<and> I a')" "I a"
  shows "\<exists>a'. for_each_until get cond fn a = Inr a' \<and> I a'"
  unfolding for_each_until_def by (rule until_words_total[OF assms])

lemma run_list_inv:
  assumes "\<forall>c a a'. P a \<longrightarrow> fn c a = Inr a' \<longrightarrow> P a'" "P a" "run_list fn cs a = Inr a'"
  shows "P a'"
  using assms(2,3)
proof (induction cs arbitrary: a)
  case (Cons c cs)
  then obtain b where "fn c a = Inr b" "run_list fn cs b = Inr a'" by (auto simp: bind_result_Inr_iff)
  then show ?case using Cons assms(1) by blast
qed simp

lemma for_each_cpu_inv:
  assumes "\<forall>c a a'. P a \<longrightarrow> fn c a = Inr a' \<longrightarrow> P a'" "P a" "for_each_cpu get fn a = Inr a'"
  shows "P a'"
proof -
  have "P a'" if "P a" "for_each_words get fn is a = Inr a'" for "is"
    using that
  proof (induction "is" arbitrary: a)
    case (Cons i "is")
    then obtain b where "run_list fn (word_cpus i (get a ! i)) a = Inr b" "for_each_words get fn is b = Inr a'"
      by (auto simp: bind_result_Inr_iff)
    then show ?case using Cons run_list_inv[OF assms(1)] by blast
  qed simp
  then show ?thesis using assms(2,3) by (simp add: for_each_cpu_def)
qed

lemma run_list_until_inv:
  assumes "\<forall>c a a'. P a \<longrightarrow> \<not> cond a \<longrightarrow> fn c a = Inr a' \<longrightarrow> P a'" "P a" "run_list_until cond fn cs a = Inr a'"
  shows "P a'"
  using assms(2,3)
proof (induction cs arbitrary: a)
  case (Cons c cs)
  show ?case
  proof (cases "cond a")
    case False
    then obtain b where "fn c a = Inr b" "run_list_until cond fn cs b = Inr a'"
      using Cons.prems by (auto simp: bind_result_Inr_iff)
    then show ?thesis using Cons False assms(1) by blast
  qed (use Cons in simp)
qed simp

lemma for_each_until_inv:
  assumes "\<forall>c a a'. P a \<longrightarrow> \<not> cond a \<longrightarrow> fn c a = Inr a' \<longrightarrow> P a'" "P a" "for_each_until get cond fn a = Inr a'"
  shows "P a'"
proof -
  have "P a'" if "P a" "until_words get cond fn is a = Inr a'" for "is"
    using that
  proof (induction "is" arbitrary: a)
    case (Cons i "is")
    show ?case
    proof (cases "cond a")
      case False
      then obtain b where "run_list_until cond fn (word_cpus i (get a ! i)) a = Inr b"
        "until_words get cond fn is b = Inr a'"
        using Cons.prems by (auto simp: bind_result_Inr_iff)
      then show ?thesis using Cons run_list_until_inv[OF assms(1)] by blast
    qed (use Cons in simp)
  qed simp
  then show ?thesis using assms(2,3) by (simp add: for_each_until_def)
qed

subsection \<open>Properties\<close>

text \<open>cpuset_sets. The bit array implements a set of cores: every operation acts on the set
  it stands for as the corresponding set operation, membership is the test of one bit, and
  adding a core reports whether it was absent.\<close>
theorem cpuset_sets:
  assumes "cpuset_ok s"
  shows "(chk s c \<longleftrightarrow> c \<in> cpus_of s) \<and> (fst (cs_set s c) \<longleftrightarrow> c \<notin> cpus_of s) \<and>
     cpus_of (snd (cs_set s c)) = insert c (cpus_of s) \<and> cpus_of (clr s c) = cpus_of s - {c} \<and>
     cpus_of (merge s t) = cpus_of s \<union> cpus_of t \<and> cpus_of (subtract s t) = cpus_of s - cpus_of t \<and>
     cpus_of (clear s) = {} \<and> cpus_of (Cpuset_new 0) = {} \<and> cpus_of (Cpuset_new (- 1)) = UNIV"
  using cpus_of_ops assms by (auto simp: cpus_of_def)

theorem cpuset_sets_witness: "cpus_of (snd (cs_set (Cpuset_new 0) 200)) = {200}"
  using cpuset_sets[of "Cpuset_new 0" 200 "[]"] by simp

text \<open>cpuset_for_each. A traversal with a functor that does not change the set applies it to
  every member exactly once and to no other core, stopping at the first fault.\<close>
theorem cpuset_for_each:
  assumes "\<And>c s s'. fn c s = Inr s' \<Longrightarrow> get s' = get s"
  shows "\<exists>cs. for_each_cpu get fn s = run_list fn cs s \<and> distinct cs \<and> set cs = cpus_of (get s)"
  using for_each_cpu_run[where fn = fn and get = get and s = s] assms set_cpu_list[of "get s"]
    distinct_cpu_list[of "get s"] by blast

theorem cpuset_for_each_witness:
  "\<exists>cs. for_each_cpu fst (\<lambda>c (s, n). Inr (s, c # n)) (Cpuset_new 0, []) =
          run_list (\<lambda>c (s, n). Inr (s, c # n)) cs (Cpuset_new 0, []) \<and> set cs = {}"
  using cpuset_for_each[of "\<lambda>c (s, n). Inr (s, c # n)" fst "(Cpuset_new 0, [])"] cpus_of_ops(1) by auto

lemma first_cpu_skip: "i < raw_len \<Longrightarrow> s ! i = 0 \<Longrightarrow> first_cpu_from i s = first_cpu_from (Suc i) s"
  by (subst first_cpu_from.simps) (simp add: bit_scan_forward_def)

lemma first_cpu_end: "\<not> i < raw_len \<Longrightarrow> first_cpu_from i s = Inl Out_of_bounds"
  by (subst first_cpu_from.simps) simp



end
