(* ===== verification/Core_alloc.thy ===== *)
theory Core_alloc
  imports Cpuset Semaphore
begin

text \<open>
  Elastic core allocation: CPU resources (\<open>include/resource.hpp\<close>,
  \<open>src/resource.cpp\<close>), cells and their info pages (\<open>include/cell.hpp\<close>,
  \<open>src/cell.cpp\<close>, \<open>include/cip.hpp\<close>) and the allocator itself
  (\<open>include/core_allocator.hpp\<close>, \<open>src/core_allocator.cpp\<close>).

  Cells live in a store, so that owner, borrower and current cell may coincide. The queue of
  workers of a cell on a core is the list that \<open>Queue::for_each\<close> visits. Waking and
  blocking a worker are the operations of its semaphore, so a kernel path may give up the CPU
  while it blocks the workers of a core; the argument \<open>k\<close> bounds the rounds of
  \<open>Sm::up\<close>. The argument \<open>env\<close> is what the other CPUs do while the path spins in
  \<open>Lapic::pause_loop_until\<close>.
\<close>

definition HZD_YIELD :: u32 where "HZD_YIELD = 0x80"
definition HZD_RECLAIM :: u32 where "HZD_RECLAIM = 0x100"

record cip =
  yield_flag :: "cpu \<Rightarrow> mword"
  ch_remainder :: u16
  ch_limit :: u16
  ch_count :: u32
  cores_current :: cpuset
  cores_reserved :: cpuset
  cores_new :: cpuset
  cores_reclaimed :: cpuset

record ('m, 'e) worker =
  w_ec :: "'e option"
  w_sm :: 'm

record ('m, 'e) cell =
  workers :: "cpu \<Rightarrow> ('m, 'e) worker list"
  prefered_cores :: cpuset
  prio :: u32
  to_be_destroyed :: bool
  cell_cip :: cip
  initialized :: bool

record 'c resource =
  hazards :: u32
  r_owner :: "'c option"
  r_current :: "'c option"

record ('c, 'm, 'e, 'k) kstate =
  resources :: "cpu \<Rightarrow> 'c resource"
  cpu_count :: u32
  idle_cpus :: cpuset
  cells :: "'c \<Rightarrow> ('m, 'e) cell"
  cur_cell :: "'c option"
  cur_ec :: 'e
  sys_finish_k :: 'k
  sems :: "('m, 'e, 'k) sms"

definition upd_res :: "cpu \<Rightarrow> ('c resource \<Rightarrow> 'c resource) \<Rightarrow> ('c, 'm, 'e, 'k) kstate \<Rightarrow> ('c, 'm, 'e, 'k) kstate" where
  "upd_res n f s = s\<lparr>resources := (resources s)(n := f (resources s n))\<rparr>"

definition upd_cell :: "'c \<Rightarrow> (('m, 'e) cell \<Rightarrow> ('m, 'e) cell) \<Rightarrow> ('c, 'm, 'e, 'k) kstate \<Rightarrow> ('c, 'm, 'e, 'k) kstate" where
  "upd_cell c f s = s\<lparr>cells := (cells s)(c := f (cells s c))\<rparr>"

definition upd_cip :: "'c \<Rightarrow> (cip \<Rightarrow> cip) \<Rightarrow> ('c, 'm, 'e, 'k) kstate \<Rightarrow> ('c, 'm, 'e, 'k) kstate" where
  "upd_cip c f s = upd_cell c (\<lambda>x. x\<lparr>cell_cip := f (cell_cip x)\<rparr>) s"

abbreviation cip_of :: "('c, 'm, 'e, 'k) kstate \<Rightarrow> 'c \<Rightarrow> cip" where
  "cip_of s c \<equiv> cell_cip (cells s c)"

subsection \<open>Cells\<close>

definition Cip_new :: cip where
  "Cip_new = \<lparr>yield_flag = (\<lambda>_. 0), ch_remainder = 0, ch_limit = 0, ch_count = 0,
     cores_current = Cpuset_new 0, cores_reserved = Cpuset_new 0, cores_new = Cpuset_new 0,
     cores_reclaimed = Cpuset_new 0\<rparr>"

definition Cell_new :: "u32 \<Rightarrow> cip \<Rightarrow> ('m, 'e) cell" where
  "Cell_new p new_cip = \<lparr>workers = (\<lambda>_. []), prefered_cores = Cpuset_new 0, prio = p,
     to_be_destroyed = False, cell_cip = new_cip, initialized = False\<rparr>"

definition yield_core :: "'c \<Rightarrow> cpu \<Rightarrow> bool \<Rightarrow> ('c, 'm, 'e, 'k) kstate \<Rightarrow> ('c, 'm, 'e, 'k) kstate" where
  "yield_core c core clear_flag s =
     (let s = upd_cip c (\<lambda>p. p\<lparr>cores_current := clr (cores_current p) core\<rparr>) s
      in if clear_flag then upd_cip c (\<lambda>p. p\<lparr>yield_flag := (yield_flag p)(core := 0)\<rparr>) s else s)"

definition cell_update :: "'c \<Rightarrow> cpuset \<Rightarrow> ('c, 'm, 'e, 'k) kstate \<Rightarrow> ('c, 'm, 'e, 'k) kstate" where
  "cell_update c al s = upd_cell c (\<lambda>x. x\<lparr>prefered_cores := merge (prefered_cores x) al\<rparr>) s"

definition update_channel_params :: "'c \<Rightarrow> mword \<Rightarrow> ('c, 'm, 'e, 'k) kstate \<Rightarrow> ('c, 'm, 'e, 'k) kstate" where
  "update_channel_params c cores s =
     (if cores = 0 \<or> ch_count (cip_of s c) = 0 then s
      else upd_cip c (\<lambda>p. p\<lparr>ch_limit := ucast (ucast (ch_count p) div cores :: mword),
                            ch_remainder := ucast (ucast (ch_count p) mod cores :: mword)\<rparr>) s)"

primrec wake_workers :: "nat \<Rightarrow> 'c \<Rightarrow> cpu \<Rightarrow> ('m, 'e) worker list \<Rightarrow> ('c, 'm, 'e, 'k) kstate \<Rightarrow>
  ('c, 'm, 'e, 'k) kstate result" where
  "wake_workers k c core [] s = Inr s"
| "wake_workers k c core (w # ws) s =
     (let s = upd_cip c (\<lambda>p. p\<lparr>cores_current := snd (cs_set (cores_current p) core)\<rparr>) s
      in bind_result (sm_up k (w_sm w) None None (sems s)) (\<lambda>m.
           wake_workers k c core ws (s\<lparr>sems := m\<rparr>)))"

definition wake_core :: "nat \<Rightarrow> 'c \<Rightarrow> cpu \<Rightarrow> ('c, 'm, 'e, 'k) kstate \<Rightarrow> ('c, 'm, 'e, 'k) kstate result" where
  "wake_core k c core s = wake_workers k c core (workers (cells s c) core) s"

definition add_cores :: "nat \<Rightarrow> 'c \<Rightarrow> (('c, 'm, 'e, 'k) kstate \<Rightarrow> cpuset) \<Rightarrow> ('c, 'm, 'e, 'k) kstate \<Rightarrow>
  ('c, 'm, 'e, 'k) kstate result" where
  "add_cores k c get s = for_each_cpu get (wake_core k c) s"

definition wake_cores :: "nat \<Rightarrow> 'c \<Rightarrow> ('c, 'm, 'e, 'k) kstate \<Rightarrow> ('c, 'm, 'e, 'k) kstate result" where
  "wake_cores k c s = add_cores k c (\<lambda>s. cores_new (cip_of s c)) s"

primrec block_workers :: "('m, 'e) worker list \<Rightarrow> (('c, 'm, 'e, 'k) kstate, unit) kern" where
  "block_workers [] s = kret () s"
| "block_workers (w # ws) s =
     (let s = s\<lparr>sems := (sems s)\<lparr>ec_cont := (ec_cont (sems s))(cur_ec s := Some (sys_finish_k s))\<rparr>\<rparr>
      in (case w_ec w of
            None \<Rightarrow> Inl Null_deref
          | Some e \<Rightarrow>
              bind_result (sm_dn (w_sm w) True 0 e True (sems s)) (\<lambda>(go, m).
                if go then block_workers ws (s\<lparr>sems := m\<rparr>) else Inr (None, s\<lparr>sems := m\<rparr>))))"

definition block_workers_on :: "'c \<Rightarrow> cpu \<Rightarrow> (('c, 'm, 'e, 'k) kstate, unit) kern" where
  "block_workers_on c core s =
     (if to_be_destroyed (cells s c) then kret () s
      else (let s = upd_cip c (\<lambda>p. p\<lparr>cores_current := clr (cores_current p) core\<rparr>) s
            in block_workers (workers (cells s c) core) s))"

subsection \<open>CPU resources\<close>

definition Cpu_resource_new :: "'c resource" where
  "Cpu_resource_new = \<lparr>hazards = 0, r_owner = None, r_current = None\<rparr>"

definition resource_occupy :: "'c option \<Rightarrow> 'c resource \<Rightarrow> bool \<times> 'c resource" where
  "resource_occupy pd r = (if r_current r = None then (True, r\<lparr>r_current := pd\<rparr>) else (False, r))"

definition resource_release :: "'c resource \<Rightarrow> 'c resource" where
  "resource_release r = r\<lparr>r_current := None\<rparr>"

definition resource_confer :: "'c \<Rightarrow> 'c resource \<Rightarrow> 'c resource" where
  "resource_confer c r = r\<lparr>r_owner := Some c\<rparr>"

definition borrowed :: "'c resource \<Rightarrow> bool" where
  "borrowed r = (r_owner r \<noteq> r_current r \<and> r_current r \<noteq> None)"

definition cpu_occupy :: "cpu \<Rightarrow> 'c option \<Rightarrow> (('c, 'm, 'e, 'k) kstate, bool) kern" where
  "cpu_occupy n pd s =
     (case resource_occupy pd (resources s n) of
        (False, _) \<Rightarrow> kret False s
      | (True, r) \<Rightarrow>
          (let s = s\<lparr>resources := (resources s)(n := r), idle_cpus := clr (idle_cpus s) n\<rparr>
           in (case pd of
                 None \<Rightarrow> Inl Null_deref
               | Some c \<Rightarrow> kret True (upd_cip c (\<lambda>p. p\<lparr>cores_new := snd (cs_set (cores_new p) n)\<rparr>) s))))"

definition cpu_return_core :: "nat \<Rightarrow> cpu \<Rightarrow> (('c, 'm, 'e, 'k) kstate, unit) kern" where
  "cpu_return_core k n s =
     (case r_current (resources s n) of
        None \<Rightarrow> Inl Null_deref
      | Some borrower \<Rightarrow>
          (let s = upd_cip borrower (\<lambda>p. p\<lparr>yield_flag := (yield_flag p)(n := 0)\<rparr>) s
           in (case r_owner (resources s n) of
                 None \<Rightarrow> Inl Assert_failed
               | Some ow \<Rightarrow>
                   kbind (klift (\<lambda>s. wake_core k ow n (upd_res n (\<lambda>r. r\<lparr>r_current := Some ow\<rparr>) s))) (\<lambda>_ s.
                     if cur_cell s = Some borrower then block_workers_on borrower n s else kret () s) s)))"

definition cpu_release :: "nat \<Rightarrow> cpu \<Rightarrow> (('c, 'm, 'e, 'k) kstate, unit) kern" where
  "cpu_release k n s =
     (case r_current (resources s n) of
        None \<Rightarrow> Inl Null_deref
      | Some holder \<Rightarrow>
          (if yield_flag (cip_of s holder) n = 1 then cpu_return_core k n s
           else
             (let s = upd_cip holder (\<lambda>p. p\<lparr>yield_flag := (yield_flag p)(n := 0)\<rparr>) s;
                  s = s\<lparr>idle_cpus := snd (cs_set (idle_cpus s) n)\<rparr>;
                  s = upd_res n resource_release s
              in if cur_cell s = Some holder then block_workers_on holder n s else kret () s)))"

subsection \<open>The allocator\<close>

definition set_hazard :: "cpu \<Rightarrow> u32 \<Rightarrow> ('c, 'm, 'e, 'k) kstate \<Rightarrow> ('c, 'm, 'e, 'k) kstate" where
  "set_hazard n h s = upd_res n (\<lambda>r. r\<lparr>hazards := hazards r OR h\<rparr>) s"

text \<open>The branch for a yield request: what follows the wait for the borrower.\<close>

definition take_yielded :: "cpu \<Rightarrow> 'c option \<Rightarrow> (('c, 'm, 'e, 'k) kstate, bool) kern" where
  "take_yielded n borrower s =
     (let ow = r_owner (resources s n)
      in kbind (cpu_occupy n ow) (\<lambda>ok s.
           if ok
           then kret True (case borrower of None \<Rightarrow> s
                           | Some b \<Rightarrow> upd_cip b (\<lambda>p. p\<lparr>cores_current := clr (cores_current p) n\<rparr>) s)
           else (case ow of
                   None \<Rightarrow> Inl Null_deref
                 | Some o' \<Rightarrow> kret False (upd_cip o' (\<lambda>p. p\<lparr>cores_reclaimed := clr (cores_reclaimed p) n\<rparr>) s))) s)"

definition handle_hazard :: "nat \<Rightarrow> (('c, 'm, 'e, 'k) kstate \<Rightarrow> ('c, 'm, 'e, 'k) kstate) \<Rightarrow> cpu \<Rightarrow>
  (('c, 'm, 'e, 'k) kstate, bool) kern" where
  "handle_hazard k env n s =
     (if hazards (resources s n) = HZD_YIELD
      then
        (let s = upd_res n (\<lambda>r. r\<lparr>hazards := hazards r AND NOT HZD_YIELD\<rparr>) s;
             borrower = r_current (resources s n)
         in take_yielded n borrower (if borrower \<noteq> None then env s else s))
      else if hazards (resources s n) = HZD_RECLAIM
      then kbind (cpu_return_core k n) (\<lambda>_. kret True)
             (upd_res n (\<lambda>r. r\<lparr>hazards := hazards r AND NOT HZD_RECLAIM\<rparr>) s)
      else kret False s)"

definition cell_return_core :: "nat \<Rightarrow> (('c, 'm, 'e, 'k) kstate \<Rightarrow> ('c, 'm, 'e, 'k) kstate) \<Rightarrow> 'c \<Rightarrow> cpu \<Rightarrow>
  (('c, 'm, 'e, 'k) kstate, bool) kern" where
  "cell_return_core k env c n s =
     (if workers (cells s c) n \<noteq> []
      then (if yield_flag (cip_of s c) n \<noteq> 0
            then handle_hazard k env n (set_hazard n HZD_YIELD s)
            else kret True (upd_cip c (\<lambda>p. p\<lparr>yield_flag := (yield_flag p)(n := 1)\<rparr>) s))
      else kbind (cpu_return_core k n) (\<lambda>_. kret True) s)"

definition reclaim :: "nat \<Rightarrow> (('c, 'm, 'e, 'k) kstate \<Rightarrow> ('c, 'm, 'e, 'k) kstate) \<Rightarrow> cpu \<Rightarrow>
  (('c, 'm, 'e, 'k) kstate, bool) kern" where
  "reclaim k env n s =
     (case r_owner (resources s n) of
        None \<Rightarrow> Inl Null_deref
      | Some ow \<Rightarrow>
          kbind (cpu_occupy n (Some ow)) (\<lambda>ok s.
            if ok
            then (case r_current (resources s n) of
                    None \<Rightarrow> Inl Null_deref
                  | Some c \<Rightarrow> kbind (klift (wake_core k c n)) (\<lambda>_. kret True) s)
            else
              (case r_current (resources s n) of
                 Some b \<Rightarrow>
                   (if b \<noteq> ow then cell_return_core k env b n s
                    else kret False (upd_cip ow (\<lambda>p. p\<lparr>cores_reclaimed := clr (cores_reclaimed p) n\<rparr>) s))
               | None \<Rightarrow> kret False (upd_cip ow (\<lambda>p. p\<lparr>cores_reclaimed := clr (cores_reclaimed p) n\<rparr>) s)))
            (upd_cip ow (\<lambda>p. p\<lparr>cores_reclaimed := snd (cs_set (cores_reclaimed p) n)\<rparr>) s))"

text \<open>
  The loops of \<open>alloc\<close>: the traversal carries the state, the number of cores obtained and
  whether the path still runs.
\<close>

type_synonym ('c, 'm, 'e, 'k) alloc_state = "('c, 'm, 'e, 'k) kstate \<times> nat \<times> bool"

definition count_if :: "(cpu \<Rightarrow> (('c, 'm, 'e, 'k) kstate, bool) kern) \<Rightarrow> cpu \<Rightarrow>
  ('c, 'm, 'e, 'k) alloc_state \<Rightarrow> ('c, 'm, 'e, 'k) alloc_state result" where
  "count_if f n a =
     (case a of (s, cnt, run) \<Rightarrow>
        if \<not> run then Inr a
        else bind_result (f n s) (\<lambda>(r, s).
               Inr (case r of None \<Rightarrow> (s, cnt, False) | Some ok \<Rightarrow> (s, if ok then cnt + 1 else cnt, True))))"

definition enough :: "nat \<Rightarrow> ('c, 'm, 'e, 'k) alloc_state \<Rightarrow> bool" where
  "enough quantity a = (case a of (s, cnt, run) \<Rightarrow> cnt \<ge> quantity)"

definition occupy_all :: "(('c, 'm, 'e, 'k) alloc_state \<Rightarrow> cpuset) \<Rightarrow> nat \<Rightarrow> 'c \<Rightarrow>
  ('c, 'm, 'e, 'k) alloc_state \<Rightarrow> ('c, 'm, 'e, 'k) alloc_state result" where
  "occupy_all get quantity c a = for_each_until get (enough quantity) (count_if (\<lambda>n. cpu_occupy n (Some c))) a"

definition reclaim_borrowed :: "nat \<Rightarrow> (('c, 'm, 'e, 'k) kstate \<Rightarrow> ('c, 'm, 'e, 'k) kstate) \<Rightarrow> cpu \<Rightarrow>
  (('c, 'm, 'e, 'k) kstate, bool) kern" where
  "reclaim_borrowed k env n s = (if borrowed (resources s n) then reclaim k env n s else kret False s)"

definition reclaim_all :: "nat \<Rightarrow> (('c, 'm, 'e, 'k) kstate \<Rightarrow> ('c, 'm, 'e, 'k) kstate) \<Rightarrow> cpuset \<Rightarrow> nat \<Rightarrow>
  ('c, 'm, 'e, 'k) alloc_state \<Rightarrow> ('c, 'm, 'e, 'k) alloc_state result" where
  "reclaim_all k env reserved quantity a =
     for_each_until (\<lambda>_. reserved) (enough quantity) (count_if (reclaim_borrowed k env)) a"

definition alloc :: "nat \<Rightarrow> (('c, 'm, 'e, 'k) kstate \<Rightarrow> ('c, 'm, 'e, 'k) kstate) \<Rightarrow> nat \<Rightarrow> 'c \<Rightarrow>
  (('c, 'm, 'e, 'k) kstate, nat) kern" where
  "alloc k env quantity c s =
     (let s = upd_cip c (\<lambda>p. p\<lparr>cores_new := clear (cores_new p)\<rparr>) s;
          reserved = subtract (cores_reserved (cip_of s c)) (cores_current (cip_of s c))
      in bind_result (occupy_all (\<lambda>_. reserved) quantity c (s, 0, True)) (\<lambda>(s, cnt, run).
           if cnt = quantity then kret cnt s
           else bind_result (occupy_all (\<lambda>a. idle_cpus (fst a)) quantity c (s, cnt, run)) (\<lambda>(s, cnt, run).
             if cnt = quantity then kret cnt s
             else bind_result (reclaim_all k env reserved quantity (s, cnt, run)) (\<lambda>(s, cnt, run).
               if run then kret cnt s else Inr (None, s)))))"

definition ca_release :: "nat \<Rightarrow> 'c option \<Rightarrow> cpu \<Rightarrow> (('c, 'm, 'e, 'k) kstate, unit) kern" where
  "ca_release k cell n s =
     (case cell of
        Some c \<Rightarrow>
          (if r_current (resources s n) \<noteq> Some c
           then block_workers_on c n (upd_cip c (\<lambda>p. p\<lparr>yield_flag := (yield_flag p)(n := 0)\<rparr>) s)
           else cpu_release k n s)
      | None \<Rightarrow> cpu_release k n s)"

definition ca_return_core :: "nat \<Rightarrow> cpu \<Rightarrow> (('c, 'm, 'e, 'k) kstate, unit) kern" where
  "ca_return_core k n s = cpu_return_core k n s"

definition add_cpu :: "cpu \<Rightarrow> ('c, 'm, 'e, 'k) kstate \<Rightarrow> ('c, 'm, 'e, 'k) kstate" where
  "add_cpu n s =
     s\<lparr>resources := (resources s)(n := Cpu_resource_new), cpu_count := cpu_count s + 1,
       idle_cpus := snd (cs_set (idle_cpus s) n)\<rparr>"

definition confer :: "'c \<Rightarrow> ('c, 'm, 'e, 'k) kstate \<Rightarrow> ('c, 'm, 'e, 'k) kstate result" where
  "confer c s =
     for_each_cpu (\<lambda>s. cores_reserved (cip_of s c)) (\<lambda>n s. Inr (upd_res n (resource_confer c) s)) s"

definition transfer :: "nat \<Rightarrow> (('c, 'm, 'e, 'k) kstate \<Rightarrow> ('c, 'm, 'e, 'k) kstate) \<Rightarrow> 'c \<Rightarrow> cpu \<Rightarrow>
  (('c, 'm, 'e, 'k) kstate, unit) kern" where
  "transfer k env c n s =
     (let take = (\<lambda>s. kupd (upd_cip c (\<lambda>p. p\<lparr>cores_new := clr (cores_new p) n,
                                            cores_current := snd (cs_set (cores_current p) n)\<rparr>)) s)
      in if \<not> chk (idle_cpus s) n then kret () s
         else if borrowed (resources s n) then kbind (reclaim k env n) (\<lambda>_. take) s
         else kbind (cpu_occupy n (Some c)) (\<lambda>ok s.
                if \<not> ok \<and> \<not> borrowed (resources s n) then kret () s else take s) s)"

text \<open>The destructor of a cell gives back every core the cell still uses.\<close>

definition drop_core :: "nat \<Rightarrow> 'c \<Rightarrow> cpu \<Rightarrow> (('c, 'm, 'e, 'k) kstate, bool) kern" where
  "drop_core k c n s =
     kbind (if yield_flag (cip_of s c) n = 1 then ca_return_core k n else ca_release k (Some c) n)
       (\<lambda>_. kret True) s"

definition cell_delete :: "nat \<Rightarrow> 'c \<Rightarrow> (('c, 'm, 'e, 'k) kstate, unit) kern" where
  "cell_delete k c s =
     bind_result (for_each_cpu (\<lambda>a. cores_current (cip_of (fst a) c)) (count_if (drop_core k c))
                    (upd_cell c (\<lambda>x. x\<lparr>to_be_destroyed := True\<rparr>) s, 0, True))
       (\<lambda>(s, cnt, run). Inr (if run then Some () else None, s))"

subsection \<open>No core is lost or shared\<close>

text \<open>
  \<open>A\<close> is the set of cores that were added at start-up. A core in the idle set is held by
  nobody, and an added core that is held by nobody is in the idle set.
\<close>

definition core_inv :: "cpu set \<Rightarrow> ('c, 'm, 'e, 'k) kstate \<Rightarrow> bool" where
  "core_inv A s \<longleftrightarrow> cpuset_ok (idle_cpus s) \<and>
     (\<forall>n. chk (idle_cpus s) n \<longrightarrow> r_current (resources s n) = None) \<and>
     (\<forall>n\<in>A. r_current (resources s n) = None \<longrightarrow> chk (idle_cpus s) n)"

text \<open>States with the same holders, owners and idle cores.\<close>

definition same_cores :: "('c, 'm, 'e, 'k) kstate \<Rightarrow> ('c, 'm, 'e, 'k) kstate \<Rightarrow> bool" where
  "same_cores s s' \<longleftrightarrow> resources s' = resources s \<and> idle_cpus s' = idle_cpus s \<and> cur_cell s' = cur_cell s"

lemma same_cores_simps [simp]:
  "same_cores s s" "same_cores s (upd_cip c f s') = same_cores s s'"
  "same_cores s (upd_cell c g s') = same_cores s s'" "same_cores s (s'\<lparr>sems := m\<rparr>) = same_cores s s'"
  by (simp_all add: same_cores_def upd_cip_def upd_cell_def)

lemma same_cores_trans: "same_cores s s' \<Longrightarrow> same_cores s' s'' \<Longrightarrow> same_cores s s''"
  by (simp add: same_cores_def)

lemma core_inv_same: "same_cores s s' \<Longrightarrow> core_inv A s' = core_inv A s"
  by (simp add: core_inv_def same_cores_def)

lemma upd_cip_simps [simp]:
  "resources (upd_cip c f s) = resources s" "idle_cpus (upd_cip c f s) = idle_cpus s"
  "cur_cell (upd_cip c f s) = cur_cell s" "resources (upd_cell c g s) = resources s"
  "idle_cpus (upd_cell c g s) = idle_cpus s" "cur_cell (upd_cell c g s) = cur_cell s"
  "cells (upd_cip c f s) = (cells s)(c := (cells s c)\<lparr>cell_cip := f (cell_cip (cells s c))\<rparr>)"
  "cells (upd_res n h s) = cells s" "idle_cpus (upd_res n h s) = idle_cpus s"
  "cur_cell (upd_res n h s) = cur_cell s" "sems (upd_cip c f s) = sems s" "sems (upd_res n h s) = sems s"
  "resources (upd_res n h s) = (resources s)(n := h (resources s n))"
  by (simp_all add: upd_cip_def upd_cell_def upd_res_def)

lemma wake_workers_same: "wake_workers k c core ws s = Inr s' \<Longrightarrow> same_cores s s'"
proof (induction ws arbitrary: s)
  case (Cons w ws)
  then obtain m where "wake_workers k c core ws
      ((upd_cip c (\<lambda>p. p\<lparr>cores_current := snd (cs_set (cores_current p) core)\<rparr>) s)\<lparr>sems := m\<rparr>) = Inr s'"
    by (auto simp: Let_def bind_result_Inr_iff)
  from Cons.IH[OF this] show ?case by (simp add: same_cores_def)
qed simp

lemma wake_core_same: "wake_core k c core s = Inr s' \<Longrightarrow> same_cores s s'"
  unfolding wake_core_def by (rule wake_workers_same)

lemma block_workers_same: "kpost (block_workers ws s) (same_cores s)"
proof (induction ws arbitrary: s)
  case (Cons w ws)
  let ?s = "s\<lparr>sems := (sems s)\<lparr>ec_cont := (ec_cont (sems s))(cur_ec s := Some (sys_finish_k s))\<rparr>\<rparr>"
  show ?case
  proof (cases "w_ec w")
    case (Some e)
    show ?thesis
    proof (cases "sm_dn (w_sm w) True 0 e True (sems ?s)")
      case (Inr r)
      obtain go m where r: "r = (go, m)" by (cases r)
      have "kpost (block_workers ws (?s\<lparr>sems := m\<rparr>)) (same_cores s)"
        using Cons.IH[of "?s\<lparr>sems := m\<rparr>"] by (simp add: kpost_def same_cores_def split: sum.splits prod.splits)
      then show ?thesis using Some Inr r by (simp add: Let_def kpost_def)
    qed (simp add: Some Let_def kpost_def)
  qed (simp add: Let_def kpost_def)
qed simp

lemma block_workers_on_same: "kpost (block_workers_on c core s) (same_cores s)"
proof (cases "to_be_destroyed (cells s c)")
  case False
  let ?s = "upd_cip c (\<lambda>p. p\<lparr>cores_current := clr (cores_current p) core\<rparr>) s"
  have "kpost (block_workers (workers (cells ?s c) core) ?s) (same_cores ?s)" by (rule block_workers_same)
  then show ?thesis using False by (simp add: block_workers_on_def Let_def kpost_def same_cores_def split: sum.splits prod.splits)
qed (simp add: block_workers_on_def)

lemma kpost_mono: "kpost r P \<Longrightarrow> (\<And>s. P s \<Longrightarrow> Q s) \<Longrightarrow> kpost r Q"
  by (auto simp: kpost_def split: sum.splits prod.splits)

lemma core_inv_occupy:
  assumes "core_inv A s"
  shows "kpost (cpu_occupy n pd s) (core_inv A)"
  using assms
  by (auto simp: cpu_occupy_def resource_occupy_def Let_def core_inv_def kpost_def kret_def split: option.splits)

lemma core_inv_return:
  assumes inv: "core_inv A s"
  shows "kpost (cpu_return_core k n s) (core_inv A)"
proof (cases "r_current (resources s n)")
  case None
  then show ?thesis by (simp add: cpu_return_core_def kpost_def)
next
  case (Some b)
  show ?thesis
  proof (cases "r_owner (resources s n)")
    case None
    then show ?thesis using Some by (simp add: cpu_return_core_def Let_def kpost_def)
  next
    case o: (Some ow)
    let ?s = "upd_cip b (\<lambda>p. p\<lparr>yield_flag := (yield_flag p)(n := 0)\<rparr>) s"
    let ?s1 = "upd_res n (\<lambda>r. r\<lparr>r_current := Some ow\<rparr>) ?s"
    have inv1: "core_inv A ?s1" using inv Some by (auto simp: core_inv_def)
    have "kpost (kbind (klift (\<lambda>s. wake_core k ow n (upd_res n (\<lambda>r. r\<lparr>r_current := Some ow\<rparr>) s))) (\<lambda>_ s.
        if cur_cell s = Some b then block_workers_on b n s else kret () s) ?s) (core_inv A)"
    proof (rule kpost_kbind)
      show "kpost (klift (\<lambda>s. wake_core k ow n (upd_res n (\<lambda>r. r\<lparr>r_current := Some ow\<rparr>) s)) ?s) (core_inv A)"
        using inv1 wake_core_same core_inv_same by (fastforce simp: kpost_klift)
      show "kpost ((if cur_cell s' = Some b then block_workers_on b n s' else kret () s')) (core_inv A)"
        if "core_inv A s'" for s'
        using that kpost_mono[OF block_workers_on_same[of b n s'], of "core_inv A"] core_inv_same by auto
    qed
    then show ?thesis using Some o by (simp add: cpu_return_core_def Let_def)
  qed
qed

lemma core_inv_release:
  assumes inv: "core_inv A s"
  shows "kpost (cpu_release k n s) (core_inv A)"
proof (cases "r_current (resources s n)")
  case None
  then show ?thesis by (simp add: cpu_release_def kpost_def)
next
  case (Some b)
  define s1 where "s1 = upd_res n resource_release
    ((upd_cip b (\<lambda>p. p\<lparr>yield_flag := (yield_flag p)(n := 0)\<rparr>) s)\<lparr>idle_cpus := snd (cs_set (idle_cpus s) n)\<rparr>)"
  have "core_inv A s1" using inv by (auto simp: s1_def core_inv_def resource_release_def)
  then have "kpost (block_workers_on b n s1) (core_inv A)" "kpost (kret () s1) (core_inv A)"
    using kpost_mono[OF block_workers_on_same[of b n s1], of "core_inv A"] core_inv_same by auto
  then show ?thesis
    using Some core_inv_return[OF inv] by (simp add: cpu_release_def Let_def s1_def)
qed

definition env_ok :: "(('c, 'm, 'e, 'k) kstate \<Rightarrow> ('c, 'm, 'e, 'k) kstate) \<Rightarrow> bool" where
  "env_ok env \<longleftrightarrow> (\<forall>A s. core_inv A s \<longrightarrow> core_inv A (env s))"

lemma core_inv_hazards [simp]: "core_inv A (upd_res n (\<lambda>r. r\<lparr>hazards := f r\<rparr>) s) = core_inv A s"
  by (auto simp: core_inv_def)

lemma core_inv_upd_cip [simp]: "core_inv A (upd_cip c f s) = core_inv A s" "core_inv A (upd_cell c g s) = core_inv A s"
  by (simp_all add: core_inv_def)

lemma core_inv_take_yielded:
  assumes "core_inv A s"
  shows "kpost (take_yielded n b s) (core_inv A)"
  unfolding take_yielded_def Let_def
  by (rule kpost_kbind, rule core_inv_occupy[OF assms]) (auto split: option.split)

lemma core_inv_handle_hazard:
  assumes env: "env_ok env" and inv: "core_inv A s"
  shows "kpost (handle_hazard k env n s) (core_inv A)"
proof -
  let ?s1 = "upd_res n (\<lambda>r. r\<lparr>hazards := hazards r AND NOT HZD_YIELD\<rparr>) s"
  let ?b = "r_current (resources ?s1 n)"
  have "core_inv A (if ?b \<noteq> None then env ?s1 else ?s1)" using env inv by (auto simp: env_ok_def)
  then have "kpost (take_yielded n ?b (if ?b \<noteq> None then env ?s1 else ?s1)) (core_inv A)"
    by (rule core_inv_take_yielded)
  moreover have "kpost (kbind (cpu_return_core k n) (\<lambda>_. kret True)
      (upd_res n (\<lambda>r. r\<lparr>hazards := hazards r AND NOT HZD_RECLAIM\<rparr>) s)) (core_inv A)"
    by (rule kpost_kbind[OF core_inv_return]) (use inv in simp_all)
  ultimately show ?thesis using inv unfolding handle_hazard_def Let_def by (simp del: upd_cip_simps)
qed

lemma core_inv_cell_return:
  assumes "env_ok env" "core_inv A s"
  shows "kpost (cell_return_core k env c n s) (core_inv A)"
proof -
  have "kpost (kbind (cpu_return_core k n) (\<lambda>_. kret True) s) (core_inv A)"
    by (rule kpost_kbind[OF core_inv_return]) (use assms in simp_all)
  then show ?thesis
    using assms core_inv_handle_hazard[OF assms(1), of A "set_hazard n HZD_YIELD s" k n]
    by (simp add: cell_return_core_def set_hazard_def)
qed

lemma core_inv_reclaim:
  assumes env: "env_ok env" and inv: "core_inv A s"
  shows "kpost (reclaim k env n s) (core_inv A)"
proof (cases "r_owner (resources s n)")
  case (Some ow)
  let ?s = "upd_cip ow (\<lambda>p. p\<lparr>cores_reclaimed := snd (cs_set (cores_reclaimed p) n)\<rparr>) s"
  have w: "kpost (kbind (klift (wake_core k c n)) (\<lambda>_. kret True) t) (core_inv A)" if "core_inv A t" for c t
    by (rule kpost_kbind) (use that wake_core_same core_inv_same in \<open>fastforce simp: kpost_klift\<close>)+
  show ?thesis
    unfolding reclaim_def Some option.case
    by (rule kpost_kbind, rule core_inv_occupy)
      (use inv w core_inv_cell_return[OF env] in \<open>auto split: option.split\<close>)
qed (simp add: reclaim_def kpost_def)

text \<open>The loops of \<open>alloc\<close>.\<close>

lemma count_if_inv:
  assumes "\<And>n s. P s \<Longrightarrow> kpost (f n s) P" "P (fst a)" "count_if f n a = Inr a'"
  shows "P (fst a')"
proof -
  obtain s cnt run where a: "a = (s, cnt, run)" by (cases a)
  show ?thesis
  proof (cases run)
    case True
    then obtain r s' where "f n s = Inr (r, s')" "fst a' = s'"
      using assms(3) by (auto simp: a count_if_def bind_result_Inr_iff split: option.splits)
    then show ?thesis using assms(1)[of s n] assms(2) by (simp add: a kpost_def)
  qed (use assms(2,3) in \<open>auto simp: a count_if_def\<close>)
qed

lemma count_if_bound:
  assumes "\<not> enough quantity a" "count_if f n a = Inr a'"
  shows "fst (snd a') \<le> quantity"
proof -
  obtain s cnt run where a: "a = (s, cnt, run)" by (cases a)
  show ?thesis
  proof (cases run)
    case True
    then obtain r s' where "a' = (case r of None \<Rightarrow> (s', cnt, False) | Some ok \<Rightarrow> (s', if ok then cnt + 1 else cnt, True))"
      using assms(2) by (auto simp: a count_if_def bind_result_Inr_iff)
    then show ?thesis using assms(1) by (auto simp: a enough_def split: option.splits)
  qed (use assms in \<open>auto simp: a count_if_def enough_def\<close>)
qed

lemma occupy_all_inv:
  assumes "core_inv A (fst a)" "fst (snd a) \<le> quantity" "occupy_all get quantity c a = Inr a'"
  shows "core_inv A (fst a') \<and> fst (snd a') \<le> quantity"
proof (rule for_each_until_inv[of "\<lambda>a. core_inv A (fst a) \<and> fst (snd a) \<le> quantity"])
  show "for_each_until get (enough quantity) (count_if (\<lambda>n. cpu_occupy n (Some c))) a = Inr a'"
    using assms(3) by (simp add: occupy_all_def)
  show "\<forall>n a a'. core_inv A (fst a) \<and> fst (snd a) \<le> quantity \<longrightarrow> \<not> enough quantity a \<longrightarrow>
      count_if (\<lambda>n. cpu_occupy n (Some c)) n a = Inr a' \<longrightarrow> core_inv A (fst a') \<and> fst (snd a') \<le> quantity"
    using count_if_inv[where P = "core_inv A" and f = "\<lambda>n. cpu_occupy n (Some c)"] core_inv_occupy count_if_bound
    by blast
qed (use assms in blast)

lemma reclaim_all_inv:
  assumes env: "env_ok env" and "core_inv A (fst a)" "fst (snd a) \<le> quantity"
    and "reclaim_all k env reserved quantity a = Inr a'"
  shows "core_inv A (fst a') \<and> fst (snd a') \<le> quantity"
proof (rule for_each_until_inv[of "\<lambda>a. core_inv A (fst a) \<and> fst (snd a) \<le> quantity"])
  have "kpost (reclaim_borrowed k env n s) (core_inv A)" if "core_inv A s" for n s
    using core_inv_reclaim[OF env that] that by (simp add: reclaim_borrowed_def)
  then show "\<forall>c a a'. core_inv A (fst a) \<and> fst (snd a) \<le> quantity \<longrightarrow> \<not> enough quantity a \<longrightarrow>
      count_if (reclaim_borrowed k env) c a = Inr a' \<longrightarrow> core_inv A (fst a') \<and> fst (snd a') \<le> quantity"
    using count_if_inv[where P = "core_inv A"] count_if_bound by blast
  show "for_each_until (\<lambda>_. reserved) (enough quantity) (count_if (reclaim_borrowed k env)) a = Inr a'"
    using assms(4) by (simp add: reclaim_all_def)
qed (use assms in blast)

lemma alloc_inv:
  assumes env: "env_ok env" and inv: "core_inv A s" and al: "alloc k env quantity c s = Inr (r, s')"
  shows "core_inv A s' \<and> (\<forall>cnt. r = Some cnt \<longrightarrow> cnt \<le> quantity)"
proof -
  let ?s = "upd_cip c (\<lambda>p. p\<lparr>cores_new := clear (cores_new p)\<rparr>) s"
  let ?res = "subtract (cores_reserved (cip_of ?s c)) (cores_current (cip_of ?s c))"
  obtain s1 n1 run1 where 1: "occupy_all (\<lambda>_. ?res) quantity c (?s, 0, True) = Inr (s1, n1, run1)"
    and al1: "(if n1 = quantity then kret n1 s1
       else bind_result (occupy_all (\<lambda>a. idle_cpus (fst a)) quantity c (s1, n1, run1)) (\<lambda>(s, cnt, run).
         if cnt = quantity then kret cnt s
         else bind_result (reclaim_all k env ?res quantity (s, cnt, run)) (\<lambda>(s, cnt, run).
           if run then kret cnt s else Inr (None, s)))) = Inr (r, s')"
    using al unfolding alloc_def Let_def bind_result_Inr_iff by force
  have i1: "core_inv A s1" "n1 \<le> quantity" using occupy_all_inv[OF _ _ 1, of A] inv by simp_all
  show ?thesis
  proof (cases "n1 = quantity")
    case True
    then show ?thesis using al1 i1 by (auto simp: kret_def)
  next
    case False
    then obtain s2 n2 run2 where 2: "occupy_all (\<lambda>a. idle_cpus (fst a)) quantity c (s1, n1, run1) = Inr (s2, n2, run2)"
      and al2: "(if n2 = quantity then kret n2 s2
         else bind_result (reclaim_all k env ?res quantity (s2, n2, run2)) (\<lambda>(s, cnt, run).
           if run then kret cnt s else Inr (None, s))) = Inr (r, s')"
      using al1 by (auto simp: bind_result_Inr_iff)
    have i2: "core_inv A s2" "n2 \<le> quantity" using occupy_all_inv[OF _ _ 2, of A] i1 by simp_all
    show ?thesis
    proof (cases "n2 = quantity")
      case True
      then show ?thesis using al2 i2 by (auto simp: kret_def)
    next
      case False
      then obtain s3 n3 run3 where 3: "reclaim_all k env ?res quantity (s2, n2, run2) = Inr (s3, n3, run3)"
        and al3: "(if run3 then kret n3 s3 else Inr (None, s3)) = Inr (r, s')"
        using al2 by (auto simp: bind_result_Inr_iff)
      have "core_inv A s3" "n3 \<le> quantity" using reclaim_all_inv[OF env _ _ 3, of A] i2 by simp_all
      then show ?thesis using al3 by (auto simp: kret_def split: if_splits)
    qed
  qed
qed

lemma core_inv_ca_release:
  assumes "core_inv A s"
  shows "kpost (ca_release k cell n s) (core_inv A)"
proof -
  have "kpost (block_workers_on c n t) (core_inv A)" if "core_inv A t" for c t
    using that kpost_mono[OF block_workers_on_same[of c n t], of "core_inv A"] core_inv_same by auto
  from this[of "upd_cip c f s" c for c f] show ?thesis
    using assms core_inv_release[OF assms] by (simp add: ca_release_def split: option.split)
qed

lemma core_inv_add_cpu: "core_inv A s \<Longrightarrow> core_inv (insert n A) (add_cpu n s)"
  by (auto simp: core_inv_def add_cpu_def Cpu_resource_new_def)

lemma core_inv_confer:
  assumes "core_inv A s" "confer c s = Inr s'"
  shows "core_inv A s'"
proof (rule for_each_cpu_inv[of "core_inv A"])
  show "for_each_cpu (\<lambda>s. cores_reserved (cip_of s c)) (\<lambda>n s. Inr (upd_res n (resource_confer c) s)) s = Inr s'"
    using assms(2) by (simp add: confer_def)
  show "\<forall>n a a'. core_inv A a \<longrightarrow> Inr (upd_res n (resource_confer c) a) = Inr a' \<longrightarrow> core_inv A a'"
    by (auto simp: core_inv_def resource_confer_def)
qed (rule assms)

lemma core_inv_transfer:
  assumes env: "env_ok env" and inv: "core_inv A s"
  shows "kpost (transfer k env c n s) (core_inv A)"
proof -
  let ?t = "\<lambda>s. kupd (upd_cip c (\<lambda>p. p\<lparr>cores_new := clr (cores_new p) n,
                                       cores_current := snd (cs_set (cores_current p) n)\<rparr>)) s"
  have "kpost (kbind (reclaim k env n) (\<lambda>_. ?t) s) (core_inv A)"
    by (rule kpost_kbind, rule core_inv_reclaim[OF env inv]) simp
  moreover have "kpost (kbind (cpu_occupy n (Some c)) (\<lambda>ok s.
      if \<not> ok \<and> \<not> borrowed (resources s n) then kret () s else ?t s) s) (core_inv A)"
    by (rule kpost_kbind, rule core_inv_occupy[OF inv]) simp
  ultimately show ?thesis using inv unfolding transfer_def Let_def by simp
qed

lemma core_inv_cell_delete:
  assumes inv: "core_inv A s" and d: "cell_delete k c s = Inr (r, s')"
  shows "core_inv A s'"
proof -
  let ?a = "(upd_cell c (\<lambda>x. x\<lparr>to_be_destroyed := True\<rparr>) s, 0, True)"
  obtain a' where a: "for_each_cpu (\<lambda>a. cores_current (cip_of (fst a) c)) (count_if (drop_core k c)) ?a = Inr a'"
    "s' = fst a'"
    using d by (auto simp: cell_delete_def bind_result_Inr_iff)
  have drop: "kpost (drop_core k c n t) (core_inv A)" if "core_inv A t" for n t
    unfolding drop_core_def
    by (rule kpost_kbind) (use that core_inv_ca_release core_inv_return in \<open>auto simp: ca_return_core_def\<close>)
  have "core_inv A (fst a')"
  proof (rule for_each_cpu_inv[of "\<lambda>a. core_inv A (fst a)", OF _ _ a(1)])
    show "\<forall>n a a'. core_inv A (fst a) \<longrightarrow> count_if (drop_core k c) n a = Inr a' \<longrightarrow> core_inv A (fst a')"
      using count_if_inv[where P = "core_inv A" and f = "drop_core k c"] drop by blast
  qed (use inv in simp)
  then show ?thesis by (simp add: a(2))
qed

subsection \<open>Reachable states\<close>

text \<open>
  The system calls, the start-up code and the destructor of execution contexts reach the
  allocator through these operations, in any order and for any cells. Everything else the
  kernel and the cells do (writing info pages, creating workers, switching between domains) may
  change any part of the state but the resources and the idle set.
\<close>

inductive core_reach :: "cpu set \<Rightarrow> ('c, 'm, 'e, 'k) kstate \<Rightarrow> bool" where
  cr_init: "idle_cpus s = Cpuset_new 0 \<Longrightarrow> core_reach {} s"
| cr_add: "core_reach A s \<Longrightarrow> core_reach (insert n A) (add_cpu n s)"
| cr_alloc: "core_reach A s \<Longrightarrow> env_ok env \<Longrightarrow> alloc k env quantity c s = Inr (r, s') \<Longrightarrow> core_reach A s'"
| cr_release: "core_reach A s \<Longrightarrow> ca_release k cell n s = Inr (r', s') \<Longrightarrow> core_reach A s'"
| cr_return: "core_reach A s \<Longrightarrow> ca_return_core k n s = Inr (r', s') \<Longrightarrow> core_reach A s'"
| cr_confer: "core_reach A s \<Longrightarrow> confer c s = Inr s' \<Longrightarrow> core_reach A s'"
| cr_transfer: "core_reach A s \<Longrightarrow> env_ok env \<Longrightarrow> transfer k env c n s = Inr (r', s') \<Longrightarrow> core_reach A s'"
| cr_delete: "core_reach A s \<Longrightarrow> cell_delete k c s = Inr (r', s') \<Longrightarrow> core_reach A s'"
| cr_other: "core_reach A s \<Longrightarrow> resources s' = resources s \<Longrightarrow> idle_cpus s' = idle_cpus s \<Longrightarrow> core_reach A s'"

lemma kpost_Inr: "kpost m P \<Longrightarrow> m = Inr (r, s') \<Longrightarrow> P s'"
  by (simp add: kpost_def)

lemma core_reach_inv: "core_reach A s \<Longrightarrow> core_inv A s"
proof (induction rule: core_reach.induct)
  case (cr_init s)
  then show ?case by (simp add: core_inv_def)
next
  case (cr_add A s n)
  then show ?case by (intro core_inv_add_cpu)
next
  case (cr_alloc A s env k quantity c r s')
  then show ?case using alloc_inv[of env A s k quantity c r s'] by simp
next
  case (cr_release A s k cell n r s')
  then show ?case using kpost_Inr[OF core_inv_ca_release] by blast
next
  case (cr_return A s k n r s')
  then show ?case using kpost_Inr[OF core_inv_return] unfolding ca_return_core_def by blast
next
  case (cr_confer A s c s')
  then show ?case by (intro core_inv_confer[of A s c s'])
next
  case (cr_transfer A s env k c n r s')
  show ?case by (rule kpost_Inr[OF core_inv_transfer[OF cr_transfer.hyps(2) cr_transfer.IH] cr_transfer.hyps(3)])
next
  case (cr_delete A s k c r s')
  then show ?case by (intro core_inv_cell_delete[of A s k c r s'])
next
  case (cr_other A s s')
  then show ?case by (simp add: core_inv_def)
qed

subsection \<open>What an allocation takes\<close>

text \<open>From \<open>s\<close> to \<open>s'\<close>, the cores in \<open>N\<close>, all free before, became the cell's.\<close>

definition occupied :: "('c, 'm, 'e, 'k) kstate \<Rightarrow> 'c \<Rightarrow> cpu set \<Rightarrow> ('c, 'm, 'e, 'k) kstate \<Rightarrow> bool" where
  "occupied s c N s' \<longleftrightarrow>
     (\<forall>n\<in>N. r_current (resources s n) = None) \<and>
     resources s' = (\<lambda>n. if n \<in> N then (resources s n)\<lparr>r_current := Some c\<rparr> else resources s n) \<and>
     cpuset_ok (idle_cpus s') \<and> cpus_of (idle_cpus s') = cpus_of (idle_cpus s) - N \<and>
     cpuset_ok (cores_new (cip_of s' c)) \<and>
     cpus_of (cores_new (cip_of s' c)) = cpus_of (cores_new (cip_of s c)) \<union> N \<and>
     cores_current (cip_of s' c) = cores_current (cip_of s c) \<and>
     cores_reserved (cip_of s' c) = cores_reserved (cip_of s c) \<and>
     (\<forall>d. d \<noteq> c \<longrightarrow> cells s' d = cells s d) \<and> sems s' = sems s"

lemma occupied_none:
  assumes "cpuset_ok (idle_cpus s)" "cpuset_ok (cores_new (cip_of s c))"
  shows "occupied s c {} s"
  using assms by (simp add: occupied_def)

lemma occupied_step:
  assumes oc: "occupied s c N s'" and occ: "cpu_occupy n (Some c) s' = Inr (r, s'')"
  shows "if r_current (resources s' n) = None then r = Some True \<and> n \<notin> N \<and> occupied s c (insert n N) s''
         else r = Some False \<and> s'' = s'"
proof (cases "r_current (resources s' n)")
  case None
  then have "n \<notin> N" "r_current (resources s n) = None" using oc by (auto simp: occupied_def split: if_splits)
  moreover have "r = Some True" and s'': "s'' = upd_cip c (\<lambda>p. p\<lparr>cores_new := snd (cs_set (cores_new p) n)\<rparr>)
     (s'\<lparr>resources := (resources s')(n := (resources s' n)\<lparr>r_current := Some c\<rparr>), idle_cpus := clr (idle_cpus s') n\<rparr>)"
    using occ None by (auto simp: cpu_occupy_def resource_occupy_def Let_def kret_def)
  moreover have "occupied s c (insert n N) s''"
    unfolding occupied_def
  proof (intro conjI)
    show "resources s'' = (\<lambda>m. if m \<in> insert n N then (resources s m)\<lparr>r_current := Some c\<rparr> else resources s m)"
      using oc by (auto simp: s'' occupied_def fun_eq_iff)
    show "cpus_of (idle_cpus s'') = cpus_of (idle_cpus s) - insert n N"
      using oc by (auto simp: s'' occupied_def cpus_of_ops)
    show "cpus_of (cores_new (cip_of s'' c)) = cpus_of (cores_new (cip_of s c)) \<union> insert n N"
      using oc by (auto simp: s'' occupied_def cpus_of_ops)
  qed (use oc \<open>r_current (resources s n) = None\<close> in \<open>auto simp: s'' occupied_def upd_cip_def upd_cell_def\<close>)
  ultimately show ?thesis using None by simp
next
  case (Some d)
  then show ?thesis using occ by (simp add: cpu_occupy_def resource_occupy_def kret_def)
qed

text \<open>The state of an occupying loop that started in \<open>s\<close> with \<open>m\<close> cores.\<close>

definition occ_state :: "('c, 'm, 'e, 'k) kstate \<Rightarrow> 'c \<Rightarrow> nat \<Rightarrow> nat \<Rightarrow> ('c, 'm, 'e, 'k) alloc_state \<Rightarrow> bool" where
  "occ_state s c m quantity a \<longleftrightarrow>
     (\<exists>N. occupied s c N (fst a) \<and> fst (snd a) = m + card N) \<and> snd (snd a) \<and> fst (snd a) \<le> quantity"

lemma occ_state_step:
  assumes I: "occ_state s c m quantity a" and en: "\<not> enough quantity a"
    and st: "count_if (\<lambda>n. cpu_occupy n (Some c)) n a = Inr a'"
  shows "occ_state s c m quantity a' \<and> r_current (resources (fst a') n) \<noteq> None \<and>
     (\<forall>n. r_current (resources (fst a) n) \<noteq> None \<longrightarrow> r_current (resources (fst a') n) \<noteq> None) \<and>
     (\<forall>n. chk (idle_cpus (fst a')) n \<longrightarrow> chk (idle_cpus (fst a)) n)"
proof -
  obtain t cnt where a: "a = (t, cnt, True)" using I by (cases a) (auto simp: occ_state_def)
  obtain N where N: "occupied s c N t" "cnt = m + card N" using I by (auto simp: occ_state_def a)
  have lt: "cnt < quantity" using en by (simp add: enough_def a)
  obtain r t' where occ: "cpu_occupy n (Some c) t = Inr (r, t')"
    and a': "a' = (case r of None \<Rightarrow> (t', cnt, False) | Some ok \<Rightarrow> (t', if ok then cnt + 1 else cnt, True))"
    using st by (auto simp: a count_if_def bind_result_Inr_iff)
  show ?thesis
  proof (cases "r_current (resources t n)")
    case None
    then have r: "r = Some True" "n \<notin> N" "occupied s c (insert n N) t'"
      using occupied_step[OF N(1) occ] by simp_all
    have "card (insert n N) = Suc (card N)" using r(2) by simp
    then have "occ_state s c m quantity a'"
      using r N(2) lt by (auto simp: occ_state_def a' intro!: exI[of _ "insert n N"])
    moreover have "chk (idle_cpus t) x" if "chk (idle_cpus t') x" for x
    proof -
      have "x \<in> cpus_of (idle_cpus t')" using that by (simp add: cpus_of_def)
      then have "x \<in> cpus_of (idle_cpus t)" using r(3) N(1) by (auto simp: occupied_def)
      then show ?thesis by (simp add: cpus_of_def)
    qed
    moreover have "r_current (resources t' x) \<noteq> None" if "x = n \<or> r_current (resources t x) \<noteq> None" for x
      using that r(3) N(1) by (auto simp: occupied_def)
    ultimately show ?thesis by (simp add: a a' r(1))
  next
    case (Some d)
    then have "r = Some False" "t' = t" using occupied_step[OF N(1) occ] by simp_all
    then show ?thesis using I Some by (simp add: a a' occ_state_def)
  qed
qed

lemma occ_state_total:
  assumes "occ_state s c m quantity a"
  shows "\<exists>a'. count_if (\<lambda>n. cpu_occupy n (Some c)) n a = Inr a'"
  using assms
  by (auto simp: occ_state_def count_if_def cpu_occupy_def resource_occupy_def kret_def Let_def split: prod.splits)

lemma occupy_all_spec:
  assumes ok: "cpuset_ok (idle_cpus s)" "cpuset_ok (cores_new (cip_of s c))" and m: "m \<le> quantity"
    and get: "\<And>a a'. (\<forall>n. chk (idle_cpus (fst a')) n \<longrightarrow> chk (idle_cpus (fst a)) n) \<Longrightarrow>
                (\<forall>n. chk (get a') n \<longrightarrow> chk (get a) n)"
  shows "\<exists>s' N. occupy_all get quantity c (s, m, True) = Inr (s', m + card N, True) \<and> occupied s c N s' \<and>
     m + card N \<le> quantity \<and>
     (m + card N < quantity \<longrightarrow>
        (\<forall>n. chk (get (s', m + card N, True)) n \<longrightarrow> r_current (resources s' n) \<noteq> None))"
proof -
  let ?I = "occ_state s c m quantity" and ?fn = "count_if (\<lambda>n. cpu_occupy n (Some c))"
  have I0: "?I (s, m, True)" using occupied_none[OF ok] m by (auto simp: occ_state_def intro!: exI[of _ "{}"])
  have "\<forall>n a. ?I a \<longrightarrow> \<not> enough quantity a \<longrightarrow> (\<exists>a'. ?fn n a = Inr a' \<and> ?I a')"
    using occ_state_step occ_state_total by metis
  from for_each_until_total[OF this I0] obtain a' where
    a': "for_each_until get (enough quantity) ?fn (s, m, True) = Inr a'" by blast
  have "?I a' \<and> (enough quantity a' \<or> (\<forall>n. chk (get a') n \<longrightarrow> r_current (resources (fst a') n) \<noteq> None))"
  proof (rule for_each_until_complete[where I = ?I and ok = "\<lambda>a n. r_current (resources (fst a) n) \<noteq> None",
          OF _ I0 a'])
    fix n a b assume "?I a" "\<not> enough quantity a" "?fn n a = Inr b"
    from occ_state_step[OF this] get[of b a]
    show "?I b \<and> r_current (resources (fst b) n) \<noteq> None \<and>
        (\<forall>n. r_current (resources (fst a) n) \<noteq> None \<longrightarrow> r_current (resources (fst b) n) \<noteq> None) \<and>
        (\<forall>n. chk (get b) n \<longrightarrow> chk (get a) n)" by blast
  qed
  then show ?thesis using a' by (cases a') (auto simp: occ_state_def enough_def occupy_all_def)
qed

lemma occupied_trans:
  assumes "occupied s c N s1" "occupied s1 c M s2"
  shows "N \<inter> M = {}" "occupied s c (N \<union> M) s2"
proof -
  show d: "N \<inter> M = {}" using assms by (auto simp: occupied_def)
  have "resources s2 = (\<lambda>n. if n \<in> N \<union> M then (resources s n)\<lparr>r_current := Some c\<rparr> else resources s n)"
    using assms d by (auto simp: occupied_def fun_eq_iff)
  moreover have "r_current (resources s n) = None" if "n \<in> N \<union> M" for n
    using assms that by (auto simp: occupied_def split: if_splits)
  ultimately show "occupied s c (N \<union> M) s2" using assms unfolding occupied_def by auto
qed

lemma alloc_takes:
  assumes inv: "core_inv A s"
    and s0: "s0 = upd_cip c (\<lambda>p. p\<lparr>cores_new := clear (cores_new p)\<rparr>) s"
    and res: "res = subtract (cores_reserved (cip_of s c)) (cores_current (cip_of s c))"
  obtains N s2 where "occupied s0 c N s2" "card N \<le> quantity"
    "card N = quantity \<Longrightarrow> alloc k env quantity c s = Inr (Some quantity, s2)"
    "card N < quantity \<Longrightarrow> cpus_of (idle_cpus s2) = {} \<and> (\<forall>n\<in>cpus_of res. r_current (resources s2 n) \<noteq> None) \<and>
       alloc k env quantity c s = bind_result (reclaim_all k env res quantity (s2, card N, True)) (\<lambda>(s, cnt, run).
         if run then kret cnt s else Inr (None, s))"
proof -
  have r0: "subtract (cores_reserved (cip_of s0 c)) (cores_current (cip_of s0 c)) = res" by (simp add: s0 res)
  have ok: "cpuset_ok (idle_cpus s0)" "cpuset_ok (cores_new (cip_of s0 c))" using inv by (simp_all add: s0 core_inv_def)
  obtain s1 N where 1: "occupy_all (\<lambda>_. res) quantity c (s0, 0, True) = Inr (s1, card N, True)" "occupied s0 c N s1"
    "card N \<le> quantity" "card N < quantity \<Longrightarrow> \<forall>n. chk res n \<longrightarrow> r_current (resources s1 n) \<noteq> None"
    using occupy_all_spec[OF ok, of 0 quantity "\<lambda>_. res"] by auto
  note al = alloc_def[of k env quantity c s, folded s0, unfolded r0 Let_def]
  show thesis
  proof (cases "card N = quantity")
    case True
    then show thesis
      using that[OF 1(2,3)] 1(1) by (simp add: al[unfolded s0[symmetric] r0] kret_def)
  next
    case False
    have ok1: "cpuset_ok (idle_cpus s1)" "cpuset_ok (cores_new (cip_of s1 c))" using 1(2) by (simp_all add: occupied_def)
    obtain s2 M where 2: "occupy_all (\<lambda>a. idle_cpus (fst a)) quantity c (s1, card N, True) = Inr (s2, card N + card M, True)"
      "occupied s1 c M s2" "card N + card M \<le> quantity"
      "card N + card M < quantity \<Longrightarrow> \<forall>n. chk (idle_cpus s2) n \<longrightarrow> r_current (resources s2 n) \<noteq> None"
      using occupy_all_spec[OF ok1 1(3), of "\<lambda>a. idle_cpus (fst a)"] by auto
    note tr = occupied_trans[OF 1(2) 2(2)]
    have cd: "card (N \<union> M) = card N + card M" using tr(1) by (simp add: card_Un_disjoint)
    have idle: "cpus_of (idle_cpus s2) = {}" if "card N + card M < quantity"
    proof -
      have "r_current (resources s2 n) = None" if "chk (idle_cpus s2) n" for n
      proof -
        have "n \<in> cpus_of (idle_cpus s0) - (N \<union> M)" using that tr(2) by (auto simp: occupied_def cpus_of_def)
        then show ?thesis using tr(2) inv by (auto simp: occupied_def cpus_of_def core_inv_def s0)
      qed
      then show ?thesis using 2(4)[OF that] by (auto simp: cpus_of_def)
    qed
    have held: "\<forall>n\<in>cpus_of res. r_current (resources s2 n) \<noteq> None"
      using 1(3,4) False 2(2) by (auto simp: occupied_def cpus_of_def)
    show thesis
    proof (rule that[of "N \<union> M" s2])
      show "alloc k env quantity c s = Inr (Some quantity, s2)" if "card (N \<union> M) = quantity"
        using that cd 1(1) 2(1) False by (simp add: al kret_def)
      show "cpus_of (idle_cpus s2) = {} \<and> (\<forall>n\<in>cpus_of res. r_current (resources s2 n) \<noteq> None) \<and>
          alloc k env quantity c s = bind_result (reclaim_all k env res quantity (s2, card (N \<union> M), True))
            (\<lambda>(s, cnt, run). if run then kret cnt s else Inr (None, s))" if "card (N \<union> M) < quantity"
        using that cd 1(1) 2(1) False idle held by (simp add: al)
    qed (use tr(2) 2(3) cd in auto)
  qed
qed

subsection \<open>The return protocol\<close>

definition same_flags :: "('c, 'm, 'e, 'k) kstate \<Rightarrow> ('c, 'm, 'e, 'k) kstate \<Rightarrow> bool" where
  "same_flags s s' \<longleftrightarrow> (\<forall>c. yield_flag (cip_of s' c) = yield_flag (cip_of s c))"

lemma same_flags_simps [simp]:
  "same_flags s s" "same_flags s (upd_res n h s') = same_flags s s'" "same_flags s (s'\<lparr>sems := m\<rparr>) = same_flags s s'"
  by (simp_all add: same_flags_def upd_res_def)

lemma same_flags_upd: "(\<And>p. yield_flag (f p) = yield_flag p) \<Longrightarrow> same_flags s (upd_cip c f s') = same_flags s s'"
  by (auto simp: same_flags_def)

lemma wake_workers_flags: "wake_workers k c core ws s = Inr s' \<Longrightarrow> same_flags s s'"
proof (induction ws arbitrary: s)
  case (Cons w ws)
  let ?s = "upd_cip c (\<lambda>p. p\<lparr>cores_current := snd (cs_set (cores_current p) core)\<rparr>) s"
  obtain m where "wake_workers k c core ws (?s\<lparr>sems := m\<rparr>) = Inr s'"
    using Cons.prems by (auto simp: Let_def bind_result_Inr_iff)
  from Cons.IH[OF this] show ?case by (auto simp: same_flags_def split: if_splits)
qed simp

lemma kpost_value: "kpost (Inr (a, s)) P = P s"
  by (simp add: kpost_def)

lemma block_workers_flags: "kpost (block_workers ws s) (same_flags s)"
proof (induction ws arbitrary: s)
  case (Cons w ws)
  let ?s = "s\<lparr>sems := (sems s)\<lparr>ec_cont := (ec_cont (sems s))(cur_ec s := Some (sys_finish_k s))\<rparr>\<rparr>"
  show ?case
  proof (cases "w_ec w")
    case (Some e)
    show ?thesis
    proof (cases "sm_dn (w_sm w) True 0 e True (sems ?s)")
      case (Inr r)
      obtain go m where r: "r = (go, m)" by (cases r)
      have "kpost (block_workers ws (?s\<lparr>sems := m\<rparr>)) (same_flags s)"
        by (rule kpost_mono, rule Cons.IH) (simp add: same_flags_def)
      then show ?thesis using Some Inr r by (simp add: Let_def kpost_value)
    qed (simp add: Some Let_def)
  qed (simp add: Let_def)
qed simp

lemma block_workers_on_flags: "kpost (block_workers_on c core s) (same_flags s)"
proof (cases "to_be_destroyed (cells s c)")
  case False
  let ?s = "upd_cip c (\<lambda>p. p\<lparr>cores_current := clr (cores_current p) core\<rparr>) s"
  have "kpost (block_workers (workers (cells ?s c) core) ?s) (same_flags ?s)" by (rule block_workers_flags)
  then have "kpost (block_workers (workers (cells ?s c) core) ?s) (same_flags s)"
    by (rule kpost_mono) (auto simp: same_flags_def split: if_splits)
  then show ?thesis using False by (simp only: block_workers_on_def Let_def if_False)
qed (simp add: block_workers_on_def)

lemma kpost_conj: "kpost r P \<Longrightarrow> kpost r Q \<Longrightarrow> kpost r (\<lambda>s. P s \<and> Q s)"
  by (simp add: kpost_def split: sum.splits prod.splits)

lemma block_workers_on_post:
  "kpost (block_workers_on c core s) (\<lambda>t. same_cores s t \<and> same_flags s t)"
  by (rule kpost_conj[OF block_workers_on_same block_workers_on_flags])

lemma cpu_return_core_spec:
  assumes b: "r_current (resources s n) = Some b" and o: "r_owner (resources s n) = Some ow"
    and ret: "cpu_return_core k n s = Inr (r, s')"
  shows "resources s' = (resources s)(n := (resources s n)\<lparr>r_current := Some ow\<rparr>)" "idle_cpus s' = idle_cpus s"
    "yield_flag (cip_of s' b) n = 0"
proof -
  let ?s = "upd_cip b (\<lambda>p. p\<lparr>yield_flag := (yield_flag p)(n := 0)\<rparr>) s"
  let ?s1 = "upd_res n (\<lambda>r. r\<lparr>r_current := Some ow\<rparr>) ?s"
  let ?P = "\<lambda>t. same_cores ?s1 t \<and> same_flags ?s1 t"
  have "kpost (kbind (klift (\<lambda>s. wake_core k ow n (upd_res n (\<lambda>r. r\<lparr>r_current := Some ow\<rparr>) s))) (\<lambda>_ s.
      if cur_cell s = Some b then block_workers_on b n s else kret () s) ?s) ?P"
  proof (rule kpost_kbind)
    show "kpost (klift (\<lambda>s. wake_core k ow n (upd_res n (\<lambda>r. r\<lparr>r_current := Some ow\<rparr>) s)) ?s) ?P"
      unfolding wake_core_def kpost_klift by (blast intro: wake_workers_same wake_workers_flags)
    show "kpost (if cur_cell t = Some b then block_workers_on b n t else kret () t) ?P" if "?P t" for t
    proof -
      have "kpost (block_workers_on b n t) ?P"
        by (rule kpost_mono[OF block_workers_on_post]) (use that in \<open>auto simp: same_cores_def same_flags_def\<close>)
      with that show ?thesis by simp
    qed
  qed
  moreover have "cpu_return_core k n s = kbind (klift (\<lambda>s. wake_core k ow n (upd_res n (\<lambda>r. r\<lparr>r_current := Some ow\<rparr>) s)))
      (\<lambda>_ s. if cur_cell s = Some b then block_workers_on b n s else kret () s) ?s"
    using b o by (simp add: cpu_return_core_def Let_def)
  ultimately have "kpost (cpu_return_core k n s) ?P" by simp
  from kpost_Inr[OF this ret] have P: "?P s'" .
  show "resources s' = (resources s)(n := (resources s n)\<lparr>r_current := Some ow\<rparr>)" "idle_cpus s' = idle_cpus s"
    using P by (simp_all add: same_cores_def)
  show "yield_flag (cip_of s' b) n = 0" using P by (simp add: same_flags_def)
qed

lemma cpu_release_spec:
  assumes b: "r_current (resources s n) = Some b" and f: "yield_flag (cip_of s b) n \<noteq> 1"
    and rel: "cpu_release k n s = Inr (r, s')"
  shows "resources s' = (resources s)(n := (resources s n)\<lparr>r_current := None\<rparr>)"
    "idle_cpus s' = snd (cs_set (idle_cpus s) n)" "yield_flag (cip_of s' b) n = 0"
proof -
  define s1 where "s1 = upd_res n resource_release
    ((upd_cip b (\<lambda>p. p\<lparr>yield_flag := (yield_flag p)(n := 0)\<rparr>) s)\<lparr>idle_cpus := snd (cs_set (idle_cpus s) n)\<rparr>)"
  have s1: "resources s1 = (resources s)(n := (resources s n)\<lparr>r_current := None\<rparr>)"
    "idle_cpus s1 = snd (cs_set (idle_cpus s) n)" "yield_flag (cip_of s1 b) n = 0"
    by (simp_all add: s1_def resource_release_def)
  have "cpu_release k n s = (if cur_cell s1 = Some b then block_workers_on b n s1 else kret () s1)"
    using b f by (simp add: cpu_release_def Let_def s1_def)
  moreover have "kpost (if cur_cell s1 = Some b then block_workers_on b n s1 else kret () s1)
      (\<lambda>t. same_cores s1 t \<and> same_flags s1 t)"
    using block_workers_on_post[of b n s1] by simp
  ultimately have "kpost (cpu_release k n s) (\<lambda>t. same_cores s1 t \<and> same_flags s1 t)" by simp
  from kpost_Inr[OF this rel] have "same_cores s1 s' \<and> same_flags s1 s'" .
  then show "resources s' = (resources s)(n := (resources s n)\<lparr>r_current := None\<rparr>)"
    "idle_cpus s' = snd (cs_set (idle_cpus s) n)" "yield_flag (cip_of s' b) n = 0"
    using s1 by (simp_all add: same_cores_def same_flags_def)
qed

lemma reclaim_files:
  assumes "r_owner (resources s n) = Some ow" "r_current (resources s n) = Some b" "b \<noteq> ow"
    and "workers (cells s b) n \<noteq> []" "yield_flag (cip_of s b) n = 0"
  obtains s' where "reclaim k env n s = Inr (Some True, s')" "resources s' = resources s" "idle_cpus s' = idle_cpus s"
    "yield_flag (cip_of s' b) n = 1" "chk (cores_reclaimed (cip_of s' ow)) n \<or> \<not> cpuset_ok (cores_reclaimed (cip_of s ow))"
proof -
  let ?s = "upd_cip ow (\<lambda>p. p\<lparr>cores_reclaimed := snd (cs_set (cores_reclaimed p) n)\<rparr>) s"
  let ?s' = "upd_cip b (\<lambda>p. p\<lparr>yield_flag := (yield_flag p)(n := 1)\<rparr>) ?s"
  have "reclaim k env n s = Inr (Some True, ?s')"
    using assms
    by (simp add: reclaim_def kbind_def cpu_occupy_def resource_occupy_def kret_def cell_return_core_def)
  then show thesis by (rule that) (use assms in auto)
qed

lemma confer_spec:
  "\<exists>s'. confer c s = Inr s' \<and> cells s' = cells s \<and> idle_cpus s' = idle_cpus s \<and>
     (\<forall>n. resources s' n = (if n \<in> cpus_of (cores_reserved (cip_of s c)) then resource_confer c (resources s n)
                            else resources s n))"
proof -
  let ?fn = "\<lambda>n s. Inr (upd_res n (resource_confer c) s)"
  have idem: "resource_confer c (resource_confer c r) = resource_confer c r" for r by (simp add: resource_confer_def)
  have run: "\<exists>s'. run_list ?fn ns s = Inr s' \<and> cells s' = cells s \<and> idle_cpus s' = idle_cpus s \<and>
     (\<forall>n. resources s' n = (if n \<in> set ns then resource_confer c (resources s n) else resources s n))" for ns
  proof (induction ns arbitrary: s)
    case (Cons n ns)
    obtain s' where "run_list ?fn ns (upd_res n (resource_confer c) s) = Inr s'"
      "cells s' = cells s" "idle_cpus s' = idle_cpus s"
      "\<forall>m. resources s' m = (if m \<in> set ns then resource_confer c (resources (upd_res n (resource_confer c) s) m)
         else resources (upd_res n (resource_confer c) s) m)"
      using Cons.IH[of "upd_res n (resource_confer c) s"] by auto
    then show ?case by (intro exI[of _ s']) (auto simp: idem)
  qed simp
  have "confer c s = run_list ?fn (cpu_list (cores_reserved (cip_of s c))) s"
    unfolding confer_def by (rule for_each_cpu_run) auto
  then show ?thesis using run[of "cpu_list (cores_reserved (cip_of s c))"] by (simp add: set_cpu_list)
qed

lemma reclaimed_release:
  assumes "r_owner (resources s n) = Some ow" "r_current (resources s n) = Some b"
    and "yield_flag (cip_of s b) n = 1" "ca_release k (Some b) n s = Inr (r, s')"
  shows "resources s' = (resources s)(n := (resources s n)\<lparr>r_current := Some ow\<rparr>)" "idle_cpus s' = idle_cpus s"
    "yield_flag (cip_of s' b) n = 0"
proof -
  have "cpu_return_core k n s = Inr (r, s')" using assms(2-4) by (simp add: ca_release_def cpu_release_def)
  note * = cpu_return_core_spec[OF assms(2,1) this]
  show "resources s' = (resources s)(n := (resources s n)\<lparr>r_current := Some ow\<rparr>)" by (rule *(1))
  show "idle_cpus s' = idle_cpus s" by (rule *(2))
  show "yield_flag (cip_of s' b) n = 0" by (rule *(3))
qed

lemma alloc_enough:
  assumes "core_inv A s" "quantity \<le> card (cpus_of (idle_cpus s))"
  shows "\<exists>N s'. alloc k env quantity c s = Inr (Some quantity, s') \<and> card N = quantity \<and>
     (\<forall>n\<in>N. r_current (resources s n) = None) \<and>
     resources s' = (\<lambda>n. if n \<in> N then (resources s n)\<lparr>r_current := Some c\<rparr> else resources s n) \<and>
     cpus_of (idle_cpus s') = cpus_of (idle_cpus s) - N \<and> cpus_of (cores_new (cip_of s' c)) = N \<and>
     (\<forall>d. d \<noteq> c \<longrightarrow> cells s' d = cells s d) \<and> sems s' = sems s"
proof -
  obtain N s2 where N: "occupied (upd_cip c (\<lambda>p. p\<lparr>cores_new := clear (cores_new p)\<rparr>) s) c N s2" "card N \<le> quantity"
    "card N = quantity \<Longrightarrow> alloc k env quantity c s = Inr (Some quantity, s2)"
    "card N < quantity \<Longrightarrow> cpus_of (idle_cpus s2) = {}"
    by (rule alloc_takes[OF assms(1) refl refl, of c quantity k env]) blast
  have "card N = quantity"
  proof (rule ccontr)
    assume "card N \<noteq> quantity"
    then have lt: "card N < quantity" using N(2) by simp
    then have "cpus_of (idle_cpus s) \<subseteq> N" using N(1) N(4) by (auto simp: occupied_def)
    then have "card (cpus_of (idle_cpus s)) \<le> card N" by (intro card_mono) simp_all
    then show False using assms(2) lt by simp
  qed
  then show ?thesis using N(1,3) by (intro exI[of _ N] exI[of _ s2]) (auto simp: occupied_def cpus_of_def)
qed

subsection \<open>Properties\<close>


text \<open>C3: alloc_grants. When at least as many cores are idle as a cell asks for, an allocation
  returns exactly that number: it hands the cell that many cores, all of them free before,
  reports them in the info page, takes them out of the idle set and leaves every other core, every
  other cell and every semaphore as they were.\<close>
theorem alloc_grants:
  assumes "core_reach A s" "quantity \<le> card (cpus_of (idle_cpus s))"
  shows "\<exists>N s'. alloc k env quantity c s = Inr (Some quantity, s') \<and> card N = quantity \<and>
     (\<forall>n\<in>N. r_current (resources s n) = None) \<and>
     resources s' = (\<lambda>n. if n \<in> N then (resources s n)\<lparr>r_current := Some c\<rparr> else resources s n) \<and>
     cpus_of (idle_cpus s') = cpus_of (idle_cpus s) - N \<and> cpus_of (cores_new (cip_of s' c)) = N \<and>
     (\<forall>d. d \<noteq> c \<longrightarrow> cells s' d = cells s d) \<and> sems s' = sems s"
  by (rule alloc_enough[OF core_reach_inv[OF assms(1)] assms(2)])

text \<open>alloc_never_exceeds. Whatever other CPUs do meanwhile, an allocation that returns reports no
  more cores than were asked for, also when it has to reclaim lent cores.\<close>
theorem alloc_never_exceeds:
  assumes "core_reach A s" "env_ok env" "alloc k env quantity c s = Inr (Some cnt, s')"
  shows "cnt \<le> quantity"
  using alloc_inv[OF assms(2) core_reach_inv[OF assms(1)] assms(3)] by simp

text \<open>C6: reclaim_protocol. Reclaiming a core that another cell has borrowed and works on leaves the
  core with the borrower and raises its yield flag, and counts as one more core for the owner; when
  the borrower then releases the core, it passes to the owner, not to the idle set, and the flag
  is lowered.\<close>
theorem reclaim_protocol:
  assumes "r_owner (resources s n) = Some ow" "r_current (resources s n) = Some b" "b \<noteq> ow"
    and "workers (cells s b) n \<noteq> []" "yield_flag (cip_of s b) n = 0"
  shows "\<exists>s1. reclaim k env n s = Inr (Some True, s1) \<and> resources s1 = resources s \<and>
     yield_flag (cip_of s1 b) n = 1 \<and>
     (\<forall>r s2. ca_release k (Some b) n s1 = Inr (r, s2) \<longrightarrow>
        resources s2 = (resources s)(n := (resources s n)\<lparr>r_current := Some ow\<rparr>) \<and>
        idle_cpus s2 = idle_cpus s \<and> yield_flag (cip_of s2 b) n = 0)"
proof -
  obtain s1 where s1: "reclaim k env n s = Inr (Some True, s1)" "resources s1 = resources s"
    "idle_cpus s1 = idle_cpus s" "yield_flag (cip_of s1 b) n = 1"
    by (rule reclaim_files[OF assms, of k env]) blast
  have "resources s2 = (resources s)(n := (resources s n)\<lparr>r_current := Some ow\<rparr>) \<and>
      idle_cpus s2 = idle_cpus s \<and> yield_flag (cip_of s2 b) n = 0"
    if "ca_release k (Some b) n s1 = Inr (r, s2)" for r s2
    using reclaimed_release[OF _ _ s1(4) that, of ow] assms(1,2) s1(2,3) by simp
  with s1 show ?thesis by blast
qed

text \<open>release_frees. A cell that releases a core it holds, with no yield request pending, leaves
  the core without a holder and in the idle set; the owner stays.\<close>
theorem release_frees:
  assumes "core_reach A s" "r_current (resources s n) = Some c" "yield_flag (cip_of s c) n \<noteq> 1"
    and "ca_release k (Some c) n s = Inr (r, s')"
  shows "r_current (resources s' n) = None \<and> r_owner (resources s' n) = r_owner (resources s n) \<and>
     cpus_of (idle_cpus s') = insert n (cpus_of (idle_cpus s)) \<and>
     (\<forall>m. m \<noteq> n \<longrightarrow> resources s' m = resources s m)"
proof -
  have "cpu_release k n s = Inr (r, s')" using assms(2,4) by (simp add: ca_release_def)
  note * = cpu_release_spec[OF assms(2,3) this]
  have "cpuset_ok (idle_cpus s)" using core_reach_inv[OF assms(1)] by (simp add: core_inv_def)
  then show ?thesis using * by (simp add: cpus_of_ops)
qed

text \<open>confer_exact. Conferring makes the cell the owner of exactly the cores reserved for it
  and changes neither holders nor the idle set nor any cell.\<close>
theorem confer_exact:
  "\<exists>s'. confer c s = Inr s' \<and> cells s' = cells s \<and> idle_cpus s' = idle_cpus s \<and>
     (\<forall>n. r_owner (resources s' n) =
            (if n \<in> cpus_of (cores_reserved (cip_of s c)) then Some c else r_owner (resources s n)) \<and>
          r_current (resources s' n) = r_current (resources s n))"
  using confer_spec[of c s] by (auto simp: resource_confer_def)

text \<open>channel_split. The channels of a cell are divided among its cores without loss: as long as
  there are fewer than \<open>2 ^ 16\<close> channels, the share of each core times the number of cores
  plus the remainder is the number of channels, and the remainder is less than the number of
  cores.\<close>
theorem channel_split:
  assumes "cores \<noteq> 0" "ch_count (cip_of s c) \<noteq> 0" "unat (ch_count (cip_of s c)) < 2 ^ 16"
  shows "let p = cip_of (update_channel_params c cores s) c
         in unat (ch_limit p) * unat cores + unat (ch_remainder p) = unat (ch_count (cip_of s c)) \<and>
            unat (ch_remainder p) < unat cores"
proof -
  let ?n = "ch_count (cip_of s c)"
  have n: "unat (ucast ?n :: mword) = unat ?n" 
    using assms(3) by (simp add: unsigned_ucast_eq take_bit_nat_eq_self)
  have "unat (ucast ?n div cores :: mword) = unat ?n div unat cores"
    "unat (ucast ?n mod cores :: mword) = unat ?n mod unat cores"
    by (simp_all add: unat_div unat_mod n)
  moreover have "unat ?n div unat cores < 2 ^ 16" "unat ?n mod unat cores < 2 ^ 16"
    using assms(3) div_le_dividend[of "unat ?n" "unat cores"] mod_less_eq_dividend[of "unat ?n" "unat cores"]
    by linarith+
  ultimately have "unat (ucast (ucast ?n div cores :: mword) :: u16) = unat ?n div unat cores"
    "unat (ucast (ucast ?n mod cores :: mword) :: u16) = unat ?n mod unat cores"
    by (simp_all add: unsigned_ucast_eq take_bit_nat_eq_self)
  moreover have "0 < unat cores" using assms(1) by (simp add: unat_gt_0)
  ultimately show ?thesis using assms(1,2) by (simp add: update_channel_params_def)
qed

subsection \<open>A concrete state\<close>

definition ex_cell :: "bool \<Rightarrow> (nat, nat) cell" where
  "ex_cell busy = (Cell_new 1 (Cip_new\<lparr>ch_count := 100, cores_reserved := [6, 0, 0, 0]\<rparr>))
     \<lparr>workers := (\<lambda>n. if busy \<and> n = 1 then [\<lparr>w_ec = Some 5, w_sm = 3\<rparr>] else [])\<rparr>"

text \<open>Cell 0 borrows core 1 from cell 1 and runs a worker there.\<close>

definition ex_kstate :: "(nat, nat, nat, nat) kstate" where
  "ex_kstate = \<lparr>resources = (\<lambda>n. \<lparr>hazards = 0, r_owner = Some 1, r_current = if n = 1 then Some 0 else None\<rparr>),
     cpu_count = 2, idle_cpus = Cpuset_new 0, cells = (\<lambda>c. ex_cell (c = 0)), cur_cell = Some 0, cur_ec = 5,
     sys_finish_k = 7, sems = ex_sms\<rparr>"

lemma ex_reach: "core_reach {1, 2} (add_cpu 1 (add_cpu 2 ex_kstate))"
  by (rule cr_add, rule cr_add, rule cr_init) (simp add: ex_kstate_def)

lemma ex_idle: "cpus_of (idle_cpus (add_cpu 1 (add_cpu 2 ex_kstate))) = {1, 2}"
  by (simp add: add_cpu_def ex_kstate_def cpus_of_ops)

lemma ex_kreach: "core_reach {} ex_kstate"
  by (rule cr_init) (simp add: ex_kstate_def)

lemmas ex_kdefs = ex_kstate_def ex_cell_def Cell_new_def Cip_new_def upd_cip_def upd_cell_def upd_res_def
  kbind_def klift_def Let_def kret_def

lemmas ex_release_defs = ca_release_def cpu_release_def cpu_return_core_def wake_core_def block_workers_on_def
  resource_release_def ex_sms_def sm_dn_def add_ref_def enqueue_def dequeue_def block_sc_def set_timeout_def
  blocked_def emit_def


theorem alloc_grants_witness:
  "\<exists>s'. alloc 0 (\<lambda>s. s) 2 0 (add_cpu 1 (add_cpu 2 ex_kstate)) = Inr (Some 2, s') \<and> sems s' = ex_sms"
  using alloc_grants[OF ex_reach, of 2 0 "\<lambda>s. s" 0] by (auto simp: ex_idle) (auto simp: ex_kstate_def add_cpu_def)

theorem alloc_never_exceeds_witness:
  "\<exists>cnt s'. alloc 0 (\<lambda>s. s) 0 0 ex_kstate = Inr (Some cnt, s') \<and> cnt \<le> 0"
proof -
  obtain s' where al: "alloc 0 (\<lambda>s. s) 0 0 ex_kstate = Inr (Some 0, s')"
    by (rule alloc_takes[OF core_reach_inv[OF ex_kreach] refl refl, of 0 0 0 "\<lambda>s. s"]) auto
  have "env_ok (\<lambda>s :: (nat, nat, nat, nat) kstate. s)" by (simp add: env_ok_def)
  from alloc_never_exceeds[OF ex_kreach this al] al show ?thesis by blast
qed

theorem reclaim_protocol_witness:
  "\<exists>s1 s2. reclaim 3 (\<lambda>s. s) 1 ex_kstate = Inr (Some True, s1) \<and> ca_release 3 (Some 0) 1 s1 = Inr (None, s2) \<and>
     r_current (resources s2 1) = Some 1"
proof -
  let ?s1 = "upd_cip 0 (\<lambda>p. p\<lparr>yield_flag := (yield_flag p)(1 := 1)\<rparr>)
    (upd_cip 1 (\<lambda>p. p\<lparr>cores_reclaimed := snd (cs_set (cores_reclaimed p) 1)\<rparr>) ex_kstate)"
  have r: "reclaim 3 (\<lambda>s. s) 1 ex_kstate = Inr (Some True, ?s1)"
    by (simp add: reclaim_def cpu_occupy_def resource_occupy_def cell_return_core_def ex_kdefs)
  obtain s2 where s2: "ca_release 3 (Some 0) 1 ?s1 = Inr (None, s2)"
    by (simp add: ex_release_defs ex_kdefs)
  have "\<exists>s1. reclaim 3 (\<lambda>s. s) 1 ex_kstate = Inr (Some True, s1) \<and> resources s1 = resources ex_kstate \<and>
     yield_flag (cip_of s1 0) 1 = 1 \<and>
     (\<forall>r s2. ca_release 3 (Some 0) 1 s1 = Inr (r, s2) \<longrightarrow>
        resources s2 = (resources ex_kstate)(1 := (resources ex_kstate 1)\<lparr>r_current := Some 1\<rparr>) \<and>
        idle_cpus s2 = idle_cpus ex_kstate \<and> yield_flag (cip_of s2 0) 1 = 0)"
    by (rule reclaim_protocol) (simp_all add: ex_kdefs)
  with r s2 show ?thesis by auto
qed

theorem release_frees_witness:
  "\<exists>s'. ca_release 3 (Some 0) 1 ex_kstate = Inr (None, s') \<and> cpus_of (idle_cpus s') = {1}"
proof -
  obtain s2 where s2: "ca_release 3 (Some 0) 1 ex_kstate = Inr (None, s2)" by (simp add: ex_release_defs ex_kdefs)
  have "cpus_of (idle_cpus ex_kstate) = {}" by (simp add: ex_kstate_def cpus_of_def)
  moreover have "r_current (resources ex_kstate 1) = Some 0" "yield_flag (cip_of ex_kstate 0) 1 \<noteq> 1"
    by (simp_all add: ex_kdefs)
  ultimately show ?thesis using release_frees[OF ex_kreach _ _ s2] s2 by auto
qed

theorem channel_split_witness:
  "let p = cip_of (update_channel_params 0 7 ex_kstate) 0
   in unat (ch_limit p) * 7 + unat (ch_remainder p) = 100 \<and> unat (ch_remainder p) < 7"
  using channel_split[of 7 ex_kstate 0] by (simp add: ex_kstate_def ex_cell_def Cell_new_def)

end
