(* ===== verification/Buddy.thy ===== *)
theory Buddy
  imports Ring Quota Bits
begin

text \<open>
  The buddy allocator for kernel memory, \<open>include/buddy.hpp\<close> and \<open>src/buddy.cpp\<close>.
  A pool manages pages by an index relative to its base; the index may be negative, since the
  base is the pool's address rounded up to the largest block. The block descriptors are an array
  indexed by page, the list heads an array indexed by order; both kinds of nodes share one store
  of links. The linker symbol \<open>OFFSET\<close> is a field of the pool.
\<close>

datatype node = Hd nat | Bl int
datatype tag = Used | Free
datatype fill = NOFILL | FILL_0 | FILL_1

record pool =
  min_idx :: int
  max_idx :: int
  base :: mword
  order :: nat
  tags :: "int \<Rightarrow> tag"
  ords :: "int \<Rightarrow> nat"
  blinks :: "node links"
  offset :: mword

subsection \<open>Addresses\<close>

definition PAGE_BITS :: nat where "PAGE_BITS = 12"
definition PAGE_SIZE :: mword where "PAGE_SIZE = 0x1000"

definition page_to_index :: "pool \<Rightarrow> mword \<Rightarrow> int" where
  "page_to_index p l_addr = sint (l_addr div PAGE_SIZE - base p div PAGE_SIZE)"

definition index_to_page :: "pool \<Rightarrow> int \<Rightarrow> mword" where
  "index_to_page p i = base p + word_of_int i * PAGE_SIZE"

definition virt_to_phys :: "pool \<Rightarrow> mword \<Rightarrow> mword" where
  "virt_to_phys p virt = virt - offset p"

definition phys_to_virt :: "pool \<Rightarrow> mword \<Rightarrow> mword" where
  "phys_to_virt p phys = phys + offset p"

definition order_aligned :: "pool \<Rightarrow> mword \<Rightarrow> nat \<Rightarrow> bool" where
  "order_aligned p virt k \<longleftrightarrow> virt_to_phys p virt AND (push_bit (k + PAGE_BITS) 1 - 1) = 0"

definition memset :: "(mword \<Rightarrow> u8) \<Rightarrow> mword \<Rightarrow> u8 \<Rightarrow> mword \<Rightarrow> mword \<Rightarrow> u8" where
  "memset m d c n = (\<lambda>a. if a - d < n then c else m a)"

subsection \<open>Allocation\<close>

definition unlink :: "node \<Rightarrow> node links \<Rightarrow> node links result" where
  "unlink b l =
     (case lprev l b of
        None \<Rightarrow> Inl Null_deref
      | Some e \<Rightarrow>
          (let l1 = set_next e (lnext l b) l
           in (case lnext l1 b of
                 None \<Rightarrow> Inl Null_deref
               | Some n \<Rightarrow> Inr (set_prev n (lprev l1 b) l1))))"

text \<open>The loop that gives back the upper halves, from \<open>lo + k\<close> down to \<open>lo\<close>.\<close>

primrec split_down :: "nat \<Rightarrow> nat \<Rightarrow> int \<Rightarrow> pool \<Rightarrow> pool" where
  "split_down 0 lo i p = p"
| "split_down (Suc k) lo i p =
     (let j = lo + k; b = i + 2 ^ j;
          l = set_next (Bl b) (Some (Hd j)) (set_prev (Bl b) (Some (Hd j)) (blinks p));
          l = set_next (Hd j) (Some (Bl b)) (set_prev (Hd j) (Some (Bl b)) l)
      in split_down k lo i (p\<lparr>blinks := l, ords := (ords p)(b := j), tags := (tags p)(b := Free)\<rparr>))"

definition pool_alloc :: "nat \<Rightarrow> fill \<Rightarrow> pool \<Rightarrow> quota \<Rightarrow> (mword \<Rightarrow> u8) \<Rightarrow>
  (mword option \<times> pool \<times> quota \<times> (mword \<Rightarrow> u8)) result" where
  "pool_alloc lo f p q m =
     (case find (\<lambda>j. lnext (blinks p) (Hd j) \<noteq> Some (Hd j)) [lo..<order p] of
        None \<Rightarrow> Inr (None, p, q, m)
      | Some j \<Rightarrow>
          (case lnext (blinks p) (Hd j) of
             Some (Bl i) \<Rightarrow>
               bind_result (unlink (Bl i) (blinks p)) (\<lambda>l.
                 let p = p\<lparr>blinks := l, ords := (ords p)(i := lo), tags := (tags p)(i := Used)\<rparr>;
                     p = split_down (j - lo) lo i p;
                     virt = index_to_page p i
                 in if \<not> order_aligned p virt (ords p i) then Inl Assert_failed
                    else
                      (let m = (if f \<noteq> NOFILL
                                then memset m virt (if f = FILL_0 then 0 else - 1) (push_bit (ords p i + PAGE_BITS) 1)
                                else m)
                       in Inr (Some virt, p, quota_alloc q (push_bit lo 1), m)))
           | _ \<Rightarrow> Inl Null_deref))"

fun buddy_alloc :: "nat \<Rightarrow> fill \<Rightarrow> pool list \<Rightarrow> quota \<Rightarrow> (mword \<Rightarrow> u8) \<Rightarrow>
  (mword \<times> pool list \<times> quota \<times> (mword \<Rightarrow> u8)) result" where
  "buddy_alloc lo f [] q m = Inl Panic"
| "buddy_alloc lo f (p # ps) q m =
     bind_result (pool_alloc lo f p q m) (\<lambda>(v, p, q, m).
       case v of
         Some a \<Rightarrow> Inr (a, p # ps, q, m)
       | None \<Rightarrow> bind_result (buddy_alloc lo f ps q m) (\<lambda>(a, ps, q, m). Inr (a, p # ps, q, m)))"

subsection \<open>Release\<close>

primrec merge_up :: "nat \<Rightarrow> nat \<Rightarrow> int \<Rightarrow> pool \<Rightarrow> (nat \<times> int \<times> pool) result" where
  "merge_up 0 k i p = Inr (k, i, p)"
| "merge_up (Suc n) k i p =
     (let b = i XOR 2 ^ k
      in if b < min_idx p \<or> b \<ge> max_idx p then Inr (k, i, p)
         else if tags p b = Used \<or> ords p b \<noteq> k then Inr (k, i, p)
         else bind_result (unlink (Bl b) (blinks p)) (\<lambda>l.
                merge_up n (Suc k) (if b < i then b else i) (p\<lparr>blinks := l\<rparr>)))"

definition push_front :: "nat \<Rightarrow> int \<Rightarrow> pool \<Rightarrow> pool result" where
  "push_front k i p =
     (let p = p\<lparr>ords := (ords p)(i := k), tags := (tags p)(i := Free)\<rparr>;
          l = set_prev (Bl i) (Some (Hd k)) (blinks p);
          l = set_next (Bl i) (lnext l (Hd k)) l
      in (case lnext l (Bl i) of
            None \<Rightarrow> Inl Null_deref
          | Some n \<Rightarrow> Inr (p\<lparr>blinks := set_prev n (Some (Bl i)) (set_next (Hd k) (Some (Bl i)) l)\<rparr>)))"

definition pool_free :: "mword \<Rightarrow> pool \<Rightarrow> quota \<Rightarrow> (pool \<times> quota) result" where
  "pool_free virt p q =
     (let i = page_to_index p virt
      in if \<not> (min_idx p \<le> i \<and> i < max_idx p) then Inl Assert_failed
         else if tags p i \<noteq> Used then Inl Assert_failed
         else if \<not> order_aligned p virt (ords p i) then Inl Assert_failed
         else
           (let q = quota_free q (push_bit (ords p i) 1)
            in bind_result (merge_up (order p - 1 - ords p i) (ords p i) i p) (\<lambda>(k, i, p).
                 bind_result (push_front k i p) (\<lambda>p. Inr (p, q)))))"

fun buddy_free :: "mword \<Rightarrow> pool list \<Rightarrow> quota \<Rightarrow> (pool list \<times> quota) result" where
  "buddy_free virt [] q = Inl Panic"
| "buddy_free virt (p # ps) q =
     (let i = page_to_index p virt
      in if i \<ge> min_idx p \<and> i < max_idx p
         then bind_result (pool_free virt p q) (\<lambda>(p, q). Inr (p # ps, q))
         else bind_result (buddy_free virt ps q) (\<lambda>(ps, q). Inr (p # ps, q)))"

subsection \<open>Construction\<close>

text \<open>
  The descriptors live at the end of the pool's memory; what that memory holds before, and the
  bound of the loop that releases the pages, are arguments.
\<close>

definition sizeof_Block :: mword where "sizeof_Block = 24"

fun init_free :: "nat \<Rightarrow> mword \<Rightarrow> mword \<Rightarrow> pool \<Rightarrow> quota \<Rightarrow> (pool \<times> quota) result" where
  "init_free 0 i e p q = (if i < e then Inl Out_of_fuel else Inr (p, q))"
| "init_free (Suc n) i e p q =
     (if i < e then bind_result (pool_free i p q) (\<lambda>(p, q). init_free n (i + PAGE_SIZE) e p q) else Inr (p, q))"

definition pool_frame :: "(int \<Rightarrow> tag) \<Rightarrow> (int \<Rightarrow> nat) \<Rightarrow> node links \<Rightarrow> mword \<Rightarrow> mword \<Rightarrow> mword \<Rightarrow> mword \<Rightarrow> mword \<times> pool" where
  "pool_frame tags0 ords0 l0 off phys virt sz =
     (let bt = nat (bit_scan_reverse sz);
          bs = align_up phys (push_bit bt 1) + off;
          od = of_nat bt + 1 - of_nat PAGE_BITS :: mword;
          sz = sz - od * sizeof_Block;
          sz = sz - sz div (PAGE_SIZE + sizeof_Block) * sizeof_Block;
          sz = sz AND NOT (PAGE_SIZE - 1);
          p = \<lparr>min_idx = 0, max_idx = 0, base = bs, order = unat od, tags = tags0, ords = ords0,
               blinks = \<lparr>lnext = (\<lambda>x. case x of Hd j \<Rightarrow> if j < unat od then Some x else lnext l0 x | Bl _ \<Rightarrow> lnext l0 x),
                         lprev = (\<lambda>x. case x of Hd j \<Rightarrow> if j < unat od then Some x else lprev l0 x | Bl _ \<Rightarrow> lprev l0 x)\<rparr>,
               offset = off\<rparr>
      in (sz, p\<lparr>min_idx := page_to_index p virt, max_idx := page_to_index p (virt + sz)\<rparr>))"

definition Buddy_new :: "nat \<Rightarrow> (int \<Rightarrow> tag) \<Rightarrow> (int \<Rightarrow> nat) \<Rightarrow> node links \<Rightarrow> mword \<Rightarrow> mword \<Rightarrow> mword \<Rightarrow> mword \<Rightarrow>
  mword \<Rightarrow> quota \<Rightarrow> (pool \<times> quota) result" where
  "Buddy_new n tags0 ords0 l0 off phys virt f_addr sz q =
     (case pool_frame tags0 ords0 l0 off phys virt sz of
        (sz, p) \<Rightarrow> init_free n f_addr (virt + sz) p q)"

subsection \<open>Lists of free blocks\<close>

lemma unlink_ring:
  assumes r: "ring l (h # xs)" and t: "t \<in> set xs"
  shows "\<exists>l'. unlink t l = Inr l' \<and> ring l' (h # remove1 t xs) \<and>
     (\<forall>x. x \<notin> set (h # xs) \<longrightarrow> lnext l' x = lnext l x \<and> lprev l' x = lprev l x)"
proof -
  have d: "distinct (h # xs)" using r by (rule ring_distinct)
  obtain as bs where xs: "xs = as @ t # bs" using split_list[OF t] by blast
  have rt: "ring l (t # bs @ h # as)" using ring_rotate[of l "h # as" "t # bs"] r by (simp add: xs)
  define zs where "zs = bs @ h # as"
  have z: "zs \<noteq> []" "t \<notin> set zs" "distinct zs" "set zs \<subseteq> set (h # xs)" using d by (auto simp: zs_def xs)
  have n: "lnext l t = Some (hd zs)" "lprev l t = Some (last zs)"
    using ring_next_prev[OF rt[folded zs_def]] z(1) by simp_all
  have mem: "hd zs \<in> set zs" "last zs \<in> set zs" using z(1) by simp_all
  then have tn: "last zs \<noteq> t" "hd zs \<noteq> t" using z(2) by auto
  let ?l' = "set_prev (hd zs) (Some (last zs)) (set_next (last zs) (Some (hd zs)) l)"
  have "unlink t l = Inr ?l'" using n tn by (simp add: unlink_def Let_def)
  moreover have "ring ?l' zs" by (rule ring_remove_front[OF rt[folded zs_def] z(1)]) simp_all
  then have "ring ?l' (h # as @ bs)" using ring_rotate[of ?l' bs "h # as"] by (simp add: zs_def)
  then have "ring ?l' (h # remove1 t xs)" using d by (simp add: xs remove1_append)
  moreover have "x \<noteq> last zs \<and> x \<noteq> hd zs" if "x \<notin> set (h # xs)" for x using that mem z(4) by auto
  ultimately show ?thesis by (intro exI[of _ ?l']) auto
qed

lemma push_ring:
  assumes r: "ring l (h # xs)" and t: "t \<notin> set (h # xs)"
  shows "\<exists>n. lnext l h = Some n \<and> n \<in> set (h # xs) \<and>
     ring (set_prev n (Some t) (set_next h (Some t) (set_next t (Some n) (set_prev t (Some h) l)))) (h # t # xs)"
proof (cases xs)
  case Nil
  let ?l' = "set_prev h (Some t) (set_next h (Some t) (set_next t (Some h) (set_prev t (Some h) l)))"
  have "ring ?l' [h, t]" using t by (auto simp: ring_def)
  moreover have "lnext l h = Some h" using r Nil by simp
  ultimately show ?thesis using Nil by simp
next
  case (Cons x ys)
  let ?l' = "set_prev x (Some t) (set_next h (Some t) (set_next t (Some x) (set_prev t (Some h) l)))"
  have "ring l (x # ys @ [h])" using ring_rotate[of l "[h]" xs] r by (simp add: Cons)
  then have "ring ?l' (x # (ys @ [h]) @ [t])"
    by (rule ring_insert_last[where e = h]) (use t in \<open>auto simp: Cons fun_eq_iff\<close>)
  then have "ring ?l' (h # t # xs)" using ring_rotate[of ?l' xs "[h, t]"] by (simp add: Cons)
  moreover have "lnext l h = Some x" using ring_next_prev(1)[OF r] by (simp add: Cons)
  ultimately show ?thesis using Cons by simp
qed

subsection \<open>The invariant\<close>

text \<open>
  The pages of the pool are partitioned into aligned blocks: free ones, which are in the list of
  their order, used ones, and, while an operation runs, blocks in transit. Two buddies are never
  both free.
\<close>

definition rng :: "int \<times> nat \<Rightarrow> int set" where
  "rng b = {fst b..<fst b + 2 ^ snd b}"

definition frees :: "(nat \<Rightarrow> int list) \<Rightarrow> (int \<times> nat) set" where
  "frees fl = {(i, k). i \<in> set (fl k)}"

definition all_blocks :: "(nat \<Rightarrow> int list) \<Rightarrow> (int \<times> nat) set \<Rightarrow> (int \<times> nat) set \<Rightarrow> (int \<times> nat) set" where
  "all_blocks fl U X = frees fl \<union> U \<union> X"

definition lists_ok :: "pool \<Rightarrow> (nat \<Rightarrow> int list) \<Rightarrow> bool" where
  "lists_ok p fl \<longleftrightarrow> (\<forall>k < order p. ring (blinks p) (Hd k # map Bl (fl k))) \<and> (\<forall>k. order p \<le> k \<longrightarrow> fl k = [])"

definition fits :: "pool \<Rightarrow> int \<times> nat \<Rightarrow> bool" where
  "fits p b \<longleftrightarrow> snd b < order p \<and> 2 ^ snd b dvd fst b \<and> min_idx p \<le> fst b \<and> fst b + 2 ^ snd b \<le> max_idx p"

definition parts_ok :: "pool \<Rightarrow> (int \<times> nat) set \<Rightarrow> bool" where
  "parts_ok p B \<longleftrightarrow>
     (\<forall>b\<in>B. fits p b) \<and>
     (\<forall>b\<in>B. \<forall>c\<in>B. b \<noteq> c \<longrightarrow> rng b \<inter> rng c = {}) \<and>
     {min_idx p..<max_idx p} \<subseteq> (\<Union>b\<in>B. rng b)"

definition tags_ok :: "pool \<Rightarrow> (nat \<Rightarrow> int list) \<Rightarrow> (int \<times> nat) set \<Rightarrow> bool" where
  "tags_ok p fl U \<longleftrightarrow> (\<forall>(i, k)\<in>frees fl. tags p i = Free \<and> ords p i = k) \<and> (\<forall>(i, k)\<in>U. tags p i = Used \<and> ords p i = k)"

definition coalesced :: "pool \<Rightarrow> (nat \<Rightarrow> int list) \<Rightarrow> bool" where
  "coalesced p fl \<longleftrightarrow> (\<forall>k i. Suc k < order p \<longrightarrow> i \<in> set (fl k) \<longrightarrow> i XOR 2 ^ k \<notin> set (fl k))"

definition pool_inv :: "pool \<Rightarrow> (nat \<Rightarrow> int list) \<Rightarrow> (int \<times> nat) set \<Rightarrow> (int \<times> nat) set \<Rightarrow> bool" where
  "pool_inv p fl U X \<longleftrightarrow> lists_ok p fl \<and> parts_ok p (all_blocks fl U X) \<and> tags_ok p fl U \<and> coalesced p fl \<and>
     (frees fl \<union> U) \<inter> X = {}"

lemma rng_self [simp]: "fst b \<in> rng b"
  by (simp add: rng_def)

lemma parts_okD:
  assumes "parts_ok p B" "(i, k) \<in> B"
  shows "k < order p" "2 ^ k dvd i" "min_idx p \<le> i" "i + 2 ^ k \<le> max_idx p"
  using assms by (force simp: parts_ok_def fits_def)+

lemma parts_ok_rng: "parts_ok p B \<Longrightarrow> b \<in> B \<Longrightarrow> c \<in> B \<Longrightarrow> b \<noteq> c \<Longrightarrow> rng b \<inter> rng c = {}"
  by (simp add: parts_ok_def)

lemma parts_ok_disjoint: "parts_ok p B \<Longrightarrow> b \<in> B \<Longrightarrow> c \<in> B \<Longrightarrow> x \<in> rng b \<Longrightarrow> x \<in> rng c \<Longrightarrow> b = c"
  unfolding parts_ok_def by blast

lemma parts_ok_head: "parts_ok p B \<Longrightarrow> (i, k) \<in> B \<Longrightarrow> (i, k') \<in> B \<Longrightarrow> k = k'"
  using parts_ok_disjoint[of p B "(i, k)" "(i, k')" i] rng_self[of "(i, k)"] rng_self[of "(i, k')"] by simp

text \<open>A pool with other links or other tags outside the blocks.\<close>

lemma parts_ok_cong: "min_idx p' = min_idx p \<Longrightarrow> max_idx p' = max_idx p \<Longrightarrow> order p' = order p \<Longrightarrow>
  parts_ok p' B = parts_ok p B"
  by (simp add: parts_ok_def fits_def)

subsection \<open>Buddies\<close>

lemma xor_buddy:
  fixes i :: int
  assumes "2 ^ k dvd i"
  shows "i XOR 2 ^ k = (if even (i div 2 ^ k) then i + 2 ^ k else i - 2 ^ k)"
proof -
  obtain q where i: "i = 2 ^ k * q" using assms by (rule dvdE)
  have "i XOR 2 ^ k = push_bit k q XOR push_bit k 1" by (simp add: i push_bit_eq_mult mult.commute)
  also have "\<dots> = push_bit k (q XOR 1)" by (simp only: push_bit_xor)
  also have "q XOR 1 = (if even q then q + 1 else q - 1)" by (simp add: xor_one_eq)
  finally show ?thesis by (simp add: i push_bit_eq_mult algebra_simps)
qed

lemma buddy_facts:
  fixes i :: int
  assumes "2 ^ k dvd i"
  shows "2 ^ k dvd (i XOR 2 ^ k)" "2 ^ Suc k dvd min i (i XOR 2 ^ k)"
    "max i (i XOR 2 ^ k) = min i (i XOR 2 ^ k) + 2 ^ k" "(i XOR 2 ^ k) XOR 2 ^ k = i" "i XOR 2 ^ k \<noteq> i"
proof -
  obtain q where i: "i = 2 ^ k * q" using assms by (rule dvdE)
  then have q: "i div 2 ^ k = q" by simp
  show "2 ^ k dvd (i XOR 2 ^ k)" using assms by (simp add: xor_buddy)
  show "max i (i XOR 2 ^ k) = min i (i XOR 2 ^ k) + 2 ^ k" "i XOR 2 ^ k \<noteq> i"
    by (auto simp: xor_buddy[OF assms])
  show "(i XOR 2 ^ k) XOR 2 ^ k = i" by (simp add: xor.assoc)
  show "2 ^ Suc k dvd min i (i XOR 2 ^ k)"
  proof (cases "even q")
    case True
    then have "i XOR 2 ^ k = i + 2 ^ k" using xor_buddy[OF assms] q by simp
    moreover have "2 * 2 ^ k dvd i" using True by (auto simp: i elim!: evenE)
    ultimately show ?thesis by (simp add: min_def)
  next
    case False
    then have "i XOR 2 ^ k = i - 2 ^ k" using xor_buddy[OF assms] q by simp
    moreover have "2 * 2 ^ k dvd i - 2 ^ k" using False by (auto simp: i algebra_simps elim!: oddE)
    ultimately show ?thesis by (simp add: min_def)
  qed
qed

subsection \<open>Moving blocks\<close>

lemma pool_invD:
  assumes "pool_inv p fl U X"
  shows "lists_ok p fl" "parts_ok p (all_blocks fl U X)" "tags_ok p fl U" "coalesced p fl" "(frees fl \<union> U) \<inter> X = {}"
  using assms by (simp_all add: pool_inv_def)

lemma tags_okD:
  assumes "tags_ok p fl U"
  shows "i \<in> set (fl k) \<Longrightarrow> tags p i = Free \<and> ords p i = k" "(i, k) \<in> U \<Longrightarrow> tags p i = Used \<and> ords p i = k"
  using assms unfolding tags_ok_def frees_def by fastforce+

lemma free_in_one_list:
  assumes "pool_inv p fl U X" "i \<in> set (fl k)" "i \<in> set (fl k')"
  shows "k = k'"
  by (rule parts_ok_head[OF pool_invD(2)[OF assms(1)], of i]) (use assms(2,3) in \<open>simp_all add: all_blocks_def frees_def\<close>)

lemma in_transit_not_free:
  assumes inv: "pool_inv p fl U X" and x: "(i, k) \<in> X"
  shows "i \<notin> set (fl k')" "(i, k') \<notin> U"
proof -
  note P = pool_invD(2)[OF inv] and D = pool_invD(5)[OF inv]
  have X: "(i, k) \<in> all_blocks fl U X" using x by (simp add: all_blocks_def)
  show "i \<notin> set (fl k')"
  proof
    assume i: "i \<in> set (fl k')"
    then have "(i, k') \<in> all_blocks fl U X" by (simp add: all_blocks_def frees_def)
    from parts_ok_head[OF P X this] i x D show False by (auto simp: frees_def)
  qed
  show "(i, k') \<notin> U"
  proof
    assume i: "(i, k') \<in> U"
    then have "(i, k') \<in> all_blocks fl U X" by (simp add: all_blocks_def)
    from parts_ok_head[OF P X this] i x D show False by auto
  qed
qed

lemma lists_ok_update:
  assumes L: "lists_ok p fl" and k: "k < order p" and r: "ring l (Hd k # map Bl xs)"
    and o: "order p' = order p" and b: "blinks p' = l"
    and fr: "\<forall>x. x \<notin> set (Hd k # map Bl ys) \<longrightarrow> lnext l x = lnext (blinks p) x \<and> lprev l x = lprev (blinks p) x"
    and ys: "\<And>i k'. i \<in> set ys \<Longrightarrow> k' \<noteq> k \<Longrightarrow> i \<notin> set (fl k')"
  shows "lists_ok p' (fl(k := xs))"
proof -
  have "ring l (Hd m # map Bl (fl m))" if m: "m < order p" "m \<noteq> k" for m
  proof -
    have "x \<notin> set (Hd k # map Bl ys)" if "x \<in> set (Hd m # map Bl (fl m))" for x
      using that m(2) ys[OF _ m(2)] by auto
    then have "ring l (Hd m # map Bl (fl m)) = ring (blinks p) (Hd m # map Bl (fl m))"
      by (intro ring_cong) (use fr in auto)
    then show ?thesis using L m(1) by (simp add: lists_ok_def)
  qed
  then show ?thesis using L k r o b by (auto simp: lists_ok_def)
qed

lemma frees_upd: "frees (fl(k := xs)) = (frees fl - {(i, k) | i. True}) \<union> {(i, k) | i. i \<in> set xs}"
  by (auto simp: frees_def split: if_splits)

lemma remove1_map_Bl: "remove1 (Bl i) (map Bl xs) = map Bl (remove1 i xs)"
  by (induction xs) auto

lemma take_free:
  assumes inv: "pool_inv p fl U X" and i: "i \<in> set (fl k)"
  shows "\<exists>l. unlink (Bl i) (blinks p) = Inr l \<and> pool_inv (p\<lparr>blinks := l\<rparr>) (fl(k := remove1 i (fl k))) U (insert (i, k) X)"
proof -
  note L = pool_invD(1)[OF inv] and P = pool_invD(2)[OF inv] and T = pool_invD(3)[OF inv] and C = pool_invD(4)[OF inv]
    and D = pool_invD(5)[OF inv]
  let ?fl = "fl(k := remove1 i (fl k))"
  have F: "(i, k) \<in> frees fl" using i by (simp add: frees_def)
  have k: "k < order p" using parts_okD(1)[OF P, of i k] F by (simp add: all_blocks_def)
  have r: "ring (blinks p) (Hd k # map Bl (fl k))" using L k by (simp add: lists_ok_def)
  have d: "distinct (fl k)" using ring_distinct[OF r] by (simp add: distinct_map)
  obtain l where l: "unlink (Bl i) (blinks p) = Inr l" "ring l (Hd k # remove1 (Bl i) (map Bl (fl k)))"
    "\<forall>x. x \<notin> set (Hd k # map Bl (fl k)) \<longrightarrow> lnext l x = lnext (blinks p) x \<and> lprev l x = lprev (blinks p) x"
    using unlink_ring[OF r, of "Bl i"] i by auto
  have "lists_ok (p\<lparr>blinks := l\<rparr>) ?fl"
    using l(2)[unfolded remove1_map_Bl] by (intro lists_ok_update[OF L k _ _ _ l(3)]) (use free_in_one_list[OF inv] in auto)
  moreover have fr: "frees ?fl = frees fl - {(i, k)}" using d by (auto simp: frees_def split: if_splits)
  moreover have "all_blocks ?fl U (insert (i, k) X) = all_blocks fl U X" using F by (auto simp: all_blocks_def fr)
  moreover have "(i, k) \<notin> U" using tags_okD[OF T, of i k] i by auto
  moreover have "tags_ok (p\<lparr>blinks := l\<rparr>) ?fl U" using T fr by (auto simp: tags_ok_def)
  moreover have "coalesced (p\<lparr>blinks := l\<rparr>) ?fl" using C d by (auto simp: coalesced_def)
  ultimately show ?thesis using l(1) P D parts_ok_cong[of "p\<lparr>blinks := l\<rparr>" p] unfolding pool_inv_def by auto
qed

text \<open>Descriptors of blocks in transit may change.\<close>

lemma tags_ok_transit:
  assumes inv: "pool_inv p fl U X" and x: "(i, k) \<in> X"
    and "\<And>j. j \<noteq> i \<Longrightarrow> tags p' j = tags p j \<and> ords p' j = ords p j"
  shows "tags_ok p' fl U"
  unfolding tags_ok_def frees_def
proof (intro conjI ballI; clarify)
  note T = tags_okD[OF pool_invD(3)[OF inv]] and N = in_transit_not_free[OF inv x]
  show "tags p' j = Free \<and> ords p' j = m" if "j \<in> set (fl m)" for j m
    using T(1)[OF that] N(1)[of m] that assms(3)[of j] by (cases "j = i") auto
  show "tags p' j = Used \<and> ords p' j = m" if "(j, m) \<in> U" for j m
    using T(2)[OF that] N(2)[of m] that assms(3)[of j] by (cases "j = i") auto
qed

lemma put_free:
  assumes inv: "pool_inv p fl U (insert (i, k) X)" and x: "(i, k) \<notin> X"
    and c: "Suc k < order p \<Longrightarrow> i XOR 2 ^ k \<notin> set (fl k)"
  shows "\<exists>p'. push_front k i p = Inr p' \<and> pool_inv p' (fl(k := i # fl k)) U X \<and>
     min_idx p' = min_idx p \<and> max_idx p' = max_idx p \<and> order p' = order p \<and> base p' = base p \<and> offset p' = offset p"
proof -
  note L = pool_invD(1)[OF inv] and P = pool_invD(2)[OF inv] and T = pool_invD(3)[OF inv] and C = pool_invD(4)[OF inv]
    and D = pool_invD(5)[OF inv]
  let ?fl = "fl(k := i # fl k)"
  have new: "i \<notin> set (fl k')" "(i, k') \<notin> U" for k' using in_transit_not_free[OF inv, of i k] by auto
  have B: "(i, k) \<in> all_blocks fl U (insert (i, k) X)" by (simp add: all_blocks_def)
  note ik = parts_okD[OF P B]
  have r: "ring (blinks p) (Hd k # map Bl (fl k))" using L ik(1) by (simp add: lists_ok_def)
  obtain n where n: "lnext (blinks p) (Hd k) = Some n" "n \<in> set (Hd k # map Bl (fl k))"
    "ring (set_prev n (Some (Bl i)) (set_next (Hd k) (Some (Bl i)) (set_next (Bl i) (Some n) (set_prev (Bl i) (Some (Hd k)) (blinks p)))))
       (Hd k # Bl i # map Bl (fl k))"
    using push_ring[OF r, of "Bl i"] new by auto
  define l where "l = set_prev n (Some (Bl i)) (set_next (Hd k) (Some (Bl i)) (set_next (Bl i) (Some n) (set_prev (Bl i) (Some (Hd k)) (blinks p))))"
  define p' where "p' = p\<lparr>ords := (ords p)(i := k), tags := (tags p)(i := Free), blinks := l\<rparr>"
  have "push_front k i p = Inr p'" using n(1) by (simp add: push_front_def Let_def p'_def l_def)
  moreover have "lists_ok p' ?fl"
  proof (rule lists_ok_update[OF L ik(1), where l = l and ys = "i # fl k"])
    show "\<forall>x. x \<notin> set (Hd k # map Bl (i # fl k)) \<longrightarrow> lnext l x = lnext (blinks p) x \<and> lprev l x = lprev (blinks p) x"
      using n(2) by (auto simp: l_def)
    show "j \<notin> set (fl k')" if "j \<in> set (i # fl k)" "k' \<noteq> k" for j k'
      using that new free_in_one_list[OF inv, of j k k'] by auto
  qed (use n(3) in \<open>simp_all add: l_def p'_def\<close>)
  moreover have "all_blocks ?fl U X = all_blocks fl U (insert (i, k) X)"
    by (auto simp: all_blocks_def frees_def split: if_splits)
  then have "parts_ok p' (all_blocks ?fl U X)" using P parts_ok_cong[of p' p] by (simp add: p'_def)
  moreover have "tags_ok p' fl U" by (rule tags_ok_transit[OF inv, of i k]) (simp_all add: p'_def)
  then have "tags_ok p' ?fl U" by (auto simp: tags_ok_def frees_def p'_def split: if_splits)
  moreover have "coalesced p' ?fl"
    unfolding coalesced_def
  proof (intro allI impI)
    fix m j assume m: "Suc m < order p'" "j \<in> set (?fl m)"
    show "j XOR 2 ^ m \<notin> set (?fl m)"
    proof (cases "m = k")
      case True
      have "Suc k < order p" using m(1) True by (simp add: p'_def)
      moreover have "j XOR 2 ^ k \<noteq> i" if "j \<in> set (fl k)"
        using c[OF calculation] that by (auto simp: xor.assoc)
      ultimately show ?thesis using m(2) True c C buddy_facts(5)[OF ik(2)] by (auto simp: coalesced_def)
    next
      case False
      then show ?thesis using m C by (simp add: coalesced_def p'_def)
    qed
  qed
  moreover have "(frees ?fl \<union> U) \<inter> X = {}" using D x by (auto simp: frees_def split: if_splits)
  ultimately show ?thesis by (simp add: pool_inv_def p'_def)
qed

text \<open>Halves and wholes.\<close>

lemma rng_halves: "rng (i, Suc k) = rng (i, k) \<union> rng (i + 2 ^ k, k)" "rng (i, k) \<inter> rng (i + 2 ^ k, k) = {}"
  by (auto simp: rng_def)

text \<open>Replacing one block by others that cover the same pages keeps the partition.\<close>

lemma parts_replace:
  assumes P: "parts_ok p (A \<union> B)" and AB: "A \<inter> B = {}"
    and fits: "\<forall>b\<in>N. fits p b" and cov: "(\<Union>b\<in>N. rng b) = (\<Union>b\<in>A. rng b)"
    and dis: "\<forall>b\<in>N. \<forall>c\<in>N. b \<noteq> c \<longrightarrow> rng b \<inter> rng c = {}"
  shows "parts_ok p (N \<union> B)"
proof -
  have A: "rng a \<inter> rng c = {}" if "a \<in> A" "c \<in> B" for a c
    by (rule parts_ok_rng[OF P]) (use that AB in auto)
  have N: "rng b \<inter> rng c = {}" if "b \<in> N" "c \<in> B" for b c
  proof -
    have "rng b \<subseteq> (\<Union>a\<in>A. rng a)" using cov that(1) by blast
    then show ?thesis using A[OF _ that(2)] by blast
  qed
  have B: "rng b \<inter> rng c = {}" if "b \<in> B" "c \<in> B" "b \<noteq> c" for b c
    by (rule parts_ok_rng[OF P]) (use that in auto)
  have "rng b \<inter> rng c = {}" if "b \<in> N \<union> B" "c \<in> N \<union> B" "b \<noteq> c" for b c
    using that dis N[of b c] N[of c b] B[of b c] by blast
  moreover have "(\<Union>b\<in>N \<union> B. rng b) = (\<Union>b\<in>A \<union> B. rng b)" using cov by blast
  moreover have "\<forall>b\<in>N \<union> B. fits p b" using fits P by (auto simp: parts_ok_def)
  ultimately show ?thesis using P unfolding parts_ok_def by simp
qed

lemma fits_halves:
  assumes "2 ^ Suc k dvd (i :: int)"
  shows "fits p (i, Suc k) \<Longrightarrow> fits p (i, k) \<and> fits p (i + 2 ^ k, k)"
    "fits p (i, k) \<Longrightarrow> fits p (i + 2 ^ k, k) \<Longrightarrow> Suc k < order p \<Longrightarrow> fits p (i, Suc k)"
proof -
  have dv: "2 ^ k dvd i" using assms by (rule power_le_dvd) simp
  show "fits p (i, k) \<and> fits p (i + 2 ^ k, k)" if "fits p (i, Suc k)"
    using dv that zero_le_power[of "2 :: int" k] unfolding fits_def fst_conv snd_conv power_Suc
    by (intro conjI; (linarith | simp))
  show "fits p (i, k) \<Longrightarrow> fits p (i + 2 ^ k, k) \<Longrightarrow> Suc k < order p \<Longrightarrow> fits p (i, Suc k)"
    using assms by (simp add: fits_def)
qed

lemma parts_split:
  assumes P: "parts_ok p (insert (i, Suc k) B)" and n: "(i, Suc k) \<notin> B"
  shows "parts_ok p (insert (i, k) (insert (i + 2 ^ k, k) B))"
proof -
  have f: "fits p (i, Suc k)" using P by (simp add: parts_ok_def)
  then have "2 ^ Suc k dvd i" by (simp add: fits_def)
  note h = fits_halves(1)[OF this f]
  have "parts_ok p ({(i, k), (i + 2 ^ k, k)} \<union> B)"
  proof (rule parts_replace[of p "{(i, Suc k)}" B])
    show "\<forall>b\<in>{(i, k), (i + 2 ^ k, k)}. fits p b" using h by simp
    show "(\<Union>b\<in>{(i, k), (i + 2 ^ k, k)}. rng b) = (\<Union>b\<in>{(i, Suc k)}. rng b)" using rng_halves(1)[of i k] by simp
    show "\<forall>b\<in>{(i, k), (i + 2 ^ k, k)}. \<forall>c\<in>{(i, k), (i + 2 ^ k, k)}. b \<noteq> c \<longrightarrow> rng b \<inter> rng c = {}"
      using rng_halves(2)[of i k] by (simp add: Int_commute)
  qed (use P n in simp_all)
  then show ?thesis by simp
qed

lemma parts_merge:
  assumes P: "parts_ok p (insert (i, k) (insert (i XOR 2 ^ k, k) B))" and k: "Suc k < order p"
    and n: "(i, k) \<notin> B" "(i XOR 2 ^ k, k) \<notin> B"
  shows "parts_ok p (insert (min i (i XOR 2 ^ k), Suc k) B)"
proof -
  let ?b = "i XOR 2 ^ k" and ?m = "min i (i XOR 2 ^ k)"
  have dv: "2 ^ k dvd i" using parts_okD(2)[OF P, of i k] by simp
  note bf = buddy_facts[OF dv]
  have two: "{(i, k), (?b, k)} = {(?m, k), (?m + 2 ^ k, k)}" using bf(3) by (auto simp: min_def max_def split: if_splits)
  have f: "fits p (?m, k)" "fits p (?m + 2 ^ k, k)" using P two unfolding parts_ok_def by blast+
  have "parts_ok p ({(?m, Suc k)} \<union> B)"
  proof (rule parts_replace[of p "{(i, k), (?b, k)}" B])
    show "\<forall>b\<in>{(?m, Suc k)}. fits p b" using fits_halves(2)[OF bf(2) f k] by simp
    show "(\<Union>b\<in>{(?m, Suc k)}. rng b) = (\<Union>b\<in>{(i, k), (?b, k)}. rng b)" using rng_halves(1)[of ?m k] by (simp add: two)
  qed (use P n in simp_all)
  then show ?thesis by simp
qed

text \<open>A free page whose order is that of a block in transit next to it heads a free block.\<close>

lemma aligned_inside:
  fixes i k :: int
  assumes "2 ^ m dvd k" "2 ^ m dvd i" "k \<le> i" "i < k + 2 ^ m"
  shows "i = k"
proof -
  have "2 ^ m dvd i - k" using assms(1,2) by simp
  moreover have "0 \<le> i - k" "i - k < 2 ^ m" using assms(3,4) by simp_all
  ultimately have "i - k = 0" by (metis zdvd_not_zless le_less)
  then show ?thesis by simp
qed

lemma aligned_nested:
  fixes a h x y :: int
  assumes "2 ^ n dvd a" "2 ^ m dvd h" "n \<le> m" "h \<le> x" "x < h + 2 ^ m" "a \<le> x" "x < a + 2 ^ n" "a \<le> y" "y < a + 2 ^ n"
  shows "h \<le> y \<and> y < h + 2 ^ m"
proof -
  have W: "(0::int) < 2 ^ n" by simp
  have dm: "2 ^ n dvd (2 ^ m :: int)" using assms(3) by (rule le_imp_power_dvd)
  obtain q where q: "(2 ^ m :: int) = 2 ^ n * q" using dm by (rule dvdE)
  obtain c where c: "a = 2 ^ n * c" using assms(1) by (rule dvdE)
  obtain d where d: "h = 2 ^ n * d" using dvd_trans[OF dm assms(2)] by (rule dvdE)
  have "2 ^ n * d < 2 ^ n * (c + 1)" "2 ^ n * c < 2 ^ n * (d + q)"
    using assms(4-7) c d q unfolding distrib_left mult_1_right by linarith+
  then have "d \<le> c" "c + 1 \<le> d + q" using W by simp_all
  then have "2 ^ n * d \<le> 2 ^ n * c" "2 ^ n * (c + 1) \<le> 2 ^ n * (d + q)" using W by simp_all
  then show ?thesis using assms(8,9) c d q unfolding distrib_left mult_1_right by linarith
qed

lemma buddy_listed:
  assumes inv: "pool_inv p fl U {(i, k)}" and b: "b = i XOR 2 ^ k" "min_idx p \<le> b" "b < max_idx p"
    and t: "tags p b = Free" "ords p b = k"
  shows "b \<in> set (fl k)"
proof -
  note P = pool_invD(2)[OF inv] and T = pool_invD(3)[OF inv]
  have X: "(i, k) \<in> all_blocks fl U {(i, k)}" by (simp add: all_blocks_def)
  have dv: "2 ^ k dvd i" by (rule parts_okD(2)[OF P X])
  note bf = buddy_facts[OF dv, folded b(1)]
  have "b \<in> (\<Union>c\<in>all_blocks fl U {(i, k)}. rng c)" using P b(2,3) unfolding parts_ok_def by auto
  then obtain h m where h: "(h, m) \<in> all_blocks fl U {(i, k)}" "b \<in> rng (h, m)" by auto
  have hm: "h \<le> b" "b < h + 2 ^ m" "2 ^ m dvd h" using h(2) parts_okD(2)[OF P h(1)] by (simp_all add: rng_def)
  have ne: "(h, m) \<noteq> (i, k)"
  proof
    assume "(h, m) = (i, k)"
    then show False using hm aligned_inside[of k i b] dv bf(1,5) by simp
  qed
  have "m \<le> k"
  proof (rule ccontr)
    assume "\<not> m \<le> k"
    then have "Suc k \<le> m" by simp
    moreover have "min i b \<le> b" "b < min i b + 2 ^ Suc k" "min i b \<le> i" "i < min i b + 2 ^ Suc k"
      using bf(3) zero_less_power[of "2 :: int" k] unfolding power_Suc by linarith+
    ultimately have "i \<in> rng (h, m)"
      using aligned_nested[OF bf(2) hm(3), of b i] hm(1,2) by (simp add: rng_def)
    moreover have "i \<in> rng (i, k)" using rng_self[of "(i, k)"] by simp
    ultimately show False using parts_ok_disjoint[OF P h(1) X] ne by blast
  qed
  then have "2 ^ m dvd b" using power_le_dvd[OF bf(1)] by simp
  then have "h = b" using aligned_inside[of m h b] hm by simp
  then have "(b, m) \<in> frees fl \<union> U" using h(1) ne by (auto simp: all_blocks_def)
  then show ?thesis using tags_okD[OF T, of b m] t by (auto simp: frees_def)
qed

subsection \<open>Allocation and release\<close>

definition same_geometry :: "pool \<Rightarrow> pool \<Rightarrow> bool" where
  "same_geometry p p' \<longleftrightarrow> min_idx p' = min_idx p \<and> max_idx p' = max_idx p \<and> order p' = order p \<and>
     base p' = base p \<and> offset p' = offset p"

text \<open>The order and the tag of the block that is split are those of the request.\<close>

lemma split_down_spec:
  assumes "pool_inv p fl U {(i, lo + k)}" "\<And>j. lo \<le> j \<Longrightarrow> j < lo + k \<Longrightarrow> fl j = []"
  shows "pool_inv (split_down k lo i p) (\<lambda>j. if lo \<le> j \<and> j < lo + k then [i + 2 ^ j] else fl j) U {(i, lo)} \<and>
     same_geometry p (split_down k lo i p) \<and> tags (split_down k lo i p) i = tags p i \<and> ords (split_down k lo i p) i = ords p i"
  using assms
proof (induction k arbitrary: p fl)
  case 0
  moreover have "(\<lambda>j. if lo \<le> j \<and> j < lo + 0 then [i + 2 ^ j] else fl j) = fl" by (auto simp: fun_eq_iff)
  ultimately show ?case by (simp add: same_geometry_def)
next
  case (Suc k)
  have inv: "pool_inv p fl U {(i, Suc (lo + k))}" using Suc.prems(1) by simp
  note L = pool_invD(1)[OF inv] and P = pool_invD(2)[OF inv] and T = pool_invD(3)[OF inv] and C = pool_invD(4)[OF inv]
    and D = pool_invD(5)[OF inv]
  let ?j = "lo + k" let ?b = "i + 2 ^ ?j" let ?fl = "fl(?j := [?b])"
  define l where "l = set_next (Hd ?j) (Some (Bl ?b)) (set_prev (Hd ?j) (Some (Bl ?b))
    (set_next (Bl ?b) (Some (Hd ?j)) (set_prev (Bl ?b) (Some (Hd ?j)) (blinks p))))"
  define p' where "p' = p\<lparr>blinks := l, ords := (ords p)(?b := ?j), tags := (tags p)(?b := Free)\<rparr>"
  have e: "fl ?j = []" using Suc.prems(2) by simp
  have X: "(i, Suc ?j) \<in> all_blocks fl U {(i, Suc ?j)}" by (simp add: all_blocks_def)
  have j: "Suc ?j < order p" "2 ^ Suc ?j dvd i" using parts_okD(1,2)[OF P, of i "Suc ?j"] X by simp_all
  have inside: "?b \<in> rng (i, Suc ?j)" by (simp add: rng_def)
  have nb: "?b \<notin> set (fl m)" "(?b, m) \<notin> U" for m
  proof -
    have "(?b, m) \<notin> frees fl \<union> U"
    proof
      assume m: "(?b, m) \<in> frees fl \<union> U"
      then have "(?b, m) \<in> all_blocks fl U {(i, Suc ?j)}" by (auto simp: all_blocks_def)
      from parts_ok_disjoint[OF P this X _ inside] have "(?b, m) = (i, Suc ?j)" using rng_self[of "(?b, m)"] by simp
      then show False by simp
    qed
    then show "?b \<notin> set (fl m)" "(?b, m) \<notin> U" by (simp_all add: frees_def)
  qed
  have "lists_ok p' ?fl"
    by (rule lists_ok_update[OF L, where l = l and ys = "[?b]"]) (use j nb in \<open>auto simp: p'_def l_def ring_def\<close>)
  moreover have "all_blocks ?fl U {(i, ?j)} = insert (i, ?j) (insert (?b, ?j) (frees fl \<union> U))"
    using e by (auto simp: all_blocks_def frees_def split: if_splits)
  moreover have "all_blocks fl U {(i, Suc ?j)} = insert (i, Suc ?j) (frees fl \<union> U)" by (auto simp: all_blocks_def)
  then have "parts_ok p (insert (i, ?j) (insert (?b, ?j) (frees fl \<union> U)))" using P D by (intro parts_split) auto
  moreover have "tags_ok p' ?fl U"
    using T nb e unfolding tags_ok_def frees_def by (auto simp: p'_def split: if_splits)
  moreover have "coalesced p' ?fl"
  proof -
    have "2 ^ ?j dvd i" using j(2) by (rule power_le_dvd) simp
    then have "?b XOR 2 ^ ?j \<noteq> ?b" by (intro buddy_facts(5)) simp
    then show ?thesis using C by (auto simp: coalesced_def p'_def)
  qed
  moreover have "(i, ?j) \<notin> frees ?fl \<union> U"
  proof
    assume "(i, ?j) \<in> frees ?fl \<union> U"
    then have "(i, ?j) \<in> U" using e by (auto simp: frees_def split: if_splits)
    then show False using in_transit_not_free(2)[OF inv, of i "Suc ?j" ?j] by simp
  qed
  ultimately have inv': "pool_inv p' ?fl U {(i, ?j)}"
    using parts_ok_cong[of p' p] unfolding pool_inv_def by (simp add: p'_def)
  have "split_down (Suc k) lo i p = split_down k lo i p'" by (simp add: Let_def p'_def l_def)
  moreover have "(\<lambda>m. if lo \<le> m \<and> m < lo + k then [i + 2 ^ m] else ?fl m) =
      (\<lambda>m. if lo \<le> m \<and> m < lo + Suc k then [i + 2 ^ m] else fl m)"
    by (auto simp: fun_eq_iff)
  moreover have "tags p' i = tags p i" "ords p' i = ords p i" "same_geometry p p'" by (simp_all add: p'_def same_geometry_def)
  ultimately show ?case using Suc.IH[OF inv'] Suc.prems(2) by (auto simp: same_geometry_def)
qed

text \<open>
  The geometry of a pool: the base is aligned to the largest block and the pages of the pool do
  not wrap around the address space.
\<close>

definition geometry_ok :: "pool \<Rightarrow> bool" where
  "geometry_ok p \<longleftrightarrow> order p + PAGE_BITS \<le> 64 \<and> 2 ^ (order p + 11) dvd uint (base p - offset p) \<and>
     2 ^ PAGE_BITS dvd uint (base p) \<and> - (2 ^ 51) \<le> min_idx p \<and> max_idx p \<le> 2 ^ 51 \<and>
     0 \<le> uint (base p) + min_idx p * 2 ^ 12 \<and> uint (base p) + max_idx p * 2 ^ 12 \<le> 2 ^ 64"

lemma geometry_same: "same_geometry p p' \<Longrightarrow> geometry_ok p' = geometry_ok p"
  by (simp add: same_geometry_def geometry_ok_def)

lemma index_to_page_uint:
  assumes "0 \<le> uint (base p) + i * 2 ^ 12" "uint (base p) + i * 2 ^ 12 < 2 ^ 64"
  shows "uint (index_to_page p i) = uint (base p) + i * 2 ^ 12"
proof -
  have "uint (word_of_int (uint (base p) + i * 2 ^ 12) :: mword) = uint (base p) + i * 2 ^ 12"
    using assms by (simp only: uint_word_of_int) simp
  moreover have "index_to_page p i = word_of_int (uint (base p) + i * 2 ^ 12)"
    by (simp add: index_to_page_def PAGE_SIZE_def)
  ultimately show ?thesis by simp
qed

lemma page_index_roundtrip:
  assumes "geometry_ok p" "min_idx p \<le> i" "i < max_idx p"
  shows "page_to_index p (index_to_page p i) = i"
proof -
  have b: "2 ^ 12 dvd uint (base p)" and r: "- (2 ^ 51) \<le> i" "i < 2 ^ 51"
    using assms by (simp_all add: geometry_ok_def PAGE_BITS_def)
  have "(uint (base p) + i * 2 ^ 12) div 2 ^ 12 = uint (base p) div 2 ^ 12 + i" by simp
  then have "uint (index_to_page p i div PAGE_SIZE) = uint (base p div PAGE_SIZE) + i"
    using index_to_page_uint[of p i] assms by (simp add: geometry_ok_def add: PAGE_SIZE_def uint_div)
  then have "index_to_page p i div PAGE_SIZE = base p div PAGE_SIZE + word_of_int i"
    by (metis word_of_int_uint of_int_add)
  then have "page_to_index p (index_to_page p i) = sint (word_of_int i :: mword)" by (simp add: page_to_index_def)
  also have "\<dots> = i" using r by (simp add: sint_sbintrunc' signed_take_bit_int_eq_self)
  finally show ?thesis .
qed

lemma block_aligned:
  assumes g: "geometry_ok p" and k: "k < order p" "2 ^ k dvd i"
  shows "order_aligned p (index_to_page p i) k"
proof -
  obtain c where c: "uint (base p - offset p) = 2 ^ (order p + 11) * c" using g by (auto simp: geometry_ok_def)
  obtain d where d: "i = 2 ^ k * d" using k(2) by (rule dvdE)
  have kk: "k + 12 \<le> order p + 11" "k + 12 < 64" using k(1) g by (simp_all add: geometry_ok_def PAGE_BITS_def)
  have "2 ^ (k + 12) dvd (2 ^ (order p + 11) :: int)" using kk(1) by (rule le_imp_power_dvd)
  then obtain e where "(2 ^ (order p + 11) :: int) = 2 ^ (k + 12) * e" by (rule dvdE)
  then have "uint (base p - offset p) = 2 ^ (k + 12) * (e * c)" by (simp add: c)
  then have "base p - offset p = word_of_int (2 ^ (k + 12) * (e * c))" by (metis word_of_int_uint)
  then have "virt_to_phys p (index_to_page p i) = word_of_int (2 ^ (k + 12) * (e * c)) + word_of_int (i * 2 ^ 12)"
    by (simp add: virt_to_phys_def index_to_page_def PAGE_SIZE_def algebra_simps)
  also have "\<dots> = word_of_int (2 ^ (k + 12) * (e * c + d))" by (simp add: d power_add algebra_simps)
  finally have "virt_to_phys p (index_to_page p i) = push_bit (k + 12) (word_of_int (e * c + d))"
    by (simp add: push_bit_eq_mult mult.commute)
  then have "take_bit (k + 12) (virt_to_phys p (index_to_page p i)) = 0" by (simp add: take_bit_push_bit)
  moreover have "push_bit (k + 12) 1 - 1 = (mask (k + 12) :: mword)" by (simp add: mask_eq_exp_minus_1)
  ultimately show ?thesis by (simp add: order_aligned_def PAGE_BITS_def flip: take_bit_eq_mask)
qed

lemma used_to_transit:
  assumes "pool_inv p fl U {}" "(i, k) \<in> U"
  shows "pool_inv p fl (U - {(i, k)}) {(i, k)}"
proof -
  have "all_blocks fl (U - {(i, k)}) {(i, k)} = all_blocks fl U {}" using assms(2) by (auto simp: all_blocks_def)
  moreover have "(i, k) \<notin> frees fl" using tags_okD[OF pool_invD(3)[OF assms(1)], of i k] assms(2) by (auto simp: frees_def)
  ultimately show ?thesis using assms(1) by (auto simp: pool_inv_def tags_ok_def)
qed

lemma transit_to_used:
  assumes "pool_inv p fl U {(i, k)}" "tags p i = Used" "ords p i = k"
  shows "pool_inv p fl (insert (i, k) U) {}"
proof -
  have "all_blocks fl (insert (i, k) U) {} = all_blocks fl U {(i, k)}" by (auto simp: all_blocks_def)
  then show ?thesis using assms by (auto simp: pool_inv_def tags_ok_def)
qed

lemma transit_retag:
  assumes "pool_inv p fl U {(i, k)}"
  shows "pool_inv (p\<lparr>ords := (ords p)(i := m), tags := (tags p)(i := t)\<rparr>) fl U {(i, k)}"
proof -
  let ?p = "p\<lparr>ords := (ords p)(i := m), tags := (tags p)(i := t)\<rparr>"
  have "tags_ok ?p fl U" by (rule tags_ok_transit[OF assms, of i k]) simp_all
  then show ?thesis using assms parts_ok_cong[of ?p p] by (simp add: pool_inv_def lists_ok_def coalesced_def)
qed

lemma head_links:
  assumes "lists_ok p fl" "k < order p"
  shows "lnext (blinks p) (Hd k) = Some (case fl k of [] \<Rightarrow> Hd k | i # _ \<Rightarrow> Bl i)"
proof -
  have "ring (blinks p) (Hd k # map Bl (fl k))" using assms by (simp add: lists_ok_def)
  from ring_next_prev(1)[OF this] show ?thesis by (cases "fl k") auto
qed

lemma find_free:
  assumes L: "lists_ok p fl"
  shows "find (\<lambda>j. lnext (blinks p) (Hd j) \<noteq> Some (Hd j)) [lo..<order p] = find (\<lambda>j. fl j \<noteq> []) [lo..<order p]"
proof (rule find_cong[OF refl])
  fix j assume "j \<in> set [lo..<order p]"
  then show "(lnext (blinks p) (Hd j) \<noteq> Some (Hd j)) = (fl j \<noteq> [])" by (simp add: head_links[OF L] split: list.split)
qed

lemma pool_alloc_spec:
  assumes inv: "pool_inv p fl U {}" and g: "geometry_ok p"
  shows "if \<forall>j. lo \<le> j \<longrightarrow> fl j = [] then pool_alloc lo f p q m = Inr (None, p, q, m)
         else \<exists>i p' fl' j. pool_alloc lo f p q m = Inr (Some (index_to_page p i), p', quota_alloc q (push_bit lo 1),
             if f = NOFILL then m
             else memset m (index_to_page p i) (if f = FILL_0 then 0 else - 1) (push_bit (lo + PAGE_BITS) 1)) \<and>
           pool_inv p' fl' (insert (i, lo) U) {} \<and> same_geometry p p' \<and> lo \<le> j \<and> i \<in> set (fl j) \<and> lo < order p"
proof (cases "find (\<lambda>j. fl j \<noteq> []) [lo..<order p]")
  case None
  then have "fl j = []" if "lo \<le> j" for j
    using that pool_invD(1)[OF inv] by (cases "j < order p") (auto simp: find_None_iff lists_ok_def)
  then show ?thesis using None by (simp add: pool_alloc_def find_free[OF pool_invD(1)[OF inv]])
next
  case (Some j)
  then obtain n where n: "n < order p - lo" "j = lo + n" "fl j \<noteq> []" "\<And>h. h < n \<Longrightarrow> fl (lo + h) = []"
    by (auto simp: find_Some_iff)
  obtain i "is" where i: "fl j = i # is" using n(3) by (cases "fl j") auto
  have j: "j < order p" "lo < order p" using n(1,2) by simp_all
  have d: "i \<notin> set is"
    using pool_invD(1)[OF inv] j(1) i ring_distinct[of "blinks p" "Hd j # map Bl (fl j)"] by (auto simp: lists_ok_def)
  obtain l where l: "unlink (Bl i) (blinks p) = Inr l" "pool_inv (p\<lparr>blinks := l\<rparr>) (fl(j := is)) U {(i, j)}"
    using take_free[OF inv, of i j] i d by auto
  define p1 where "p1 = (p\<lparr>blinks := l\<rparr>)\<lparr>ords := (ords p)(i := lo), tags := (tags p)(i := Used)\<rparr>"
  have inv1: "pool_inv p1 (fl(j := is)) U {(i, lo + n)}"
    using transit_retag[OF l(2), where m = lo and t = Used] n(2) by (simp add: p1_def)
  define p2 where "p2 = split_down n lo i p1"
  define fl2 where "fl2 = (\<lambda>h. if lo \<le> h \<and> h < lo + n then [i + 2 ^ h] else (fl(j := is)) h)"
  have e: "(fl(j := is)) h = []" if "lo \<le> h" "h < lo + n" for h using that n(2) n(4)[of "h - lo"] by simp
  have s2: "pool_inv p2 fl2 U {(i, lo)}" "same_geometry p1 p2" "tags p2 i = Used" "ords p2 i = lo"
    using split_down_spec[OF inv1 e] by (simp_all add: p2_def fl2_def p1_def)
  have inv2: "pool_inv p2 fl2 (insert (i, lo) U) {}" by (rule transit_to_used[OF s2(1,3,4)])
  have geo: "same_geometry p p2" using s2(2) by (simp add: same_geometry_def p1_def)
  have ip: "index_to_page p2 i = index_to_page p i" using geo by (simp add: index_to_page_def same_geometry_def)
  have "2 ^ lo dvd i" using parts_okD(2)[OF pool_invD(2)[OF s2(1)], of i lo] by (simp add: all_blocks_def)
  then have al: "order_aligned p2 (index_to_page p i) lo"
    using block_aligned[of p2 lo i] geometry_same[OF geo] g j(2) geo ip by (simp add: same_geometry_def)
  have "pool_alloc lo f p q m = Inr (Some (index_to_page p i), p2, quota_alloc q (push_bit lo 1),
      if f = NOFILL then m else memset m (index_to_page p i) (if f = FILL_0 then 0 else - 1) (push_bit (lo + PAGE_BITS) 1))"
    using Some l(1) al n(2) i head_links[OF pool_invD(1)[OF inv] j(1)]
    by (simp add: pool_alloc_def find_free[OF pool_invD(1)[OF inv]] Let_def ip s2(4) flip: p1_def p2_def)
  moreover have "lo \<le> j" "i \<in> set (fl j)" using n(2) i by auto
  moreover have ne: "\<not> (\<forall>j. lo \<le> j \<longrightarrow> fl j = [])" using n(2,3) by (metis le_add1)
  ultimately show ?thesis unfolding if_not_P[OF ne] using inv2 geo j(2)
    by (intro exI[of _ i] exI[of _ p2] exI[of _ fl2] exI[of _ j]) blast
qed

lemma merge_up_spec:
  assumes "pool_inv p fl U {(i, k)}" "n = order p - 1 - k"
  shows "\<exists>k' i' p' fl'. merge_up n k i p = Inr (k', i', p') \<and> pool_inv p' fl' U {(i', k')} \<and> same_geometry p p' \<and>
     (Suc k' < order p \<longrightarrow> i' XOR 2 ^ k' \<notin> set (fl' k')) \<and> tags p' = tags p \<and> ords p' = ords p"
  using assms
proof (induction n arbitrary: p fl i k)
  case 0
  have "k < order p" using parts_okD(1)[OF pool_invD(2)[OF 0(1)], of i k] by (simp add: all_blocks_def)
  then show ?case using 0 by (auto simp: same_geometry_def)
next
  case (Suc n)
  note inv = Suc.prems(1)
  let ?b = "i XOR 2 ^ k"
  have k: "Suc k < order p" using Suc.prems(2) by simp
  have dv: "2 ^ k dvd i" using parts_okD(2)[OF pool_invD(2)[OF inv], of i k] by (simp add: all_blocks_def)
  show ?case
  proof (cases "?b \<in> set (fl k)")
    case True
    have B: "(?b, k) \<in> all_blocks fl U {(i, k)}" using True by (simp add: all_blocks_def frees_def)
    note bf = parts_okD[OF pool_invD(2)[OF inv] B]
    have in_range: "?b < max_idx p" using bf(4) zero_less_power[of "2 :: int" k] by linarith
    have t: "tags p ?b = Free" "ords p ?b = k" using tags_okD(1)[OF pool_invD(3)[OF inv] True] by simp_all
    obtain l where l: "unlink (Bl ?b) (blinks p) = Inr l"
      "pool_inv (p\<lparr>blinks := l\<rparr>) (fl(k := remove1 ?b (fl k))) U {(?b, k), (i, k)}"
      using take_free[OF inv True] by auto
    let ?p = "p\<lparr>blinks := l\<rparr>" let ?fl = "fl(k := remove1 ?b (fl k))" let ?m = "min i ?b"
    note P = pool_invD(2)[OF l(2)] and D = pool_invD(5)[OF l(2)]
    have "all_blocks ?fl U {(?b, k), (i, k)} = insert (i, k) (insert (?b, k) (frees ?fl \<union> U))" by (auto simp: all_blocks_def)
    then have pm: "parts_ok ?p (insert (?m, Suc k) (frees ?fl \<union> U))"
      using P D k by (intro parts_merge) auto
    have nm: "(?m, Suc k) \<notin> frees ?fl \<union> U"
    proof
      assume m: "(?m, Suc k) \<in> frees ?fl \<union> U"
      have "?m = i \<or> ?m = ?b" by (simp add: min_def)
      then show False using m in_transit_not_free[OF l(2), of _ k "Suc k"] by (auto simp: frees_def)
    qed
    have inv': "pool_inv ?p ?fl U {(?m, Suc k)}"
      using l(2) pm nm unfolding pool_inv_def by (simp add: all_blocks_def)
    have "merge_up (Suc n) k i p = merge_up n (Suc k) ?m ?p"
      using bf(3) in_range t l(1) by (simp add: Let_def min_def less_le_not_le)
    then show ?thesis using Suc.IH[OF inv'] Suc.prems(2) by (fastforce simp: same_geometry_def)
  next
    case False
    have "merge_up (Suc n) k i p = Inr (k, i, p)"
    proof (rule ccontr)
      assume "merge_up (Suc n) k i p \<noteq> Inr (k, i, p)"
      then have "min_idx p \<le> ?b" "?b < max_idx p" "tags p ?b = Free" "ords p ?b = k"
        by (cases "tags p ?b"; auto simp: Let_def split: if_splits)+
      then show False using buddy_listed[OF inv refl] False by simp
    qed
    then show ?thesis using inv False by (auto simp: same_geometry_def)
  qed
qed

lemma pool_free_spec:
  assumes inv: "pool_inv p fl U {}" and g: "geometry_ok p" and u: "(i, k) \<in> U"
  shows "\<exists>p' fl'. pool_free (index_to_page p i) p q = Inr (p', quota_free q (push_bit k 1)) \<and>
     pool_inv p' fl' (U - {(i, k)}) {} \<and> same_geometry p p'"
proof -
  have B: "(i, k) \<in> all_blocks fl U {}" using u by (simp add: all_blocks_def)
  note b = parts_okD[OF pool_invD(2)[OF inv] B]
  have r: "i < max_idx p" using b(4) zero_less_power[of "2 :: int" k] by linarith
  have t: "tags p i = Used" "ords p i = k" using tags_okD(2)[OF pool_invD(3)[OF inv] u] by simp_all
  have ix: "page_to_index p (index_to_page p i) = i" by (rule page_index_roundtrip[OF g b(3) r])
  have al: "order_aligned p (index_to_page p i) k" by (rule block_aligned[OF g b(1,2)])
  obtain k' i' p1 fl1 where m: "merge_up (order p - 1 - k) k i p = Inr (k', i', p1)"
    "pool_inv p1 fl1 (U - {(i, k)}) {(i', k')}" "same_geometry p p1"
    "Suc k' < order p \<longrightarrow> i' XOR 2 ^ k' \<notin> set (fl1 k')"
    using merge_up_spec[OF used_to_transit[OF inv u] refl] by blast
  obtain p2 where p2: "push_front k' i' p1 = Inr p2" "pool_inv p2 (fl1(k' := i' # fl1 k')) (U - {(i, k)}) {}"
    "same_geometry p1 p2"
    using put_free[OF m(2)] m(3,4) by (auto simp: same_geometry_def)
  have "pool_free (index_to_page p i) p q = Inr (p2, quota_free q (push_bit k 1))"
    using b(3) r t ix al m(1) p2(1) by (simp add: pool_free_def Let_def)
  then show ?thesis using p2(2,3) m(3) by (auto simp: same_geometry_def)
qed

subsection \<open>A pool after construction\<close>

text \<open>Before the pages are released, all of them are used blocks of order 0.\<close>

definition pages :: "int \<Rightarrow> int \<Rightarrow> (int \<times> nat) set" where
  "pages a e = {(i, 0) | i. a \<le> i \<and> i < e}"

lemma fresh_pool_inv:
  assumes "0 < order p" "\<And>i. tags p i = Used" "\<And>i. ords p i = 0"
    and "\<And>k. k < order p \<Longrightarrow> lnext (blinks p) (Hd k) = Some (Hd k) \<and> lprev (blinks p) (Hd k) = Some (Hd k)"
  shows "pool_inv p (\<lambda>_. []) (pages (min_idx p) (max_idx p)) {}"
proof -
  have "frees (\<lambda>_. []) = {}" by (simp add: frees_def)
  moreover have "parts_ok p (pages (min_idx p) (max_idx p))"
    using assms(1) unfolding parts_ok_def pages_def fits_def rng_def by auto
  ultimately show ?thesis
    using assms(2-4) by (auto simp: pool_inv_def all_blocks_def lists_ok_def tags_ok_def coalesced_def pages_def)
qed

lemma init_free_spec:
  assumes "pool_inv p fl (U \<union> pages a e) {}" "U \<inter> pages a e = {}" "geometry_ok p" "min_idx p \<le> a" "a \<le> e" "e = max_idx p"
    and "uint (base p) + e * 2 ^ 12 < 2 ^ 64" "nat (e - a) \<le> n"
  shows "\<exists>p' fl' q'. init_free n (index_to_page p a) (index_to_page p e) p q = Inr (p', q') \<and>
     pool_inv p' fl' U {} \<and> same_geometry p p'"
  using assms
proof (induction n arbitrary: a p fl q)
  case 0
  then have "a = e" by simp
  moreover have "pages e e = {}" by (auto simp: pages_def)
  ultimately show ?case using "0.prems"(1) by (auto simp: same_geometry_def)
next
  case (Suc n)
  show ?case
  proof (cases "a = e")
    case True
    moreover have "pages e e = {}" by (auto simp: pages_def)
    ultimately show ?thesis using Suc.prems(1) by (auto simp: same_geometry_def)
  next
    case False
    then have ae: "a < e" using Suc.prems(5) by simp
    have b0: "0 \<le> uint (base p) + min_idx p * 2 ^ 12" using Suc.prems(3) by (simp add: geometry_ok_def)
    have bounds: "0 \<le> uint (base p) + a * 2 ^ 12" "uint (base p) + a * 2 ^ 12 < 2 ^ 64" "0 \<le> uint (base p) + e * 2 ^ 12"
      using b0 ae Suc.prems(4,7) by simp_all
    note ua = index_to_page_uint[OF bounds(1,2)] index_to_page_uint[OF bounds(3) Suc.prems(7)]
    then have lt: "index_to_page p a < index_to_page p e" using ae by (simp add: word_less_def)
    have pg: "pages a e = insert (a, 0) (pages (a + 1) e)" using ae by (auto simp: pages_def)
    then have ain: "(a, 0) \<in> U \<union> pages a e" by simp
    obtain p1 fl1 where p1: "pool_free (index_to_page p a) p q = Inr (p1, quota_free q (push_bit 0 1))"
      "pool_inv p1 fl1 (U \<union> pages a e - {(a, 0)}) {}" "same_geometry p p1"
      using pool_free_spec[OF Suc.prems(1,3) ain] by blast
    have "(a, 0) \<notin> U" "(a, 0) \<notin> pages (a + 1) e" using Suc.prems(2) pg by (auto simp: pages_def)
    then have U: "U \<union> pages a e - {(a, 0)} = U \<union> pages (a + 1) e" using pg by auto
    have ix: "index_to_page p1 x = index_to_page p x" for x using p1(3) by (simp add: index_to_page_def same_geometry_def)
    have nxt: "index_to_page p a + PAGE_SIZE = index_to_page p (a + 1)" by (simp add: index_to_page_def algebra_simps)
    have "\<exists>p' fl' q'. init_free n (index_to_page p1 (a + 1)) (index_to_page p1 e) p1 (quota_free q (push_bit 0 1)) = Inr (p', q') \<and>
      pool_inv p' fl' U {} \<and> same_geometry p1 p'"
      by (rule Suc.IH[OF p1(2)[unfolded U]])
        (use Suc.prems ae p1(3) geometry_same[OF p1(3)] pg in \<open>auto simp: same_geometry_def\<close>)
    then show ?thesis using lt p1(1,3) by (auto simp: ix nxt same_geometry_def)
  qed
qed

subsection \<open>Properties\<close>

text \<open>C8: buddy_alloc_exclusive. In a pool whose pages are partitioned into free and used blocks, an
  allocation never fails an assertion: it answers null exactly when no block of the order
  or above is free, and otherwise returns the address of a block of \<open>2 ^ lo\<close> pages that
  no used block overlaps, charges the quota with its pages, fills exactly its bytes if asked to,
  and leaves a partition in which the block is used.\<close>
theorem buddy_alloc_exclusive:
  assumes "pool_inv p fl U {}" "geometry_ok p"
  shows "if \<forall>j. lo \<le> j \<longrightarrow> fl j = [] then pool_alloc lo f p q m = Inr (None, p, q, m)
         else \<exists>i p' fl'. pool_alloc lo f p q m = Inr (Some (index_to_page p i), p', quota_alloc q (push_bit lo 1),
             if f = NOFILL then m
             else memset m (index_to_page p i) (if f = FILL_0 then 0 else - 1) (push_bit (lo + PAGE_BITS) 1)) \<and>
           pool_inv p' fl' (insert (i, lo) U) {} \<and> same_geometry p p' \<and> (\<forall>b\<in>U. rng b \<inter> rng (i, lo) = {})"
proof (cases "\<forall>j. lo \<le> j \<longrightarrow> fl j = []")
  case False
  obtain i p' fl' j where a: "pool_alloc lo f p q m = Inr (Some (index_to_page p i), p', quota_alloc q (push_bit lo 1),
       if f = NOFILL then m
       else memset m (index_to_page p i) (if f = FILL_0 then 0 else - 1) (push_bit (lo + PAGE_BITS) 1))"
    "pool_inv p' fl' (insert (i, lo) U) {}" "same_geometry p p'" "i \<in> set (fl j)"
    using pool_alloc_spec[OF assms, of lo f q m, unfolded if_not_P[OF False]] by blast
  have "rng b \<inter> rng (i, lo) = {}" if "b \<in> U" for b
  proof (rule parts_ok_rng[OF pool_invD(2)[OF a(2)]])
    have "fst b \<noteq> i"
      using tags_okD(2)[OF pool_invD(3)[OF assms(1)], of "fst b" "snd b"] that
        tags_okD(1)[OF pool_invD(3)[OF assms(1)] a(4)] by auto
    then show "b \<noteq> (i, lo)" by auto
  qed (use that in \<open>simp_all add: all_blocks_def\<close>)
  with a show ?thesis unfolding if_not_P[OF False] by blast
qed (use pool_alloc_spec[OF assms, of lo f q m] in simp)

text \<open>C9: buddy_free_coalesces. Releasing a used block by its address never fails an assertion: the
  pages of the block become free, the quota gets them back, all other used blocks stay, and the
  free blocks are merged so far that no two buddies are both free.\<close>
theorem buddy_free_coalesces:
  assumes "pool_inv p fl U {}" "geometry_ok p" "(i, k) \<in> U"
  shows "\<exists>p' fl'. pool_free (index_to_page p i) p q = Inr (p', quota_free q (push_bit k 1)) \<and>
     pool_inv p' fl' (U - {(i, k)}) {} \<and> coalesced p' fl' \<and> same_geometry p p'"
  using pool_free_spec[OF assms, of q] pool_invD(4) by blast

text \<open>C33: buddy_init_partition. When the descriptors are zero, the loop of the constructor ends after one
  round per page and leaves the pages before the first free address used and all pages from there
  on free.\<close>
theorem buddy_init_partition:
  assumes "0 < order p" "\<forall>i. tags p i = Used \<and> ords p i = 0"
    and "\<forall>k < order p. lnext (blinks p) (Hd k) = Some (Hd k) \<and> lprev (blinks p) (Hd k) = Some (Hd k)"
    and "geometry_ok p" "min_idx p \<le> a" "a \<le> max_idx p" "uint (base p) + max_idx p * 2 ^ 12 < 2 ^ 64"
    and "nat (max_idx p - a) \<le> n"
  shows "\<exists>p' fl' q'. init_free n (index_to_page p a) (index_to_page p (max_idx p)) p q = Inr (p', q') \<and>
     pool_inv p' fl' (pages (min_idx p) a) {} \<and> same_geometry p p'"
proof (rule init_free_spec[OF _ _ assms(4,5,6) refl assms(7,8)])
  have "pages (min_idx p) a \<union> pages a (max_idx p) = pages (min_idx p) (max_idx p)"
    using assms(5,6) by (auto simp: pages_def)
  then show "pool_inv p (\<lambda>_. []) (pages (min_idx p) a \<union> pages a (max_idx p)) {}"
    using fresh_pool_inv[of p] assms(1-3) by simp
qed (auto simp: pages_def)

subsection \<open>A concrete pool\<close>

text \<open>Four pages at 1 MB with blocks of up to four pages, none free yet.\<close>

definition ex_pool :: pool where
  "ex_pool = \<lparr>min_idx = 0, max_idx = 4, base = 0x100000, order = 3, tags = (\<lambda>_. Used), ords = (\<lambda>_. 0),
     blinks = \<lparr>lnext = (\<lambda>x. Some x), lprev = (\<lambda>x. Some x)\<rparr>, offset = 0\<rparr>"

lemma ex_geometry: "geometry_ok ex_pool"
  by (simp add: geometry_ok_def ex_pool_def PAGE_BITS_def)

lemma ex_pool_inv: "pool_inv ex_pool (\<lambda>_. []) (pages 0 4) {}"
  using fresh_pool_inv[of ex_pool] by (simp add: ex_pool_def)

theorem buddy_init_partition_witness:
  "\<exists>p' fl' q'. init_free 3 (index_to_page ex_pool 1) (index_to_page ex_pool 4) ex_pool Quota_new = Inr (p', q') \<and>
     pool_inv p' fl' {(0, 0)} {}"
proof -
  have "pages 0 1 = {(0, 0)}" by (auto simp: pages_def)
  then show ?thesis
    using buddy_init_partition[of ex_pool 1 3 Quota_new] ex_geometry by (fastforce simp: ex_pool_def)
qed

theorem buddy_free_coalesces_witness:
  "\<exists>p' fl'. pool_free (index_to_page ex_pool 2) ex_pool Quota_new = Inr (p', quota_free Quota_new 1) \<and>
     pool_inv p' fl' (pages 0 4 - {(2, 0)}) {}"
  using buddy_free_coalesces[OF ex_pool_inv ex_geometry, of 2 0 Quota_new] by (auto simp: pages_def)

theorem buddy_alloc_exclusive_witness:
  "\<exists>p1 i p2 fl m. pool_free (index_to_page ex_pool 2) ex_pool Quota_new = Inr (p1, quota_free Quota_new 1) \<and>
     pool_alloc 0 FILL_0 p1 Quota_new (\<lambda>_. 1) = Inr (Some (index_to_page p1 i), p2, quota_alloc Quota_new 1, m) \<and>
     pool_inv p2 fl (insert (i, 0) (pages 0 4 - {(2, 0)})) {}"
proof -
  have "(2, 0) \<in> pages 0 4" by (simp add: pages_def)
  then obtain p1 fl1 where p1: "pool_free (index_to_page ex_pool 2) ex_pool Quota_new = Inr (p1, quota_free Quota_new (push_bit 0 1))"
    "pool_inv p1 fl1 (pages 0 4 - {(2, 0)}) {}" "same_geometry ex_pool p1"
    using pool_free_spec[OF ex_pool_inv ex_geometry] by blast
  have g: "geometry_ok p1" using geometry_same[OF p1(3)] ex_geometry by simp
  have "2 \<in> {min_idx p1..<max_idx p1}" using p1(3) by (simp add: same_geometry_def ex_pool_def)
  then obtain b where b: "b \<in> all_blocks fl1 (pages 0 4 - {(2, 0)}) {}" "2 \<in> rng b"
    using pool_invD(2)[OF p1(2)] unfolding parts_ok_def by blast
  then have "b \<in> frees fl1" by (auto simp: all_blocks_def pages_def rng_def)
  then have "\<not> (\<forall>j. 0 \<le> j \<longrightarrow> fl1 j = [])" by (force simp: frees_def)
  from buddy_alloc_exclusive[OF p1(2) g, of 0 FILL_0 Quota_new "\<lambda>_. 1", unfolded if_not_P[OF this]] p1(1)
  show ?thesis by auto
qed

end
