(* ===== verification/Sys_args.thy ===== *)
theory Sys_args
  imports Crd
begin

text \<open>
  The register interface of system calls, \<open>Sys_regs\<close> of \<open>include/regs.hpp\<close> and
  the classes of \<open>include/syscall.hpp\<close>: five argument registers, of which the first
  holds the number of the call, four flag bits and a selector, and the status that a call
  returns in the same register. Every accessor is the expression of the source.
\<close>

record sys_regs =
  arg1 :: mword
  arg2 :: mword
  arg3 :: mword
  arg4 :: mword
  arg5 :: mword
  arg_ip :: mword
  arg_sp :: mword

datatype status = SUCCESS | COM_TIM | COM_ABT | BAD_HYP | BAD_CAP | BAD_PAR | BAD_FTR | BAD_CPU | BAD_DEV | QUO_OOM

fun status_code :: "status \<Rightarrow> mword" where
  "status_code SUCCESS = 0"
| "status_code COM_TIM = 1"
| "status_code COM_ABT = 2"
| "status_code BAD_HYP = 3"
| "status_code BAD_CAP = 4"
| "status_code BAD_PAR = 5"
| "status_code BAD_FTR = 6"
| "status_code BAD_CPU = 7"
| "status_code BAD_DEV = 8"
| "status_code QUO_OOM = 9"

definition flags :: "sys_regs \<Rightarrow> u32" where
  "flags r = ucast (drop_bit 5 (arg1 r) AND 0xf)"

definition status_of :: "sys_regs \<Rightarrow> u8" where
  "status_of r = ucast (arg1 r AND 0xff)"

definition set_status :: "status \<Rightarrow> bool \<Rightarrow> sys_regs \<Rightarrow> sys_regs" where
  "set_status s c r = r\<lparr>arg1 := (if c then status_code s else (arg1 r AND NOT 0xff) OR status_code s)\<rparr>"

definition set_pt :: "mword \<Rightarrow> sys_regs \<Rightarrow> sys_regs" where
  "set_pt pt r = r\<lparr>arg1 := pt\<rparr>"

definition set_pt3 :: "mword \<Rightarrow> mword \<Rightarrow> mword \<Rightarrow> sys_regs \<Rightarrow> sys_regs" where
  "set_pt3 pt pt2 s r = r\<lparr>arg1 := pt, arg2 := pt2, arg3 := s\<rparr>"

definition set_ip :: "mword \<Rightarrow> sys_regs \<Rightarrow> sys_regs" where
  "set_ip ip r = r\<lparr>arg_ip := ip\<rparr>"

definition set_sp :: "mword \<Rightarrow> sys_regs \<Rightarrow> sys_regs" where
  "set_sp sp r = r\<lparr>arg_sp := sp\<rparr>"

subsection \<open>Arguments\<close>

text \<open>\<open>Sys_call\<close>\<close>

definition call_pt :: "sys_regs \<Rightarrow> mword" where
  "call_pt r = (drop_bit 9 (arg1 r))"


text \<open>\<open>Sys_create_pd\<close>\<close>

definition create_pd_sel :: "sys_regs \<Rightarrow> mword" where
  "create_pd_sel r = (drop_bit 9 (arg1 r))"

definition create_pd_pd :: "sys_regs \<Rightarrow> mword" where
  "create_pd_pd r = (arg2 r)"

definition create_pd_crd :: "sys_regs \<Rightarrow> mword" where
  "create_pd_crd r = (arg3 r)"

definition create_pd_limit_lower :: "sys_regs \<Rightarrow> mword" where
  "create_pd_limit_lower r = (arg4 r AND drop_bit 32 (- 1))"

definition create_pd_limit_upper :: "sys_regs \<Rightarrow> mword" where
  "create_pd_limit_upper r = (drop_bit 32 (arg4 r))"


text \<open>\<open>Sys_create_ec\<close>\<close>

definition create_ec_sel :: "sys_regs \<Rightarrow> mword" where
  "create_ec_sel r = (drop_bit 9 (arg1 r))"

definition create_ec_pd :: "sys_regs \<Rightarrow> mword" where
  "create_ec_pd r = (arg2 r)"

definition create_ec_cpu :: "sys_regs \<Rightarrow> u32" where
  "create_ec_cpu r = (ucast (arg3 r AND 0xfff))"

definition create_ec_utcb :: "sys_regs \<Rightarrow> mword" where
  "create_ec_utcb r = (arg3 r AND NOT 0xfff)"

definition create_ec_esp :: "sys_regs \<Rightarrow> mword" where
  "create_ec_esp r = (arg4 r)"

definition create_ec_evt :: "sys_regs \<Rightarrow> u32" where
  "create_ec_evt r = (ucast (arg5 r))"


text \<open>\<open>Sys_create_sc\<close>\<close>

definition create_sc_sel :: "sys_regs \<Rightarrow> mword" where
  "create_sc_sel r = (drop_bit 9 (arg1 r))"

definition create_sc_pd :: "sys_regs \<Rightarrow> mword" where
  "create_sc_pd r = (arg2 r)"

definition create_sc_ec :: "sys_regs \<Rightarrow> mword" where
  "create_sc_ec r = (arg3 r)"

definition create_sc_qpd :: "sys_regs \<Rightarrow> mword" where
  "create_sc_qpd r = (arg4 r)"


text \<open>\<open>Sys_create_pt\<close>\<close>

definition create_pt_sel :: "sys_regs \<Rightarrow> mword" where
  "create_pt_sel r = (drop_bit 9 (arg1 r))"

definition create_pt_pd :: "sys_regs \<Rightarrow> mword" where
  "create_pt_pd r = (arg2 r)"

definition create_pt_ec :: "sys_regs \<Rightarrow> mword" where
  "create_pt_ec r = (arg3 r)"

definition create_pt_mtd :: "sys_regs \<Rightarrow> mword" where
  "create_pt_mtd r = (arg4 r)"

definition create_pt_eip :: "sys_regs \<Rightarrow> mword" where
  "create_pt_eip r = (arg5 r)"


text \<open>\<open>Sys_create_sm\<close>\<close>

definition create_sm_sel :: "sys_regs \<Rightarrow> mword" where
  "create_sm_sel r = (drop_bit 9 (arg1 r))"

definition create_sm_pd :: "sys_regs \<Rightarrow> mword" where
  "create_sm_pd r = (arg2 r)"

definition create_sm_cnt :: "sys_regs \<Rightarrow> mword" where
  "create_sm_cnt r = (arg3 r)"

definition create_sm_sm :: "sys_regs \<Rightarrow> mword" where
  "create_sm_sm r = (arg4 r)"


text \<open>\<open>Sys_revoke\<close>\<close>

definition revoke_crd :: "sys_regs \<Rightarrow> mword" where
  "revoke_crd r = (arg2 r)"

definition revoke_self :: "sys_regs \<Rightarrow> bool" where
  "revoke_self r = (flags r AND 0x1 \<noteq> 0)"

definition revoke_remote :: "sys_regs \<Rightarrow> bool" where
  "revoke_remote r = (flags r AND 0x2 \<noteq> 0)"

definition revoke_keep :: "sys_regs \<Rightarrow> bool" where
  "revoke_keep r = (flags r AND 0x4 \<noteq> 0)"

definition revoke_pd :: "sys_regs \<Rightarrow> mword" where
  "revoke_pd r = (arg3 r)"

definition revoke_sm :: "sys_regs \<Rightarrow> mword" where
  "revoke_sm r = (drop_bit 9 (arg1 r))"


text \<open>\<open>Sys_misc\<close>\<close>

definition misc_crd :: "sys_regs \<Rightarrow> mword" where
  "misc_crd r = (arg2 r)"

definition misc_pd_snd :: "sys_regs \<Rightarrow> mword" where
  "misc_pd_snd r = (drop_bit 9 (arg1 r))"

definition misc_pd_dst :: "sys_regs \<Rightarrow> mword" where
  "misc_pd_dst r = (arg3 r)"

definition misc_sleep_type_a :: "sys_regs \<Rightarrow> mword" where
  "misc_sleep_type_a r = (arg2 r)"

definition misc_sleep_type_b :: "sys_regs \<Rightarrow> mword" where
  "misc_sleep_type_b r = (arg3 r)"


text \<open>\<open>Sys_reply\<close>\<close>

definition reply_sm :: "sys_regs \<Rightarrow> mword" where
  "reply_sm r = (drop_bit 9 (arg1 r))"

definition reply_sm_kern :: "sys_regs \<Rightarrow> mword" where
  "reply_sm_kern r = (arg1 r)"


text \<open>\<open>Sys_ec_ctrl\<close>\<close>

definition ec_ctrl_ec :: "sys_regs \<Rightarrow> mword" where
  "ec_ctrl_ec r = (drop_bit 9 (arg1 r))"

definition ec_ctrl_cnt :: "sys_regs \<Rightarrow> mword" where
  "ec_ctrl_cnt r = (arg2 r)"

definition ec_ctrl_mtd_value :: "sys_regs \<Rightarrow> mword" where
  "ec_ctrl_mtd_value r = (arg2 r)"

definition ec_ctrl_op :: "sys_regs \<Rightarrow> u32" where
  "ec_ctrl_op r = (flags r AND 0xf)"

definition ec_ctrl_state :: "sys_regs \<Rightarrow> bool" where
  "ec_ctrl_state r = (arg2 r = 1)"

definition ec_ctrl_recall :: "sys_regs \<Rightarrow> bool" where
  "ec_ctrl_recall r = (arg2 r = 1)"

definition ec_ctrl_cpu :: "sys_regs \<Rightarrow> u32" where
  "ec_ctrl_cpu r = (ucast (arg2 r AND 0xfff))"

definition ec_ctrl_crd :: "sys_regs \<Rightarrow> mword" where
  "ec_ctrl_crd r = (arg3 r)"


text \<open>\<open>Sys_sc_ctrl\<close>\<close>

definition sc_ctrl_sc :: "sys_regs \<Rightarrow> mword" where
  "sc_ctrl_sc r = (drop_bit 9 (arg1 r))"

definition sc_ctrl_ec :: "sys_regs \<Rightarrow> mword" where
  "sc_ctrl_ec r = (arg2 r)"

definition sc_ctrl_op :: "sys_regs \<Rightarrow> u32" where
  "sc_ctrl_op r = (flags r AND 0x3)"


text \<open>\<open>Sys_pt_ctrl\<close>\<close>

definition pt_ctrl_pt :: "sys_regs \<Rightarrow> mword" where
  "pt_ctrl_pt r = (drop_bit 9 (arg1 r))"

definition pt_ctrl_id :: "sys_regs \<Rightarrow> mword" where
  "pt_ctrl_id r = (arg2 r)"


text \<open>\<open>Sys_sm_ctrl\<close>\<close>

definition sm_ctrl_sm :: "sys_regs \<Rightarrow> mword" where
  "sm_ctrl_sm r = (drop_bit 9 (arg1 r))"

definition sm_ctrl_op :: "sys_regs \<Rightarrow> u32" where
  "sm_ctrl_op r = (flags r AND 0x1)"

definition sm_ctrl_zc :: "sys_regs \<Rightarrow> u32" where
  "sm_ctrl_zc r = (flags r AND 0x2)"

definition sm_ctrl_time :: "sys_regs \<Rightarrow> u64" where
  "sm_ctrl_time r = (push_bit 32 (arg2 r) OR arg3 r)"


text \<open>\<open>Sys_pd_ctrl\<close>\<close>

definition pd_ctrl_src :: "sys_regs \<Rightarrow> mword" where
  "pd_ctrl_src r = (drop_bit 9 (arg1 r))"

definition pd_ctrl_dbg :: "sys_regs \<Rightarrow> u32" where
  "pd_ctrl_dbg r = (flags r AND 0x2)"

definition pd_ctrl_del :: "sys_regs \<Rightarrow> u32" where
  "pd_ctrl_del r = (flags r AND 0x4)"

definition pd_ctrl_dst :: "sys_regs \<Rightarrow> mword" where
  "pd_ctrl_dst r = (arg2 r)"

definition pd_ctrl_tra :: "sys_regs \<Rightarrow> mword" where
  "pd_ctrl_tra r = (arg3 r)"


text \<open>\<open>Sys_assign_pci\<close>\<close>

definition assign_pci_pd :: "sys_regs \<Rightarrow> mword" where
  "assign_pci_pd r = (drop_bit 9 (arg1 r))"

definition assign_pci_dev :: "sys_regs \<Rightarrow> mword" where
  "assign_pci_dev r = (arg2 r)"

definition assign_pci_hnt :: "sys_regs \<Rightarrow> mword" where
  "assign_pci_hnt r = (arg3 r)"


text \<open>\<open>Sys_assign_gsi\<close>\<close>

definition assign_gsi_sm :: "sys_regs \<Rightarrow> mword" where
  "assign_gsi_sm r = (drop_bit 9 (arg1 r))"

definition assign_gsi_dev :: "sys_regs \<Rightarrow> mword" where
  "assign_gsi_dev r = (arg2 r)"

definition assign_gsi_cpu :: "sys_regs \<Rightarrow> u32" where
  "assign_gsi_cpu r = (ucast (arg3 r))"

definition assign_gsi_si :: "sys_regs \<Rightarrow> mword" where
  "assign_gsi_si r = (arg4 r)"

definition assign_gsi_cfg :: "sys_regs \<Rightarrow> bool" where
  "assign_gsi_cfg r = (flags r AND 4 \<noteq> 0)"

definition assign_gsi_trg :: "sys_regs \<Rightarrow> bool" where
  "assign_gsi_trg r = (flags r AND 2 \<noteq> 0)"

definition assign_gsi_pol :: "sys_regs \<Rightarrow> bool" where
  "assign_gsi_pol r = (flags r AND 1 \<noteq> 0)"


text \<open>\<open>Sys_create_cell\<close>\<close>

definition create_cell_pd :: "sys_regs \<Rightarrow> mword" where
  "create_cell_pd r = (drop_bit 9 (arg1 r))"

definition create_cell_prio :: "sys_regs \<Rightarrow> u16" where
  "create_cell_prio r = (ucast (flags r AND 0xFF))"

definition create_cell_dst :: "sys_regs \<Rightarrow> mword" where
  "create_cell_dst r = (arg2 r)"


text \<open>\<open>Sys_cell_ctrl\<close>\<close>

definition cell_ctrl_op :: "sys_regs \<Rightarrow> u32" where
  "cell_ctrl_op r = (flags r AND 0xf)"

definition cell_ctrl_sel :: "sys_regs \<Rightarrow> mword" where
  "cell_ctrl_sel r = (drop_bit 9 (arg1 r))"

definition cell_ctrl_use_shadow :: "sys_regs \<Rightarrow> bool" where
  "cell_ctrl_use_shadow r = (arg2 r \<noteq> 0)"


text \<open>\<open>Sys_alloc\<close>\<close>

definition alloc_quantity :: "sys_regs \<Rightarrow> u32" where
  "alloc_quantity r = (ucast (drop_bit 9 (arg1 r)))"

definition alloc_type :: "sys_regs \<Rightarrow> mword" where
  "alloc_type r = (ucast (flags r AND 0xf))"


text \<open>\<open>Sys_release\<close>\<close>

definition release_op :: "sys_regs \<Rightarrow> mword" where
  "release_op r = (ucast (flags r AND 0xf))"

definition release_type :: "sys_regs \<Rightarrow> mword" where
  "release_type r = (drop_bit 9 (arg1 r))"


text \<open>\<open>Sys_map_tip\<close>\<close>

definition map_tip_sel :: "sys_regs \<Rightarrow> mword" where
  "map_tip_sel r = (drop_bit 9 (arg1 r))"

subsection \<open>Results\<close>

definition set_time :: "u64 \<Rightarrow> sys_regs \<Rightarrow> sys_regs" where
  "set_time val r = r\<lparr>arg2 := drop_bit 32 val, arg3 := val\<rparr>"

definition set_time2 :: "u64 \<Rightarrow> u64 \<Rightarrow> sys_regs \<Rightarrow> sys_regs" where
  "set_time2 val val2 r = r\<lparr>arg2 := drop_bit 32 val, arg3 := val, arg4 := drop_bit 32 val2, arg5 := val2\<rparr>"

definition revoke_rem :: "mword \<Rightarrow> sys_regs \<Rightarrow> sys_regs" where
  "revoke_rem p r = r\<lparr>arg3 := p\<rparr>"

definition pd_ctrl_dump :: "mword \<Rightarrow> mword \<Rightarrow> sys_regs \<Rightarrow> sys_regs" where
  "pd_ctrl_dump l u r = r\<lparr>arg2 := l, arg3 := u\<rparr>"

definition set_msi :: "u64 \<Rightarrow> sys_regs \<Rightarrow> sys_regs" where
  "set_msi val r = r\<lparr>arg2 := drop_bit 32 val, arg3 := val\<rparr>"

definition create_cell_cip :: "mword \<Rightarrow> sys_regs \<Rightarrow> sys_regs" where
  "create_cell_cip cip_pa r = r\<lparr>arg3 := cip_pa\<rparr>"

subsection \<open>Properties\<close>

text \<open>The first argument register is the selector, the flags and the number of the call.\<close>

lemma arg1_fields: "arg1 r = push_bit 9 (drop_bit 9 (arg1 r)) OR push_bit 5 (ucast (flags r)) OR (arg1 r AND 0x1f)"
proof (rule bit_word_eqI)
  fix n assume n: "n < LENGTH(64)"
  have m: "(0xf :: mword) = mask 4" "(0x1f :: mword) = mask 5" by (simp_all add: mask_eq_exp_minus_1)
  show "bit (arg1 r) n = bit (push_bit 9 (drop_bit 9 (arg1 r)) OR push_bit 5 (ucast (flags r)) OR (arg1 r AND 0x1f)) n"
    using n le_add_diff_inverse[of 9 n] by (cases "n < 9") (auto simp: flags_def m bit_simps)
qed

text \<open>syscall_word_exact. The first argument register of a system call holds exactly a selector,
  four flags and the five bits of the call number: two calls with the same selector, flags and call
  number have the same first argument; and the status that the kernel stores there is read back as
  stored, whether or not the rest of the register is kept.\<close>
theorem syscall_word_exact:
  "(sm_ctrl_sm r = sm_ctrl_sm r' \<and> flags r = flags r' \<and> arg1 r AND 0x1f = arg1 r' AND 0x1f \<longrightarrow> arg1 r = arg1 r') \<and>
   status_of (set_status s c r) = ucast (status_code s)"
proof
  show "sm_ctrl_sm r = sm_ctrl_sm r' \<and> flags r = flags r' \<and> arg1 r AND 0x1f = arg1 r' AND 0x1f \<longrightarrow> arg1 r = arg1 r'"
    using arg1_fields[of r] arg1_fields[of r'] by (metis sm_ctrl_sm_def)
  have "status_code s AND 0xff = status_code s" by (cases s) simp_all
  then show "status_of (set_status s c r) = ucast (status_code s)"
    by (simp add: status_of_def set_status_def bit.conj_disj_distrib2 and.assoc)
qed

definition ex_regs :: sys_regs where
  "ex_regs = \<lparr>arg1 = 0x1234, arg2 = 1, arg3 = 2, arg4 = 3, arg5 = 4, arg_ip = 5, arg_sp = 6\<rparr>"

theorem syscall_word_exact_witness:
  "(sm_ctrl_sm ex_regs = sm_ctrl_sm (ex_regs\<lparr>arg2 := 7\<rparr>) \<and> flags ex_regs = flags (ex_regs\<lparr>arg2 := 7\<rparr>) \<and>
    arg1 ex_regs = arg1 (ex_regs\<lparr>arg2 := 7\<rparr>)) \<and> status_of (set_status QUO_OOM True ex_regs) = 9"
  using syscall_word_exact[of ex_regs "ex_regs\<lparr>arg2 := 7\<rparr>" QUO_OOM True] by (simp add: sm_ctrl_sm_def flags_def)

end
