(* ===== verification/Syscall.thy ===== *)
theory Syscall
  imports Sys_args Core_alloc Sched Quota
begin

text \<open>
  Handlers of system calls, \<open>src/syscall.cpp\<close>: the calls that create portals,
  semaphores and scheduling contexts, the control calls on them and on protection domains, and
  the calls of the elastic core allocation. Kernel objects are known by their address; the object
  space of the current domain is an array of capabilities, and the tree of its mapping database
  nodes is kept as the list of their ranges. Where memory comes from, at which address an object is
  created and what that costs in pages are arguments of the handlers (\<open>mem_in\<close>), as is
  whether a call of the out-of-memory portal goes through.

  A handler ends by storing a status and returning to the caller (\<open>Done\<close>), by returning
  across CPUs, by handing over to the out-of-memory portal, or by giving up the CPU.
\<close>

datatype cont = Sys_finish status bool | Sys_call | Ret_user_sysexit | Recv_user | Recv_kern

datatype outcome = Done status | Xcpu_return status | Oom_call | Gone

record ecobj =
  eo_cpu :: u16
  eo_glb :: bool
  eo_pd :: mword
  eo_worker :: "mword option"
  eo_time :: u64
  eo_time_m :: u64

record ptobj =
  po_ec :: "mword option"
  po_mtd :: mword
  po_ip :: mword
  po_id :: mword

record 't syst =
  regs :: sys_regs
  caps :: "mword \<Rightarrow> mword"
  nodes :: "(mword \<times> nat) list"
  objtype :: "mword \<Rightarrow> ktype"
  quotas :: "mword quotas"
  pd_cur :: mword
  pd_cell :: "mword \<Rightarrow> mword option"
  ecs :: "mword \<Rightarrow> ecobj"
  pts :: "mword \<Rightarrow> ptobj"
  sc_kern :: "mword \<Rightarrow> bool"
  sm_base :: "mword \<Rightarrow> mword"
  ec_killed :: "u16 \<Rightarrow> u64"
  xcpu_sm :: "mword option"
  pt_oom :: "mword option"
  freq_tsc :: u32
  unmasked :: "u32 list"
  sch :: "(mword, mword, 't) sched"
  kst :: "(mword, mword, mword, cont) kstate"

record mem_in =
  new_obj :: mword
  obj_cost :: mword
  obj_back :: mword
  slot_cost :: mword

type_synonym 't handler = "'t syst \<Rightarrow> (outcome \<times> 't syst) result"

subsection \<open>Common parts\<close>

definition USER_ADDR :: mword where "USER_ADDR = 0x00007fffc0000000"
definition num_caps :: mword where "num_caps = 0x4000000"

definition slot_of :: "mword \<Rightarrow> mword" where
  "slot_of idx = idx mod num_caps"

definition obj_lookup :: "'t syst \<Rightarrow> mword \<Rightarrow> mword" where
  "obj_lookup s idx = caps s (slot_of idx)"

definition type_of :: "'t syst \<Rightarrow> mword \<Rightarrow> ktype" where
  "type_of s ob = (if ob \<noteq> 0 then objtype s ob else INVALID)"

definition sys_finish :: "status \<Rightarrow> 't handler" where
  "sys_finish st s =
     Inr (if xcpu_sm s \<noteq> None then Xcpu_return st else Done st, s\<lparr>regs := set_status st True (regs s)\<rparr>)"

definition sys_check :: "bool \<Rightarrow> mword \<Rightarrow> bool \<Rightarrow> 't handler \<Rightarrow> 't handler" where
  "sys_check oom r call f s =
     (if hit_limit (quotas s (pd_cur s)) r
      then (if pt_oom s \<noteq> None \<and> call \<and> oom then Inr (Oom_call, s) else sys_finish QUO_OOM s)
      else f s)"

definition charge :: "mword \<Rightarrow> mword \<Rightarrow> 't syst \<Rightarrow> 't syst" where
  "charge pd n s = s\<lparr>quotas := (quotas s)(pd := quota_alloc (quotas s pd) n)\<rparr>"

definition refund :: "mword \<Rightarrow> mword \<Rightarrow> 't syst \<Rightarrow> 't syst" where
  "refund pd n s = s\<lparr>quotas := (quotas s)(pd := quota_free (quotas s pd) n)\<rparr>"

text \<open>Two nodes are equal for the tree when the larger range contains the base of the other.\<close>

definition node_equal :: "mword \<times> nat \<Rightarrow> mword \<times> nat \<Rightarrow> bool" where
  "node_equal x y \<longleftrightarrow> drop_bit (max (snd x) (snd y)) (fst x XOR fst y) = 0"

definition tree_insert :: "mword \<times> nat \<Rightarrow> 't syst \<Rightarrow> bool \<times> 't syst" where
  "tree_insert x s = (if list_ex (node_equal x) (nodes s) then (False, s) else (True, s\<lparr>nodes := x # nodes s\<rparr>))"

definition insert_root :: "mem_in \<Rightarrow> mword \<Rightarrow> mword \<Rightarrow> mword \<Rightarrow> mword \<Rightarrow> 't syst \<Rightarrow> bool \<times> 't syst" where
  "insert_root mi qpd ob sel attr s =
     (case tree_insert (sel, 0) s of
        (False, s) \<Rightarrow> (False, s)
      | (True, s) \<Rightarrow>
          (True, (charge qpd (slot_cost mi) s)\<lparr>caps := (caps s)(slot_of sel := Capability_make ob attr)\<rparr>))"

definition upd_sems :: "((mword, mword, cont) sms \<Rightarrow> (mword, mword, cont) sms) \<Rightarrow> 't syst \<Rightarrow> 't syst" where
  "upd_sems f s = s\<lparr>kst := (kst s)\<lparr>sems := f (sems (kst s))\<rparr>\<rparr>"

text \<open>Running a path of the core allocator, which may give up the CPU.\<close>

definition run_k :: "((mword, mword, mword, cont) kstate, 'a) kern \<Rightarrow> ('a \<Rightarrow> 't handler) \<Rightarrow> 't handler" where
  "run_k m f s = bind_result (m (kst s)) (\<lambda>(r, k).
     let s = s\<lparr>kst := k\<rparr> in (case r of None \<Rightarrow> Inr (Gone, s) | Some a \<Rightarrow> f a s))"

subsection \<open>Creation of objects\<close>

definition sys_create_sc :: "bool \<Rightarrow> mem_in \<Rightarrow> u64 \<Rightarrow> 't handler" where
  "sys_create_sc oom mi tsc = sys_check oom 0 False (\<lambda>s.
     let r = regs s; cap = obj_lookup s (create_sc_pd r); pd = cap_obj cap
     in if type_of s pd \<noteq> PD \<or> \<not> bit (cap_prm cap) 2 then sys_finish BAD_CAP s
        else if hit_limit (quotas s pd) 2 then sys_finish QUO_OOM s
        else
          (let cap_sc = obj_lookup s (create_sc_ec r); e = cap_obj cap_sc; q = create_sc_qpd r
           in if type_of s e \<noteq> EC \<or> \<not> bit (cap_prm cap_sc) 2 then sys_finish BAD_CAP s
              else if \<not> eo_glb (ecs s e) then sys_finish BAD_CAP s
              else if qpd_prio q = 0 \<or> qpd_quantum q = 0 \<or> \<not> unat (qpd_prio q) < priorities then sys_finish BAD_PAR s
              else
                (let s = charge (eo_pd (ecs s e)) (obj_cost mi) s;
                     (ecp, refs) = Refptr_new e (ec_ref (sems (kst s)));
                     x = Sc_user (ucast (freq_tsc s)) ecp (eo_cpu (ecs s e)) (qpd_prio q) (qpd_quantum q)
                 in (case insert_root mi pd (new_obj mi) (create_sc_sel r) 0x1 s of
                       (False, s) \<Rightarrow> sys_finish BAD_CAP (refund (eo_pd (ecs s e)) (obj_back mi) s)
                     | (True, s) \<Rightarrow>
                         (let s = upd_sems (\<lambda>m. m\<lparr>ec_ref := refs\<rparr>) s;
                              s = s\<lparr>objtype := (objtype s)(new_obj mi := SC),
                                    sch := (sch s)\<lparr>scs := (scs (sch s))(new_obj mi := x)\<rparr>\<rparr>;
                              s = (case (eo_worker (ecs s e), pd_cell s (eo_pd (ecs s e))) of
                                     (Some w, Some c) \<Rightarrow>
                                       s\<lparr>kst := upd_cell c (\<lambda>y. y\<lparr>workers := (\<lambda>n. map (\<lambda>v. if w_sm v = w then v\<lparr>w_ec := Some e\<rparr> else v)
                                                                               (workers y n))\<rparr>) (kst s)\<rparr>
                                   | _ \<Rightarrow> s)
                          in bind_result (remote_enqueue (new_obj mi) tsc True (sch s)) (\<lambda>c.
                               sys_finish SUCCESS (s\<lparr>sch := c\<rparr>)))))))"

definition sys_create_pt :: "bool \<Rightarrow> mem_in \<Rightarrow> 't handler" where
  "sys_create_pt oom mi = sys_check oom 0 False (\<lambda>s.
     let r = regs s
     in if create_pt_eip r \<ge> USER_ADDR then sys_finish BAD_PAR s
        else
          (let cap = obj_lookup s (create_pt_pd r); pd = cap_obj cap
           in if type_of s pd \<noteq> PD \<or> \<not> bit (cap_prm cap) 3 then sys_finish BAD_CAP s
              else if hit_limit (quotas s pd) 2 then sys_finish QUO_OOM s
              else
                (let cap_ec = obj_lookup s (create_pt_ec r); e = cap_obj cap_ec
                 in if type_of s e \<noteq> EC \<or> \<not> bit (cap_prm cap_ec) 3 then sys_finish BAD_CAP s
                    else if eo_glb (ecs s e) then sys_finish BAD_CAP s
                    else
                      (let s = charge (eo_pd (ecs s e)) (obj_cost mi) s;
                           (ecp, refs) = Refptr_new e (ec_ref (sems (kst s)))
                       in (case insert_root mi pd (new_obj mi) (create_pt_sel r) 0x13 s of
                             (False, s) \<Rightarrow> sys_finish BAD_CAP (refund (eo_pd (ecs s e)) (obj_back mi) s)
                           | (True, s) \<Rightarrow>
                               sys_finish SUCCESS (upd_sems (\<lambda>m. m\<lparr>ec_ref := refs\<rparr>)
                                 (s\<lparr>objtype := (objtype s)(new_obj mi := PT),
                                    pts := (pts s)(new_obj mi := \<lparr>po_ec = ecp, po_mtd = create_pt_mtd r,
                                                                  po_ip = create_pt_eip r, po_id = 0\<rparr>)\<rparr>)))))))"

definition make_sm :: "mem_in \<Rightarrow> mword \<Rightarrow> mword \<Rightarrow> mword option \<Rightarrow> mword \<Rightarrow> 't handler" where
  "make_sm mi pd cnt si v s =
     bind_result (Sm_new (new_obj mi) False cnt si v (sems (kst s))) (\<lambda>m.
       case insert_root mi pd (new_obj mi) (create_sm_sel (regs s)) 0x3 (charge (pd_cur s) (obj_cost mi) s) of
         (False, s) \<Rightarrow> sys_finish BAD_CAP (refund pd (obj_back mi) s)
       | (True, s) \<Rightarrow>
           sys_finish SUCCESS (upd_sems (\<lambda>_. m)
             (s\<lparr>objtype := (objtype s)(new_obj mi := SM),
                sm_base := (sm_base s)(new_obj mi := create_sm_sel (regs s))\<rparr>)))"

definition sys_create_sm :: "bool \<Rightarrow> mem_in \<Rightarrow> 't handler" where
  "sys_create_sm oom mi = sys_check oom 0 False (\<lambda>s.
     let r = regs s; cap = obj_lookup s (create_sm_pd r); pd = cap_obj cap
     in if type_of s pd \<noteq> PD \<or> \<not> bit (cap_prm cap) 4 then sys_finish BAD_CAP s
        else if hit_limit (quotas s pd) 1 then sys_finish QUO_OOM s
        else if create_sm_sm r \<noteq> 0
        then
          (let si = cap_obj (obj_lookup s (create_sm_sm r))
           in if type_of s si \<noteq> SM then sys_finish BAD_CAP s
              else if is_signal (sems (kst s)) si then sys_finish BAD_CAP s
              else make_sm mi pd 0 (Some si) (create_sm_cnt r) s)
        else make_sm mi pd (create_sm_cnt r) None 0 s)"

subsection \<open>Control of objects\<close>

definition sys_pt_ctrl :: "bool \<Rightarrow> 't handler" where
  "sys_pt_ctrl oom = sys_check oom 1 True (\<lambda>s.
     let r = regs s; cap = obj_lookup s (pt_ctrl_pt r); p = cap_obj cap
     in if type_of s p \<noteq> PT \<or> cap_prm cap AND 1 = 0 then sys_finish BAD_CAP s
        else sys_finish SUCCESS (s\<lparr>pts := (pts s)(p := (pts s p)\<lparr>po_id := pt_ctrl_id r\<rparr>)\<rparr>))"

definition sys_sm_ctrl :: "bool \<Rightarrow> nat \<Rightarrow> nat \<Rightarrow> 't handler" where
  "sys_sm_ctrl oom n k = sys_check oom 1 True (\<lambda>s.
     let r = regs s; cap = obj_lookup s (sm_ctrl_sm r); m = cap_obj cap
     in if type_of s m \<noteq> SM \<or> \<not> bit (cap_prm cap) (unat (sm_ctrl_op r)) then sys_finish BAD_CAP s
        else if sm_ctrl_op r = 0
        then bind_result (submit n k m (sems (kst s))) (\<lambda>sm. sys_finish SUCCESS (upd_sems (\<lambda>_. sm) s))
        else
          (let kern = sm_kern (sems (kst s)) m; sig = is_signal (sems (kst s)) m;
               s = (if kern then s\<lparr>unmasked := unmasked s @ [ucast (sm_base s m - of_nat NUM_CPU)]\<rparr> else s)
           in if kern \<and> sig then sys_finish SUCCESS s
              else if sig then sys_finish BAD_CAP s
              else
                (let e = cur_ec (kst s);
                     s = upd_sems (\<lambda>x. x\<lparr>ec_cont := (ec_cont x)(e := Some (Sys_finish SUCCESS True))\<rparr>) s
                 in bind_result (sm_dn m (sm_ctrl_zc r \<noteq> 0) (sm_ctrl_time r) e True (sems (kst s))) (\<lambda>(go, sm).
                      let s = upd_sems (\<lambda>_. sm) s
                      in if go then sys_finish SUCCESS s else Inr (Gone, s)))))"

definition sys_sc_ctrl :: "bool \<Rightarrow> 't handler" where
  "sys_sc_ctrl oom = sys_check oom 1 True (\<lambda>s.
     let r = regs s; cap = obj_lookup s (sc_ctrl_sc r); x = cap_obj cap; rop = sc_ctrl_op r
     in if type_of s x \<noteq> SC \<or> \<not> bit (cap_prm cap) 0 then sys_finish BAD_CAP s
        else
          (let kern = (rop \<noteq> 0 \<and> sc_kern s x); c = sc_cpu (scs (sch s) x);
               sc_time = (if kern then (if rop = 1 then cross_time (sch s) c else killed_time (sch s) c)
                          else Sched.sc_time (scs (sch s) x));
               ec_time = (if kern \<and> rop = 3 then ec_killed s c else 0);
               s = (if kern then s else s\<lparr>sch := upd_sc x measured (sch s)\<rparr>)
           in if rop = 3
              then
                (let e = cap_obj (obj_lookup s (sc_ctrl_ec r));
                     own = (ec_time = 0 \<and> type_of s e = EC);
                     ec_time = (if own then eo_time (ecs s e) else ec_time);
                     s = (if own then s\<lparr>ecs := (ecs s)(e := (ecs s e)\<lparr>eo_time_m := eo_time (ecs s e)\<rparr>)\<rparr> else s)
                 in bind_result (div64 (sc_time * 1000) (freq_tsc s)) (\<lambda>(a, _).
                      bind_result (div64 (ec_time * 1000) (freq_tsc s)) (\<lambda>(b, _).
                        sys_finish SUCCESS (s\<lparr>regs := set_time2 a b r\<rparr>))))
              else bind_result (div64 (sc_time * 1000) (freq_tsc s)) (\<lambda>(a, _).
                     sys_finish SUCCESS (s\<lparr>regs := set_time a r\<rparr>))))"

definition pd_transfer :: "mword \<Rightarrow> 't handler" where
  "pd_transfer src s =
     (let dst = cap_obj (obj_lookup s (pd_ctrl_dst (regs s)))
      in if type_of s dst \<noteq> PD then sys_finish BAD_CAP s
         else
           (case transfer_to (quotas s) src dst (pd_ctrl_tra (regs s)) True of
              (False, q) \<Rightarrow> sys_finish BAD_PAR (s\<lparr>quotas := q\<rparr>)
            | (True, q) \<Rightarrow> sys_finish SUCCESS (s\<lparr>quotas := q\<rparr>)))"

definition sys_pd_ctrl :: "bool \<Rightarrow> nat \<Rightarrow> 't handler" where
  "sys_pd_ctrl oom k = sys_check oom 1 True (\<lambda>s.
     let r = regs s; src = cap_obj (obj_lookup s (pd_ctrl_src r))
     in if type_of s src \<noteq> PD then sys_finish BAD_CAP s
        else if pd_ctrl_dbg r \<noteq> 0
        then sys_finish SUCCESS (s\<lparr>regs := pd_ctrl_dump (limit (quotas s src)) (usage (quotas s src)) r\<rparr>)
        else if pd_ctrl_del r \<noteq> 0
        then
          (case pd_cell s src of
             None \<Rightarrow> sys_finish BAD_PAR s
           | Some c \<Rightarrow>
               run_k (cell_delete k c) (\<lambda>_ s. sys_finish SUCCESS (s\<lparr>pd_cell := (pd_cell s)(src := None)\<rparr>)) s)
        else pd_transfer src s)"

subsection \<open>Elastic core allocation\<close>

definition cur_cell_of :: "'t syst \<Rightarrow> mword option" where
  "cur_cell_of s = pd_cell s (eo_pd (ecs s (cur_ec (kst s))))"

definition sys_alloc :: "nat \<Rightarrow> ((mword, mword, mword, cont) kstate \<Rightarrow> (mword, mword, mword, cont) kstate) \<Rightarrow> 't handler" where
  "sys_alloc k env s =
     (case cur_cell_of s of
        None \<Rightarrow> sys_finish BAD_HYP s
      | Some c \<Rightarrow>
          (if alloc_type (regs s) = 0
           then (if alloc_quantity (regs s) = 0 then sys_finish BAD_PAR s
                 else run_k (alloc k env (unat (alloc_quantity (regs s))) c) (\<lambda>cores s.
                        if cores = 0 then sys_finish QUO_OOM s
                        else run_k (kbind (kupd (update_channel_params c (of_nat cores))) (\<lambda>_. klift (wake_cores k c)))
                               (\<lambda>_. sys_finish SUCCESS) s) s)
           else sys_finish BAD_PAR s))"

definition sys_cell_ctrl :: "nat \<Rightarrow> ((mword, mword, mword, cont) kstate \<Rightarrow> (mword, mword, mword, cont) kstate) \<Rightarrow> 't handler" where
  "sys_cell_ctrl k env s =
     (let r = regs s; pd = cap_obj (obj_lookup s (cell_ctrl_sel r))
      in if type_of s pd \<noteq> PD then sys_finish BAD_CAP s
         else
           (case pd_cell s pd of
              None \<Rightarrow> sys_finish BAD_CAP s
            | Some c \<Rightarrow>
                (if cell_ctrl_op r = 0
                 then run_k (klift (confer c)) (\<lambda>_ s.
                        if \<not> initialized (cells (kst s) c)
                        then bind_result (first_cpu (cores_reserved (cip_of (kst s) c))) (\<lambda>n.
                               run_k (kbind (transfer k env c (ucast n)) (\<lambda>_. kupd (upd_cell c (\<lambda>x. x\<lparr>initialized := True\<rparr>))))
                                 (\<lambda>_. sys_finish SUCCESS) s)
                        else sys_finish SUCCESS s) s
                 else sys_finish BAD_PAR s)))"

definition sys_release :: "nat \<Rightarrow> cpu \<Rightarrow> 't handler" where
  "sys_release k n s =
     (case cur_cell_of s of
        None \<Rightarrow> sys_finish BAD_CPU s
      | Some c \<Rightarrow>
          (if release_op (regs s) = 0
           then (if release_type (regs s) = 0
                 then run_k (ca_release k (Some c) n) (\<lambda>_. sys_finish SUCCESS) s
                 else sys_finish SUCCESS s)
           else if release_op (regs s) = 1
           then (if release_type (regs s) = 0
                 then run_k (ca_return_core k n) (\<lambda>_. sys_finish SUCCESS) s
                 else sys_finish SUCCESS s)
           else sys_finish BAD_PAR s))"

subsection \<open>Reasoning about handlers\<close>

definition hpost :: "(outcome \<times> 't syst) result \<Rightarrow> (outcome \<Rightarrow> 't syst \<Rightarrow> bool) \<Rightarrow> bool" where
  "hpost r P = (case r of Inl e \<Rightarrow> True | Inr (out, s) \<Rightarrow> P out s)"

definition finished :: "status \<Rightarrow> outcome \<Rightarrow> bool" where
  "finished st out \<longleftrightarrow> out = Done st \<or> out = Xcpu_return st"

lemma hpost_Inl [simp]: "hpost (Inl e) P"
  by (simp add: hpost_def)

lemma hpost_D: "hpost r P \<Longrightarrow> r = Inr (out, s) \<Longrightarrow> P out s"
  by (simp add: hpost_def)

lemma hpost_finish:
  "(\<And>out. finished st out \<Longrightarrow> P out (s\<lparr>regs := set_status st True (regs s)\<rparr>)) \<Longrightarrow> hpost (sys_finish st s) P"
  by (simp add: sys_finish_def hpost_def finished_def)

lemma hpost_if: "(b \<Longrightarrow> hpost r P) \<Longrightarrow> (\<not> b \<Longrightarrow> hpost r' P) \<Longrightarrow> hpost (if b then r else r') P"
  by simp

lemma hpost_bind: "(\<And>a. r = Inr a \<Longrightarrow> hpost (f a) P) \<Longrightarrow> hpost (bind_result r f) P"
  by (cases r) simp_all

lemma hpost_check:
  assumes "P Oom_call s" "\<And>out. finished QUO_OOM out \<Longrightarrow> P out (s\<lparr>regs := set_status QUO_OOM True (regs s)\<rparr>)"
    and "\<not> hit_limit (quotas s (pd_cur s)) r \<Longrightarrow> hpost (f s) P"
  shows "hpost (sys_check oom r call f s) P"
  unfolding sys_check_def
proof (rule hpost_if)
  show "hpost (if pt_oom s \<noteq> None \<and> call \<and> oom then Inr (Oom_call, s) else sys_finish QUO_OOM s) P"
    using assms(1,2) by (intro hpost_if hpost_finish) (simp_all add: hpost_def)
qed (rule assms(3))

lemma finished_inj: "finished st out \<Longrightarrow> finished st' out \<longleftrightarrow> st' = st"
  by (auto simp: finished_def)

text \<open>What a call that creates an object may do to the object space and to the objects.\<close>

definition obj_same :: "'t syst \<Rightarrow> 't syst \<Rightarrow> bool" where
  "obj_same s s' \<longleftrightarrow> caps s' = caps s \<and> nodes s' = nodes s \<and> objtype s' = objtype s \<and> pts s' = pts s \<and> ecs s' = ecs s"

definition installed :: "mem_in \<Rightarrow> ktype \<Rightarrow> mword \<Rightarrow> mword \<Rightarrow> 't syst \<Rightarrow> 't syst \<Rightarrow> bool" where
  "installed mi t sel attr s s' \<longleftrightarrow>
     \<not> list_ex (node_equal (sel, 0)) (nodes s) \<and> nodes s' = (sel, 0) # nodes s \<and>
     caps s' = (caps s)(slot_of sel := Capability_make (new_obj mi) attr) \<and> objtype s' = (objtype s)(new_obj mi := t)"

definition pd_authority :: "'t syst \<Rightarrow> mword \<Rightarrow> nat \<Rightarrow> bool" where
  "pd_authority s sel b \<longleftrightarrow> type_of s (cap_obj (obj_lookup s sel)) = PD \<and> bit (cap_prm (obj_lookup s sel)) b"

definition ec_authority :: "'t syst \<Rightarrow> mword \<Rightarrow> nat \<Rightarrow> bool" where
  "ec_authority s sel b \<longleftrightarrow> type_of s (cap_obj (obj_lookup s sel)) = EC \<and> bit (cap_prm (obj_lookup s sel)) b"

lemma obj_same_simps [simp]:
  "obj_same s s" "obj_same s (s'\<lparr>regs := r\<rparr>) = obj_same s s'" "obj_same s (charge pd n s') = obj_same s s'"
  "obj_same s (refund pd n s') = obj_same s s'" "obj_same s (upd_sems f s') = obj_same s s'"
  by (simp_all add: obj_same_def charge_def refund_def upd_sems_def)

lemma insert_root_cases:
  obtains "insert_root mi pd ob sel attr s = (False, s)"
  | "insert_root mi pd ob sel attr s = (True, (charge pd (slot_cost mi) s)\<lparr>nodes := (sel, 0) # nodes s,
        caps := (caps s)(slot_of sel := Capability_make ob attr)\<rparr>)" "\<not> list_ex (node_equal (sel, 0)) (nodes s)"
  by (cases "list_ex (node_equal (sel, 0)) (nodes s)") (auto simp: insert_root_def tree_insert_def charge_def)

lemma upd_simps [simp]:
  "caps (charge pd n s) = caps s" "nodes (charge pd n s) = nodes s" "objtype (charge pd n s) = objtype s"
  "ecs (charge pd n s) = ecs s" "pts (charge pd n s) = pts s" "kst (charge pd n s) = kst s" "regs (charge pd n s) = regs s"
  "caps (refund pd n s) = caps s" "nodes (refund pd n s) = nodes s" "objtype (refund pd n s) = objtype s"
  "caps (upd_sems f s) = caps s" "nodes (upd_sems f s) = nodes s" "objtype (upd_sems f s) = objtype s"
  "regs (upd_sems f s) = regs s" "pts (upd_sems f s) = pts s"
  by (simp_all add: charge_def refund_def upd_sems_def)

definition create_post :: "mem_in \<Rightarrow> ktype \<Rightarrow> mword \<Rightarrow> mword \<Rightarrow> bool \<Rightarrow> 't syst \<Rightarrow> outcome \<Rightarrow> 't syst \<Rightarrow> bool" where
  "create_post mi t sel attr authority s out s' \<longleftrightarrow>
     (if finished SUCCESS out then authority \<and> installed mi t sel attr s s' else obj_same s s')"

lemma create_post_fail:
  assumes "st \<noteq> SUCCESS" "obj_same s s'"
  shows "hpost (sys_finish st s') (create_post mi t sel attr a s)"
  using assms by (intro hpost_finish) (auto simp: create_post_def finished_inj)

lemma create_guard:
  assumes "st \<noteq> SUCCESS" "\<not> b \<Longrightarrow> hpost r (create_post mi t sel attr a s)"
  shows "hpost (if b then sys_finish st s else r) (create_post mi t sel attr a s)"
  using create_post_fail[OF assms(1), of s s] assms(2) by simp

lemma create_check:
  assumes "hpost (f s) (create_post mi t sel attr a s)"
  shows "hpost (sys_check oom r call f s) (create_post mi t sel attr a s)"
  by (rule hpost_check) (use assms in \<open>auto simp: create_post_def finished_inj finished_def\<close>)

lemma create_pt_post:
  "hpost (sys_create_pt oom mi s) (create_post mi PT (create_pt_sel (regs s)) 0x13
     (pd_authority s (create_pt_pd (regs s)) 3 \<and> ec_authority s (create_pt_ec (regs s)) 3 \<and>
      \<not> eo_glb (ecs s (cap_obj (obj_lookup s (create_pt_ec (regs s))))) \<and> create_pt_eip (regs s) < USER_ADDR) s)"
  (is "hpost _ (create_post _ _ _ _ ?a _)")
proof -
  let ?pd = "cap_obj (obj_lookup s (create_pt_pd (regs s)))" and ?e = "cap_obj (obj_lookup s (create_pt_ec (regs s)))"
  obtain ecp refs where ref: "Refptr_new ?e (ec_ref (sems (kst s))) = (ecp, refs)" by force
  let ?s1 = "charge (eo_pd (ecs s ?e)) (obj_cost mi) s"
  show ?thesis
    unfolding sys_create_pt_def Let_def
    apply (rule create_check)
    apply (rule create_guard, simp)+
    subgoal
    proof (cases rule: insert_root_cases[where mi = mi and pd = ?pd and ob = "new_obj mi" and sel = "create_pt_sel (regs s)" and attr = "0x13" and s = ?s1])
      case 1
      then show ?thesis by (simp add: ref) (rule create_post_fail; simp)
    next
      case 2
      assume a: "\<not> USER_ADDR \<le> create_pt_eip (regs s)"
        "\<not> (type_of s ?pd \<noteq> PD \<or> \<not> bit (cap_prm (obj_lookup s (create_pt_pd (regs s)))) 3)"
        "\<not> (type_of s ?e \<noteq> EC \<or> \<not> bit (cap_prm (obj_lookup s (create_pt_ec (regs s)))) 3)" "\<not> eo_glb (ecs s ?e)"
      then show ?thesis using 2
        by (simp add: ref) (rule hpost_finish, auto simp: create_post_def installed_def pd_authority_def ec_authority_def)
    qed
    done
qed

lemma create_sc_post:
  "hpost (sys_create_sc oom mi t s) (create_post mi SC (create_sc_sel (regs s)) 0x1
     (pd_authority s (create_sc_pd (regs s)) 2 \<and> ec_authority s (create_sc_ec (regs s)) 2 \<and>
      eo_glb (ecs s (cap_obj (obj_lookup s (create_sc_ec (regs s))))) \<and> 0 < qpd_prio (create_sc_qpd (regs s)) \<and>
      unat (qpd_prio (create_sc_qpd (regs s))) < priorities) s)"
proof -
  let ?pd = "cap_obj (obj_lookup s (create_sc_pd (regs s)))" and ?e = "cap_obj (obj_lookup s (create_sc_ec (regs s)))"
  obtain ecp refs where ref: "Refptr_new ?e (ec_ref (sems (kst s))) = (ecp, refs)" by force
  let ?s1 = "charge (eo_pd (ecs s ?e)) (obj_cost mi) s"
  show ?thesis
    unfolding sys_create_sc_def Let_def
    apply (rule create_check)
    apply (rule create_guard, simp)+
    subgoal
    proof (cases rule: insert_root_cases[where mi = mi and pd = ?pd and ob = "new_obj mi" and sel = "create_sc_sel (regs s)"
          and attr = "0x1" and s = ?s1])
      case 1
      then show ?thesis by (simp add: ref) (rule create_post_fail; simp)
    next
      case 2
      assume a: "\<not> (type_of s ?pd \<noteq> PD \<or> \<not> bit (cap_prm (obj_lookup s (create_sc_pd (regs s)))) 2)"
        "\<not> (type_of s ?e \<noteq> EC \<or> \<not> bit (cap_prm (obj_lookup s (create_sc_ec (regs s)))) 2)" "\<not> \<not> eo_glb (ecs s ?e)"
        "\<not> (qpd_prio (create_sc_qpd (regs s)) = 0 \<or> qpd_quantum (create_sc_qpd (regs s)) = 0 \<or>
             \<not> unat (qpd_prio (create_sc_qpd (regs s))) < priorities)"
      then show ?thesis using 2
        by (simp add: ref split: option.splits)
          (auto intro!: hpost_bind hpost_finish
             simp: create_post_def installed_def pd_authority_def ec_authority_def word_neq_0_conv finished_inj)
    qed
    done
qed

lemma make_sm_post:
  assumes "\<not> (type_of s pd \<noteq> PD \<or> \<not> bit (cap_prm cap) 4)" "cap = obj_lookup s (create_sm_pd (regs s))" "pd = cap_obj cap"
  shows "hpost (make_sm mi pd cnt si v s)
    (create_post mi SM (create_sm_sel (regs s)) 0x3 (pd_authority s (create_sm_pd (regs s)) 4) s)"
  unfolding make_sm_def
proof (rule hpost_bind)
  fix m
  let ?s1 = "charge (pd_cur s) (obj_cost mi) s"
  show "hpost (case insert_root mi pd (new_obj mi) (create_sm_sel (regs s)) 0x3 ?s1 of
         (False, s) \<Rightarrow> sys_finish BAD_CAP (refund pd (obj_back mi) s)
       | (True, s) \<Rightarrow>
           sys_finish SUCCESS (upd_sems (\<lambda>_. m)
             (s\<lparr>objtype := (objtype s)(new_obj mi := SM),
                sm_base := (sm_base s)(new_obj mi := create_sm_sel (regs s))\<rparr>)))
    (create_post mi SM (create_sm_sel (regs s)) 0x3 (pd_authority s (create_sm_pd (regs s)) 4) s)"
  proof (cases rule: insert_root_cases[where mi = mi and pd = pd and ob = "new_obj mi" and sel = "create_sm_sel (regs s)"
          and attr = "0x3" and s = ?s1])
    case 1
    then show ?thesis by simp (rule create_post_fail; simp)
  next
    case 2
    then show ?thesis using assms
      by simp (rule hpost_finish, auto simp: create_post_def installed_def pd_authority_def)
  qed
qed

lemma create_sm_post:
  "hpost (sys_create_sm oom mi s) (create_post mi SM (create_sm_sel (regs s)) 0x3
     (pd_authority s (create_sm_pd (regs s)) 4) s)"
  unfolding sys_create_sm_def Let_def
  apply (rule create_check)
  apply (rule create_guard, simp)+
  apply (rule hpost_if)
   apply (rule create_guard, simp)+
   apply (rule make_sm_post; simp)
  apply (rule make_sm_post; simp)
  done

text \<open>What the transfer of kernel memory may do to the quotas.\<close>

definition quotas_moved :: "mword \<Rightarrow> mword \<Rightarrow> mword \<Rightarrow> 't syst \<Rightarrow> outcome \<Rightarrow> 't syst \<Rightarrow> bool" where
  "quotas_moved n src dst s out s' \<longleftrightarrow> quotas s' = quotas s \<or>
     finished SUCCESS out \<and> headroom (quotas s' src) = headroom (quotas s src) - n \<and>
     headroom (quotas s' dst) = headroom (quotas s dst) + n \<and>
     (\<forall>pd. pd \<noteq> src \<longrightarrow> pd \<noteq> dst \<longrightarrow> quotas s' pd = quotas s pd)"

lemma pd_transfer_post:
  assumes "dst = cap_obj (obj_lookup s (pd_ctrl_dst (regs s)))" "src \<noteq> dst"
  shows "hpost (pd_transfer src s) (quotas_moved (pd_ctrl_tra (regs s)) src dst s)"
proof -
  obtain ok q where t: "transfer_to (quotas s) src dst (pd_ctrl_tra (regs s)) True = (ok, q)" by force
  show ?thesis
  proof (cases ok)
    case True
    have "quotas s pd = q pd" if "pd \<noteq> src" "pd \<noteq> dst" for pd
      using transfer_to_other[OF that, of "quotas s" "pd_ctrl_tra (regs s)" True] t by simp
    then show ?thesis
      using t True transfer_to_headroom[OF assms(2), of "quotas s" "pd_ctrl_tra (regs s)" True q]
      unfolding pd_transfer_def Let_def assms(1)[symmetric]
      by (intro hpost_if) (auto intro!: hpost_finish simp: quotas_moved_def)
  next
    case False
    then show ?thesis
      using t transfer_to_failed[of "quotas s" src dst "pd_ctrl_tra (regs s)" True q]
      unfolding pd_transfer_def Let_def assms(1)[symmetric]
      by (intro hpost_if) (auto intro!: hpost_finish simp: quotas_moved_def)
  qed
qed

text \<open>Waking the workers of a cell ends when the semaphores are consistent and the bound on
  the rounds of an \<open>up\<close> exceeds every number of waiters.\<close>

definition wakeable :: "nat \<Rightarrow> ('c, 'm, 'e, 'k) kstate \<Rightarrow> bool" where
  "wakeable k s \<longleftrightarrow> (\<exists>w. sm_inv (sems s) w \<and> (\<forall>m. length (w m) < k))"

lemma sm_up_wakeable:
  assumes "wakeable k s"
  shows "\<exists>m'. sm_up k m c None (sems s) = Inr m' \<and> wakeable k (s\<lparr>sems := m'\<rparr>)"
proof -
  obtain w where w: "sm_inv (sems s) w" "\<And>m. length (w m) < k" using assms by (auto simp: wakeable_def)
  obtain s' where s': "sm_up k m c None (sems s) = Inr s'" "sm_inv s' (w(m := tl (dropWhile (dying (sems s)) (w m))))"
    using up_loop_spec[OF w(1) w(2)[of m], of c None] unfolding sm_up_def by blast
  have "length (tl (dropWhile (dying (sems s)) (w m))) < k"
    using length_dropWhile_le[of "dying (sems s)" "w m"] w(2)[of m] by simp
  then have "\<forall>x. length ((w(m := tl (dropWhile (dying (sems s)) (w m)))) x) < k" using w(2) by simp
  then show ?thesis using s' unfolding wakeable_def by fastforce
qed

lemma wake_workers_total:
  assumes "wakeable k s"
  shows "\<exists>s'. wake_workers k c core ws s = Inr s' \<and> wakeable k s' \<and> same_cores s s' \<and> cores_new (cip_of s' c) = cores_new (cip_of s c)"
  using assms
proof (induction ws arbitrary: s)
  case (Cons x ws)
  let ?s = "upd_cip c (\<lambda>p. p\<lparr>cores_current := snd (cs_set (cores_current p) core)\<rparr>) s"
  have "wakeable k ?s" using Cons.prems by (simp add: wakeable_def)
  from sm_up_wakeable[OF this, of "w_sm x" None] obtain m where m: "sm_up k (w_sm x) None None (sems ?s) = Inr m" "wakeable k (?s\<lparr>sems := m\<rparr>)"
    by blast
  from Cons.IH[OF m(2)] obtain s' where s': "wake_workers k c core ws (?s\<lparr>sems := m\<rparr>) = Inr s'" "wakeable k s'"
    "same_cores (?s\<lparr>sems := m\<rparr>) s'" "cores_new (cip_of s' c) = cores_new (cip_of s c)" by auto
  then show ?case using m(1) by (intro exI[of _ s']) (auto simp: Let_def same_cores_def)
qed simp

lemma wake_workers_new: "wake_workers k c core ws s = Inr s' \<Longrightarrow> cores_new (cip_of s' c) = cores_new (cip_of s c)"
proof (induction ws arbitrary: s)
  case (Cons x ws)
  then show ?case by (fastforce simp: Let_def bind_result_Inr_iff)
qed simp

lemma wake_cores_total:
  assumes "wakeable k s"
  shows "\<exists>s'. wake_cores k c s = Inr s' \<and> same_cores s s'"
proof -
  let ?get = "\<lambda>s. cores_new (cip_of s c)"
  have get: "?get s' = ?get s" if "wake_core k c n s = Inr s'" for n s s'
    using that unfolding wake_core_def by (rule wake_workers_new)
  have "\<exists>s'. run_list (wake_core k c) ns s = Inr s' \<and> wakeable k s' \<and> same_cores s s'" for ns
    using assms
  proof (induction ns arbitrary: s)
    case (Cons n ns)
    from wake_workers_total[OF Cons.prems, of c n] obtain s1 where s1: "wake_core k c n s = Inr s1" "wakeable k s1" "same_cores s s1"
      unfolding wake_core_def by blast
    from Cons.IH[OF s1(2)] s1 show ?case by (auto intro: same_cores_trans)
  qed simp
  then show ?thesis unfolding wake_cores_def add_cores_def using for_each_cpu_run[of "wake_core k c" ?get s, OF get] by auto
qed

subsection \<open>Properties\<close>

text \<open>C15: create_authority. A call that creates a portal, a scheduling context or a semaphore succeeds only
  when the caller names a protection domain, and for the first two an execution context of the
  right kind, by capabilities with the permission for that kind of object; it then adds exactly
  one capability, to the new object, in a slot whose selector no node of the object space covers.
  On every other outcome the object space and the objects are as before.\<close>
theorem create_authority:
  "(sys_create_pt oom mi s = Inr (out, s') \<longrightarrow>
      create_post mi PT (create_pt_sel (regs s)) 0x13
        (pd_authority s (create_pt_pd (regs s)) 3 \<and> ec_authority s (create_pt_ec (regs s)) 3 \<and>
         \<not> eo_glb (ecs s (cap_obj (obj_lookup s (create_pt_ec (regs s))))) \<and> create_pt_eip (regs s) < USER_ADDR) s out s') \<and>
   (sys_create_sc oom mi t s = Inr (out, s') \<longrightarrow>
      create_post mi SC (create_sc_sel (regs s)) 0x1
        (pd_authority s (create_sc_pd (regs s)) 2 \<and> ec_authority s (create_sc_ec (regs s)) 2 \<and>
         eo_glb (ecs s (cap_obj (obj_lookup s (create_sc_ec (regs s))))) \<and> 0 < qpd_prio (create_sc_qpd (regs s)) \<and>
         unat (qpd_prio (create_sc_qpd (regs s))) < priorities) s out s') \<and>
   (sys_create_sm oom mi s = Inr (out, s') \<longrightarrow>
      create_post mi SM (create_sm_sel (regs s)) 0x3 (pd_authority s (create_sm_pd (regs s)) 4) s out s')"
  by (intro conjI impI; (rule hpost_D[OF create_pt_post] hpost_D[OF create_sc_post] hpost_D[OF create_sm_post]); assumption)


text \<open>sm_ctrl_wakes. An \<open>up\<close> through a capability with the permission, on a semaphore that is not
  bound to another one, succeeds and releases the longest waiting context that is not dying; without
  the permission no semaphore changes.\<close>
theorem sm_ctrl_wakes:
  assumes "sm_inv (sems (kst s)) w" "\<not> hit_limit (quotas s (pd_cur s)) 1" "sm_ctrl_op (regs s) = 0"
    and "m = cap_obj (obj_lookup s (sm_ctrl_sm (regs s)))" "type_of s m = SM" "si_sm (sems (kst s)) m = None" "length (w m) < k"
  shows "\<exists>out s'. sys_sm_ctrl oom 1 k s = Inr (out, s') \<and>
    (if bit (cap_prm (obj_lookup s (sm_ctrl_sm (regs s)))) 0
     then finished SUCCESS out \<and> sm_inv (sems (kst s')) (w(m := tl (dropWhile (dying (sems (kst s))) (w m)))) \<and>
       releases (sm_events (sems (kst s'))) = releases (sm_events (sems (kst s))) @
         takeWhile (dying (sems (kst s))) (w m) @ take 1 (dropWhile (dying (sems (kst s))) (w m))
     else finished BAD_CAP out \<and> kst s' = kst s)"
proof (cases "bit (cap_prm (obj_lookup s (sm_ctrl_sm (regs s)))) 0")
  case True
  obtain sm where up: "sm_up k m None None (sems (kst s)) = Inr sm"
    "sm_inv sm (w(m := tl (dropWhile (dying (sems (kst s))) (w m))))"
    "releases (sm_events sm) = releases (sm_events (sems (kst s))) @
       takeWhile (dying (sems (kst s))) (w m) @ take 1 (dropWhile (dying (sems (kst s))) (w m))"
    using up_loop_spec[OF assms(1,7), of None None] unfolding sm_up_def by blast
  have "si_sm sm m = None" using up_loop_si_sm[OF up(1)[unfolded sm_up_def]] assms(6) by simp
  then have "submit 1 k m (sems (kst s)) = Inr sm" using up(1) assms(6) by (simp add: One_nat_def split: bool.split)
  then have "sys_sm_ctrl oom 1 k s = sys_finish SUCCESS (upd_sems (\<lambda>_. sm) s)"
    using True assms(2-5) by (simp add: sys_sm_ctrl_def sys_check_def Let_def)
  then show ?thesis using True up(2,3) by (simp add: sys_finish_def finished_def upd_sems_def)
next
  case False
  then show ?thesis using assms(2-5) by (simp add: sys_sm_ctrl_def sys_check_def Let_def sys_finish_def finished_def)
qed

text \<open>C22: sys_alloc_succeeds. When as many cores are idle as the caller asks for, the call of a domain
  with a cell succeeds: exactly that many cores, all of them held by nobody before, are held by the
  cell afterwards and no other core changes hands; they leave the idle set.\<close>
theorem sys_alloc_succeeds:
  assumes "core_inv A (kst s)" "wakeable k (kst s)" "cur_cell_of s = Some c" "alloc_type (regs s) = 0"
    and "0 < alloc_quantity (regs s)" "unat (alloc_quantity (regs s)) \<le> card (cpus_of (idle_cpus (kst s)))"
  shows "\<exists>out s' N. sys_alloc k env s = Inr (out, s') \<and> finished SUCCESS out \<and> card N = unat (alloc_quantity (regs s)) \<and>
    (\<forall>n\<in>N. r_current (resources (kst s) n) = None) \<and> cpus_of (idle_cpus (kst s')) = cpus_of (idle_cpus (kst s)) - N \<and>
    resources (kst s') = (\<lambda>n. if n \<in> N then (resources (kst s) n)\<lparr>r_current := Some c\<rparr> else resources (kst s) n)"
proof -
  let ?q = "unat (alloc_quantity (regs s))"
  obtain N k1 where N: "alloc k env ?q c (kst s) = Inr (Some ?q, k1)" "card N = ?q"
    "resources k1 = (\<lambda>n. if n \<in> N then (resources (kst s) n)\<lparr>r_current := Some c\<rparr> else resources (kst s) n)"
    "cpus_of (idle_cpus k1) = cpus_of (idle_cpus (kst s)) - N" "\<forall>n\<in>N. r_current (resources (kst s) n) = None" "sems k1 = sems (kst s)"
    using alloc_enough[OF assms(1,6), of k env c] by blast
  let ?k2 = "update_channel_params c (of_nat ?q) k1"
  have k2: "same_cores k1 ?k2" "wakeable k ?k2"
    using assms(2) N(6) by (simp_all add: update_channel_params_def wakeable_def)
  obtain k3 where k3: "wake_cores k c ?k2 = Inr k3" "same_cores ?k2 k3" using wake_cores_total[OF k2(2), of c] by blast
  have q: "alloc_quantity (regs s) \<noteq> 0" "?q \<noteq> 0" using assms(5) by (auto simp: unat_eq_0)
  have "sys_alloc k env s = sys_finish SUCCESS (s\<lparr>kst := k3\<rparr>)"
    using assms(3,4) q N(1) k3(1) by (simp add: sys_alloc_def run_k_def kbind_def kupd_def klift_def Let_def)
  then show ?thesis using N(2-5) k2(1) k3(2)
    by (intro exI[of _ "if xcpu_sm s \<noteq> None then Xcpu_return SUCCESS else Done SUCCESS"] exI exI[of _ N])
      (auto simp: sys_finish_def finished_def same_cores_def)
qed

subsection \<open>A concrete state\<close>

text \<open>The current domain is at 4096; selectors 1, 2, 3, 4 name itself, a local execution context, a semaphore
  and another domain, with all permissions. Cell 0 belongs to the current domain, cores 1 and 2 are idle.\<close>

definition ex_args :: sys_regs where
  "ex_args = \<lparr>arg1 = 0, arg2 = 0, arg3 = 0, arg4 = 0, arg5 = 0, arg_ip = 0, arg_sp = 0\<rparr>"

definition ex_sems :: "(mword, mword, cont) sms" where
  "ex_sems =
     \<lparr>counter = (\<lambda>_. 0), ec_links = \<lparr>lnext = [0x8000 \<mapsto> 0x8000], lprev = [0x8000 \<mapsto> 0x8000]\<rparr>,
      ecq = [0x3000 \<mapsto> 0x8000], si_links = \<lparr>lnext = (\<lambda>_. None), lprev = (\<lambda>_. None)\<rparr>, siq = (\<lambda>_. None),
      si_sm = (\<lambda>_. None), si_value = (\<lambda>i. i), sm_kern = (\<lambda>_. False), sm_ref = (\<lambda>_. 1),
      ec_ref = (\<lambda>e. 2), ec_cont = (\<lambda>_. Some Ret_user_sysexit), ec_si_regs = (\<lambda>_. (0, 0)),
      ec_tmo_sm = (\<lambda>_. None), sm_events = []\<rparr>"

definition ex_wait :: "mword \<Rightarrow> mword list" where
  "ex_wait = (\<lambda>_. [])(0x3000 := [0x8000])"

definition ex_cores :: "(mword, mword, mword, cont) kstate" where
  "ex_cores = add_cpu 1 (add_cpu 2
     \<lparr>resources = (\<lambda>n. \<lparr>hazards = 0, r_owner = None, r_current = Some 9\<rparr>), cpu_count = 2, idle_cpus = Cpuset_new 0,
      cells = (\<lambda>c. Cell_new 1 Cip_new), cur_cell = Some 0, cur_ec = 0x2000, sys_finish_k = Sys_finish SUCCESS False,
      sems = ex_sems\<rparr>)"

definition ex_caps :: "mword \<Rightarrow> mword" where
  "ex_caps = (\<lambda>_. 0)(1 := 0x101f, 2 := 0x201f, 3 := 0x301f, 4 := 0x401f)"

definition ex_syst :: "sys_regs \<Rightarrow> nat syst" where
  "ex_syst r =
     \<lparr>regs = r, caps = ex_caps, nodes = [(1, 0), (2, 0), (3, 0), (4, 0)],
      objtype = (\<lambda>a. if a = 0x2000 then EC else if a = 0x3000 then SM else PD),
      quotas = (\<lambda>_. \<lparr>used = 5, over = 0, upli = 100, notr = 0\<rparr>), pd_cur = 0x1000, pd_cell = [0x1000 \<mapsto> 0],
      ecs = (\<lambda>_. \<lparr>eo_cpu = 0, eo_glb = False, eo_pd = 0x1000, eo_worker = None, eo_time = 0, eo_time_m = 0\<rparr>),
      pts = (\<lambda>_. \<lparr>po_ec = None, po_mtd = 0, po_ip = 0, po_id = 0\<rparr>), sc_kern = (\<lambda>_. False), sm_base = (\<lambda>_. 0),
      ec_killed = (\<lambda>_. 0), xcpu_sm = None, pt_oom = None, freq_tsc = 1000, unmasked = [],
      sch = \<lparr>cpu_id = 0,
        scs = (\<lambda>x. \<lparr>sc_ec = None, sc_cpu = 0, sc_prio = 1, sc_disable = False,
                  sc_budget = 100, sc_time = 0, sc_time_m = 0, sc_left = 0, sc_tsc = 10, sc_ref = 1, sc_pre = True\<rparr>),
        sc_links = \<lparr>lnext = Map.empty, lprev = Map.empty\<rparr>,
        ready = Map.empty, prio_top = 0, rqs = Map.empty, cur = Some 0, ctr_loop = 0, hazard = 0,
        ec_current = None, ec_tsc_offset = (\<lambda>_. 0), ec_hazard = (\<lambda>_. 0), ec_partner = (\<lambda>_. False),
        ec_rcap = (\<lambda>_. False), tmo = empty_timeouts, budget_tmo = 0, cross_time = (\<lambda>_. 0),
        killed_time = (\<lambda>_. 0), events = []\<rparr>,
      kst = ex_cores\<rparr>"

lemma ex_wait_inv: "sm_inv ex_sems ex_wait"
  unfolding sm_inv_def
proof (intro conjI allI impI)
  show "queue_rep (ec_links ex_sems, ecq ex_sems m) (ex_wait m)" for m
    by (simp add: ex_sems_def ex_wait_def queue_rep_def ring_def)
  show "m = m'" if "e \<in> set (ex_wait m)" "e \<in> set (ex_wait m')" for m m' e
    using that by (simp add: ex_wait_def split: if_splits)
  show "ex_wait m = []" if "counter ex_sems m \<noteq> 0" for m using that by (simp add: ex_sems_def)
qed

lemma ex_cores_simps: "sems ex_cores = ex_sems" "cpus_of (idle_cpus ex_cores) = {1, 2}" "core_inv {1, 2} ex_cores" "cur_ec ex_cores = 0x2000"
proof -
  show "core_inv {1, 2} ex_cores" unfolding ex_cores_def
    by (intro core_inv_add_cpu) (simp add: core_inv_def)
qed (simp_all add: ex_cores_def add_cpu_def cpus_of_ops)

lemma ex_wakeable: "wakeable 2 ex_cores"
  unfolding wakeable_def ex_cores_simps using ex_wait_inv by (intro exI[of _ ex_wait]) (simp add: ex_wait_def)

lemmas ex_syst_simps = ex_syst_def ex_args_def obj_lookup_def slot_of_def num_caps_def ex_caps_def type_of_def hit_limit_def usage_def cap_perm_def

theorem sm_ctrl_wakes_witness:
  "\<exists>out s'. sys_sm_ctrl False 1 2 (ex_syst (ex_args\<lparr>arg1 := 0x600\<rparr>)) = Inr (out, s') \<and> finished SUCCESS out \<and>
     releases (sm_events (sems (kst s'))) = [0x8000]"
proof -
  let ?s = "ex_syst (ex_args\<lparr>arg1 := 0x600\<rparr>)"
  have a: "sm_inv (sems (kst ?s)) ex_wait" using ex_wait_inv by (simp add: ex_syst_def ex_cores_simps)
  have b: "\<not> hit_limit (quotas ?s (pd_cur ?s)) 1" by (simp add: ex_syst_simps)
  have m: "0x3000 = cap_obj (obj_lookup ?s (sm_ctrl_sm (regs ?s)))" by (simp add: ex_syst_simps sm_ctrl_sm_def cap_obj_def)
  have p: "bit (cap_prm (obj_lookup ?s (sm_ctrl_sm (regs ?s)))) 0" by (simp add: ex_syst_simps sm_ctrl_sm_def cap_prm_def)
  have "\<exists>out s'. sys_sm_ctrl False 1 2 ?s = Inr (out, s') \<and>
    (if bit (cap_prm (obj_lookup ?s (sm_ctrl_sm (regs ?s)))) 0
     then finished SUCCESS out \<and> sm_inv (sems (kst s')) (ex_wait(0x3000 := tl (dropWhile (dying (sems (kst ?s))) (ex_wait 0x3000)))) \<and>
       releases (sm_events (sems (kst s'))) = releases (sm_events (sems (kst ?s))) @
         takeWhile (dying (sems (kst ?s))) (ex_wait 0x3000) @ take 1 (dropWhile (dying (sems (kst ?s))) (ex_wait 0x3000))
     else finished BAD_CAP out \<and> kst s' = kst ?s)"
  proof (rule sm_ctrl_wakes[OF a b _ m])
    show "sm_ctrl_op (regs ?s) = 0" by (simp add: ex_syst_simps sm_ctrl_op_def flags_def)
    show "type_of ?s 0x3000 = SM" by (simp add: ex_syst_simps)
    show "si_sm (sems (kst ?s)) 0x3000 = None" by (simp add: ex_syst_def ex_cores_simps ex_sems_def)
    show "length (ex_wait 0x3000) < 2" by (simp add: ex_wait_def)
  qed
  then show ?thesis using p by (auto simp: ex_syst_def ex_cores_simps ex_wait_def dying_def ex_sems_def)
qed

theorem sys_alloc_succeeds_witness:
  "\<exists>out s'. sys_alloc 2 (\<lambda>k. k) (ex_syst (ex_args\<lparr>arg1 := 0x400\<rparr>)) = Inr (out, s') \<and> finished SUCCESS out \<and>
     cpus_of (idle_cpus (kst s')) = {}"
proof -
  let ?s = "ex_syst (ex_args\<lparr>arg1 := 0x400\<rparr>)"
  have k: "kst ?s = ex_cores" by (simp add: ex_syst_def)
  have c: "cur_cell_of ?s = Some 0" by (simp add: cur_cell_of_def k ex_cores_simps) (simp add: ex_syst_def)
  have q: "alloc_quantity (regs ?s) = 2" "alloc_type (regs ?s) = 0"
    by (simp_all add: ex_syst_simps alloc_quantity_def alloc_type_def flags_def)
  obtain out s' N where r: "sys_alloc 2 (\<lambda>k. k) ?s = Inr (out, s')" "finished SUCCESS out" "card N = 2"
    "\<forall>n\<in>N. r_current (resources ex_cores n) = None" "cpus_of (idle_cpus (kst s')) = {1, 2} - N"
    using sys_alloc_succeeds[of "{1, 2}" ?s 2 0 "\<lambda>k. k"] ex_wakeable c q ex_cores_simps(3) unfolding k ex_cores_simps(2) by auto
  have "N \<subseteq> {1, 2}" using r(4) by (auto simp: ex_cores_def add_cpu_def Cpu_resource_new_def split: if_splits)
  then have "N = {1, 2}" using r(3) by (intro card_subset_eq) auto
  then show ?thesis using r by auto
qed


theorem create_authority_witness:
  "\<exists>out s'. sys_create_pt False \<lparr>new_obj = 0x9000, obj_cost = 0, obj_back = 0, slot_cost = 1\<rparr>
      (ex_syst (ex_args\<lparr>arg1 := 0xa00, arg2 := 1, arg3 := 2\<rparr>)) = Inr (out, s') \<and> caps s' 5 = 0x9013"
proof -
  let ?s = "ex_syst (ex_args\<lparr>arg1 := 0xa00, arg2 := 1, arg3 := 2\<rparr>)"
  let ?m = "\<lparr>new_obj = 0x9000, obj_cost = 0, obj_back = 0, slot_cost = 1\<rparr> :: mem_in"
  obtain ok v where ref: "add_ref (2 :: refcount) = (ok, v)" by force
  obtain out s' where r: "sys_create_pt False ?m ?s = Inr (out, s')" and out: "out = Done SUCCESS"
    by (simp add: sys_create_pt_def sys_check_def ex_syst_simps hit_limit_def create_pt_eip_def USER_ADDR_def create_pt_pd_def
      create_pt_ec_def cap_obj_def cap_prm_def bit_simps insert_root_def tree_insert_def node_equal_def create_pt_sel_def
      sys_finish_def Refptr_new_def charge_def upd_sems_def Let_def ex_cores_simps ex_sems_def ref)
  have "create_pt_sel (regs ?s) = 5" by (simp add: ex_syst_simps create_pt_sel_def)
  moreover have "slot_of 5 = 5" by (simp add: slot_of_def num_caps_def)
  moreover have "Capability_make 0x9000 0x13 = 0x9013" by (simp add: Capability_make_def cap_perm_def)
  ultimately show ?thesis using create_authority[of False ?m ?s out s' 0] r out
    by (auto simp: create_post_def finished_def installed_def)
qed

end
