(* ===== verification/Rcu_list.thy ===== *)
theory Rcu_list
  imports Prelude
begin

text \<open>
  The deferred-callback lists of \<open>include/rcu.hpp\<close>: elements are linked by one pointer
  that is null for an element in no list, the value 1 for the last element of a list that is being
  filled, and otherwise the next element; a list keeps its head, the address of the pointer that
  the next element is stored to, and a count. Every CPU has three lists, so that pointer is
  the head of one of them or the link of an element. A list that was appended to another one is
  closed to a ring.
\<close>

datatype 'e nptr = Null | In_use | Elem 'e

datatype which = Next | Curr | Done

datatype 'e tailp = Head_of which | Next_of 'e

record 'e rlist =
  rhead :: "'e nptr"
  rtail :: "'e tailp"
  rcount :: mword

record ('c, 'e) rlists =
  nxt :: "'e \<Rightarrow> 'e nptr"
  lst :: "'c \<Rightarrow> which \<Rightarrow> 'e rlist"

subsection \<open>Operations\<close>

definition rl_clear :: "which \<Rightarrow> 'e rlist" where
  "rl_clear w = \<lparr>rhead = Null, rtail = Head_of w, rcount = 0\<rparr>"

definition rl_empty :: "which \<Rightarrow> 'e rlist \<Rightarrow> bool" where
  "rl_empty w l \<longleftrightarrow> rtail l = Head_of w \<or> rhead l = Null"

definition upd_list :: "'c \<Rightarrow> which \<Rightarrow> ('e rlist \<Rightarrow> 'e rlist) \<Rightarrow> ('c, 'e, 'z) rlists_scheme \<Rightarrow> ('c, 'e, 'z) rlists_scheme" where
  "upd_list c w f s = s\<lparr>lst := (lst s)(c := (lst s c)(w := f (lst s c w)))\<rparr>"

text \<open>A store through the tail pointer of a list of CPU \<open>c\<close>.\<close>

definition store_tail :: "'c \<Rightarrow> 'e tailp \<Rightarrow> 'e nptr \<Rightarrow> ('c, 'e, 'z) rlists_scheme \<Rightarrow> ('c, 'e, 'z) rlists_scheme" where
  "store_tail c p v s = (case p of
       Head_of w \<Rightarrow> upd_list c w (\<lambda>l. l\<lparr>rhead := v\<rparr>) s
     | Next_of e \<Rightarrow> s\<lparr>nxt := (nxt s)(e := v)\<rparr>)"

definition rcu_append :: "'c \<Rightarrow> which \<Rightarrow> which \<Rightarrow> ('c, 'e, 'z) rlists_scheme \<Rightarrow> ('c, 'e, 'z) rlists_scheme" where
  "rcu_append c this l s =
     (let s = store_tail c (rtail (lst s c this)) (rhead (lst s c l)) s;
          s = upd_list c this (\<lambda>x. x\<lparr>rtail := rtail (lst s c l)\<rparr>) s;
          s = store_tail c (rtail (lst s c this)) (rhead (lst s c this)) s;
          s = upd_list c this (\<lambda>x. x\<lparr>rcount := rcount x + rcount (lst s c l)\<rparr>) s
      in upd_list c l (\<lambda>_. rl_clear l) s)"

definition rcu_enqueue :: "'c \<Rightarrow> which \<Rightarrow> 'e \<Rightarrow> ('c, 'e, 'z) rlists_scheme \<Rightarrow> bool \<times> ('c, 'e, 'z) rlists_scheme" where
  "rcu_enqueue c this e s =
     (if nxt s e \<noteq> Null \<and> nxt s e \<noteq> In_use then (False, s)
      else if nxt s e = In_use \<and> rtail (lst s c this) \<noteq> Next_of e then (False, s)
      else
        (let s = (if nxt s e = Null then s\<lparr>nxt := (nxt s)(e := In_use)\<rparr> else s);
             s = store_tail c (rtail (lst s c this)) (Elem e) s
         in (True, upd_list c this (\<lambda>x. x\<lparr>rcount := rcount x + 1, rtail := Next_of e\<rparr>) s)))"

subsection \<open>The elements of a list\<close>

definition chained :: "('e \<Rightarrow> 'e nptr) \<Rightarrow> 'e list \<Rightarrow> bool" where
  "chained nx es \<longleftrightarrow> successively (\<lambda>a b. nx a = Elem b) es"

definition framed :: "which \<Rightarrow> 'e rlist \<Rightarrow> 'e list \<Rightarrow> bool" where
  "framed w l es \<longleftrightarrow>
     (if es = [] then rhead l = Null \<and> rtail l = Head_of w else rhead l = Elem (hd es) \<and> rtail l = Next_of (last es))"

definition open_list :: "('e \<Rightarrow> 'e nptr) \<Rightarrow> which \<Rightarrow> 'e rlist \<Rightarrow> 'e list \<Rightarrow> bool" where
  "open_list nx w l es \<longleftrightarrow> framed w l es \<and> chained nx es \<and> distinct es \<and>
     (es \<noteq> [] \<longrightarrow> nx (last es) \<in> {In_use, Elem (last es)})"

definition ring_list :: "('e \<Rightarrow> 'e nptr) \<Rightarrow> which \<Rightarrow> 'e rlist \<Rightarrow> 'e list \<Rightarrow> bool" where
  "ring_list nx w l es \<longleftrightarrow> framed w l es \<and> chained nx es \<and> distinct es \<and>
     (es \<noteq> [] \<longrightarrow> nx (last es) = Elem (hd es))"

lemma upd_list_simps [simp]:
  "nxt (upd_list c w f s) = nxt s"
  "lst (upd_list c w f s) = (lst s)(c := (lst s c)(w := f (lst s c w)))"
  "nxt (store_tail c (Next_of e) v s) = (nxt s)(e := v)" "lst (store_tail c (Next_of e) v s) = lst s"
  "nxt (store_tail c (Head_of w) v s) = nxt s"
  "lst (store_tail c (Head_of w) v s) = (lst s)(c := (lst s c)(w := (lst s c w)\<lparr>rhead := v\<rparr>))"
  by (simp_all add: upd_list_def store_tail_def)

lemma framed_empty: "framed w l es \<Longrightarrow> rl_empty w l \<longleftrightarrow> es = []"
  by (auto simp: framed_def rl_empty_def split: if_splits)

lemma framed_clear [simp]: "framed w (rl_clear w) []"
  by (simp add: framed_def rl_clear_def)

lemma list_clear [simp]: "open_list nx w (rl_clear w) []" "ring_list nx w (rl_clear w) []"
  by (simp_all add: open_list_def ring_list_def chained_def)

lemma chained_cong: "(\<And>x. x \<in> set (butlast es) \<Longrightarrow> nx x = nx' x) \<Longrightarrow> chained nx es = chained nx' es"
  unfolding chained_def by (induction es rule: induct_list012) (auto simp: successively.simps)

lemma chained_append:
  "chained nx (xs @ ys) \<longleftrightarrow> chained nx xs \<and> chained nx ys \<and> (xs \<noteq> [] \<longrightarrow> ys \<noteq> [] \<longrightarrow> nx (last xs) = Elem (hd ys))"
  unfolding chained_def successively_append_iff by auto

lemma chained_not_Null:
  assumes "chained nx es" "x \<in> set (butlast es)"
  shows "\<exists>y\<in>set (tl es). nx x = Elem y"
  using assms unfolding chained_def
  by (induction es rule: induct_list012) (auto simp: successively.simps split: if_splits)

lemma in_set_butlastI: "x \<in> set es \<Longrightarrow> x \<noteq> last es \<Longrightarrow> x \<in> set (butlast es)"
  by (induction es) auto

lemma last_notin_butlast: "distinct es \<Longrightarrow> es \<noteq> [] \<Longrightarrow> last es \<notin> set (butlast es)"
  by (metis append_butlast_last_id distinct_append disjoint_iff list.set_intros(1))

text \<open>Members of a list have a link; a list does not change when links outside of it do.\<close>

lemma open_list_member:
  assumes "open_list nx w l es" "x \<in> set es"
  shows "nx x \<noteq> Null" "nx x = In_use \<Longrightarrow> x = last es"
proof -
  have "x = last es \<or> (\<exists>y. nx x = Elem y)"
    using assms chained_not_Null[of nx es x] in_set_butlastI[of x es] by (auto simp: open_list_def)
  then show "nx x \<noteq> Null" "nx x = In_use \<Longrightarrow> x = last es"
    using assms by (auto simp: open_list_def)
qed

lemma ring_list_member:
  assumes "ring_list nx w l es" "x \<in> set es"
  shows "\<exists>y\<in>set es. nx x = Elem y"
proof (cases "x = last es")
  case True
  then show ?thesis using assms by (cases es) (auto simp: ring_list_def)
next
  case False
  then have "x \<in> set (butlast es)" using assms(2) by (rule in_set_butlastI[rotated])
  then show ?thesis using assms chained_not_Null[of nx es x] by (auto simp: ring_list_def dest: list.set_sel(2)[rotated])
qed

lemma list_frame:
  assumes "x \<notin> set es"
  shows "open_list (nx(x := v)) w l es = open_list nx w l es" "ring_list (nx(x := v)) w l es = ring_list nx w l es"
proof -
  have "chained (nx(x := v)) es = chained nx es"
    using assms by (intro chained_cong) (auto dest: in_set_butlastD)
  moreover have "es \<noteq> [] \<Longrightarrow> last es \<noteq> x" using assms by auto
  ultimately show "open_list (nx(x := v)) w l es = open_list nx w l es" "ring_list (nx(x := v)) w l es = ring_list nx w l es"
    by (auto simp: open_list_def ring_list_def)
qed

lemma framed_fields: "rhead l' = rhead l \<Longrightarrow> rtail l' = rtail l \<Longrightarrow> framed w l' es = framed w l es"
  by (simp add: framed_def)

text \<open>Enqueueing: an element in no list goes to the end; the last element stays where it is.\<close>

lemma rcu_enqueue_new:
  assumes "open_list (nxt s) w (lst s c w) es" "nxt s e = Null"
  shows "\<exists>s'. rcu_enqueue c w e s = (True, s') \<and> open_list (nxt s') w (lst s' c w) (es @ [e]) \<and>
    (\<forall>x. x \<noteq> e \<longrightarrow> x \<notin> set es \<longrightarrow> nxt s' x = nxt s x) \<and> (\<forall>d v. (d, v) \<noteq> (c, w) \<longrightarrow> lst s' d v = lst s d v)"
proof -
  let ?s1 = "store_tail c (rtail (lst s c w)) (Elem e) (s\<lparr>nxt := (nxt s)(e := In_use)\<rparr>)"
  let ?s2 = "upd_list c w (\<lambda>x. x\<lparr>rcount := rcount x + 1, rtail := Next_of e\<rparr>) ?s1"
  have e: "e \<notin> set es" using open_list_member(1)[OF assms(1)] assms(2) by auto
  have r: "rcu_enqueue c w e s = (True, ?s2)" using assms(2) by (simp add: rcu_enqueue_def)
  show ?thesis
  proof (cases es)
    case Nil
    then have "rtail (lst s c w) = Head_of w" using assms(1) by (simp add: open_list_def framed_def)
    then show ?thesis unfolding r using Nil by (auto simp: open_list_def framed_def chained_def)
  next
    case (Cons a as)
    have l: "last es \<noteq> e" "last es \<in> set es" using e Cons by auto
    have tl: "rtail (lst s c w) = Next_of (last es)" "rhead (lst s c w) = Elem (hd es)" "chained (nxt s) es" "distinct es"
      using assms(1) Cons by (auto simp: open_list_def framed_def)
    have "chained ((nxt s)(e := In_use, last es := Elem e)) es = chained (nxt s) es"
      using e l(1) last_notin_butlast[OF tl(4)] Cons by (intro chained_cong) (auto dest: in_set_butlastD)
    then have "chained ((nxt s)(e := In_use, last es := Elem e)) (es @ [e])"
      using tl(3) by (simp add: chained_append) (simp add: chained_def)
    then have "open_list (nxt ?s2) w (lst ?s2 c w) (es @ [e])"
      using tl e l by (auto simp: open_list_def framed_def Cons)
    then show ?thesis unfolding r using tl(1) l by auto
  qed
qed

lemma rcu_enqueue_tail:
  assumes "open_list (nxt s) w (lst s c w) es" "nxt s e = In_use" "rcu_enqueue c w e s = (True, s')"
  shows "e \<in> set es" "open_list (nxt s') w (lst s' c w) es"
    "\<And>x. x \<notin> set es \<Longrightarrow> nxt s' x = nxt s x" "\<And>d v. (d, v) \<noteq> (c, w) \<Longrightarrow> lst s' d v = lst s d v"
proof -
  have tl: "rtail (lst s c w) = Next_of e"
    and s': "s' = upd_list c w (\<lambda>x. x\<lparr>rcount := rcount x + 1, rtail := Next_of e\<rparr>) (store_tail c (Next_of e) (Elem e) s)"
    using assms(2,3) by (auto simp: rcu_enqueue_def Let_def split: if_splits)
  have ne: "es \<noteq> []" "e = last es" using assms(1) tl by (auto simp: open_list_def framed_def split: if_splits)
  have "chained ((nxt s)(e := Elem e)) es = chained (nxt s) es"
    using assms(1) ne last_notin_butlast[of es] by (intro chained_cong) (auto simp: open_list_def)
  then show "e \<in> set es" "open_list (nxt s') w (lst s' c w) es" using assms(1) ne by (auto simp: s' open_list_def framed_def)
  then show "\<And>x. x \<notin> set es \<Longrightarrow> nxt s' x = nxt s x" "\<And>d v. (d, v) \<noteq> (c, w) \<Longrightarrow> lst s' d v = lst s d v"
    by (auto simp: s')
qed

lemma rcu_append_spec:
  assumes "framed this (lst s c this) xs" "chained (nxt s) xs" "framed l (lst s c l) ys" "chained (nxt s) ys"
    and "distinct (xs @ ys)" "ys \<noteq> []" "this \<noteq> l"
  defines "s' \<equiv> rcu_append c this l s"
  shows "ring_list (nxt s') this (lst s' c this) (xs @ ys)" "lst s' c l = rl_clear l"
    "\<And>x. x \<notin> set (xs @ ys) \<Longrightarrow> nxt s' x = nxt s x" "\<And>d v. (d, v) \<noteq> (c, this) \<Longrightarrow> (d, v) \<noteq> (c, l) \<Longrightarrow> lst s' d v = lst s d v"
proof -
  have l: "rhead (lst s c l) = Elem (hd ys)" "rtail (lst s c l) = Next_of (last ys)" using assms(3,6) by (auto simp: framed_def)
  have ly: "last ys \<in> set ys" "last ys \<notin> set (butlast ys)" "hd ys \<in> set ys" using assms(5,6) last_notin_butlast[of ys] by auto
  let ?nx = "(if xs = [] then nxt s else (nxt s)(last xs := Elem (hd ys)))(last ys := Elem (hd (xs @ ys)))"
  have s': "nxt s' = ?nx" "lst s' = (lst s)(c := (lst s c)
      (this := \<lparr>rhead = Elem (hd (xs @ ys)), rtail = Next_of (last ys), rcount = rcount (lst s c this) + rcount (lst s c l)\<rparr>, l := rl_clear l))"
  proof -
    have "nxt s' = ?nx \<and> lst s' = (lst s)(c := (lst s c)
      (this := \<lparr>rhead = Elem (hd (xs @ ys)), rtail = Next_of (last ys), rcount = rcount (lst s c this) + rcount (lst s c l)\<rparr>, l := rl_clear l))"
    proof (cases "xs = []")
      case True
      then show ?thesis using assms(1,7) l by (auto simp: s'_def rcu_append_def Let_def framed_def fun_eq_iff)
    next
      case False
      then show ?thesis using assms(1,7) l by (auto simp: s'_def rcu_append_def Let_def framed_def fun_eq_iff)
    qed
    then show "nxt s' = ?nx" "lst s' = (lst s)(c := (lst s c)
      (this := \<lparr>rhead = Elem (hd (xs @ ys)), rtail = Next_of (last ys), rcount = rcount (lst s c this) + rcount (lst s c l)\<rparr>, l := rl_clear l))"
      by auto
  qed
  have nl: "last xs \<notin> set ys" if "xs \<noteq> []"
    using assms(5) last_in_set[OF that] by (metis disjoint_iff distinct_append)
  have cy: "chained ?nx ys"
  proof -
    have "chained ?nx ys = chained (nxt s) ys"
    proof (rule chained_cong)
      fix x assume x: "x \<in> set (butlast ys)"
      then have "x \<noteq> last ys" "x \<in> set ys" using ly(2) by (auto dest: in_set_butlastD)
      then show "?nx x = nxt s x" using nl by (cases "xs = []") auto
    qed
    then show ?thesis using assms(4) by simp
  qed
  have cx: "chained ?nx xs"
  proof -
    have "chained ?nx xs = chained (nxt s) xs"
    proof (rule chained_cong)
      fix x assume x: "x \<in> set (butlast xs)"
      then have "xs \<noteq> []" by auto
      then have "x \<noteq> last xs" "x \<in> set xs" "xs \<noteq> []"
        using x last_notin_butlast[of xs] assms(5) by (auto dest: in_set_butlastD)
      then show "?nx x = nxt s x" using assms(5) ly(1) by auto
    qed
    then show ?thesis using assms(2) by simp
  qed
  have "xs \<noteq> [] \<Longrightarrow> ?nx (last xs) = Elem (hd ys)" using nl ly(1) by auto
  then have "chained ?nx (xs @ ys)" using cx cy by (simp add: chained_append)
  then show "ring_list (nxt s') this (lst s' c this) (xs @ ys)" using assms(5-7) by (simp add: ring_list_def framed_def s')
  show "lst s' c l = rl_clear l" by (simp add: s')
  show "\<And>x. x \<notin> set (xs @ ys) \<Longrightarrow> nxt s' x = nxt s x" using ly(1) by (auto simp: s')
  show "\<And>d v. (d, v) \<noteq> (c, this) \<Longrightarrow> (d, v) \<noteq> (c, l) \<Longrightarrow> lst s' d v = lst s d v" by (auto simp: s')
qed

end
