(* ===== verification/Rcu.thy ===== *)
theory Rcu
  imports Rcu_list
begin

text \<open>
  Read-copy-update, \<open>include/rcu.hpp\<close> and \<open>src/rcu.cpp\<close>. A batch is a period in
  which every CPU has to pass a quiescent state (\<open>quiet\<close>, on its way to user mode); the
  global word \<open>state\<close> holds the number of the current batch and two bits: the batch is
  complete, and another batch is wanted. The CPUs interleave at the accesses to the
  shared words: \<open>update\<close> and \<open>quiet\<close> are split at every read or write of
  \<open>state\<close> and \<open>count\<close>, the compare-and-swap loop of \<open>start_batch\<close> is one step, and
  each callback of \<open>invoke_batch\<close> is one, between which callbacks may hand on further
  elements. \<open>since\<close> is auxiliary: the CPUs that were quiescent since an element was
  handed over.
\<close>

definition RCU_CMP :: mword where "RCU_CMP = 1"
definition RCU_PND :: mword where "RCU_PND = 2"

datatype 'e rcu_pc = Idle | Upd2 | Upd3 | Start mword bool | Cnt bool | Inc bool | Upd4 | Run "'e nptr"

datatype ('c, 'e) rcu_event = Pre_func 'e | Ipi_idle 'c | Func 'e "'c set"

record ('c, 'e) rcu = "('c, 'e) rlists" +
  rstate :: mword
  rcnt :: mword
  online :: mword
  l_batch :: "'c \<Rightarrow> mword"
  c_batch :: "'c \<Rightarrow> mword"
  hz_rcu :: "'c \<Rightarrow> bool"
  rpc :: "'c \<Rightarrow> 'e rcu_pc"
  rlog :: "('c, 'e) rcu_event list"
  since :: "'e \<Rightarrow> 'c set"

definition batch :: "mword \<Rightarrow> mword" where
  "batch v = drop_bit 2 v"

definition complete :: "mword \<Rightarrow> mword \<Rightarrow> bool" where
  "complete v b \<longleftrightarrow> 0 < sint ((v AND NOT RCU_PND) - push_bit 2 b)"

definition goto :: "'c \<Rightarrow> 'e rcu_pc \<Rightarrow> ('c, 'e) rcu \<Rightarrow> ('c, 'e) rcu" where
  "goto c p s = s\<lparr>rpc := (rpc s)(c := p)\<rparr>"

definition call_rcu :: "('e \<Rightarrow> bool) \<Rightarrow> 'c \<Rightarrow> 'e \<Rightarrow> ('c, 'e) rcu \<Rightarrow> bool \<times> ('c, 'e) rcu" where
  "call_rcu pre c e s =
     (let s = (if pre e then s\<lparr>rlog := rlog s @ [Pre_func e]\<rparr> else s)
      in (case rcu_enqueue c Next e s of
            (ok, s) \<Rightarrow> (ok, if ok then s\<lparr>since := (since s)(e := {})\<rparr> else s)))"

definition resume :: "bool \<Rightarrow> 'e rcu_pc" where
  "resume upd = (if upd then Upd4 else Idle)"

definition start_loop :: "'c \<Rightarrow> mword \<Rightarrow> bool \<Rightarrow> ('c, 'e) rcu \<Rightarrow> ('c, 'e) rcu" where
  "start_loop c b upd s =
     (let v = rstate s; m = RCU_CMP OR RCU_PND
      in if batch v \<noteq> l_batch s c then goto c (resume upd) s
         else
           (let s = (if v AND b = 0 then s\<lparr>rstate := v OR b\<rparr> else s)
            in if (v XOR NOT b) AND m \<noteq> 0 then goto c (resume upd) s else goto c (Cnt upd) s))"

definition set_count :: "'c \<Rightarrow> bool \<Rightarrow> ('c, 'e) rcu \<Rightarrow> ('c, 'e) rcu" where
  "set_count c upd s = goto c (Inc upd) (s\<lparr>rcnt := online s\<rparr>)"

definition inc_state :: "'c \<Rightarrow> bool \<Rightarrow> ('c, 'e) rcu \<Rightarrow> ('c, 'e) rcu" where
  "inc_state c upd s = goto c (resume upd) (s\<lparr>rstate := rstate s + 1\<rparr>)"

definition quiet :: "'c \<Rightarrow> ('c, 'e) rcu \<Rightarrow> ('c, 'e) rcu" where
  "quiet c s =
     (let n = rcnt s - 1
      in goto c (if n = 0 then Start RCU_CMP False else Idle)
           (s\<lparr>hz_rcu := (hz_rcu s)(c := False), rcnt := n, since := (\<lambda>e. insert c (since s e))\<rparr>))"

definition update1 :: "'c \<Rightarrow> ('c, 'e) rcu \<Rightarrow> ('c, 'e) rcu" where
  "update1 c s =
     goto c Upd2 (if l_batch s c \<noteq> batch (rstate s)
       then s\<lparr>l_batch := (l_batch s)(c := batch (rstate s)), hz_rcu := (hz_rcu s)(c := True)\<rparr> else s)"

definition update2 :: "'c \<Rightarrow> ('c, 'e) rcu \<Rightarrow> ('c, 'e) rcu" where
  "update2 c s =
     goto c Upd3 (if \<not> rl_empty Curr (lst s c Curr) \<and> complete (rstate s) (c_batch s c) then rcu_append c Done Curr s else s)"

definition update3 :: "'c \<Rightarrow> ('c, 'e) rcu \<Rightarrow> ('c, 'e) rcu" where
  "update3 c s =
     (if rl_empty Curr (lst s c Curr) \<and> \<not> rl_empty Next (lst s c Next)
      then goto c (Start RCU_PND True) ((rcu_append c Curr Next s)\<lparr>c_batch := (c_batch s)(c := l_batch s c + 1)\<rparr>)
      else goto c Upd4 s)"

text \<open>The IPIs to the other online CPUs, and the beginning of \<open>invoke_batch\<close>.\<close>

definition update4 :: "bool \<Rightarrow> 'c list \<Rightarrow> 'c \<Rightarrow> ('c, 'e) rcu \<Rightarrow> ('c, 'e) rcu" where
  "update4 check cpus c s =
     (let s = (if check \<and> \<not> rl_empty Curr (lst s c Curr) \<and> \<not> rl_empty Next (lst s c Next) \<and>
                   (2000 < rcount (lst s c Next) \<or> 2000 < rcount (lst s c Curr))
               then s\<lparr>rlog := rlog s @ map Ipi_idle (filter (\<lambda>d. d \<noteq> c) cpus)\<rparr> else s)
      in if \<not> rl_empty Done (lst s c Done) then goto c (Run (rhead (lst s c Done))) s else goto c Idle s)"

definition invoke :: "'c \<Rightarrow> 'e \<Rightarrow> ('c, 'e) rcu \<Rightarrow> ('c, 'e) rcu" where
  "invoke c e s =
     (let n = nxt s e;
          s = s\<lparr>nxt := (nxt s)(e := Null), rlog := rlog s @ [Func e (since s e)]\<rparr>
      in if n \<noteq> rhead (lst s c Done) then goto c (Run n) s
         else goto c Idle (upd_list c Done (\<lambda>_. rl_clear Done) s))"

definition rcu_init :: "mword \<Rightarrow> ('c, 'e) rcu" where
  "rcu_init n = \<lparr>nxt = (\<lambda>_. Null), lst = (\<lambda>_. rl_clear), rstate = RCU_CMP, rcnt = 0, online = n, l_batch = (\<lambda>_. 0),
     c_batch = (\<lambda>_. 0), hz_rcu = (\<lambda>_. False), rpc = (\<lambda>_. Idle), rlog = [], since = (\<lambda>_. {})\<rparr>"

definition may_call :: "'e rcu_pc \<Rightarrow> bool" where
  "may_call p = (case p of Idle \<Rightarrow> True | Run _ \<Rightarrow> True | _ \<Rightarrow> False)"

inductive rcu_step :: "'c set \<Rightarrow> ('c, 'e) rcu \<Rightarrow> ('c, 'e) rcu \<Rightarrow> bool" for Cs where
  rs_call: "c \<in> Cs \<Longrightarrow> may_call (rpc s c) \<Longrightarrow> rcu_step Cs s (snd (call_rcu pre c e s))"
| rs_quiet: "c \<in> Cs \<Longrightarrow> rpc s c = Idle \<Longrightarrow> hz_rcu s c \<Longrightarrow> rcu_step Cs s (quiet c s)"
| rs_update1: "c \<in> Cs \<Longrightarrow> rpc s c = Idle \<Longrightarrow> rcu_step Cs s (update1 c s)"
| rs_update2: "c \<in> Cs \<Longrightarrow> rpc s c = Upd2 \<Longrightarrow> rcu_step Cs s (update2 c s)"
| rs_update3: "c \<in> Cs \<Longrightarrow> rpc s c = Upd3 \<Longrightarrow> rcu_step Cs s (update3 c s)"
| rs_start: "c \<in> Cs \<Longrightarrow> rpc s c = Start b u \<Longrightarrow> rcu_step Cs s (start_loop c b u s)"
| rs_count: "c \<in> Cs \<Longrightarrow> rpc s c = Cnt u \<Longrightarrow> rcu_step Cs s (set_count c u s)"
| rs_inc: "c \<in> Cs \<Longrightarrow> rpc s c = Inc u \<Longrightarrow> rcu_step Cs s (inc_state c u s)"
| rs_update4: "c \<in> Cs \<Longrightarrow> rpc s c = Upd4 \<Longrightarrow> rcu_step Cs s (update4 check cpus c s)"
| rs_invoke: "c \<in> Cs \<Longrightarrow> rpc s c = Run (Elem e) \<Longrightarrow> rcu_step Cs s (invoke c e s)"

definition rcu_reach :: "'c set \<Rightarrow> ('c, 'e) rcu \<Rightarrow> bool" where
  "rcu_reach Cs s \<longleftrightarrow> (rcu_step Cs)\<^sup>*\<^sup>* (rcu_init (of_nat (card Cs))) s"

subsection \<open>The lists of all CPUs\<close>

text \<open>While a CPU runs callbacks, what is left of its list of finished elements ends at the former head.\<close>

definition running :: "('e \<Rightarrow> 'e nptr) \<Rightarrow> 'e nptr \<Rightarrow> 'e nptr \<Rightarrow> 'e list \<Rightarrow> bool" where
  "running nx p h es \<longleftrightarrow> es \<noteq> [] \<and> p = Elem (hd es) \<and> chained nx es \<and> distinct es \<and> nx (last es) = h \<and>
     h \<notin> Elem ` set (tl es) \<and> (\<exists>x. h = Elem x)"

definition lrep :: "('c, 'e) rcu \<Rightarrow> 'c \<Rightarrow> which \<Rightarrow> 'e list \<Rightarrow> bool" where
  "lrep s c w es = (case w of
       Next \<Rightarrow> open_list (nxt s) Next (lst s c Next) es
     | Curr \<Rightarrow> ring_list (nxt s) Curr (lst s c Curr) es
     | Done \<Rightarrow> (case rpc s c of Run p \<Rightarrow> running (nxt s) p (rhead (lst s c Done)) es
                | _ \<Rightarrow> ring_list (nxt s) Done (lst s c Done) es))"

type_synonym ('c, 'e) rqueues = "'c \<Rightarrow> which \<Rightarrow> 'e list"

definition lists_ok :: "('c, 'e) rcu \<Rightarrow> ('c, 'e) rqueues \<Rightarrow> bool" where
  "lists_ok s q \<longleftrightarrow> (\<forall>c w. lrep s c w (q c w)) \<and>
     (\<forall>c w d v e. e \<in> set (q c w) \<longrightarrow> e \<in> set (q d v) \<longrightarrow> c = d \<and> w = v)"

definition runs :: "'e rcu_pc \<Rightarrow> bool" where
  "runs p = (case p of Run _ \<Rightarrow> True | _ \<Rightarrow> False)"

lemma runs_simps [simp]: "\<not> runs Idle" "\<not> runs Upd2" "\<not> runs Upd3" "\<not> runs Upd4" "\<not> runs (Start b u)" "\<not> runs (Cnt u)"
  "\<not> runs (Inc u)" "runs (Run p)" "\<not> runs (resume u)"
  by (simp_all add: runs_def resume_def)

lemma lrep_Done: "lrep s c Done es = (if runs (rpc s c) then running (nxt s) (case rpc s c of Run p \<Rightarrow> p) (rhead (lst s c Done)) es
    else ring_list (nxt s) Done (lst s c Done) es)"
  by (simp add: lrep_def runs_def split: rcu_pc.split)

lemma lrep_simps: "lrep s c Next es = open_list (nxt s) Next (lst s c Next) es" "lrep s c Curr es = ring_list (nxt s) Curr (lst s c Curr) es"
  "\<not> runs (rpc s c) \<Longrightarrow> lrep s c Done es = ring_list (nxt s) Done (lst s c Done) es"
  "rpc s c = Run p \<Longrightarrow> lrep s c Done es = running (nxt s) p (rhead (lst s c Done)) es"
  by (simp_all add: lrep_Done) (simp_all add: lrep_def)

lemma lrep_cong:
  assumes "lst s' c w = lst s c w" "w = Done \<Longrightarrow> rpc s' c = rpc s c \<or> \<not> runs (rpc s c) \<and> \<not> runs (rpc s' c)"
    and "\<And>x. x \<in> set es \<Longrightarrow> nxt s' x = nxt s x"
  shows "lrep s' c w es = lrep s c w es"
proof -
  have ch: "chained (nxt s') es = chained (nxt s) es" using assms(3) by (intro chained_cong) (auto dest: in_set_butlastD)
  have la: "es \<noteq> [] \<Longrightarrow> nxt s' (last es) = nxt s (last es)" using assms(3) by simp
  show ?thesis
  proof (cases w)
    case Done
    then show ?thesis using assms(1,2) ch la by (auto simp: lrep_Done running_def ring_list_def)
  qed (use assms(1) ch la in \<open>auto simp: lrep_def open_list_def ring_list_def\<close>)
qed

lemma lrep_member: "lrep s c w es \<Longrightarrow> x \<in> set es \<Longrightarrow> nxt s x \<noteq> Null"
proof (cases w)
  case Done
  assume a: "lrep s c w es" "x \<in> set es"
  show ?thesis
  proof (cases "runs (rpc s c)")
    case True
    then have r: "chained (nxt s) es" "\<exists>y. nxt s (last es) = Elem y" using a Done by (auto simp: lrep_Done running_def)
    then show ?thesis using chained_not_Null[OF r(1)] in_set_butlastI[OF a(2)] by fastforce
  qed (use a Done ring_list_member in \<open>fastforce simp: lrep_Done\<close>)
qed (use open_list_member ring_list_member in \<open>fastforce simp: lrep_def\<close>)+

lemma lrep_distinct: "lrep s c w es \<Longrightarrow> distinct es"
  by (cases w) (auto simp: lrep_Done lrep_def open_list_def ring_list_def running_def split: if_splits rcu_pc.splits)

lemma lists_okD:
  assumes "lists_ok s q"
  shows "lrep s c w (q c w)" "e \<in> set (q c w) \<Longrightarrow> e \<in> set (q d v) \<Longrightarrow> c = d \<and> w = v" "e \<in> set (q c w) \<Longrightarrow> nxt s e \<noteq> Null"
  using assms lrep_member[of s c w] by (auto simp: lists_ok_def)

text \<open>Changes of other fields, and of the place where a CPU is as long as it runs no callbacks.\<close>

lemma lists_ok_cong:
  assumes "nxt s' = nxt s" "lst s' = lst s" "\<And>c. rpc s' c = rpc s c \<or> \<not> runs (rpc s c) \<and> \<not> runs (rpc s' c)"
  shows "lists_ok s' q = lists_ok s q"
proof -
  have "lrep s' c w (q c w) = lrep s c w (q c w)" for c w by (rule lrep_cong) (use assms in auto)
  then show ?thesis by (simp add: lists_ok_def)
qed

text \<open>A change of some lists of one CPU.\<close>

lemma lists_ok_change:
  assumes "lists_ok s q" "\<And>d w. d \<noteq> c \<Longrightarrow> lst s' d w = lst s d w \<and> rpc s' d = rpc s d"
    and "\<And>x. nxt s' x \<noteq> nxt s x \<Longrightarrow> x \<in> E" "\<And>d w. d \<noteq> c \<Longrightarrow> E \<inter> set (q d w) = {}"
    and "\<And>w. lrep s' c w (q' w)" "\<And>w v e. e \<in> set (q' w) \<Longrightarrow> e \<in> set (q' v) \<Longrightarrow> w = v"
    and "\<And>w. set (q' w) \<subseteq> E \<union> (\<Union>v. set (q c v))"
  shows "lists_ok s' (q(c := q'))"
proof -
  have "lrep s' d w ((q(c := q')) d w)" for d w
  proof (cases "d = c")
    case False
    have "lrep s' d w (q d w) = lrep s d w (q d w)"
    proof (rule lrep_cong)
      fix x assume "x \<in> set (q d w)"
      then have "x \<notin> E" using assms(4)[OF False, of w] by auto
      then show "nxt s' x = nxt s x" using assms(3) by auto
    qed (use assms(2)[OF False] in auto)
    then show ?thesis using lists_okD(1)[OF assms(1), of d w] False by simp
  qed (use assms(5) in simp)
  moreover have "d = d' \<and> w = v" if "e \<in> set ((q(c := q')) d w)" "e \<in> set ((q(c := q')) d' v)" for d w d' v e
  proof -
    have other: "e \<notin> set (q d v)" if "e \<in> set (q' w)" "d \<noteq> c" for d v w
    proof -
      have "e \<in> E \<or> (\<exists>u. e \<in> set (q c u))" using assms(7)[of w] that by auto
      then show ?thesis using assms(4)[OF that(2), of v] that lists_okD(2)[OF assms(1), of e c _ d v] by auto
    qed
    show ?thesis
    proof (cases "d = c"; cases "d' = c")
      assume a: "d = c" "d' = c"
      then have "w = v" using that by (intro assms(6)[of e w v]) simp_all
      with a show ?thesis by simp
    next
      assume "d = c" "d' \<noteq> c"
      then show ?thesis using that other[of w d' v] by simp
    next
      assume "d \<noteq> c" "d' = c"
      then show ?thesis using that other[of v d w] by simp
    next
      assume "d \<noteq> c" "d' \<noteq> c"
      then show ?thesis using that by (intro lists_okD(2)[OF assms(1), of e d w d' v]) simp_all
    qed
  qed
  ultimately show ?thesis unfolding lists_ok_def by blast
qed

text \<open>The steps on lists.\<close>

lemma list_ops_fields [simp]:
  "rstate (upd_list c w f s) = rstate s" "rcnt (upd_list c w f s) = rcnt s" "online (upd_list c w f s) = online s"
  "l_batch (upd_list c w f s) = l_batch s" "c_batch (upd_list c w f s) = c_batch s" "hz_rcu (upd_list c w f s) = hz_rcu s"
  "rpc (upd_list c w f s) = rpc s" "since (upd_list c w f s) = since s" "rlog (upd_list c w f s) = rlog s"
  "rstate (store_tail c p v s) = rstate s" "rcnt (store_tail c p v s) = rcnt s" "online (store_tail c p v s) = online s"
  "l_batch (store_tail c p v s) = l_batch s" "c_batch (store_tail c p v s) = c_batch s" "hz_rcu (store_tail c p v s) = hz_rcu s"
  "rpc (store_tail c p v s) = rpc s" "since (store_tail c p v s) = since s" "rlog (store_tail c p v s) = rlog s"
  by (simp_all add: upd_list_def store_tail_def split: tailp.split)

lemma append_fields [simp]:
  "rstate (rcu_append c w l s) = rstate s" "rcnt (rcu_append c w l s) = rcnt s" "online (rcu_append c w l s) = online s"
  "l_batch (rcu_append c w l s) = l_batch s" "c_batch (rcu_append c w l s) = c_batch s" "hz_rcu (rcu_append c w l s) = hz_rcu s"
  "rpc (rcu_append c w l s) = rpc s" "since (rcu_append c w l s) = since s" "rlog (rcu_append c w l s) = rlog s"
  by (simp_all add: rcu_append_def Let_def)

lemma goto_fields [simp]:
  "nxt (goto c p s) = nxt s" "lst (goto c p s) = lst s" "rstate (goto c p s) = rstate s" "rcnt (goto c p s) = rcnt s"
  "online (goto c p s) = online s" "l_batch (goto c p s) = l_batch s" "c_batch (goto c p s) = c_batch s"
  "hz_rcu (goto c p s) = hz_rcu s" "rpc (goto c p s) = (rpc s)(c := p)" "since (goto c p s) = since s" "rlog (goto c p s) = rlog s"
  by (simp_all add: goto_def)

lemma enqueue_lists:
  assumes "lists_ok s q" "rcu_enqueue c Next e s = (ok, s')"
  shows "\<exists>es. lists_ok s' (q(c := (q c)(Next := es))) \<and> set es \<subseteq> insert e (set (q c Next)) \<and> (ok \<longrightarrow> e \<in> set es)"
proof -
  have op: "open_list (nxt s) Next (lst s c Next) (q c Next)" using lists_okD(1)[OF assms(1), of c Next] by (simp add: lrep_def)
  have pc: "rpc s' = rpc s" using assms(2) by (auto simp: rcu_enqueue_def Let_def split: if_splits)
  show ?thesis
  proof (cases ok)
    case False
    then have "s' = s" using assms(2) by (auto simp: rcu_enqueue_def Let_def split: if_splits)
    then show ?thesis using assms(1) False by (intro exI[of _ "q c Next"]) auto
  next
    case True
    have key: "\<exists>es. open_list (nxt s') Next (lst s' c Next) es \<and> set es = insert e (set (q c Next)) \<and>
       (\<forall>x. x \<notin> set es \<longrightarrow> nxt s' x = nxt s x) \<and> (\<forall>d v. (d, v) \<noteq> (c, Next) \<longrightarrow> lst s' d v = lst s d v) \<and>
       (\<forall>d v. (d, v) \<noteq> (c, Next) \<longrightarrow> e \<notin> set (q d v))"
    proof (cases "nxt s e = Null")
      case Null: True
      then have "e \<notin> set (q d v)" for d v using lists_okD(3)[OF assms(1)] by auto
      then show ?thesis using rcu_enqueue_new[OF op Null] assms(2) by (intro exI[of _ "q c Next @ [e]"]) auto
    next
      case False
      then have u: "nxt s e = In_use" using assms(2) True by (auto simp: rcu_enqueue_def split: if_splits)
      have "rcu_enqueue c Next e s = (True, s')" using assms(2) True by simp
      note r = rcu_enqueue_tail[OF op u this]
      have "e \<notin> set (q d v)" if "(d, v) \<noteq> (c, Next)" for d v using lists_okD(2)[OF assms(1) r(1), of d v] that by auto
      then show ?thesis using r by (intro exI[of _ "q c Next"]) auto
    qed
    then obtain es where es: "open_list (nxt s') Next (lst s' c Next) es" "set es = insert e (set (q c Next))"
      "\<And>x. x \<notin> set es \<Longrightarrow> nxt s' x = nxt s x" "\<And>d v. (d, v) \<noteq> (c, Next) \<Longrightarrow> lst s' d v = lst s d v"
      "\<And>d v. (d, v) \<noteq> (c, Next) \<Longrightarrow> e \<notin> set (q d v)" by auto
    have dis: "set es \<inter> set (q d v) = {}" if "(d, v) \<noteq> (c, Next)" for d v
      using es(2,5) that lists_okD(2)[OF assms(1), of _ c Next d v] by auto
    have "lists_ok s' (q(c := (q c)(Next := es)))"
    proof (rule lists_ok_change[OF assms(1), where E = "set es"])
      show "lst s' d w = lst s d w \<and> rpc s' d = rpc s d" if "d \<noteq> c" for d w using es(4) pc that by simp
      show "x \<in> set es" if "nxt s' x \<noteq> nxt s x" for x using es(3) that by blast
      show "set es \<inter> set (q d w) = {}" if "d \<noteq> c" for d w using dis that by simp
      show "lrep s' c w (((q c)(Next := es)) w)" for w
      proof (cases "w = Next")
        case False
        have "lrep s' c w (q c w) = lrep s c w (q c w)"
        proof (rule lrep_cong)
          fix x assume "x \<in> set (q c w)"
          then show "nxt s' x = nxt s x" using dis[of c w] False es(3)[of x] by auto
        qed (use es(4) pc False in auto)
        then show ?thesis using lists_okD(1)[OF assms(1), of c w] False by simp
      qed (use es(1) in \<open>simp add: lrep_def\<close>)
      show "w = v" if "x \<in> set (((q c)(Next := es)) w)" "x \<in> set (((q c)(Next := es)) v)" for w v x
        using that dis[of c w] dis[of c v] lists_okD(2)[OF assms(1), of x c w c v] by (auto split: if_splits)
      show "set (((q c)(Next := es)) w) \<subseteq> set es \<union> (\<Union>v. set (q c v))" for w by auto
    qed
    then show ?thesis using es(2) by auto
  qed
qed

lemma call_lists:
  assumes "lists_ok s q" "call_rcu pre c e s = (ok, s')"
  shows "\<exists>es. lists_ok s' (q(c := (q c)(Next := es))) \<and> set es \<subseteq> insert e (set (q c Next)) \<and> (ok \<longrightarrow> e \<in> set es)"
    "rstate s' = rstate s" "rcnt s' = rcnt s" "online s' = online s" "l_batch s' = l_batch s" "c_batch s' = c_batch s"
    "hz_rcu s' = hz_rcu s" "rpc s' = rpc s" "since s' = (if ok then (since s)(e := {}) else since s)"
    "rlog s' = rlog s \<or> rlog s' = rlog s @ [Pre_func e]"
proof -
  define s0 where "s0 = (if pre e then s\<lparr>rlog := rlog s @ [Pre_func e]\<rparr> else s)"
  obtain s1 where s1: "rcu_enqueue c Next e s0 = (ok, s1)" "s' = (if ok then s1\<lparr>since := (since s1)(e := {})\<rparr> else s1)"
    using assms(2) by (auto simp: call_rcu_def Let_def simp flip: s0_def split: prod.splits)
  have "lists_ok s0 q" using assms(1) by (subst lists_ok_cong[of s0 s]) (auto simp: s0_def)
  from enqueue_lists[OF this s1(1)] obtain es where es: "lists_ok s1 (q(c := (q c)(Next := es)))"
    "set es \<subseteq> insert e (set (q c Next))" "ok \<longrightarrow> e \<in> set es" by blast
  have "lists_ok s' (q(c := (q c)(Next := es)))" using es(1) by (subst lists_ok_cong[of s' s1]) (auto simp: s1(2))
  then show "\<exists>es. lists_ok s' (q(c := (q c)(Next := es))) \<and> set es \<subseteq> insert e (set (q c Next)) \<and> (ok \<longrightarrow> e \<in> set es)"
    using es by blast
  have f: "rstate s1 = rstate s0" "rcnt s1 = rcnt s0" "online s1 = online s0" "l_batch s1 = l_batch s0" "c_batch s1 = c_batch s0"
    "hz_rcu s1 = hz_rcu s0" "rpc s1 = rpc s0" "since s1 = since s0" "rlog s1 = rlog s0"
    using s1(1) by (auto simp: rcu_enqueue_def Let_def split: if_splits)
  then show "rstate s' = rstate s" "rcnt s' = rcnt s" "online s' = online s" "l_batch s' = l_batch s" "c_batch s' = c_batch s"
    "hz_rcu s' = hz_rcu s" "rpc s' = rpc s" "since s' = (if ok then (since s)(e := {}) else since s)"
    "rlog s' = rlog s \<or> rlog s' = rlog s @ [Pre_func e]"
    by (auto simp: s1(2) s0_def)
qed

lemma append_lists:
  assumes "lists_ok s q" "\<not> runs (rpc s c)" "q c l \<noteq> []" "this \<noteq> Next" "this \<noteq> l" "\<not> runs (rpc s' c)"
    and "nxt s' = nxt (rcu_append c this l s)" "lst s' = lst (rcu_append c this l s)" "\<And>d. d \<noteq> c \<Longrightarrow> rpc s' d = rpc s d"
  shows "lists_ok s' (q(c := (q c)(this := q c this @ q c l, l := [])))"
proof -
  have frm: "framed w (lst s c w) (q c w) \<and> chained (nxt s) (q c w)" for w
    using lists_okD(1)[OF assms(1), of c w] assms(2)
    by (cases w) (auto simp: lrep_simps open_list_def ring_list_def)
  have dis: "w = v" if "x \<in> set (q c w)" "x \<in> set (q c v)" for x w v using lists_okD(2)[OF assms(1) that] by simp
  have "distinct (q c this @ q c l)"
    using lrep_distinct[OF lists_okD(1)[OF assms(1)]] dis[of _ this l] assms(5) by auto
  note ap = rcu_append_spec[OF frm[THEN conjunct1] frm[THEN conjunct2] frm[THEN conjunct1] frm[THEN conjunct2] this assms(3,5)]
  let ?E = "set (q c this @ q c l)"
  show ?thesis
  proof (rule lists_ok_change[OF assms(1), where E = ?E])
    show "lst s' d w = lst s d w \<and> rpc s' d = rpc s d" if "d \<noteq> c" for d w using ap(4) assms(8,9) that by simp
    show "x \<in> ?E" if "nxt s' x \<noteq> nxt s x" for x using ap(3) assms(7) that by metis
    show "?E \<inter> set (q d w) = {}" if "d \<noteq> c" for d w using lists_okD(2)[OF assms(1), of _ c _ d w] that by auto
    show "lrep s' c w (((q c)(this := q c this @ q c l, l := [])) w)" for w
    proof (cases "w = this \<or> w = l")
      case True
      then show ?thesis using ap(1,2) assms(4-8) by (cases w) (auto simp: lrep_simps)
    next
      case False
      have "lrep s' c w (q c w) = lrep s c w (q c w)"
      proof (rule lrep_cong)
        fix x assume "x \<in> set (q c w)"
        then have "x \<notin> ?E" using dis[of x w this] dis[of x w l] False by auto
        then show "nxt s' x = nxt s x" using ap(3) assms(7) by simp
      qed (use ap(4) assms(2,6,8) False in auto)
      then show ?thesis using lists_okD(1)[OF assms(1), of c w] False by simp
    qed
    have src: "w \<noteq> l \<and> (if w = this then x \<in> ?E else x \<in> set (q c w) \<and> x \<notin> ?E)"
      if "x \<in> set (((q c)(this := q c this @ q c l, l := [])) w)" for w x
      using that dis[of x w this] dis[of x w l] by (cases "w = l"; cases "w = this") auto
    show "w = v" if "x \<in> set (((q c)(this := q c this @ q c l, l := [])) w)" "x \<in> set (((q c)(this := q c this @ q c l, l := [])) v)" for w v x
      using src[OF that(1)] src[OF that(2)] dis[of x w v] by metis
    show "set (((q c)(this := q c this @ q c l, l := [])) w) \<subseteq> ?E \<union> (\<Union>v. set (q c v))" for w by auto
  qed
qed

lemma lists_empty: "lists_ok s q \<Longrightarrow> \<not> runs (rpc s c) \<or> w \<noteq> Done \<Longrightarrow> rl_empty w (lst s c w) \<longleftrightarrow> q c w = []"
  using lists_okD(1)[of s q c w] by (intro framed_empty) (cases w; auto simp: lrep_simps open_list_def ring_list_def)

lemma update2_lists:
  assumes "lists_ok s q" "rpc s c = Upd2" "q c Curr \<noteq> []" "complete (rstate s) (c_batch s c)"
  shows "lists_ok (update2 c s) (q(c := (q c)(Done := q c Done @ q c Curr, Curr := [])))"
  by (rule append_lists[OF assms(1)]) (use assms lists_empty[OF assms(1), of c Curr] in \<open>auto simp: update2_def\<close>)

lemma update3_lists:
  assumes "lists_ok s q" "rpc s c = Upd3" "q c Curr = []" "q c Next \<noteq> []"
  shows "lists_ok (update3 c s) (q(c := (q c)(Curr := q c Next, Next := [])))"
proof -
  have "lists_ok (update3 c s) (q(c := (q c)(Curr := q c Curr @ q c Next, Next := [])))"
    by (rule append_lists[OF assms(1)])
      (use assms lists_empty[OF assms(1), of c Curr] lists_empty[OF assms(1), of c Next] in \<open>auto simp: update3_def\<close>)
  then show ?thesis using assms(3) by simp
qed

lemma update4_lists:
  assumes "lists_ok s q" "rpc s c = Upd4"
  shows "lists_ok (update4 check cpus c s) q"
proof (cases "q c Done = []")
  case True
  then show ?thesis using assms lists_empty[OF assms(1), of c Done]
    by (subst lists_ok_cong[of _ s]) (auto simp: update4_def Let_def)
next
  case False
  let ?h = "rhead (lst s c Done)"
  have eq: "nxt (update4 check cpus c s) = nxt s" "lst (update4 check cpus c s) = lst s"
    "rpc (update4 check cpus c s) = (rpc s)(c := Run ?h)"
    using assms(2) False lists_empty[OF assms(1), of c Done] by (auto simp: update4_def Let_def)
  have r: "ring_list (nxt s) Done (lst s c Done) (q c Done)" using lists_okD(1)[OF assms(1), of c Done] assms(2) by (simp add: lrep_simps)
  then have "?h = Elem (hd (q c Done))" "distinct (q c Done)" using False by (auto simp: ring_list_def framed_def)
  moreover have "hd (q c Done) \<notin> set (tl (q c Done))" using calculation(2) False by (cases "q c Done") auto
  ultimately have "running (nxt s) ?h ?h (q c Done)" using r False by (auto simp: running_def ring_list_def)
  then have "lrep (update4 check cpus c s) d w (q d w)" for d w
  proof (cases "d = c \<and> w = Done")
    case False
    then have "lrep (update4 check cpus c s) d w (q d w) = lrep s d w (q d w)" by (intro lrep_cong) (auto simp: eq)
    then show ?thesis using lists_okD(1)[OF assms(1)] by simp
  qed (auto simp: lrep_simps eq)
  then show ?thesis using assms(1) by (simp add: lists_ok_def)
qed

lemma invoke_lists:
  assumes "lists_ok s q" "rpc s c = Run (Elem e)"
  shows "q c Done \<noteq> []" "hd (q c Done) = e" "lists_ok (invoke c e s) (q(c := (q c)(Done := tl (q c Done))))"
proof -
  let ?h = "rhead (lst s c Done)" and ?es = "q c Done" and ?s = "invoke c e s"
  have r: "running (nxt s) (Elem e) ?h ?es" using lists_okD(1)[OF assms(1), of c Done] assms(2) by (simp add: lrep_simps)
  then show ne: "?es \<noteq> []" and hd: "hd ?es = e" by (auto simp: running_def)
  obtain xs where es: "?es = e # xs" using ne hd by (cases ?es) auto
  have nx: "nxt ?s = (nxt s)(e := Null)" by (simp add: invoke_def Let_def)
  have enotin: "e \<notin> set xs" using r es by (simp add: running_def)
  have l: "lrep ?s c Done xs"
  proof (cases xs)
    case Nil
    then have "nxt s e = ?h" using r es by (simp add: running_def)
    then show ?thesis using Nil by (simp add: lrep_simps invoke_def)
  next
    case (Cons y ys)
    have n: "nxt s e = Elem y" "chained (nxt s) xs" "last xs = last ?es" "distinct xs"
      using r es Cons chained_append[of "nxt s" "[e]" xs] by (auto simp: running_def)
    have "Elem y \<noteq> ?h" "?h \<notin> Elem ` set ys" using r es Cons by (auto simp: running_def)
    moreover have "chained ((nxt s)(e := Null)) xs = chained (nxt s) xs"
      using enotin by (intro chained_cong) (auto dest: in_set_butlastD)
    moreover have "last xs \<noteq> e" using enotin Cons last_in_set[of xs] by (metis list.distinct(1))
    ultimately show ?thesis using r n Cons by (auto simp: lrep_simps invoke_def running_def es)
  qed
  have "lists_ok ?s (q(c := (q c)(Done := xs)))"
  proof (rule lists_ok_change[OF assms(1), where E = "{e}"])
    show "lst ?s d w = lst s d w \<and> rpc ?s d = rpc s d" if "d \<noteq> c" for d w using that by (simp add: invoke_def Let_def)
    show "x \<in> {e}" if "nxt ?s x \<noteq> nxt s x" for x using that by (simp add: nx split: if_splits)
    show "{e} \<inter> set (q d w) = {}" if "d \<noteq> c" for d w using lists_okD(2)[OF assms(1), of e c Done d w] that es by auto
    show "lrep ?s c w (((q c)(Done := xs)) w)" for w
    proof (cases "w = Done")
      case False
      have "lrep ?s c w (q c w) = lrep s c w (q c w)"
      proof (rule lrep_cong)
        fix x assume "x \<in> set (q c w)"
        then have "x \<noteq> e" using lists_okD(2)[OF assms(1), of e c Done c w] False es by auto
        then show "nxt ?s x = nxt s x" by (simp add: nx)
      qed (use False in \<open>auto simp: invoke_def Let_def\<close>)
      then show ?thesis using lists_okD(1)[OF assms(1), of c w] False by simp
    qed (use l in simp)
    show "w = v" if "x \<in> set (((q c)(Done := xs)) w)" "x \<in> set (((q c)(Done := xs)) v)" for w v x
      using that lists_okD(2)[OF assms(1), of x c w c v] es by (auto split: if_splits)
    have "set xs \<subseteq> (\<Union>v. set (q c v))" using es by (intro subset_trans[OF _ UN_upper[of Done]]) auto
    then show "set (((q c)(Done := xs)) w) \<subseteq> {e} \<union> (\<Union>v. set (q c v))" for w by auto
  qed
  then show "lists_ok ?s (q(c := (q c)(Done := tl ?es)))" using es by simp
qed

subsection \<open>The state word\<close>

text \<open>The state word of batch \<open>G\<close>, with \<open>cm\<close> and \<open>pn\<close> telling whether the batch is complete and
  whether another one is wanted. The batch number is unbounded here; the word holds its lower 62 bits.\<close>

definition stn :: "nat \<Rightarrow> bool \<Rightarrow> bool \<Rightarrow> nat" where
  "stn G cm pn = 4 * G + (if cm then 1 else 0) + (if pn then 2 else 0)"

definition bno :: "nat \<Rightarrow> mword" where
  "bno g = of_nat (g mod 2 ^ 62)"

lemma stn_div [simp]: "stn G cm pn div 4 = G" "stn G cm pn mod 4 = (if cm then 1 else 0) + (if pn then 2 else 0)"
  unfolding stn_def by (cases cm; cases pn; presburger)+

lemma batch_stn: "batch (of_nat (stn G cm pn)) = bno G"
proof -
  let ?n = "stn G cm pn"
  have "unat (drop_bit 2 (of_nat ?n :: mword)) = (?n mod 2 ^ 64) div 4"
    unfolding unat_drop_bit_eq unat_of_nat by (simp add: drop_bit_eq_div)
  also have "\<dots> = (?n div 4) mod 2 ^ 62"
    using div_mult2_eq[of ?n 4] mod_mult2_eq[of ?n 4 "2 ^ 62"] by simp
  finally show ?thesis by (simp add: word_unat_eq_iff unat_of_nat batch_def bno_def)
qed

lemma bno_eq: "G = g \<or> G = Suc g \<Longrightarrow> bno g = bno G \<longleftrightarrow> G = g"
proof -
  have "g mod 2 ^ 62 \<noteq> Suc g mod 2 ^ 62" for g :: nat by (simp add: mod_Suc)
  moreover have "of_nat (a mod 2 ^ 62) = (of_nat (b mod 2 ^ 62) :: mword) \<longleftrightarrow> a mod 2 ^ 62 = b mod 2 ^ 62" for a b :: nat
    by (simp add: word_unat_eq_iff unat_of_nat)
  ultimately show "G = g \<or> G = Suc g \<Longrightarrow> bno g = bno G \<longleftrightarrow> G = g" by (auto simp: bno_def)
qed

lemma push_bno: "push_bit 2 (bno g + 1) = of_nat (4 * Suc g)" "push_bit 2 (bno g) = (of_nat (4 * g) :: mword)"
proof -
  have "(4 * of_nat (g mod 2 ^ 62) :: mword) = of_nat (4 * g)"
  proof -
    have "4 * (g mod 2 ^ 62) = (4 * g) mod (2 ^ 64)" using mult_mod_right[of 4 g "2 ^ 62"] by simp
    then have "(of_nat (4 * (g mod 2 ^ 62)) :: mword) = of_nat ((4 * g) mod (2 ^ 64))" by (simp only:)
    also have "\<dots> = of_nat (4 * g)" by (simp only: word_of_nat_eq_iff take_bit_eq_mod) simp
    finally show ?thesis by (simp only: of_nat_mult of_nat_numeral)
  qed
  then show "push_bit 2 (bno g + 1) = of_nat (4 * Suc g)" "push_bit 2 (bno g) = (of_nat (4 * g) :: mword)"
    by (simp_all add: push_bit_eq_mult bno_def algebra_simps)
qed

lemma and3_of_nat: "(of_nat n :: mword) AND 3 = of_nat (n mod 4)"
proof -
  have "(of_nat n :: mword) AND 3 = take_bit 2 (of_nat n)" by (simp add: take_bit_eq_mask mask_eq_exp_minus_1)
  also have "\<dots> = of_nat (take_bit 2 n)" by (rule take_bit_of_nat)
  finally show ?thesis by (simp add: take_bit_eq_mod)
qed

lemma stn_bits:
  "of_nat (stn G cm pn) AND RCU_CMP = (if cm then 1 else 0)" "of_nat (stn G cm pn) AND RCU_PND = (if pn then 2 else 0)"
proof -
  have "of_nat (stn G cm pn) AND (1 :: mword) = (of_nat (stn G cm pn) AND 3) AND 1"
    "of_nat (stn G cm pn) AND (2 :: mword) = (of_nat (stn G cm pn) AND 3) AND 2" by (simp_all add: and.assoc)
  then show "of_nat (stn G cm pn) AND RCU_CMP = (if cm then 1 else 0)" "of_nat (stn G cm pn) AND RCU_PND = (if pn then 2 else 0)"
    by (simp_all add: and3_of_nat RCU_CMP_def RCU_PND_def)
qed

lemma stn_or:
  "of_nat (stn G False pn) OR RCU_CMP = of_nat (stn G True pn)" "of_nat (stn G cm False) OR RCU_PND = of_nat (stn G cm True)"
proof -
  have "of_nat (stn G False pn) + RCU_CMP = of_nat (stn G False pn) OR RCU_CMP" "of_nat (stn G cm False) + RCU_PND = of_nat (stn G cm False) OR RCU_PND"
    using stn_bits[of G False pn] stn_bits[of G cm False] by (simp_all add: disjunctive_add_eq_or)
  then show "of_nat (stn G False pn) OR RCU_CMP = of_nat (stn G True pn)" "of_nat (stn G cm False) OR RCU_PND = of_nat (stn G cm True)"
    by (simp_all add: stn_def RCU_CMP_def RCU_PND_def algebra_simps)
qed

lemma stn_last:
  "(of_nat (stn G cm pn) XOR NOT RCU_CMP) AND (RCU_CMP OR RCU_PND) = 0 \<longleftrightarrow> \<not> cm \<and> pn"
  "(of_nat (stn G cm pn) XOR NOT RCU_PND) AND (RCU_CMP OR RCU_PND) = 0 \<longleftrightarrow> cm \<and> \<not> pn"
proof -
  have "(v XOR NOT 1) AND 3 = (v AND 3) XOR 2" "(v XOR NOT 2) AND 3 = (v AND 3) XOR 1" for v :: mword
  proof -
    have "NOT 1 AND 3 = (2 :: mword)" "NOT 2 AND 3 = (1 :: mword)" by simp_all
    then show "(v XOR NOT 1) AND 3 = (v AND 3) XOR 2" "(v XOR NOT 2) AND 3 = (v AND 3) XOR 1"
      by (simp_all only: bit.conj_xor_distrib2)
  qed
  then show "(of_nat (stn G cm pn) XOR NOT RCU_CMP) AND (RCU_CMP OR RCU_PND) = 0 \<longleftrightarrow> \<not> cm \<and> pn"
    "(of_nat (stn G cm pn) XOR NOT RCU_PND) AND (RCU_CMP OR RCU_PND) = 0 \<longleftrightarrow> cm \<and> \<not> pn"
    by (simp_all add: RCU_CMP_def RCU_PND_def and3_of_nat)
qed

lemma complete_stn:
  assumes "gb \<le> G + 2" "G \<le> gb + 2" "push_bit 2 b = of_nat (4 * gb)"
  shows "complete (of_nat (stn G cm pn)) b \<longleftrightarrow> gb < G \<or> gb = G \<and> cm"
proof -
  have clr: "x AND NOT m = x" if "x AND m = 0" for x m :: mword
  proof -
    have "x = (x AND m) OR (x AND NOT m)" by (simp flip: bit.conj_disj_distrib)
    then show ?thesis using that by simp
  qed
  have "of_nat (stn G cm False) AND NOT RCU_PND = (of_nat (stn G cm False) :: mword)"
    by (rule clr) (simp add: stn_bits)
  moreover have "(of_nat (stn G cm False) OR RCU_PND) AND NOT RCU_PND = of_nat (stn G cm False) AND NOT RCU_PND"
    by (simp add: bit.conj_disj_distrib2)
  ultimately have "of_nat (stn G cm pn) AND NOT RCU_PND = (of_nat (stn G cm False) :: mword)"
    using stn_or(2)[of G cm] by (cases pn) simp_all
  moreover define k :: int where "k = int (stn G cm False) - int (4 * gb)"
  moreover have "(word_of_int k :: mword) = of_nat (stn G cm False) - of_nat (4 * gb)" by (simp add: k_def)
  ultimately have "complete (of_nat (stn G cm pn)) b \<longleftrightarrow> 0 < sint (word_of_int k :: mword)"
    unfolding complete_def by (simp only: assms(3))
  also have "sint (word_of_int k :: mword) = k"
  proof -
    have "- 9 \<le> k" "k \<le> 9" using assms(1,2) by (auto simp: k_def stn_def)
    then show ?thesis unfolding signed_of_int by (simp add: signed_take_bit_int_eq_self)
  qed
  finally show ?thesis by (auto simp: k_def stn_def)
qed

subsection \<open>The protocol\<close>

text \<open>A CPU has reported for batch \<open>G\<close> when it has noticed the batch and was quiescent since.\<close>

definition reported :: "('c, 'e) rcu \<Rightarrow> nat \<Rightarrow> ('c \<Rightarrow> nat) \<Rightarrow> 'c \<Rightarrow> bool" where
  "reported s G gl c \<longleftrightarrow> gl c = G \<and> \<not> hz_rcu s c"

definition advancing :: "'e rcu_pc \<Rightarrow> bool" where
  "advancing p = (case p of Cnt _ \<Rightarrow> True | Inc _ \<Rightarrow> True | _ \<Rightarrow> False)"

definition counted :: "'e rcu_pc \<Rightarrow> bool" where
  "counted p = (case p of Inc _ \<Rightarrow> True | _ \<Rightarrow> False)"

definition completing :: "'e rcu_pc \<Rightarrow> bool" where
  "completing p = (case p of Start b _ \<Rightarrow> b = RCU_CMP | _ \<Rightarrow> False)"

definition starting :: "'e rcu_pc \<Rightarrow> bool" where
  "starting p = (case p of Start b _ \<Rightarrow> b = RCU_CMP \<or> b = RCU_PND | _ \<Rightarrow> True)"

definition proto :: "'c set \<Rightarrow> ('c, 'e) rcu \<Rightarrow> nat \<Rightarrow> bool \<Rightarrow> bool \<Rightarrow> ('c \<Rightarrow> nat) \<Rightarrow> bool" where
  "proto Cs s G cm pn gl \<longleftrightarrow> online s = of_nat (card Cs) \<and> rstate s = of_nat (stn G cm pn) \<and>
     (\<forall>c\<in>Cs. l_batch s c = bno (gl c) \<and> (G = gl c \<or> G = Suc (gl c)) \<and> (hz_rcu s c \<longrightarrow> gl c = G)) \<and>
     (cm \<longrightarrow> (\<forall>c\<in>Cs. reported s G gl c)) \<and>
     rcnt s = (if \<exists>c\<in>Cs. counted (rpc s c) then online s else of_nat (card {c \<in> Cs. \<not> reported s G gl c})) \<and>
     (\<forall>c\<in>Cs. starting (rpc s c)) \<and>
     (\<forall>c\<in>Cs. completing (rpc s c) \<longrightarrow> \<not> cm \<and> (\<forall>d\<in>Cs. reported s G gl d)) \<and>
     (\<forall>c\<in>Cs. \<forall>d\<in>Cs. completing (rpc s c) \<longrightarrow> completing (rpc s d) \<longrightarrow> c = d) \<and>
     (\<forall>c\<in>Cs. advancing (rpc s c) \<longrightarrow> cm \<and> pn) \<and>
     (\<forall>c\<in>Cs. \<forall>d\<in>Cs. advancing (rpc s c) \<longrightarrow> advancing (rpc s d) \<longrightarrow> c = d)"

text \<open>What the elements in the lists have waited for: \<open>gb\<close> is the batch that the current list of a CPU waits for.\<close>

definition waited :: "'c set \<Rightarrow> ('c, 'e) rcu \<Rightarrow> nat \<Rightarrow> ('c \<Rightarrow> nat) \<Rightarrow> 'e \<Rightarrow> bool" where
  "waited Cs s G gl e \<longleftrightarrow> (\<forall>d\<in>Cs. reported s G gl d \<longrightarrow> d \<in> since s e)"

definition graced :: "'c set \<Rightarrow> ('c, 'e) rcu \<Rightarrow> ('c, 'e) rqueues \<Rightarrow> nat \<Rightarrow> ('c \<Rightarrow> nat) \<Rightarrow> ('c \<Rightarrow> nat) \<Rightarrow> 'c \<Rightarrow> bool" where
  "graced Cs s q G gl gb c \<longleftrightarrow>
     push_bit 2 (c_batch s c) = of_nat (4 * gb c) \<and>
     (q c Curr \<noteq> [] \<longrightarrow> gb c \<le> gl c + 1 \<and> gl c \<le> gb c + (if rpc s c = Upd2 then 1 else 0)) \<and>
     (\<forall>e\<in>set (q c Curr). (gb c < G \<longrightarrow> Cs \<subseteq> since s e) \<and> (gb c = G \<longrightarrow> waited Cs s G gl e)) \<and>
     (rpc s c \<in> {Upd2, Upd3} \<longrightarrow> G = Suc (gl c) \<longrightarrow> (\<forall>e\<in>set (q c Next). waited Cs s G gl e)) \<and>
     (\<forall>e\<in>set (q c Done). Cs \<subseteq> since s e)"

definition logged :: "'c set \<Rightarrow> ('c, 'e) rcu \<Rightarrow> bool" where
  "logged Cs s \<longleftrightarrow> (\<forall>e S. Func e S \<in> set (rlog s) \<longrightarrow> Cs \<subseteq> S)"

definition rcu_inv :: "'c set \<Rightarrow> ('c, 'e) rcu \<Rightarrow> bool" where
  "rcu_inv Cs s \<longleftrightarrow> (\<exists>q G cm pn gl gb. lists_ok s q \<and> proto Cs s G cm pn gl \<and> (\<forall>c\<in>Cs. graced Cs s q G gl gb c) \<and> logged Cs s)"

lemma pc_simps [simp]:
  "\<not> advancing Idle" "\<not> advancing Upd2" "\<not> advancing Upd3" "\<not> advancing Upd4" "\<not> advancing (Start b u)" "\<not> advancing (Run p)"
  "advancing (Cnt u)" "advancing (Inc u)" "\<not> advancing (resume u)"
  "\<not> completing Idle" "\<not> completing Upd2" "\<not> completing Upd3" "\<not> completing Upd4" "\<not> completing (Run p)" "\<not> completing (Cnt u)"
  "\<not> completing (Inc u)" "\<not> completing (resume u)" "completing (Start b u) \<longleftrightarrow> b = RCU_CMP"
  "counted (Inc u)" "\<not> counted (Cnt u)" "\<not> counted Idle" "\<not> counted Upd2" "\<not> counted Upd3" "\<not> counted Upd4" "\<not> counted (Start b u)"
  "\<not> counted (Run p)" "\<not> counted (resume u)"
  "starting Idle" "starting Upd2" "starting Upd3" "starting Upd4" "starting (Run p)" "starting (Cnt u)" "starting (Inc u)" "starting (resume u)"
  "starting (Start b u) \<longleftrightarrow> b = RCU_CMP \<or> b = RCU_PND"
  by (simp_all add: advancing_def completing_def counted_def starting_def resume_def)

lemma counted_advancing: "counted p \<Longrightarrow> advancing p"
  by (simp add: counted_def advancing_def split: rcu_pc.splits)

lemma protoD:
  assumes "proto Cs s G cm pn gl"
  shows "online s = of_nat (card Cs)" "rstate s = of_nat (stn G cm pn)" "c \<in> Cs \<Longrightarrow> l_batch s c = bno (gl c)"
    "c \<in> Cs \<Longrightarrow> G = gl c \<or> G = Suc (gl c)" "c \<in> Cs \<Longrightarrow> hz_rcu s c \<Longrightarrow> gl c = G" "c \<in> Cs \<Longrightarrow> cm \<Longrightarrow> reported s G gl c"
    "rcnt s = (if \<exists>c\<in>Cs. counted (rpc s c) then online s else of_nat (card {c \<in> Cs. \<not> reported s G gl c}))"
    "c \<in> Cs \<Longrightarrow> starting (rpc s c)" "c \<in> Cs \<Longrightarrow> completing (rpc s c) \<Longrightarrow> \<not> cm"
    "c \<in> Cs \<Longrightarrow> completing (rpc s c) \<Longrightarrow> d \<in> Cs \<Longrightarrow> reported s G gl d"
    "c \<in> Cs \<Longrightarrow> d \<in> Cs \<Longrightarrow> completing (rpc s c) \<Longrightarrow> completing (rpc s d) \<Longrightarrow> c = d"
    "c \<in> Cs \<Longrightarrow> advancing (rpc s c) \<Longrightarrow> cm" "c \<in> Cs \<Longrightarrow> advancing (rpc s c) \<Longrightarrow> pn"
    "c \<in> Cs \<Longrightarrow> d \<in> Cs \<Longrightarrow> advancing (rpc s c) \<Longrightarrow> advancing (rpc s d) \<Longrightarrow> c = d"
  using assms unfolding proto_def by blast+

lemma protoI:
  assumes "online s = of_nat (card Cs)" "rstate s = of_nat (stn G cm pn)" "\<And>c. c \<in> Cs \<Longrightarrow> l_batch s c = bno (gl c)"
    "\<And>c. c \<in> Cs \<Longrightarrow> G = gl c \<or> G = Suc (gl c)" "\<And>c. c \<in> Cs \<Longrightarrow> hz_rcu s c \<Longrightarrow> gl c = G" "\<And>c. c \<in> Cs \<Longrightarrow> cm \<Longrightarrow> reported s G gl c"
    "rcnt s = (if \<exists>c\<in>Cs. counted (rpc s c) then online s else of_nat (card {c \<in> Cs. \<not> reported s G gl c}))"
    "\<And>c. c \<in> Cs \<Longrightarrow> starting (rpc s c)" "\<And>c. c \<in> Cs \<Longrightarrow> completing (rpc s c) \<Longrightarrow> \<not> cm"
    "\<And>c d. c \<in> Cs \<Longrightarrow> completing (rpc s c) \<Longrightarrow> d \<in> Cs \<Longrightarrow> reported s G gl d"
    "\<And>c d. c \<in> Cs \<Longrightarrow> d \<in> Cs \<Longrightarrow> completing (rpc s c) \<Longrightarrow> completing (rpc s d) \<Longrightarrow> c = d"
    "\<And>c. c \<in> Cs \<Longrightarrow> advancing (rpc s c) \<Longrightarrow> cm" "\<And>c. c \<in> Cs \<Longrightarrow> advancing (rpc s c) \<Longrightarrow> pn"
    "\<And>c d. c \<in> Cs \<Longrightarrow> d \<in> Cs \<Longrightarrow> advancing (rpc s c) \<Longrightarrow> advancing (rpc s d) \<Longrightarrow> c = d"
  shows "proto Cs s G cm pn gl"
  using assms unfolding proto_def by blast

text \<open>Steps that leave the shared words and the quiescence of the CPUs alone.\<close>

lemma proto_cong:
  assumes "proto Cs s G cm pn gl" "rstate s' = rstate s" "rcnt s' = rcnt s" "online s' = online s" "l_batch s' = l_batch s" "hz_rcu s' = hz_rcu s"
    and "rpc s' = (rpc s)(c := p)" "\<not> advancing (rpc s c)" "\<not> completing (rpc s c)" "\<not> advancing p" "\<not> completing p" "starting p"
  shows "proto Cs s' G cm pn gl"
proof -
  have r: "reported s' G gl = reported s G gl" using assms(6) by (simp add: reported_def fun_eq_iff)
  have "counted (((rpc s)(c := p)) d) = counted (rpc s d)" "advancing (((rpc s)(c := p)) d) = advancing (rpc s d)"
    "completing (((rpc s)(c := p)) d) = completing (rpc s d)" "starting (rpc s d) \<Longrightarrow> starting (((rpc s)(c := p)) d)" for d
    using assms(8-12) counted_advancing[of p] counted_advancing[of "rpc s c"] by auto
  then show ?thesis using assms(1) unfolding proto_def r assms(2-7) by simp
qed

lemma card_bound: "finite Cs \<Longrightarrow> card Cs < 2 ^ 64 \<Longrightarrow> A \<subseteq> Cs \<Longrightarrow> unat (of_nat (card A) :: mword) = card A"
  using card_mono[of Cs A] by (simp add: unat_of_nat)

lemma quiet_proto:
  assumes "proto Cs s G cm pn gl" "finite Cs" "card Cs < 2 ^ 64" "c \<in> Cs" "rpc s c = Idle" "hz_rcu s c"
  shows "proto Cs (quiet c s) G cm pn gl" "\<And>d. reported (quiet c s) G gl d \<longleftrightarrow> d = c \<or> reported s G gl d"
proof -
  let ?N = "{d \<in> Cs. \<not> reported s G gl d}" and ?s = "quiet c s"
  note p = protoD[OF assms(1)]
  have nr: "\<not> reported s G gl c" using assms(6) by (simp add: reported_def)
  have cm: "\<not> cm" using p(6) nr assms(4) by blast
  have glc: "gl c = G" using p(5) assms(4,6) by blast
  have nadv: "\<not> advancing (rpc s d)" "\<not> completing (rpc s d)" if "d \<in> Cs" for d
    using p(12)[OF that] p(10)[OF that _ assms(4)] cm nr by blast+
  show rep: "reported ?s G gl d \<longleftrightarrow> d = c \<or> reported s G gl d" for d
    using glc by (auto simp: reported_def quiet_def Let_def)
  have N': "{d \<in> Cs. \<not> reported ?s G gl d} = ?N - {c}" by (auto simp: rep)
  have cN: "c \<in> ?N" "finite ?N" using nr assms(2,4) by auto
  have cnt: "rcnt s = of_nat (card ?N)" using p(7) nadv(1) counted_advancing by auto
  have "card ?N = Suc (card (?N - {c}))" using card_Suc_Diff1[OF cN(2,1)] by simp
  then have cnt': "rcnt s - 1 = of_nat (card (?N - {c}))" by (simp add: cnt)
  have zero: "rcnt s - 1 = 0 \<longleftrightarrow> ?N - {c} = {}"
  proof -
    have "unat (rcnt s - 1) = card (?N - {c})" unfolding cnt' by (rule card_bound[OF assms(2,3)]) auto
    then show ?thesis using cN(2) by (simp add: unat_eq_0 card_eq_0_iff flip: unat_eq_zero)
  qed
  have pc: "rpc ?s = (rpc s)(c := if rcnt s - 1 = 0 then Start RCU_CMP False else Idle)" by (simp add: quiet_def Let_def)
  have cnd: "\<not> counted (rpc ?s d)" "\<not> advancing (rpc ?s d)" "completing (rpc ?s d) \<Longrightarrow> d = c \<and> ?N - {c} = {}" "starting (rpc ?s d)"
    if "d \<in> Cs" for d
    using nadv[OF that] counted_advancing[of "rpc s d"] zero p(8)[OF that] by (auto simp: pc split: if_splits)
  have f: "online ?s = online s" "rstate ?s = rstate s" "l_batch ?s = l_batch s" "rcnt ?s = rcnt s - 1"
    by (simp_all add: quiet_def Let_def)
  have h: "hz_rcu ?s d \<Longrightarrow> hz_rcu s d" for d by (auto simp: quiet_def Let_def split: if_splits)
  show "proto Cs ?s G cm pn gl"
  proof (rule protoI, unfold f N')
    show "rcnt s - 1 = (if \<exists>d\<in>Cs. counted (rpc ?s d) then online s else of_nat (card (?N - {c})))"
      using cnd(1) cnt' by auto
    show "reported ?s G gl d" if "x \<in> Cs" "completing (rpc ?s x)" "d \<in> Cs" for d x
      using cnd(3)[OF that(1,2)] that(3) N' by auto
    show "x = d" if "x \<in> Cs" "d \<in> Cs" "completing (rpc ?s x)" "completing (rpc ?s d)" for d x
      using cnd(3)[OF that(1,3)] cnd(3)[OF that(2,4)] by simp
    show "gl d = G" if "d \<in> Cs" "hz_rcu ?s d" for d using p(5)[OF that(1) h[OF that(2)]] .
  qed (use p(1-4) cm cnd in blast)+
qed

lemma update1_proto:
  assumes "proto Cs s G cm pn gl" "c \<in> Cs" "rpc s c = Idle"
  shows "proto Cs (update1 c s) G cm pn (gl(c := G))" "\<And>d. reported (update1 c s) G (gl(c := G)) d = reported s G gl d"
proof -
  let ?s = "update1 c s"
  note p = protoD[OF assms(1)]
  note g = p(3)[OF assms(2)] p(4)[OF assms(2)] p(2)
  have ne: "l_batch s c \<noteq> batch (rstate s) \<longleftrightarrow> gl c \<noteq> G" unfolding g(1,3) batch_stn using bno_eq[OF g(2)] by metis
  have f: "l_batch ?s = (l_batch s)(c := bno G)" "hz_rcu ?s = (hz_rcu s)(c := hz_rcu s c \<or> gl c \<noteq> G)"
    unfolding update1_def ne using g(1) by (cases "gl c = G"; simp add: g(3) batch_stn fun_upd_idem)+
  have e: "rstate ?s = rstate s" "rcnt ?s = rcnt s" "online ?s = online s" "rpc ?s = (rpc s)(c := Upd2)" by (simp_all add: update1_def)
  show r: "\<And>d. reported ?s G (gl(c := G)) d = reported s G gl d" by (auto simp: reported_def f)
  have pcs: "counted (rpc ?s d) = counted (rpc s d)" "advancing (rpc ?s d) = advancing (rpc s d)"
    "completing (rpc ?s d) = completing (rpc s d)" "starting (rpc s d) \<Longrightarrow> starting (rpc ?s d)" for d
    using assms(3) by (auto simp: e)
  show "proto Cs ?s G cm pn (gl(c := G))"
  proof (rule protoI, unfold r pcs(1-3) e(1-3))
    show "l_batch ?s d = bno ((gl(c := G)) d)" if "d \<in> Cs" for d using p(3)[OF that] by (simp add: f)
    show "G = (gl(c := G)) d \<or> G = Suc ((gl(c := G)) d)" if "d \<in> Cs" for d using p(4)[OF that] by simp
    show "(gl(c := G)) d = G" if "d \<in> Cs" "hz_rcu ?s d" for d using p(5)[OF that(1)] that(2) by (auto simp: f split: if_splits)
    show "rcnt s = (if \<exists>c\<in>Cs. counted (rpc s c) then online s else of_nat (card {c \<in> Cs. \<not> reported s G gl c}))" by (rule p(7))
    show "starting (rpc ?s d)" if "d \<in> Cs" for d by (rule pcs(4)[OF p(8)[OF that]])
  qed (use p(1,2,6,9-14) in blast)+
qed

lemma start_proto:
  assumes "proto Cs s G cm pn gl" "c \<in> Cs" "rpc s c = Start b u"
  shows "\<exists>cm' pn'. proto Cs (start_loop c b u s) G cm' pn' gl" "reported (start_loop c b u s) G gl = reported s G gl"
proof -
  let ?s = "start_loop c b u s"
  note p = protoD[OF assms(1)]
  have b: "b = RCU_CMP \<or> b = RCU_PND" using p(8)[OF assms(2)] assms(3) by simp
  have f: "online ?s = online s" "l_batch ?s = l_batch s" "rcnt ?s = rcnt s" "hz_rcu ?s = hz_rcu s"
    by (auto simp: start_loop_def Let_def)
  show r: "reported ?s G gl = reported s G gl" by (simp add: reported_def f fun_eq_iff)
  have same: "l_batch s c = batch (rstate s) \<longleftrightarrow> gl c = G"
    unfolding p(2) p(3)[OF assms(2)] batch_stn using bno_eq[OF p(4)[OF assms(2)]] by metis
  define cm' where "cm' = (if b = RCU_CMP \<and> gl c = G then True else cm)"
  define pn' where "pn' = (if b = RCU_PND \<and> gl c = G then True else pn)"
  have st: "rstate ?s = of_nat (stn G cm' pn')" "rpc ?s = (rpc s)(c := if cm' \<and> pn' \<and> \<not> (cm \<and> pn) then Cnt u else resume u)"
  proof -
    have "rstate ?s = of_nat (stn G cm' pn') \<and> rpc ?s = (rpc s)(c := if cm' \<and> pn' \<and> \<not> (cm \<and> pn) then Cnt u else resume u)"
    proof (cases "gl c = G")
      case False
      then show ?thesis using same p(2) by (auto simp: start_loop_def Let_def cm'_def pn'_def)
    next
      case True
      have ne: "RCU_CMP \<noteq> RCU_PND" by (simp add: RCU_CMP_def RCU_PND_def)
      from b show ?thesis
      proof
        assume "b = RCU_CMP"
        then show ?thesis using True same p(2) ne
          by (cases cm; cases pn) (simp_all add: start_loop_def Let_def cm'_def pn'_def stn_bits stn_or stn_last[simplified])
      next
        assume "b = RCU_PND"
        then show ?thesis using True same p(2) ne
          by (cases cm; cases pn) (simp_all add: start_loop_def Let_def cm'_def pn'_def stn_bits stn_or stn_last[simplified])
      qed
    qed
    then show "rstate ?s = of_nat (stn G cm' pn')" "rpc ?s = (rpc s)(c := if cm' \<and> pn' \<and> \<not> (cm \<and> pn) then Cnt u else resume u)"
      by simp_all
  qed
  have nadv: "advancing (rpc s d) \<Longrightarrow> cm \<and> pn" if "d \<in> Cs" for d using p(12,13)[OF that] by blast
  have cmp: "completing (rpc s d) \<Longrightarrow> b = RCU_CMP \<Longrightarrow> d = c" if "d \<in> Cs" for d
    using p(11)[OF that assms(2)] assms(3) by simp
  have pcs: "counted (rpc ?s d) = counted (rpc s d)" "advancing (rpc ?s d) \<Longrightarrow> advancing (rpc s d) \<or> d = c \<and> cm' \<and> pn' \<and> \<not> (cm \<and> pn)"
    "completing (rpc ?s d) \<Longrightarrow> completing (rpc s d) \<and> d \<noteq> c" "starting (rpc s d) \<Longrightarrow> starting (rpc ?s d)" for d
    using assms(3) by (auto simp: st(2) split: if_splits)
  have mono: "cm \<Longrightarrow> cm'" "pn \<Longrightarrow> pn'" by (simp_all add: cm'_def pn'_def)
  have "proto Cs ?s G cm' pn' gl"
  proof (rule protoI, unfold r f pcs(1) st(1))
    show "reported s G gl d" if "d \<in> Cs" cm' for d
      using p(6)[OF that(1)] p(10)[OF assms(2) _ that(1)] assms(3) that(2) by (auto simp: cm'_def split: if_splits)
    show "starting (rpc ?s d)" if "d \<in> Cs" for d by (rule pcs(4)[OF p(8)[OF that]])
    show "\<not> cm'" if "d \<in> Cs" "completing (rpc ?s d)" for d
      using p(9)[OF that(1)] cmp[OF that(1)] pcs(3)[OF that(2)] by (auto simp: cm'_def)
    show "reported s G gl e" if "d \<in> Cs" "completing (rpc ?s d)" "e \<in> Cs" for d e
      using p(10)[OF that(1) _ that(3)] pcs(3)[OF that(2)] by blast
    show "d = e" if "d \<in> Cs" "e \<in> Cs" "completing (rpc ?s d)" "completing (rpc ?s e)" for d e
      using p(11)[OF that(1,2)] pcs(3)[OF that(3)] pcs(3)[OF that(4)] by blast
    show "cm'" "pn'" if "d \<in> Cs" "advancing (rpc ?s d)" for d
      using nadv[OF that(1)] pcs(2)[OF that(2)] mono by blast+
    show "d = e" if "d \<in> Cs" "e \<in> Cs" "advancing (rpc ?s d)" "advancing (rpc ?s e)" for d e
      using pcs(2)[OF that(3)] pcs(2)[OF that(4)] nadv[OF that(1)] nadv[OF that(2)] p(14)[OF that(1,2)] by blast
    show "rcnt s = (if \<exists>c\<in>Cs. counted (rpc s c) then online s else of_nat (card {c \<in> Cs. \<not> reported s G gl c}))" by (rule p(7))
  qed (use p(1,3-5) in blast)+
  then show "\<exists>cm' pn'. proto Cs ?s G cm' pn' gl" by blast
qed

lemma count_proto:
  assumes "proto Cs s G cm pn gl" "c \<in> Cs" "rpc s c = Cnt u"
  shows "proto Cs (set_count c u s) G cm pn gl"
proof -
  let ?s = "set_count c u s"
  note p = protoD[OF assms(1)]
  have r: "reported ?s G gl = reported s G gl" by (simp add: reported_def set_count_def fun_eq_iff)
  have pcs: "advancing (rpc ?s d) = advancing (rpc s d)" "completing (rpc ?s d) = completing (rpc s d)"
    "starting (rpc s d) \<Longrightarrow> starting (rpc ?s d)" for d
    using assms(3) by (auto simp: set_count_def)
  have f: "online ?s = online s" "rstate ?s = rstate s" "l_batch ?s = l_batch s" "rcnt ?s = online s" "hz_rcu ?s = hz_rcu s" "counted (rpc ?s c)"
    by (simp_all add: set_count_def)
  show ?thesis
  proof (rule protoI, unfold r pcs(1,2) f(1-5))
    show "online s = (if \<exists>c\<in>Cs. counted (rpc ?s c) then online s else of_nat (card {c \<in> Cs. \<not> reported s G gl c}))"
      using f(6) assms(2) by auto
    show "starting (rpc ?s d)" if "d \<in> Cs" for d by (rule pcs(3)[OF p(8)[OF that]])
  qed (use p(1-6,9-14) in blast)+
qed

lemma inc_proto:
  assumes "proto Cs s G cm pn gl" "c \<in> Cs" "rpc s c = Inc u"
  shows "cm" "proto Cs (inc_state c u s) (Suc G) False False gl" "\<And>d. d \<in> Cs \<Longrightarrow> \<not> reported (inc_state c u s) (Suc G) gl d"
proof -
  let ?s = "inc_state c u s"
  note p = protoD[OF assms(1)]
  have adv: "advancing (rpc s c)" using assms(3) by simp
  show cm: "cm" by (rule p(12)[OF assms(2) adv])
  have pn: "pn" by (rule p(13)[OF assms(2) adv])
  have gl: "gl d = G" "\<not> hz_rcu s d" if "d \<in> Cs" for d using p(6)[OF that cm] by (simp_all add: reported_def)
  then show nr: "\<And>d. d \<in> Cs \<Longrightarrow> \<not> reported ?s (Suc G) gl d" by (simp add: reported_def)
  have N: "{d \<in> Cs. \<not> reported ?s (Suc G) gl d} = Cs" using nr by auto
  have pcs: "\<not> advancing (rpc ?s d)" "\<not> completing (rpc ?s d)" "starting (rpc ?s d)" if "d \<in> Cs" for d
    using p(14)[OF assms(2) that adv] p(9)[OF that] p(8)[OF that] cm by (auto simp: inc_state_def)
  have cnt: "rcnt s = online s" using p(7) assms(2,3) by auto
  have f: "online ?s = online s" "rstate ?s = rstate s + 1" "l_batch ?s = l_batch s" "rcnt ?s = rcnt s" "hz_rcu ?s = hz_rcu s"
    by (simp_all add: inc_state_def)
  have "rstate s + 1 = of_nat (stn (Suc G) False False)" using p(2) cm pn by (simp add: stn_def)
  then show "proto Cs ?s (Suc G) False False gl"
    by (intro protoI) (use p(1,3) gl pcs cnt counted_advancing in \<open>simp_all add: f N\<close>)
qed

subsection \<open>Grace periods\<close>

lemma gracedD:
  assumes "graced Cs s q G gl gb c"
  shows "push_bit 2 (c_batch s c) = of_nat (4 * gb c)" "q c Curr \<noteq> [] \<Longrightarrow> gb c \<le> gl c + 1"
    "q c Curr \<noteq> [] \<Longrightarrow> gl c \<le> gb c + (if rpc s c = Upd2 then 1 else 0)"
    "e \<in> set (q c Curr) \<Longrightarrow> gb c < G \<Longrightarrow> Cs \<subseteq> since s e" "e \<in> set (q c Curr) \<Longrightarrow> gb c = G \<Longrightarrow> waited Cs s G gl e"
    "rpc s c \<in> {Upd2, Upd3} \<Longrightarrow> G = Suc (gl c) \<Longrightarrow> e \<in> set (q c Next) \<Longrightarrow> waited Cs s G gl e"
    "e \<in> set (q c Done) \<Longrightarrow> Cs \<subseteq> since s e"
  using assms unfolding graced_def by blast+

lemma gracedI:
  assumes "push_bit 2 (c_batch s c) = of_nat (4 * gb c)" "q c Curr \<noteq> [] \<Longrightarrow> gb c \<le> gl c + 1"
    "q c Curr \<noteq> [] \<Longrightarrow> gl c \<le> gb c + (if rpc s c = Upd2 then 1 else 0)"
    "\<And>e. e \<in> set (q c Curr) \<Longrightarrow> gb c < G \<Longrightarrow> Cs \<subseteq> since s e" "\<And>e. e \<in> set (q c Curr) \<Longrightarrow> gb c = G \<Longrightarrow> waited Cs s G gl e"
    "\<And>e. rpc s c \<in> {Upd2, Upd3} \<Longrightarrow> G = Suc (gl c) \<Longrightarrow> e \<in> set (q c Next) \<Longrightarrow> waited Cs s G gl e"
    "\<And>e. e \<in> set (q c Done) \<Longrightarrow> Cs \<subseteq> since s e"
  shows "graced Cs s q G gl gb c"
  using assms unfolding graced_def by blast

lemma graced_mono:
  assumes "graced Cs s q G gl gb c" "c_batch s' c = c_batch s c" "\<And>e. since s e \<subseteq> since s' e"
    and "\<And>e. waited Cs s G gl e \<Longrightarrow> waited Cs s' G gl' e"
    and "rpc s' c = rpc s c \<or> rpc s c \<noteq> Upd2 \<and> rpc s' c \<notin> {Upd2, Upd3}"
    and "q' c Curr = q c Curr" "set (q' c Next) \<subseteq> set (q c Next)" "set (q' c Done) \<subseteq> set (q c Done)" "gl' c = gl c"
  shows "graced Cs s' q' G gl' gb c"
proof (rule gracedI)
  note g = gracedD[OF assms(1)]
  show "push_bit 2 (c_batch s' c) = of_nat (4 * gb c)" "q' c Curr \<noteq> [] \<Longrightarrow> gb c \<le> gl' c + 1"
    using g(1,2) assms(2,6,9) by simp_all
  show "gl' c \<le> gb c + (if rpc s' c = Upd2 then 1 else 0)" if "q' c Curr \<noteq> []"
    using g(3) assms(5,6,9) that by (auto split: if_splits)
  show "Cs \<subseteq> since s' e" if "e \<in> set (q' c Curr)" "gb c < G" for e
    using g(4)[of e] that assms(3)[of e] assms(6) by auto
  show "waited Cs s' G gl' e" if "e \<in> set (q' c Curr)" "gb c = G" for e
    using g(5)[of e] that assms(6) by (intro assms(4)) simp
  show "waited Cs s' G gl' e" if "rpc s' c \<in> {Upd2, Upd3}" "G = Suc (gl' c)" "e \<in> set (q' c Next)" for e
    using that assms(5,7,9) by (intro assms(4) g(6)) auto
  show "Cs \<subseteq> since s' e" if "e \<in> set (q' c Done)" for e
    using g(7)[of e] that assms(3)[of e] assms(8) by auto
qed

lemma graced_frame:
  assumes "graced Cs s q G gl gb c" "c_batch s' c = c_batch s c" "since s' = since s" "reported s' G gl' = reported s G gl"
    and "rpc s' c = rpc s c \<or> rpc s c \<noteq> Upd2 \<and> rpc s' c \<notin> {Upd2, Upd3}" "gl' c = gl c"
  shows "graced Cs s' q G gl' gb c"
  by (rule graced_mono[OF assms(1,2)]) (use assms(3-6) in \<open>auto simp: waited_def\<close>)

lemma quiet_graced:
  assumes "proto Cs s G cm pn gl" "finite Cs" "card Cs < 2 ^ 64" "c \<in> Cs" "rpc s c = Idle" "hz_rcu s c" "graced Cs s q G gl gb d"
  shows "graced Cs (quiet c s) q G gl gb d"
proof (rule graced_mono[OF assms(7)])
  have si: "since (quiet c s) e = insert c (since s e)" for e by (simp add: quiet_def Let_def)
  show "waited Cs (quiet c s) G gl e" if "waited Cs s G gl e" for e
    using that by (auto simp: waited_def si quiet_proto(2)[OF assms(1-6)])
  show "rpc (quiet c s) d = rpc s d \<or> rpc s d \<noteq> Upd2 \<and> rpc (quiet c s) d \<notin> {Upd2, Upd3}"
    using assms(5) by (auto simp: quiet_def Let_def)
qed (auto simp: quiet_def Let_def)

lemma call_graced:
  assumes "lists_ok s' q'" "ok \<longrightarrow> e \<in> set (q' c Next)" "\<And>d w. (d, w) \<noteq> (c, Next) \<Longrightarrow> q' d w = q d w" "may_call (rpc s c)"
    and "c_batch s' = c_batch s" "hz_rcu s' = hz_rcu s" "rpc s' = rpc s" "since s' = (if ok then (since s)(e := {}) else since s)"
    and "graced Cs s q G gl gb d"
  shows "graced Cs s' q' G gl gb d"
proof -
  have other: "since s' x = since s x" if "x \<in> set (q' d w)" "(d, w) \<noteq> (c, Next)" for x d w
    using lists_okD(2)[OF assms(1), of e c Next d w] assms(2,8) that by (auto split: if_splits)
  have r: "reported s' G gl = reported s G gl" by (simp add: reported_def assms(6) fun_eq_iff)
  have w: "waited Cs s' G gl x \<longleftrightarrow> waited Cs s G gl x" if "since s' x = since s x" for x using that by (simp add: waited_def r)
  have nu: "rpc s c \<notin> {Upd2, Upd3}" using assms(4) by (auto simp: may_call_def)
  note g = gracedD[OF assms(9)]
  show ?thesis
  proof (rule gracedI)
    fix x assume x: "x \<in> set (q' d Curr)"
    have o: "since s' x = since s x" by (rule other[OF x]) simp
    have "x \<in> set (q d Curr)" using x assms(3)[of d Curr] by simp
    then show "gb d < G \<Longrightarrow> Cs \<subseteq> since s' x" "gb d = G \<Longrightarrow> waited Cs s' G gl x" using g(4,5) w[OF o] o by auto
  next
    fix x assume x: "x \<in> set (q' d Done)"
    have "since s' x = since s x" by (rule other[OF x]) simp
    then show "Cs \<subseteq> since s' x" using g(7)[of x] x assms(3)[of d Done] by simp
  next
    fix x assume a: "rpc s' d \<in> {Upd2, Upd3}" "G = Suc (gl d)" "x \<in> set (q' d Next)"
    then have d: "d \<noteq> c" using nu assms(7) by auto
    have "since s' x = since s x" by (rule other[OF a(3)]) (use d in simp)
    then show "waited Cs s' G gl x" using g(6)[of x] a assms(3)[of d Next] assms(7) d w by simp
  qed (use g(1-3) assms(3)[of d Curr] assms(5,7) in auto)
qed

lemma update1_graced:
  assumes "proto Cs s G cm pn gl" "c \<in> Cs" "rpc s c = Idle" "graced Cs s q G gl gb d" "d \<in> Cs"
  shows "graced Cs (update1 c s) q G (gl(c := G)) gb d"
proof -
  have r: "reported (update1 c s) G (gl(c := G)) = reported s G gl" using update1_proto(2)[OF assms(1-3)] by (simp add: fun_eq_iff)
  have si: "since (update1 c s) = since s" "c_batch (update1 c s) = c_batch s" "rpc (update1 c s) = (rpc s)(c := Upd2)"
    by (simp_all add: update1_def)
  have w: "waited Cs (update1 c s) G (gl(c := G)) e = waited Cs s G gl e" for e by (simp add: waited_def r si)
  show ?thesis
  proof (cases "d = c")
    case False
    then show ?thesis by (intro graced_frame[OF assms(4)] r) (auto simp: si)
  next
    case True
    note g = gracedD[OF assms(4)] and gl = protoD(4)[OF assms(1,2)]
    show ?thesis by (rule gracedI) (use g gl True assms(3) in \<open>auto simp: si w\<close>)
  qed
qed

lemma inc_graced:
  assumes "proto Cs s G cm pn gl" "c \<in> Cs" "rpc s c = Inc u" "graced Cs s q G gl gb d"
  shows "graced Cs (inc_state c u s) q (Suc G) gl gb d"
proof -
  note i = inc_proto[OF assms(1-3)]
  have si: "since (inc_state c u s) = since s" "c_batch (inc_state c u s) = c_batch s" "rpc (inc_state c u s) = (rpc s)(c := resume u)"
    by (simp_all add: inc_state_def)
  have w: "waited Cs (inc_state c u s) (Suc G) gl e" for e using i(3) by (simp add: waited_def)
  have all: "waited Cs s G gl e \<Longrightarrow> Cs \<subseteq> since s e" for e using protoD(6)[OF assms(1) _ i(1)] by (auto simp: waited_def)
  note g = gracedD[OF assms(4)]
  show ?thesis
  proof (rule gracedI)
    fix e assume e: "e \<in> set (q d Curr)" "gb d < Suc G"
    then have "gb d < G \<or> gb d = G" by auto
    then show "Cs \<subseteq> since (inc_state c u s) e" using g(4,5)[OF e(1)] all[of e] by (auto simp: si)
  qed (use g w assms(3) in \<open>auto simp: si resume_def split: if_splits\<close>)
qed

lemma update2_graced:
  assumes "lists_ok s q" "proto Cs s G cm pn gl" "c \<in> Cs" "rpc s c = Upd2" "\<And>d. d \<in> Cs \<Longrightarrow> graced Cs s q G gl gb d"
  shows "\<exists>q'. lists_ok (update2 c s) q' \<and> (\<forall>d\<in>Cs. graced Cs (update2 c s) q' G gl gb d)"
proof -
  let ?s = "update2 c s"
  note g = gracedD[OF assms(5)[OF assms(3)]] and gl = protoD(4)[OF assms(2,3)]
  have f: "since ?s = since s" "c_batch ?s = c_batch s" "rpc ?s = (rpc s)(c := Upd3)" "hz_rcu ?s = hz_rcu s" by (simp_all add: update2_def)
  have r: "reported ?s G gl = reported s G gl" by (simp add: reported_def f fun_eq_iff)
  have w: "waited Cs ?s G gl e = waited Cs s G gl e" for e by (simp add: waited_def r f)
  have em: "rl_empty Curr (lst s c Curr) \<longleftrightarrow> q c Curr = []" by (rule lists_empty[OF assms(1)]) simp
  have cp: "complete (rstate s) (c_batch s c) \<longleftrightarrow> gb c < G \<or> gb c = G \<and> cm" if "q c Curr \<noteq> []"
    unfolding protoD(2)[OF assms(2)] using g(2,3)[OF that] gl by (intro complete_stn[OF _ _ g(1)]) (auto simp: assms(4))
  show ?thesis
  proof (cases "q c Curr \<noteq> [] \<and> complete (rstate s) (c_batch s c)")
    case True
    let ?q = "q(c := (q c)(Done := q c Done @ q c Curr, Curr := []))"
    have all: "Cs \<subseteq> since s e" if "e \<in> set (q c Curr)" for e
      using cp True g(4,5)[OF that] protoD(6)[OF assms(2)] by (auto simp: waited_def)
    have "graced Cs ?s ?q G gl gb d" if "d \<in> Cs" for d
    proof (cases "d = c")
      case True
      have "Cs \<subseteq> since ?s e" if "e \<in> set (?q c Done)" for e
      proof -
        have "e \<in> set (q c Done) \<or> e \<in> set (q c Curr)" using that by simp
        then show ?thesis using g(7) all unfolding f by blast
      qed
      then show ?thesis unfolding True
      proof (rule gracedI[rotated -1])
        show "waited Cs ?s G gl e" if "G = Suc (gl c)" "e \<in> set (?q c Next)" for e
          unfolding w using that assms(4) by (intro g(6)) simp_all
      qed (use g(1) in \<open>simp_all add: f\<close>)
    next
      case False
      then show ?thesis by (intro graced_mono[OF assms(5)[OF that]]) (auto simp: f w)
    qed
    then show ?thesis using update2_lists[OF assms(1,4)] True by blast
  next
    case False
    have "lists_ok ?s q" using assms(1,4) False em by (subst lists_ok_cong[of _ s]) (auto simp: update2_def)
    moreover have "graced Cs ?s q G gl gb d" if "d \<in> Cs" for d
    proof (cases "d = c")
      case True
      have le: "gl c \<le> gb c" if "q c Curr \<noteq> []" using False cp[OF that] that gl by auto
      show ?thesis unfolding True
      proof (rule gracedI)
        show "waited Cs ?s G gl e" if "G = Suc (gl c)" "e \<in> set (q c Next)" for e
          unfolding w using that assms(4) by (intro g(6)) simp_all
      qed (use g(1,2,4,5,7) le in \<open>simp_all add: f w assms(4)\<close>)
    next
      case False
      then show ?thesis by (intro graced_mono[OF assms(5)[OF that]]) (auto simp: f w)
    qed
    ultimately show ?thesis by blast
  qed
qed

lemma update3_graced:
  assumes "lists_ok s q" "proto Cs s G cm pn gl" "c \<in> Cs" "rpc s c = Upd3" "\<And>d. d \<in> Cs \<Longrightarrow> graced Cs s q G gl gb d"
  shows "\<exists>q' gb'. lists_ok (update3 c s) q' \<and> (\<forall>d\<in>Cs. graced Cs (update3 c s) q' G gl gb' d)"
proof -
  let ?s = "update3 c s"
  note g = gracedD[OF assms(5)[OF assms(3)]] and gl = protoD(4)[OF assms(2,3)]
  have f: "since ?s = since s" "hz_rcu ?s = hz_rcu s" by (simp_all add: update3_def)
  have r: "reported ?s G gl = reported s G gl" by (simp add: reported_def f fun_eq_iff)
  have w: "waited Cs ?s G gl e = waited Cs s G gl e" for e by (simp add: waited_def r f)
  have em: "rl_empty Curr (lst s c Curr) \<longleftrightarrow> q c Curr = []" "rl_empty Next (lst s c Next) \<longleftrightarrow> q c Next = []"
    by (rule lists_empty[OF assms(1)], simp)+
  show ?thesis
  proof (cases "q c Curr = [] \<and> q c Next \<noteq> []")
    case True
    let ?q = "q(c := (q c)(Curr := q c Next, Next := []))"
    have s: "rpc ?s = (rpc s)(c := Start RCU_PND True)" "c_batch ?s = (c_batch s)(c := bno (gl c) + 1)"
      using True em protoD(3)[OF assms(2,3)] by (simp_all add: update3_def)
    have "graced Cs ?s ?q G gl (gb(c := Suc (gl c))) d" if "d \<in> Cs" for d
    proof (cases "d = c")
      case True
      show ?thesis unfolding True
        by (intro gracedI) (use g(6,7) gl assms(4) in \<open>auto simp: s w f push_bno\<close>)
    next
      case False
      have "graced Cs ?s ?q G gl gb d" using False by (intro graced_mono[OF assms(5)[OF that]]) (auto simp: s f w)
      then show ?thesis using False by (simp add: graced_def)
    qed
    then show ?thesis using update3_lists[OF assms(1,4)] True by blast
  next
    case False
    then have s: "?s = goto c Upd4 s" using em by (auto simp: update3_def)
    have "lists_ok ?s q" using assms(1,4) by (subst lists_ok_cong[of _ s]) (auto simp: s)
    moreover have "graced Cs ?s q G gl gb d" if "d \<in> Cs" for d
      by (intro graced_frame[OF assms(5)[OF that]] r) (use assms(4) in \<open>auto simp: s\<close>)
    ultimately show ?thesis by blast
  qed
qed

lemma rcu_invE:
  assumes "rcu_inv Cs s"
  obtains q G cm pn gl gb where "lists_ok s q" "proto Cs s G cm pn gl" "\<And>d. d \<in> Cs \<Longrightarrow> graced Cs s q G gl gb d" "logged Cs s"
proof -
  from assms obtain q G cm pn gl gb where a: "lists_ok s q \<and> proto Cs s G cm pn gl \<and> (\<forall>c\<in>Cs. graced Cs s q G gl gb c) \<and> logged Cs s"
    unfolding rcu_inv_def by blast
  show thesis by (rule that[of q G cm pn gl gb]) (use a in blast)+
qed

lemma logged_cong: "rlog s' = rlog s \<Longrightarrow> logged Cs s' = logged Cs s" "rlog s' = rlog s @ [Pre_func e] \<Longrightarrow> logged Cs s' = logged Cs s"
  by (simp_all add: logged_def)

lemma rcu_invI:
  assumes "lists_ok s q" "proto Cs s G cm pn gl" "\<And>d. d \<in> Cs \<Longrightarrow> graced Cs s q G gl gb d" "logged Cs s"
  shows "rcu_inv Cs s"
  using assms unfolding rcu_inv_def by blast

lemma rcu_inv_step:
  assumes "rcu_step Cs s s'" "rcu_inv Cs s" "finite Cs" "card Cs < 2 ^ 64"
  shows "rcu_inv Cs s'"
proof -
  obtain q G cm pn gl gb where i: "lists_ok s q" "proto Cs s G cm pn gl" "\<And>d. d \<in> Cs \<Longrightarrow> graced Cs s q G gl gb d" "logged Cs s"
    using rcu_invE[OF assms(2)] by blast
  from assms(1) show ?thesis
  proof cases
    case (rs_call c pre e)
    obtain ok s1 where cl: "call_rcu pre c e s = (ok, s1)" by force
    note k = call_lists[OF i(1) cl]
    obtain es where es: "lists_ok s1 (q(c := (q c)(Next := es)))" "ok \<longrightarrow> e \<in> set es" using k(1) by blast
    have "proto Cs s1 G cm pn gl"
      using i(2) unfolding proto_def reported_def k(2-8) by simp
    moreover have "graced Cs s1 (q(c := (q c)(Next := es))) G gl gb d" if "d \<in> Cs" for d
      by (rule call_graced[OF es(1) _ _ rs_call(3) k(6,7,8,9) i(3)[OF that]]) (use es(2) in auto)
    moreover have "logged Cs s1" using i(4) k(10) logged_cong by metis
    ultimately have "rcu_inv Cs s1" using es(1) by (intro rcu_invI)
    then show ?thesis using rs_call(1) cl by simp
  next
    case (rs_quiet c)
    have "lists_ok (quiet c s) q" using i(1) rs_quiet(3) by (subst lists_ok_cong[of _ s]) (auto simp: quiet_def Let_def)
    then show ?thesis unfolding rs_quiet(1)
      using quiet_proto(1)[OF i(2) assms(3,4) rs_quiet(2-4)] quiet_graced[OF i(2) assms(3,4) rs_quiet(2-4) i(3)] i(4)
      by (intro rcu_invI) (blast intro: logged_cong(1)[THEN iffD2] | simp add: logged_def quiet_def Let_def)+
  next
    case (rs_update1 c)
    have "lists_ok (update1 c s) q" using i(1) rs_update1(3) by (subst lists_ok_cong[of _ s]) (auto simp: update1_def)
    then show ?thesis unfolding rs_update1(1)
      using update1_proto(1)[OF i(2) rs_update1(2,3)] update1_graced[OF i(2) rs_update1(2,3) i(3)] i(4)
      by (intro rcu_invI) (blast intro: logged_cong(1)[THEN iffD2] | simp add: logged_def update1_def)+
  next
    case (rs_update2 c)
    have "proto Cs (update2 c s) G cm pn gl"
      by (rule proto_cong[OF i(2), where c = c and p = Upd3]) (use rs_update2(3) in \<open>auto simp: update2_def\<close>)
    moreover have "logged Cs (update2 c s)" using i(4) by (simp add: logged_def update2_def)
    ultimately show ?thesis unfolding rs_update2(1) using update2_graced[OF i(1,2) rs_update2(2,3) i(3)] by (blast intro: rcu_invI)
  next
    case (rs_update3 c)
    have "proto Cs (update3 c s) G cm pn gl"
      by (rule proto_cong[OF i(2), where c = c and p = "rpc (update3 c s) c"])
        (use rs_update3(3) in \<open>auto simp: update3_def RCU_CMP_def RCU_PND_def\<close>)
    moreover have "logged Cs (update3 c s)" using i(4) by (simp add: logged_def update3_def)
    ultimately show ?thesis unfolding rs_update3(1) using update3_graced[OF i(1,2) rs_update3(2,3) i(3)] by (blast intro: rcu_invI)
  next
    case (rs_start c b u)
    let ?s = "start_loop c b u s"
    have f: "nxt ?s = nxt s" "lst ?s = lst s" "since ?s = since s" "c_batch ?s = c_batch s" "rlog ?s = rlog s"
      "\<exists>p. rpc ?s = (rpc s)(c := p) \<and> p \<in> {resume u, Cnt u}"
      by (auto simp: start_loop_def Let_def)
    note sp = start_proto[OF i(2) rs_start(2,3)]
    have "lists_ok ?s q" using i(1) f rs_start(3) by (subst lists_ok_cong[of _ s]) (auto split: if_splits)
    moreover have "graced Cs ?s q G gl gb d" if "d \<in> Cs" for d
      by (rule graced_frame[OF i(3)[OF that] _ _ sp(2)]) (use f rs_start(3) in \<open>auto simp: resume_def split: if_splits\<close>)
    moreover have "logged Cs ?s" using i(4) f by (simp add: logged_def)
    ultimately show ?thesis unfolding rs_start(1) using sp(1) by (blast intro: rcu_invI)
  next
    case (rs_count c u)
    have "lists_ok (set_count c u s) q" using i(1) rs_count(3) by (subst lists_ok_cong[of _ s]) (auto simp: set_count_def)
    moreover have "graced Cs (set_count c u s) q G gl gb d" if "d \<in> Cs" for d
      by (rule graced_frame[OF i(3)[OF that]]) (use rs_count(3) in \<open>auto simp: set_count_def reported_def fun_eq_iff\<close>)
    ultimately show ?thesis unfolding rs_count(1) using count_proto[OF i(2) rs_count(2,3)] i(4)
      by (intro rcu_invI) (blast intro: logged_cong(1)[THEN iffD2] | simp add: logged_def set_count_def)+
  next
    case (rs_inc c u)
    have "lists_ok (inc_state c u s) q" using i(1) rs_inc(3) by (subst lists_ok_cong[of _ s]) (auto simp: inc_state_def)
    then show ?thesis unfolding rs_inc(1) using inc_proto(2)[OF i(2) rs_inc(2,3)] inc_graced[OF i(2) rs_inc(2,3) i(3)] i(4)
      by (intro rcu_invI) (blast intro: logged_cong(1)[THEN iffD2] | simp add: logged_def inc_state_def)+
  next
    case (rs_update4 c check cpus)
    let ?s = "update4 check cpus c s"
    have f: "rstate ?s = rstate s" "rcnt ?s = rcnt s" "online ?s = online s" "l_batch ?s = l_batch s" "hz_rcu ?s = hz_rcu s"
      "since ?s = since s" "c_batch ?s = c_batch s" by (simp_all add: update4_def Let_def)
    define p where "p = (if rl_empty Done (lst s c Done) then Idle else Run (rhead (lst s c Done)))"
    have p: "rpc ?s = (rpc s)(c := p)" "p = Idle \<or> (\<exists>x. p = Run x)" by (simp_all add: p_def update4_def Let_def)
    have "proto Cs ?s G cm pn gl" by (rule proto_cong[OF i(2) f(1-5) p(1)]) (use rs_update4(3) p(2) in auto)
    moreover have "graced Cs ?s q G gl gb d" if "d \<in> Cs" for d
      by (rule graced_frame[OF i(3)[OF that]]) (use f p rs_update4(3) in \<open>auto simp: reported_def fun_eq_iff\<close>)
    moreover have "logged Cs ?s" using i(4) by (auto simp: logged_def update4_def Let_def)
    ultimately show ?thesis unfolding rs_update4(1) using update4_lists[OF i(1) rs_update4(3), of check cpus] by (blast intro: rcu_invI)
  next
    case (rs_invoke c e)
    let ?s = "invoke c e s" and ?q = "q(c := (q c)(Done := tl (q c Done)))"
    note k = invoke_lists[OF i(1) rs_invoke(3)]
    have f: "rstate ?s = rstate s" "rcnt ?s = rcnt s" "online ?s = online s" "l_batch ?s = l_batch s" "hz_rcu ?s = hz_rcu s"
      "since ?s = since s" "c_batch ?s = c_batch s" "rlog ?s = rlog s @ [Func e (since s e)]" by (simp_all add: invoke_def Let_def)
    define p where "p = (if nxt s e = rhead (lst s c Done) then Idle else Run (nxt s e))"
    have p: "rpc ?s = (rpc s)(c := p)" "p = Idle \<or> (\<exists>x. p = Run x)" by (simp_all add: p_def invoke_def Let_def)
    have "proto Cs ?s G cm pn gl" by (rule proto_cong[OF i(2) f(1-5) p(1)]) (use rs_invoke(3) p(2) in auto)
    moreover have "graced Cs ?s ?q G gl gb d" if "d \<in> Cs" for d
      by (rule graced_mono[OF i(3)[OF that]])
        (use f p rs_invoke(3) in \<open>auto simp: waited_def reported_def intro: list.set_sel(2)[OF k(1)]\<close>)
    moreover have "e \<in> set (q c Done)" using k(1,2) hd_in_set by blast
    then have "Cs \<subseteq> since s e" by (rule gracedD(7)[OF i(3)[OF rs_invoke(2)]])
    then have "logged Cs ?s" using i(4) by (auto simp: logged_def f)
    ultimately show ?thesis unfolding rs_invoke(1) using k(3) by (blast intro: rcu_invI)
  qed
qed

lemma rcu_inv_init: "rcu_inv Cs (rcu_init (of_nat (card Cs)))"
proof (rule rcu_invI[where q = "\<lambda>_ _. []" and G = 0 and cm = True and pn = False and gl = "\<lambda>_. 0" and gb = "\<lambda>_. 0"])
  have "lrep (rcu_init (of_nat (card Cs)) :: ('a, 'b) rcu) c w []" for c w
    by (cases w) (simp_all add: lrep_simps rcu_init_def)
  then show "lists_ok (rcu_init (of_nat (card Cs)) :: ('a, 'b) rcu) (\<lambda>_ _. [])" by (simp add: lists_ok_def)
  have "{c \<in> Cs. \<not> reported (rcu_init (of_nat (card Cs)) :: ('a, 'b) rcu) 0 (\<lambda>_. 0) c} = {}" by (auto simp: reported_def rcu_init_def)
  then show "proto Cs (rcu_init (of_nat (card Cs)) :: ('a, 'b) rcu) 0 True False (\<lambda>_. 0)"
    by (intro protoI) (auto simp: rcu_init_def stn_def RCU_CMP_def bno_def reported_def)
  show "graced Cs (rcu_init (of_nat (card Cs)) :: ('a, 'b) rcu) (\<lambda>_ _. []) 0 (\<lambda>_. 0) (\<lambda>_. 0) d" for d
    by (intro gracedI) (simp_all add: rcu_init_def)
  show "logged Cs (rcu_init (of_nat (card Cs)) :: ('a, 'b) rcu)" by (simp add: logged_def rcu_init_def)
qed

lemma rcu_reach_inv:
  assumes "rcu_reach Cs s" "finite Cs" "card Cs < 2 ^ 64"
  shows "rcu_inv Cs s"
  using assms(1) unfolding rcu_reach_def
  by (induction rule: rtranclp_induct) (use rcu_inv_init rcu_inv_step assms(2,3) in blast)+

lemma invoke_all:
  assumes "lists_ok s q" "rpc s c = Run p" "c \<in> Cs"
  shows "\<exists>s'. (rcu_step Cs)\<^sup>*\<^sup>* s s' \<and> rpc s' c = Idle \<and> rl_empty Done (lst s' c Done) \<and>
    rlog s' = rlog s @ map (\<lambda>e. Func e (since s e)) (q c Done)"
  using assms(1,2)
proof (induction "length (q c Done)" arbitrary: s q p)
  case 0
  then show ?case using lists_okD(1)[OF "0.prems"(1), of c Done] by (simp add: lrep_simps running_def)
next
  case (Suc n)
  obtain e xs where es: "q c Done = e # xs" using Suc.hyps(2) by (cases "q c Done") auto
  have p: "p = Elem e" using lists_okD(1)[OF Suc.prems(1), of c Done] Suc.prems(2) es by (simp add: lrep_simps running_def)
  note k = invoke_lists[OF Suc.prems(1) Suc.prems(2)[unfolded p]]
  let ?s = "invoke c e s" and ?q = "q(c := (q c)(Done := xs))"
  have st: "rcu_step Cs s ?s" by (rule rs_invoke[OF assms(3) Suc.prems(2)[unfolded p]])
  have l: "lists_ok ?s ?q" using k(3) es by simp
  have f: "rlog ?s = rlog s @ [Func e (since s e)]" "since ?s = since s" by (simp_all add: invoke_def Let_def)
  show ?case
  proof (cases "runs (rpc ?s c)")
    case True
    then obtain p' where p': "rpc ?s c = Run p'" by (auto simp: runs_def split: rcu_pc.splits)
    have "n = length (?q c Done)" using Suc.hyps(2) es by simp
    from Suc.hyps(1)[OF this l p'] obtain s' where s': "(rcu_step Cs)\<^sup>*\<^sup>* ?s s'" "rpc s' c = Idle" "rl_empty Done (lst s' c Done)"
      "rlog s' = rlog ?s @ map (\<lambda>e. Func e (since ?s e)) xs" by auto
    then show ?thesis using converse_rtranclp_into_rtranclp[of "rcu_step Cs", OF st] by (intro exI[of _ s']) (simp add: f es)
  next
    case False
    then have i: "rpc ?s c = Idle" by (auto simp: invoke_def Let_def split: if_splits)
    have "xs = []" using l False lrep_simps(3)[of ?s c xs] lists_okD(1)[OF l, of c Done] es Suc.prems i
      by (auto simp: ring_list_def framed_def invoke_def Let_def rl_clear_def split: if_splits)
    moreover have "rl_empty Done (lst ?s c Done)" using i by (auto simp: invoke_def Let_def rl_empty_def rl_clear_def split: if_splits)
    ultimately show ?thesis using i st f es by (intro exI[of _ ?s]) auto
  qed
qed

subsection \<open>Properties\<close>

text \<open>C10: rcu_grace_period. In every interleaving of the CPUs, a callback runs only after every CPU was in
  a quiescent state at least once since the element was handed to \<open>Rcu::call\<close>; this holds also
  when the batch number wraps.\<close>
theorem rcu_grace_period:
  assumes "rcu_reach Cs s" "finite Cs" "card Cs < 2 ^ 64" "Func e S \<in> set (rlog s)"
  shows "Cs \<subseteq> S"
  using rcu_reach_inv[OF assms(1-3)] assms(4) unfolding rcu_inv_def logged_def by blast

text \<open>rcu_invoke_ends. The loop that runs the callbacks of a finished batch never follows a null or a
  marked link, runs the callback of each element of the list once and ends with the list empty.\<close>
theorem rcu_invoke_ends:
  assumes "rcu_reach Cs s" "finite Cs" "card Cs < 2 ^ 64" "c \<in> Cs" "rpc s c = Run p"
  shows "\<exists>e es s'. p = Elem e \<and> distinct (e # es) \<and> (rcu_step Cs)\<^sup>*\<^sup>* s s' \<and> rpc s' c = Idle \<and> rl_empty Done (lst s' c Done) \<and>
    rlog s' = rlog s @ map (\<lambda>x. Func x (since s x)) (e # es)"
proof -
  obtain q where q: "lists_ok s q" using rcu_reach_inv[OF assms(1-3)] unfolding rcu_inv_def by blast
  have r: "running (nxt s) p (rhead (lst s c Done)) (q c Done)" using lists_okD(1)[OF q, of c Done] assms(5) by (simp add: lrep_simps)
  then obtain e es where es: "q c Done = e # es" "p = Elem e" by (cases "q c Done") (auto simp: running_def)
  then show ?thesis using invoke_all[OF q assms(5,4)] r by (auto simp: running_def)
qed

subsection \<open>A concrete run\<close>

text \<open>The next step of a CPU that is inside \<open>update\<close> or \<open>quiet\<close>.\<close>

definition advance :: "'c \<Rightarrow> ('c, 'e) rcu \<Rightarrow> ('c, 'e) rcu" where
  "advance c s = (case rpc s c of Upd2 \<Rightarrow> update2 c s | Upd3 \<Rightarrow> update3 c s | Start b u \<Rightarrow> start_loop c b u s
     | Cnt u \<Rightarrow> set_count c u s | Inc u \<Rightarrow> inc_state c u s | Upd4 \<Rightarrow> update4 False [] c s | _ \<Rightarrow> s)"

lemma reach_advance: "rcu_reach Cs s \<Longrightarrow> c \<in> Cs \<Longrightarrow> rcu_reach Cs ((advance c ^^ n) s)"
proof (induction n)
  case (Suc n)
  let ?s = "(advance c ^^ n) s"
  have "rcu_step Cs ?s (advance c ?s) \<or> advance c ?s = ?s"
    using Suc.prems(2) by (auto simp: advance_def intro: rcu_step.intros split: rcu_pc.split)
  then show ?case using Suc by (auto simp: rcu_reach_def intro: rtranclp.rtrancl_into_rtrancl)
qed simp

lemma reach_step: "rcu_reach Cs s \<Longrightarrow> rcu_step Cs s s' \<Longrightarrow> rcu_reach Cs s'"
  by (auto simp: rcu_reach_def intro: rtranclp.rtrancl_into_rtrancl)

definition ex_rcu1 :: "(nat, nat) rcu" where
  "ex_rcu1 = (advance 0 ^^ 6) (update1 0 (snd (call_rcu (\<lambda>_. False) 0 7 (rcu_init 1))))"

definition ex_rcu2 :: "(nat, nat) rcu" where
  "ex_rcu2 = (advance 0 ^^ 1) (quiet 0 ((advance 0 ^^ 3) (update1 0 ex_rcu1)))"

definition ex_rcu3 :: "(nat, nat) rcu" where
  "ex_rcu3 = (advance 0 ^^ 3) (update1 0 ex_rcu2)"

lemma ex_rcu_eval1: "rpc ex_rcu1 0 = Idle"
  by code_simp

lemma ex_rcu_eval2: "rpc ((advance 0 ^^ 3) (update1 0 ex_rcu1)) 0 = Idle"
  by code_simp

lemma ex_rcu_eval3: "hz_rcu ((advance 0 ^^ 3) (update1 0 ex_rcu1)) 0"
  by code_simp

lemma ex_rcu_eval4: "rpc ex_rcu2 0 = Idle"
  by code_simp

lemma ex_rcu_eval5: "rpc ex_rcu3 0 = Run (Elem 7)"
  by code_simp

lemma ex_rcu_eval6: "rlog (invoke 0 7 ex_rcu3) = [Func 7 {0}]"
  by code_simp

lemma ex_rcu_eval7: "rlog ex_rcu3 = []"
  by code_simp

lemmas ex_rcu_eval = ex_rcu_eval1 ex_rcu_eval2 ex_rcu_eval3 ex_rcu_eval4 ex_rcu_eval5 ex_rcu_eval6 ex_rcu_eval7

lemma ex_rcu_reach: "rcu_reach {0} ex_rcu3"
proof -
  have c: "rcu_reach {0} (snd (call_rcu (\<lambda>_. False) 0 7 (rcu_init 1)) :: (nat, nat) rcu)"
    by (rule reach_step[where s = "rcu_init 1"]) (auto simp: rcu_reach_def rcu_init_def may_call_def intro: rs_call)
  have "rpc (snd (call_rcu (\<lambda>_. False) 0 7 (rcu_init 1)) :: (nat, nat) rcu) 0 = Idle" by code_simp
  then have "rcu_reach {0} ex_rcu1" unfolding ex_rcu1_def by (intro reach_advance reach_step[OF c] rs_update1) simp_all
  from reach_step[OF this rs_update1[OF _ ex_rcu_eval(1)]]
  have "rcu_reach {0} ((advance 0 ^^ 3) (update1 0 ex_rcu1))" by (intro reach_advance) simp_all
  from reach_step[OF this rs_quiet[OF _ ex_rcu_eval(2,3)]]
  have "rcu_reach {0} ex_rcu2" unfolding ex_rcu2_def by (intro reach_advance) simp_all
  from reach_step[OF this rs_update1[OF _ ex_rcu_eval(4)]] show ?thesis unfolding ex_rcu3_def by (intro reach_advance) simp_all
qed

theorem rcu_grace_period_witness: "rlog (invoke 0 7 ex_rcu3) = [Func 7 {0}] \<and> {0} \<subseteq> {0 :: nat}"
proof -
  have "rcu_reach {0} (invoke 0 7 ex_rcu3)" by (rule reach_step[OF ex_rcu_reach rs_invoke[OF _ ex_rcu_eval(5)]]) simp
  from rcu_grace_period[OF this, of 7 "{0}"] show ?thesis using ex_rcu_eval(6) by simp
qed

theorem rcu_invoke_ends_witness:
  "\<exists>es (s' :: (nat, nat) rcu). rpc s' 0 = Idle \<and> rlog s' = map (\<lambda>x. Func x (since ex_rcu3 x)) (7 # es)"
  using rcu_invoke_ends[OF ex_rcu_reach, of 0 "Elem 7"] ex_rcu_eval(5,7) by auto

end
