(* ===== verification/Vmx.thy ===== *)
theory Vmx
  imports Bits Crd
begin

text \<open>
  The Intel side of the virtualization layer (\<open>include/vmx.hpp\<close>, \<open>src/vmx.cpp\<close>): the
  virtual-machine control structure as a store indexed by field encodings, the probing of the
  control capabilities at CPU start, the construction of a VMCS and the MSR permission bitmap.

  A VMCS is only reachable through the instructions \<open>vmread\<close> and \<open>vmwrite\<close>. The store follows
  the processor manual: the width of a field is bits 13 and 14 of its encoding, a write keeps
  the low bits that fit, a read zero-extends, and an odd encoding addresses the high half of
  the 64-bit field before it. The functions of this theory act on the current VMCS.
\<close>

subsection \<open>Field encodings and control bits\<close>

abbreviation (input) VPID :: nat where "VPID \<equiv> 0x0"
abbreviation (input) GUEST_SEL_ES :: nat where "GUEST_SEL_ES \<equiv> 0x800"
abbreviation (input) GUEST_SEL_CS :: nat where "GUEST_SEL_CS \<equiv> 0x802"
abbreviation (input) GUEST_SEL_SS :: nat where "GUEST_SEL_SS \<equiv> 0x804"
abbreviation (input) GUEST_SEL_DS :: nat where "GUEST_SEL_DS \<equiv> 0x806"
abbreviation (input) GUEST_SEL_FS :: nat where "GUEST_SEL_FS \<equiv> 0x808"
abbreviation (input) GUEST_SEL_GS :: nat where "GUEST_SEL_GS \<equiv> 0x80a"
abbreviation (input) GUEST_SEL_LDTR :: nat where "GUEST_SEL_LDTR \<equiv> 0x80c"
abbreviation (input) GUEST_SEL_TR :: nat where "GUEST_SEL_TR \<equiv> 0x80e"
abbreviation (input) HOST_SEL_ES :: nat where "HOST_SEL_ES \<equiv> 0xc00"
abbreviation (input) HOST_SEL_CS :: nat where "HOST_SEL_CS \<equiv> 0xc02"
abbreviation (input) HOST_SEL_SS :: nat where "HOST_SEL_SS \<equiv> 0xc04"
abbreviation (input) HOST_SEL_DS :: nat where "HOST_SEL_DS \<equiv> 0xc06"
abbreviation (input) HOST_SEL_FS :: nat where "HOST_SEL_FS \<equiv> 0xc08"
abbreviation (input) HOST_SEL_GS :: nat where "HOST_SEL_GS \<equiv> 0xc0a"
abbreviation (input) HOST_SEL_TR :: nat where "HOST_SEL_TR \<equiv> 0xc0c"
abbreviation (input) IO_BITMAP_A :: nat where "IO_BITMAP_A \<equiv> 0x2000"
abbreviation (input) IO_BITMAP_B :: nat where "IO_BITMAP_B \<equiv> 0x2002"
abbreviation (input) MSR_BITMAP :: nat where "MSR_BITMAP \<equiv> 0x2004"
abbreviation (input) EXI_MSR_ST_ADDR :: nat where "EXI_MSR_ST_ADDR \<equiv> 0x2006"
abbreviation (input) EXI_MSR_LD_ADDR :: nat where "EXI_MSR_LD_ADDR \<equiv> 0x2008"
abbreviation (input) ENT_MSR_LD_ADDR :: nat where "ENT_MSR_LD_ADDR \<equiv> 0x200a"
abbreviation (input) VMCS_EXEC_PTR :: nat where "VMCS_EXEC_PTR \<equiv> 0x200c"
abbreviation (input) TSC_OFFSET :: nat where "TSC_OFFSET \<equiv> 0x2010"
abbreviation (input) TSC_OFFSET_HI :: nat where "TSC_OFFSET_HI \<equiv> 0x2011"
abbreviation (input) APIC_VIRT_ADDR :: nat where "APIC_VIRT_ADDR \<equiv> 0x2012"
abbreviation (input) APIC_ACCS_ADDR :: nat where "APIC_ACCS_ADDR \<equiv> 0x2014"
abbreviation (input) EPTP :: nat where "EPTP \<equiv> 0x201a"
abbreviation (input) EPTP_HI :: nat where "EPTP_HI \<equiv> 0x201b"
abbreviation (input) INFO_PHYS_ADDR :: nat where "INFO_PHYS_ADDR \<equiv> 0x2400"
abbreviation (input) VMCS_LINK_PTR :: nat where "VMCS_LINK_PTR \<equiv> 0x2800"
abbreviation (input) VMCS_LINK_PTR_HI :: nat where "VMCS_LINK_PTR_HI \<equiv> 0x2801"
abbreviation (input) GUEST_DEBUGCTL :: nat where "GUEST_DEBUGCTL \<equiv> 0x2802"
abbreviation (input) GUEST_DEBUGCTL_HI :: nat where "GUEST_DEBUGCTL_HI \<equiv> 0x2803"
abbreviation (input) GUEST_EFER :: nat where "GUEST_EFER \<equiv> 0x2806"
abbreviation (input) GUEST_PERF_GLOBAL_CTRL :: nat where "GUEST_PERF_GLOBAL_CTRL \<equiv> 0x2808"
abbreviation (input) GUEST_PDPTE0 :: nat where "GUEST_PDPTE0 \<equiv> 0x280a"
abbreviation (input) GUEST_PDPTE1 :: nat where "GUEST_PDPTE1 \<equiv> 0x280c"
abbreviation (input) GUEST_PDPTE2 :: nat where "GUEST_PDPTE2 \<equiv> 0x280e"
abbreviation (input) GUEST_PDPTE3 :: nat where "GUEST_PDPTE3 \<equiv> 0x2810"
abbreviation (input) HOST_EFER :: nat where "HOST_EFER \<equiv> 0x2c02"
abbreviation (input) HOST_PERF_GLOBAL_CTRL :: nat where "HOST_PERF_GLOBAL_CTRL \<equiv> 0x2c04"
abbreviation (input) PIN_CONTROLS :: nat where "PIN_CONTROLS \<equiv> 0x4000"
abbreviation (input) CPU_EXEC_CTRL0 :: nat where "CPU_EXEC_CTRL0 \<equiv> 0x4002"
abbreviation (input) EXC_BITMAP :: nat where "EXC_BITMAP \<equiv> 0x4004"
abbreviation (input) PF_ERROR_MASK :: nat where "PF_ERROR_MASK \<equiv> 0x4006"
abbreviation (input) PF_ERROR_MATCH :: nat where "PF_ERROR_MATCH \<equiv> 0x4008"
abbreviation (input) CR3_TARGET_COUNT :: nat where "CR3_TARGET_COUNT \<equiv> 0x400a"
abbreviation (input) EXI_CONTROLS :: nat where "EXI_CONTROLS \<equiv> 0x400c"
abbreviation (input) EXI_MSR_ST_CNT :: nat where "EXI_MSR_ST_CNT \<equiv> 0x400e"
abbreviation (input) EXI_MSR_LD_CNT :: nat where "EXI_MSR_LD_CNT \<equiv> 0x4010"
abbreviation (input) ENT_CONTROLS :: nat where "ENT_CONTROLS \<equiv> 0x4012"
abbreviation (input) ENT_MSR_LD_CNT :: nat where "ENT_MSR_LD_CNT \<equiv> 0x4014"
abbreviation (input) ENT_INTR_INFO :: nat where "ENT_INTR_INFO \<equiv> 0x4016"
abbreviation (input) ENT_INTR_ERROR :: nat where "ENT_INTR_ERROR \<equiv> 0x4018"
abbreviation (input) ENT_INST_LEN :: nat where "ENT_INST_LEN \<equiv> 0x401a"
abbreviation (input) TPR_THRESHOLD :: nat where "TPR_THRESHOLD \<equiv> 0x401c"
abbreviation (input) CPU_EXEC_CTRL1 :: nat where "CPU_EXEC_CTRL1 \<equiv> 0x401e"
abbreviation (input) VMX_INST_ERROR :: nat where "VMX_INST_ERROR \<equiv> 0x4400"
abbreviation (input) EXI_REASON :: nat where "EXI_REASON \<equiv> 0x4402"
abbreviation (input) EXI_INTR_INFO :: nat where "EXI_INTR_INFO \<equiv> 0x4404"
abbreviation (input) EXI_INTR_ERROR :: nat where "EXI_INTR_ERROR \<equiv> 0x4406"
abbreviation (input) IDT_VECT_INFO :: nat where "IDT_VECT_INFO \<equiv> 0x4408"
abbreviation (input) IDT_VECT_ERROR :: nat where "IDT_VECT_ERROR \<equiv> 0x440a"
abbreviation (input) EXI_INST_LEN :: nat where "EXI_INST_LEN \<equiv> 0x440c"
abbreviation (input) EXI_INST_INFO :: nat where "EXI_INST_INFO \<equiv> 0x440e"
abbreviation (input) GUEST_LIMIT_ES :: nat where "GUEST_LIMIT_ES \<equiv> 0x4800"
abbreviation (input) GUEST_LIMIT_CS :: nat where "GUEST_LIMIT_CS \<equiv> 0x4802"
abbreviation (input) GUEST_LIMIT_SS :: nat where "GUEST_LIMIT_SS \<equiv> 0x4804"
abbreviation (input) GUEST_LIMIT_DS :: nat where "GUEST_LIMIT_DS \<equiv> 0x4806"
abbreviation (input) GUEST_LIMIT_FS :: nat where "GUEST_LIMIT_FS \<equiv> 0x4808"
abbreviation (input) GUEST_LIMIT_GS :: nat where "GUEST_LIMIT_GS \<equiv> 0x480a"
abbreviation (input) GUEST_LIMIT_LDTR :: nat where "GUEST_LIMIT_LDTR \<equiv> 0x480c"
abbreviation (input) GUEST_LIMIT_TR :: nat where "GUEST_LIMIT_TR \<equiv> 0x480e"
abbreviation (input) GUEST_LIMIT_GDTR :: nat where "GUEST_LIMIT_GDTR \<equiv> 0x4810"
abbreviation (input) GUEST_LIMIT_IDTR :: nat where "GUEST_LIMIT_IDTR \<equiv> 0x4812"
abbreviation (input) GUEST_AR_ES :: nat where "GUEST_AR_ES \<equiv> 0x4814"
abbreviation (input) GUEST_AR_CS :: nat where "GUEST_AR_CS \<equiv> 0x4816"
abbreviation (input) GUEST_AR_SS :: nat where "GUEST_AR_SS \<equiv> 0x4818"
abbreviation (input) GUEST_AR_DS :: nat where "GUEST_AR_DS \<equiv> 0x481a"
abbreviation (input) GUEST_AR_FS :: nat where "GUEST_AR_FS \<equiv> 0x481c"
abbreviation (input) GUEST_AR_GS :: nat where "GUEST_AR_GS \<equiv> 0x481e"
abbreviation (input) GUEST_AR_LDTR :: nat where "GUEST_AR_LDTR \<equiv> 0x4820"
abbreviation (input) GUEST_AR_TR :: nat where "GUEST_AR_TR \<equiv> 0x4822"
abbreviation (input) GUEST_INTR_STATE :: nat where "GUEST_INTR_STATE \<equiv> 0x4824"
abbreviation (input) GUEST_ACTV_STATE :: nat where "GUEST_ACTV_STATE \<equiv> 0x4826"
abbreviation (input) GUEST_SMBASE :: nat where "GUEST_SMBASE \<equiv> 0x4828"
abbreviation (input) GUEST_SYSENTER_CS :: nat where "GUEST_SYSENTER_CS \<equiv> 0x482a"
abbreviation (input) HOST_SYSENTER_CS :: nat where "HOST_SYSENTER_CS \<equiv> 0x4c00"
abbreviation (input) CR0_MASK :: nat where "CR0_MASK \<equiv> 0x6000"
abbreviation (input) CR4_MASK :: nat where "CR4_MASK \<equiv> 0x6002"
abbreviation (input) CR0_READ_SHADOW :: nat where "CR0_READ_SHADOW \<equiv> 0x6004"
abbreviation (input) CR4_READ_SHADOW :: nat where "CR4_READ_SHADOW \<equiv> 0x6006"
abbreviation (input) CR3_TARGET_0 :: nat where "CR3_TARGET_0 \<equiv> 0x6008"
abbreviation (input) CR3_TARGET_1 :: nat where "CR3_TARGET_1 \<equiv> 0x600a"
abbreviation (input) CR3_TARGET_2 :: nat where "CR3_TARGET_2 \<equiv> 0x600c"
abbreviation (input) CR3_TARGET_3 :: nat where "CR3_TARGET_3 \<equiv> 0x600e"
abbreviation (input) EXI_QUALIFICATION :: nat where "EXI_QUALIFICATION \<equiv> 0x6400"
abbreviation (input) IO_RCX :: nat where "IO_RCX \<equiv> 0x6402"
abbreviation (input) IO_RSI :: nat where "IO_RSI \<equiv> 0x6404"
abbreviation (input) IO_RDI :: nat where "IO_RDI \<equiv> 0x6406"
abbreviation (input) IO_RIP :: nat where "IO_RIP \<equiv> 0x6408"
abbreviation (input) GUEST_LINEAR_ADDRESS :: nat where "GUEST_LINEAR_ADDRESS \<equiv> 0x640a"
abbreviation (input) GUEST_CR0 :: nat where "GUEST_CR0 \<equiv> 0x6800"
abbreviation (input) GUEST_CR3 :: nat where "GUEST_CR3 \<equiv> 0x6802"
abbreviation (input) GUEST_CR4 :: nat where "GUEST_CR4 \<equiv> 0x6804"
abbreviation (input) GUEST_BASE_ES :: nat where "GUEST_BASE_ES \<equiv> 0x6806"
abbreviation (input) GUEST_BASE_CS :: nat where "GUEST_BASE_CS \<equiv> 0x6808"
abbreviation (input) GUEST_BASE_SS :: nat where "GUEST_BASE_SS \<equiv> 0x680a"
abbreviation (input) GUEST_BASE_DS :: nat where "GUEST_BASE_DS \<equiv> 0x680c"
abbreviation (input) GUEST_BASE_FS :: nat where "GUEST_BASE_FS \<equiv> 0x680e"
abbreviation (input) GUEST_BASE_GS :: nat where "GUEST_BASE_GS \<equiv> 0x6810"
abbreviation (input) GUEST_BASE_LDTR :: nat where "GUEST_BASE_LDTR \<equiv> 0x6812"
abbreviation (input) GUEST_BASE_TR :: nat where "GUEST_BASE_TR \<equiv> 0x6814"
abbreviation (input) GUEST_BASE_GDTR :: nat where "GUEST_BASE_GDTR \<equiv> 0x6816"
abbreviation (input) GUEST_BASE_IDTR :: nat where "GUEST_BASE_IDTR \<equiv> 0x6818"
abbreviation (input) GUEST_DR7 :: nat where "GUEST_DR7 \<equiv> 0x681a"
abbreviation (input) GUEST_RSP :: nat where "GUEST_RSP \<equiv> 0x681c"
abbreviation (input) GUEST_RIP :: nat where "GUEST_RIP \<equiv> 0x681e"
abbreviation (input) GUEST_RFLAGS :: nat where "GUEST_RFLAGS \<equiv> 0x6820"
abbreviation (input) GUEST_PENDING_DEBUG :: nat where "GUEST_PENDING_DEBUG \<equiv> 0x6822"
abbreviation (input) GUEST_SYSENTER_ESP :: nat where "GUEST_SYSENTER_ESP \<equiv> 0x6824"
abbreviation (input) GUEST_SYSENTER_EIP :: nat where "GUEST_SYSENTER_EIP \<equiv> 0x6826"
abbreviation (input) HOST_CR0 :: nat where "HOST_CR0 \<equiv> 0x6c00"
abbreviation (input) HOST_CR3 :: nat where "HOST_CR3 \<equiv> 0x6c02"
abbreviation (input) HOST_CR4 :: nat where "HOST_CR4 \<equiv> 0x6c04"
abbreviation (input) HOST_BASE_FS :: nat where "HOST_BASE_FS \<equiv> 0x6c06"
abbreviation (input) HOST_BASE_GS :: nat where "HOST_BASE_GS \<equiv> 0x6c08"
abbreviation (input) HOST_BASE_TR :: nat where "HOST_BASE_TR \<equiv> 0x6c0a"
abbreviation (input) HOST_BASE_GDTR :: nat where "HOST_BASE_GDTR \<equiv> 0x6c0c"
abbreviation (input) HOST_BASE_IDTR :: nat where "HOST_BASE_IDTR \<equiv> 0x6c0e"
abbreviation (input) HOST_SYSENTER_ESP :: nat where "HOST_SYSENTER_ESP \<equiv> 0x6c10"
abbreviation (input) HOST_SYSENTER_EIP :: nat where "HOST_SYSENTER_EIP \<equiv> 0x6c12"
abbreviation (input) HOST_RSP :: nat where "HOST_RSP \<equiv> 0x6c14"
abbreviation (input) HOST_RIP :: nat where "HOST_RIP \<equiv> 0x6c16"

abbreviation (input) Vmcs_EXI_HOST_64 :: u32 where "Vmcs_EXI_HOST_64 \<equiv> 0x200"
abbreviation (input) Vmcs_EXI_INTA :: u32 where "Vmcs_EXI_INTA \<equiv> 0x8000"
abbreviation (input) Vmcs_EXI_SAVE_EFER :: u32 where "Vmcs_EXI_SAVE_EFER \<equiv> 0x100000"
abbreviation (input) Vmcs_EXI_LOAD_EFER :: u32 where "Vmcs_EXI_LOAD_EFER \<equiv> 0x200000"
abbreviation (input) Vmcs_ENT_GUEST_64 :: u32 where "Vmcs_ENT_GUEST_64 \<equiv> 0x200"
abbreviation (input) Vmcs_ENT_LOAD_EFER :: u32 where "Vmcs_ENT_LOAD_EFER \<equiv> 0x8000"
abbreviation (input) Vmcs_PIN_EXTINT :: u32 where "Vmcs_PIN_EXTINT \<equiv> 0x1"
abbreviation (input) Vmcs_PIN_NMI :: u32 where "Vmcs_PIN_NMI \<equiv> 0x8"
abbreviation (input) Vmcs_PIN_VIRT_NMI :: u32 where "Vmcs_PIN_VIRT_NMI \<equiv> 0x20"
abbreviation (input) Vmcs_CPU_INTR_WINDOW :: u32 where "Vmcs_CPU_INTR_WINDOW \<equiv> 0x4"
abbreviation (input) Vmcs_CPU_HLT :: u32 where "Vmcs_CPU_HLT \<equiv> 0x80"
abbreviation (input) Vmcs_CPU_INVLPG :: u32 where "Vmcs_CPU_INVLPG \<equiv> 0x200"
abbreviation (input) Vmcs_CPU_CR3_LOAD :: u32 where "Vmcs_CPU_CR3_LOAD \<equiv> 0x8000"
abbreviation (input) Vmcs_CPU_CR3_STORE :: u32 where "Vmcs_CPU_CR3_STORE \<equiv> 0x10000"
abbreviation (input) Vmcs_CPU_NMI_WINDOW :: u32 where "Vmcs_CPU_NMI_WINDOW \<equiv> 0x400000"
abbreviation (input) Vmcs_CPU_IO :: u32 where "Vmcs_CPU_IO \<equiv> 0x1000000"
abbreviation (input) Vmcs_CPU_IO_BITMAP :: u32 where "Vmcs_CPU_IO_BITMAP \<equiv> 0x2000000"
abbreviation (input) Vmcs_CPU_MSR_BITMAP :: u32 where "Vmcs_CPU_MSR_BITMAP \<equiv> 0x10000000"
abbreviation (input) Vmcs_CPU_SECONDARY :: u32 where "Vmcs_CPU_SECONDARY \<equiv> 0x80000000"
abbreviation (input) Vmcs_CPU_EPT :: u32 where "Vmcs_CPU_EPT \<equiv> 0x2"
abbreviation (input) Vmcs_CPU_VPID :: u32 where "Vmcs_CPU_VPID \<equiv> 0x20"
abbreviation (input) Vmcs_CPU_URG :: u32 where "Vmcs_CPU_URG \<equiv> 0x80"

subsection \<open>The control structure as a store\<close>

type_synonym vmcs = "nat \<Rightarrow> mword"

definition vmcs_width :: "nat \<Rightarrow> nat" where
  "vmcs_width f = (let w = (f div 0x2000) mod 4 in if w = 0 then 16 else if w = 2 then 32 else 64)"

definition vmread :: "nat \<Rightarrow> vmcs \<Rightarrow> mword" where
  "vmread f s = (if odd f then drop_bit 32 (s (f - 1)) else s f)"

definition vmwrite :: "nat \<Rightarrow> mword \<Rightarrow> vmcs \<Rightarrow> vmcs" where
  "vmwrite f v s =
     (if odd f then s(f - 1 := take_bit 32 (s (f - 1)) OR push_bit 32 v)
      else s(f := take_bit (vmcs_width f) v))"

definition vmwrites :: "(nat \<times> mword) list \<Rightarrow> vmcs \<Rightarrow> vmcs" where
  "vmwrites ws s = fold (\<lambda>(f, v). vmwrite f v) ws s"

text \<open>Every field holds a value of its width.\<close>

definition vmcs_wf :: "vmcs \<Rightarrow> bool" where
  "vmcs_wf s \<longleftrightarrow> (\<forall>f. even f \<longrightarrow> take_bit (vmcs_width f) (s f) = s f)"

subsection \<open>Capabilities of the processor\<close>

record vmx_static =
  fix_cr0_set :: mword
  fix_cr0_clr :: mword
  fix_cr4_set :: mword
  fix_cr4_clr :: mword
  ctrl_pin_set :: u32
  ctrl_pin_clr :: u32
  ctrl_cpu0_set :: u32
  ctrl_cpu0_clr :: u32
  ctrl_cpu1_set :: u32
  ctrl_cpu1_clr :: u32
  ctrl_exi_set :: u32
  ctrl_exi_clr :: u32
  ctrl_ent_set :: u32
  ctrl_ent_clr :: u32
  ept_vpid_val :: u64
  ept_ord :: mword
  vpid_ctr :: u32

definition has_msr_bitmap :: "vmx_static \<Rightarrow> bool" where
  "has_msr_bitmap w = (ctrl_cpu0_clr w AND Vmcs_CPU_MSR_BITMAP \<noteq> 0)"

definition has_secondary :: "vmx_static \<Rightarrow> bool" where
  "has_secondary w = (ctrl_cpu0_clr w AND Vmcs_CPU_SECONDARY \<noteq> 0)"

definition has_ept :: "vmx_static \<Rightarrow> bool" where
  "has_ept w = (ctrl_cpu1_clr w AND Vmcs_CPU_EPT \<noteq> 0)"

definition has_vpid :: "vmx_static \<Rightarrow> bool" where
  "has_vpid w = (ctrl_cpu1_clr w AND Vmcs_CPU_VPID \<noteq> 0)"

definition vmx_has_urg :: "vmx_static \<Rightarrow> bool" where
  "vmx_has_urg w = (ctrl_cpu1_clr w AND Vmcs_CPU_URG \<noteq> 0)"

definition has_vnmi :: "vmx_static \<Rightarrow> bool" where
  "has_vnmi w = (ctrl_pin_clr w AND Vmcs_PIN_VIRT_NMI \<noteq> 0)"

definition vpid :: "vmx_static \<Rightarrow> vmcs \<Rightarrow> mword" where
  "vpid w s = (if has_vpid w then vmread VPID s else 0)"

definition vmx_adjust_rip :: "vmcs \<Rightarrow> vmcs" where
  "vmx_adjust_rip s =
     (let s = vmwrite GUEST_RIP (vmread GUEST_RIP s + vmread EXI_INST_LEN s) s;
          intr = (ucast (vmread GUEST_INTR_STATE s) :: u32)
      in if intr AND 3 \<noteq> 0 then vmwrite GUEST_INTR_STATE (ucast (intr AND NOT 3)) s else s)"

text \<open>
  \<open>Vmcs::init\<close>: the capability MSRs are read through the argument \<open>msr\<close>; \<open>feat\<close> is the CPUID
  bit, \<open>vtlb\<close> and \<open>novpid\<close> are the command-line switches, \<open>cr0\<close> and \<open>cr4\<close> the control registers
  of the host, which come back adjusted. \<^term>\<open>None\<close> is the early return that removes VMX from
  the feature set. In \<open>~(Cpu::CR0_PG | Cpu::CR0_PE)\<close> the operand is a 32-bit value, so the
  complement has a zero upper half.
\<close>

definition lo32 :: "u64 \<Rightarrow> u32" where "lo32 v = ucast v"
definition hi32 :: "u64 \<Rightarrow> u32" where "hi32 v = ucast (drop_bit 32 v)"

definition vmx_read_caps :: "(nat \<Rightarrow> u64) \<Rightarrow> vmx_static \<Rightarrow> vmx_static" where
  "vmx_read_caps msr w =
     (let true_ctrl = bit (msr 0x480) 55;
          exi = msr (if true_ctrl then 0x48f else 0x483);
          ent = msr (if true_ctrl then 0x490 else 0x484);
          pin = msr (if true_ctrl then 0x48d else 0x481);
          cpu0 = msr (if true_ctrl then 0x48e else 0x482);
          w = w\<lparr>fix_cr0_set := msr 0x486, fix_cr0_clr := NOT (msr 0x487),
                fix_cr4_set := msr 0x488, fix_cr4_clr := NOT (msr 0x489)\<rparr>;
          w = w\<lparr>ctrl_exi_set := lo32 exi, ctrl_exi_clr := hi32 exi,
                ctrl_ent_set := lo32 ent, ctrl_ent_clr := hi32 ent,
                ctrl_pin_set := lo32 pin, ctrl_pin_clr := hi32 pin,
                ctrl_cpu0_set := lo32 cpu0, ctrl_cpu0_clr := hi32 cpu0\<rparr>
      in if has_secondary w
         then w\<lparr>ctrl_cpu1_set := lo32 (msr 0x48b), ctrl_cpu1_clr := hi32 (msr 0x48b)\<rparr> else w)"

definition ept_super_field :: "vmx_static \<Rightarrow> mword" where
  "ept_super_field w = drop_bit 16 (ept_vpid_val w) AND 3"

definition ept_invept :: "vmx_static \<Rightarrow> bool" where
  "ept_invept w = bit (ept_vpid_val w) 20"

definition ept_invvpid :: "vmx_static \<Rightarrow> bool" where
  "ept_invvpid w = bit (ept_vpid_val w) 32"

definition vmx_adjust_caps :: "(nat \<Rightarrow> u64) \<Rightarrow> bool \<Rightarrow> bool \<Rightarrow> vmx_static \<Rightarrow> vmx_static" where
  "vmx_adjust_caps msr vtlb novpid w =
     (let w = w\<lparr>ept_vpid_val := if has_ept w \<or> has_vpid w then msr 0x48c else ept_vpid_val w\<rparr>;
          w = w\<lparr>ept_ord := if has_ept w
                 then min (ept_ord w) (word_of_int (bit_scan_reverse (ept_super_field w) + 2) * 9 - 1)
                 else ept_ord w\<rparr>;
          w = w\<lparr>fix_cr0_set := if vmx_has_urg w
                 then fix_cr0_set w AND ucast (NOT (0x80000001 :: u32)) else fix_cr0_set w\<rparr>;
          w = w\<lparr>fix_cr0_clr := fix_cr0_clr w OR 0x60000000\<rparr>;
          w = w\<lparr>ctrl_cpu0_set := ctrl_cpu0_set w OR (Vmcs_CPU_HLT OR Vmcs_CPU_IO
                  OR Vmcs_CPU_IO_BITMAP OR Vmcs_CPU_SECONDARY)\<rparr>;
          w = w\<lparr>ctrl_cpu0_set := if has_msr_bitmap w
                 then ctrl_cpu0_set w OR Vmcs_CPU_MSR_BITMAP else ctrl_cpu0_set w\<rparr>;
          w = w\<lparr>ctrl_cpu1_set := ctrl_cpu1_set w OR (Vmcs_CPU_VPID OR Vmcs_CPU_URG)\<rparr>;
          w = w\<lparr>ctrl_cpu1_clr := if vtlb \<or> \<not> ept_invept w
                 then ctrl_cpu1_clr w AND NOT (Vmcs_CPU_EPT OR Vmcs_CPU_URG) else ctrl_cpu1_clr w\<rparr>
      in w\<lparr>ctrl_cpu1_clr := if novpid \<or> \<not> ept_invvpid w
             then ctrl_cpu1_clr w AND NOT Vmcs_CPU_VPID else ctrl_cpu1_clr w\<rparr>)"

definition Vmcs_init ::
  "bool \<Rightarrow> (nat \<Rightarrow> u64) \<Rightarrow> bool \<Rightarrow> bool \<Rightarrow> mword \<Rightarrow> mword \<Rightarrow> vmx_static
     \<Rightarrow> (vmx_static \<times> mword \<times> mword) option" where
  "Vmcs_init feat msr vtlb novpid cr0 cr4 w =
     (if \<not> feat \<or> msr 0x3a AND 0x5 \<noteq> 0x5 then None
      else let w = vmx_adjust_caps msr vtlb novpid (vmx_read_caps msr w)
           in Some (w, (cr0 AND NOT (fix_cr0_clr w)) OR fix_cr0_set w,
                       (cr4 AND NOT (fix_cr4_clr w)) OR fix_cr4_set w))"

subsection \<open>The MSR permission bitmap\<close>

text \<open>
  One bit per MSR and access: the four kilobyte blocks hold the read bits of the low range, the
  read bits of the high range, the write bits of the low range and the write bits of the high
  range. A set bit makes the access exit.
\<close>

type_synonym msr_bitmap = "u8 list"

definition bm_clear :: "nat \<Rightarrow> u8 \<Rightarrow> msr_bitmap \<Rightarrow> msr_bitmap result" where
  "bm_clear i m b = (if i < length b then Inr (b[i := b ! i AND m]) else Inl Out_of_bounds)"

definition vmx_disable_msr_exit :: "u32 \<Rightarrow> msr_bitmap \<Rightarrow> msr_bitmap result" where
  "vmx_disable_msr_exit reg b =
     (let valid_range = reg AND 0x1ffff;
          index = unat (valid_range div 8);
          bit' = unat (valid_range mod 8);
          m = (ucast (NOT (push_bit bit' 1 :: u32)) :: u8)
      in if reg \<le> 0x1fff
         then bind_result (bm_clear index m b) (bm_clear (index + 2048) m)
         else if 0xc0000000 \<le> reg \<and> reg \<le> 0xc0001fff
         then bind_result (bm_clear (index + 1024) m b) (bm_clear (index + 3072) m)
         else Inr b)"

text \<open>The hardware's reading of the bitmap: does the guest exit on this MSR?\<close>

definition vmx_msr_exits :: "bool \<Rightarrow> u32 \<Rightarrow> msr_bitmap \<Rightarrow> bool" where
  "vmx_msr_exits wr reg b =
     (if reg \<le> 0x1fff
      then bit (b ! (unat reg div 8 + (if wr then 2048 else 0))) (unat reg mod 8)
      else if 0xc0000000 \<le> reg \<and> reg \<le> 0xc0001fff
      then bit (b ! (unat (reg - 0xc0000000) div 8 + (if wr then 3072 else 1024)))
             (unat (reg - 0xc0000000) mod 8)
      else True)"

subsection \<open>Construction of a VMCS\<close>

record vmx_host =
  h_efer :: mword
  h_cr0 :: mword
  h_cr4 :: mword
  h_tss :: mword
  h_tss_sp0 :: mword
  h_gdt :: mword
  h_idt :: mword
  h_entry_sysenter :: mword
  h_entry_vmx :: mword

record vmx_pages =
  pg_host_msr :: mword
  pg_guest_msr :: mword
  pg_vapic :: mword
  pg_bitmap :: mword

definition IA32_FS_BASE :: u32 where "IA32_FS_BASE = 0xc0000100"
definition IA32_GS_BASE :: u32 where "IA32_GS_BASE = 0xc0000101"
definition IA32_KERNEL_GS_BASE :: u32 where "IA32_KERNEL_GS_BASE = 0xc0000102"

definition ctrl_word :: "u32 \<Rightarrow> u32 \<Rightarrow> u32 \<Rightarrow> mword" where
  "ctrl_word v s c = ucast ((v OR s) AND c)"

definition vmcs_fields ::
  "vmx_static \<Rightarrow> vmx_host \<Rightarrow> vmx_pages \<Rightarrow> mword \<Rightarrow> mword \<Rightarrow> mword \<Rightarrow> u64 \<Rightarrow> (nat \<times> mword) list" where
  "vmcs_fields w h p esp bmp cr3 eptp =
     [(PF_ERROR_MASK, 0), (PF_ERROR_MATCH, 0), (CR3_TARGET_COUNT, 0),
      (VMCS_LINK_PTR, NOT 0), (VMCS_LINK_PTR_HI, NOT 0),
      (VPID, ucast (vpid_ctr w + 1)),
      (EPTP, eptp OR push_bit 3 (4 - 1) OR 6), (EPTP_HI, drop_bit 32 eptp),
      (IO_BITMAP_A, bmp), (IO_BITMAP_B, bmp + 0x1000),
      (HOST_SEL_CS, 0x8), (HOST_SEL_SS, 0x10), (HOST_SEL_DS, 0x10), (HOST_SEL_ES, 0x10),
      (HOST_SEL_TR, 0x30), (HOST_EFER, h_efer h),
      (PIN_CONTROLS, ctrl_word (Vmcs_PIN_EXTINT OR Vmcs_PIN_NMI OR Vmcs_PIN_VIRT_NMI)
                       (ctrl_pin_set w) (ctrl_pin_clr w)),
      (EXI_CONTROLS, ctrl_word (Vmcs_EXI_INTA OR Vmcs_EXI_SAVE_EFER OR Vmcs_EXI_LOAD_EFER
                       OR Vmcs_EXI_HOST_64) (ctrl_exi_set w) (ctrl_exi_clr w)),
      (ENT_CONTROLS, ctrl_word Vmcs_ENT_LOAD_EFER (ctrl_ent_set w) (ctrl_ent_clr w)),
      (HOST_CR3, cr3), (HOST_CR0, h_cr0 h OR 0x8), (HOST_CR4, h_cr4 h),
      (HOST_BASE_TR, h_tss h), (HOST_BASE_GDTR, h_gdt h), (HOST_BASE_IDTR, h_idt h),
      (HOST_SYSENTER_CS, 0x8), (HOST_SYSENTER_ESP, h_tss_sp0 h),
      (HOST_SYSENTER_EIP, h_entry_sysenter h), (HOST_RSP, esp), (HOST_RIP, h_entry_vmx h),
      (EXI_MSR_LD_ADDR, pg_host_msr p), (EXI_MSR_LD_CNT, 5),
      (ENT_MSR_LD_ADDR, pg_guest_msr p), (ENT_MSR_LD_CNT, 5),
      (EXI_MSR_ST_ADDR, pg_guest_msr p), (EXI_MSR_ST_CNT, 5),
      (APIC_VIRT_ADDR, pg_vapic p)]"

definition Vmcs_make ::
  "vmx_static \<Rightarrow> vmx_host \<Rightarrow> vmx_pages \<Rightarrow> mword \<Rightarrow> mword \<Rightarrow> mword \<Rightarrow> u64 \<Rightarrow> vmcs
     \<Rightarrow> (vmcs \<times> msr_bitmap option \<times> vmx_static) result" where
  "Vmcs_make w h p esp bmp cr3 eptp s =
     (let s = vmwrites (vmcs_fields w h p esp bmp cr3 eptp) s;
          w' = w\<lparr>vpid_ctr := vpid_ctr w + 1\<rparr>
      in if has_msr_bitmap w
         then bind_result (vmx_disable_msr_exit IA32_FS_BASE (replicate 4096 0xff)) (\<lambda>b.
              bind_result (vmx_disable_msr_exit IA32_GS_BASE b) (\<lambda>b.
              bind_result (vmx_disable_msr_exit IA32_KERNEL_GS_BASE b) (\<lambda>b.
              Inr (vmwrite MSR_BITMAP (pg_bitmap p) s, Some b, w'))))
         else Inr (s, None, w'))"

subsection \<open>Reading back what was written\<close>

text \<open>
  The contract of the access instructions: a read after a write to the same field gives the
  value cut to the width of the field, and other fields keep their values. Encodings that
  differ only in the lowest bit are halves of one field.
\<close>

locale field_store =
  fixes rd :: "nat \<Rightarrow> 's \<Rightarrow> mword" and wr :: "nat \<Rightarrow> mword \<Rightarrow> 's \<Rightarrow> 's" and width :: "nat \<Rightarrow> nat"
  assumes rd_wr_same: "even f \<Longrightarrow> rd f (wr f v s) = take_bit (width f) v"
    and rd_wr_other: "f div 2 \<noteq> g div 2 \<Longrightarrow> rd g (wr f v s) = rd g s"
begin

lemma rd_writes_other:
  assumes "\<forall>f \<in> fst ` set ws. f div 2 \<noteq> g div 2"
  shows "rd g (fold (\<lambda>(f, v). wr f v) ws s) = rd g s"
  using assms by (induction ws arbitrary: s) (auto simp: rd_wr_other split: prod.splits)

lemma rd_writes_last:
  assumes "even g" "\<forall>f \<in> fst ` set vs. f div 2 \<noteq> g div 2"
  shows "rd g (fold (\<lambda>(f, v). wr f v) (us @ (g, v) # vs) s) = take_bit (width g) v"
  using assms by (simp add: rd_writes_other rd_wr_same)

end

lemma half_eq: "f div 2 = g div 2 \<Longrightarrow> even f \<Longrightarrow> even g \<Longrightarrow> f = (g :: nat)"
  by (metis dvd_div_mult_self)

lemma half_odd: "odd f \<Longrightarrow> (f - 1) div 2 = f div (2 :: nat)"
  by (metis odd_two_times_div_two_nat nonzero_mult_div_cancel_left zero_neq_numeral)

interpretation vmcs_store: field_store vmread vmwrite vmcs_width
proof unfold_locales
  fix f g :: nat and v :: mword and s :: vmcs
  show "vmread f (vmwrite f v s) = take_bit (vmcs_width f) v" if "even f"
    using that by (simp add: vmread_def vmwrite_def)
  assume ne: "f div 2 \<noteq> g div 2"
  define a where "a = (if odd f then f - 1 else f)"
  define b where "b = (if odd g then g - 1 else g)"
  have "a div 2 = f div 2" "b div 2 = g div 2"
    using half_odd[of f] half_odd[of g] by (simp_all only: a_def b_def split: if_split) simp_all
  with ne have "a \<noteq> b" by auto
  then show "vmread g (vmwrite f v s) = vmread g s"
    by (auto simp: vmread_def vmwrite_def a_def b_def split: if_splits)
qed

lemma vmread_even: "even f \<Longrightarrow> vmread f s = s f"
  by (simp add: vmread_def)

lemma vmwrite_even: "even f \<Longrightarrow> vmwrite f v s = s(f := take_bit (vmcs_width f) v)"
  by (simp add: vmwrite_def)

lemma vmcs_width_full: "(f div 0x2000) mod 4 \<in> {1, 3} \<Longrightarrow> vmcs_width f = 64"
  by (auto simp: vmcs_width_def)

lemma take_bit_64 [simp]: "take_bit 64 (v :: mword) = v"
  by (rule bit_word_eqI) (simp add: bit_take_bit_iff)

lemma vmwrite_wf:
  assumes "vmcs_wf s" "even f"
  shows "vmcs_wf (vmwrite f v s)"
  using assms by (auto simp: vmcs_wf_def vmwrite_def take_bit_take_bit)

lemma vmwrites_nil [simp]: "vmwrites [] s = s"
  and vmwrites_cons: "vmwrites ((f, v) # ws) s = vmwrites ws (vmwrite f v s)"
  by (simp_all add: vmwrites_def)

text \<open>The last write to a field decides its value.\<close>

primrec field_value :: "nat \<Rightarrow> (nat \<times> mword) list \<Rightarrow> mword option" where
  "field_value g [] = None"
| "field_value g (w # ws) =
     (case field_value g ws of Some v \<Rightarrow> Some v
      | None \<Rightarrow> if fst w = g then Some (snd w) else None)"

definition halves_unused :: "nat \<Rightarrow> (nat \<times> mword) list \<Rightarrow> bool" where
  "halves_unused g ws = list_all (\<lambda>w. fst w = g \<or> fst w div 2 \<noteq> g div 2) ws"

lemma vmread_vmwrites:
  assumes "even g" "halves_unused g ws"
  shows "vmread g (vmwrites ws s)
    = (case field_value g ws of Some v \<Rightarrow> take_bit (vmcs_width g) v | None \<Rightarrow> vmread g s)"
  using assms(2)
proof (induction ws arbitrary: s)
  case Nil
  then show ?case by simp
next
  case (Cons w ws)
  obtain f v where w: "w = (f, v)" by (cases w)
  have IH: "vmread g (vmwrites ws (vmwrite f v s))
      = (case field_value g ws of Some v \<Rightarrow> take_bit (vmcs_width g) v
         | None \<Rightarrow> vmread g (vmwrite f v s))"
    using Cons.prems by (intro Cons.IH) (simp add: halves_unused_def)
  have "vmread g (vmwrite f v s) = (if f = g then take_bit (vmcs_width g) v else vmread g s)"
    using Cons.prems assms(1)
    by (auto simp: w halves_unused_def vmcs_store.rd_wr_same intro: vmcs_store.rd_wr_other)
  with IH show ?case by (auto simp: w vmwrites_cons split: option.splits)
qed

subsection \<open>The MSR bitmap opens exactly the named register\<close>

lemma bm_mask_bit:
  fixes x :: u8
  assumes "k < 8" "j < 8"
  shows "bit (x AND ucast (NOT (push_bit k 1 :: u32))) j \<longleftrightarrow> bit x j \<and> j \<noteq> k"
  using assms by (auto simp: bit_simps)

lemma bm_clear_nth:
  assumes "i < length b" "k < 8"
  shows "\<exists>b'. bm_clear i (ucast (NOT (push_bit k 1 :: u32))) b = Inr b' \<and> length b' = length b
    \<and> (\<forall>n < length b. \<forall>j < 8. bit (b' ! n) j \<longleftrightarrow> bit (b ! n) j \<and> \<not> (n = i \<and> j = k))"
proof -
  let ?m = "ucast (NOT (push_bit k 1 :: u32)) :: u8"
  have "bit (b[i := b ! i AND ?m] ! n) j \<longleftrightarrow> bit (b ! n) j \<and> \<not> (n = i \<and> j = k)"
    if "n < length b" "j < 8" for n j
    using that assms bm_mask_bit[of k j "b ! i"] by (auto simp: nth_list_update)
  then show ?thesis using assms by (simp add: bm_clear_def)
qed

lemma bm_clear_pair:
  assumes "i < length b" "i' < length b" "k < 8"
  shows "\<exists>b'. bind_result (bm_clear i (ucast (NOT (push_bit k 1 :: u32))) b)
      (bm_clear i' (ucast (NOT (push_bit k 1 :: u32)))) = Inr b' \<and> length b' = length b
    \<and> (\<forall>n < length b. \<forall>j < 8. bit (b' ! n) j
          \<longleftrightarrow> bit (b ! n) j \<and> \<not> ((n = i \<or> n = i') \<and> j = k))"
proof -
  obtain b1 where b1: "bm_clear i (ucast (NOT (push_bit k 1 :: u32))) b = Inr b1"
    "length b1 = length b"
    "\<forall>n < length b. \<forall>j < 8. bit (b1 ! n) j \<longleftrightarrow> bit (b ! n) j \<and> \<not> (n = i \<and> j = k)"
    using bm_clear_nth[OF assms(1,3)] by blast
  obtain b2 where "bm_clear i' (ucast (NOT (push_bit k 1 :: u32))) b1 = Inr b2"
    "length b2 = length b1"
    "\<forall>n < length b1. \<forall>j < 8. bit (b2 ! n) j \<longleftrightarrow> bit (b1 ! n) j \<and> \<not> (n = i' \<and> j = k)"
    using bm_clear_nth[of i' b1 k] assms(2,3) b1(2) by auto
  with b1 show ?thesis by auto
qed

definition in_msr_ranges :: "u32 \<Rightarrow> bool" where
  "in_msr_ranges r \<longleftrightarrow> r \<le> 0x1fff \<or> 0xc0000000 \<le> r \<and> r \<le> 0xc0001fff"

lemma div_mod_8: "a div 8 = b div 8 \<and> a mod 8 = b mod 8 \<longleftrightarrow> a = (b :: nat)"
  by (metis div_mult_mod_eq)

lemma unat_low: "(r :: u32) \<le> 0x1fff \<Longrightarrow> unat r < 8192"
  by (simp add: word_le_nat_alt)

lemma high_range:
  assumes "0xc0000000 \<le> (r :: u32)" "r \<le> 0xc0001fff"
  shows "unat (r - 0xc0000000) < 8192" "r AND 0x1ffff = r - 0xc0000000"
proof -
  define x where "x = r - 0xc0000000"
  have x: "x \<le> 0x1fff" using assms unfolding x_def by unat_arith
  then show "unat (r - 0xc0000000) < 8192" using unat_low x_def by simp
  have "r = 0xc0000000 + x" by (simp add: x_def)
  have low: "x = take_bit 13 x"
    using x by (simp add: take_bit_eq_mod word_le_nat_alt word_unat_eq_iff unat_mod)
  have c: "(0xc0000000 :: u32) = push_bit 30 3" "(0x1ffff :: u32) = mask 17"
    by (simp_all add: mask_eq_exp_minus_1)
  have d: "bit (0xc0000000 :: u32) n \<Longrightarrow> 30 \<le> n" for n
    unfolding c(1) by (simp only: bit_push_bit_iff)
  have e: "bit x n \<Longrightarrow> n < 13" for n
    by (subst (asm) low) (simp add: bit_take_bit_iff)
  have "\<not> bit (0xc0000000 :: u32) n \<or> \<not> bit x n" for n using d[of n] e[of n] by linarith
  then have "0xc0000000 + x = 0xc0000000 OR x" by (rule disjunctive_add)
  then have "r AND 0x1ffff = (0xc0000000 OR x) AND mask 17" by (simp add: x_def c(2))
  also have "\<dots> = x"
  proof (rule bit_word_eqI)
    fix n show "bit ((0xc0000000 OR x) AND mask 17) n = bit x n"
      using d[of n] e[of n] by (auto simp: bit_and_iff bit_or_iff bit_mask_iff)
  qed
  finally show "r AND 0x1ffff = r - 0xc0000000" using x_def by simp
qed

lemma low_range: "(r :: u32) \<le> 0x1fff \<Longrightarrow> r AND 0x1ffff = r"
  using less_mask_eq[of r 17] by (simp add: mask_eq_exp_minus_1 word_le_nat_alt word_less_nat_alt)

lemma vmx_disable_low:
  assumes "reg \<le> 0x1fff"
  shows "vmx_disable_msr_exit reg b
    = bind_result (bm_clear (unat reg div 8) (ucast (NOT (push_bit (unat reg mod 8) 1 :: u32))) b)
        (bm_clear (unat reg div 8 + 2048) (ucast (NOT (push_bit (unat reg mod 8) 1 :: u32))))"
  using assms by (simp add: vmx_disable_msr_exit_def low_range unat_div unat_mod Let_def)

lemma vmx_disable_high:
  assumes "0xc0000000 \<le> reg" "reg \<le> 0xc0001fff" and x: "x = unat (reg - 0xc0000000)"
  shows "vmx_disable_msr_exit reg b
    = bind_result (bm_clear (x div 8 + 1024) (ucast (NOT (push_bit (x mod 8) 1 :: u32))) b)
        (bm_clear (x div 8 + 3072) (ucast (NOT (push_bit (x mod 8) 1 :: u32))))"
proof -
  have "\<not> reg \<le> 0x1fff" using assms(1) by (simp add: word_le_nat_alt)
  with assms show ?thesis
    by (simp add: vmx_disable_msr_exit_def high_range(2)[OF assms(1,2)] unat_div unat_mod Let_def)
qed

lemma disable_msr_exit_spec:
  assumes "length b = 4096" "in_msr_ranges reg"
  shows "\<exists>b'. vmx_disable_msr_exit reg b = Inr b' \<and> length b' = 4096
    \<and> (\<forall>wr r. vmx_msr_exits wr r b' \<longleftrightarrow> vmx_msr_exits wr r b \<and> r \<noteq> reg)"
proof (cases "reg \<le> 0x1fff")
  case True
  have u: "unat reg < 8192" using unat_low[OF True] .
  obtain b' where b': "vmx_disable_msr_exit reg b = Inr b'" "length b' = 4096"
    and bits: "\<And>n j. n < 4096 \<Longrightarrow> j < 8 \<Longrightarrow> bit (b' ! n) j \<longleftrightarrow> bit (b ! n) j
        \<and> \<not> ((n = unat reg div 8 \<or> n = unat reg div 8 + 2048) \<and> j = unat reg mod 8)"
    using bm_clear_pair[of "unat reg div 8" b "unat reg div 8 + 2048" "unat reg mod 8"] assms(1) u
    unfolding vmx_disable_low[OF True] by fastforce
  have "vmx_msr_exits wr r b' \<longleftrightarrow> vmx_msr_exits wr r b \<and> r \<noteq> reg" for wr r
  proof -
    consider "r \<le> 0x1fff" | "\<not> r \<le> 0x1fff" "0xc0000000 \<le> r" "r \<le> 0xc0001fff"
      | "\<not> r \<le> 0x1fff" "\<not> (0xc0000000 \<le> r \<and> r \<le> 0xc0001fff)" by blast
    then show ?thesis
    proof cases
      case 1
      then have "unat r div 8 + (if wr then 2048 else 0) < 4096" "unat r div 8 < 1024"
        using unat_low[OF 1] by auto
      then show ?thesis using bits[of "unat r div 8 + (if wr then 2048 else 0)" "unat r mod 8"]
          div_mod_8[of "unat r" "unat reg"] word_unat_eq_iff[of r reg] 1 u
        by (auto simp: vmx_msr_exits_def split: if_splits)
    next
      case 2
      then have "unat (r - 0xc0000000) div 8 + (if wr then 3072 else 1024) < 4096"
        "unat (r - 0xc0000000) div 8 < 1024" using high_range(1)[of r] by auto
      then show ?thesis using 2 True u
          bits[of "unat (r - 0xc0000000) div 8 + (if wr then 3072 else 1024)" "unat (r - 0xc0000000) mod 8"]
        by (auto simp: vmx_msr_exits_def)
    next
      case 3
      then show ?thesis using True by (auto simp: vmx_msr_exits_def)
    qed
  qed
  then show ?thesis using b' by blast
next
  case False
  then have hi: "0xc0000000 \<le> reg" "reg \<le> 0xc0001fff" using assms(2) by (auto simp: in_msr_ranges_def)
  let ?x = "reg - 0xc0000000"
  have u: "unat ?x < 8192" using high_range[OF hi] by simp
  obtain b' where b': "vmx_disable_msr_exit reg b = Inr b'" "length b' = 4096"
    and bits: "\<And>n j. n < 4096 \<Longrightarrow> j < 8 \<Longrightarrow> bit (b' ! n) j \<longleftrightarrow> bit (b ! n) j
        \<and> \<not> ((n = unat ?x div 8 + 1024 \<or> n = unat ?x div 8 + 3072) \<and> j = unat ?x mod 8)"
    using bm_clear_pair[of "unat ?x div 8 + 1024" b "unat ?x div 8 + 3072" "unat ?x mod 8"] assms(1) u
    unfolding vmx_disable_high[OF hi refl] by fastforce
  have "vmx_msr_exits wr r b' \<longleftrightarrow> vmx_msr_exits wr r b \<and> r \<noteq> reg" for wr r
  proof -
    consider "r \<le> 0x1fff" | "\<not> r \<le> 0x1fff" "0xc0000000 \<le> r" "r \<le> 0xc0001fff"
      | "\<not> r \<le> 0x1fff" "\<not> (0xc0000000 \<le> r \<and> r \<le> 0xc0001fff)" by blast
    then show ?thesis
    proof cases
      case 1
      then have "unat r div 8 + (if wr then 2048 else 0) < 4096" "unat r div 8 < 1024"
        using unat_low[OF 1] by auto
      then show ?thesis using bits[of "unat r div 8 + (if wr then 2048 else 0)" "unat r mod 8"]
          1 False u by (auto simp: vmx_msr_exits_def split: if_splits)
    next
      case 2
      then have "unat (r - 0xc0000000) div 8 + (if wr then 3072 else 1024) < 4096"
        "unat (r - 0xc0000000) div 8 < 1024" using high_range(1)[of r] by auto
      moreover have "unat (r - 0xc0000000) = unat ?x \<longleftrightarrow> r = reg"
        by (metis diff_left_imp_eq word_unat_eq_iff diff_add_cancel)
      ultimately show ?thesis using 2 False u div_mod_8[of "unat (r - 0xc0000000)" "unat ?x"]
          bits[of "unat (r - 0xc0000000) div 8 + (if wr then 3072 else 1024)" "unat (r - 0xc0000000) mod 8"]
        by (auto simp: vmx_msr_exits_def split: if_splits)
    next
      case 3
      then show ?thesis using hi by (auto simp: vmx_msr_exits_def)
    qed
  qed
  then show ?thesis using b' by blast
qed

text \<open>vmx_msr_passthrough. For a register of the two bitmap ranges, \<open>disable_msr_exit\<close>
  stays inside the page and turns off the exits on reads and writes of that register and of no
  other.\<close>
theorem vmx_msr_passthrough:
  assumes "length b = 4096" "in_msr_ranges reg"
  shows "\<exists>b'. vmx_disable_msr_exit reg b = Inr b' \<and> length b' = 4096
    \<and> (\<forall>wr r. vmx_msr_exits wr r b' \<longleftrightarrow> vmx_msr_exits wr r b \<and> r \<noteq> reg)"
  using assms by (rule disable_msr_exit_spec)

theorem vmx_msr_passthrough_witness:
  "\<exists>b'. vmx_disable_msr_exit IA32_GS_BASE (replicate 4096 0xff) = Inr b' \<and> length b' = 4096
    \<and> (\<forall>wr r. vmx_msr_exits wr r b'
          \<longleftrightarrow> vmx_msr_exits wr r (replicate 4096 0xff) \<and> r \<noteq> IA32_GS_BASE)"
  by (rule vmx_msr_passthrough) (simp_all add: in_msr_ranges_def IA32_GS_BASE_def)

subsection \<open>A fresh control structure\<close>

lemma msr_exits_full: "vmx_msr_exits wr r (replicate 4096 0xff)"
proof -
  have "bit (0xff :: u8) j" if "j < 8" for j
    using that bit_mask_iff[of 8 j, where 'a = u8] by (simp add: mask_eq_exp_minus_1)
  then show ?thesis
    using unat_low[of r] high_range(1)[of r] by (auto simp: vmx_msr_exits_def)
qed

lemma three_passthrough:
  "\<exists>b. bind_result (vmx_disable_msr_exit IA32_FS_BASE (replicate 4096 0xff)) (\<lambda>b.
        bind_result (vmx_disable_msr_exit IA32_GS_BASE b) (\<lambda>b.
        bind_result (vmx_disable_msr_exit IA32_KERNEL_GS_BASE b) f)) = f b \<and> length b = 4096
     \<and> (\<forall>wr r. vmx_msr_exits wr r b
          \<longleftrightarrow> r \<notin> {IA32_FS_BASE, IA32_GS_BASE, IA32_KERNEL_GS_BASE})"
proof -
  note r = IA32_FS_BASE_def IA32_GS_BASE_def IA32_KERNEL_GS_BASE_def in_msr_ranges_def
  have step: "in_msr_ranges reg \<Longrightarrow> length b = 4096 \<Longrightarrow>
      \<exists>b'. vmx_disable_msr_exit reg b = Inr b' \<and> length b' = 4096
        \<and> (\<forall>wr r. vmx_msr_exits wr r b' \<longleftrightarrow> vmx_msr_exits wr r b \<and> r \<noteq> reg)" for reg b
    by (rule disable_msr_exit_spec)
  obtain b1 where b1: "vmx_disable_msr_exit IA32_FS_BASE (replicate 4096 0xff) = Inr b1"
    "length b1 = 4096" "\<And>wr r. vmx_msr_exits wr r b1 \<longleftrightarrow> r \<noteq> IA32_FS_BASE"
    using step[of IA32_FS_BASE "replicate 4096 0xff"] by (auto simp: r msr_exits_full)
  obtain b2 where b2: "vmx_disable_msr_exit IA32_GS_BASE b1 = Inr b2" "length b2 = 4096"
    "\<And>wr r. vmx_msr_exits wr r b2 \<longleftrightarrow> r \<noteq> IA32_FS_BASE \<and> r \<noteq> IA32_GS_BASE"
    using step[of IA32_GS_BASE b1] b1 by (auto simp: r)
  obtain b3 where b3: "vmx_disable_msr_exit IA32_KERNEL_GS_BASE b2 = Inr b3" "length b3 = 4096"
    "\<And>wr r. vmx_msr_exits wr r b3
        \<longleftrightarrow> (r \<noteq> IA32_FS_BASE \<and> r \<noteq> IA32_GS_BASE) \<and> r \<noteq> IA32_KERNEL_GS_BASE"
    using step[of IA32_KERNEL_GS_BASE b2] b2 by (auto simp: r)
  show ?thesis using b1(1) b2(1) b3 by (intro exI[of _ b3]) simp
qed

lemma ctrl_word_bits: "take_bit 32 (ctrl_word v s c) = ctrl_word v s c"
  by (rule bit_word_eqI) (auto simp: ctrl_word_def bit_simps dest: bit_imp_le_length)

lemma vmcs_width_simps:
  "vmcs_width PIN_CONTROLS = 32" "vmcs_width ENT_CONTROLS = 32" "vmcs_width HOST_RIP = 64"
  "vmcs_width HOST_RSP = 64" "vmcs_width HOST_CR3 = 64" "vmcs_width HOST_CR0 = 64"
  "vmcs_width HOST_EFER = 64" "vmcs_width EPTP = 64" "vmcs_width VMCS_LINK_PTR = 64"
  "vmcs_width ENT_MSR_LD_ADDR = 64" "vmcs_width EXI_MSR_ST_ADDR = 64" "vmcs_width MSR_BITMAP = 64"
  by (simp_all add: vmcs_width_def Let_def)

lemma fresh_fields:
  fixes w :: vmx_static and h :: vmx_host and p :: vmx_pages
    and esp bmp cr3 :: mword and eptp :: u64 and s :: vmcs
  defines "s' \<equiv> vmwrites (vmcs_fields w h p esp bmp cr3 eptp) s"
  shows "vmread HOST_RIP s' = h_entry_vmx h" "vmread HOST_RSP s' = esp" "vmread HOST_CR3 s' = cr3"
    "vmread HOST_CR0 s' = h_cr0 h OR 0x8" "vmread HOST_EFER s' = h_efer h"
    "vmread PIN_CONTROLS s' = ctrl_word (Vmcs_PIN_EXTINT OR Vmcs_PIN_NMI OR Vmcs_PIN_VIRT_NMI)
       (ctrl_pin_set w) (ctrl_pin_clr w)"
    "vmread ENT_CONTROLS s' = ctrl_word Vmcs_ENT_LOAD_EFER (ctrl_ent_set w) (ctrl_ent_clr w)"
    "vmread ENT_MSR_LD_ADDR s' = pg_guest_msr p" "vmread EXI_MSR_ST_ADDR s' = pg_guest_msr p"
  unfolding s'_def
  by (subst vmread_vmwrites;
      simp add: vmcs_fields_def halves_unused_def vmcs_width_simps ctrl_word_bits)+

lemma fresh_halves:
  fixes w :: vmx_static and h :: vmx_host and p :: vmx_pages
    and esp bmp cr3 :: mword and eptp :: u64 and s :: vmcs
  defines "s' \<equiv> vmwrites (vmcs_fields w h p esp bmp cr3 eptp) s"
  shows "vmread EPTP s' = eptp OR 0x1e" "vmread VMCS_LINK_PTR s' = NOT 0"
proof -
  have "vmread EPTP s' = take_bit 32 (eptp OR 0x1e) OR push_bit 32 (drop_bit 32 eptp)"
    unfolding s'_def
    by (simp add: vmcs_fields_def vmwrites_cons vmwrite_def vmread_def vmcs_width_simps)
  also have "\<dots> = eptp OR 0x1e"
  proof (rule bit_word_eqI)
    fix n assume "n < LENGTH(64)"
    then show "bit (take_bit 32 (eptp OR 0x1e) OR push_bit 32 (drop_bit 32 eptp)) n
        = bit (eptp OR 0x1e) n"
      using bits_below[of "0x1e :: mword" 32 n]
      by (cases "n < 32") (auto simp del: take_bit_or simp add: bit_simps not_less)
  qed
  finally show "vmread EPTP s' = eptp OR 0x1e" .
  show "vmread VMCS_LINK_PTR s' = NOT 0" unfolding s'_def
    by (simp add: vmcs_fields_def vmwrites_cons vmwrite_def vmread_def vmcs_width_simps)
qed

text \<open>vmcs_fresh_state. The constructor of a VMCS returns, and the structure it leaves sends every exit to
  the kernel's entry point on the given kernel stack and page tables, with the FPU disabled;
  the control words hold the requested bits as far as the processor allows them; the extended
  page-table pointer is the given root with a walk of four levels and write-back memory; the
  guest MSR area is the one that entries load and exits store; and when the processor has MSR
  bitmaps, exactly the three segment-base registers are passed through.\<close>
theorem vmcs_fresh_state:
  "\<exists>s' bm. Vmcs_make w h p esp bmp cr3 eptp s = Inr (s', bm, w\<lparr>vpid_ctr := vpid_ctr w + 1\<rparr>)
    \<and> vmread HOST_RIP s' = h_entry_vmx h \<and> vmread HOST_RSP s' = esp \<and> vmread HOST_CR3 s' = cr3
    \<and> vmread HOST_CR0 s' = h_cr0 h OR 0x8 \<and> vmread HOST_EFER s' = h_efer h
    \<and> vmread PIN_CONTROLS s' = ctrl_word (Vmcs_PIN_EXTINT OR Vmcs_PIN_NMI OR Vmcs_PIN_VIRT_NMI)
         (ctrl_pin_set w) (ctrl_pin_clr w)
    \<and> vmread ENT_CONTROLS s' = ctrl_word Vmcs_ENT_LOAD_EFER (ctrl_ent_set w) (ctrl_ent_clr w)
    \<and> vmread EPTP s' = eptp OR 0x1e
    \<and> vmread VMCS_LINK_PTR s' = NOT 0
    \<and> vmread ENT_MSR_LD_ADDR s' = vmread EXI_MSR_ST_ADDR s'
    \<and> (case bm of None \<Rightarrow> \<not> has_msr_bitmap w
        | Some b \<Rightarrow> has_msr_bitmap w \<and> vmread MSR_BITMAP s' = pg_bitmap p
            \<and> (\<forall>wr r. vmx_msr_exits wr r b
                 \<longleftrightarrow> r \<notin> {IA32_FS_BASE, IA32_GS_BASE, IA32_KERNEL_GS_BASE}))"
proof -
  let ?s = "vmwrites (vmcs_fields w h p esp bmp cr3 eptp) s"
  note f = fresh_fields[of w h p esp bmp cr3 eptp s] fresh_halves[of w h p esp bmp cr3 eptp s]
  show ?thesis
  proof (cases "has_msr_bitmap w")
    case False
    then show ?thesis by (simp add: Vmcs_make_def Let_def f)
  next
    case True
    obtain b where b: "Vmcs_make w h p esp bmp cr3 eptp s
        = Inr (vmwrite MSR_BITMAP (pg_bitmap p) ?s, Some b, w\<lparr>vpid_ctr := vpid_ctr w + 1\<rparr>)"
      "\<forall>wr r. vmx_msr_exits wr r b \<longleftrightarrow> r \<notin> {IA32_FS_BASE, IA32_GS_BASE, IA32_KERNEL_GS_BASE}"
      using three_passthrough[of "\<lambda>b. Inr (vmwrite MSR_BITMAP (pg_bitmap p) ?s, Some b,
          w\<lparr>vpid_ctr := vpid_ctr w + 1\<rparr>)"] True by (auto simp: Vmcs_make_def Let_def)
    then show ?thesis
      by (intro exI[of _ "vmwrite MSR_BITMAP (pg_bitmap p) ?s"] exI[of _ "Some b"])
        (simp add: vmcs_store.rd_wr_other vmcs_store.rd_wr_same f True vmcs_width_simps)
  qed
qed

lemma or_and_absorb:
  fixes a c d :: "'a :: len word"
  shows "((a OR c) OR d) AND c = c" "(a OR c) AND c = c" "(a AND NOT b OR c) AND c = c"
  by (rule bit_word_eqI, auto simp: bit_simps)+

lemma adjust_caps_fields:
  "ctrl_cpu0_set (vmx_adjust_caps msr vtlb novpid w)
     = (ctrl_cpu0_set w OR 0x83000080) OR (if has_msr_bitmap w then Vmcs_CPU_MSR_BITMAP else 0)"
  "ctrl_cpu0_clr (vmx_adjust_caps msr vtlb novpid w) = ctrl_cpu0_clr w"
  "fix_cr0_clr (vmx_adjust_caps msr vtlb novpid w) = fix_cr0_clr w OR 0x60000000"
  "fix_cr0_set (vmx_adjust_caps msr vtlb novpid w)
     = (if vmx_has_urg w then fix_cr0_set w AND 0x7ffffffe else fix_cr0_set w)"
  "ctrl_cpu1_clr (vmx_adjust_caps msr vtlb novpid w)
     = (let e = (if has_ept w \<or> has_vpid w then msr 0x48c else ept_vpid_val w)
        in ctrl_cpu1_clr w AND NOT (if vtlb \<or> \<not> bit e 20 then 0x82 else 0)
             AND NOT (if novpid \<or> \<not> bit e 32 then 0x20 else 0))"
  unfolding vmx_adjust_caps_def Let_def
  by (simp_all add: has_msr_bitmap_def vmx_has_urg_def has_ept_def has_vpid_def ept_invept_def
      ept_invvpid_def and.assoc)

lemma init_caps_facts:
  assumes "Vmcs_init feat msr vtlb novpid cr0 cr4 w = Some (w', cr0', cr4')"
  shows "feat \<and> bit (msr 0x3a) 0 \<and> bit (msr 0x3a) 2"
    and "ctrl_cpu0_set w' AND (Vmcs_CPU_HLT OR Vmcs_CPU_IO OR Vmcs_CPU_IO_BITMAP OR Vmcs_CPU_SECONDARY)
           = (Vmcs_CPU_HLT OR Vmcs_CPU_IO OR Vmcs_CPU_IO_BITMAP OR Vmcs_CPU_SECONDARY)"
    and "has_msr_bitmap w' \<longrightarrow> ctrl_cpu0_set w' AND Vmcs_CPU_MSR_BITMAP \<noteq> 0"
    and "fix_cr0_clr w' AND 0x60000000 = 0x60000000"
    and "vtlb \<longrightarrow> \<not> has_ept w' \<and> \<not> vmx_has_urg w'"
    and "novpid \<longrightarrow> \<not> has_vpid w'"
    and "vmx_has_urg w' \<longrightarrow> fix_cr0_set w' AND 0x80000001 = 0"
    and "cr0' AND fix_cr0_set w' = fix_cr0_set w'"
proof -
  let ?c = "vmx_read_caps msr w"
  have w': "w' = vmx_adjust_caps msr vtlb novpid ?c"
    and cr0: "cr0' = (cr0 AND NOT (fix_cr0_clr w')) OR fix_cr0_set w'"
    and ok: "feat" "msr 0x3a AND 0x5 = 0x5"
    using assms by (auto simp: Vmcs_init_def Let_def split: if_splits)
  have forced: "(Vmcs_CPU_HLT OR Vmcs_CPU_IO OR Vmcs_CPU_IO_BITMAP OR Vmcs_CPU_SECONDARY) = 0x83000080"
    by simp
  note f = adjust_caps_fields[of msr vtlb novpid ?c, folded w']
  have "bit (msr 0x3a AND 0x5) n \<longleftrightarrow> bit (0x5 :: mword) n" for n using ok by simp
  from this[of 0] this[of 2] show "feat \<and> bit (msr 0x3a) 0 \<and> bit (msr 0x3a) 2"
    using ok(1) by (simp add: bit_and_iff)
  show "ctrl_cpu0_set w' AND (Vmcs_CPU_HLT OR Vmcs_CPU_IO OR Vmcs_CPU_IO_BITMAP OR Vmcs_CPU_SECONDARY)
      = (Vmcs_CPU_HLT OR Vmcs_CPU_IO OR Vmcs_CPU_IO_BITMAP OR Vmcs_CPU_SECONDARY)"
    unfolding f(1) forced by (rule or_and_absorb)
  show "has_msr_bitmap w' \<longrightarrow> ctrl_cpu0_set w' AND Vmcs_CPU_MSR_BITMAP \<noteq> 0"
    unfolding f(1) has_msr_bitmap_def f(2) by (auto simp: or_and_absorb)
  show "fix_cr0_clr w' AND 0x60000000 = 0x60000000" unfolding f(3) by (rule or_and_absorb)
  show "vtlb \<longrightarrow> \<not> has_ept w' \<and> \<not> vmx_has_urg w'"
    unfolding has_ept_def vmx_has_urg_def f(5) Let_def
    by (auto simp: and.assoc)
  show "novpid \<longrightarrow> \<not> has_vpid w'"
    unfolding has_vpid_def f(5) Let_def by (auto simp: and.assoc)
  have "(fix_cr0_set ?c AND 0x7ffffffe) AND 0x80000001 = 0" by (simp add: and.assoc)
  then show "vmx_has_urg w' \<longrightarrow> fix_cr0_set w' AND 0x80000001 = 0"
    unfolding f(4) by (auto simp: vmx_has_urg_def f(5) Let_def and.assoc and.commute and.left_commute)
  show "cr0' AND fix_cr0_set w' = fix_cr0_set w'" unfolding cr0 by (rule or_and_absorb)
qed

text \<open>vmx_init_caps. When VMX is usable, probing leaves controls that force the exits on HLT and on I/O ports
  and the use of the secondary controls, and MSR bitmaps when the processor has them; the guest
  can never set the cache-disable bits; with the shadow-paging switch there is neither nested
  paging nor unrestricted guest mode, with the tag switch no VPID, and paging and protection
  stay optional for the guest only where unrestricted mode was offered. The host's own control
  registers come back within the fixed bits.\<close>
theorem vmx_init_caps:
  assumes "Vmcs_init feat msr vtlb novpid cr0 cr4 w = Some (w', cr0', cr4')"
  shows "feat \<and> bit (msr 0x3a) 0 \<and> bit (msr 0x3a) 2
    \<and> ctrl_cpu0_set w' AND (Vmcs_CPU_HLT OR Vmcs_CPU_IO OR Vmcs_CPU_IO_BITMAP OR Vmcs_CPU_SECONDARY)
        = (Vmcs_CPU_HLT OR Vmcs_CPU_IO OR Vmcs_CPU_IO_BITMAP OR Vmcs_CPU_SECONDARY)
    \<and> (has_msr_bitmap w' \<longrightarrow> ctrl_cpu0_set w' AND Vmcs_CPU_MSR_BITMAP \<noteq> 0)
    \<and> fix_cr0_clr w' AND 0x60000000 = 0x60000000
    \<and> (vtlb \<longrightarrow> \<not> has_ept w' \<and> \<not> vmx_has_urg w') \<and> (novpid \<longrightarrow> \<not> has_vpid w')
    \<and> (vmx_has_urg w' \<longrightarrow> fix_cr0_set w' AND 0x80000001 = 0)
    \<and> cr0' AND fix_cr0_set w' = fix_cr0_set w'"
  using init_caps_facts[OF assms] by blast

definition ex_vmx_static :: vmx_static where
  "ex_vmx_static = \<lparr>fix_cr0_set = 0, fix_cr0_clr = 0, fix_cr4_set = 0, fix_cr4_clr = 0,
     ctrl_pin_set = 0, ctrl_pin_clr = 0, ctrl_cpu0_set = 0, ctrl_cpu0_clr = 0, ctrl_cpu1_set = 0,
     ctrl_cpu1_clr = 0, ctrl_exi_set = 0, ctrl_exi_clr = 0, ctrl_ent_set = 0, ctrl_ent_clr = 0,
     ept_vpid_val = 0, ept_ord = 0, vpid_ctr = 0\<rparr>"

definition ex_msrs :: "nat \<Rightarrow> u64" where
  "ex_msrs n = (if n = 0x3a then 5 else if n = 0x480 then 0 else if n = 0x48c then 0x100100000
     else 0xffffffff00000000)"

theorem vmx_init_caps_witness:
  "\<exists>w' cr0' cr4'. Vmcs_init True ex_msrs False False 0x80000001 0x20 ex_vmx_static = Some (w', cr0', cr4')
    \<and> ctrl_cpu0_set w' AND Vmcs_CPU_MSR_BITMAP \<noteq> 0
    \<and> vmx_has_urg w' \<and> fix_cr0_set w' AND 0x80000001 = 0"
proof -
  define r where "r = vmx_adjust_caps ex_msrs False False (vmx_read_caps ex_msrs ex_vmx_static)"
  have i: "\<exists>a b. Vmcs_init True ex_msrs False False 0x80000001 0x20 ex_vmx_static = Some (r, a, b)"
    unfolding Vmcs_init_def r_def Let_def by (simp add: ex_msrs_def)
  have c: "ctrl_cpu0_clr (vmx_read_caps ex_msrs ex_vmx_static) = 0xffffffff"
    "ctrl_cpu1_clr (vmx_read_caps ex_msrs ex_vmx_static) = 0xffffffff"
    by (simp_all add: vmx_read_caps_def Let_def ex_msrs_def has_secondary_def hi32_def)
  have "has_msr_bitmap r" "vmx_has_urg r" unfolding r_def has_msr_bitmap_def vmx_has_urg_def
    by (simp_all add: adjust_caps_fields c has_ept_def ex_msrs_def Let_def)
  then show ?thesis using vmx_init_caps i by metis
qed

end
