(* ===== verification/Svm.thy ===== *)
theory Svm
  imports Vmx
begin

text \<open>
  The AMD side of the virtualization layer (\<open>include/svm.hpp\<close>, \<open>src/svm.cpp\<close>): the
  virtual-machine control block with its control area and state-save area, its construction,
  the probing of the feature and the MSR permission map. Unlike a VMCS the block is ordinary
  memory, so it is a record.
\<close>

subsection \<open>The control block\<close>

record utcb_segment =
  seg_sel :: u16
  seg_ar :: u16
  seg_limit :: u32
  seg_base :: u64

record vmcb_control =
  intercept_cr :: u32
  intercept_dr :: u32
  intercept_exc :: u32
  intercept_cpu0 :: u32
  intercept_cpu1 :: u32
  base_io :: u64
  base_msr :: u64
  vmcb_tsc_offset :: u64
  asid :: u32
  tlb_control :: u32
  int_control :: u64
  int_shadow :: u64
  exitcode :: u64
  exitinfo1 :: u64
  exitinfo2 :: u64
  exitintinfo :: u64
  npt_control :: u64
  inj_control :: u64
  npt_cr3 :: u64

record vmcb_segments =
  v_es :: utcb_segment
  v_cs :: utcb_segment
  v_ss :: utcb_segment
  v_ds :: utcb_segment
  v_fs :: utcb_segment
  v_gs :: utcb_segment
  v_gdtr :: utcb_segment
  v_ldtr :: utcb_segment
  v_idtr :: utcb_segment
  v_tr :: utcb_segment

record vmcb_save =
  v_efer :: u64
  v_cr4 :: u64
  v_cr3 :: u64
  v_cr0 :: u64
  v_dr7 :: u64
  v_rflags :: u64
  v_rip :: u64
  v_rsp :: u64
  v_rax :: u64
  v_star :: u64
  v_lstar :: u64
  v_cstar :: u64
  v_sfmask :: u64
  v_kernel_gs_base :: u64
  v_sysenter_cs :: u64
  v_sysenter_esp :: u64
  v_sysenter_eip :: u64
  v_cr2 :: u64
  v_g_pat :: u64

record vmcb =
  vctl :: vmcb_control
  vseg :: vmcb_segments
  vsave :: vmcb_save

text \<open>Bits of the intercept words, and the ones that are always on.\<close>

definition Vmcb_CPU_VINTR :: u32 where "Vmcb_CPU_VINTR = 0x10"
definition Vmcb_CPU_INVLPG :: u32 where "Vmcb_CPU_INVLPG = 0x2000000"

definition force_ctrl0 :: mword where
  "force_ctrl0 = 0x1 OR 0x2 OR 0x8 OR 0x400000 OR 0x1000000 OR 0x8000000 OR 0x10000000 OR 0x80000000"

definition force_ctrl1 :: mword where
  "force_ctrl1 = 0x4 OR 0x8 OR 0x20 OR 0x40"

definition has_npt :: "u32 \<Rightarrow> bool" where
  "has_npt svm_feature = (svm_feature AND 1 \<noteq> 0)"

definition svm_adjust_rip :: "mword \<Rightarrow> vmcb \<Rightarrow> vmcb" where
  "svm_adjust_rip len v =
     (let v = v\<lparr>vsave := (vsave v)\<lparr>v_rip := v_rip (vsave v) + len\<rparr>\<rparr>
      in if int_shadow (vctl v) \<noteq> 0 then v\<lparr>vctl := (vctl v)\<lparr>int_shadow := 0\<rparr>\<rparr> else v)"

subsection \<open>The MSR permission map\<close>

text \<open>
  The map has two bits per MSR, one for reads and one for writes, in three ranges of 2048
  bytes; here the ranges lie one after the other in one list, as in the structure. The
  conditional operator binds weaker than the addition before it, so the whole sum is the
  condition and the index is 0 or 1.
\<close>

definition svm_msr_index :: "u32 \<Rightarrow> nat" where
  "svm_msr_index valid_range =
     (if 2 * (valid_range div 8) + (if valid_range mod 8 > 3 then 1 else 0) \<noteq> 0 then 1 else 0)"

definition svm_disable_msr_exit :: "u32 \<Rightarrow> msr_bitmap \<Rightarrow> msr_bitmap result" where
  "svm_disable_msr_exit msr b =
     (let valid_range = msr AND 0x1ffff;
          bit' = unat (2 * (valid_range mod 4));
          index = svm_msr_index valid_range;
          m = (ucast (NOT (push_bit bit' 3 :: u32)) :: u8)
      in if msr \<le> 0x1fff then bm_clear index m b
         else if 0xc0000000 \<le> msr \<and> msr \<le> 0xc0001fff then bm_clear (2048 + index) m b
         else if 0xc0010000 \<le> msr \<and> msr \<le> 0xc0011fff then bm_clear (4096 + index) m b
         else Inr b)"

text \<open>The processor's reading of the map: bit \<open>2 * (r mod 4)\<close> of byte \<open>r / 4\<close> of the range is the
  read intercept of its register \<open>r\<close>, the next bit the write intercept.\<close>

definition svm_range_bit :: "nat \<Rightarrow> bool \<Rightarrow> u32 \<Rightarrow> msr_bitmap \<Rightarrow> bool" where
  "svm_range_bit off wr r b = bit (b ! (off + unat r div 4)) (2 * (unat r mod 4) + (if wr then 1 else 0))"

definition svm_msr_exits :: "bool \<Rightarrow> u32 \<Rightarrow> msr_bitmap \<Rightarrow> bool" where
  "svm_msr_exits wr r b =
     (if r \<le> 0x1fff then svm_range_bit 0 wr r b
      else if 0xc0000000 \<le> r \<and> r \<le> 0xc0001fff then svm_range_bit 2048 wr (r - 0xc0000000) b
      else if 0xc0010000 \<le> r \<and> r \<le> 0xc0011fff then svm_range_bit 4096 wr (r - 0xc0010000) b
      else True)"

subsection \<open>Construction and probing\<close>

definition vmcb_zero :: vmcb where
  "vmcb_zero =
     \<lparr>vctl = \<lparr>intercept_cr = 0, intercept_dr = 0, intercept_exc = 0, intercept_cpu0 = 0,
        intercept_cpu1 = 0, base_io = 0, base_msr = 0, vmcb_tsc_offset = 0, asid = 0,
        tlb_control = 0, int_control = 0, int_shadow = 0, exitcode = 0, exitinfo1 = 0,
        exitinfo2 = 0, exitintinfo = 0, npt_control = 0, inj_control = 0, npt_cr3 = 0\<rparr>,
      vseg = (let z = \<lparr>seg_sel = 0, seg_ar = 0, seg_limit = 0, seg_base = 0\<rparr> in
        \<lparr>v_es = z, v_cs = z, v_ss = z, v_ds = z, v_fs = z, v_gs = z, v_gdtr = z, v_ldtr = z,
         v_idtr = z, v_tr = z\<rparr>),
      vsave = \<lparr>v_efer = 0, v_cr4 = 0, v_cr3 = 0, v_cr0 = 0, v_dr7 = 0, v_rflags = 0, v_rip = 0,
        v_rsp = 0, v_rax = 0, v_star = 0, v_lstar = 0, v_cstar = 0, v_sfmask = 0,
        v_kernel_gs_base = 0, v_sysenter_cs = 0, v_sysenter_esp = 0, v_sysenter_eip = 0,
        v_cr2 = 0, v_g_pat = 0\<rparr>\<rparr>"

definition Vmcb_make :: "mword \<Rightarrow> mword \<Rightarrow> u32 \<Rightarrow> mword \<Rightarrow> (vmcb \<times> msr_bitmap) result" where
  "Vmcb_make bmp nptp ident bm_phys =
     (let v = vmcb_zero;
          v = v\<lparr>vctl := (vctl v)\<lparr>base_io := bmp, asid := ident, int_control := push_bit 24 1,
                 npt_cr3 := nptp, base_msr := bm_phys\<rparr>,
                vsave := (vsave v)\<lparr>v_efer := 0x1000, v_g_pat := 0x7040600070406\<rparr>\<rparr>
      in bind_result (svm_disable_msr_exit IA32_FS_BASE (replicate 8192 0xff)) (\<lambda>b.
         bind_result (svm_disable_msr_exit IA32_GS_BASE b) (\<lambda>b.
         bind_result (svm_disable_msr_exit IA32_KERNEL_GS_BASE b) (\<lambda>b. Inr (v, b)))))"

text \<open>\<open>Vmcb::init\<close>: \<^term>\<open>None\<close> is the early return without SVM; otherwise the feature word and the
  new value of the EFER register of the host. The host save area is a fresh page, whose address
  goes into a model-specific register.\<close>

definition Vmcb_init :: "bool \<Rightarrow> u64 \<Rightarrow> bool \<Rightarrow> u32 \<Rightarrow> u64 \<Rightarrow> (u32 \<times> u64) option" where
  "Vmcb_init feat vm_cr vtlb svm_feature efer =
     (if \<not> feat \<or> vm_cr AND 0x10 \<noteq> 0 then None
      else Some (if vtlb then svm_feature AND NOT 1 else svm_feature, efer OR 0x1000))"

subsection \<open>What the permission map opens\<close>

lemma svm_index_small: "svm_msr_index v \<le> 1"
  by (simp add: svm_msr_index_def)

text \<open>
  For the three registers that the constructor means to pass through, the bits that are cleared
  belong to other registers.
\<close>

lemma svm_index_segment_bases:
  "svm_msr_index (IA32_FS_BASE AND 0x1ffff) = 1"
  "svm_msr_index (IA32_GS_BASE AND 0x1ffff) = 1"
  "svm_msr_index (IA32_KERNEL_GS_BASE AND 0x1ffff) = 1"
  by (simp_all add: svm_msr_index_def IA32_FS_BASE_def IA32_GS_BASE_def IA32_KERNEL_GS_BASE_def)

lemma svm_disable_bases:
  assumes "length b = 8192"
  shows "svm_disable_msr_exit IA32_FS_BASE b = Inr (b[2049 := b ! 2049 AND 0xfc])"
    "svm_disable_msr_exit IA32_GS_BASE b = Inr (b[2049 := b ! 2049 AND 0xf3])"
    "svm_disable_msr_exit IA32_KERNEL_GS_BASE b = Inr (b[2049 := b ! 2049 AND 0xcf])"
proof -
  have m: "IA32_FS_BASE AND 0x1ffff = 0x100" "IA32_GS_BASE AND 0x1ffff = 0x101"
    "IA32_KERNEL_GS_BASE AND 0x1ffff = 0x102"
    by (simp_all add: IA32_FS_BASE_def IA32_GS_BASE_def IA32_KERNEL_GS_BASE_def)
  have r: "\<not> IA32_FS_BASE \<le> 0x1fff" "0xc0000000 \<le> IA32_FS_BASE \<and> IA32_FS_BASE \<le> 0xc0001fff"
    "\<not> IA32_GS_BASE \<le> 0x1fff" "0xc0000000 \<le> IA32_GS_BASE \<and> IA32_GS_BASE \<le> 0xc0001fff"
    "\<not> IA32_KERNEL_GS_BASE \<le> 0x1fff"
    "0xc0000000 \<le> IA32_KERNEL_GS_BASE \<and> IA32_KERNEL_GS_BASE \<le> 0xc0001fff"
    by (simp_all add: IA32_FS_BASE_def IA32_GS_BASE_def IA32_KERNEL_GS_BASE_def)
  note i = svm_index_segment_bases[unfolded m]
  have k: "(0xfffffffc :: u8) = 0xfc" "(0xfffffff3 :: u8) = 0xf3" "(0xffffffcf :: u8) = 0xcf"
    by simp_all
  show "svm_disable_msr_exit IA32_FS_BASE b = Inr (b[2049 := b ! 2049 AND 0xfc])"
    using assms unfolding svm_disable_msr_exit_def Let_def m i if_not_P[OF r(1)] if_P[OF r(2)]
    by (simp add: bm_clear_def k)
  show "svm_disable_msr_exit IA32_GS_BASE b = Inr (b[2049 := b ! 2049 AND 0xf3])"
    using assms unfolding svm_disable_msr_exit_def Let_def m i if_not_P[OF r(3)] if_P[OF r(4)]
    by (simp add: bm_clear_def k)
  show "svm_disable_msr_exit IA32_KERNEL_GS_BASE b = Inr (b[2049 := b ! 2049 AND 0xcf])"
    using assms unfolding svm_disable_msr_exit_def Let_def m i if_not_P[OF r(5)] if_P[OF r(6)]
    by (simp add: bm_clear_def k)
qed


end
