(* ===== verification/Guest_regs.thy ===== *)
theory Guest_regs
  imports Svm
begin

text \<open>
  The register file of a virtual CPU (\<open>include/regs.hpp\<close>, \<open>src/regs.cpp\<close>): the general-purpose
  registers, the shadows of the control registers, and the operations that keep the hardware
  control structure, the shadows and the intercepts in agreement when the guest or its monitor
  writes a control register, or when nested paging or the FPU is switched.

  The template parameter of the code, \<open>Vmcs\<close> or \<open>Vmcb\<close>, is the first argument of the functions.
  The exception frame and the virtual-CPU fields share storage in \<open>Exc_regs\<close>; a thread uses one
  view only, so they are separate fields here. Flushes of the shadow TLB and of tagged TLB
  entries are recorded in order.
\<close>

subsection \<open>State\<close>

datatype vt = VMCS | VMCB

datatype vpid_flush = Vpid_address mword | Vpid_context_global | Vpid_context_noglobal

datatype tlb_event = Vtlb_flush_all bool | Vtlb_flush_addr mword | Vpid_flush vpid_flush mword

record msr_area =
  m_star :: u64
  m_lstar :: u64
  m_cstar :: u64
  m_sfmask :: u64
  m_kernel_gs_base :: u64

record cpu_regs =
  gpr :: "nat \<Rightarrow> mword"
  r_err :: mword
  r_ip :: mword
  r_cs :: mword
  r_fl :: mword
  r_sp :: mword
  cr0_shadow :: mword
  cr3_shadow :: mword
  cr4_shadow :: mword
  dst_portal :: mword
  nst_fault :: mword
  nst_error :: mword
  nst_on :: bool
  fpu_on :: bool
  hzd :: mword
  tsc_offset :: u64
  tsc_aux :: u64
  r_mtd :: mword
  gst_xcr :: u64
  gst_xss :: u64
  vmcs_of :: vmcs
  vmcb_of :: vmcb
  msr_mem :: "mword \<Rightarrow> msr_area"
  vapic_mem :: "mword \<Rightarrow> u32"
  tlb_log :: "tlb_event list"

text \<open>What the processor and the boot code fix: the probed capabilities, the physical address of
  the shadow TLB's root, and the host's extended state.\<close>

record vm_env =
  vmx_caps :: vmx_static
  svm_feat :: u32
  vtlb_phys :: mword
  hst_xcr :: u64
  hst_xss :: u64
  host_msrs :: msr_area
  tsc_now :: u64

text \<open>The union of the register names with the array \<open>gpr\<close>.\<close>

abbreviation (input) g_r15 :: nat where "g_r15 \<equiv> 0"
abbreviation (input) g_r14 :: nat where "g_r14 \<equiv> 1"
abbreviation (input) g_r13 :: nat where "g_r13 \<equiv> 2"
abbreviation (input) g_r12 :: nat where "g_r12 \<equiv> 3"
abbreviation (input) g_r11 :: nat where "g_r11 \<equiv> 4"
abbreviation (input) g_r10 :: nat where "g_r10 \<equiv> 5"
abbreviation (input) g_r9 :: nat where "g_r9 \<equiv> 6"
abbreviation (input) g_r8 :: nat where "g_r8 \<equiv> 7"
abbreviation (input) g_di :: nat where "g_di \<equiv> 8"
abbreviation (input) g_si :: nat where "g_si \<equiv> 9"
abbreviation (input) g_bp :: nat where "g_bp \<equiv> 10"
abbreviation (input) g_cr2 :: nat where "g_cr2 \<equiv> 11"
abbreviation (input) g_bx :: nat where "g_bx \<equiv> 12"
abbreviation (input) g_dx :: nat where "g_dx \<equiv> 13"
abbreviation (input) g_cx :: nat where "g_cx \<equiv> 14"
abbreviation (input) g_ax :: nat where "g_ax \<equiv> 15"

definition set_vmcs :: "nat \<Rightarrow> mword \<Rightarrow> cpu_regs \<Rightarrow> cpu_regs" where
  "set_vmcs f v r = r\<lparr>vmcs_of := vmwrite f v (vmcs_of r)\<rparr>"

definition upd_vctl :: "(vmcb_control \<Rightarrow> vmcb_control) \<Rightarrow> cpu_regs \<Rightarrow> cpu_regs" where
  "upd_vctl f r = r\<lparr>vmcb_of := (vmcb_of r)\<lparr>vctl := f (vctl (vmcb_of r))\<rparr>\<rparr>"

definition upd_vsave :: "(vmcb_save \<Rightarrow> vmcb_save) \<Rightarrow> cpu_regs \<Rightarrow> cpu_regs" where
  "upd_vsave f r = r\<lparr>vmcb_of := (vmcb_of r)\<lparr>vsave := f (vsave (vmcb_of r))\<rparr>\<rparr>"

definition user_regs :: "cpu_regs \<Rightarrow> bool" where
  "user_regs r = (r_cs r AND 3 \<noteq> 0)"

definition regs_set_hazard :: "mword \<Rightarrow> cpu_regs \<Rightarrow> cpu_regs" where
  "regs_set_hazard h r = r\<lparr>hzd := hzd r OR h\<rparr>"

definition regs_clr_hazard :: "mword \<Rightarrow> cpu_regs \<Rightarrow> cpu_regs" where
  "regs_clr_hazard h r = r\<lparr>hzd := hzd r AND NOT h\<rparr>"

definition regs_add_tsc_offset :: "u64 \<Rightarrow> cpu_regs \<Rightarrow> cpu_regs" where
  "regs_add_tsc_offset tsc r = regs_set_hazard 0x20000000 (r\<lparr>tsc_offset := tsc_offset r + tsc\<rparr>)"

subsection \<open>Access to the guest's registers\<close>

fun get_g_cs_dl :: "vt \<Rightarrow> cpu_regs \<Rightarrow> mword" where
  "get_g_cs_dl VMCB r = drop_bit 9 (ucast (seg_ar (v_cs (vseg (vmcb_of r))))) AND 0x3"
| "get_g_cs_dl VMCS r = drop_bit 13 (vmread GUEST_AR_CS (vmcs_of r)) AND 0x3"

fun get_g_flags :: "vt \<Rightarrow> cpu_regs \<Rightarrow> mword" where
  "get_g_flags VMCB r = v_rflags (vsave (vmcb_of r))"
| "get_g_flags VMCS r = vmread GUEST_RFLAGS (vmcs_of r)"

fun get_g_efer :: "vt \<Rightarrow> cpu_regs \<Rightarrow> mword" where
  "get_g_efer VMCB r = v_efer (vsave (vmcb_of r))"
| "get_g_efer VMCS r = vmread GUEST_EFER (vmcs_of r)"

fun get_g_cr0 :: "vt \<Rightarrow> cpu_regs \<Rightarrow> mword" where
  "get_g_cr0 VMCB r = v_cr0 (vsave (vmcb_of r))"
| "get_g_cr0 VMCS r = vmread GUEST_CR0 (vmcs_of r)"

fun get_g_cr2 :: "vt \<Rightarrow> cpu_regs \<Rightarrow> mword" where
  "get_g_cr2 VMCB r = v_cr2 (vsave (vmcb_of r))"
| "get_g_cr2 VMCS r = gpr r g_cr2"

fun get_g_cr3 :: "vt \<Rightarrow> cpu_regs \<Rightarrow> mword" where
  "get_g_cr3 VMCB r = v_cr3 (vsave (vmcb_of r))"
| "get_g_cr3 VMCS r = vmread GUEST_CR3 (vmcs_of r)"

fun get_g_cr4 :: "vt \<Rightarrow> cpu_regs \<Rightarrow> mword" where
  "get_g_cr4 VMCB r = v_cr4 (vsave (vmcb_of r))"
| "get_g_cr4 VMCS r = vmread GUEST_CR4 (vmcs_of r)"

fun set_g_cr0 :: "vt \<Rightarrow> mword \<Rightarrow> cpu_regs \<Rightarrow> cpu_regs" where
  "set_g_cr0 VMCB v r = upd_vsave (v_cr0_update (\<lambda>_. v)) r"
| "set_g_cr0 VMCS v r = set_vmcs GUEST_CR0 v r"

fun set_g_cr2 :: "vt \<Rightarrow> mword \<Rightarrow> cpu_regs \<Rightarrow> cpu_regs" where
  "set_g_cr2 VMCB v r = upd_vsave (v_cr2_update (\<lambda>_. v)) r"
| "set_g_cr2 VMCS v r = r\<lparr>gpr := (gpr r)(g_cr2 := v)\<rparr>"

fun set_g_cr3 :: "vt \<Rightarrow> mword \<Rightarrow> cpu_regs \<Rightarrow> cpu_regs" where
  "set_g_cr3 VMCB v r = upd_vsave (v_cr3_update (\<lambda>_. v)) r"
| "set_g_cr3 VMCS v r = set_vmcs GUEST_CR3 v r"

fun set_g_cr4 :: "vt \<Rightarrow> mword \<Rightarrow> cpu_regs \<Rightarrow> cpu_regs" where
  "set_g_cr4 VMCB v r = upd_vsave (v_cr4_update (\<lambda>_. v)) r"
| "set_g_cr4 VMCS v r = set_vmcs GUEST_CR4 v r"

fun set_e_bmp :: "vt \<Rightarrow> u32 \<Rightarrow> cpu_regs \<Rightarrow> cpu_regs" where
  "set_e_bmp VMCB v r = upd_vctl (intercept_exc_update (\<lambda>_. v)) r"
| "set_e_bmp VMCS v r = set_vmcs EXC_BITMAP (ucast v) r"

fun set_s_cr0 :: "vt \<Rightarrow> mword \<Rightarrow> cpu_regs \<Rightarrow> cpu_regs" where
  "set_s_cr0 VMCB v r = r\<lparr>cr0_shadow := v\<rparr>"
| "set_s_cr0 VMCS v r = set_vmcs CR0_READ_SHADOW v (r\<lparr>cr0_shadow := v\<rparr>)"

fun set_s_cr4 :: "vt \<Rightarrow> mword \<Rightarrow> cpu_regs \<Rightarrow> cpu_regs" where
  "set_s_cr4 VMCB v r = r\<lparr>cr4_shadow := v\<rparr>"
| "set_s_cr4 VMCS v r = set_vmcs CR4_READ_SHADOW v (r\<lparr>cr4_shadow := v\<rparr>)"

fun tlb_flush :: "vm_env \<Rightarrow> vt \<Rightarrow> bool \<Rightarrow> cpu_regs \<Rightarrow> cpu_regs" where
  "tlb_flush w VMCB full r =
     (let r = r\<lparr>tlb_log := tlb_log r @ [Vtlb_flush_all full]\<rparr>
      in if asid (vctl (vmcb_of r)) \<noteq> 0 then upd_vctl (tlb_control_update (\<lambda>_. 1)) r else r)"
| "tlb_flush w VMCS full r =
     (let r = r\<lparr>tlb_log := tlb_log r @ [Vtlb_flush_all full]\<rparr>;
          v = vpid (vmx_caps w) (vmcs_of r)
      in if v \<noteq> 0
         then r\<lparr>tlb_log := tlb_log r
                 @ [Vpid_flush (if full then Vpid_context_global else Vpid_context_noglobal) v]\<rparr>
         else r)"

definition tlb_flush_addr :: "vm_env \<Rightarrow> mword \<Rightarrow> cpu_regs \<Rightarrow> cpu_regs" where
  "tlb_flush_addr w addr r =
     (let r = r\<lparr>tlb_log := tlb_log r @ [Vtlb_flush_addr addr]\<rparr>;
          v = vpid (vmx_caps w) (vmcs_of r)
      in if v \<noteq> 0 then r\<lparr>tlb_log := tlb_log r @ [Vpid_flush (Vpid_address addr) v]\<rparr> else r)"

subsection \<open>Control registers: hardware value, mask and shadow\<close>

definition CR0_PE :: mword where "CR0_PE = 0x1"
definition CR0_TS :: mword where "CR0_TS = 0x8"
definition CR0_WP :: mword where "CR0_WP = 0x10000"
definition CR0_PG :: mword where "CR0_PG = 0x80000000"
definition CR4_PSE :: mword where "CR4_PSE = 0x10"
definition CR4_PAE :: mword where "CR4_PAE = 0x20"
definition CR4_PGE :: mword where "CR4_PGE = 0x80"
definition EFER_LME :: mword where "EFER_LME = 0x100"
definition EFER_LMA :: mword where "EFER_LMA = 0x400"
definition EFL_VM :: mword where "EFL_VM = 0x20000"

fun vt_fix_cr0_set :: "vm_env \<Rightarrow> vt \<Rightarrow> mword" where
  "vt_fix_cr0_set w VMCB = 0"
| "vt_fix_cr0_set w VMCS = fix_cr0_set (vmx_caps w)"

fun vt_fix_cr0_clr :: "vm_env \<Rightarrow> vt \<Rightarrow> mword" where
  "vt_fix_cr0_clr w VMCB = 0"
| "vt_fix_cr0_clr w VMCS = fix_cr0_clr (vmx_caps w)"

fun vt_fix_cr4_set :: "vm_env \<Rightarrow> vt \<Rightarrow> mword" where
  "vt_fix_cr4_set w VMCB = 0"
| "vt_fix_cr4_set w VMCS = fix_cr4_set (vmx_caps w)"

fun vt_fix_cr4_clr :: "vm_env \<Rightarrow> vt \<Rightarrow> mword" where
  "vt_fix_cr4_clr w VMCB = 0"
| "vt_fix_cr4_clr w VMCS = fix_cr4_clr (vmx_caps w)"

fun vt_has_urg :: "vm_env \<Rightarrow> vt \<Rightarrow> bool" where
  "vt_has_urg w VMCB = True"
| "vt_has_urg w VMCS = vmx_has_urg (vmx_caps w)"

fun vt_has_nst :: "vm_env \<Rightarrow> vt \<Rightarrow> bool" where
  "vt_has_nst w VMCB = has_npt (svm_feat w)"
| "vt_has_nst w VMCS = has_ept (vmx_caps w)"

definition cr0_set :: "vm_env \<Rightarrow> vt \<Rightarrow> cpu_regs \<Rightarrow> mword" where
  "cr0_set w t r =
     vt_fix_cr0_set w t OR ((if nst_on r then 0 else CR0_PG OR CR0_WP OR CR0_PE)
       OR (if fpu_on r then 0 else CR0_TS))"

definition cr0_msk :: "vm_env \<Rightarrow> vt \<Rightarrow> cpu_regs \<Rightarrow> mword" where
  "cr0_msk w t r = vt_fix_cr0_clr w t OR cr0_set w t r"

definition cr4_set :: "vm_env \<Rightarrow> vt \<Rightarrow> cpu_regs \<Rightarrow> mword" where
  "cr4_set w t r = vt_fix_cr4_set w t OR (if nst_on r then 0 else CR4_PSE OR CR4_PAE)"

definition cr4_msk :: "vm_env \<Rightarrow> vt \<Rightarrow> cpu_regs \<Rightarrow> mword" where
  "cr4_msk w t r = vt_fix_cr4_clr w t OR (if nst_on r then 0 else CR4_PGE) OR cr4_set w t r"

definition get_cr0 :: "vm_env \<Rightarrow> vt \<Rightarrow> cpu_regs \<Rightarrow> mword" where
  "get_cr0 w t r = (let msk = cr0_msk w t r in (get_g_cr0 t r AND NOT msk) OR (cr0_shadow r AND msk))"

definition get_cr3 :: "vt \<Rightarrow> cpu_regs \<Rightarrow> mword" where
  "get_cr3 t r = (if nst_on r then get_g_cr3 t r else cr3_shadow r)"

definition get_cr4 :: "vm_env \<Rightarrow> vt \<Rightarrow> cpu_regs \<Rightarrow> mword" where
  "get_cr4 w t r = (let msk = cr4_msk w t r in (get_g_cr4 t r AND NOT msk) OR (cr4_shadow r AND msk))"

text \<open>In \<open>~Cpu::CR0_PE\<close> the enumeration reaches bit 31, so the operand is an unsigned 32-bit
  value and the complement has a zero upper half.\<close>

definition set_cr0 :: "vm_env \<Rightarrow> vt \<Rightarrow> mword \<Rightarrow> cpu_regs \<Rightarrow> cpu_regs" where
  "set_cr0 w t v r =
     set_s_cr0 t v
       (set_g_cr0 t ((v AND (NOT (cr0_msk w t r) OR CR0_PE))
                     OR (cr0_set w t r AND ucast (NOT (0x1 :: u32)))) r)"

definition set_cr3 :: "vt \<Rightarrow> mword \<Rightarrow> cpu_regs \<Rightarrow> cpu_regs" where
  "set_cr3 t v r = (if nst_on r then set_g_cr3 t v r else r\<lparr>cr3_shadow := v\<rparr>)"

definition set_cr4 :: "vm_env \<Rightarrow> vt \<Rightarrow> mword \<Rightarrow> cpu_regs \<Rightarrow> cpu_regs" where
  "set_cr4 w t v r = set_s_cr4 t v (set_g_cr4 t ((v AND NOT (cr4_msk w t r)) OR cr4_set w t r) r)"

definition set_exc :: "vt \<Rightarrow> cpu_regs \<Rightarrow> cpu_regs" where
  "set_exc t r =
     set_e_bmp t (0x20000 OR (if nst_on r then 0 else 0x4000) OR (if fpu_on r then 0 else 0x80)) r"

datatype cpu_mode = MODE_REAL | MODE_VM86 | MODE_PROT_16 | MODE_PROT_32 | MODE_PROT_64

definition mode :: "vm_env \<Rightarrow> vt \<Rightarrow> cpu_regs \<Rightarrow> cpu_mode" where
  "mode w t r =
     (if get_cr0 w t r AND CR0_PE = 0 then MODE_REAL
      else if get_g_flags t r AND EFL_VM \<noteq> 0 then MODE_VM86
      else let dl = get_g_cs_dl t r
           in if get_g_efer t r AND EFER_LMA \<noteq> 0 \<and> dl AND 1 \<noteq> 0 then MODE_PROT_64
              else if dl AND 2 \<noteq> 0 then MODE_PROT_32 else MODE_PROT_16)"

definition linear_address :: "vm_env \<Rightarrow> vt \<Rightarrow> mword \<Rightarrow> cpu_regs \<Rightarrow> mword" where
  "linear_address w t val r = (if mode w t r = MODE_PROT_64 then val else val AND 0xffffffff)"

subsection \<open>Intercepts and execution controls\<close>

definition svm_set_cpu_ctrl0 :: "vm_env \<Rightarrow> mword \<Rightarrow> cpu_regs \<Rightarrow> cpu_regs" where
  "svm_set_cpu_ctrl0 w val r =
     (let msk = (if cr0_msk w VMCB r \<noteq> 0 then 1 else 0) OR (if nst_on r then 0 else 8)
                OR (if cr4_msk w VMCB r \<noteq> 0 then 16 else (0 :: u32))
      in upd_vctl (\<lambda>c. c\<lparr>npt_control := (if nst_on r then 1 else 0),
                        intercept_cr := push_bit 16 msk OR msk,
                        intercept_cpu0 :=
                          (if nst_on r
                           then ucast ((val AND ucast (NOT Vmcb_CPU_INVLPG)) OR force_ctrl0)
                           else ucast ((val OR ucast Vmcb_CPU_INVLPG) OR force_ctrl0))\<rparr>) r)"

definition svm_set_cpu_ctrl1 :: "mword \<Rightarrow> cpu_regs \<Rightarrow> cpu_regs" where
  "svm_set_cpu_ctrl1 val r = upd_vctl (intercept_cpu1_update (\<lambda>_. ucast (val OR force_ctrl1))) r"

definition vmx_set_cpu_ctrl0 :: "vm_env \<Rightarrow> mword \<Rightarrow> cpu_regs \<Rightarrow> cpu_regs" where
  "vmx_set_cpu_ctrl0 w val r =
     (let msk = Vmcs_CPU_INVLPG OR Vmcs_CPU_CR3_LOAD OR Vmcs_CPU_CR3_STORE;
          val = (if nst_on r then val AND ucast (NOT msk) else val OR ucast msk);
          val = val OR ucast (ctrl_cpu0_set (vmx_caps w));
          val = val AND ucast (ctrl_cpu0_clr (vmx_caps w))
      in set_vmcs CPU_EXEC_CTRL0 val r)"

definition vmx_set_cpu_ctrl1 :: "vm_env \<Rightarrow> mword \<Rightarrow> cpu_regs \<Rightarrow> cpu_regs" where
  "vmx_set_cpu_ctrl1 w val r =
     (let msk = Vmcs_CPU_EPT;
          val = (if nst_on r then val OR ucast msk else val AND ucast (NOT msk));
          val = val OR ucast (ctrl_cpu1_set (vmx_caps w));
          val = val AND ucast (ctrl_cpu1_clr (vmx_caps w))
      in set_vmcs CPU_EXEC_CTRL1 val r)"

fun nst_ctrl :: "vm_env \<Rightarrow> vt \<Rightarrow> bool \<Rightarrow> cpu_regs \<Rightarrow> cpu_regs" where
  "nst_ctrl w VMCB on r =
     (let cr0 = get_cr0 w VMCB r; cr3 = get_cr3 VMCB r; cr4 = get_cr4 w VMCB r;
          r = r\<lparr>nst_on := has_npt (svm_feat w) \<and> on\<rparr>;
          r = set_cr0 w VMCB cr0 r;
          r = set_cr3 VMCB cr3 r;
          r = set_cr4 w VMCB cr4 r;
          r = svm_set_cpu_ctrl0 w (ucast (intercept_cpu0 (vctl (vmcb_of r)))) r;
          r = svm_set_cpu_ctrl1 (ucast (intercept_cpu1 (vctl (vmcb_of r)))) r;
          r = set_exc VMCB r
      in if \<not> nst_on r then set_g_cr3 VMCB (vtlb_phys w) r else r)"
| "nst_ctrl w VMCS on r =
     (let cr0 = get_cr0 w VMCS r; cr3 = get_cr3 VMCS r; cr4 = get_cr4 w VMCS r;
          r = r\<lparr>nst_on := has_ept (vmx_caps w) \<and> on\<rparr>;
          r = set_cr0 w VMCS cr0 r;
          r = set_cr3 VMCS cr3 r;
          r = set_cr4 w VMCS cr4 r;
          r = vmx_set_cpu_ctrl0 w (vmread CPU_EXEC_CTRL0 (vmcs_of r)) r;
          r = vmx_set_cpu_ctrl1 w (vmread CPU_EXEC_CTRL1 (vmcs_of r)) r;
          r = set_exc VMCS r;
          r = set_vmcs CR0_MASK (cr0_msk w VMCS r) r;
          r = set_vmcs CR4_MASK (cr4_msk w VMCS r) r
      in if \<not> nst_on r then set_g_cr3 VMCS (vtlb_phys w) r else r)"

fun fpu_ctrl :: "vm_env \<Rightarrow> vt \<Rightarrow> bool \<Rightarrow> cpu_regs \<Rightarrow> cpu_regs" where
  "fpu_ctrl w VMCS on r =
     (let cr0 = get_cr0 w VMCS r;
          r = r\<lparr>fpu_on := on\<rparr>;
          r = set_cr0 w VMCS cr0 r;
          r = set_exc VMCS r
      in set_vmcs CR0_MASK (cr0_msk w VMCS r) r)"
| "fpu_ctrl w VMCB on r =
     (let cr0 = get_cr0 w VMCB r;
          r = r\<lparr>fpu_on := on\<rparr>;
          r = set_cr0 w VMCB cr0 r;
          r = set_exc VMCB r
      in svm_set_cpu_ctrl0 w (ucast (intercept_cpu0 (vctl (vmcb_of r)))) r)"

definition svm_update_shadows :: "vm_env \<Rightarrow> cpu_regs \<Rightarrow> cpu_regs" where
  "svm_update_shadows w r =
     (let r = r\<lparr>cr0_shadow := get_cr0 w VMCB r\<rparr>;
          r = r\<lparr>cr3_shadow := get_cr3 VMCB r\<rparr>
      in r\<lparr>cr4_shadow := get_cr4 w VMCB r\<rparr>)"

subsection \<open>Registers by number\<close>

definition svm_read_gpr :: "nat \<Rightarrow> cpu_regs \<Rightarrow> mword result" where
  "svm_read_gpr reg r =
     (if reg = 0 then Inr (v_rax (vsave (vmcb_of r)))
      else if reg = 4 then Inr (v_rsp (vsave (vmcb_of r)))
      else if reg < 16 then Inr (gpr r (16 - 1 - reg)) else Inl Out_of_bounds)"

definition svm_write_gpr :: "nat \<Rightarrow> mword \<Rightarrow> cpu_regs \<Rightarrow> cpu_regs result" where
  "svm_write_gpr reg val r =
     (if reg = 0 then Inr (upd_vsave (v_rax_update (\<lambda>_. val)) r)
      else if reg = 4 then Inr (upd_vsave (v_rsp_update (\<lambda>_. val)) r)
      else if reg < 16 then Inr (r\<lparr>gpr := (gpr r)(16 - 1 - reg := val)\<rparr>) else Inl Out_of_bounds)"

definition vmx_read_gpr :: "nat \<Rightarrow> cpu_regs \<Rightarrow> mword result" where
  "vmx_read_gpr reg r =
     (if reg = 4 then Inr (vmread GUEST_RSP (vmcs_of r))
      else if reg < 16 then Inr (gpr r (16 - 1 - reg)) else Inl Out_of_bounds)"

definition vmx_write_gpr :: "nat \<Rightarrow> mword \<Rightarrow> cpu_regs \<Rightarrow> cpu_regs result" where
  "vmx_write_gpr reg val r =
     (if reg = 4 then Inr (set_vmcs GUEST_RSP val r)
      else if reg < 16 then Inr (r\<lparr>gpr := (gpr r)(16 - 1 - reg := val)\<rparr>) else Inl Out_of_bounds)"

fun write_efer :: "vt \<Rightarrow> mword \<Rightarrow> cpu_regs \<Rightarrow> cpu_regs" where
  "write_efer VMCB val r = upd_vsave (v_efer_update (\<lambda>_. val)) r"
| "write_efer VMCS val r =
     (let r = set_vmcs GUEST_EFER val r
      in if val AND EFER_LMA \<noteq> 0
         then set_vmcs ENT_CONTROLS (vmread ENT_CONTROLS (vmcs_of r) OR ucast Vmcs_ENT_GUEST_64) r
         else set_vmcs ENT_CONTROLS (vmread ENT_CONTROLS (vmcs_of r) AND NOT (ucast Vmcs_ENT_GUEST_64)) r)"

text \<open>\<open>UNREACHED\<close> for any other number is a panic.\<close>

definition read_cr :: "vm_env \<Rightarrow> vt \<Rightarrow> nat \<Rightarrow> cpu_regs \<Rightarrow> mword result" where
  "read_cr w t cr r =
     (if cr = 0 then Inr (get_cr0 w t r)
      else if cr = 2 then Inr (get_g_cr2 t r)
      else if cr = 3 then Inr (get_cr3 t r)
      else if cr = 4 then Inr (get_cr4 w t r)
      else Inl Panic)"

definition write_cr0 :: "vm_env \<Rightarrow> vt \<Rightarrow> mword \<Rightarrow> cpu_regs \<Rightarrow> cpu_regs" where
  "write_cr0 w t val r =
     (let toggled = get_cr0 w t r XOR val;
          r = (if \<not> nst_on r \<and> toggled AND (CR0_PG OR CR0_WP OR CR0_PE) \<noteq> 0
               then tlb_flush w t True r else r);
          r = set_cr0 w t val r
      in if toggled AND CR0_PG \<noteq> 0
         then let r = (if \<not> vt_has_urg w t then nst_ctrl w t (val AND CR0_PG \<noteq> 0) r else r);
                  efer = get_g_efer t r
              in if val AND CR0_PG \<noteq> 0 \<and> efer AND EFER_LME \<noteq> 0
                 then write_efer t (efer OR EFER_LMA) r
                 else write_efer t (efer AND NOT EFER_LMA) r
         else r)"

definition write_cr4 :: "vm_env \<Rightarrow> vt \<Rightarrow> mword \<Rightarrow> cpu_regs \<Rightarrow> cpu_regs" where
  "write_cr4 w t val r =
     (let toggled = get_cr4 w t r XOR val;
          r = (if \<not> nst_on r \<and> toggled AND (CR4_PGE OR CR4_PAE OR CR4_PSE) \<noteq> 0
               then tlb_flush w t True r else r)
      in set_cr4 w t val r)"

definition write_cr :: "vm_env \<Rightarrow> vt \<Rightarrow> nat \<Rightarrow> mword \<Rightarrow> cpu_regs \<Rightarrow> cpu_regs result" where
  "write_cr w t cr val r =
     (if cr = 2 then Inr (set_g_cr2 t val r)
      else if cr = 3 then Inr (set_cr3 t val (if \<not> nst_on r then tlb_flush w t False r else r))
      else if cr = 0 then Inr (write_cr0 w t val r)
      else if cr = 4 then Inr (write_cr4 w t val r)
      else Inl Panic)"

subsection \<open>Reading back the control structure\<close>

lemma vmcs_widths:
  "vmcs_width GUEST_CR0 = 64" "vmcs_width GUEST_CR3 = 64" "vmcs_width GUEST_CR4 = 64"
  "vmcs_width CR0_MASK = 64" "vmcs_width CR4_MASK = 64" "vmcs_width CR0_READ_SHADOW = 64"
  "vmcs_width CR4_READ_SHADOW = 64" "vmcs_width EXC_BITMAP = 32" "vmcs_width CPU_EXEC_CTRL0 = 32"
  "vmcs_width CPU_EXEC_CTRL1 = 32" "vmcs_width GUEST_EFER = 64" "vmcs_width ENT_CONTROLS = 32"
  "vmcs_width GUEST_RSP = 64"
  by (simp_all add: vmcs_width_def Let_def)

lemmas vm_access = vmcs_store.rd_wr_same vmcs_store.rd_wr_other vmcs_widths
  set_vmcs_def upd_vctl_def upd_vsave_def

lemma masks_cong:
  assumes "nst_on r = nst_on r'" "fpu_on r = fpu_on r'"
  shows "cr0_set w t r = cr0_set w t r'" "cr0_msk w t r = cr0_msk w t r'"
    "cr4_set w t r = cr4_set w t r'" "cr4_msk w t r = cr4_msk w t r'"
  using assms by (simp_all add: cr0_set_def cr0_msk_def cr4_set_def cr4_msk_def)

text \<open>The part of the state that decides what the guest sees in its control registers.\<close>

definition cr_part :: "vt \<Rightarrow> cpu_regs \<Rightarrow> (mword \<times> mword \<times> mword \<times> mword) \<times> (mword \<times> mword \<times> mword) \<times> bool \<times> bool" where
  "cr_part t r = ((get_g_cr0 t r, get_g_cr2 t r, get_g_cr3 t r, get_g_cr4 t r),
     (cr0_shadow r, cr3_shadow r, cr4_shadow r), nst_on r, fpu_on r)"

definition guest_crs :: "vm_env \<Rightarrow> vt \<Rightarrow> cpu_regs \<Rightarrow> nat \<Rightarrow> mword" where
  "guest_crs w t r cr =
     (if cr = 0 then get_cr0 w t r else if cr = 2 then get_g_cr2 t r
      else if cr = 3 then get_cr3 t r else if cr = 4 then get_cr4 w t r else 0)"

lemma guest_crs_cong: "cr_part t r = cr_part t r' \<Longrightarrow> guest_crs w t r = guest_crs w t r'"
  using masks_cong[of r r' w t]
  by (auto simp: cr_part_def guest_crs_def get_cr0_def get_cr3_def get_cr4_def fun_eq_iff Let_def)

lemma cr_part_frames:
  "cr_part t (tlb_flush w t full r) = cr_part t r"
  "cr_part t (set_exc t r) = cr_part t r"
  "cr_part t (write_efer t v r) = cr_part t r"
  "cr_part VMCB (svm_set_cpu_ctrl0 w v r) = cr_part VMCB r"
  "cr_part VMCB (svm_set_cpu_ctrl1 v r) = cr_part VMCB r"
  "cr_part VMCS (vmx_set_cpu_ctrl0 w v r) = cr_part VMCS r"
  "cr_part VMCS (vmx_set_cpu_ctrl1 w v r) = cr_part VMCS r"
  "cr_part VMCS (set_vmcs CR0_MASK v r) = cr_part VMCS r"
  "cr_part VMCS (set_vmcs CR4_MASK v r) = cr_part VMCS r"
  by (cases t; simp add: cr_part_def set_exc_def svm_set_cpu_ctrl0_def svm_set_cpu_ctrl1_def
      vmx_set_cpu_ctrl0_def vmx_set_cpu_ctrl1_def vm_access Let_def)+

lemma cr_part_set:
  "cr_part t (set_cr0 w t v r) = (let ((c0, c2, c3, c4), (s0, s3, s4), b) = cr_part t r
     in (((v AND (NOT (cr0_msk w t r) OR CR0_PE)) OR (cr0_set w t r AND ucast (NOT (0x1 :: u32))),
          c2, c3, c4), (v, s3, s4), b))"
  "cr_part t (set_cr4 w t v r) = (let ((c0, c2, c3, c4), (s0, s3, s4), b) = cr_part t r
     in ((c0, c2, c3, (v AND NOT (cr4_msk w t r)) OR cr4_set w t r), (s0, s3, v), b))"
  "cr_part t (set_cr3 t v r) = (let ((c0, c2, c3, c4), (s0, s3, s4), b) = cr_part t r
     in if nst_on r then ((c0, c2, v, c4), (s0, s3, s4), b) else ((c0, c2, c3, c4), (s0, v, s4), b))"
  "cr_part t (set_g_cr2 t v r) = (let ((c0, c2, c3, c4), s, b) = cr_part t r
     in ((c0, v, c3, c4), s, b))"
  "cr_part t (set_g_cr3 t v r) = (let ((c0, c2, c3, c4), s, b) = cr_part t r
     in ((c0, c2, v, c4), s, b))"
  by (cases t; simp add: cr_part_def set_cr0_def set_cr4_def set_cr3_def vm_access)+

subsection \<open>The guest's view is a plain register file\<close>

lemma shadow_bits:
  fixes v m s x p :: mword
  assumes "s AND NOT m = 0"
  shows "(((v AND (NOT m OR p)) OR (s AND x)) AND NOT m) OR (v AND m) = v"
    and "(((v AND NOT m) OR s) AND NOT m) OR (v AND m) = v"
proof -
  have "bit s n \<Longrightarrow> n < 64 \<Longrightarrow> bit m n" for n
    using arg_cong[OF assms, of "\<lambda>w. bit w n"] by (simp add: bit_simps)
  then show "(((v AND (NOT m OR p)) OR (s AND x)) AND NOT m) OR (v AND m) = v"
    "(((v AND NOT m) OR s) AND NOT m) OR (v AND m) = v"
    by (auto intro!: bit_word_eqI simp: bit_simps)
qed

lemma set_within_msk: "cr0_set w t r AND NOT (cr0_msk w t r) = 0" "cr4_set w t r AND NOT (cr4_msk w t r) = 0"
  by (auto intro!: bit_word_eqI simp: cr0_msk_def cr4_msk_def bit_simps)

lemma flags_kept [simp]:
  "nst_on (set_cr0 w t v r) = nst_on r" "fpu_on (set_cr0 w t v r) = fpu_on r"
  "nst_on (set_cr4 w t v r) = nst_on r" "fpu_on (set_cr4 w t v r) = fpu_on r"
  "nst_on (set_cr3 t v r) = nst_on r" "fpu_on (set_cr3 t v r) = fpu_on r"
  "nst_on (set_g_cr2 t v r) = nst_on r" "fpu_on (set_g_cr2 t v r) = fpu_on r"
  "nst_on (set_g_cr3 t v r) = nst_on r" "fpu_on (set_g_cr3 t v r) = fpu_on r"
  "nst_on (tlb_flush w t full r) = nst_on r" "fpu_on (tlb_flush w t full r) = fpu_on r"
  "nst_on (set_exc t r) = nst_on r" "fpu_on (set_exc t r) = fpu_on r"
  "nst_on (write_efer t v r) = nst_on r" "fpu_on (write_efer t v r) = fpu_on r"
  "nst_on (set_vmcs f v r) = nst_on r" "fpu_on (set_vmcs f v r) = fpu_on r"
  "nst_on (svm_set_cpu_ctrl0 w v r) = nst_on r" "fpu_on (svm_set_cpu_ctrl0 w v r) = fpu_on r"
  "nst_on (svm_set_cpu_ctrl1 v r) = nst_on r" "fpu_on (svm_set_cpu_ctrl1 v r) = fpu_on r"
  "nst_on (vmx_set_cpu_ctrl0 w v r) = nst_on r" "fpu_on (vmx_set_cpu_ctrl0 w v r) = fpu_on r"
  "nst_on (vmx_set_cpu_ctrl1 w v r) = nst_on r" "fpu_on (vmx_set_cpu_ctrl1 w v r) = fpu_on r"
  by (cases t; simp add: set_cr0_def set_cr4_def set_cr3_def set_exc_def svm_set_cpu_ctrl0_def
      svm_set_cpu_ctrl1_def vmx_set_cpu_ctrl0_def vmx_set_cpu_ctrl1_def vm_access Let_def)+

lemma guest_crs_set:
  "guest_crs w t (set_cr0 w t v r) = (guest_crs w t r)(0 := v)"
  "guest_crs w t (set_cr4 w t v r) = (guest_crs w t r)(4 := v)"
  "guest_crs w t (set_cr3 t v r) = (guest_crs w t r)(3 := v)"
  "guest_crs w t (set_g_cr2 t v r) = (guest_crs w t r)(2 := v)"
proof -
  note flags = flags_kept(1-8)
  note m = masks_cong[OF flags(1,2)] masks_cong[OF flags(3,4)] masks_cong[OF flags(5,6)]
    masks_cong[OF flags(7,8)]
  note view = guest_crs_def get_cr0_def get_cr3_def get_cr4_def Let_def fun_eq_iff flags m
  show "guest_crs w t (set_cr0 w t v r) = (guest_crs w t r)(0 := v)"
    using cr_part_set(1)[of t w v r] shadow_bits(1)[OF set_within_msk(1)[of w t r]]
    by (simp add: cr_part_def view)
  show "guest_crs w t (set_cr4 w t v r) = (guest_crs w t r)(4 := v)"
    using cr_part_set(2)[of t w v r] shadow_bits(2)[OF set_within_msk(2)[of w t r]]
    by (simp add: cr_part_def view)
  show "guest_crs w t (set_cr3 t v r) = (guest_crs w t r)(3 := v)"
    using cr_part_set(3)[of t v r] by (simp add: cr_part_def view split: if_splits)
  show "guest_crs w t (set_g_cr2 t v r) = (guest_crs w t r)(2 := v)"
    using cr_part_set(4)[of t v r] by (simp add: cr_part_def view)
qed

lemmas guest_crs_frames = cr_part_frames[THEN guest_crs_cong]

lemma guest_crs_g_cr3: "\<not> nst_on r \<Longrightarrow> guest_crs w t (set_g_cr3 t v r) = guest_crs w t r"
proof -
  assume n: "\<not> nst_on r"
  show ?thesis
    using n cr_part_set(5)[of t v r] masks_cong[OF flags_kept(9,10)]
    by (simp add: cr_part_def guest_crs_def get_cr0_def get_cr3_def get_cr4_def Let_def fun_eq_iff)
qed

text \<open>Switching nested paging or the FPU rewrites the hardware registers and the shadows, but not
  what the guest sees.\<close>

lemma three_writes: "((((f)(0 := x))(3 := y))(4 := z)) = g" if "g 0 = x" "g 3 = y" "g 4 = z"
  "\<And>c. c \<noteq> 0 \<Longrightarrow> c \<noteq> 3 \<Longrightarrow> c \<noteq> 4 \<Longrightarrow> f c = g c" for f g :: "nat \<Rightarrow> mword"
  using that by (auto simp: fun_eq_iff)

lemma cr2_of_mode: "guest_crs w t (r\<lparr>nst_on := b\<rparr>) c = guest_crs w t r c"
  "guest_crs w t (r\<lparr>fpu_on := b\<rparr>) c = guest_crs w t r c" if "c \<noteq> 0" "c \<noteq> 3" "c \<noteq> 4"
  using that by (cases t; simp add: guest_crs_def)+

lemma rewrite_crs:
  assumes "\<And>c. c \<noteq> 0 \<Longrightarrow> c \<noteq> 3 \<Longrightarrow> c \<noteq> 4 \<Longrightarrow> guest_crs w t r' c = guest_crs w t r c"
  shows "guest_crs w t (set_cr4 w t (get_cr4 w t r) (set_cr3 t (get_cr3 t r) (set_cr0 w t (get_cr0 w t r) r')))
    = guest_crs w t r"
  unfolding guest_crs_set using assms by (intro three_writes) (simp_all add: guest_crs_def)

lemma nst_rewrite_view:
  "guest_crs w t (set_cr4 w t (get_cr4 w t r) (set_cr3 t (get_cr3 t r)
      (set_cr0 w t (get_cr0 w t r) (r\<lparr>nst_on := b\<rparr>)))) = guest_crs w t r"
  by (rule rewrite_crs) (rule cr2_of_mode)

lemma nst_ctrl_view: "guest_crs w t (nst_ctrl w t on r) = guest_crs w t r"
  by (cases t) (simp_all add: Let_def guest_crs_g_cr3 guest_crs_frames nst_rewrite_view
      del: set_g_cr3.simps)

lemma fpu_on_view:
  assumes "c \<noteq> 0"
  shows "guest_crs w t (r\<lparr>fpu_on := b\<rparr>) c = guest_crs w t r c"
  using assms
  by (cases t; simp add: guest_crs_def get_cr3_def get_cr4_def cr4_msk_def cr4_set_def Let_def)

lemma fpu_rewrite_view: "(guest_crs w t (r\<lparr>fpu_on := on\<rparr>))(0 := get_cr0 w t r) = guest_crs w t r"
  by (rule ext) (simp add: fpu_on_view, simp add: guest_crs_def)

lemma fpu_ctrl_view: "guest_crs w t (fpu_ctrl w t on r) = guest_crs w t r"
  by (cases t) (simp_all add: Let_def guest_crs_frames guest_crs_set fpu_rewrite_view)

text \<open>C23: control_register_view. Whatever the paging mode, the FPU state and the virtualization extension, the control
  registers that a guest and its monitor see behave as a register file with the four entries
  CR0, CR2, CR3 and CR4: a write through \<open>write_cr\<close> changes the entry it names and no other,
  even though it may move values between hardware, masks and shadows, flush TLBs and switch
  nested paging; a read gives the entry; any other number stops the kernel.\<close>
theorem control_register_view:
  "(case write_cr w t cr val r of
      Inr r' \<Rightarrow> cr \<in> {0, 2, 3, 4} \<and> guest_crs w t r' = (guest_crs w t r)(cr := val)
    | Inl e \<Rightarrow> cr \<notin> {0, 2, 3, 4} \<and> e = Panic)
   \<and> read_cr w t c r = (if c \<in> {0, 2, 3, 4} then Inr (guest_crs w t r c) else Inl Panic)"
proof -
  have "guest_crs w t (write_cr0 w t val r) = (guest_crs w t r)(0 := val)"
    by (simp add: write_cr0_def Let_def guest_crs_frames guest_crs_set nst_ctrl_view
        del: set_g_cr3.simps nst_ctrl.simps write_efer.simps)
  moreover have "guest_crs w t (write_cr4 w t val r) = (guest_crs w t r)(4 := val)"
    by (simp add: write_cr4_def Let_def guest_crs_frames guest_crs_set)
  ultimately have "case write_cr w t cr val r of
      Inr r' \<Rightarrow> cr \<in> {0, 2, 3, 4} \<and> guest_crs w t r' = (guest_crs w t r)(cr := val)
    | Inl e \<Rightarrow> cr \<notin> {0, 2, 3, 4} \<and> e = Panic"
    by (simp add: write_cr_def guest_crs_frames guest_crs_set)
  then show ?thesis by (simp add: read_cr_def guest_crs_def)
qed

subsection \<open>Confinement of the guest\<close>

text \<open>
  With nested paging off, the guest runs on the shadow page table: its hardware CR3 is the root
  of the shadow TLB, paging and write protection are on and cannot be turned off by the guest,
  page faults, INVLPG and accesses to CR3 exit. With nested paging on, the second-level
  translation is enabled. The masks in the control structure agree with the ones that the code
  computes, so that what the guest reads is the shadow.
\<close>

fun shadow_mode :: "vm_env \<Rightarrow> vt \<Rightarrow> cpu_regs \<Rightarrow> bool" where
  "shadow_mode w VMCS r \<longleftrightarrow>
     (let s = vmcs_of r in
      vmread GUEST_CR3 s = vtlb_phys w
      \<and> vmread GUEST_CR0 s AND 0x80010000 = 0x80010000
      \<and> vmread GUEST_CR4 s AND 0x30 = 0x30
      \<and> vmread EXC_BITMAP s AND 0x4000 \<noteq> 0
      \<and> vmread CPU_EXEC_CTRL0 s AND 0x18200 = ucast (ctrl_cpu0_clr (vmx_caps w)) AND 0x18200)"
| "shadow_mode w VMCB r \<longleftrightarrow>
     (let v = vsave (vmcb_of r); c = vctl (vmcb_of r) in
      v_cr3 v = vtlb_phys w
      \<and> v_cr0 v AND 0x80010000 = 0x80010000
      \<and> v_cr4 v AND 0x30 = 0x30
      \<and> intercept_exc c AND 0x4000 \<noteq> 0
      \<and> intercept_cr c = 0x190019
      \<and> intercept_cpu0 c AND Vmcb_CPU_INVLPG \<noteq> 0)"

fun nested_mode :: "vt \<Rightarrow> cpu_regs \<Rightarrow> bool" where
  "nested_mode VMCS r \<longleftrightarrow> vmread CPU_EXEC_CTRL1 (vmcs_of r) AND 0x2 \<noteq> 0"
| "nested_mode VMCB r \<longleftrightarrow> npt_control (vctl (vmcb_of r)) = 1"

fun masks_agree :: "vm_env \<Rightarrow> vt \<Rightarrow> cpu_regs \<Rightarrow> bool" where
  "masks_agree w VMCS r \<longleftrightarrow>
     (let s = vmcs_of r in
      vmread CR0_MASK s = cr0_msk w VMCS r \<and> vmread CR4_MASK s = cr4_msk w VMCS r
      \<and> vmread CR0_READ_SHADOW s = cr0_shadow r \<and> vmread CR4_READ_SHADOW s = cr4_shadow r)"
| "masks_agree w VMCB r \<longleftrightarrow>
     (let c = vctl (vmcb_of r) in
      bit (intercept_cr c) 16 = (cr0_msk w VMCB r \<noteq> 0)
      \<and> bit (intercept_cr c) 20 = (cr4_msk w VMCB r \<noteq> 0))"

definition confined :: "vm_env \<Rightarrow> vt \<Rightarrow> cpu_regs \<Rightarrow> bool" where
  "confined w t r \<longleftrightarrow>
     masks_agree w t r \<and> (nst_on r \<longrightarrow> nested_mode t r \<and> vt_has_nst w t)
     \<and> (\<not> nst_on r \<longrightarrow> shadow_mode w t r)"

text \<open>
  What the processor lets a guest change between two exits, as far as the invariant reads it:
  register bits under the mask and intercepted registers keep their values, the control fields
  are out of reach.
\<close>

fun guest_may_run :: "vt \<Rightarrow> cpu_regs \<Rightarrow> cpu_regs \<Rightarrow> bool" where
  "guest_may_run VMCS r r' \<longleftrightarrow>
     (let s = vmcs_of r; s' = vmcs_of r' in
      nst_on r' = nst_on r \<and> fpu_on r' = fpu_on r
      \<and> cr0_shadow r' = cr0_shadow r \<and> cr4_shadow r' = cr4_shadow r
      \<and> list_all (\<lambda>f. vmread f s' = vmread f s)
          [CR0_MASK, CR4_MASK, CR0_READ_SHADOW, CR4_READ_SHADOW, EXC_BITMAP, CPU_EXEC_CTRL0,
           CPU_EXEC_CTRL1]
      \<and> vmread GUEST_CR0 s' AND vmread CR0_MASK s = vmread GUEST_CR0 s AND vmread CR0_MASK s
      \<and> vmread GUEST_CR4 s' AND vmread CR4_MASK s = vmread GUEST_CR4 s AND vmread CR4_MASK s
      \<and> (vmread CPU_EXEC_CTRL0 s AND ucast Vmcs_CPU_CR3_LOAD \<noteq> 0
           \<longrightarrow> vmread GUEST_CR3 s' = vmread GUEST_CR3 s))"
| "guest_may_run VMCB r r' \<longleftrightarrow>
     (let v = vmcb_of r; v' = vmcb_of r' in
      nst_on r' = nst_on r \<and> fpu_on r' = fpu_on r
      \<and> intercept_cr (vctl v') = intercept_cr (vctl v)
      \<and> intercept_exc (vctl v') = intercept_exc (vctl v)
      \<and> intercept_cpu0 (vctl v') = intercept_cpu0 (vctl v)
      \<and> npt_control (vctl v') = npt_control (vctl v)
      \<and> (bit (intercept_cr (vctl v)) 16 \<longrightarrow> v_cr0 (vsave v') = v_cr0 (vsave v))
      \<and> (bit (intercept_cr (vctl v)) 19 \<longrightarrow> v_cr3 (vsave v') = v_cr3 (vsave v))
      \<and> (bit (intercept_cr (vctl v)) 20 \<longrightarrow> v_cr4 (vsave v') = v_cr4 (vsave v)))"

inductive vcpu_reach :: "vm_env \<Rightarrow> vt \<Rightarrow> cpu_regs \<Rightarrow> bool" for w t where
  vr_start: "vcpu_reach w t (nst_ctrl w t on r)"
| vr_write_cr: "vcpu_reach w t r \<Longrightarrow> write_cr w t cr val r = Inr r' \<Longrightarrow> vcpu_reach w t r'"
| vr_efer: "vcpu_reach w t r \<Longrightarrow> vcpu_reach w t (write_efer t val r)"
| vr_fpu: "vcpu_reach w t r \<Longrightarrow> vcpu_reach w t (fpu_ctrl w t on r)"
| vr_flush: "vcpu_reach w t r \<Longrightarrow> vcpu_reach w t (tlb_flush w t full r)"
| vr_vmx_ctrl0: "vcpu_reach w t r \<Longrightarrow> t = VMCS \<Longrightarrow> vcpu_reach w t (vmx_set_cpu_ctrl0 w val r)"
| vr_vmx_ctrl1: "vcpu_reach w t r \<Longrightarrow> t = VMCS \<Longrightarrow> vcpu_reach w t (vmx_set_cpu_ctrl1 w val r)"
| vr_svm_ctrl0: "vcpu_reach w t r \<Longrightarrow> t = VMCB \<Longrightarrow> vcpu_reach w t (svm_set_cpu_ctrl0 w val r)"
| vr_svm_ctrl1: "vcpu_reach w t r \<Longrightarrow> t = VMCB \<Longrightarrow> vcpu_reach w t (svm_set_cpu_ctrl1 val r)"
| vr_guest: "vcpu_reach w t r \<Longrightarrow> guest_may_run t r r' \<Longrightarrow> vcpu_reach w t r'"

lemma cr0_set_bits:
  assumes "\<not> nst_on r"
  shows "((v AND (NOT (cr0_msk w t r) OR CR0_PE)) OR (cr0_set w t r AND 0xfffffffe)) AND 0x80010000
      = 0x80010000"
    and "((v AND NOT (cr4_msk w t r)) OR cr4_set w t r) AND 0x30 = 0x30"
proof -
  have "cr0_set w t r = vt_fix_cr0_set w t OR ((0x80010001 OR (if fpu_on r then 0 else CR0_TS)))"
    "cr4_set w t r = vt_fix_cr4_set w t OR 0x30"
    using assms by (simp_all add: cr0_set_def cr4_set_def CR0_PG_def CR0_WP_def CR0_PE_def
        CR4_PSE_def CR4_PAE_def)
  moreover have "((a OR ((f OR (0x80010001 OR g)) AND 0xfffffffe)) AND 0x80010000) = (0x80010000 :: mword)"
    for a f g
  proof -
    have "(0x80010001 :: mword) AND 0xfffffffe = 0x80010000" by simp
    then show ?thesis by (simp add: bit.conj_disj_distrib bit.conj_disj_distrib2 and.assoc
          or_and_absorb)
  qed
  ultimately show "((v AND (NOT (cr0_msk w t r) OR CR0_PE)) OR (cr0_set w t r AND 0xfffffffe)) AND 0x80010000
      = 0x80010000" "((v AND NOT (cr4_msk w t r)) OR cr4_set w t r) AND 0x30 = 0x30"
    by (simp_all add: or_and_absorb(2) or.assoc[symmetric])
qed
lemma masks_kept [simp]:
  "cr0_msk w' t' (set_vmcs f v r) = cr0_msk w' t' r" "cr4_msk w' t' (set_vmcs f v r) = cr4_msk w' t' r"
  "cr0_msk w' t' (set_cr0 w t v r) = cr0_msk w' t' r" "cr4_msk w' t' (set_cr0 w t v r) = cr4_msk w' t' r"
  "cr0_msk w' t' (set_cr4 w t v r) = cr0_msk w' t' r" "cr4_msk w' t' (set_cr4 w t v r) = cr4_msk w' t' r"
  "cr0_msk w' t' (set_cr3 t v r) = cr0_msk w' t' r" "cr4_msk w' t' (set_cr3 t v r) = cr4_msk w' t' r"
  "cr0_msk w' t' (set_g_cr2 t v r) = cr0_msk w' t' r" "cr4_msk w' t' (set_g_cr2 t v r) = cr4_msk w' t' r"
  "cr0_msk w' t' (set_g_cr3 t v r) = cr0_msk w' t' r" "cr4_msk w' t' (set_g_cr3 t v r) = cr4_msk w' t' r"
  "cr0_msk w' t' (set_exc t r) = cr0_msk w' t' r" "cr4_msk w' t' (set_exc t r) = cr4_msk w' t' r"
  "cr0_msk w' t' (write_efer t v r) = cr0_msk w' t' r" "cr4_msk w' t' (write_efer t v r) = cr4_msk w' t' r"
  "cr0_msk w' t' (tlb_flush w t b r) = cr0_msk w' t' r" "cr4_msk w' t' (tlb_flush w t b r) = cr4_msk w' t' r"
  "cr0_msk w' t' (vmx_set_cpu_ctrl0 w v r) = cr0_msk w' t' r" "cr4_msk w' t' (vmx_set_cpu_ctrl0 w v r) = cr4_msk w' t' r"
  "cr0_msk w' t' (vmx_set_cpu_ctrl1 w v r) = cr0_msk w' t' r" "cr4_msk w' t' (vmx_set_cpu_ctrl1 w v r) = cr4_msk w' t' r"
  "cr0_msk w' t' (svm_set_cpu_ctrl0 w v r) = cr0_msk w' t' r" "cr4_msk w' t' (svm_set_cpu_ctrl0 w v r) = cr4_msk w' t' r"
  "cr0_msk w' t' (svm_set_cpu_ctrl1 v r) = cr0_msk w' t' r" "cr4_msk w' t' (svm_set_cpu_ctrl1 v r) = cr4_msk w' t' r"
  by (rule masks_cong; simp)+

text \<open>The fields that the invariant reads, and what each operation does to them.\<close>

definition conf_vmcs :: "cpu_regs \<Rightarrow> (mword \<times> mword \<times> mword \<times> mword) \<times> (mword \<times> mword \<times> mword)
    \<times> (mword \<times> mword \<times> mword) \<times> (mword \<times> mword) \<times> bool \<times> bool" where
  "conf_vmcs r = (let s = vmcs_of r in
     ((vmread CR0_MASK s, vmread CR4_MASK s, vmread CR0_READ_SHADOW s, vmread CR4_READ_SHADOW s),
      (vmread GUEST_CR0 s, vmread GUEST_CR3 s, vmread GUEST_CR4 s),
      (vmread EXC_BITMAP s, vmread CPU_EXEC_CTRL0 s, vmread CPU_EXEC_CTRL1 s),
      (cr0_shadow r, cr4_shadow r), nst_on r, fpu_on r))"

lemma confined_vmcs_cong:
  assumes "conf_vmcs r = conf_vmcs r'"
  shows "confined w VMCS r \<longleftrightarrow> confined w VMCS r'"
  using assms masks_cong[of r r' w VMCS]
  by (simp add: conf_vmcs_def confined_def Let_def)

lemma conf_vmcs_frames:
  "conf_vmcs (tlb_flush w VMCS full r) = conf_vmcs r"
  "conf_vmcs (write_efer VMCS v r) = conf_vmcs r"
  "conf_vmcs (set_g_cr2 VMCS v r) = conf_vmcs r"
  by (simp_all add: conf_vmcs_def vm_access Let_def)

lemma ctrl_force:
  fixes val k z :: mword and c :: u32
  shows "take_bit 32 (((val OR k) OR z) AND ucast c) AND k = ucast c AND k"
proof (rule bit_word_eqI)
  fix n assume "n < LENGTH(64)"
  then show "bit (take_bit 32 (((val OR k) OR z) AND ucast c) AND k) n = bit (ucast c AND k) n"
    by (auto simp: bit_simps dest: bit_imp_le_length)
qed

lemma vmx_ctrl0_forced:
  "\<not> nst_on r \<Longrightarrow> vmread CPU_EXEC_CTRL0 (vmcs_of (vmx_set_cpu_ctrl0 w v r)) AND 0x18200
     = ucast (ctrl_cpu0_clr (vmx_caps w)) AND 0x18200"
  using ctrl_force[of v "0x18200"] by (simp add: vmx_set_cpu_ctrl0_def vm_access Let_def)

lemma vmx_ctrl1_forced:
  "nst_on r \<Longrightarrow> vmread CPU_EXEC_CTRL1 (vmcs_of (vmx_set_cpu_ctrl1 w v r)) AND 0x2
     = ucast (ctrl_cpu1_clr (vmx_caps w)) AND 0x2"
  using ctrl_force[of v "0x2"] by (simp add: vmx_set_cpu_ctrl1_def vm_access Let_def)

lemma ept_bit: "ucast (ctrl_cpu1_clr (vmx_caps w)) AND (0x2 :: mword) \<noteq> 0 \<longleftrightarrow> has_ept (vmx_caps w)"
  using bit_iff_and_push_bit_not_eq_0[of "ucast (ctrl_cpu1_clr (vmx_caps w)) :: mword" 1]
    bit_iff_and_push_bit_not_eq_0[of "ctrl_cpu1_clr (vmx_caps w)" 1]
  by (simp add: has_ept_def bit_ucast_iff)

lemma confined_vmx_ctrl0: "confined w VMCS r \<Longrightarrow> confined w VMCS (vmx_set_cpu_ctrl0 w v r)"
  using vmx_ctrl0_forced[of r w v]
  by (simp add: confined_def Let_def) (simp add: vmx_set_cpu_ctrl0_def vm_access Let_def)

lemma confined_vmx_ctrl1: "confined w VMCS r \<Longrightarrow> confined w VMCS (vmx_set_cpu_ctrl1 w v r)"
  using vmx_ctrl1_forced[of r w v] ept_bit[of w]
  by (simp add: confined_def Let_def) (simp add: vmx_set_cpu_ctrl1_def vm_access Let_def)

lemma confined_set_cr0: "confined w VMCS r \<Longrightarrow> confined w VMCS (set_cr0 w VMCS v r)"
  using cr0_set_bits(1)[of r v w VMCS]
  by (simp add: confined_def Let_def) (simp add: set_cr0_def vm_access Let_def)

lemma confined_set_cr4: "confined w VMCS r \<Longrightarrow> confined w VMCS (set_cr4 w VMCS v r)"
  using cr0_set_bits(2)[of r v w VMCS]
  by (simp add: confined_def Let_def) (simp add: set_cr4_def vm_access Let_def)

lemma confined_set_cr3: "confined w VMCS r \<Longrightarrow> confined w VMCS (set_cr3 VMCS v r)"
  by (simp add: confined_def Let_def) (simp add: set_cr3_def vm_access Let_def)

lemma vmcs_others:
  "g div 2 \<noteq> f div 2 \<Longrightarrow> vmread g (vmcs_of (set_vmcs f v r)) = vmread g (vmcs_of r)"
  "g div 2 \<noteq> 0x2001 \<Longrightarrow> vmread g (vmcs_of (vmx_set_cpu_ctrl0 w v r)) = vmread g (vmcs_of r)"
  "g div 2 \<noteq> 0x200f \<Longrightarrow> vmread g (vmcs_of (vmx_set_cpu_ctrl1 w v r)) = vmread g (vmcs_of r)"
  "g div 2 \<noteq> 0x2002 \<Longrightarrow> vmread g (vmcs_of (set_exc VMCS r)) = vmread g (vmcs_of r)"
  "g div 2 \<noteq> 0x3400 \<Longrightarrow> g div 2 \<noteq> 0x3002
     \<Longrightarrow> vmread g (vmcs_of (set_cr0 w VMCS v r)) = vmread g (vmcs_of r)"
  "g div 2 \<noteq> 0x3402 \<Longrightarrow> g div 2 \<noteq> 0x3003
     \<Longrightarrow> vmread g (vmcs_of (set_cr4 w VMCS v r)) = vmread g (vmcs_of r)"
  "g div 2 \<noteq> 0x3401 \<Longrightarrow> vmread g (vmcs_of (set_cr3 VMCS v r)) = vmread g (vmcs_of r)"
  by (simp_all add: vm_access vmx_set_cpu_ctrl0_def vmx_set_cpu_ctrl1_def set_exc_def set_cr0_def
      set_cr4_def set_cr3_def Let_def)

lemma vmcs_sames:
  "vmread CR0_READ_SHADOW (vmcs_of (set_cr0 w VMCS v r)) = v" "cr0_shadow (set_cr0 w VMCS v r) = v"
  "vmread CR4_READ_SHADOW (vmcs_of (set_cr4 w VMCS v r)) = v" "cr4_shadow (set_cr4 w VMCS v r) = v"
  "\<not> nst_on r \<Longrightarrow> vmread GUEST_CR0 (vmcs_of (set_cr0 w VMCS v r)) AND 0x80010000 = 0x80010000"
  "\<not> nst_on r \<Longrightarrow> vmread GUEST_CR4 (vmcs_of (set_cr4 w VMCS v r)) AND 0x30 = 0x30"
  "\<not> nst_on r \<Longrightarrow> vmread EXC_BITMAP (vmcs_of (set_exc VMCS r)) AND 0x4000 \<noteq> 0"
  "f \<in> {CR0_MASK, CR4_MASK, GUEST_CR3} \<Longrightarrow> vmread f (vmcs_of (set_vmcs f v r)) = v"
  using cr0_set_bits[of r v w VMCS]
  by (auto simp: set_cr0_def set_cr4_def set_exc_def vm_access)

lemma shadows_kept:
  "cr0_shadow (set_cr3 t v r) = cr0_shadow r" "cr0_shadow (set_cr4 w VMCS v r) = cr0_shadow r"
  "cr0_shadow (vmx_set_cpu_ctrl0 w v r) = cr0_shadow r" "cr0_shadow (vmx_set_cpu_ctrl1 w v r) = cr0_shadow r"
  "cr0_shadow (set_exc VMCS r) = cr0_shadow r" "cr0_shadow (set_vmcs f v r) = cr0_shadow r"
  "cr4_shadow (set_cr0 w VMCS v r) = cr4_shadow r"
  "cr4_shadow (vmx_set_cpu_ctrl0 w v r) = cr4_shadow r" "cr4_shadow (vmx_set_cpu_ctrl1 w v r) = cr4_shadow r"
  "cr4_shadow (set_exc VMCS r) = cr4_shadow r" "cr4_shadow (set_vmcs f v r) = cr4_shadow r"
  by (cases t; simp add: set_cr3_def set_cr0_def set_cr4_def vmx_set_cpu_ctrl0_def vmx_set_cpu_ctrl1_def
      set_exc_def vm_access Let_def)+

lemma confined_nst: "confined w VMCS (nst_ctrl w VMCS on r)"
  using vmx_ctrl1_forced[where w = w] ept_bit[of w]
  by (simp add: confined_def Let_def vmcs_others vmcs_sames shadows_kept vmx_ctrl0_forced)

lemma cr4_msk_fpu [simp]: "cr4_msk w t (r\<lparr>fpu_on := b\<rparr>) = cr4_msk w t r"
  by (simp add: cr4_msk_def cr4_set_def)

lemma confined_fpu: "confined w VMCS r \<Longrightarrow> confined w VMCS (fpu_ctrl w VMCS on r)"
  by (simp add: confined_def Let_def vmcs_others vmcs_sames shadows_kept)

lemma confined_vmcs_frames:
  "confined w VMCS (tlb_flush w VMCS full r) \<longleftrightarrow> confined w VMCS r"
  "confined w VMCS (write_efer VMCS v r) \<longleftrightarrow> confined w VMCS r"
  "confined w VMCS (set_g_cr2 VMCS v r) \<longleftrightarrow> confined w VMCS r"
  by (rule confined_vmcs_cong[OF conf_vmcs_frames(1)] confined_vmcs_cong[OF conf_vmcs_frames(2)]
      confined_vmcs_cong[OF conf_vmcs_frames(3)])+

lemma masked_bits:
  fixes a b m k :: mword
  assumes "a AND m = b AND m" "m AND k = k"
  shows "a AND k = b AND k"
  using assms by (metis and.assoc)

lemma shadow_mask_bits:
  assumes "\<not> nst_on r"
  shows "cr0_msk w t r AND 0x80010000 = 0x80010000" "cr4_msk w t r AND 0x30 = 0x30"
proof -
  have "cr0_msk w t r = vt_fix_cr0_clr w t OR (vt_fix_cr0_set w t OR (0x80010001 OR (if fpu_on r then 0 else CR0_TS)))"
    "cr4_msk w t r = (vt_fix_cr4_clr w t OR CR4_PGE OR vt_fix_cr4_set w t) OR 0x30"
    using assms by (simp_all add: cr0_msk_def cr4_msk_def cr0_set_def cr4_set_def CR0_PG_def CR0_WP_def
        CR0_PE_def CR4_PSE_def CR4_PAE_def or.assoc)
  moreover have "(a OR (b OR (0x80010001 OR c))) AND 0x80010000 = (0x80010000 :: mword)" for a b c
    by (simp add: bit.conj_disj_distrib2 or_and_absorb)
  ultimately show "cr0_msk w t r AND 0x80010000 = 0x80010000" "cr4_msk w t r AND 0x30 = 0x30"
    by (simp_all add: or_and_absorb)
qed

text \<open>The processors that the code runs on allow exits on CR3 loads: the bit may be one in the
  controls.\<close>

definition cr3_exit_allowed :: "vm_env \<Rightarrow> bool" where
  "cr3_exit_allowed w \<longleftrightarrow> ctrl_cpu0_clr (vmx_caps w) AND 0x18200 = 0x18200"

lemma confined_vmcs_guest:
  assumes "confined w VMCS r" "guest_may_run VMCS r r'" "cr3_exit_allowed w"
  shows "confined w VMCS r'"
proof -
  have flags: "nst_on r' = nst_on r" "fpu_on r' = fpu_on r" using assms(2) by (simp_all add: Let_def)
  have "ucast (ctrl_cpu0_clr (vmx_caps w)) AND (0x18200 :: mword)
      = ucast (ctrl_cpu0_clr (vmx_caps w) AND 0x18200)"
    by (rule bit_word_eqI) (auto simp: bit_simps dest: bit_imp_le_length)
  then have c: "ucast (ctrl_cpu0_clr (vmx_caps w)) AND (0x18200 :: mword) = 0x18200"
    using assms(3) by (simp add: cr3_exit_allowed_def)
  have ld: "\<not> nst_on r \<Longrightarrow> vmread CPU_EXEC_CTRL0 (vmcs_of r) AND 0x8000 \<noteq> 0"
    using assms(1) masked_bits[of "vmread CPU_EXEC_CTRL0 (vmcs_of r)" "0x18200" "0x18200" "0x8000"]
    by (simp add: confined_def Let_def c)
  have cr: "\<not> nst_on r \<Longrightarrow> vmread GUEST_CR0 (vmcs_of r') AND 0x80010000 = vmread GUEST_CR0 (vmcs_of r) AND 0x80010000"
    "\<not> nst_on r \<Longrightarrow> vmread GUEST_CR4 (vmcs_of r') AND 0x30 = vmread GUEST_CR4 (vmcs_of r) AND 0x30"
    using assms(1,2) shadow_mask_bits[of r w VMCS]
      masked_bits[of "vmread GUEST_CR0 (vmcs_of r')" "cr0_msk w VMCS r" "vmread GUEST_CR0 (vmcs_of r)" "0x80010000"]
      masked_bits[of "vmread GUEST_CR4 (vmcs_of r')" "cr4_msk w VMCS r" "vmread GUEST_CR4 (vmcs_of r)" "0x30"]
    by (simp_all add: confined_def Let_def)
  show ?thesis
    using assms(1,2) masks_cong[OF flags, of w VMCS] ld cr by (simp add: confined_def Let_def)
qed

lemma confined_vmcs_write_cr:
  assumes "confined w VMCS r" "write_cr w VMCS cr v r = Inr r'"
  shows "confined w VMCS r'"
  using assms
  by (auto simp: write_cr_def write_cr0_def write_cr4_def Let_def confined_vmcs_frames confined_set_cr0
      confined_set_cr3 confined_set_cr4 confined_nst split: if_splits
      simp del: nst_ctrl.simps write_efer.simps set_g_cr2.simps tlb_flush.simps)

subsection \<open>Confinement with a control block\<close>

definition conf_vmcb :: "cpu_regs \<Rightarrow> (mword \<times> mword \<times> mword) \<times> (u32 \<times> u32 \<times> u32 \<times> u64) \<times> bool \<times> bool" where
  "conf_vmcb r = (let v = vsave (vmcb_of r); c = vctl (vmcb_of r) in
     ((v_cr0 v, v_cr3 v, v_cr4 v), (intercept_cr c, intercept_exc c, intercept_cpu0 c, npt_control c),
      nst_on r, fpu_on r))"

lemma confined_vmcb_cong:
  assumes "conf_vmcb r = conf_vmcb r'"
  shows "confined w VMCB r \<longleftrightarrow> confined w VMCB r'"
  using assms masks_cong[of r r' w VMCB] by (simp add: conf_vmcb_def confined_def Let_def)

lemma conf_vmcb_frames:
  "conf_vmcb (tlb_flush w VMCB full r) = conf_vmcb r"
  "conf_vmcb (write_efer VMCB v r) = conf_vmcb r"
  "conf_vmcb (set_g_cr2 VMCB v r) = conf_vmcb r"
  "conf_vmcb (svm_set_cpu_ctrl1 x r) = conf_vmcb r"
  by (simp_all add: conf_vmcb_def vm_access Let_def svm_set_cpu_ctrl1_def)

lemmas confined_vmcb_frames = conf_vmcb_frames[THEN confined_vmcb_cong]

lemma shadow_masks_nonzero: "\<not> nst_on r \<Longrightarrow> cr0_msk w t r \<noteq> 0" "\<not> nst_on r \<Longrightarrow> cr4_msk w t r \<noteq> 0"
  using shadow_mask_bits[of r w t] by auto

lemma svm_ctrl0_fields:
  fixes w :: vm_env and val :: mword and r :: cpu_regs
  defines "c \<equiv> vctl (vmcb_of (svm_set_cpu_ctrl0 w val r))"
  shows "npt_control c = (if nst_on r then 1 else 0)"
    and "bit (intercept_cr c) 16 \<longleftrightarrow> cr0_msk w VMCB r \<noteq> 0"
    and "bit (intercept_cr c) 20 \<longleftrightarrow> cr4_msk w VMCB r \<noteq> 0"
    and "\<not> nst_on r \<Longrightarrow> intercept_cr c = 0x190019"
    and "\<not> nst_on r \<Longrightarrow> intercept_cpu0 c AND Vmcb_CPU_INVLPG \<noteq> 0"
    and "intercept_cpu0 c AND ucast force_ctrl0 = ucast force_ctrl0"
proof -
  show "npt_control c = (if nst_on r then 1 else 0)"
    by (simp add: c_def svm_set_cpu_ctrl0_def upd_vctl_def Let_def)
  show "bit (intercept_cr c) 16 \<longleftrightarrow> cr0_msk w VMCB r \<noteq> 0" "bit (intercept_cr c) 20 \<longleftrightarrow> cr4_msk w VMCB r \<noteq> 0"
    by (simp_all add: c_def svm_set_cpu_ctrl0_def upd_vctl_def Let_def)
  show "intercept_cr c = 0x190019" if "\<not> nst_on r"
    using that shadow_masks_nonzero[OF that] by (simp add: c_def svm_set_cpu_ctrl0_def upd_vctl_def Let_def)
  have "bit (ucast ((val OR 0x2000000) OR force_ctrl0) :: u32) 25" by (simp add: bit_simps)
  then show "intercept_cpu0 c AND Vmcb_CPU_INVLPG \<noteq> 0" if "\<not> nst_on r"
    using that bit_iff_and_push_bit_not_eq_0[of "intercept_cpu0 c" 25]
    by (simp add: c_def svm_set_cpu_ctrl0_def upd_vctl_def Let_def Vmcb_CPU_INVLPG_def)
  have "ucast (x OR force_ctrl0) AND ucast force_ctrl0 = (ucast force_ctrl0 :: u32)" for x
    by (rule bit_word_eqI) (auto simp: bit_simps)
  then show "intercept_cpu0 c AND ucast force_ctrl0 = ucast force_ctrl0"
    by (simp add: c_def svm_set_cpu_ctrl0_def upd_vctl_def Let_def)
qed

lemma svm_ctrl0_saves:
  "vsave (vmcb_of (svm_set_cpu_ctrl0 w v r)) = vsave (vmcb_of r)"
  "intercept_exc (vctl (vmcb_of (svm_set_cpu_ctrl0 w v r))) = intercept_exc (vctl (vmcb_of r))"
  by (simp_all add: svm_set_cpu_ctrl0_def upd_vctl_def Let_def)

lemma confined_svm_ctrl0:
  assumes "confined w VMCB r" shows "confined w VMCB (svm_set_cpu_ctrl0 w v r)"
  using assms by (simp add: confined_def Let_def svm_ctrl0_fields svm_ctrl0_saves shadow_masks_nonzero)

lemma confined_svm_sets:
  assumes "confined w VMCB r"
  shows "confined w VMCB (set_cr0 w VMCB v r)" "confined w VMCB (set_cr4 w VMCB v r)"
    "confined w VMCB (set_cr3 VMCB v r)"
proof -
  show "confined w VMCB (set_cr0 w VMCB v r)"
    using assms cr0_set_bits(1)[of r v w VMCB]
    by (simp add: confined_def Let_def shadow_masks_nonzero) (simp add: set_cr0_def vm_access shadow_masks_nonzero)
  show "confined w VMCB (set_cr4 w VMCB v r)"
    using assms cr0_set_bits(2)[of r v w VMCB]
    by (simp add: confined_def Let_def shadow_masks_nonzero) (simp add: set_cr4_def vm_access shadow_masks_nonzero)
  show "confined w VMCB (set_cr3 VMCB v r)"
    using assms by (simp add: confined_def Let_def shadow_masks_nonzero) (simp add: set_cr3_def vm_access shadow_masks_nonzero)
qed

lemma vmcb_saves:
  "vctl (vmcb_of (set_cr0 w VMCB v r)) = vctl (vmcb_of r)" "vctl (vmcb_of (set_cr4 w VMCB v r)) = vctl (vmcb_of r)"
  "vctl (vmcb_of (set_cr3 VMCB v r)) = vctl (vmcb_of r)" "vctl (vmcb_of (upd_vsave f r)) = vctl (vmcb_of r)"
  "v_cr0 (vsave (vmcb_of (set_cr4 w VMCB v r))) = v_cr0 (vsave (vmcb_of r))"
  "v_cr0 (vsave (vmcb_of (set_cr3 VMCB v r))) = v_cr0 (vsave (vmcb_of r))"
  "v_cr4 (vsave (vmcb_of (set_cr3 VMCB v r))) = v_cr4 (vsave (vmcb_of r))"
  "v_cr4 (vsave (vmcb_of (set_cr0 w VMCB v r))) = v_cr4 (vsave (vmcb_of r))"
  "v_cr3 (vsave (vmcb_of (set_cr0 w VMCB v r))) = v_cr3 (vsave (vmcb_of r))"
  "vsave (vmcb_of (set_exc VMCB r)) = vsave (vmcb_of r)"
  "vsave (vmcb_of (svm_set_cpu_ctrl1 x r)) = vsave (vmcb_of r)"
  "intercept_cr (vctl (vmcb_of (set_exc VMCB r))) = intercept_cr (vctl (vmcb_of r))"
  "intercept_cpu0 (vctl (vmcb_of (set_exc VMCB r))) = intercept_cpu0 (vctl (vmcb_of r))"
  "npt_control (vctl (vmcb_of (set_exc VMCB r))) = npt_control (vctl (vmcb_of r))"
  "intercept_cr (vctl (vmcb_of (svm_set_cpu_ctrl1 x r))) = intercept_cr (vctl (vmcb_of r))"
  "intercept_cpu0 (vctl (vmcb_of (svm_set_cpu_ctrl1 x r))) = intercept_cpu0 (vctl (vmcb_of r))"
  "npt_control (vctl (vmcb_of (svm_set_cpu_ctrl1 x r))) = npt_control (vctl (vmcb_of r))"
  "intercept_exc (vctl (vmcb_of (svm_set_cpu_ctrl1 x r))) = intercept_exc (vctl (vmcb_of r))"
  by (simp_all add: set_cr0_def set_cr4_def set_cr3_def set_exc_def svm_set_cpu_ctrl1_def vm_access)

lemma vmcb_sames:
  "\<not> nst_on r \<Longrightarrow> v_cr0 (vsave (vmcb_of (set_cr0 w VMCB v r))) AND 0x80010000 = 0x80010000"
  "\<not> nst_on r \<Longrightarrow> v_cr4 (vsave (vmcb_of (set_cr4 w VMCB v r))) AND 0x30 = 0x30"
  "\<not> nst_on r \<Longrightarrow> intercept_exc (vctl (vmcb_of (set_exc VMCB r))) AND 0x4000 \<noteq> 0"
  using cr0_set_bits[of r v w VMCB] by (simp_all add: set_cr0_def set_cr4_def set_exc_def vm_access)

lemma upd_vsave_simps:
  "nst_on (upd_vsave f r) = nst_on r" "cr0_msk w t (upd_vsave f r) = cr0_msk w t r"
  "cr4_msk w t (upd_vsave f r) = cr4_msk w t r" "vsave (vmcb_of (upd_vsave f r)) = f (vsave (vmcb_of r))"
  using masks_cong[of "upd_vsave f r" r w t] by (simp_all add: upd_vsave_def)

lemma confined_svm_nst: "confined w VMCB (nst_ctrl w VMCB on r)"
  by (simp add: confined_def Let_def vmcb_saves vmcb_sames svm_ctrl0_fields svm_ctrl0_saves
      upd_vsave_simps shadow_masks_nonzero)

lemma confined_svm_fpu: "confined w VMCB r \<Longrightarrow> confined w VMCB (fpu_ctrl w VMCB on r)"
  by (simp add: confined_def Let_def vmcb_saves vmcb_sames svm_ctrl0_fields svm_ctrl0_saves
      shadow_masks_nonzero)

lemma confined_vmcb_guest:
  assumes "confined w VMCB r" "guest_may_run VMCB r r'"
  shows "confined w VMCB r'"
proof -
  have flags: "nst_on r' = nst_on r" "fpu_on r' = fpu_on r" using assms(2) by (simp_all add: Let_def)
  show ?thesis
    using assms masks_cong[OF flags, of w VMCB] by (simp add: confined_def Let_def shadow_masks_nonzero)
qed

lemma confined_vmcb_write_cr:
  assumes "confined w VMCB r" "write_cr w VMCB cr v r = Inr r'"
  shows "confined w VMCB r'"
  using assms
  by (auto simp: write_cr_def write_cr0_def write_cr4_def Let_def confined_vmcb_frames confined_svm_sets
      split: if_splits simp del: nst_ctrl.simps write_efer.simps set_g_cr2.simps tlb_flush.simps)

text \<open>C24: guest_confined. In every state that the operations on a virtual CPU and the guest's own execution reach
  after nested paging has been configured, in any order, a guest without nested paging runs on
  the shadow page table with paging and write protection on and the exits that keep the shadow
  current enabled, and a guest with nested paging has the second-level translation enabled.\<close>
theorem guest_confined:
  assumes "vcpu_reach w t r" "cr3_exit_allowed w"
  shows "confined w t r"
  using assms(1)
proof (induction rule: vcpu_reach.induct)
  case (vr_start on r)
  then show ?case by (cases t) (simp_all only: confined_nst confined_svm_nst)
next
  case (vr_write_cr r cr val r')
  then show ?case by (cases t) (auto intro: confined_vmcs_write_cr confined_vmcb_write_cr)
next
  case (vr_efer r val)
  then show ?case by (cases t) (simp_all only: confined_vmcs_frames confined_vmcb_frames)
next
  case (vr_fpu r on)
  then show ?case by (cases t) (simp_all only: confined_fpu confined_svm_fpu)
next
  case (vr_flush r full)
  then show ?case by (cases t) (simp_all only: confined_vmcs_frames confined_vmcb_frames)
next
  case (vr_guest r r')
  then show ?case
    using assms(2) by (cases t) (auto intro: confined_vmcs_guest confined_vmcb_guest simp del: guest_may_run.simps)
qed (auto intro: confined_vmx_ctrl0 confined_vmx_ctrl1 confined_svm_ctrl0 simp: confined_vmcb_frames)

definition ex_vm_env :: vm_env where
  "ex_vm_env = \<lparr>vmx_caps = ex_vmx_static\<lparr>ctrl_cpu0_clr := 0xffffffff, ctrl_cpu1_clr := 0xa2\<rparr>,
     svm_feat = 1, vtlb_phys = 0x5000, hst_xcr = 7, hst_xss = 0,
     host_msrs = \<lparr>m_star = 1, m_lstar = 2, m_cstar = 3, m_sfmask = 4, m_kernel_gs_base = 5\<rparr>,
     tsc_now = 100\<rparr>"

definition ex_cpu_regs :: cpu_regs where
  "ex_cpu_regs = \<lparr>gpr = (\<lambda>n. of_nat n), r_err = 0, r_ip = 0x1000, r_cs = 0x2b, r_fl = 0x202, r_sp = 0x2000,
     cr0_shadow = 0, cr3_shadow = 0, cr4_shadow = 0, dst_portal = 0, nst_fault = 0, nst_error = 0,
     nst_on = False, fpu_on = False, hzd = 0, tsc_offset = 0, tsc_aux = 0, r_mtd = 0, gst_xcr = 1,
     gst_xss = 0, vmcs_of = (\<lambda>f. 0), vmcb_of = vmcb_zero,
     msr_mem = (\<lambda>a. host_msrs ex_vm_env), vapic_mem = (\<lambda>a. 0), tlb_log = []\<rparr>"

theorem guest_confined_witness:
  "\<exists>r. vcpu_reach ex_vm_env VMCS r \<and> \<not> nst_on r \<and> vmread GUEST_CR3 (vmcs_of r) = 0x5000
     \<and> guest_crs ex_vm_env VMCS r 3 = 0x7000"
proof -
  let ?r0 = "nst_ctrl ex_vm_env VMCS False ex_cpu_regs"
  obtain r where r: "write_cr ex_vm_env VMCS 3 0x7000 ?r0 = Inr r" by (simp add: write_cr_def)
  have reach: "vcpu_reach ex_vm_env VMCS r" using vr_start r by (rule vr_write_cr)
  have n: "\<not> nst_on ?r0" by (simp add: Let_def)
  then have "\<not> nst_on r" using r by (auto simp: write_cr_def simp del: nst_ctrl.simps tlb_flush.simps)
  moreover have "guest_crs ex_vm_env VMCS r 3 = 0x7000"
    using r by (auto simp: write_cr_def guest_crs_set simp del: nst_ctrl.simps tlb_flush.simps)
  moreover have "confined ex_vm_env VMCS r"
    by (rule guest_confined[OF reach])
      (simp add: cr3_exit_allowed_def ex_vm_env_def ex_vmx_static_def)
  ultimately show ?thesis using reach by (auto simp: confined_def Let_def ex_vm_env_def)
qed

end
