(* ===== verification/Utcb.thy ===== *)
theory Utcb
  imports Guest_regs
begin

text \<open>
  The message buffer of a thread (\<open>include/utcb.hpp\<close>, \<open>src/utcb.cpp\<close>) and the transfer of
  register state through it: a fault or exit loads the groups that the message transfer
  descriptor selects (\<open>include/mtd.hpp\<close>) from the thread or virtual CPU into the buffer, and the
  reply saves the groups that its sender selects.

  \<open>Utcb_data\<close> is a union of a structure with the word array \<open>mr\<close>; the model is the array, with
  the fields of the structure as word positions. Two 32-bit fields that share a word are always
  loaded together, so one word is written. The transfers are tables, one row for each \<open>if\<close>
  statement of the code in its order: the bit of the descriptor, and the words or control
  structure fields to write.
\<close>

subsection \<open>Layout\<close>

abbreviation (input) u_mtd :: nat where "u_mtd \<equiv> 0"
abbreviation (input) u_inst_len :: nat where "u_inst_len \<equiv> 1"
abbreviation (input) u_rip :: nat where "u_rip \<equiv> 2"
abbreviation (input) u_rflags :: nat where "u_rflags \<equiv> 3"
abbreviation (input) u_state :: nat where "u_state \<equiv> 4"
abbreviation (input) u_inj :: nat where "u_inj \<equiv> 5"
abbreviation (input) u_rax :: nat where "u_rax \<equiv> 6"
abbreviation (input) u_rcx :: nat where "u_rcx \<equiv> 7"
abbreviation (input) u_rdx :: nat where "u_rdx \<equiv> 8"
abbreviation (input) u_rbx :: nat where "u_rbx \<equiv> 9"
abbreviation (input) u_rsp :: nat where "u_rsp \<equiv> 10"
abbreviation (input) u_rbp :: nat where "u_rbp \<equiv> 11"
abbreviation (input) u_rsi :: nat where "u_rsi \<equiv> 12"
abbreviation (input) u_rdi :: nat where "u_rdi \<equiv> 13"
abbreviation (input) u_r8 :: nat where "u_r8 \<equiv> 14"
abbreviation (input) u_r9 :: nat where "u_r9 \<equiv> 15"
abbreviation (input) u_r10 :: nat where "u_r10 \<equiv> 16"
abbreviation (input) u_r11 :: nat where "u_r11 \<equiv> 17"
abbreviation (input) u_r12 :: nat where "u_r12 \<equiv> 18"
abbreviation (input) u_r13 :: nat where "u_r13 \<equiv> 19"
abbreviation (input) u_r14 :: nat where "u_r14 \<equiv> 20"
abbreviation (input) u_r15 :: nat where "u_r15 \<equiv> 21"
abbreviation (input) u_qual0 :: nat where "u_qual0 \<equiv> 22"
abbreviation (input) u_qual1 :: nat where "u_qual1 \<equiv> 23"
abbreviation (input) u_ctrl :: nat where "u_ctrl \<equiv> 24"
abbreviation (input) u_cr0 :: nat where "u_cr0 \<equiv> 25"
abbreviation (input) u_cr2 :: nat where "u_cr2 \<equiv> 26"
abbreviation (input) u_cr3 :: nat where "u_cr3 \<equiv> 27"
abbreviation (input) u_cr4 :: nat where "u_cr4 \<equiv> 28"
abbreviation (input) u_xcr0 :: nat where "u_xcr0 \<equiv> 29"
abbreviation (input) u_xss :: nat where "u_xss \<equiv> 30"
abbreviation (input) u_pdpte0 :: nat where "u_pdpte0 \<equiv> 31"
abbreviation (input) u_pdpte1 :: nat where "u_pdpte1 \<equiv> 32"
abbreviation (input) u_pdpte2 :: nat where "u_pdpte2 \<equiv> 33"
abbreviation (input) u_pdpte3 :: nat where "u_pdpte3 \<equiv> 34"
abbreviation (input) u_cr8 :: nat where "u_cr8 \<equiv> 35"
abbreviation (input) u_efer :: nat where "u_efer \<equiv> 36"
abbreviation (input) u_star :: nat where "u_star \<equiv> 37"
abbreviation (input) u_lstar :: nat where "u_lstar \<equiv> 38"
abbreviation (input) u_cstar :: nat where "u_cstar \<equiv> 39"
abbreviation (input) u_sfmask :: nat where "u_sfmask \<equiv> 40"
abbreviation (input) u_kernel_gs_base :: nat where "u_kernel_gs_base \<equiv> 41"
abbreviation (input) u_tpr :: nat where "u_tpr \<equiv> 42"
abbreviation (input) u_dr7 :: nat where "u_dr7 \<equiv> 43"
abbreviation (input) u_sysenter_cs :: nat where "u_sysenter_cs \<equiv> 44"
abbreviation (input) u_sysenter_rsp :: nat where "u_sysenter_rsp \<equiv> 45"
abbreviation (input) u_sysenter_rip :: nat where "u_sysenter_rip \<equiv> 46"
abbreviation (input) u_es :: nat where "u_es \<equiv> 47"
abbreviation (input) u_cs :: nat where "u_cs \<equiv> 49"
abbreviation (input) u_ss :: nat where "u_ss \<equiv> 51"
abbreviation (input) u_ds :: nat where "u_ds \<equiv> 53"
abbreviation (input) u_fs :: nat where "u_fs \<equiv> 55"
abbreviation (input) u_gs :: nat where "u_gs \<equiv> 57"
abbreviation (input) u_ld :: nat where "u_ld \<equiv> 59"
abbreviation (input) u_tr :: nat where "u_tr \<equiv> 61"
abbreviation (input) u_gd :: nat where "u_gd \<equiv> 63"
abbreviation (input) u_id :: nat where "u_id \<equiv> 65"
abbreviation (input) u_tsc_val :: nat where "u_tsc_val \<equiv> 67"
abbreviation (input) u_tsc_off :: nat where "u_tsc_off \<equiv> 68"
abbreviation (input) u_tsc_aux :: nat where "u_tsc_aux \<equiv> 69"
abbreviation (input) u_exit_value :: nat where "u_exit_value \<equiv> 70"
abbreviation (input) u_fpu :: nat where "u_fpu \<equiv> 71"

abbreviation (input) Mtd_GPR_ACDB :: mword where "Mtd_GPR_ACDB \<equiv> 0x1"
abbreviation (input) Mtd_GPR_BSD :: mword where "Mtd_GPR_BSD \<equiv> 0x2"
abbreviation (input) Mtd_RSP :: mword where "Mtd_RSP \<equiv> 0x4"
abbreviation (input) Mtd_RIP_LEN :: mword where "Mtd_RIP_LEN \<equiv> 0x8"
abbreviation (input) Mtd_RFLAGS :: mword where "Mtd_RFLAGS \<equiv> 0x10"
abbreviation (input) Mtd_DS_ES :: mword where "Mtd_DS_ES \<equiv> 0x20"
abbreviation (input) Mtd_FS_GS :: mword where "Mtd_FS_GS \<equiv> 0x40"
abbreviation (input) Mtd_CS_SS :: mword where "Mtd_CS_SS \<equiv> 0x80"
abbreviation (input) Mtd_TR :: mword where "Mtd_TR \<equiv> 0x100"
abbreviation (input) Mtd_LDTR :: mword where "Mtd_LDTR \<equiv> 0x200"
abbreviation (input) Mtd_GDTR :: mword where "Mtd_GDTR \<equiv> 0x400"
abbreviation (input) Mtd_IDTR :: mword where "Mtd_IDTR \<equiv> 0x800"
abbreviation (input) Mtd_CR :: mword where "Mtd_CR \<equiv> 0x1000"
abbreviation (input) Mtd_DR :: mword where "Mtd_DR \<equiv> 0x2000"
abbreviation (input) Mtd_SYSENTER :: mword where "Mtd_SYSENTER \<equiv> 0x4000"
abbreviation (input) Mtd_QUAL :: mword where "Mtd_QUAL \<equiv> 0x8000"
abbreviation (input) Mtd_CTRL :: mword where "Mtd_CTRL \<equiv> 0x10000"
abbreviation (input) Mtd_INJ :: mword where "Mtd_INJ \<equiv> 0x20000"
abbreviation (input) Mtd_STA :: mword where "Mtd_STA \<equiv> 0x40000"
abbreviation (input) Mtd_TSC :: mword where "Mtd_TSC \<equiv> 0x80000"
abbreviation (input) Mtd_EFER :: mword where "Mtd_EFER \<equiv> 0x100000"
abbreviation (input) Mtd_PDPTE :: mword where "Mtd_PDPTE \<equiv> 0x200000"
abbreviation (input) Mtd_GPR_R8_R15 :: mword where "Mtd_GPR_R8_R15 \<equiv> 0x400000"
abbreviation (input) Mtd_SYSCALL_SWAPGS :: mword where "Mtd_SYSCALL_SWAPGS \<equiv> 0x800000"
abbreviation (input) Mtd_TPR :: mword where "Mtd_TPR \<equiv> 0x1000000"
abbreviation (input) Mtd_TSC_AUX :: mword where "Mtd_TSC_AUX \<equiv> 0x2000000"
abbreviation (input) Mtd_XSAVE :: mword where "Mtd_XSAVE \<equiv> 0x4000000"
abbreviation (input) Mtd_FPU :: mword where "Mtd_FPU \<equiv> 0x80000000"

record utcb =
  items :: mword
  u_xlt :: mword
  u_del :: mword
  u_tls :: mword
  mr :: "nat \<Rightarrow> mword"

definition utcb_words :: nat where
  "utcb_words = 508"

definition ucnt :: "utcb \<Rightarrow> nat" where
  "ucnt u = unat (ucast (items u) :: u16)"

definition tcnt :: "utcb \<Rightarrow> nat" where
  "tcnt u = unat (ucast (drop_bit 16 (items u)) :: u16)"

definition ui :: "utcb \<Rightarrow> nat" where
  "ui u = min (utcb_words div 1) (ucnt u)"

definition ti :: "utcb \<Rightarrow> nat" where
  "ti u = min (utcb_words div 2) (tcnt u)"

definition utcb_save :: "utcb \<Rightarrow> utcb \<Rightarrow> utcb" where
  "utcb_save src dst = dst\<lparr>items := items src, mr := (\<lambda>i. if i < ui src then mr src i else mr dst i)\<rparr>"

text \<open>Halves of a word, and segments, which take two words.\<close>

definition lo_half :: "mword \<Rightarrow> u32" where "lo_half v = ucast v"
definition hi_half :: "mword \<Rightarrow> u32" where "hi_half v = ucast (drop_bit 32 v)"
definition two_halves :: "u32 \<Rightarrow> u32 \<Rightarrow> mword" where "two_halves l h = ucast l OR push_bit 32 (ucast h)"

definition set_vmx :: "mword \<Rightarrow> mword \<Rightarrow> mword \<Rightarrow> mword \<Rightarrow> utcb_segment" where
  "set_vmx s b l a =
     \<lparr>seg_sel = ucast s, seg_ar = ucast ((drop_bit 4 a AND 0x1f00) OR (a AND 0xff)),
      seg_limit = ucast l, seg_base = b\<rparr>"

definition vmx_ar :: "u16 \<Rightarrow> mword" where
  "vmx_ar ar = (push_bit 4 (ucast ar) AND 0x1f000) OR (ucast ar AND 0xff)"

definition seg_word :: "utcb_segment \<Rightarrow> mword" where
  "seg_word g = ucast (seg_sel g) OR push_bit 16 (ucast (seg_ar g)) OR push_bit 32 (ucast (seg_limit g))"

definition seg_words :: "nat \<Rightarrow> utcb_segment \<Rightarrow> (nat \<times> mword) list" where
  "seg_words i g = [(i, seg_word g), (i + 1, seg_base g)]"

definition get_seg :: "nat \<Rightarrow> utcb \<Rightarrow> utcb_segment" where
  "get_seg i u =
     \<lparr>seg_sel = ucast (mr u i), seg_ar = ucast (drop_bit 16 (mr u i)),
      seg_limit = ucast (drop_bit 32 (mr u i)), seg_base = mr u (i + 1)\<rparr>"

definition seg_fields :: "nat \<Rightarrow> nat \<Rightarrow> nat \<Rightarrow> nat \<Rightarrow> utcb_segment \<Rightarrow> (nat \<times> mword) list" where
  "seg_fields fs fb fl fa g =
     [(fs, ucast (seg_sel g)), (fb, seg_base g), (fl, ucast (seg_limit g)), (fa, vmx_ar (seg_ar g))]"

text \<open>One row of a transfer is taken when the descriptor has its bit.\<close>

type_synonym rows = "(mword \<times> (nat \<times> mword) list) list"

definition chosen :: "mword \<Rightarrow> rows \<Rightarrow> (nat \<times> mword) list" where
  "chosen m rs = concat (map (\<lambda>(b, ws). if m AND b \<noteq> 0 then ws else []) rs)"

definition put_words :: "(nat \<times> mword) list \<Rightarrow> utcb \<Rightarrow> utcb" where
  "put_words ws u = u\<lparr>mr := fold (\<lambda>(i, v) f. f(i := v)) ws (mr u)\<rparr>"

definition put_gprs :: "(nat \<times> mword) list \<Rightarrow> cpu_regs \<Rightarrow> cpu_regs" where
  "put_gprs ws r = r\<lparr>gpr := fold (\<lambda>(i, v) f. f(i := v)) ws (gpr r)\<rparr>"

definition put_vmcs :: "(nat \<times> mword) list \<Rightarrow> cpu_regs \<Rightarrow> cpu_regs" where
  "put_vmcs ws r = r\<lparr>vmcs_of := vmwrites ws (vmcs_of r)\<rparr>"

text \<open>The trailer of every load: the descriptor and the size of the message.\<close>

definition end_load :: "mword \<Rightarrow> utcb \<Rightarrow> utcb" where
  "end_load m u = u\<lparr>mr := (mr u)(u_mtd := m), items := of_nat utcb_words\<rparr>"

subsection \<open>Faults of threads\<close>

definition gpr_rows :: "mword \<Rightarrow> cpu_regs \<Rightarrow> rows" where
  "gpr_rows ax r =
     [(Mtd_GPR_ACDB, [(u_rax, ax), (u_rcx, gpr r g_cx), (u_rdx, gpr r g_dx), (u_rbx, gpr r g_bx)]),
      (Mtd_GPR_BSD, [(u_rbp, gpr r g_bp), (u_rsi, gpr r g_si), (u_rdi, gpr r g_di)]),
      (Mtd_GPR_R8_R15, [(u_r8, gpr r g_r8), (u_r9, gpr r g_r9), (u_r10, gpr r g_r10), (u_r11, gpr r g_r11),
        (u_r12, gpr r g_r12), (u_r13, gpr r g_r13), (u_r14, gpr r g_r14), (u_r15, gpr r g_r15)])]"

definition gpr_saves :: "(nat \<times> mword) list \<Rightarrow> utcb \<Rightarrow> rows" where
  "gpr_saves ax u =
     [(Mtd_GPR_ACDB, ax @ [(g_cx, mr u u_rcx), (g_dx, mr u u_rdx), (g_bx, mr u u_rbx)]),
      (Mtd_GPR_BSD, [(g_bp, mr u u_rbp), (g_si, mr u u_rsi), (g_di, mr u u_rdi)]),
      (Mtd_GPR_R8_R15, [(g_r8, mr u u_r8), (g_r9, mr u u_r9), (g_r10, mr u u_r10), (g_r11, mr u u_r11),
        (g_r12, mr u u_r12), (g_r13, mr u u_r13), (g_r14, mr u u_r14), (g_r15, mr u u_r15)])]"

definition exc_rows :: "cpu_regs \<Rightarrow> rows" where
  "exc_rows r = gpr_rows (gpr r g_ax) r @
     [(Mtd_RSP, [(u_rsp, r_sp r)]), (Mtd_RIP_LEN, [(u_rip, r_ip r)]), (Mtd_RFLAGS, [(u_rflags, r_fl r)]),
      (Mtd_QUAL, [(u_qual0, r_err r), (u_qual1, gpr r g_cr2)])]"

definition load_exc :: "cpu_regs \<Rightarrow> utcb \<Rightarrow> utcb \<times> bool" where
  "load_exc r u =
     (let m = r_mtd r;
          u = put_words (chosen m (exc_rows r)) u
      in (end_load m u, m AND Mtd_FPU \<noteq> 0))"

text \<open>The flags that a reply may not set, and the one that it may not clear.\<close>

definition EFL_kept_clear :: mword where
  "EFL_kept_clear = 0x100000 OR 0x80000 OR 0x20000 OR 0x10000 OR 0x3000"

definition EFL_IF :: mword where "EFL_IF = 0x200"

definition save_exc :: "utcb \<Rightarrow> cpu_regs \<Rightarrow> cpu_regs \<times> bool" where
  "save_exc u r =
     (let m = mr u u_mtd;
          r = put_gprs (chosen m (gpr_saves [(g_ax, mr u u_rax)] u)) r;
          r = (if m AND Mtd_RSP \<noteq> 0 then r\<lparr>r_sp := mr u u_rsp\<rparr> else r);
          r = (if m AND Mtd_RIP_LEN \<noteq> 0 then r\<lparr>r_ip := mr u u_rip\<rparr> else r);
          r = (if m AND Mtd_RFLAGS \<noteq> 0
               then r\<lparr>r_fl := (mr u u_rflags AND NOT EFL_kept_clear) OR EFL_IF\<rparr> else r)
      in (r, m AND Mtd_FPU \<noteq> 0))"

subsection \<open>Exits of virtual CPUs, Intel\<close>

definition VM_EXIT_RECALL :: mword where "VM_EXIT_RECALL = 255"
definition VM_EXIT_INVSTATE :: mword where "VM_EXIT_INVSTATE = 253"
definition VM_EXIT_NPT :: mword where "VM_EXIT_NPT = 252"

definition vmx_rows :: "vm_env \<Rightarrow> cpu_regs \<Rightarrow> rows" where
  "vmx_rows w r =
     (let rd = (\<lambda>f. vmread f (vmcs_of r));
          guest_area = msr_mem r (rd EXI_MSR_ST_ADDR);
          page = vapic_mem r (rd APIC_VIRT_ADDR)
      in gpr_rows (gpr r g_ax) r @
     [(Mtd_RSP, [(u_rsp, rd GUEST_RSP)]),
      (Mtd_RIP_LEN, [(u_rip, rd GUEST_RIP), (u_inst_len, rd EXI_INST_LEN)]),
      (Mtd_RFLAGS, [(u_rflags, rd GUEST_RFLAGS)]),
      (Mtd_DS_ES, seg_words u_ds (set_vmx (rd GUEST_SEL_DS) (rd GUEST_BASE_DS) (rd GUEST_LIMIT_DS) (rd GUEST_AR_DS))
         @ seg_words u_es (set_vmx (rd GUEST_SEL_ES) (rd GUEST_BASE_ES) (rd GUEST_LIMIT_ES) (rd GUEST_AR_ES))),
      (Mtd_FS_GS, seg_words u_fs (set_vmx (rd GUEST_SEL_FS) (rd GUEST_BASE_FS) (rd GUEST_LIMIT_FS) (rd GUEST_AR_FS))
         @ seg_words u_gs (set_vmx (rd GUEST_SEL_GS) (rd GUEST_BASE_GS) (rd GUEST_LIMIT_GS) (rd GUEST_AR_GS))),
      (Mtd_CS_SS, seg_words u_cs (set_vmx (rd GUEST_SEL_CS) (rd GUEST_BASE_CS) (rd GUEST_LIMIT_CS) (rd GUEST_AR_CS))
         @ seg_words u_ss (set_vmx (rd GUEST_SEL_SS) (rd GUEST_BASE_SS) (rd GUEST_LIMIT_SS) (rd GUEST_AR_SS))),
      (Mtd_TR, seg_words u_tr (set_vmx (rd GUEST_SEL_TR) (rd GUEST_BASE_TR) (rd GUEST_LIMIT_TR) (rd GUEST_AR_TR))),
      (Mtd_LDTR, seg_words u_ld (set_vmx (rd GUEST_SEL_LDTR) (rd GUEST_BASE_LDTR) (rd GUEST_LIMIT_LDTR) (rd GUEST_AR_LDTR))),
      (Mtd_GDTR, seg_words u_gd (set_vmx 0 (rd GUEST_BASE_GDTR) (rd GUEST_LIMIT_GDTR) 0)),
      (Mtd_IDTR, seg_words u_id (set_vmx 0 (rd GUEST_BASE_IDTR) (rd GUEST_LIMIT_IDTR) 0)),
      (Mtd_CR, [(u_cr0, get_cr0 w VMCS r), (u_cr2, get_g_cr2 VMCS r), (u_cr3, get_cr3 VMCS r),
         (u_cr4, get_cr4 w VMCS r)]),
      (Mtd_DR, [(u_dr7, rd GUEST_DR7)]),
      (Mtd_SYSENTER, [(u_sysenter_cs, rd GUEST_SYSENTER_CS), (u_sysenter_rsp, rd GUEST_SYSENTER_ESP),
         (u_sysenter_rip, rd GUEST_SYSENTER_EIP)]),
      (Mtd_QUAL, [(u_qual0, if dst_portal r = 48 then nst_error r else rd EXI_QUALIFICATION),
         (u_qual1, if dst_portal r = 48 then nst_fault r else rd INFO_PHYS_ADDR)]),
      (Mtd_INJ, [(u_inj, if dst_portal r = 33 \<or> dst_portal r = VM_EXIT_RECALL
           then two_halves (ucast (rd ENT_INTR_INFO)) (ucast (rd ENT_INTR_ERROR))
           else two_halves (ucast (rd IDT_VECT_INFO)) (ucast (rd IDT_VECT_ERROR)))]),
      (Mtd_STA, [(u_state, two_halves (ucast (rd GUEST_INTR_STATE)) (ucast (rd GUEST_ACTV_STATE)))]),
      (Mtd_TSC, [(u_tsc_val, tsc_now w), (u_tsc_off, tsc_offset r)]),
      (Mtd_TSC_AUX, [(u_tsc_aux, tsc_aux r)]),
      (Mtd_XSAVE, [(u_xcr0, gst_xcr r), (u_xss, gst_xss r)]),
      (Mtd_EFER, [(u_efer, rd GUEST_EFER)]),
      (Mtd_SYSCALL_SWAPGS, [(u_star, m_star guest_area), (u_lstar, m_lstar guest_area),
         (u_cstar, m_cstar guest_area), (u_sfmask, m_sfmask guest_area),
         (u_kernel_gs_base, m_kernel_gs_base guest_area)]),
      (Mtd_TPR, [(u_tpr, two_halves page (ucast (rd TPR_THRESHOLD)))]),
      (Mtd_PDPTE, [(u_pdpte0, rd GUEST_PDPTE0), (u_pdpte1, rd GUEST_PDPTE1),
         (u_pdpte2, rd GUEST_PDPTE2), (u_pdpte3, rd GUEST_PDPTE3)])])"

definition load_vmx :: "vm_env \<Rightarrow> cpu_regs \<Rightarrow> utcb \<Rightarrow> utcb \<times> bool" where
  "load_vmx w r u =
     (let m = r_mtd r;
          u = put_words (chosen m (vmx_rows w r)) u;
          u = u\<lparr>mr := (mr u)(u_exit_value := dst_portal r)\<rparr>
      in (end_load m u, m AND Mtd_FPU \<noteq> 0))"

definition vmx_saves1 :: "utcb \<Rightarrow> rows" where
  "vmx_saves1 u =
     [(Mtd_RSP, [(GUEST_RSP, mr u u_rsp)]),
      (Mtd_RIP_LEN, [(GUEST_RIP, mr u u_rip), (ENT_INST_LEN, mr u u_inst_len)]),
      (Mtd_RFLAGS, [(GUEST_RFLAGS, mr u u_rflags)]),
      (Mtd_DS_ES, seg_fields GUEST_SEL_DS GUEST_BASE_DS GUEST_LIMIT_DS GUEST_AR_DS (get_seg u_ds u)
         @ seg_fields GUEST_SEL_ES GUEST_BASE_ES GUEST_LIMIT_ES GUEST_AR_ES (get_seg u_es u)),
      (Mtd_FS_GS, seg_fields GUEST_SEL_FS GUEST_BASE_FS GUEST_LIMIT_FS GUEST_AR_FS (get_seg u_fs u)
         @ seg_fields GUEST_SEL_GS GUEST_BASE_GS GUEST_LIMIT_GS GUEST_AR_GS (get_seg u_gs u)),
      (Mtd_CS_SS, seg_fields GUEST_SEL_CS GUEST_BASE_CS GUEST_LIMIT_CS GUEST_AR_CS (get_seg u_cs u)
         @ seg_fields GUEST_SEL_SS GUEST_BASE_SS GUEST_LIMIT_SS GUEST_AR_SS (get_seg u_ss u)),
      (Mtd_TR, seg_fields GUEST_SEL_TR GUEST_BASE_TR GUEST_LIMIT_TR GUEST_AR_TR (get_seg u_tr u)),
      (Mtd_LDTR, seg_fields GUEST_SEL_LDTR GUEST_BASE_LDTR GUEST_LIMIT_LDTR GUEST_AR_LDTR (get_seg u_ld u)),
      (Mtd_GDTR, [(GUEST_BASE_GDTR, seg_base (get_seg u_gd u)), (GUEST_LIMIT_GDTR, ucast (seg_limit (get_seg u_gd u)))]),
      (Mtd_IDTR, [(GUEST_BASE_IDTR, seg_base (get_seg u_id u)), (GUEST_LIMIT_IDTR, ucast (seg_limit (get_seg u_id u)))])]"

definition vmx_saves2 :: "utcb \<Rightarrow> rows" where
  "vmx_saves2 u =
     [(Mtd_DR, [(GUEST_DR7, mr u u_dr7)]),
      (Mtd_SYSENTER, [(GUEST_SYSENTER_CS, mr u u_sysenter_cs), (GUEST_SYSENTER_ESP, mr u u_sysenter_rsp),
         (GUEST_SYSENTER_EIP, mr u u_sysenter_rip)])]"

text \<open>The four control registers are written in turn; the numbers are valid, so no write stops.\<close>

definition save_crs :: "vm_env \<Rightarrow> vt \<Rightarrow> utcb \<Rightarrow> cpu_regs \<Rightarrow> cpu_regs result" where
  "save_crs w t u r =
     bind_result (write_cr w t 0 (mr u u_cr0) r) (\<lambda>r.
     bind_result (write_cr w t 2 (mr u u_cr2) r) (\<lambda>r.
     bind_result (write_cr w t 3 (mr u u_cr3) r) (\<lambda>r.
     write_cr w t 4 (mr u u_cr4) r)))"

definition save_inj_vmx :: "vm_env \<Rightarrow> utcb \<Rightarrow> cpu_regs \<Rightarrow> cpu_regs" where
  "save_inj_vmx w u r =
     (let info = lo_half (mr u u_inj); err = hi_half (mr u u_inj);
          val = (ucast (vmread CPU_EXEC_CTRL0 (vmcs_of r)) :: u32);
          val = (if info AND 0x1000 \<noteq> 0 then val OR Vmcs_CPU_INTR_WINDOW
                 else val AND NOT Vmcs_CPU_INTR_WINDOW);
          val = (if info AND 0x2000 \<noteq> 0 then val OR Vmcs_CPU_NMI_WINDOW
                 else val AND NOT Vmcs_CPU_NMI_WINDOW);
          r = vmx_set_cpu_ctrl0 w (ucast val) r
      in put_vmcs [(ENT_INTR_INFO, ucast (info AND NOT 0x3000)), (ENT_INTR_ERROR, ucast err)] r)"

definition constrain_xcr :: "vm_env \<Rightarrow> u64 \<Rightarrow> u64" where
  "constrain_xcr w v =
     (let v = (if v AND 0xe0 \<noteq> 0 then v OR (0xe0 OR 0x4) else v);
          v = (if v AND 0x4 \<noteq> 0 then v OR 0x2 else v);
          v = v OR 0x1
      in hst_xcr w AND v)"

definition constrain_xss :: "vm_env \<Rightarrow> u64 \<Rightarrow> u64" where
  "constrain_xss w v = hst_xss w AND v"

definition save_xsave :: "vm_env \<Rightarrow> utcb \<Rightarrow> cpu_regs \<Rightarrow> cpu_regs" where
  "save_xsave w u r =
     r\<lparr>gst_xcr := constrain_xcr w (mr u u_xcr0), gst_xss := constrain_xss w (mr u u_xss)\<rparr>"

definition utcb_msrs :: "utcb \<Rightarrow> msr_area" where
  "utcb_msrs u = \<lparr>m_star = mr u u_star, m_lstar = mr u u_lstar, m_cstar = mr u u_cstar,
     m_sfmask = mr u u_sfmask, m_kernel_gs_base = mr u u_kernel_gs_base\<rparr>"

definition on_row :: "utcb \<Rightarrow> mword \<Rightarrow> (cpu_regs \<Rightarrow> cpu_regs) \<Rightarrow> cpu_regs \<Rightarrow> cpu_regs" where
  "on_row u b f r = (if mr u u_mtd AND b \<noteq> 0 then f r else r)"

definition save_vmx_rest :: "vm_env \<Rightarrow> utcb \<Rightarrow> cpu_regs \<Rightarrow> cpu_regs" where
  "save_vmx_rest w u r =
     (let r = put_vmcs (chosen (mr u u_mtd) (vmx_saves2 u)) r;
          r = on_row u Mtd_CTRL (\<lambda>r. vmx_set_cpu_ctrl1 w (ucast (hi_half (mr u u_ctrl)))
                (vmx_set_cpu_ctrl0 w (ucast (lo_half (mr u u_ctrl))) r)) r;
          r = on_row u Mtd_INJ (save_inj_vmx w u) r;
          r = on_row u Mtd_STA (put_vmcs [(GUEST_INTR_STATE, ucast (lo_half (mr u u_state))),
                (GUEST_ACTV_STATE, ucast (hi_half (mr u u_state)))]) r;
          r = on_row u Mtd_TSC (regs_add_tsc_offset (mr u u_tsc_off)) r;
          r = on_row u Mtd_XSAVE (save_xsave w u) r;
          r = on_row u Mtd_EFER (write_efer VMCS (mr u u_efer)) r;
          r = r\<lparr>msr_mem := (msr_mem r)(vmread EXI_MSR_LD_ADDR (vmcs_of r) := host_msrs w)\<rparr>;
          r = on_row u Mtd_SYSCALL_SWAPGS (\<lambda>r.
                r\<lparr>msr_mem := (msr_mem r)(vmread EXI_MSR_ST_ADDR (vmcs_of r) := utcb_msrs u)\<rparr>) r;
          r = on_row u Mtd_TPR (\<lambda>r. put_vmcs [(TPR_THRESHOLD, ucast (hi_half (mr u u_tpr)))]
                (r\<lparr>vapic_mem := (vapic_mem r)(vmread APIC_VIRT_ADDR (vmcs_of r) := lo_half (mr u u_tpr))\<rparr>)) r;
          r = on_row u Mtd_PDPTE (put_vmcs [(GUEST_PDPTE0, mr u u_pdpte0), (GUEST_PDPTE1, mr u u_pdpte1),
                (GUEST_PDPTE2, mr u u_pdpte2), (GUEST_PDPTE3, mr u u_pdpte3)]) r;
          r = on_row u Mtd_TSC_AUX (\<lambda>r. r\<lparr>tsc_aux := mr u u_tsc_aux\<rparr>) r
      in r\<lparr>dst_portal := VM_EXIT_RECALL\<rparr>)"

definition save_vmx :: "vm_env \<Rightarrow> utcb \<Rightarrow> cpu_regs \<Rightarrow> (cpu_regs \<times> bool) result" where
  "save_vmx w u r =
     (let m = mr u u_mtd;
          r = put_gprs (chosen m (gpr_saves [(g_ax, mr u u_rax)] u)) r;
          r = put_vmcs (chosen m (vmx_saves1 u)) r
      in bind_result (if m AND Mtd_CR \<noteq> 0 then save_crs w VMCS u r else Inr r) (\<lambda>r.
      Inr (save_vmx_rest w u r, m AND Mtd_FPU \<noteq> 0)))"

subsection \<open>Exits of virtual CPUs, AMD\<close>

definition svm_rows :: "vm_env \<Rightarrow> cpu_regs \<Rightarrow> rows" where
  "svm_rows w r =
     (let v = vmcb_of r; s = vsave v; c = vctl v in
     gpr_rows (v_rax s) r @
     [(Mtd_RSP, [(u_rsp, v_rsp s)]),
      (Mtd_RIP_LEN, [(u_rip, v_rip s)]),
      (Mtd_RFLAGS, [(u_rflags, v_rflags s)]),
      (Mtd_DS_ES, seg_words u_ds (v_ds (vseg v)) @ seg_words u_es (v_es (vseg v))),
      (Mtd_FS_GS, seg_words u_fs (v_fs (vseg v)) @ seg_words u_gs (v_gs (vseg v))),
      (Mtd_CS_SS, seg_words u_cs (v_cs (vseg v)) @ seg_words u_ss (v_ss (vseg v))),
      (Mtd_TR, seg_words u_tr (v_tr (vseg v))),
      (Mtd_LDTR, seg_words u_ld (v_ldtr (vseg v))),
      (Mtd_GDTR, seg_words u_gd (v_gdtr (vseg v))),
      (Mtd_IDTR, seg_words u_id (v_idtr (vseg v))),
      (Mtd_CR, [(u_cr0, get_cr0 w VMCB r), (u_cr2, get_g_cr2 VMCB r), (u_cr3, get_cr3 VMCB r),
         (u_cr4, get_cr4 w VMCB r)]),
      (Mtd_DR, [(u_dr7, v_dr7 s)]),
      (Mtd_SYSENTER, [(u_sysenter_cs, v_sysenter_cs s), (u_sysenter_rsp, v_sysenter_esp s),
         (u_sysenter_rip, v_sysenter_eip s)]),
      (Mtd_QUAL, [(u_qual0, if dst_portal r = VM_EXIT_NPT then nst_error r else exitinfo1 c),
         (u_qual1, if dst_portal r = VM_EXIT_NPT then nst_fault r else exitinfo2 c)]),
      (Mtd_INJ, [(u_inj, if dst_portal r = VM_EXIT_INVSTATE \<or> dst_portal r = VM_EXIT_RECALL
           then inj_control c else exitintinfo c)]),
      (Mtd_STA, [(u_state, two_halves (ucast (int_shadow c)) 0)]),
      (Mtd_TSC, [(u_tsc_val, tsc_now w), (u_tsc_off, tsc_offset r)]),
      (Mtd_TSC_AUX, [(u_tsc_aux, tsc_aux r)]),
      (Mtd_XSAVE, [(u_xcr0, gst_xcr r), (u_xss, gst_xss r)]),
      (Mtd_EFER, [(u_efer, v_efer s)]),
      (Mtd_SYSCALL_SWAPGS, [(u_star, v_star s), (u_lstar, v_lstar s), (u_cstar, v_cstar s),
         (u_sfmask, v_sfmask s), (u_kernel_gs_base, v_kernel_gs_base s)])])"

definition load_svm :: "vm_env \<Rightarrow> cpu_regs \<Rightarrow> utcb \<Rightarrow> utcb \<times> bool" where
  "load_svm w r u =
     (let m = r_mtd r;
          u = put_words (chosen m (svm_rows w r)) u;
          u = u\<lparr>mr := (mr u)(u_exit_value := dst_portal r)\<rparr>
      in (end_load m u, m AND Mtd_FPU \<noteq> 0))"

definition upd_vseg :: "(vmcb_segments \<Rightarrow> vmcb_segments) \<Rightarrow> cpu_regs \<Rightarrow> cpu_regs" where
  "upd_vseg f r = r\<lparr>vmcb_of := (vmcb_of r)\<lparr>vseg := f (vseg (vmcb_of r))\<rparr>\<rparr>"

definition save_inj_svm :: "utcb \<Rightarrow> cpu_regs \<Rightarrow> cpu_regs" where
  "save_inj_svm u r =
     (let win = push_bit 8 1 OR push_bit 20 1;
          r = (if lo_half (mr u u_inj) AND 0x1000 \<noteq> 0
               then upd_vctl (\<lambda>c. c\<lparr>int_control := int_control c OR win,
                      intercept_cpu0 := intercept_cpu0 c OR Vmcb_CPU_VINTR\<rparr>) r
               else upd_vctl (\<lambda>c. c\<lparr>int_control := int_control c AND NOT win,
                      intercept_cpu0 := intercept_cpu0 c AND NOT Vmcb_CPU_VINTR\<rparr>) r)
      in upd_vctl (inj_control_update (\<lambda>_. mr u u_inj AND NOT 0x3000)) r)"

definition save_svm_first :: "utcb \<Rightarrow> cpu_regs \<Rightarrow> cpu_regs" where
  "save_svm_first u r =
     (let r = on_row u Mtd_GPR_ACDB (upd_vsave (v_rax_update (\<lambda>_. mr u u_rax))) r;
          r = put_gprs (chosen (mr u u_mtd) (gpr_saves [] u)) r;
          r = on_row u Mtd_RSP (upd_vsave (v_rsp_update (\<lambda>_. mr u u_rsp))) r;
          r = on_row u Mtd_RIP_LEN (upd_vsave (v_rip_update (\<lambda>_. mr u u_rip))) r;
          r = on_row u Mtd_RFLAGS (upd_vsave (v_rflags_update (\<lambda>_. mr u u_rflags))) r;
          r = on_row u Mtd_DS_ES (upd_vseg (\<lambda>g. g\<lparr>v_ds := get_seg u_ds u, v_es := get_seg u_es u\<rparr>)) r;
          r = on_row u Mtd_FS_GS (upd_vseg (\<lambda>g. g\<lparr>v_fs := get_seg u_fs u, v_gs := get_seg u_gs u\<rparr>)) r;
          r = on_row u Mtd_CS_SS (upd_vseg (\<lambda>g. g\<lparr>v_cs := get_seg u_cs u, v_ss := get_seg u_ss u\<rparr>)) r;
          r = on_row u Mtd_TR (upd_vseg (v_tr_update (\<lambda>_. get_seg u_tr u))) r;
          r = on_row u Mtd_LDTR (upd_vseg (v_ldtr_update (\<lambda>_. get_seg u_ld u))) r;
          r = on_row u Mtd_GDTR (upd_vseg (v_gdtr_update (\<lambda>_. get_seg u_gd u))) r;
          r = on_row u Mtd_IDTR (upd_vseg (v_idtr_update (\<lambda>_. get_seg u_id u))) r
      in r)"

definition save_svm_rest :: "vm_env \<Rightarrow> utcb \<Rightarrow> cpu_regs \<Rightarrow> cpu_regs" where
  "save_svm_rest w u r =
     (let r = on_row u Mtd_DR (upd_vsave (v_dr7_update (\<lambda>_. mr u u_dr7))) r;
          r = on_row u Mtd_SYSENTER (upd_vsave (\<lambda>s. s\<lparr>v_sysenter_cs := mr u u_sysenter_cs,
                v_sysenter_esp := mr u u_sysenter_rsp, v_sysenter_eip := mr u u_sysenter_rip\<rparr>)) r;
          r = on_row u Mtd_CTRL (\<lambda>r. svm_set_cpu_ctrl1 (ucast (hi_half (mr u u_ctrl)))
                (svm_set_cpu_ctrl0 w (ucast (lo_half (mr u u_ctrl))) r)) r;
          r = on_row u Mtd_INJ (save_inj_svm u) r;
          r = on_row u Mtd_STA (upd_vctl (int_shadow_update (\<lambda>_. ucast (lo_half (mr u u_state))))) r;
          r = on_row u Mtd_TSC (regs_add_tsc_offset (mr u u_tsc_off)) r;
          r = on_row u Mtd_TSC_AUX (\<lambda>r. r\<lparr>tsc_aux := mr u u_tsc_aux\<rparr>) r;
          r = on_row u Mtd_XSAVE (save_xsave w u) r;
          r = on_row u Mtd_EFER (write_efer VMCB (mr u u_efer)) r;
          r = on_row u Mtd_SYSCALL_SWAPGS (upd_vsave (\<lambda>s. s\<lparr>v_star := mr u u_star, v_lstar := mr u u_lstar,
                v_cstar := mr u u_cstar, v_sfmask := mr u u_sfmask,
                v_kernel_gs_base := mr u u_kernel_gs_base\<rparr>)) r
      in r\<lparr>dst_portal := VM_EXIT_RECALL\<rparr>)"

definition save_svm :: "vm_env \<Rightarrow> utcb \<Rightarrow> cpu_regs \<Rightarrow> (cpu_regs \<times> bool) result" where
  "save_svm w u r =
     (let m = mr u u_mtd; r = save_svm_first u r
      in bind_result (if m AND Mtd_CR \<noteq> 0 then save_crs w VMCB u r else Inr r) (\<lambda>r.
         Inr (save_svm_rest w u r, m AND Mtd_FPU \<noteq> 0)))"

subsection \<open>Transfers as writes\<close>

lemma chosen_nil [simp]: "chosen m [] = []"
  and chosen_cons [simp]: "chosen m ((b, ws) # rs) = (if m AND b \<noteq> 0 then ws else []) @ chosen m rs"
  and chosen_append: "chosen m (rs @ ss) = chosen m rs @ chosen m ss"
  by (simp_all add: chosen_def)

definition rows_avoid :: "nat \<Rightarrow> rows \<Rightarrow> bool" where
  "rows_avoid g rs = list_all (\<lambda>row. list_all (\<lambda>w. fst w div 2 \<noteq> g div 2) (snd row)) rs"

lemma put_vmcs_other:
  assumes "rows_avoid g rs"
  shows "vmread g (vmcs_of (put_vmcs (chosen m rs) r)) = vmread g (vmcs_of r)"
proof -
  have "\<forall>f \<in> fst ` set (chosen m rs). f div 2 \<noteq> g div 2"
    using assms by (auto simp: chosen_def rows_avoid_def list_all_iff split: if_splits) fastforce+
  then show ?thesis
    by (simp add: put_vmcs_def vmwrites_def vmcs_store.rd_writes_other)
qed

lemma put_vmcs_other1:
  assumes "list_all (\<lambda>w. fst w div 2 \<noteq> g div 2) ws"
  shows "vmread g (vmcs_of (put_vmcs ws r)) = vmread g (vmcs_of r)"
  using assms by (simp add: put_vmcs_def vmwrites_def vmcs_store.rd_writes_other list_all_iff)

lemma put_vmcs_keeps [simp]:
  "cr0_shadow (put_vmcs ws r) = cr0_shadow r" "cr4_shadow (put_vmcs ws r) = cr4_shadow r"
  "cr3_shadow (put_vmcs ws r) = cr3_shadow r" "nst_on (put_vmcs ws r) = nst_on r"
  "fpu_on (put_vmcs ws r) = fpu_on r" "gpr (put_vmcs ws r) = gpr r"
  "vmcb_of (put_vmcs ws r) = vmcb_of r"
  by (simp_all add: put_vmcs_def)

lemma put_gprs_keeps [simp]:
  "vmcs_of (put_gprs ws r) = vmcs_of r" "vmcb_of (put_gprs ws r) = vmcb_of r"
  "cr0_shadow (put_gprs ws r) = cr0_shadow r" "cr3_shadow (put_gprs ws r) = cr3_shadow r"
  "cr4_shadow (put_gprs ws r) = cr4_shadow r" "nst_on (put_gprs ws r) = nst_on r"
  "fpu_on (put_gprs ws r) = fpu_on r"
  by (simp_all add: put_gprs_def)

subsection \<open>No reply of a monitor breaks the confinement\<close>

lemma conf_put_gprs: "conf_vmcs (put_gprs ws r) = conf_vmcs r" "conf_vmcb (put_gprs ws r) = conf_vmcb r"
  by (simp_all add: conf_vmcs_def conf_vmcb_def)

lemma saves_avoid:
  "list_all (\<lambda>g. rows_avoid g (vmx_saves1 u) \<and> rows_avoid g (vmx_saves2 u))
     [CR0_MASK, CR4_MASK, CR0_READ_SHADOW, CR4_READ_SHADOW, GUEST_CR0, GUEST_CR3, GUEST_CR4, EXC_BITMAP,
      CPU_EXEC_CTRL0, CPU_EXEC_CTRL1]"
  by (simp add: rows_avoid_def vmx_saves1_def vmx_saves2_def seg_fields_def)

lemma conf_put_vmcs:
  "conf_vmcs (put_vmcs (chosen m (vmx_saves1 u)) r) = conf_vmcs r"
  "conf_vmcs (put_vmcs (chosen m (vmx_saves2 u)) r) = conf_vmcs r"
  using saves_avoid[of u] by (simp_all add: conf_vmcs_def put_vmcs_other Let_def)

lemma conf_put_vmcs1:
  assumes "list_all (\<lambda>w. list_all (\<lambda>g. fst w div 2 \<noteq> g div 2)
    [CR0_MASK, CR4_MASK, CR0_READ_SHADOW, CR4_READ_SHADOW, GUEST_CR0, GUEST_CR3, GUEST_CR4, EXC_BITMAP,
     CPU_EXEC_CTRL0, CPU_EXEC_CTRL1]) ws"
  shows "conf_vmcs (put_vmcs ws r) = conf_vmcs r"
  using assms by (simp add: conf_vmcs_def put_vmcs_other1 list_all_iff Let_def)

lemma conf_fields:
  "conf_vmcs (regs_add_tsc_offset x r) = conf_vmcs r" "conf_vmcs (save_xsave w u r) = conf_vmcs r"
  "conf_vmcs (r\<lparr>msr_mem := mm\<rparr>) = conf_vmcs r" "conf_vmcs (r\<lparr>vapic_mem := vv\<rparr>) = conf_vmcs r"
  "conf_vmcs (r\<lparr>tsc_aux := x\<rparr>) = conf_vmcs r" "conf_vmcs (r\<lparr>dst_portal := p\<rparr>) = conf_vmcs r"
  by (simp_all add: conf_vmcs_def regs_add_tsc_offset_def regs_set_hazard_def save_xsave_def Let_def)

lemma confined_on_row:
  assumes "confined w t r" "\<And>r. confined w t r \<Longrightarrow> confined w t (f r)"
  shows "confined w t (on_row u b f r)"
  using assms by (simp add: on_row_def)

lemma confined_save_inj_vmx: "confined w VMCS r \<Longrightarrow> confined w VMCS (save_inj_vmx w u r)"
  by (simp add: save_inj_vmx_def Let_def confined_vmx_ctrl0
      confined_vmcs_cong[OF conf_put_vmcs1])

lemma confined_save_crs:
  assumes "confined w t r" "save_crs w t u r = Inr r'"
  shows "confined w t r'"
proof -
  have "confined w t r \<Longrightarrow> write_cr w t c v r = Inr r' \<Longrightarrow> confined w t r'" for c v r r'
    by (cases t) (auto intro: confined_vmcs_write_cr confined_vmcb_write_cr)
  then show ?thesis using assms by (auto simp: save_crs_def bind_result_Inr_iff) blast
qed

lemmas confined_vmx_rest = confined_vmcs_cong[OF conf_fields(1)] confined_vmcs_cong[OF conf_fields(2)]
  confined_vmcs_cong[OF conf_fields(3)] confined_vmcs_cong[OF conf_fields(4)]
  confined_vmcs_cong[OF conf_fields(5)] confined_vmcs_cong[OF conf_fields(6)]
  confined_vmcs_cong[OF conf_put_gprs(1)] confined_vmcs_cong[OF conf_put_vmcs(1)]
  confined_vmcs_cong[OF conf_put_vmcs(2)] confined_vmcs_frames

lemma confined_vmx_put1:
  "confined w VMCS r \<Longrightarrow> confined w VMCS (put_vmcs [(GUEST_INTR_STATE, a), (GUEST_ACTV_STATE, b)] r)"
  "confined w VMCS r \<Longrightarrow> confined w VMCS (put_vmcs [(TPR_THRESHOLD, a)] r)"
  "confined w VMCS r \<Longrightarrow> confined w VMCS (put_vmcs [(GUEST_PDPTE0, a), (GUEST_PDPTE1, b),
     (GUEST_PDPTE2, c), (GUEST_PDPTE3, d)] r)"
  by (simp_all add: confined_vmcs_cong[OF conf_put_vmcs1])

lemma save_vmx_rest_confined: "confined w VMCS r \<Longrightarrow> confined w VMCS (save_vmx_rest w u r)"
  unfolding save_vmx_rest_def Let_def
  by (intro confined_on_row confined_vmx_put1 confined_vmx_ctrl0 confined_vmx_ctrl1
      confined_save_inj_vmx confined_vmx_rest[THEN iffD2])

lemma save_vmx_confined:
  assumes "confined w VMCS r" "save_vmx w u r = Inr (r', f)"
  shows "confined w VMCS r'"
proof -
  let ?r1 = "put_vmcs (chosen (mr u u_mtd) (vmx_saves1 u))
    (put_gprs (chosen (mr u u_mtd) (gpr_saves [(g_ax, mr u u_rax)] u)) r)"
  have "confined w VMCS ?r1" using assms(1) by (simp add: confined_vmx_rest)
  moreover obtain r2 where "(if mr u u_mtd AND Mtd_CR \<noteq> 0 then save_crs w VMCS u ?r1 else Inr ?r1) = Inr r2"
    "r' = save_vmx_rest w u r2"
    using assms(2) by (auto simp: save_vmx_def Let_def bind_result_Inr_iff simp del: chosen_cons)
  ultimately show ?thesis
    by (auto intro: save_vmx_rest_confined confined_save_crs split: if_splits)
qed

subsection \<open>The same with a control block\<close>

lemma conf_vmcb_updates:
  "conf_vmcb (upd_vseg f r) = conf_vmcb r"
  "conf_vmcb (regs_add_tsc_offset x r) = conf_vmcb r" "conf_vmcb (save_xsave w u r) = conf_vmcb r"
  "conf_vmcb (r\<lparr>tsc_aux := x\<rparr>) = conf_vmcb r" "conf_vmcb (r\<lparr>dst_portal := p\<rparr>) = conf_vmcb r"
  "conf_vmcb (upd_vctl (int_shadow_update g) r) = conf_vmcb r"
  "conf_vmcb (upd_vsave (v_rax_update h) r) = conf_vmcb r"
  "conf_vmcb (upd_vsave (v_rsp_update h) r) = conf_vmcb r"
  "conf_vmcb (upd_vsave (v_rip_update h) r) = conf_vmcb r"
  "conf_vmcb (upd_vsave (v_rflags_update h) r) = conf_vmcb r"
  "conf_vmcb (upd_vsave (v_dr7_update h) r) = conf_vmcb r"
  "conf_vmcb (upd_vsave (\<lambda>s. s\<lparr>v_sysenter_cs := a, v_sysenter_esp := b, v_sysenter_eip := c\<rparr>) r) = conf_vmcb r"
  "conf_vmcb (upd_vsave (\<lambda>s. s\<lparr>v_star := a, v_lstar := b, v_cstar := c, v_sfmask := d,
     v_kernel_gs_base := e\<rparr>) r) = conf_vmcb r"
  by (simp_all add: conf_vmcb_def upd_vseg_def regs_add_tsc_offset_def regs_set_hazard_def save_xsave_def
      upd_vctl_def upd_vsave_def Let_def)

lemmas confined_svm_rest = conf_vmcb_updates[THEN confined_vmcb_cong] confined_vmcb_frames
  confined_vmcb_cong[OF conf_put_gprs(2)]

lemma confined_save_inj_svm: "confined w VMCB r \<Longrightarrow> confined w VMCB (save_inj_svm u r)"
proof -
  have "(x OR Vmcb_CPU_VINTR) AND Vmcb_CPU_INVLPG = x AND Vmcb_CPU_INVLPG"
    "(x AND NOT Vmcb_CPU_VINTR) AND Vmcb_CPU_INVLPG = x AND Vmcb_CPU_INVLPG" for x :: u32
    by (simp_all add: Vmcb_CPU_VINTR_def Vmcb_CPU_INVLPG_def bit.conj_disj_distrib2 and.assoc)
  moreover assume "confined w VMCB r"
  moreover have "nst_on (save_inj_svm u r) = nst_on r" "fpu_on (save_inj_svm u r) = fpu_on r"
    by (simp_all add: save_inj_svm_def upd_vctl_def Let_def)
  moreover note masks_cong[OF this, of w VMCB]
  ultimately show ?thesis
    by (simp add: confined_def Let_def) (simp add: save_inj_svm_def upd_vctl_def Let_def)
qed

lemma save_svm_first_confined: "confined w VMCB r \<Longrightarrow> confined w VMCB (save_svm_first u r)"
  unfolding save_svm_first_def Let_def by (intro confined_on_row confined_svm_rest[THEN iffD2])

lemma save_svm_rest_confined: "confined w VMCB r \<Longrightarrow> confined w VMCB (save_svm_rest w u r)"
  unfolding save_svm_rest_def Let_def
  by (intro confined_on_row confined_svm_ctrl0 confined_save_inj_svm confined_svm_rest[THEN iffD2])

lemma save_svm_confined:
  assumes "confined w VMCB r" "save_svm w u r = Inr (r', f)"
  shows "confined w VMCB r'"
proof -
  obtain r2 where "(if mr u u_mtd AND Mtd_CR \<noteq> 0 then save_crs w VMCB u (save_svm_first u r)
      else Inr (save_svm_first u r)) = Inr r2" "r' = save_svm_rest w u r2"
    using assms(2) by (auto simp: save_svm_def Let_def bind_result_Inr_iff)
  then show ?thesis using save_svm_first_confined[OF assms(1)]
    by (auto intro: save_svm_rest_confined confined_save_crs split: if_splits)
qed

lemma save_crs_total: "\<exists>r'. (if b then save_crs w t u r else Inr r) = Inr r'"
  by (simp add: save_crs_def write_cr_def)

lemma bind_total: "\<exists>x. m = Inr x \<Longrightarrow> \<exists>a b. bind_result m (\<lambda>r. Inr (f r, c)) = Inr (a, b)"
  by auto

lemma save_vmx_total: "\<exists>r' f. save_vmx w u r = Inr (r', f)"
  unfolding save_vmx_def Let_def by (rule bind_total[OF save_crs_total])

lemma save_svm_total: "\<exists>r' f. save_svm w u r = Inr (r', f)"
  unfolding save_svm_def Let_def by (rule bind_total[OF save_crs_total])

text \<open>C25: monitor_reply_confined. Whatever message a monitor sends in reply to an exit, restoring it into a confined
  virtual CPU returns and leaves the virtual CPU confined, on either processor.\<close>
theorem monitor_reply_confined:
  assumes "confined w t r"
  shows "\<exists>r' f. (case t of VMCS \<Rightarrow> save_vmx w u r | VMCB \<Rightarrow> save_svm w u r) = Inr (r', f) \<and> confined w t r'"
proof (cases t)
  case VMCS
  obtain r' f where "save_vmx w u r = Inr (r', f)" using save_vmx_total by blast
  then show ?thesis using assms save_vmx_confined VMCS by auto
next
  case VMCB
  obtain r' f where "save_svm w u r = Inr (r', f)" using save_svm_total by blast
  then show ?thesis using assms save_svm_confined VMCB by auto
qed

definition ex_utcb :: utcb where
  "ex_utcb = \<lparr>items = 508, u_xlt = 0, u_del = 0, u_tls = 0, mr = (\<lambda>i. if i = 0 then 0xffffffff else 0)\<rparr>"

theorem monitor_reply_confined_witness:
  "\<exists>r' f. save_svm ex_vm_env ex_utcb (nst_ctrl ex_vm_env VMCB False ex_cpu_regs) = Inr (r', f)
     \<and> confined ex_vm_env VMCB r' \<and> f"
proof -
  obtain r' f where r: "save_svm ex_vm_env ex_utcb (nst_ctrl ex_vm_env VMCB False ex_cpu_regs) = Inr (r', f)"
    "confined ex_vm_env VMCB r'"
    using monitor_reply_confined[OF confined_svm_nst[of ex_vm_env False ex_cpu_regs], of ex_utcb]
    unfolding vt.case by blast
  moreover have f
    using r(1) by (auto simp: save_svm_def Let_def bind_result_Inr_iff ex_utcb_def simp del: nst_ctrl.simps)
  ultimately show ?thesis by blast
qed

subsection \<open>What a load puts into the message\<close>

lemma fold_upd_value:
  assumes "distinct (map fst ws)"
  shows "fold (\<lambda>(i, v) f. f(i := v)) ws g i = (case map_of ws i of Some v \<Rightarrow> v | None \<Rightarrow> g i)"
  using assms
proof (induction ws arbitrary: g)
  case (Cons w ws)
  then show ?case
    by (cases w) (auto simp: map_of_eq_None_iff split: option.splits dest: map_of_SomeD intro: rev_image_eqI)
qed simp

definition row_keys :: "rows \<Rightarrow> nat list" where
  "row_keys rs = map fst (concat (map snd rs))"

fun lookup_row :: "nat \<Rightarrow> rows \<Rightarrow> (mword \<times> mword) option" where
  "lookup_row i [] = None"
| "lookup_row i ((b, ws) # rs) = (case map_of ws i of Some v \<Rightarrow> Some (b, v) | None \<Rightarrow> lookup_row i rs)"

lemma chosen_keys: "set (map fst (chosen m rs)) \<subseteq> set (row_keys rs)"
  by (auto simp: chosen_def row_keys_def split: if_splits) force

lemma chosen_distinct: "distinct (row_keys rs) \<Longrightarrow> distinct (map fst (chosen m rs))"
proof (induction rs)
  case (Cons row rs)
  then show ?case using chosen_keys[of m rs] by (cases row) (auto simp: row_keys_def)
qed simp

lemma chosen_lookup:
  assumes "distinct (row_keys rs)"
  shows "map_of (chosen m rs) i
    = (case lookup_row i rs of None \<Rightarrow> None | Some (b, v) \<Rightarrow> if m AND b \<noteq> 0 then Some v else None)"
  using assms
proof (induction rs)
  case (Cons row rs)
  obtain b ws where row: "row = (b, ws)" by (cases row)
  have IH: "map_of (chosen m rs) i
      = (case lookup_row i rs of None \<Rightarrow> None | Some (b, v) \<Rightarrow> if m AND b \<noteq> 0 then Some v else None)"
    using Cons by (simp add: row_keys_def)
  show ?case
  proof (cases "map_of ws i")
    case None
    then show ?thesis using IH by (simp add: row map_add_def)
  next
    case (Some v)
    then have "i \<in> fst ` set ws" by (metis map_of_eq_None_iff option.distinct(1))
    then have "i \<notin> set (row_keys rs)" using Cons.prems by (auto simp: row row_keys_def)
    then have "i \<notin> fst ` set (chosen m rs)" using chosen_keys[of m rs] by auto
    then have "map_of (chosen m rs) i = None" by (simp add: map_of_eq_None_iff)
    then show ?thesis using Some by (simp add: row map_add_def)
  qed
qed simp

lemma put_words_value:
  assumes "distinct (row_keys rs)"
  shows "mr (put_words (chosen m rs) u) i
    = (case lookup_row i rs of Some (b, v) \<Rightarrow> if m AND b \<noteq> 0 then v else mr u i | None \<Rightarrow> mr u i)"
  using fold_upd_value[OF chosen_distinct[OF assms, of m], of "mr u" i] chosen_lookup[OF assms, of m i]
  by (auto simp: put_words_def split: option.splits if_splits)

lemma exc_rows_distinct: "distinct (row_keys (exc_rows r))"
  by (simp add: row_keys_def exc_rows_def gpr_rows_def)

lemma vmx_rows_distinct: "distinct (row_keys (vmx_rows w r))"
  by (simp add: row_keys_def vmx_rows_def gpr_rows_def seg_words_def Let_def)

lemma svm_rows_distinct: "distinct (row_keys (svm_rows w r))"
  by (simp add: row_keys_def svm_rows_def gpr_rows_def seg_words_def Let_def)

subsection \<open>Faults and their replies\<close>

text \<open>exception_reply_flags. Whatever a handler puts into the message, a reply to a fault never raises the I/O
  privilege level, enters virtual-8086 mode, sets the resume or virtual-interrupt flags or
  disables interrupts in the faulting thread; the code segment is not in reach; and without the
  flags bit in the descriptor the flags stay as they are.\<close>
theorem exception_reply_flags:
  "let (r', f) = save_exc u r; m = mr u u_mtd in
     r_cs r' = r_cs r
     \<and> (if m AND Mtd_RFLAGS = 0 then r_fl r' = r_fl r
        else r_fl r' AND EFL_kept_clear = 0 \<and> r_fl r' AND EFL_IF = EFL_IF
             \<and> r_fl r' AND NOT (EFL_kept_clear OR EFL_IF) = mr u u_rflags AND NOT (EFL_kept_clear OR EFL_IF))"
proof -
  have "((x AND NOT EFL_kept_clear) OR EFL_IF) AND EFL_kept_clear = 0"
    "((x AND NOT EFL_kept_clear) OR EFL_IF) AND EFL_IF = EFL_IF"
    "((x AND NOT EFL_kept_clear) OR EFL_IF) AND NOT (EFL_kept_clear OR EFL_IF)
       = x AND NOT (EFL_kept_clear OR EFL_IF)" for x :: mword
    by (simp_all add: EFL_kept_clear_def EFL_IF_def bit.conj_disj_distrib2 and.assoc)
  then show ?thesis by (simp add: save_exc_def Let_def put_gprs_def)
qed

lemma fold_upd_same:
  assumes "list_all (\<lambda>w. snd w = g (fst w)) ws"
  shows "fold (\<lambda>(i, v) f. f(i := v)) ws g = g"
  using assms by (induction ws) auto

lemma chosen_all:
  assumes "list_all (\<lambda>row. m AND fst row \<noteq> 0 \<longrightarrow> list_all P (snd row)) rs"
  shows "list_all P (chosen m rs)"
  using assms by (induction rs) auto

text \<open>The words of a message that a load has just filled.\<close>

definition loaded :: "mword \<Rightarrow> rows \<Rightarrow> utcb \<Rightarrow> bool" where
  "loaded m rs u \<longleftrightarrow> mr u u_mtd = m \<and> (\<forall>i b v. i \<noteq> u_mtd \<longrightarrow> i \<noteq> u_exit_value
     \<longrightarrow> lookup_row i rs = Some (b, v) \<longrightarrow> m AND b \<noteq> 0 \<longrightarrow> mr u i = v)"

lemma loadedD: "loaded m rs u \<Longrightarrow> lookup_row i rs = Some (b, v) \<Longrightarrow> m AND b \<noteq> 0
    \<Longrightarrow> i \<noteq> u_mtd \<Longrightarrow> i \<noteq> u_exit_value \<Longrightarrow> mr u i = v"
  by (simp add: loaded_def)

lemma load_exc_loaded: "loaded (r_mtd r) (exc_rows r) (fst (load_exc r u))"
  by (simp add: loaded_def load_exc_def end_load_def Let_def put_words_value exc_rows_distinct)

lemma load_vmx_loaded: "loaded (r_mtd r) (vmx_rows w r) (fst (load_vmx w r u))"
  by (simp add: loaded_def load_vmx_def end_load_def Let_def put_words_value vmx_rows_distinct)

lemma load_svm_loaded: "loaded (r_mtd r) (svm_rows w r) (fst (load_svm w r u))"
  by (simp add: loaded_def load_svm_def end_load_def Let_def put_words_value svm_rows_distinct)

lemma gprs_restored:
  assumes l: "loaded m rs u" and rs: "rs = gpr_rows (gpr r g_ax) r @ rs'"
  shows "gpr (put_gprs (chosen m (gpr_saves [(g_ax, mr u u_rax)] u)) r) = gpr r"
proof -
  note d = loadedD[OF l[unfolded rs]]
  have "list_all (\<lambda>w. snd w = gpr r (fst w)) (chosen m (gpr_saves [(g_ax, mr u u_rax)] u))"
    by (rule chosen_all) (simp add: gpr_saves_def gpr_rows_def d)
  then show ?thesis by (simp add: put_gprs_def fold_upd_same)
qed

text \<open>exception_roundtrip. A handler that answers a fault with the message as it received it resumes the thread in
  exactly the state it was in, for every selection of registers, when the flags of the thread
  are ones that user code can have.\<close>
theorem exception_roundtrip:
  assumes "r_fl r AND EFL_kept_clear = 0" "r_fl r AND EFL_IF = EFL_IF"
  shows "fst (save_exc (fst (load_exc r u)) r) = r"
proof -
  let ?u = "fst (load_exc r u)"
  note l = load_exc_loaded[of r u]
  have m: "mr ?u u_mtd = r_mtd r" using l by (simp add: loaded_def)
  have v: "r_mtd r AND Mtd_RSP \<noteq> 0 \<Longrightarrow> mr ?u u_rsp = r_sp r" "r_mtd r AND Mtd_RIP_LEN \<noteq> 0 \<Longrightarrow> mr ?u u_rip = r_ip r"
    "r_mtd r AND Mtd_RFLAGS \<noteq> 0 \<Longrightarrow> mr ?u u_rflags = r_fl r"
    using loadedD[OF l] by (simp_all add: exc_rows_def gpr_rows_def)
  have g: "put_gprs (chosen (r_mtd r) (gpr_saves [(g_ax, mr ?u u_rax)] ?u)) r = r"
    using gprs_restored[OF l exc_rows_def] by (simp add: put_gprs_def)
  have "(r_fl r AND NOT EFL_kept_clear) OR EFL_IF = r_fl r"
  proof (rule bit_word_eqI)
    fix n assume "n < LENGTH(64)"
    then show "bit ((r_fl r AND NOT EFL_kept_clear) OR EFL_IF) n = bit (r_fl r) n"
      using arg_cong[OF assms(1), of "\<lambda>x. bit x n"] arg_cong[OF assms(2), of "\<lambda>x. bit x n"]
      by (auto simp: bit_simps)
  qed
  then show ?thesis using m v g by (simp add: save_exc_def Let_def)
qed

theorem exception_roundtrip_witness:
  "fst (save_exc (fst (load_exc (ex_cpu_regs\<lparr>r_mtd := 0x1f\<rparr>) ex_utcb)) (ex_cpu_regs\<lparr>r_mtd := 0x1f\<rparr>))
     = ex_cpu_regs\<lparr>r_mtd := 0x1f\<rparr>"
  by (rule exception_roundtrip) (simp_all add: ex_cpu_regs_def EFL_kept_clear_def EFL_IF_def)

subsection \<open>Segments and halves\<close>

lemma bit_small: "bit (x :: 'a :: len word) n \<Longrightarrow> n < LENGTH('a)"
  by (rule bit_imp_le_length)

lemma get_seg_pack:
  assumes "mr u i = seg_word g" "mr u (i + 1) = seg_base g"
  shows "get_seg i u = g"
proof -
  have "ucast (seg_word g) = seg_sel g" "ucast (drop_bit 16 (seg_word g)) = seg_ar g"
    "ucast (drop_bit 32 (seg_word g)) = seg_limit g"
    by (rule bit_word_eqI; auto simp: seg_word_def bit_simps dest: bit_small)+
  then show ?thesis using assms by (simp add: get_seg_def)
qed

lemma halves_of_two: "lo_half (two_halves l h) = l" "hi_half (two_halves l h) = h"
  by (rule bit_word_eqI; auto simp: lo_half_def hi_half_def two_halves_def bit_simps dest: bit_small)+

lemma narrow_wide: "take_bit 16 (v :: mword) = v \<Longrightarrow> ucast (ucast v :: u16) = v"
  "take_bit 32 (v :: mword) = v \<Longrightarrow> ucast (ucast v :: u32) = v"
proof -
  have "bit v n \<Longrightarrow> n < k" if "take_bit k v = v" for n k
    using that by (metis bit_take_bit_iff)
  then show "take_bit 16 v = v \<Longrightarrow> ucast (ucast v :: u16) = v" "take_bit 32 v = v \<Longrightarrow> ucast (ucast v :: u32) = v"
    by (auto intro!: bit_word_eqI simp: bit_ucast_iff)
qed

lemma ar_mask_bits:
  "bit (0x1f00 :: mword) n \<longleftrightarrow> 8 \<le> n \<and> n < 13" "bit (0x1f000 :: mword) n \<longleftrightarrow> 12 \<le> n \<and> n < 17"
  "bit (0xff :: mword) n \<longleftrightarrow> n < 8" "bit (0x1f0ff :: mword) n \<longleftrightarrow> n < 8 \<or> 12 \<le> n \<and> n < 17"
proof -
  have c: "(0x1f00 :: mword) = push_bit 8 (mask 5)" "(0x1f000 :: mword) = push_bit 12 (mask 5)"
    "(0xff :: mword) = mask 8" "(0x1f0ff :: mword) = push_bit 12 (mask 5) OR mask 8"
    by (simp_all add: mask_eq_exp_minus_1)
  show "bit (0x1f00 :: mword) n \<longleftrightarrow> 8 \<le> n \<and> n < 13" "bit (0x1f000 :: mword) n \<longleftrightarrow> 12 \<le> n \<and> n < 17"
    "bit (0xff :: mword) n \<longleftrightarrow> n < 8" "bit (0x1f0ff :: mword) n \<longleftrightarrow> n < 8 \<or> 12 \<le> n \<and> n < 17"
    unfolding c bit_or_iff bit_push_bit_iff bit_mask_iff by auto
qed

lemma ar_restored:
  assumes "a AND 0x1f0ff = (a :: mword)"
  shows "vmx_ar (seg_ar (set_vmx s b l a)) = a"
proof (rule bit_word_eqI)
  fix n
  have "bit a n \<Longrightarrow> n < 8 \<or> 12 \<le> n \<and> n < 17"
    using arg_cong[OF assms, of "\<lambda>x. bit x n"]
    by (auto simp: bit_and_iff ar_mask_bits simp del: bit_numeral_word_iff)
  moreover have "12 \<le> n \<Longrightarrow> 4 + (n - 4) = n" by simp
  ultimately show "bit (vmx_ar (seg_ar (set_vmx s b l a))) n = bit a n"
    unfolding vmx_ar_def set_vmx_def
    by (auto simp: bit_or_iff bit_and_iff bit_push_bit_iff bit_drop_bit_eq ar_mask_bits bit_ucast_iff
        simp del: bit_numeral_word_iff dest: bit_small)
qed

subsection \<open>A reply without changes\<close>

definition same_fields :: "nat set \<Rightarrow> cpu_regs \<Rightarrow> cpu_regs \<Rightarrow> bool" where
  "same_fields E r r' \<longleftrightarrow> (\<forall>f. even f \<longrightarrow> f \<notin> E \<longrightarrow> vmread f (vmcs_of r') = vmread f (vmcs_of r))"

lemma same_fields_trans: "same_fields E r r' \<Longrightarrow> same_fields E r' r'' \<Longrightarrow> same_fields E r r''"
  by (simp add: same_fields_def)

lemma same_fields_vmcs: "vmcs_of r' = vmcs_of r \<Longrightarrow> same_fields E r r'"
  by (simp add: same_fields_def)

text \<open>Writes that put the values back which the fields have.\<close>

definition puts_back :: "nat set \<Rightarrow> vmcs \<Rightarrow> nat \<times> mword \<Rightarrow> bool" where
  "puts_back E s x \<longleftrightarrow> even (fst x) \<and> (fst x \<in> E \<or> take_bit (vmcs_width (fst x)) (snd x) = s (fst x))"

lemma vmwrites_back:
  assumes "list_all (puts_back E s0) ws" "\<forall>f. even f \<longrightarrow> f \<notin> E \<longrightarrow> s f = s0 f"
  shows "\<forall>f. even f \<longrightarrow> f \<notin> E \<longrightarrow> vmwrites ws s f = s0 f"
  using assms
proof (induction ws arbitrary: s)
  case (Cons w ws)
  obtain f v where w: "w = (f, v)" by (cases w)
  show ?case unfolding w vmwrites_cons using Cons.prems
    by (intro Cons.IH) (auto simp: w puts_back_def vmwrite_even)
qed simp

lemma put_vmcs_back:
  assumes "list_all (puts_back E (vmcs_of r0)) ws" "same_fields E r0 r"
  shows "same_fields E r0 (put_vmcs ws r)"
  using vmwrites_back[OF assms(1), of "vmcs_of r"] assms(2)
  by (simp add: same_fields_def put_vmcs_def vmread_even)

text \<open>The segment registers of a guest hold access rights in the architectural format.\<close>

definition vmcs_canon :: "vmcs \<Rightarrow> bool" where
  "vmcs_canon s \<longleftrightarrow> vmcs_wf s \<and> list_all (\<lambda>f. s f AND 0x1f0ff = s f)
     [GUEST_AR_ES, GUEST_AR_CS, GUEST_AR_SS, GUEST_AR_DS, GUEST_AR_FS, GUEST_AR_GS, GUEST_AR_LDTR, GUEST_AR_TR]"

lemma seg_puts_back:
  assumes "vmcs_wf s" "s fa AND 0x1f0ff = s fa"
    and "vmcs_width fs = 16" "vmcs_width fb = 64" "vmcs_width fl = 32" "vmcs_width fa = 32"
    and "even fs" "even fb" "even fl" "even fa"
  shows "list_all (puts_back E s) (seg_fields fs fb fl fa (set_vmx (s fs) (s fb) (s fl) (s fa)))"
proof -
  have w: "take_bit 16 (s fs) = s fs" "take_bit 32 (s fl) = s fl" "take_bit 32 (s fa) = s fa"
    using assms(1) assms(3-) unfolding vmcs_wf_def by metis+
  then show ?thesis using assms narrow_wide[of "s fs"] narrow_wide[of "s fl"]
    by (simp add: seg_fields_def puts_back_def ar_restored) (simp add: set_vmx_def)
qed

lemma vmx_lookups1:
  "lookup_row u_rsp (vmx_rows w r) = Some (Mtd_RSP, vmread GUEST_RSP (vmcs_of r))"
  "lookup_row u_rip (vmx_rows w r) = Some (Mtd_RIP_LEN, vmread GUEST_RIP (vmcs_of r))"
  "lookup_row u_rflags (vmx_rows w r) = Some (Mtd_RFLAGS, vmread GUEST_RFLAGS (vmcs_of r))"
  "lookup_row u_ds (vmx_rows w r) = Some (Mtd_DS_ES, seg_word (set_vmx (vmread GUEST_SEL_DS (vmcs_of r)) (vmread GUEST_BASE_DS (vmcs_of r)) (vmread GUEST_LIMIT_DS (vmcs_of r)) (vmread GUEST_AR_DS (vmcs_of r))))"
  "lookup_row (Suc u_ds) (vmx_rows w r) = Some (Mtd_DS_ES, seg_base (set_vmx (vmread GUEST_SEL_DS (vmcs_of r)) (vmread GUEST_BASE_DS (vmcs_of r)) (vmread GUEST_LIMIT_DS (vmcs_of r)) (vmread GUEST_AR_DS (vmcs_of r))))"
  "lookup_row u_es (vmx_rows w r) = Some (Mtd_DS_ES, seg_word (set_vmx (vmread GUEST_SEL_ES (vmcs_of r)) (vmread GUEST_BASE_ES (vmcs_of r)) (vmread GUEST_LIMIT_ES (vmcs_of r)) (vmread GUEST_AR_ES (vmcs_of r))))"
  "lookup_row (Suc u_es) (vmx_rows w r) = Some (Mtd_DS_ES, seg_base (set_vmx (vmread GUEST_SEL_ES (vmcs_of r)) (vmread GUEST_BASE_ES (vmcs_of r)) (vmread GUEST_LIMIT_ES (vmcs_of r)) (vmread GUEST_AR_ES (vmcs_of r))))"
  "lookup_row u_fs (vmx_rows w r) = Some (Mtd_FS_GS, seg_word (set_vmx (vmread GUEST_SEL_FS (vmcs_of r)) (vmread GUEST_BASE_FS (vmcs_of r)) (vmread GUEST_LIMIT_FS (vmcs_of r)) (vmread GUEST_AR_FS (vmcs_of r))))"
  "lookup_row (Suc u_fs) (vmx_rows w r) = Some (Mtd_FS_GS, seg_base (set_vmx (vmread GUEST_SEL_FS (vmcs_of r)) (vmread GUEST_BASE_FS (vmcs_of r)) (vmread GUEST_LIMIT_FS (vmcs_of r)) (vmread GUEST_AR_FS (vmcs_of r))))"
  "lookup_row u_gs (vmx_rows w r) = Some (Mtd_FS_GS, seg_word (set_vmx (vmread GUEST_SEL_GS (vmcs_of r)) (vmread GUEST_BASE_GS (vmcs_of r)) (vmread GUEST_LIMIT_GS (vmcs_of r)) (vmread GUEST_AR_GS (vmcs_of r))))"
  "lookup_row (Suc u_gs) (vmx_rows w r) = Some (Mtd_FS_GS, seg_base (set_vmx (vmread GUEST_SEL_GS (vmcs_of r)) (vmread GUEST_BASE_GS (vmcs_of r)) (vmread GUEST_LIMIT_GS (vmcs_of r)) (vmread GUEST_AR_GS (vmcs_of r))))"
  "lookup_row u_cs (vmx_rows w r) = Some (Mtd_CS_SS, seg_word (set_vmx (vmread GUEST_SEL_CS (vmcs_of r)) (vmread GUEST_BASE_CS (vmcs_of r)) (vmread GUEST_LIMIT_CS (vmcs_of r)) (vmread GUEST_AR_CS (vmcs_of r))))"
  "lookup_row (Suc u_cs) (vmx_rows w r) = Some (Mtd_CS_SS, seg_base (set_vmx (vmread GUEST_SEL_CS (vmcs_of r)) (vmread GUEST_BASE_CS (vmcs_of r)) (vmread GUEST_LIMIT_CS (vmcs_of r)) (vmread GUEST_AR_CS (vmcs_of r))))"
  "lookup_row u_ss (vmx_rows w r) = Some (Mtd_CS_SS, seg_word (set_vmx (vmread GUEST_SEL_SS (vmcs_of r)) (vmread GUEST_BASE_SS (vmcs_of r)) (vmread GUEST_LIMIT_SS (vmcs_of r)) (vmread GUEST_AR_SS (vmcs_of r))))"
  "lookup_row (Suc u_ss) (vmx_rows w r) = Some (Mtd_CS_SS, seg_base (set_vmx (vmread GUEST_SEL_SS (vmcs_of r)) (vmread GUEST_BASE_SS (vmcs_of r)) (vmread GUEST_LIMIT_SS (vmcs_of r)) (vmread GUEST_AR_SS (vmcs_of r))))"
  "lookup_row u_tr (vmx_rows w r) = Some (Mtd_TR, seg_word (set_vmx (vmread GUEST_SEL_TR (vmcs_of r)) (vmread GUEST_BASE_TR (vmcs_of r)) (vmread GUEST_LIMIT_TR (vmcs_of r)) (vmread GUEST_AR_TR (vmcs_of r))))"
  "lookup_row (Suc u_tr) (vmx_rows w r) = Some (Mtd_TR, seg_base (set_vmx (vmread GUEST_SEL_TR (vmcs_of r)) (vmread GUEST_BASE_TR (vmcs_of r)) (vmread GUEST_LIMIT_TR (vmcs_of r)) (vmread GUEST_AR_TR (vmcs_of r))))"
  "lookup_row u_ld (vmx_rows w r) = Some (Mtd_LDTR, seg_word (set_vmx (vmread GUEST_SEL_LDTR (vmcs_of r)) (vmread GUEST_BASE_LDTR (vmcs_of r)) (vmread GUEST_LIMIT_LDTR (vmcs_of r)) (vmread GUEST_AR_LDTR (vmcs_of r))))"
  "lookup_row (Suc u_ld) (vmx_rows w r) = Some (Mtd_LDTR, seg_base (set_vmx (vmread GUEST_SEL_LDTR (vmcs_of r)) (vmread GUEST_BASE_LDTR (vmcs_of r)) (vmread GUEST_LIMIT_LDTR (vmcs_of r)) (vmread GUEST_AR_LDTR (vmcs_of r))))"
  "lookup_row u_gd (vmx_rows w r) = Some (Mtd_GDTR, seg_word (set_vmx 0 (vmread GUEST_BASE_GDTR (vmcs_of r)) (vmread GUEST_LIMIT_GDTR (vmcs_of r)) 0))"
  "lookup_row (Suc u_gd) (vmx_rows w r) = Some (Mtd_GDTR, seg_base (set_vmx 0 (vmread GUEST_BASE_GDTR (vmcs_of r)) (vmread GUEST_LIMIT_GDTR (vmcs_of r)) 0))"
  "lookup_row u_id (vmx_rows w r) = Some (Mtd_IDTR, seg_word (set_vmx 0 (vmread GUEST_BASE_IDTR (vmcs_of r)) (vmread GUEST_LIMIT_IDTR (vmcs_of r)) 0))"
  "lookup_row (Suc u_id) (vmx_rows w r) = Some (Mtd_IDTR, seg_base (set_vmx 0 (vmread GUEST_BASE_IDTR (vmcs_of r)) (vmread GUEST_LIMIT_IDTR (vmcs_of r)) 0))"
  "lookup_row u_cr0 (vmx_rows w r) = Some (Mtd_CR, get_cr0 w VMCS r)"
  "lookup_row u_cr2 (vmx_rows w r) = Some (Mtd_CR, get_g_cr2 VMCS r)"
  "lookup_row u_cr3 (vmx_rows w r) = Some (Mtd_CR, get_cr3 VMCS r)"
  "lookup_row u_cr4 (vmx_rows w r) = Some (Mtd_CR, get_cr4 w VMCS r)"
  "lookup_row u_dr7 (vmx_rows w r) = Some (Mtd_DR, vmread GUEST_DR7 (vmcs_of r))"
  "lookup_row u_sysenter_cs (vmx_rows w r) = Some (Mtd_SYSENTER, vmread GUEST_SYSENTER_CS (vmcs_of r))"
  "lookup_row u_sysenter_rsp (vmx_rows w r) = Some (Mtd_SYSENTER, vmread GUEST_SYSENTER_ESP (vmcs_of r))"
  "lookup_row u_sysenter_rip (vmx_rows w r) = Some (Mtd_SYSENTER, vmread GUEST_SYSENTER_EIP (vmcs_of r))"
  unfolding vmx_rows_def gpr_rows_def seg_words_def Let_def by simp_all

lemma vmx_lookups2:
  "lookup_row u_state (vmx_rows w r) = Some (Mtd_STA, two_halves (ucast (vmread GUEST_INTR_STATE (vmcs_of r))) (ucast (vmread GUEST_ACTV_STATE (vmcs_of r))))"
  "lookup_row u_tsc_aux (vmx_rows w r) = Some (Mtd_TSC_AUX, tsc_aux r)"
  "lookup_row u_efer (vmx_rows w r) = Some (Mtd_EFER, vmread GUEST_EFER (vmcs_of r))"
  "lookup_row u_star (vmx_rows w r) = Some (Mtd_SYSCALL_SWAPGS, m_star (msr_mem r (vmread EXI_MSR_ST_ADDR (vmcs_of r))))"
  "lookup_row u_lstar (vmx_rows w r) = Some (Mtd_SYSCALL_SWAPGS, m_lstar (msr_mem r (vmread EXI_MSR_ST_ADDR (vmcs_of r))))"
  "lookup_row u_cstar (vmx_rows w r) = Some (Mtd_SYSCALL_SWAPGS, m_cstar (msr_mem r (vmread EXI_MSR_ST_ADDR (vmcs_of r))))"
  "lookup_row u_sfmask (vmx_rows w r) = Some (Mtd_SYSCALL_SWAPGS, m_sfmask (msr_mem r (vmread EXI_MSR_ST_ADDR (vmcs_of r))))"
  "lookup_row u_kernel_gs_base (vmx_rows w r) = Some (Mtd_SYSCALL_SWAPGS, m_kernel_gs_base (msr_mem r (vmread EXI_MSR_ST_ADDR (vmcs_of r))))"
  "lookup_row u_tpr (vmx_rows w r) = Some (Mtd_TPR, two_halves (vapic_mem r (vmread APIC_VIRT_ADDR (vmcs_of r))) (ucast (vmread TPR_THRESHOLD (vmcs_of r))))"
  "lookup_row u_pdpte0 (vmx_rows w r) = Some (Mtd_PDPTE, vmread GUEST_PDPTE0 (vmcs_of r))"
  "lookup_row u_pdpte1 (vmx_rows w r) = Some (Mtd_PDPTE, vmread GUEST_PDPTE1 (vmcs_of r))"
  "lookup_row u_pdpte2 (vmx_rows w r) = Some (Mtd_PDPTE, vmread GUEST_PDPTE2 (vmcs_of r))"
  "lookup_row u_pdpte3 (vmx_rows w r) = Some (Mtd_PDPTE, vmread GUEST_PDPTE3 (vmcs_of r))"
  unfolding vmx_rows_def gpr_rows_def seg_words_def Let_def
  by simp_all

lemma seg_loaded:
  assumes "loaded m rs u" "lookup_row i rs = Some (b, seg_word g)" "lookup_row (Suc i) rs = Some (b, seg_base g)"
    "m AND b \<noteq> 0" "0 < i" "i < 69"
  shows "get_seg i u = g"
  using assms loadedD[OF assms(1,2,4)] loadedD[OF assms(1,3,4)] by (intro get_seg_pack) simp_all

lemma vmx_segs_loaded:
  assumes "loaded m (vmx_rows w r) u"
  shows "m AND Mtd_DS_ES \<noteq> 0 \<Longrightarrow> get_seg u_ds u = set_vmx (vmread GUEST_SEL_DS (vmcs_of r)) (vmread GUEST_BASE_DS (vmcs_of r)) (vmread GUEST_LIMIT_DS (vmcs_of r)) (vmread GUEST_AR_DS (vmcs_of r))"
    "m AND Mtd_DS_ES \<noteq> 0 \<Longrightarrow> get_seg u_es u = set_vmx (vmread GUEST_SEL_ES (vmcs_of r)) (vmread GUEST_BASE_ES (vmcs_of r)) (vmread GUEST_LIMIT_ES (vmcs_of r)) (vmread GUEST_AR_ES (vmcs_of r))"
    "m AND Mtd_FS_GS \<noteq> 0 \<Longrightarrow> get_seg u_fs u = set_vmx (vmread GUEST_SEL_FS (vmcs_of r)) (vmread GUEST_BASE_FS (vmcs_of r)) (vmread GUEST_LIMIT_FS (vmcs_of r)) (vmread GUEST_AR_FS (vmcs_of r))"
    "m AND Mtd_FS_GS \<noteq> 0 \<Longrightarrow> get_seg u_gs u = set_vmx (vmread GUEST_SEL_GS (vmcs_of r)) (vmread GUEST_BASE_GS (vmcs_of r)) (vmread GUEST_LIMIT_GS (vmcs_of r)) (vmread GUEST_AR_GS (vmcs_of r))"
    "m AND Mtd_CS_SS \<noteq> 0 \<Longrightarrow> get_seg u_cs u = set_vmx (vmread GUEST_SEL_CS (vmcs_of r)) (vmread GUEST_BASE_CS (vmcs_of r)) (vmread GUEST_LIMIT_CS (vmcs_of r)) (vmread GUEST_AR_CS (vmcs_of r))"
    "m AND Mtd_CS_SS \<noteq> 0 \<Longrightarrow> get_seg u_ss u = set_vmx (vmread GUEST_SEL_SS (vmcs_of r)) (vmread GUEST_BASE_SS (vmcs_of r)) (vmread GUEST_LIMIT_SS (vmcs_of r)) (vmread GUEST_AR_SS (vmcs_of r))"
    "m AND Mtd_TR \<noteq> 0 \<Longrightarrow> get_seg u_tr u = set_vmx (vmread GUEST_SEL_TR (vmcs_of r)) (vmread GUEST_BASE_TR (vmcs_of r)) (vmread GUEST_LIMIT_TR (vmcs_of r)) (vmread GUEST_AR_TR (vmcs_of r))"
    "m AND Mtd_LDTR \<noteq> 0 \<Longrightarrow> get_seg u_ld u = set_vmx (vmread GUEST_SEL_LDTR (vmcs_of r)) (vmread GUEST_BASE_LDTR (vmcs_of r)) (vmread GUEST_LIMIT_LDTR (vmcs_of r)) (vmread GUEST_AR_LDTR (vmcs_of r))"
    "m AND Mtd_GDTR \<noteq> 0 \<Longrightarrow> get_seg u_gd u = set_vmx 0 (vmread GUEST_BASE_GDTR (vmcs_of r)) (vmread GUEST_LIMIT_GDTR (vmcs_of r)) 0"
    "m AND Mtd_IDTR \<noteq> 0 \<Longrightarrow> get_seg u_id u = set_vmx 0 (vmread GUEST_BASE_IDTR (vmcs_of r)) (vmread GUEST_LIMIT_IDTR (vmcs_of r)) 0"
  by (rule seg_loaded[OF assms]; (rule vmx_lookups1 | simp))+

definition reply_scratch :: "nat set" where
  "reply_scratch = {ENT_INST_LEN, GUEST_CR0, GUEST_CR3, GUEST_CR4, CR0_READ_SHADOW, CR4_READ_SHADOW, ENT_CONTROLS}"

lemma wf_take: "vmcs_wf s \<Longrightarrow> even f \<Longrightarrow> take_bit (vmcs_width f) (s f) = s f"
  by (simp add: vmcs_wf_def)

lemma vmx_back1:
  assumes l: "loaded m (vmx_rows w r) u" and c: "vmcs_canon (vmcs_of r)"
  shows "list_all (puts_back reply_scratch (vmcs_of r)) (chosen m (vmx_saves1 u))"
proof (rule chosen_all)
  note d = loadedD[OF l]
  have wf: "vmcs_wf (vmcs_of r)" using c by (simp add: vmcs_canon_def)
  have ar: "vmcs_of r GUEST_AR_DS AND 0x1f0ff = vmcs_of r GUEST_AR_DS" "vmcs_of r GUEST_AR_ES AND 0x1f0ff = vmcs_of r GUEST_AR_ES" "vmcs_of r GUEST_AR_FS AND 0x1f0ff = vmcs_of r GUEST_AR_FS" "vmcs_of r GUEST_AR_GS AND 0x1f0ff = vmcs_of r GUEST_AR_GS" "vmcs_of r GUEST_AR_CS AND 0x1f0ff = vmcs_of r GUEST_AR_CS" "vmcs_of r GUEST_AR_SS AND 0x1f0ff = vmcs_of r GUEST_AR_SS" "vmcs_of r GUEST_AR_TR AND 0x1f0ff = vmcs_of r GUEST_AR_TR" "vmcs_of r GUEST_AR_LDTR AND 0x1f0ff = vmcs_of r GUEST_AR_LDTR"
    using c by (simp_all add: vmcs_canon_def)
  have v: "m AND Mtd_RSP \<noteq> 0 \<Longrightarrow> mr u u_rsp = vmcs_of r GUEST_RSP" "m AND Mtd_RIP_LEN \<noteq> 0 \<Longrightarrow> mr u u_rip = vmcs_of r GUEST_RIP"
    "m AND Mtd_RFLAGS \<noteq> 0 \<Longrightarrow> mr u u_rflags = vmcs_of r GUEST_RFLAGS"
    using d vmx_lookups1 by (simp_all add: vmread_even)
  have seg: "list_all (puts_back reply_scratch (vmcs_of r)) (seg_fields GUEST_SEL_DS GUEST_BASE_DS GUEST_LIMIT_DS GUEST_AR_DS
       (set_vmx (vmcs_of r GUEST_SEL_DS) (vmcs_of r GUEST_BASE_DS) (vmcs_of r GUEST_LIMIT_DS) (vmcs_of r GUEST_AR_DS)))"
    "list_all (puts_back reply_scratch (vmcs_of r)) (seg_fields GUEST_SEL_ES GUEST_BASE_ES GUEST_LIMIT_ES GUEST_AR_ES
       (set_vmx (vmcs_of r GUEST_SEL_ES) (vmcs_of r GUEST_BASE_ES) (vmcs_of r GUEST_LIMIT_ES) (vmcs_of r GUEST_AR_ES)))"
    "list_all (puts_back reply_scratch (vmcs_of r)) (seg_fields GUEST_SEL_FS GUEST_BASE_FS GUEST_LIMIT_FS GUEST_AR_FS
       (set_vmx (vmcs_of r GUEST_SEL_FS) (vmcs_of r GUEST_BASE_FS) (vmcs_of r GUEST_LIMIT_FS) (vmcs_of r GUEST_AR_FS)))"
    "list_all (puts_back reply_scratch (vmcs_of r)) (seg_fields GUEST_SEL_GS GUEST_BASE_GS GUEST_LIMIT_GS GUEST_AR_GS
       (set_vmx (vmcs_of r GUEST_SEL_GS) (vmcs_of r GUEST_BASE_GS) (vmcs_of r GUEST_LIMIT_GS) (vmcs_of r GUEST_AR_GS)))"
    "list_all (puts_back reply_scratch (vmcs_of r)) (seg_fields GUEST_SEL_CS GUEST_BASE_CS GUEST_LIMIT_CS GUEST_AR_CS
       (set_vmx (vmcs_of r GUEST_SEL_CS) (vmcs_of r GUEST_BASE_CS) (vmcs_of r GUEST_LIMIT_CS) (vmcs_of r GUEST_AR_CS)))"
    "list_all (puts_back reply_scratch (vmcs_of r)) (seg_fields GUEST_SEL_SS GUEST_BASE_SS GUEST_LIMIT_SS GUEST_AR_SS
       (set_vmx (vmcs_of r GUEST_SEL_SS) (vmcs_of r GUEST_BASE_SS) (vmcs_of r GUEST_LIMIT_SS) (vmcs_of r GUEST_AR_SS)))"
    "list_all (puts_back reply_scratch (vmcs_of r)) (seg_fields GUEST_SEL_TR GUEST_BASE_TR GUEST_LIMIT_TR GUEST_AR_TR
       (set_vmx (vmcs_of r GUEST_SEL_TR) (vmcs_of r GUEST_BASE_TR) (vmcs_of r GUEST_LIMIT_TR) (vmcs_of r GUEST_AR_TR)))"
    "list_all (puts_back reply_scratch (vmcs_of r)) (seg_fields GUEST_SEL_LDTR GUEST_BASE_LDTR GUEST_LIMIT_LDTR GUEST_AR_LDTR
       (set_vmx (vmcs_of r GUEST_SEL_LDTR) (vmcs_of r GUEST_BASE_LDTR) (vmcs_of r GUEST_LIMIT_LDTR) (vmcs_of r GUEST_AR_LDTR)))"
    by (rule seg_puts_back[OF wf]; (rule ar | simp add: vmcs_width_def Let_def))+
  have lim: "take_bit 32 (vmcs_of r GUEST_LIMIT_GDTR) = vmcs_of r GUEST_LIMIT_GDTR"
    "take_bit 32 (vmcs_of r GUEST_LIMIT_IDTR) = vmcs_of r GUEST_LIMIT_IDTR"
    using wf_take[OF wf, of GUEST_LIMIT_GDTR] wf_take[OF wf, of GUEST_LIMIT_IDTR]
    by (simp_all add: vmcs_width_def Let_def)
  have dt: "puts_back reply_scratch (vmcs_of r) (GUEST_BASE_GDTR, vmcs_of r GUEST_BASE_GDTR)"
    "puts_back reply_scratch (vmcs_of r) (GUEST_BASE_IDTR, vmcs_of r GUEST_BASE_IDTR)"
    "puts_back reply_scratch (vmcs_of r) (GUEST_LIMIT_GDTR, ucast (ucast (vmcs_of r GUEST_LIMIT_GDTR) :: u32))"
    "puts_back reply_scratch (vmcs_of r) (GUEST_LIMIT_IDTR, ucast (ucast (vmcs_of r GUEST_LIMIT_IDTR) :: u32))"
    "puts_back reply_scratch (vmcs_of r) (GUEST_RSP, vmcs_of r GUEST_RSP)"
    "puts_back reply_scratch (vmcs_of r) (GUEST_RIP, vmcs_of r GUEST_RIP)"
    "puts_back reply_scratch (vmcs_of r) (GUEST_RFLAGS, vmcs_of r GUEST_RFLAGS)"
    "puts_back reply_scratch (vmcs_of r) (ENT_INST_LEN, x)" for x
    using lim by (simp_all add: puts_back_def vmcs_width_def Let_def narrow_wide reply_scratch_def)
  have f: "seg_base (set_vmx s b l a) = b" "seg_limit (set_vmx s b l a) = ucast l" for s b l a
    by (simp_all add: set_vmx_def)
  show "list_all (\<lambda>row. m AND fst row \<noteq> 0 \<longrightarrow> list_all (puts_back reply_scratch (vmcs_of r)) (snd row)) (vmx_saves1 u)"
    unfolding vmx_saves1_def
    by (simp add: vmx_segs_loaded[OF l] vmread_even seg dt f v)
qed

lemma vmx_back2:
  assumes l: "loaded m (vmx_rows w r) u" and c: "vmcs_canon (vmcs_of r)"
  shows "list_all (puts_back reply_scratch (vmcs_of r)) (chosen m (vmx_saves2 u))"
proof (rule chosen_all)
  have "m AND Mtd_DR \<noteq> 0 \<Longrightarrow> mr u u_dr7 = vmcs_of r GUEST_DR7"
    "m AND Mtd_SYSENTER \<noteq> 0 \<Longrightarrow> mr u u_sysenter_cs = vmcs_of r GUEST_SYSENTER_CS"
    "m AND Mtd_SYSENTER \<noteq> 0 \<Longrightarrow> mr u u_sysenter_rsp = vmcs_of r GUEST_SYSENTER_ESP"
    "m AND Mtd_SYSENTER \<noteq> 0 \<Longrightarrow> mr u u_sysenter_rip = vmcs_of r GUEST_SYSENTER_EIP"
    using loadedD[OF l] vmx_lookups1 by (simp_all add: vmread_even)
  moreover have "take_bit 32 (vmcs_of r GUEST_SYSENTER_CS) = vmcs_of r GUEST_SYSENTER_CS"
    using c wf_take[of "vmcs_of r" GUEST_SYSENTER_CS] by (simp add: vmcs_canon_def vmcs_width_def Let_def)
  ultimately show "list_all (\<lambda>row. m AND fst row \<noteq> 0
      \<longrightarrow> list_all (puts_back reply_scratch (vmcs_of r)) (snd row)) (vmx_saves2 u)"
    by (simp add: vmx_saves2_def puts_back_def vmcs_width_def Let_def)
qed

lemma vmx_back3:
  assumes l: "loaded m (vmx_rows w r) u" and c: "vmcs_canon (vmcs_of r)"
  shows "m AND Mtd_STA \<noteq> 0 \<Longrightarrow> list_all (puts_back reply_scratch (vmcs_of r))
      [(GUEST_INTR_STATE, ucast (lo_half (mr u u_state))), (GUEST_ACTV_STATE, ucast (hi_half (mr u u_state)))]"
    "m AND Mtd_TPR \<noteq> 0 \<Longrightarrow> list_all (puts_back reply_scratch (vmcs_of r))
      [(TPR_THRESHOLD, ucast (hi_half (mr u u_tpr)))]"
    "m AND Mtd_PDPTE \<noteq> 0 \<Longrightarrow> list_all (puts_back reply_scratch (vmcs_of r))
      [(GUEST_PDPTE0, mr u u_pdpte0), (GUEST_PDPTE1, mr u u_pdpte1), (GUEST_PDPTE2, mr u u_pdpte2),
       (GUEST_PDPTE3, mr u u_pdpte3)]"
proof -
  have wf: "vmcs_wf (vmcs_of r)" using c by (simp add: vmcs_canon_def)
  have t: "take_bit 32 (vmcs_of r f) = vmcs_of r f" if "f \<in> {GUEST_INTR_STATE, GUEST_ACTV_STATE, TPR_THRESHOLD}" for f
    using that wf_take[OF wf, of f] by (auto simp: vmcs_width_def Let_def)
  note v = loadedD[OF l] vmx_lookups2
  show "m AND Mtd_STA \<noteq> 0 \<Longrightarrow> list_all (puts_back reply_scratch (vmcs_of r))
      [(GUEST_INTR_STATE, ucast (lo_half (mr u u_state))), (GUEST_ACTV_STATE, ucast (hi_half (mr u u_state)))]"
    using t by (simp add: v puts_back_def vmcs_width_def Let_def halves_of_two vmread_even narrow_wide)
  show "m AND Mtd_TPR \<noteq> 0 \<Longrightarrow> list_all (puts_back reply_scratch (vmcs_of r))
      [(TPR_THRESHOLD, ucast (hi_half (mr u u_tpr)))]"
    using t by (simp add: v puts_back_def vmcs_width_def Let_def halves_of_two vmread_even narrow_wide)
  show "m AND Mtd_PDPTE \<noteq> 0 \<Longrightarrow> list_all (puts_back reply_scratch (vmcs_of r))
      [(GUEST_PDPTE0, mr u u_pdpte0), (GUEST_PDPTE1, mr u u_pdpte1), (GUEST_PDPTE2, mr u u_pdpte2),
       (GUEST_PDPTE3, mr u u_pdpte3)]"
    by (simp add: v puts_back_def vmcs_width_def Let_def vmread_even)
qed

lemma scratch_halves:
  assumes "even f" "f \<notin> reply_scratch"
  shows "f div 2 \<noteq> 0x3400" "f div 2 \<noteq> 0x3401" "f div 2 \<noteq> 0x3402" "f div 2 \<noteq> 0x3002" "f div 2 \<noteq> 0x3003"
    "f div 2 \<noteq> 0x2009"
  using assms by (auto simp: reply_scratch_def dest!: dvd_div_mult_self)

lemma write_cr_same:
  "get_cr0 w t r = v \<Longrightarrow> write_cr0 w t v r = set_cr0 w t v r"
  "get_cr4 w t r = v \<Longrightarrow> write_cr4 w t v r = set_cr4 w t v r"
  by (simp_all add: write_cr0_def write_cr4_def)

definition vm_rest :: "cpu_regs \<Rightarrow> u64 \<times> u64 \<times> (mword \<Rightarrow> msr_area) \<times> (mword \<Rightarrow> u32)" where
  "vm_rest r = (tsc_offset r, tsc_aux r, msr_mem r, vapic_mem r)"

lemma vm_rest_sets:
  "vm_rest (set_cr0 w VMCS v r) = vm_rest r" "gpr (set_cr0 w VMCS v r) = gpr r"
  "vm_rest (set_cr3 VMCS v r) = vm_rest r" "gpr (set_cr3 VMCS v r) = gpr r"
  "vm_rest (set_cr4 w VMCS v r) = vm_rest r" "gpr (set_cr4 w VMCS v r) = gpr r"
  "vm_rest (tlb_flush w VMCS b r) = vm_rest r" "gpr (tlb_flush w VMCS b r) = gpr r"
  "vm_rest (put_vmcs ws r) = vm_rest r" "vm_rest (put_gprs ws r) = vm_rest r"
  "vm_rest (write_efer VMCS v r) = vm_rest r" "gpr (write_efer VMCS v r) = gpr r"
  by (simp_all add: vm_rest_def set_cr0_def set_cr3_def set_cr4_def set_vmcs_def put_vmcs_def
      put_gprs_def Let_def)

lemma same_fields_sets:
  "same_fields reply_scratch r (set_cr0 w VMCS v r)" "same_fields reply_scratch r (set_cr3 VMCS v r)"
  "same_fields reply_scratch r (set_cr4 w VMCS v r)" "same_fields reply_scratch r (tlb_flush w VMCS b r)"
  "same_fields reply_scratch r (set_g_cr2 VMCS v r)"
  using scratch_halves by (auto simp: same_fields_def vmcs_others Let_def)

lemmas same_fields_step = same_fields_sets[THEN same_fields_trans[rotated]]

lemma guest_crs_at: "guest_crs w t r 0 = get_cr0 w t r" "guest_crs w t r 2 = get_g_cr2 t r"
  "guest_crs w t r 3 = get_cr3 t r" "guest_crs w t r 4 = get_cr4 w t r"
  by (simp_all add: guest_crs_def)

lemma save_crs_same:
  assumes v: "mr u u_cr0 = get_cr0 w VMCS r" "mr u u_cr2 = get_g_cr2 VMCS r" "mr u u_cr3 = get_cr3 VMCS r"
    "mr u u_cr4 = get_cr4 w VMCS r"
  shows "\<exists>r'. save_crs w VMCS u r = Inr r' \<and> same_fields reply_scratch r r' \<and> vm_rest r' = vm_rest r
    \<and> gpr r' = gpr r \<and> guest_crs w VMCS r' = guest_crs w VMCS r"
proof -
  let ?r1 = "set_cr0 w VMCS (mr u u_cr0) r"
  let ?r2 = "set_g_cr2 VMCS (mr u u_cr2) ?r1"
  let ?r3 = "set_cr3 VMCS (mr u u_cr3) (if \<not> nst_on ?r2 then tlb_flush w VMCS False ?r2 else ?r2)"
  let ?r4 = "set_cr4 w VMCS (mr u u_cr4) ?r3"
  have view: "guest_crs w VMCS ?r3 = guest_crs w VMCS r"
    by (simp add: guest_crs_set guest_crs_frames v del: set_g_cr2.simps tlb_flush.simps)
      (simp add: guest_crs_def fun_eq_iff)
  have "get_cr4 w VMCS ?r3 = get_cr4 w VMCS r"
    using fun_cong[OF view, of 4] unfolding guest_crs_at .
  then have "get_cr4 w VMCS ?r3 = mr u u_cr4" unfolding v(4) .
  then have w4: "write_cr4 w VMCS (mr u u_cr4) ?r3 = ?r4" by (rule write_cr_same(2))
  have w0: "write_cr0 w VMCS (mr u u_cr0) r = ?r1" by (rule write_cr_same(1)) (simp add: v(1))
  have "save_crs w VMCS u r = Inr (write_cr4 w VMCS (mr u u_cr4) ?r3)"
    by (simp add: save_crs_def write_cr_def w0 del: set_g_cr2.simps tlb_flush.simps)
  then have s: "save_crs w VMCS u r = Inr ?r4" unfolding w4 .
  have "guest_crs w VMCS ?r4 = guest_crs w VMCS r"
    unfolding guest_crs_set(2) view v(4) by (simp add: guest_crs_def fun_eq_iff)
  moreover have "gpr ?r4 = gpr r" "vm_rest ?r4 = vm_rest r"
    using v(2) by (simp_all add: vm_rest_sets del: tlb_flush.simps) (simp_all add: vm_rest_def set_cr0_def set_vmcs_def)
  moreover have "same_fields reply_scratch r ?r4"
    by (auto intro!: same_fields_step simp: same_fields_vmcs simp del: set_g_cr2.simps tlb_flush.simps)
  ultimately show ?thesis using s by blast
qed

lemma write_efer_same:
  assumes "same_fields reply_scratch r r1" "v = vmread GUEST_EFER (vmcs_of r)"
  shows "same_fields reply_scratch r (write_efer VMCS v r1)"
proof -
  have "vmread f (vmcs_of (write_efer VMCS v r1)) = vmread f (vmcs_of r1)" if "even f" "f \<notin> reply_scratch" for f
  proof (cases "f = GUEST_EFER")
    case True
    then show ?thesis using assms that by (simp add: Let_def vm_access same_fields_def)
  next
    case False
    then have "f div 2 \<noteq> GUEST_EFER div 2" using half_eq[of f GUEST_EFER] that(1) by auto
    then show ?thesis using scratch_halves(6)[OF that] by (simp add: Let_def vm_access)
  qed
  then show ?thesis using assms(1) by (simp add: same_fields_def)
qed

lemma on_row_same:
  "same_fields E r r1 \<Longrightarrow> (mr u u_mtd AND b \<noteq> 0 \<Longrightarrow> same_fields E r r1 \<Longrightarrow> same_fields E r (f r1))
     \<Longrightarrow> same_fields E r (on_row u b f r1)"
  by (simp add: on_row_def)

lemma rest_same:
  assumes l: "loaded m (vmx_rows w r) u" and c: "vmcs_canon (vmcs_of r)" and s: "same_fields reply_scratch r r1"
    and m: "m AND Mtd_CTRL = 0" "m AND Mtd_INJ = 0" "m AND Mtd_TSC = 0"
  shows "same_fields reply_scratch r (save_vmx_rest w u r1)"
proof -
  have mtd: "mr u u_mtd = m" using l by (simp add: loaded_def)
  have e: "mr u u_mtd AND Mtd_EFER \<noteq> 0 \<Longrightarrow> mr u u_efer = vmread GUEST_EFER (vmcs_of r)"
    using loadedD[OF l] vmx_lookups2 mtd by simp
  have st: "same_fields reply_scratch r r2 \<Longrightarrow> same_fields reply_scratch r (r2\<lparr>msr_mem := mm\<rparr>)"
    "same_fields reply_scratch r r2 \<Longrightarrow> same_fields reply_scratch r (r2\<lparr>vapic_mem := vv\<rparr>)"
    "same_fields reply_scratch r r2 \<Longrightarrow> same_fields reply_scratch r (r2\<lparr>tsc_aux := x\<rparr>)"
    "same_fields reply_scratch r r2 \<Longrightarrow> same_fields reply_scratch r (r2\<lparr>dst_portal := p\<rparr>)"
    "same_fields reply_scratch r r2 \<Longrightarrow> same_fields reply_scratch r (save_xsave w u r2)" for r2 mm vv x p
    by (simp_all add: same_fields_def save_xsave_def)
  have off: "on_row u Mtd_CTRL f r2 = r2" "on_row u Mtd_INJ f r2 = r2" "on_row u Mtd_TSC f r2 = r2" for f r2
    using m mtd by (simp_all add: on_row_def)
  show ?thesis
    unfolding save_vmx_rest_def Let_def off
    by (intro st on_row_same put_vmcs_back vmx_back2[OF l c, folded mtd] vmx_back3[OF l c, folded mtd]
        write_efer_same e s; assumption)
qed

text \<open>The registers outside the control structure and the guest's view.\<close>

definition regs_kept :: "vm_env \<Rightarrow> cpu_regs \<Rightarrow> cpu_regs \<Rightarrow> bool" where
  "regs_kept w r r' \<longleftrightarrow> gpr r' = gpr r \<and> guest_crs w VMCS r' = guest_crs w VMCS r
     \<and> tsc_offset r' = tsc_offset r \<and> tsc_aux r' = tsc_aux r"

lemma conf_view:
  assumes "conf_vmcs r' = conf_vmcs r" "gpr r' = gpr r" "cr3_shadow r' = cr3_shadow r"
  shows "guest_crs w VMCS r' = guest_crs w VMCS r"
  using assms by (intro guest_crs_cong) (simp add: conf_vmcs_def cr_part_def Let_def)

lemma regs_kept_step:
  assumes "regs_kept w r r1" "conf_vmcs r' = conf_vmcs r1" "gpr r' = gpr r1" "cr3_shadow r' = cr3_shadow r1"
    "tsc_offset r' = tsc_offset r1" "tsc_aux r' = tsc_aux r1"
  shows "regs_kept w r r'"
  using assms conf_view[of r' r1 w] by (simp add: regs_kept_def)

lemma regs_kept_puts:
  assumes "regs_kept w r r1"
  shows "regs_kept w r (put_vmcs (chosen m (vmx_saves1 u)) r1)"
    "regs_kept w r (put_vmcs (chosen m (vmx_saves2 u)) r1)"
    "regs_kept w r (put_vmcs [(GUEST_INTR_STATE, a), (GUEST_ACTV_STATE, b)] r1)"
    "regs_kept w r (put_vmcs [(TPR_THRESHOLD, a)] r1)"
    "regs_kept w r (put_vmcs [(GUEST_PDPTE0, a), (GUEST_PDPTE1, b),
     (GUEST_PDPTE2, c), (GUEST_PDPTE3, d)] r1)"
    "regs_kept w r (write_efer VMCS a r1)"
    "regs_kept w r (save_xsave w u r1)"
    "regs_kept w r (r1\<lparr>msr_mem := mm\<rparr>)"
    "regs_kept w r (r1\<lparr>vapic_mem := vv\<rparr>)"
    "regs_kept w r (r1\<lparr>dst_portal := p\<rparr>)"
  by (rule regs_kept_step[OF assms]; (simp add: conf_put_vmcs conf_put_vmcs1 conf_fields conf_vmcs_frames
      del: write_efer.simps)?; (simp add: put_vmcs_def save_xsave_def set_vmcs_def Let_def)?)+

lemma on_row_kept:
  "regs_kept w r r1 \<Longrightarrow> (mr u u_mtd AND b \<noteq> 0 \<Longrightarrow> regs_kept w r r1 \<Longrightarrow> regs_kept w r (f r1))
     \<Longrightarrow> regs_kept w r (on_row u b f r1)"
  by (simp add: on_row_def)

lemma rest_regs:
  assumes l: "loaded m (vmx_rows w r) u" and k: "regs_kept w r r1"
    and m: "m AND Mtd_CTRL = 0" "m AND Mtd_INJ = 0" "m AND Mtd_TSC = 0"
  shows "regs_kept w r (save_vmx_rest w u r1)"
proof -
  have mtd: "mr u u_mtd = m" using l by (simp add: loaded_def)
  have aux: "mr u u_mtd AND Mtd_TSC_AUX \<noteq> 0 \<Longrightarrow> regs_kept w r r2 \<Longrightarrow> regs_kept w r (r2\<lparr>tsc_aux := mr u u_tsc_aux\<rparr>)" for r2
  proof -
    assume b: "mr u u_mtd AND Mtd_TSC_AUX \<noteq> 0" and k: "regs_kept w r r2"
    have "mr u u_tsc_aux = tsc_aux r" using b loadedD[OF l] vmx_lookups2 mtd by simp
    moreover have "guest_crs w VMCS (r2\<lparr>tsc_aux := x\<rparr>) = guest_crs w VMCS r2" for x
      by (rule conf_view) (simp_all add: conf_fields)
    ultimately show ?thesis using k by (simp add: regs_kept_def)
  qed
  have off: "on_row u Mtd_CTRL f r2 = r2" "on_row u Mtd_INJ f r2 = r2" "on_row u Mtd_TSC f r2 = r2" for f r2
    using m mtd by (simp_all add: on_row_def)
  show ?thesis
    unfolding save_vmx_rest_def Let_def off by (intro regs_kept_puts on_row_kept aux k; assumption)
qed

lemma save_vmx_rest_portal: "dst_portal (save_vmx_rest w u r) = VM_EXIT_RECALL"
  by (simp add: save_vmx_rest_def Let_def)

text \<open>C26: vmx_reply_roundtrip. A monitor that answers an exit with the message as it received it, with any selection of
  register groups but the time-stamp offset, the controls and the event injection, resumes the
  guest in the state it had: every field of the control structure keeps its value except the
  hardware copies of the control registers and two entry controls that are recomputed, and the
  general-purpose registers, the control registers as the guest sees them, the time-stamp
  registers are unchanged. The exit number becomes the one of a recall.\<close>
theorem vmx_reply_roundtrip:
  assumes "vmcs_canon (vmcs_of r)"
    and "r_mtd r AND Mtd_CTRL = 0" "r_mtd r AND Mtd_INJ = 0" "r_mtd r AND Mtd_TSC = 0"
  shows "\<exists>r' f. save_vmx w (fst (load_vmx w r u)) r = Inr (r', f) \<and> same_fields reply_scratch r r'
    \<and> gpr r' = gpr r \<and> guest_crs w VMCS r' = guest_crs w VMCS r
    \<and> tsc_offset r' = tsc_offset r \<and> tsc_aux r' = tsc_aux r \<and> dst_portal r' = VM_EXIT_RECALL"
proof -
  let ?u = "fst (load_vmx w r u)" and ?m = "r_mtd r"
  note l = load_vmx_loaded[of r w u]
  have mtd: "mr ?u u_mtd = ?m" using l by (simp add: loaded_def)
  let ?r0 = "put_gprs (chosen ?m (gpr_saves [(g_ax, mr ?u u_rax)] ?u)) r"
  let ?r1 = "put_vmcs (chosen ?m (vmx_saves1 ?u)) ?r0"
  have g: "?r0 = r"
    using gprs_restored[OF l, of r] by (simp add: vmx_rows_def Let_def put_gprs_def)
  have s1: "same_fields reply_scratch r ?r1"
    using vmx_back1[OF l assms(1)] by (intro put_vmcs_back) (simp_all add: g same_fields_vmcs)
  have k1: "regs_kept w r ?r1" unfolding g by (rule regs_kept_puts) (simp add: regs_kept_def)
  have p1: "cr_part VMCS ?r1 = cr_part VMCS r"
    using conf_put_vmcs(1)[of ?m ?u r] unfolding g by (simp add: conf_vmcs_def cr_part_def Let_def)
  have "\<exists>r2. (if ?m AND Mtd_CR \<noteq> 0 then save_crs w VMCS ?u ?r1 else Inr ?r1) = Inr r2
      \<and> same_fields reply_scratch r r2 \<and> regs_kept w r r2"
  proof (cases "?m AND Mtd_CR = 0")
    case True
    then show ?thesis using s1 k1 by simp
  next
    case False
    have "mr ?u u_cr0 = get_cr0 w VMCS r" "mr ?u u_cr2 = get_g_cr2 VMCS r" "mr ?u u_cr3 = get_cr3 VMCS r"
      "mr ?u u_cr4 = get_cr4 w VMCS r"
      using False loadedD[OF l] vmx_lookups1 by simp_all
    moreover have "get_cr0 w VMCS ?r1 = get_cr0 w VMCS r" "get_g_cr2 VMCS ?r1 = get_g_cr2 VMCS r"
      "get_cr3 VMCS ?r1 = get_cr3 VMCS r" "get_cr4 w VMCS ?r1 = get_cr4 w VMCS r"
      using guest_crs_cong[OF p1, of w] by (simp_all only: guest_crs_at[of w, symmetric])
    ultimately obtain r2 where "save_crs w VMCS ?u ?r1 = Inr r2" "same_fields reply_scratch ?r1 r2"
      "vm_rest r2 = vm_rest ?r1" "gpr r2 = gpr ?r1" "guest_crs w VMCS r2 = guest_crs w VMCS ?r1"
      using save_crs_same[of ?u w ?r1] by auto
    then show ?thesis
      using False s1 k1 same_fields_trans by (auto simp: regs_kept_def vm_rest_def)
  qed
  then obtain r2 where r2: "(if ?m AND Mtd_CR \<noteq> 0 then save_crs w VMCS ?u ?r1 else Inr ?r1) = Inr r2"
    "same_fields reply_scratch r r2" "regs_kept w r r2" by blast
  have "save_vmx w ?u r = Inr (save_vmx_rest w ?u r2, ?m AND Mtd_FPU \<noteq> 0)"
    using r2(1) unfolding save_vmx_def Let_def mtd by (simp only: bind_result_simps)
  moreover have "same_fields reply_scratch r (save_vmx_rest w ?u r2)"
    using rest_same[OF l assms(1) r2(2)] assms(2-4) by blast
  moreover have "regs_kept w r (save_vmx_rest w ?u r2)" using rest_regs[OF l r2(3)] assms(2-4) by blast
  ultimately show ?thesis by (auto simp: regs_kept_def save_vmx_rest_portal)
qed

lemma zero_canon: "vmcs_canon (\<lambda>f. 0)"
  by (simp add: vmcs_canon_def vmcs_wf_def)

theorem vmx_reply_roundtrip_witness:
  "\<exists>r' f. save_vmx ex_vm_env (fst (load_vmx ex_vm_env (ex_cpu_regs\<lparr>r_mtd := 0x7f4ffff\<rparr>) ex_utcb))
       (ex_cpu_regs\<lparr>r_mtd := 0x7f4ffff\<rparr>) = Inr (r', f)
     \<and> gpr r' = gpr ex_cpu_regs \<and> dst_portal r' = VM_EXIT_RECALL"
proof -
  have "vmcs_canon (vmcs_of (ex_cpu_regs\<lparr>r_mtd := 0x7f4ffff\<rparr>))"
    by (simp add: ex_cpu_regs_def zero_canon)
  from vmx_reply_roundtrip[OF this, of ex_vm_env ex_utcb] show ?thesis by auto
qed

subsection \<open>Extended state and message size\<close>

text \<open>What the instruction that loads XCR0 demands: the x87 bit, SSE with AVX, and the three AVX-512
  bits together and only with AVX.\<close>

definition xcr_valid :: "u64 \<Rightarrow> bool" where
  "xcr_valid x \<longleftrightarrow> bit x 0 \<and> (bit x 2 \<longrightarrow> bit x 1)
     \<and> (bit x 5 \<or> bit x 6 \<or> bit x 7 \<longrightarrow> bit x 5 \<and> bit x 6 \<and> bit x 7 \<and> bit x 2)"

lemma and_e0: "(v :: u64) AND 0xe0 \<noteq> 0 \<longleftrightarrow> bit v 5 \<or> bit v 6 \<or> bit v 7"
proof -
  have "(0xe0 :: u64) = push_bit 5 1 OR push_bit 6 1 OR push_bit 7 1" by simp
  then have "v AND 0xe0 = (v AND push_bit 5 1) OR (v AND push_bit 6 1) OR (v AND push_bit 7 1)"
    by (simp only: bit.conj_disj_distrib)
  then show ?thesis by (simp only: or_eq_0_iff bit_iff_and_push_bit_not_eq_0) blast
qed

lemma and_4: "(v :: u64) AND 0x4 \<noteq> 0 \<longleftrightarrow> bit v 2"
  using bit_iff_and_push_bit_not_eq_0[of v 2] by simp

lemma constrain_bits:
  "bit (constrain_xcr w v) 0 = bit (hst_xcr w) 0"
  "bit (constrain_xcr w v) 1 \<longleftrightarrow> bit (hst_xcr w) 1 \<and> (bit v 1 \<or> bit v 2 \<or> v AND 0xe0 \<noteq> 0)"
  "bit (constrain_xcr w v) 2 \<longleftrightarrow> bit (hst_xcr w) 2 \<and> (bit v 2 \<or> v AND 0xe0 \<noteq> 0)"
  "bit (constrain_xcr w v) 5 \<longleftrightarrow> bit (hst_xcr w) 5 \<and> (bit v 5 \<or> v AND 0xe0 \<noteq> 0)"
  "bit (constrain_xcr w v) 6 \<longleftrightarrow> bit (hst_xcr w) 6 \<and> (bit v 6 \<or> v AND 0xe0 \<noteq> 0)"
  "bit (constrain_xcr w v) 7 \<longleftrightarrow> bit (hst_xcr w) 7 \<and> (bit v 7 \<or> v AND 0xe0 \<noteq> 0)"
  unfolding constrain_xcr_def Let_def and_4 by (simp_all add: bit_and_iff bit_or_iff)

text \<open>xcr0_constrained. The XCR0 value that a monitor supplies for a guest is cut down to a value that the
  processor accepts and that enables no component which the host has not enabled.\<close>
theorem xcr0_constrained:
  assumes "xcr_valid (hst_xcr w)"
  shows "xcr_valid (constrain_xcr w v) \<and> constrain_xcr w v AND NOT (hst_xcr w) = 0"
proof -
  have "constrain_xcr w v AND NOT (hst_xcr w) = 0"
    unfolding constrain_xcr_def Let_def by (rule bit_word_eqI) (simp add: bit_simps)
  moreover have "xcr_valid (constrain_xcr w v)"
  proof (cases "v AND 0xe0 = 0")
    case True
    then have "\<not> bit v 5" "\<not> bit v 6" "\<not> bit v 7" using and_e0[of v] by blast+
    then show ?thesis using assms True unfolding xcr_valid_def constrain_bits by blast
  next
    case False
    then show ?thesis using assms unfolding xcr_valid_def constrain_bits by blast
  qed
  ultimately show ?thesis by blast
qed

theorem xcr0_constrained_witness:
  "xcr_valid (constrain_xcr ex_vm_env 0xe0) \<and> constrain_xcr ex_vm_env 0xe0 AND NOT (hst_xcr ex_vm_env) = 0"
  by (rule xcr0_constrained) (simp add: ex_vm_env_def xcr_valid_def)


end
