(* ===== verification/Msr_access.thy ===== *)
theory Msr_access
  imports Utcb
begin

text \<open>
  Access to model-specific registers on behalf of user code (\<open>src/msr.cpp\<close>, and the loop
  \<open>Utcb::for_each_word\<close> of \<open>include/utcb.hpp\<close>): the message holds a list of requests, a read as
  one word that the value replaces, a write as a marked word followed by the value; the count
  word becomes a mask of the requests that succeeded. The tables of registers that may be read
  and written are those of the code.

  The registers are a function from numbers to values. Which accesses fault is a property of the
  processor: \<open>rd_ok\<close> and \<open>wr_ok\<close> say for which registers and values the guarded instructions
  complete.
\<close>

subsection \<open>The loop over the requests\<close>

function few_loop ::
  "(u64 \<Rightarrow> 's \<Rightarrow> (u64 \<times> bool) \<times> 's) \<Rightarrow> (u64 \<Rightarrow> u64 \<Rightarrow> 's \<Rightarrow> bool \<times> 's) \<Rightarrow> nat \<Rightarrow> nat \<Rightarrow> nat
     \<Rightarrow> mword \<Rightarrow> (nat \<Rightarrow> mword) \<Rightarrow> 's \<Rightarrow> mword \<times> (nat \<Rightarrow> mword) \<times> 's" where
  "few_loop fn_read fn_write mx i id_op success m s =
     (if i < mx then
        let op = m i in
        if op AND push_bit 29 1 \<noteq> 0
        then if i + 1 \<ge> mx then (success, m, s)
             else let (ok, s) = fn_write (op AND NOT (push_bit 29 1)) (m (i + 1)) s;
                      success = (if ok then success OR push_bit id_op 1 else success)
                  in few_loop fn_read fn_write mx (i + 2) (id_op + 1) success m s
        else let ((in_out, ok), s) = fn_read op s;
                 success = (if ok then success OR push_bit id_op 1 else success);
                 m = (if ok then m(i := in_out) else m)
             in few_loop fn_read fn_write mx (i + 1) (id_op + 1) success m s
      else (success, m, s))"
  by pat_completeness auto
termination by (relation "measure (\<lambda>(_, _, mx, i, _). mx - i)") auto

declare few_loop.simps [simp del]

definition for_each_word ::
  "(u64 \<Rightarrow> 's \<Rightarrow> (u64 \<times> bool) \<times> 's) \<Rightarrow> (u64 \<Rightarrow> u64 \<Rightarrow> 's \<Rightarrow> bool \<times> 's) \<Rightarrow> utcb \<Rightarrow> 's \<Rightarrow> utcb \<times> 's" where
  "for_each_word fn_read fn_write u s =
     (let (success, m, s) = few_loop fn_read fn_write (min (ui u) (8 * 8 - 1)) 0 0 0 (mr u) s
      in (u\<lparr>mr := m, items := success\<rparr>, s))"

subsection \<open>The registers that user code may touch\<close>

record msr_state =
  msr_val :: "u32 \<Rightarrow> u64"
  mwait_hint :: u32

record msr_env =
  feat :: "nat \<Rightarrow> bool"
  rd_ok :: "u32 \<Rightarrow> bool"
  wr_ok :: "u32 \<Rightarrow> u64 \<Rightarrow> bool"

datatype vendor = UNKNOWN | INTEL | AMD

definition guard_read :: "msr_env \<Rightarrow> u64 \<Rightarrow> msr_state \<Rightarrow> (u64 \<times> bool) \<times> msr_state" where
  "guard_read e msr s = ((if rd_ok e (ucast msr) then msr_val s (ucast msr) else msr, rd_ok e (ucast msr)), s)"

definition guard_write :: "msr_env \<Rightarrow> u64 \<Rightarrow> u64 \<Rightarrow> msr_state \<Rightarrow> bool \<times> msr_state" where
  "guard_write e msr v s =
     (if wr_ok e (ucast msr) v then (True, s\<lparr>msr_val := (msr_val s)(ucast msr := v)\<rparr>) else (False, s))"

definition pm_enabled :: "msr_state \<Rightarrow> bool" where
  "pm_enabled s = (msr_val s 0x770 AND 1 \<noteq> 0)"

definition amd_may_read :: "msr_env \<Rightarrow> u64 \<Rightarrow> bool" where
  "amd_may_read e msr =
     (if msr = 0xe8 then feat e 192
      else if msr = 0xe7 then feat e 192
      else if msr = 0xc0010061 then feat e 231
      else if msr = 0xc0010062 then feat e 231
      else if msr = 0xc0010063 then feat e 231
      else False)"

definition amd_read :: "msr_env \<Rightarrow> u64 \<Rightarrow> msr_state \<Rightarrow> (u64 \<times> bool) \<times> msr_state" where
  "amd_read e msr s = (if amd_may_read e msr then guard_read e msr s else ((msr, False), s))"

definition amd_write :: "msr_env \<Rightarrow> u64 \<Rightarrow> u64 \<Rightarrow> msr_state \<Rightarrow> bool \<times> msr_state" where
  "amd_write e msr v s =
     (if msr = 0xc0010062
      then if \<not> feat e 231 then (False, s) else guard_write e msr (v AND 0xf) s
      else (False, s))"

definition mwait_residency :: "u64 list" where
  "mwait_residency = [0x660, 0x3fc, 0x3fd, 0x3fe, 0x60d, 0x3f8, 0x3f9, 0x3fa, 0x630, 0x631, 0x632]"

definition rapl_registers :: "u64 list" where
  "rapl_registers = [0x606, 0x610, 0x611, 0x613, 0x614, 0x618, 0x619, 0x61b, 0x61c,
     0x638, 0x639, 0x63a, 0x63b, 0x640, 0x641, 0x642]"

definition intel_may_read :: "msr_env \<Rightarrow> u64 \<Rightarrow> msr_state \<Rightarrow> bool" where
  "intel_may_read e msr s =
     (if msr = 0xe8 then feat e 192
      else if msr = 0xe7 then feat e 192
      else if msr = 0x19c then feat e 64
      else if msr = 0x1b1 then feat e 70
      else if msr = 0x1a2 then feat e 64
      else if msr = 0x1b0 then feat e 195
      else if msr = 0x770 then feat e 71
      else if msr = 0x771 then feat e 71 \<and> pm_enabled s
      else if msr = 0x772 then feat e 75 \<and> pm_enabled s
      else if msr = 0x774 then feat e 71 \<and> pm_enabled s
      else if msr \<in> set mwait_residency then feat e 35 \<and> feat e 256
      else msr \<in> set rapl_registers)"

definition intel_read :: "msr_env \<Rightarrow> u64 \<Rightarrow> msr_state \<Rightarrow> (u64 \<times> bool) \<times> msr_state" where
  "intel_read e msr s = (if intel_may_read e msr s then guard_read e msr s else ((msr, False), s))"

definition intel_write :: "msr_env \<Rightarrow> u64 \<Rightarrow> u64 \<Rightarrow> msr_state \<Rightarrow> bool \<times> msr_state" where
  "intel_write e msr v s =
     (if msr = 0x0 then (True, s\<lparr>mwait_hint := ucast v\<rparr>)
      else if msr = 0x770
      then if \<not> feat e 71 then (False, s) else guard_write e msr (v AND 1) s
      else if msr = 0x774
      then if \<not> feat e 71 \<or> \<not> pm_enabled s then (False, s) else guard_write e msr v s
      else if msr = 0x1b0
      then if \<not> feat e 195 then (False, s) else guard_write e msr v s
      else if msr = 0x772
      then if \<not> feat e 75 \<or> \<not> pm_enabled s then (False, s) else guard_write e msr v s
      else (False, s))"

definition user_access :: "vendor \<Rightarrow> msr_env \<Rightarrow> utcb \<Rightarrow> msr_state \<Rightarrow> utcb \<times> msr_state" where
  "user_access ven e u s =
     (if ven = INTEL then for_each_word (intel_read e) (intel_write e) u s
      else if ven = AMD then for_each_word (amd_read e) (amd_write e) u s
      else (u, s))"

subsection \<open>What a list of requests can do\<close>

lemma few_loop_steps:
  "\<not> i < mx \<Longrightarrow> few_loop fr fw mx i k succ m s = (succ, m, s)"
  "i < mx \<Longrightarrow> m i AND push_bit 29 1 = 0 \<Longrightarrow> fr (m i) s = ((v, ok), s1)
     \<Longrightarrow> few_loop fr fw mx i k succ m s
       = few_loop fr fw mx (i + 1) (k + 1) (if ok then succ OR push_bit k 1 else succ)
           (if ok then m(i := v) else m) s1"
  "i < mx \<Longrightarrow> m i AND push_bit 29 1 \<noteq> 0 \<Longrightarrow> mx \<le> i + 1 \<Longrightarrow> few_loop fr fw mx i k succ m s = (succ, m, s)"
  "i < mx \<Longrightarrow> m i AND push_bit 29 1 \<noteq> 0 \<Longrightarrow> \<not> mx \<le> i + 1
     \<Longrightarrow> fw (m i AND NOT (push_bit 29 1)) (m (i + 1)) s = (ok, s1)
     \<Longrightarrow> few_loop fr fw mx i k succ m s
       = few_loop fr fw mx (i + 2) (k + 1) (if ok then succ OR push_bit k 1 else succ) m s1"
  by (simp_all add: few_loop.simps[of fr fw mx i] Let_def)

text \<open>An invariant of the loop holds at its end.\<close>

lemma few_loop_inv:
  assumes "few_loop fr fw mx i k succ m s = (succ', m', s')" "Q k succ m s" "k \<le> i"
    and rd: "\<And>i k succ m s v ok s1. Q k succ m s \<Longrightarrow> k \<le> i \<Longrightarrow> i < mx \<Longrightarrow> fr (m i) s = ((v, ok), s1)
      \<Longrightarrow> Q (k + 1) (if ok then succ OR push_bit k 1 else succ) (if ok then m(i := v) else m) s1"
    and wr: "\<And>i k succ m s msr ok s1. Q k succ m s \<Longrightarrow> k \<le> i \<Longrightarrow> i + 1 < mx \<Longrightarrow> fw msr (m (i + 1)) s = (ok, s1)
      \<Longrightarrow> Q (k + 1) (if ok then succ OR push_bit k 1 else succ) m s1"
  shows "\<exists>k. Q k succ' m' s'"
  using assms(1-3)
proof (induction "mx - i" arbitrary: i k succ m s rule: less_induct)
  case less
  consider "\<not> i < mx" | "i < mx" "m i AND push_bit 29 1 = 0"
    | "i < mx" "m i AND push_bit 29 1 \<noteq> 0" "mx \<le> i + 1"
    | "i < mx" "m i AND push_bit 29 1 \<noteq> 0" "\<not> mx \<le> i + 1" by blast
  then show ?case
  proof cases
    case 1
    then show ?thesis using less.prems few_loop_steps(1)[OF 1, of fr fw k succ m s] by auto
  next
    case 2
    obtain v ok s1 where f: "fr (m i) s = ((v, ok), s1)" by (metis surj_pair)
    have "few_loop fr fw mx (i + 1) (k + 1) (if ok then succ OR push_bit k 1 else succ)
        (if ok then m(i := v) else m) s1 = (succ', m', s')"
      using less.prems(1) few_loop_steps(2)[where fr = fr and fw = fw and m = m and s = s, OF 2 f] by simp
    moreover have "Q (k + 1) (if ok then succ OR push_bit k 1 else succ) (if ok then m(i := v) else m) s1"
      by (rule rd[OF less.prems(2,3) 2(1) f])
    ultimately show ?thesis using less.hyps[of "i + 1"] 2(1) less.prems(3) by simp
  next
    case 3
    then show ?thesis using less.prems few_loop_steps(3)[where m = m and i = i, OF 3, of fr fw k succ s] by auto
  next
    case 4
    obtain ok s1 where f: "fw (m i AND NOT (push_bit 29 1)) (m (i + 1)) s = (ok, s1)" by (metis surj_pair)
    have "i + 1 < mx" using 4 by simp
    have "few_loop fr fw mx (i + 2) (k + 1) (if ok then succ OR push_bit k 1 else succ) m s1 = (succ', m', s')"
      using less.prems(1) few_loop_steps(4)[where fr = fr and fw = fw and m = m and s = s, OF 4 f] by simp
    moreover have "Q (k + 1) (if ok then succ OR push_bit k 1 else succ) m s1"
      by (rule wr[OF less.prems(2,3) \<open>i + 1 < mx\<close> f])
    ultimately show ?thesis using less.hyps[of "i + 2"] 4(1) less.prems(3) by simp
  qed
qed

definition writable :: "vendor \<Rightarrow> u32 set" where
  "writable ven = (case ven of INTEL \<Rightarrow> {0x770, 0x772, 0x774, 0x1b0} | AMD \<Rightarrow> {0xc0010062} | UNKNOWN \<Rightarrow> {})"

lemma reads_keep: "snd (intel_read e op s) = s" "snd (amd_read e op s) = s"
  by (simp_all add: intel_read_def amd_read_def guard_read_def)

lemma intel_write_effect:
  assumes "intel_write e msr v s = (ok, s1)"
  shows "(\<forall>x. x \<notin> writable INTEL \<longrightarrow> msr_val s1 x = msr_val s x)
    \<and> (msr_val s1 0x770 = msr_val s 0x770 \<or> msr_val s1 0x770 \<in> {0, 1})"
proof -
  have "v AND 1 = 0 \<or> v AND 1 = 1" by (simp add: and_one_eq mod_2_eq_odd)
  then show ?thesis using assms
    by (auto simp: intel_write_def guard_write_def writable_def split: if_splits)
qed

lemma amd_write_effect:
  assumes "amd_write e msr v s = (ok, s1)"
  shows "\<forall>x. x \<notin> writable AMD \<longrightarrow> msr_val s1 x = msr_val s x"
  using assms by (auto simp: amd_write_def guard_write_def writable_def split: if_splits)

lemma for_each_inv:
  assumes f: "for_each_word fr fw u s = (u', s')" and P: "P s"
    and rd: "\<And>op s. P s \<Longrightarrow> P (snd (fr op s))" and wr: "\<And>msr v s. P s \<Longrightarrow> P (snd (fw msr v s))"
  shows "P s' \<and> (\<forall>j. min (ui u) 63 \<le> j \<longrightarrow> mr u' j = mr u j) \<and> (\<forall>j. 63 \<le> j \<longrightarrow> \<not> bit (items u') j)"
proof -
  let ?mx = "min (ui u) (8 * 8 - 1)"
  obtain su m where l: "few_loop fr fw ?mx 0 0 0 (mr u) s = (su, m, s')" and u': "u' = u\<lparr>mr := m, items := su\<rparr>"
    using f by (auto simp: for_each_word_def split: prod.splits)
  let ?Q = "\<lambda>(k :: nat) (succ :: mword) m s. P s \<and> (\<forall>j. ?mx \<le> j \<longrightarrow> m j = mr u j) \<and> (\<forall>j. 63 \<le> j \<longrightarrow> \<not> bit succ j)"
  have "\<exists>k. ?Q k su m s'"
  proof (rule few_loop_inv[OF l])
    show "?Q 0 0 (mr u) s" using P by simp
  next
    fix i k succ m s v ok s1
    assume q: "?Q k succ m s" "k \<le> i" "i < ?mx" "fr (m i) s = ((v, ok), s1)"
    have "P s1" using rd[of s "m i"] q by simp
    moreover have "k < 63" using q(2,3) by simp
    ultimately show "?Q (k + 1) (if ok then succ OR push_bit k 1 else succ) (if ok then m(i := v) else m) s1"
      using q by (auto simp: bit_or_iff bit_exp_iff)
  next
    fix i k succ m s msr ok s1
    assume q: "?Q k succ m s" "k \<le> i" "i + 1 < ?mx" "fw msr (m (i + 1)) s = (ok, s1)"
    have "P s1" using wr[of s msr "m (i + 1)"] q by simp
    moreover have "k < 63" using q(2,3) by simp
    ultimately show "?Q (k + 1) (if ok then succ OR push_bit k 1 else succ) m s1"
      using q by (auto simp: bit_or_iff bit_exp_iff)
  qed simp
  then show ?thesis by (simp add: u')
qed

text \<open>C27: msr_access_confined. Whatever requests a message holds, processing them ends, changes no word of the message
  past the requests and no model-specific register outside the list for the vendor; and the power
  management enable register of an Intel processor is left alone or gets 0 or 1.\<close>
theorem msr_access_confined:
  "let (u', s') = user_access ven e u s in
     (\<forall>j. mr u' j = mr u j \<or> j < min (ui u) 63)
     \<and> (\<forall>x. msr_val s' x = msr_val s x \<or> x \<in> writable ven)
     \<and> (msr_val s' 0x770 \<in> {msr_val s 0x770, 0, 1})"
proof -
  let ?P = "\<lambda>t. (\<forall>x. x \<notin> writable ven \<longrightarrow> msr_val t x = msr_val s x) \<and> msr_val t 0x770 \<in> {msr_val s 0x770, 0, 1}"
  obtain u' s' where a: "user_access ven e u s = (u', s')" by (metis surj_pair)
  have "?P s' \<and> (\<forall>j. min (ui u) 63 \<le> j \<longrightarrow> mr u' j = mr u j)"
  proof (cases ven)
    case UNKNOWN
    then show ?thesis using a by (simp add: user_access_def)
  next
    case INTEL
    have "?P t \<Longrightarrow> ?P (snd (intel_write e msr v t))" for msr v t
      using intel_write_effect[of e msr v t] INTEL by (cases "intel_write e msr v t") auto
    then show ?thesis
      using for_each_inv[of "intel_read e" "intel_write e" u s u' s' ?P] a INTEL
      by (simp add: user_access_def reads_keep)
  next
    case AMD
    have "?P t \<Longrightarrow> ?P (snd (amd_write e msr v t))" for msr v t
      using amd_write_effect[of e msr v t] AMD
      by (cases "amd_write e msr v t") (auto simp: writable_def)
    then show ?thesis
      using for_each_inv[of "amd_read e" "amd_write e" u s u' s' ?P] a AMD
      by (simp add: user_access_def reads_keep)
  qed
  then show ?thesis unfolding a by (auto simp: not_le[symmetric])
qed

end
