(* ===== verification/Pte.thy ===== *)
theory Pte
  imports Buddy Bits
begin

text \<open>
  Page tables, after \<open>include/pte.hpp\<close> and \<open>src/pte.cpp\<close>, with the four kinds of table of
  \<open>include/hpt.hpp\<close>, \<open>include/ept.hpp\<close>, \<open>include/dpt.hpp\<close> and \<open>include/ipt.hpp\<close>, and the operations of
  \<open>src/hpt.cpp\<close>. All tables live in one physical memory of 64-bit words; the first entry of a tree
  is a member of the object that owns it, its \<open>root\<close>. The class given as template argument is a
  record of its constants and functions; levels are 4 and bits per level 9 for each of them on
  this machine. Pages come from the buddy allocator, through the two functions of a page source;
  flushes of caches and of single translations have no effect on the memory.
\<close>

datatype 'r pent = PTop 'r | PEnt mword

record ('r, 'q) ptst =
  pt_root :: "'r \<Rightarrow> mword"
  pmem :: "mword \<Rightarrow> mword"
  ppool :: 'q

record ('i, 'q) pages_src =
  pg_alloc :: "'i \<Rightarrow> nat \<Rightarrow> 'q \<Rightarrow> (mword \<times> 'q) result"
  pg_free :: "'i \<Rightarrow> mword \<Rightarrow> 'q \<Rightarrow> 'q result"

record pte_class =
  pte_N :: mword
  pte_V :: bool
  pte_addr :: "mword \<Rightarrow> mword"
  pte_super :: "nat \<Rightarrow> mword \<Rightarrow> bool"
  pte_s :: "nat \<Rightarrow> mword"
  pte_order :: "mword \<Rightarrow> nat"
  pte_ord :: "mword \<Rightarrow> mword"

datatype pte_type = TYPE_UP | TYPE_DN | TYPE_DF

definition PTE_LEV :: nat where "PTE_LEV = 4"
definition PTE_BPL :: nat where "PTE_BPL = 9"
definition PAGE_MASK :: mword where "PAGE_MASK = 0xfff"

subsection \<open>Entries\<close>

fun pte_val :: "('r, 'q, 'x) ptst_scheme \<Rightarrow> 'r pent \<Rightarrow> mword" where
  "pte_val s (PTop r) = pt_root s r"
| "pte_val s (PEnt x) = pmem s x"

fun pte_set :: "'r pent \<Rightarrow> mword \<Rightarrow> ('r, 'q, 'x) ptst_scheme \<Rightarrow> ('r, 'q, 'x) ptst_scheme" where
  "pte_set (PTop r) v s = s\<lparr>pt_root := (pt_root s)(r := v)\<rparr>"
| "pte_set (PEnt x) v s = s\<lparr>pmem := (pmem s)(x := v)\<rparr>"

fun pte_index :: "'r pent \<Rightarrow> mword \<Rightarrow> 'r pent result" where
  "pte_index (PTop r) i = (if i = 0 then Inr (PTop r) else Inl Out_of_bounds)"
| "pte_index (PEnt x) i = Inr (PEnt (x + 8 * i))"

definition pte_attr :: "mword \<Rightarrow> mword" where
  "pte_attr v = v AND PAGE_MASK"

definition pt_idx :: "mword \<Rightarrow> nat \<Rightarrow> mword" where
  "pt_idx v l = drop_bit (l * PTE_BPL + PAGE_BITS) v AND (push_bit PTE_BPL 1 - 1)"

definition pte_next :: "pte_class \<Rightarrow> mword \<Rightarrow> nat \<Rightarrow> 'r pent \<Rightarrow> ('r, 'q, 'x) ptst_scheme \<Rightarrow> 'r pent" where
  "pte_next c v l e s = PEnt (pte_addr c (pte_val s e) + 8 * pt_idx v l)"

definition fill_pages :: "mword \<Rightarrow> nat \<Rightarrow> mword \<Rightarrow> (mword \<Rightarrow> mword) \<Rightarrow> mword \<Rightarrow> mword" where
  "fill_pages p o' w m x = (if p \<le> x \<and> x - p < push_bit (o' + PAGE_BITS) 1 then w else m x)"

definition pte_new :: "('i, 'q) pages_src \<Rightarrow> 'i \<Rightarrow> ('r, 'q, 'x) ptst_scheme \<Rightarrow> (mword \<times> ('r, 'q, 'x) ptst_scheme) result" where
  "pte_new g i s = bind_result (pg_alloc g i 0 (ppool s)) (\<lambda>(p, q). Inr (p, s\<lparr>ppool := q, pmem := fill_pages p 0 0 (pmem s)\<rparr>))"

definition pte_destroy :: "('i, 'q) pages_src \<Rightarrow> 'i \<Rightarrow> mword \<Rightarrow> ('r, 'q, 'x) ptst_scheme \<Rightarrow> ('r, 'q, 'x) ptst_scheme result" where
  "pte_destroy g i p s = bind_result (pg_free g i p (ppool s)) (\<lambda>q. Inr (s\<lparr>ppool := q\<rparr>))"

subsection \<open>Walk, lookup, update\<close>

definition pte_link :: "pte_class \<Rightarrow> nat \<Rightarrow> mword \<Rightarrow> mword" where
  "pte_link c l p = p OR (if l = PTE_LEV then 0 else pte_N c) OR (if pte_V c then push_bit 9 (of_nat l) else 0)"

fun pt_walk_from :: "pte_class \<Rightarrow> ('i, 'q) pages_src \<Rightarrow> 'i \<Rightarrow> mword \<Rightarrow> nat \<Rightarrow> bool \<Rightarrow> nat \<Rightarrow> 'r pent \<Rightarrow>
  ('r, 'q, 'x) ptst_scheme \<Rightarrow> ('r pent option \<times> ('r, 'q, 'x) ptst_scheme) result" where
  "pt_walk_from c g i v n a 0 e s = (if n = 0 then Inr (Some e, s) else Inl Out_of_bounds)"
| "pt_walk_from c g i v n a (Suc l) e s =
     (if Suc l = n then Inr (Some e, s)
      else if pte_val s e = 0
      then (if \<not> a then Inr (None, s)
            else bind_result (pte_new g i s) (\<lambda>(p, s).
                   let s = pte_set e (pte_link c (Suc l) p) s
                   in pt_walk_from c g i v n a l (pte_next c v l e s) s))
      else pt_walk_from c g i v n a l (pte_next c v l e s) s)"

definition pt_walk :: "pte_class \<Rightarrow> ('i, 'q) pages_src \<Rightarrow> 'i \<Rightarrow> 'r \<Rightarrow> mword \<Rightarrow> nat \<Rightarrow> bool \<Rightarrow>
  ('r, 'q, 'x) ptst_scheme \<Rightarrow> ('r pent option \<times> ('r, 'q, 'x) ptst_scheme) result" where
  "pt_walk c g i this v n a s = pt_walk_from c g i v n a PTE_LEV (PTop this) s"

fun pt_lookup_from :: "pte_class \<Rightarrow> mword \<Rightarrow> nat \<Rightarrow> 'r pent \<Rightarrow> ('r, 'q, 'x) ptst_scheme \<Rightarrow> (mword \<times> mword \<times> mword) option" where
  "pt_lookup_from c v 0 e s =
     (if pte_val s e = 0 then None
      else (let sz = push_bit (pte_order c (pte_val s e)) 1
            in Some (sz, pte_addr c (pte_val s e) OR (v AND (sz - 1)), pte_attr (pte_val s e))))"
| "pt_lookup_from c v (Suc l) e s =
     (if pte_val s e = 0 then None
      else if \<not> pte_super c (Suc l) (pte_val s e) then pt_lookup_from c v l (pte_next c v l e s) s
      else (let sz = push_bit (Suc l * PTE_BPL + pte_order c (pte_val s e)) 1
            in Some (sz, pte_addr c (pte_val s e) OR (v AND (sz - 1)), pte_attr (pte_val s e))))"

definition pt_lookup :: "pte_class \<Rightarrow> 'r \<Rightarrow> mword \<Rightarrow> ('r, 'q, 'x) ptst_scheme \<Rightarrow> (mword \<times> mword \<times> mword) option" where
  "pt_lookup c this v s = pt_lookup_from c v PTE_LEV (PTop this) s"

fun pt_update_loop :: "pte_class \<Rightarrow> ('i, 'q) pages_src \<Rightarrow> 'i \<Rightarrow> pte_type \<Rightarrow> nat \<Rightarrow> 'r pent \<Rightarrow> mword \<Rightarrow> nat \<Rightarrow> mword \<Rightarrow> mword \<Rightarrow>
  bool \<Rightarrow> ('r, 'q, 'x) ptst_scheme \<Rightarrow> (bool \<times> ('r, 'q, 'x) ptst_scheme) result" where
  "pt_update_loop c g i t l e k 0 p sz f s = Inr (f, s)"
| "pt_update_loop c g i t l e k (Suc n) p sz f s =
     bind_result (pte_index e k) (\<lambda>x.
       let w = pte_val s x
       in bind_result
            (if w = 0 then Inr (f, s)
             else (let f = (f \<or> l \<noteq> 0 \<and> w \<noteq> p)
                   in if t = TYPE_DF then Inr (f, s)
                      else if l \<noteq> 0 \<and> \<not> pte_super c l w
                      then bind_result (pte_destroy g i (pte_addr c w) s) (\<lambda>s. Inr (True, s))
                      else Inr (f, s)))
            (\<lambda>(f, s). pt_update_loop c g i t l e (k + 1) n (p + sz) sz f (pte_set x p s)))"

definition pt_update :: "pte_class \<Rightarrow> ('i, 'q) pages_src \<Rightarrow> 'i \<Rightarrow> 'r \<Rightarrow> mword \<Rightarrow> nat \<Rightarrow> mword \<Rightarrow> mword \<Rightarrow> pte_type \<Rightarrow>
  ('r, 'q, 'x) ptst_scheme \<Rightarrow> (bool \<times> ('r, 'q, 'x) ptst_scheme) result" where
  "pt_update c g i this v o' p a t s =
     (let l = o' div PTE_BPL; n = 2 ^ (o' mod PTE_BPL)
      in bind_result (pt_walk c g i this v l (t = TYPE_UP) s) (\<lambda>(e, s).
           case e of
             None \<Rightarrow> Inr (False, s)
           | Some e \<Rightarrow>
               (let (p, sz) = (if a \<noteq> 0 then (p OR pte_ord c (of_nat (o' mod PTE_BPL)) OR pte_s c l OR a,
                                              push_bit (l * PTE_BPL + PAGE_BITS) 1) else (0, 0))
                in pt_update_loop c g i t l e 0 n p sz False s)))"

subsection \<open>Release\<close>

text \<open>\<open>free_up\<close> goes through the 512 entries of a table; \<open>d\<close> and \<open>il\<close> are the functions given, if any.\<close>

fun pt_free_loop :: "(mword \<Rightarrow> mword \<Rightarrow> ('r, 'q, 'x) ptst_scheme \<Rightarrow> ('r, 'q, 'x) ptst_scheme result) \<Rightarrow> pte_class \<Rightarrow>
  ('i, 'q) pages_src \<Rightarrow> 'i \<Rightarrow> nat \<Rightarrow> mword \<Rightarrow> mword \<Rightarrow> (mword \<Rightarrow> mword \<Rightarrow> nat \<Rightarrow> bool) option \<Rightarrow>
  (nat \<Rightarrow> mword \<Rightarrow> bool) option \<Rightarrow> mword \<Rightarrow> nat \<Rightarrow> ('r, 'q, 'x) ptst_scheme \<Rightarrow> ('r, 'q, 'x) ptst_scheme result" where
  "pt_free_loop rec c g i l e v d il k 0 s = Inr s"
| "pt_free_loop rec c g i l e v d il k (Suc n) s =
     (let w = pmem s (e + 8 * k)
      in bind_result
           (if w = 0 \<or> pte_super c l w then Inr s
            else (let p = pte_addr c w; virt = v + push_bit (l * PTE_BPL + PAGE_BITS) k
                  in bind_result (if (case il of Some h \<Rightarrow> h l virt | None \<Rightarrow> l > 1) then rec p virt s else Inr s) (\<lambda>s.
                       if (case d of Some h \<Rightarrow> h (pte_addr c w) virt l | None \<Rightarrow> True) then pte_destroy g i p s else Inr s)))
           (\<lambda>s. pt_free_loop rec c g i l e v d il (k + 1) n s))"

fun pt_free_up :: "pte_class \<Rightarrow> ('i, 'q) pages_src \<Rightarrow> 'i \<Rightarrow> (mword \<Rightarrow> mword \<Rightarrow> nat \<Rightarrow> bool) option \<Rightarrow>
  (nat \<Rightarrow> mword \<Rightarrow> bool) option \<Rightarrow> nat \<Rightarrow> mword \<Rightarrow> mword \<Rightarrow> ('r, 'q, 'x) ptst_scheme \<Rightarrow> ('r, 'q, 'x) ptst_scheme result" where
  "pt_free_up c g i d il 0 e v s = pt_free_loop (\<lambda>p virt s. Inl Out_of_bounds) c g i 0 e v d il 0 512 s"
| "pt_free_up c g i d il (Suc l) e v s =
     pt_free_loop (\<lambda>p virt s. pt_free_up c g i d il l p virt s) c g i (Suc l) e v d il 0 512 s"

definition pt_clear :: "pte_class \<Rightarrow> ('i, 'q) pages_src \<Rightarrow> 'i \<Rightarrow> 'r \<Rightarrow> (mword \<Rightarrow> mword \<Rightarrow> nat \<Rightarrow> bool) option \<Rightarrow>
  (nat \<Rightarrow> mword \<Rightarrow> bool) option \<Rightarrow> ('r, 'q, 'x) ptst_scheme \<Rightarrow> ('r, 'q, 'x) ptst_scheme result" where
  "pt_clear c g i this d il s =
     (if pt_root s this = 0 then Inr s
      else (let e = pte_addr c (pt_root s this)
            in bind_result (pt_free_up c g i d il (PTE_LEV - 1) e 0 s) (\<lambda>s. pte_destroy g i e s)))"

definition pt_check :: "'i option quotas \<Rightarrow> 'i \<Rightarrow> nat \<Rightarrow> bool \<times> 'i option quotas" where
  "pt_check q p o' = quota_guard_check q None (Some p) (of_nat (o' div 512 + PTE_LEV))"

subsection \<open>The kinds of table\<close>

definition HPT_P :: mword where "HPT_P = 0x1"
definition HPT_W :: mword where "HPT_W = 0x2"
definition HPT_U :: mword where "HPT_U = 0x4"
definition HPT_PWT :: mword where "HPT_PWT = 0x8"
definition HPT_A :: mword where "HPT_A = 0x20"
definition HPT_D :: mword where "HPT_D = 0x40"
definition HPT_S :: mword where "HPT_S = 0x80"
definition HPT_NX :: mword where "HPT_NX = 0x8000000000000000"

definition hpt_addr :: "mword \<Rightarrow> mword" where
  "hpt_addr v =
     (let paddr = v AND NOT PAGE_MASK
      in if (paddr AND HPT_NX \<noteq> 0) \<noteq> (paddr AND drop_bit 1 HPT_NX \<noteq> 0)
         then if paddr AND HPT_NX \<noteq> 0 then (NOT 0 XOR HPT_NX) AND paddr else HPT_NX OR paddr
         else paddr)"

definition hpt_hw_attr :: "mword \<Rightarrow> mword" where
  "hpt_hw_attr a =
     (let a = (if a \<noteq> 0 \<and> a AND 0x4 = 0 then a OR HPT_NX else a)
      in if a \<noteq> 0 then a OR HPT_D OR HPT_A OR HPT_U OR HPT_P else 0)"

definition Hpt :: pte_class where
  "Hpt = \<lparr>pte_N = HPT_A OR HPT_U OR HPT_W OR HPT_P, pte_V = False, pte_addr = hpt_addr,
     pte_super = \<lambda>_ v. v AND HPT_S \<noteq> 0, pte_s = \<lambda>l. if l \<noteq> 0 then HPT_S else 0,
     pte_order = \<lambda>_. PAGE_BITS, pte_ord = \<lambda>_. 0\<rparr>"

definition EPT_R :: mword where "EPT_R = 0x1"
definition EPT_W :: mword where "EPT_W = 0x2"
definition EPT_X :: mword where "EPT_X = 0x4"
definition EPT_I :: mword where "EPT_I = 0x40"
definition EPT_S :: mword where "EPT_S = 0x80"

definition ept_order :: "mword \<Rightarrow> nat" where
  "ept_order v = PAGE_BITS + unat (drop_bit 8 v AND 0xf)"

definition ept_hw_attr :: "mword \<Rightarrow> mword \<Rightarrow> mword" where
  "ept_hw_attr a t = (if a \<noteq> 0 then push_bit 3 t OR a OR EPT_I OR EPT_R else 0)"

definition Ept :: pte_class where
  "Ept = \<lparr>pte_N = EPT_R OR EPT_W OR EPT_X, pte_V = False, pte_addr = \<lambda>v. v AND NOT (push_bit PAGE_BITS 1 - 1),
     pte_super = \<lambda>_ v. v AND EPT_S \<noteq> 0, pte_s = \<lambda>l. if l \<noteq> 0 then EPT_S else 0,
     pte_order = ept_order, pte_ord = \<lambda>o'. push_bit 8 o'\<rparr>"

definition DPT_R :: mword where "DPT_R = 0x1"
definition DPT_W :: mword where "DPT_W = 0x2"
definition DPT_S :: mword where "DPT_S = 0x80"

definition Dpt :: pte_class where
  "Dpt = \<lparr>pte_N = DPT_R OR DPT_W, pte_V = False, pte_addr = \<lambda>v. v AND NOT (push_bit PAGE_BITS 1 - 1),
     pte_super = \<lambda>_ v. v AND DPT_S \<noteq> 0, pte_s = \<lambda>l. if l \<noteq> 0 then DPT_S else 0,
     pte_order = \<lambda>_. PAGE_BITS, pte_ord = \<lambda>_. 0\<rparr>"

definition IPT_R :: mword where "IPT_R = 0x2000000000000000"
definition IPT_W :: mword where "IPT_W = 0x4000000000000000"
definition IPT_P :: mword where "IPT_P = 0x1"

definition ipt_hw_attr :: "mword \<Rightarrow> mword" where
  "ipt_hw_attr a =
     (let r = (if a AND 0x1 \<noteq> 0 then IPT_R else 0);
          r = r OR (if a AND 0x2 \<noteq> 0 then IPT_W else 0)
      in r OR (if r \<noteq> 0 then IPT_P else 0))"

definition Ipt :: pte_class where
  "Ipt = \<lparr>pte_N = IPT_R OR IPT_W OR IPT_P, pte_V = True,
     pte_addr = \<lambda>v. (v AND NOT 0xfff) AND (push_bit 52 1 - 1),
     pte_super = \<lambda>l v. l \<noteq> 0 \<and> drop_bit 9 v AND 0x7 = 0, pte_s = \<lambda>_. 0,
     pte_order = \<lambda>_. PAGE_BITS, pte_ord = \<lambda>_. 0\<rparr>"

subsection \<open>Operations on host page tables\<close>

definition CANONICAL_ADDR :: mword where "CANONICAL_ADDR = 0x0000800000000000"
definition LINK_ADDR :: mword where "LINK_ADDR = 0xffffffff81000000"
definition CPU_LOCAL :: mword where "CPU_LOCAL = 0xffffffffbfe00000"
definition SPC_LOCAL :: mword where "SPC_LOCAL = 0xffffffffc0000000"
definition SPC_LOCAL_IOP :: mword where "SPC_LOCAL_IOP = SPC_LOCAL"
definition SPC_LOCAL_OBJ :: mword where "SPC_LOCAL_OBJ = - 0x20000000"
definition SPC_LOCAL_REMAP :: mword where "SPC_LOCAL_REMAP = SPC_LOCAL_OBJ - 0x1000000"

definition sync_level :: "mword \<Rightarrow> mword \<Rightarrow> nat" where
  "sync_level v o' = nat ((bit_scan_reverse (v XOR o') - int PAGE_BITS) div int PTE_BPL)"

definition hpt_sync_from :: "('i, 'q) pages_src \<Rightarrow> 'i \<Rightarrow> 'r \<Rightarrow> 'r \<Rightarrow> mword \<Rightarrow> mword \<Rightarrow>
  ('r, 'q, 'x) ptst_scheme \<Rightarrow> (bool \<times> ('r, 'q, 'x) ptst_scheme) result" where
  "hpt_sync_from g i this src v o' s =
     (if v = o' then Inl Out_of_bounds
      else bind_result (pt_walk Hpt g i src v (sync_level v o') False s) (\<lambda>(x, s).
        case x of
          None \<Rightarrow> Inr (False, s)
        | Some x \<Rightarrow>
            bind_result (pt_walk Hpt g i this v (sync_level v o') True s) (\<lambda>(d, s).
              case d of
                None \<Rightarrow> Inl Assert_failed
              | Some d \<Rightarrow> if pte_val s d = pte_val s x then Inr (False, s) else Inr (True, pte_set d (pte_val s x) s))))"

definition hpt_sync_user :: "('i, 'q) pages_src \<Rightarrow> 'i \<Rightarrow> 'r \<Rightarrow> 'r \<Rightarrow> mword \<Rightarrow>
  ('r, 'q, 'x) ptst_scheme \<Rightarrow> (bool \<times> ('r, 'q, 'x) ptst_scheme) result" where
  "hpt_sync_user g i this src v s = hpt_sync_from g i this src v CANONICAL_ADDR s"

fun hpt_sync_master_range :: "nat \<Rightarrow> ('i, 'q) pages_src \<Rightarrow> 'i \<Rightarrow> 'r \<Rightarrow> 'r \<Rightarrow> mword \<Rightarrow> mword \<Rightarrow>
  ('r, 'q, 'x) ptst_scheme \<Rightarrow> ('r, 'q, 'x) ptst_scheme result" where
  "hpt_sync_master_range 0 g i this pdbr v e s = Inl Out_of_fuel"
| "hpt_sync_master_range (Suc r) g i this pdbr v e s =
     (if v < e
      then bind_result (hpt_sync_from g i this pdbr v CPU_LOCAL s) (\<lambda>(b, s).
             hpt_sync_master_range r g i this pdbr (v + push_bit (sync_level LINK_ADDR CPU_LOCAL * PTE_BPL + PAGE_BITS) 1) e s)
      else Inr s)"

definition hpt_replace :: "('i, 'q) pages_src \<Rightarrow> 'i \<Rightarrow> 'r \<Rightarrow> mword \<Rightarrow> mword \<Rightarrow>
  ('r, 'q, 'x) ptst_scheme \<Rightarrow> (mword \<times> ('r, 'q, 'x) ptst_scheme) result" where
  "hpt_replace g i this v p s =
     bind_result (pt_walk Hpt g i this v 0 True s) (\<lambda>(e, s).
       case e of
         None \<Rightarrow> Inl Assert_failed
       | Some e \<Rightarrow>
           (let o' = pte_val s e;
                s = (if o' \<noteq> p \<and> pte_attr o' AND HPT_W = 0 then pte_set e p s else s)
            in Inr (hpt_addr (pte_val s e), s)))"

definition hpt_remap :: "('i, 'q) pages_src \<Rightarrow> 'i \<Rightarrow> 'r \<Rightarrow> mword \<Rightarrow>
  ('r, 'q, 'x) ptst_scheme \<Rightarrow> (mword \<times> ('r, 'q, 'x) ptst_scheme) result" where
  "hpt_remap g i cur phys s =
     (let sz = push_bit (PTE_BPL + PAGE_BITS) 1; off = phys AND (sz - 1); phys = phys AND NOT off
      in bind_result
           (case pt_lookup Hpt cur SPC_LOCAL_REMAP s of
              None \<Rightarrow> Inr s
            | Some _ \<Rightarrow>
                bind_result (pt_update Hpt g i cur SPC_LOCAL_REMAP PTE_BPL 0 0 TYPE_DN s) (\<lambda>(f, s).
                  bind_result (pt_update Hpt g i cur (SPC_LOCAL_REMAP + sz) PTE_BPL 0 0 TYPE_DN s) (\<lambda>(f, s). Inr s)))
           (\<lambda>s.
              bind_result (pt_update Hpt g i cur SPC_LOCAL_REMAP PTE_BPL phys (HPT_W OR HPT_P) TYPE_UP s) (\<lambda>(f, s).
                bind_result (pt_update Hpt g i cur (SPC_LOCAL_REMAP + sz) PTE_BPL (phys + sz) (HPT_W OR HPT_P) TYPE_UP s) (\<lambda>(f, s).
                  Inr (SPC_LOCAL_REMAP + off, s)))))"

text \<open>Which tables \<open>clear\<close> enters and releases, for the tables of a domain and those of a CPU.\<close>

definition dest_hpt :: "mword \<Rightarrow> mword \<Rightarrow> mword \<Rightarrow> mword \<Rightarrow> nat \<Rightarrow> bool" where
  "dest_hpt frame0 frame1 p v l = (p \<noteq> frame0 \<and> p \<noteq> frame1)"

definition iter_hpt_lev :: "nat \<Rightarrow> mword \<Rightarrow> bool" where
  "iter_hpt_lev l v =
     (let v = (if v AND push_bit 47 1 \<noteq> 0 then v OR NOT (push_bit 48 1 - 1) else v)
      in l \<ge> 2 \<or> l = 1 \<and> v \<ge> SPC_LOCAL_OBJ)"

definition dest_loc :: "mword \<Rightarrow> mword \<Rightarrow> mword \<Rightarrow> nat \<Rightarrow> bool" where
  "dest_loc user_addr p v l = (v \<ge> user_addr \<and> l \<ge> 3)"

definition iter_loc_lev :: "nat \<Rightarrow> mword \<Rightarrow> bool" where
  "iter_loc_lev l v = (l > 3)"

end
