(* ===== verification/Pte_map.thy ===== *)
theory Pte_map
  imports Pte
begin

text \<open>
  What the operations on page tables do to the mapping they implement. The pages of tables come
  from a \<open>page_source\<close>, which knows the pages in use and how many it can still give; the entries obey the laws \<open>pte_laws\<close> of their class. \<open>slot\<close>
  is the entry that a walk for an address meets at a depth, \<open>table\<close> the table below it. As
  long as no two walks meet in one table unless they agree so far (\<open>pt_inv\<close>), changing an entry
  changes the translation of exactly the addresses below it.
\<close>

locale page_source =
  fixes g :: "('i, 'q) pages_src" and pool_ok :: "'q \<Rightarrow> mword set \<Rightarrow> nat \<Rightarrow> bool"
  assumes alloc_ok: "pool_ok q U (Suc N) \<Longrightarrow> \<exists>p q'. pg_alloc g i 0 q = Inr (p, q') \<and> p \<notin> U \<and> pool_ok q' (insert p U) N"
    and free_ok: "pool_ok q U N \<Longrightarrow> p \<in> U \<Longrightarrow> \<exists>q'. pg_free g i p q = Inr q' \<and> pool_ok q' (U - {p}) N"
    and used_page: "pool_ok q U N \<Longrightarrow> p \<in> U \<Longrightarrow> p \<noteq> 0 \<and> take_bit 12 p = 0 \<and> p < 2 ^ 52"

locale pte_laws =
  fixes c :: pte_class and attr_ok :: "mword \<Rightarrow> bool"
  assumes link_addr: "0 < l \<Longrightarrow> l \<le> 4 \<Longrightarrow> p \<noteq> 0 \<Longrightarrow> take_bit 12 p = 0 \<Longrightarrow> p < 2 ^ 52 \<Longrightarrow>
      pte_link c l p \<noteq> 0 \<and> \<not> pte_super c l (pte_link c l p) \<and> pte_addr c (pte_link c l p) = p"
    and leaf_super: "0 < l \<Longrightarrow> take_bit 12 p = 0 \<Longrightarrow> attr_ok a \<Longrightarrow> m < 9 \<Longrightarrow>
      pte_super c l (p OR pte_ord c (of_nat m) OR pte_s c l OR a)"
    and attr_bits: "attr_ok a \<Longrightarrow> 12 \<le> j \<Longrightarrow> j < 52 \<Longrightarrow> \<not> bit a j"
    and low_bits: "m < 9 \<Longrightarrow> 12 \<le> j \<Longrightarrow> \<not> bit (pte_ord c (of_nat m)) j" "12 \<le> j \<Longrightarrow> \<not> bit (pte_s c l) j"
    and leaf_addr: "take_bit 12 p = 0 \<Longrightarrow> p < 2 ^ 52 \<Longrightarrow> attr_ok a \<Longrightarrow> m < 9 \<Longrightarrow>
      pte_addr c (p OR (pte_ord c (of_nat m) OR pte_s c l OR a)) = p"
    and leaf_order: "take_bit 12 p = 0 \<Longrightarrow> attr_ok a \<Longrightarrow> m < 9 \<Longrightarrow>
      pte_order c (p OR (pte_ord c (of_nat m) OR pte_s c l OR a)) \<in> {12, 12 + m}"

subsection \<open>Addresses\<close>

definition same_pre :: "nat \<Rightarrow> mword \<Rightarrow> mword \<Rightarrow> bool" where
  "same_pre k v v' \<longleftrightarrow> (\<forall>j. 12 + 9 * (4 - k) \<le> j \<and> j < 48 \<longrightarrow> bit v j = bit v' j)"

lemma same_pre_refl [simp]: "same_pre k v v"
  by (simp add: same_pre_def)

lemma same_pre_0 [simp]: "same_pre 0 v v'"
  by (auto simp: same_pre_def)

lemma same_pre_sym: "same_pre k v v' \<Longrightarrow> same_pre k v' v"
  by (auto simp: same_pre_def)

lemma same_pre_trans: "same_pre k u v \<Longrightarrow> same_pre k v w \<Longrightarrow> same_pre k u w"
  by (auto simp: same_pre_def)

lemma same_pre_mono: "same_pre k v v' \<Longrightarrow> j \<le> k \<Longrightarrow> same_pre j v v'"
proof -
  assume "same_pre k v v'" "j \<le> k"
  moreover have "12 + 9 * (4 - k) \<le> 12 + 9 * (4 - j)" using \<open>j \<le> k\<close> by simp
  ultimately show ?thesis unfolding same_pre_def using le_trans by blast
qed

lemma pt_idx_take: "pt_idx v l = take_bit 9 (drop_bit (l * 9 + 12) v)"
  by (simp add: pt_idx_def PTE_BPL_def PAGE_BITS_def take_bit_eq_mask mask_eq_exp_minus_1)

lemma pt_idx_eq: "l < 4 \<Longrightarrow> pt_idx v l = pt_idx v' l \<longleftrightarrow> (\<forall>j. l * 9 + 12 \<le> j \<and> j < l * 9 + 21 \<longrightarrow> bit v j = bit v' j)"
proof
  assume "l < 4" and e: "pt_idx v l = pt_idx v' l"
  show "\<forall>j. l * 9 + 12 \<le> j \<and> j < l * 9 + 21 \<longrightarrow> bit v j = bit v' j"
  proof (intro allI impI)
    fix j assume j: "l * 9 + 12 \<le> j \<and> j < l * 9 + 21"
    show "bit v j = bit v' j"
      using arg_cong[OF e, of "\<lambda>w. bit w (j - (l * 9 + 12))"] j by (auto simp: pt_idx_take bit_simps)
  qed
next
  assume a: "\<forall>j. l * 9 + 12 \<le> j \<and> j < l * 9 + 21 \<longrightarrow> bit v j = bit v' j"
  show "pt_idx v l = pt_idx v' l"
  proof (rule bit_word_eqI)
    fix n
    show "bit (pt_idx v l) n = bit (pt_idx v' l) n"
      using spec[OF a, of "l * 9 + 12 + n"] by (auto simp: pt_idx_take bit_simps)
  qed
qed

lemma same_pre_Suc: "k < 4 \<Longrightarrow> same_pre (Suc k) v v' \<longleftrightarrow> same_pre k v v' \<and> pt_idx v (3 - k) = pt_idx v' (3 - k)"
proof -
  assume k: "k < 4"
  let ?l = "3 - k"
  have e: "12 + 9 * (4 - Suc k) = ?l * 9 + 12" "12 + 9 * (4 - k) = ?l * 9 + 21" "?l * 9 + 21 \<le> 48" "?l < 4" using k by auto
  have split: "(?l * 9 + 12 \<le> j \<and> j < 48) = (?l * 9 + 12 \<le> j \<and> j < ?l * 9 + 21 \<or> ?l * 9 + 21 \<le> j \<and> j < 48)" for j
    using e(3) by auto
  show ?thesis unfolding same_pre_def e(1,2) pt_idx_eq[OF e(4)] split by blast
qed

subsection \<open>Slots and tables\<close>

fun slot :: "('r \<Rightarrow> pte_class) \<Rightarrow> ('r, 'q, 'x) ptst_scheme \<Rightarrow> 'r \<Rightarrow> mword \<Rightarrow> nat \<Rightarrow> 'r pent option" where
  "slot C s r v 0 = Some (PTop r)"
| "slot C s r v (Suc k) =
     (case slot C s r v k of
        None \<Rightarrow> None
      | Some e \<Rightarrow> if pte_val s e = 0 \<or> pte_super (C r) (4 - k) (pte_val s e) then None else Some (pte_next (C r) v (3 - k) e s))"

definition table :: "('r \<Rightarrow> pte_class) \<Rightarrow> ('r, 'q, 'x) ptst_scheme \<Rightarrow> 'r \<Rightarrow> mword \<Rightarrow> nat \<Rightarrow> mword option" where
  "table C s r v k =
     (case slot C s r v k of
        None \<Rightarrow> None
      | Some e \<Rightarrow> if pte_val s e = 0 \<or> pte_super (C r) (4 - k) (pte_val s e) then None else Some (pte_addr (C r) (pte_val s e)))"

lemma slot_Suc: "slot C s r v (Suc k) = map_option (\<lambda>A. PEnt (A + 8 * pt_idx v (3 - k))) (table C s r v k)"
  by (simp add: table_def pte_next_def split: option.splits)

declare slot.simps(2) [simp del]

text \<open>The entry at which a lookup ends, with its level.\<close>

fun leaf_from :: "pte_class \<Rightarrow> mword \<Rightarrow> nat \<Rightarrow> 'r pent \<Rightarrow> ('r, 'q, 'x) ptst_scheme \<Rightarrow> (nat \<times> mword) option" where
  "leaf_from c v 0 e s = (if pte_val s e = 0 then None else Some (0, pte_val s e))"
| "leaf_from c v (Suc l) e s =
     (if pte_val s e = 0 then None
      else if \<not> pte_super c (Suc l) (pte_val s e) then leaf_from c v l (pte_next c v l e s) s
      else Some (Suc l, pte_val s e))"

definition leaf :: "('r \<Rightarrow> pte_class) \<Rightarrow> ('r, 'q, 'x) ptst_scheme \<Rightarrow> 'r \<Rightarrow> mword \<Rightarrow> (nat \<times> mword) option" where
  "leaf C s r v = leaf_from (C r) v 4 (PTop r) s"

definition translate :: "pte_class \<Rightarrow> mword \<Rightarrow> nat \<times> mword \<Rightarrow> mword \<times> mword \<times> mword" where
  "translate c v x = (case x of (l, w) \<Rightarrow>
     let sz = push_bit (l * 9 + pte_order c w) 1 in (sz, pte_addr c w OR (v AND (sz - 1)), pte_attr w))"

lemma lookup_leaf: "pt_lookup (C r) r v s = map_option (translate (C r) v) (leaf C s r v)"
proof -
  have "pt_lookup_from c v l e s = map_option (translate c v) (leaf_from c v l e s)" for c l e
    by (induction l arbitrary: e) (auto simp: translate_def Let_def PTE_BPL_def)
  then show ?thesis by (simp add: pt_lookup_def leaf_def PTE_LEV_def)
qed

lemma leaf_slot: "k \<le> 4 \<Longrightarrow> slot C s r v k = Some e \<Longrightarrow> leaf C s r v = leaf_from (C r) v (4 - k) e s"
proof (induction k arbitrary: e)
  case (Suc k)
  then obtain e' where e': "slot C s r v k = Some e'" "\<not> (pte_val s e' = 0 \<or> pte_super (C r) (4 - k) (pte_val s e'))"
    "e = pte_next (C r) v (3 - k) e' s" by (auto simp: slot.simps(2) split: option.splits if_splits)
  have "4 - k = Suc (3 - k)" "4 - Suc k = 3 - k" using Suc.prems(1) by auto
  then show ?case using Suc.IH[OF _ e'(1)] Suc.prems(1) e' by auto
qed (simp add: leaf_def)

lemma slot_pre: "k \<le> 4 \<Longrightarrow> same_pre k v v' \<Longrightarrow> slot C s r v k = slot C s r v' k"
proof (induction k)
  case (Suc k)
  then have "same_pre k v v'" "pt_idx v (3 - k) = pt_idx v' (3 - k)" using same_pre_Suc[of k v v'] by auto
  then show ?case using Suc by (simp add: slot.simps(2) pte_next_def split: option.splits)
qed simp

lemma table_pre: "k \<le> 4 \<Longrightarrow> same_pre k v v' \<Longrightarrow> table C s r v k = table C s r v' k"
  using slot_pre[of k v v' C s r] by (simp add: table_def)

lemma slot_prev: "slot C s r v k = Some e \<Longrightarrow> j \<le> k \<Longrightarrow> \<exists>e'. slot C s r v j = Some e'"
proof (induction k arbitrary: e)
  case (Suc k)
  show ?case
  proof (cases "j = Suc k")
    case False
    then show ?thesis using Suc by (auto simp: slot.simps(2) split: option.splits if_splits)
  qed (use Suc in auto)
qed auto

text \<open>Values that agree on the slots of an address give the same slots and the same leaf.\<close>

lemma slot_agree:
  assumes "\<And>j e. j < k \<Longrightarrow> slot C s r v j = Some e \<Longrightarrow> pte_val s1 e = pte_val s e"
  shows "slot C s1 r v k = slot C s r v k"
  using assms
proof (induction k)
  case (Suc k)
  have "slot C s1 r v k = slot C s r v k" by (rule Suc.IH, rule Suc.prems) auto
  then show ?case using Suc.prems[of k] by (auto simp: slot.simps(2) pte_next_def split: option.splits)
qed simp

lemma leaf_from_agree:
  assumes "\<And>j e. k \<le> j \<Longrightarrow> j \<le> 4 \<Longrightarrow> slot C s r v j = Some e \<Longrightarrow> pte_val s1 e = pte_val s e"
    and "slot C s r v k = Some e" "k \<le> 4" "l = 4 - k"
  shows "leaf_from (C r) v l e s1 = leaf_from (C r) v l e s"
  using assms
proof (induction l arbitrary: k e)
  case (Suc l)
  have v: "pte_val s1 e = pte_val s e" using Suc.prems by blast
  have k: "l = 4 - Suc k" "Suc k \<le> 4" "3 - k = l" "4 - k = Suc l" using Suc.prems(3,4) by auto
  show ?case
  proof (cases "pte_val s e = 0 \<or> pte_super (C r) (Suc l) (pte_val s e)")
    case False
    then have nx: "slot C s r v (Suc k) = Some (pte_next (C r) v l e s)" using Suc.prems(2) by (simp add: slot.simps(2) k(3,4))
    have "leaf_from (C r) v l (pte_next (C r) v l e s) s1 = leaf_from (C r) v l (pte_next (C r) v l e s) s"
    proof (rule Suc.IH[OF _ nx k(2,1)])
      show "pte_val s1 e' = pte_val s e'" if "Suc k \<le> j" "j \<le> 4" "slot C s r v j = Some e'" for j e'
        using Suc.prems(1)[of j e'] that by simp
    qed
    then show ?thesis using False v by (simp add: pte_next_def)
  qed (use v in auto)
qed (use assms in auto)

lemma leaf_agree:
  "(\<And>j e. j \<le> 4 \<Longrightarrow> slot C s r v j = Some e \<Longrightarrow> pte_val s1 e = pte_val s e) \<Longrightarrow> leaf C s1 r v = leaf C s r v"
  unfolding leaf_def by (rule leaf_from_agree[of 0]) auto

lemma idx_bound: "pt_idx v l < 512"
proof -
  have "unat (pt_idx v l) < 2 ^ 9"
    unfolding pt_idx_take unsigned_take_bit_eq by (rule take_bit_nat_less_exp)
  then show ?thesis by (simp add: word_less_nat_alt)
qed

lemma page_entry:
  fixes A i :: mword
  assumes "take_bit 12 A = 0" "i < 512"
  shows "A + 8 * i = A OR push_bit 3 i" "(A + 8 * i) AND NOT 0xfff = A" "take_bit 12 (A + 8 * i) = push_bit 3 i"
proof -
  have b: "\<not> bit A j" if "j < 12" for j using arg_cong[OF assms(1), of "\<lambda>w. bit w j"] that by (auto simp: bit_simps)
  have i: "\<not> bit i j" if "9 \<le> j" for j
  proof
    assume "bit i j"
    then have "2 ^ j \<le> unat i" by (rule unat_ge_if_bit)
    moreover have "(2::nat) ^ 9 \<le> 2 ^ j" using that by (rule power_increasing) simp
    ultimately show False using assms(2) by (simp add: word_less_nat_alt)
  qed
  have dis: "A AND push_bit 3 i = 0"
  proof (rule bit_word_eqI)
    fix j
    show "bit (A AND push_bit 3 i) j = bit (0 :: mword) j"
      using b[of j] i[of "j - 3"] by (cases "j < 12") (auto simp: bit_simps)
  qed
  have "8 * i = push_bit 3 i" by (simp add: push_bit_eq_mult mult.commute)
  then show e: "A + 8 * i = A OR push_bit 3 i" using dis by (simp add: disjunctive_add_eq_or)
  show "(A + 8 * i) AND NOT 0xfff = A" unfolding e
  proof (rule bit_word_eqI)
    fix j assume "j < LENGTH(64)"
    have "bit (0xfff :: mword) j \<longleftrightarrow> j < 12"
      using bit_mask_iff[of 12 j, where 'a = "64 word"] by (auto simp: mask_eq_exp_minus_1)
    then show "bit ((A OR push_bit 3 i) AND NOT 0xfff) j = bit A j"
      using b[of j] i[of "j - 3"] by (cases "j < 12") (auto simp: bit_simps dest: bit_imp_le_length)
  qed
  show "take_bit 12 (A + 8 * i) = push_bit 3 i" unfolding e
  proof (rule bit_word_eqI)
    fix j
    show "bit (take_bit 12 (A OR push_bit 3 i)) j = bit (push_bit 3 i) j"
      using b[of j] i[of "j - 3"] by (cases "j < 12") (auto simp: bit_simps)
  qed
qed

lemma in_page:
  fixes A x :: mword
  assumes "take_bit 12 A = 0" "A \<le> x" "x - A < 4096"
  shows "x AND NOT 0xfff = A"
proof -
  have b: "\<not> bit A j" if "j < 12" for j using arg_cong[OF assms(1), of "\<lambda>w. bit w j"] that by (auto simp: bit_simps)
  define d where "d = x - A"
  have i: "\<not> bit d j" if "12 \<le> j" for j
  proof
    assume "bit d j"
    then have "2 ^ j \<le> unat d" by (rule unat_ge_if_bit)
    moreover have "(2::nat) ^ 12 \<le> 2 ^ j" using that by (rule power_increasing) simp
    ultimately show False using assms(3) by (simp add: word_less_nat_alt d_def)
  qed
  have "A AND d = 0"
  proof (rule bit_word_eqI)
    fix j show "bit (A AND d) j = bit (0 :: mword) j" using b[of j] i[of j] by (cases "j < 12") (auto simp: bit_simps)
  qed
  then have x: "x = A OR d" by (simp add: d_def flip: disjunctive_add_eq_or)
  show ?thesis unfolding x
  proof (rule bit_word_eqI)
    fix j
    have "bit (0xfff :: mword) j \<longleftrightarrow> j < 12"
      using bit_mask_iff[of 12 j, where 'a = "64 word"] by (auto simp: mask_eq_exp_minus_1)
    then show "bit ((A OR d) AND NOT 0xfff) j = bit A j"
      using b[of j] i[of j] by (cases "j < 12") (auto simp: bit_simps dest: bit_imp_le_length)
  qed
qed

lemma fill_entry:
  assumes "p < 2 ^ 52" "n < 512"
  shows "fill_pages p 0 w m (p + 8 * n) = w"
proof -
  have "unat p < 2 ^ 52" "unat n < 512" using assms by (simp_all add: word_less_nat_alt)
  then have "unat (8 * n) = 8 * unat n" "unat (p + 8 * n) = unat p + 8 * unat n" by (simp_all add: unat_word_ariths)
  then show ?thesis using \<open>unat n < 512\<close> by (simp add: fill_pages_def PAGE_BITS_def word_le_nat_alt word_less_nat_alt)
qed

lemma page_entry_inj:
  fixes A B i j :: mword
  assumes "take_bit 12 A = 0" "take_bit 12 B = 0" "i < 512" "j < 512" "A + 8 * i = B + 8 * j"
  shows "A = B" "i = j"
proof -
  show "A = B" using page_entry(2)[OF assms(1,3)] page_entry(2)[OF assms(2,4)] assms(5) by metis
  then have "8 * i = 8 * j" using assms(5) by simp
  then have "unat (8 * i) = unat (8 * j)" by simp
  then show "i = j" using assms(3,4) by (simp add: unat_word_ariths word_less_nat_alt word_unat_eq_iff)
qed

subsection \<open>Changing one entry\<close>

text \<open>Tables are pages in use, and a table is met by walks of one root at one depth, for one prefix.\<close>

definition tables_inv :: "('q \<Rightarrow> mword set \<Rightarrow> nat \<Rightarrow> bool) \<Rightarrow> ('r \<Rightarrow> pte_class) \<Rightarrow> mword set \<Rightarrow> nat \<Rightarrow> ('r, 'q, 'x) ptst_scheme \<Rightarrow> bool" where
  "tables_inv ok C U N s \<longleftrightarrow> ok (ppool s) U N \<and>
     (\<forall>r v k A. k < 4 \<longrightarrow> table C s r v k = Some A \<longrightarrow> A \<in> U) \<and>
     (\<forall>r v k r' v' k' A. k < 4 \<longrightarrow> k' < 4 \<longrightarrow> table C s r v k = Some A \<longrightarrow> table C s r' v' k' = Some A \<longrightarrow>
        r = r' \<and> k = k' \<and> same_pre k v v')"

text \<open>No superpage is mapped above level \<open>l\<close> on the path of \<open>v\<close>.\<close>

definition no_super_above :: "('r \<Rightarrow> pte_class) \<Rightarrow> ('r, 'q, 'x) ptst_scheme \<Rightarrow> 'r \<Rightarrow> mword \<Rightarrow> nat \<Rightarrow> bool" where
  "no_super_above C s r v l \<longleftrightarrow>
     (\<forall>j e. j < 4 - l \<and> slot C s r v j = Some e \<longrightarrow> \<not> (pte_val s e \<noteq> 0 \<and> pte_super (C r) (4 - j) (pte_val s e)))"

locale tables = page_source g pool_ok for g :: "('i, 'q) pages_src" and pool_ok +
  fixes C :: "'r \<Rightarrow> pte_class" and attr_ok :: "'r \<Rightarrow> mword \<Rightarrow> bool"
  assumes class_laws: "pte_laws (C r) (attr_ok r)"
begin

abbreviation pt_inv :: "mword set \<Rightarrow> nat \<Rightarrow> ('r, 'q, 'x) ptst_scheme \<Rightarrow> bool" where
  "pt_inv U N s \<equiv> tables_inv pool_ok C U N s"

lemma pt_invD:
  assumes "pt_inv U N s"
  shows "pool_ok (ppool s) U N" "\<And>r v k A. k < 4 \<Longrightarrow> table C s r v k = Some A \<Longrightarrow> A \<in> U"
    "\<And>r v k r' v' k' A. k < 4 \<Longrightarrow> k' < 4 \<Longrightarrow> table C s r v k = Some A \<Longrightarrow> table C s r' v' k' = Some A \<Longrightarrow>
      r = r' \<and> k = k' \<and> same_pre k v v'"
  using assms unfolding tables_inv_def by blast+

definition sound :: "('r, 'q, 'x) ptst_scheme \<Rightarrow> bool" where
  "sound s \<longleftrightarrow> (\<exists>U N. pt_inv U N s)"

lemma table_page: "pt_inv U N s \<Longrightarrow> k < 4 \<Longrightarrow> table C s r v k = Some A \<Longrightarrow> A \<noteq> 0 \<and> take_bit 12 A = 0 \<and> A < 2 ^ 52"
  using used_page[OF pt_invD(1)] pt_invD(2) by blast

lemma slot_inj:
  assumes i: "pt_inv U N s" and k: "k \<le> 4" "k' \<le> 4" and e: "slot C s r v k = Some e" "slot C s r' v' k' = Some e"
  shows "r = r' \<and> k = k' \<and> same_pre k v v'"
proof (cases k)
  case 0
  then show ?thesis using e by (cases k') (auto simp: slot_Suc)
next
  case (Suc n)
  then obtain A where A: "table C s r v n = Some A" "e = PEnt (A + 8 * pt_idx v (3 - n))" using e(1) by (auto simp: slot_Suc)
  then obtain n' B where B: "k' = Suc n'" "table C s r' v' n' = Some B" "e = PEnt (B + 8 * pt_idx v' (3 - n'))"
    using e(2) by (cases k') (auto simp: slot_Suc)
  have n: "n < 4" "n' < 4" using k Suc B(1) by auto
  have "A = B \<and> pt_idx v (3 - n) = pt_idx v' (3 - n')"
    using page_entry_inj[of A B "pt_idx v (3 - n)" "pt_idx v' (3 - n')"] A B table_page[OF i] n idx_bound by simp
  moreover have "r = r' \<and> n = n' \<and> same_pre n v v'" using pt_invD(3)[OF i n A(1)] B(2) calculation by blast
  ultimately show ?thesis using same_pre_Suc[OF n(1)] Suc B(1) by auto
qed

lemma slot_top_or_used:
  assumes "pt_inv U N s" "k \<le> 4" "slot C s r v k = Some (PEnt x)"
  shows "x AND NOT 0xfff \<in> U"
proof (cases k)
  case (Suc n)
  then obtain A where A: "table C s r v n = Some A" "x = A + 8 * pt_idx v (3 - n)" using assms(3) by (auto simp: slot_Suc)
  have n: "n < 4" using Suc assms(2) by simp
  have "x AND NOT 0xfff = A" unfolding A(2) using page_entry(2)[OF _ idx_bound] table_page[OF assms(1) n A(1)] by blast
  then show ?thesis using pt_invD(2)[OF assms(1) n A(1)] by simp
qed (use assms in auto)

text \<open>The entry \<open>e\<close> that the walk for \<open>v\<close> meets at depth \<open>k\<close> gets the value \<open>w\<close>.\<close>

definition entry_set :: "'r pent \<Rightarrow> mword \<Rightarrow> ('r, 'q, 'x) ptst_scheme \<Rightarrow> ('r, 'q, 'x) ptst_scheme \<Rightarrow> bool" where
  "entry_set e w s s1 \<longleftrightarrow> pte_val s1 e = w \<and>
     (\<forall>r v k e'. k \<le> 4 \<longrightarrow> slot C s r v k = Some e' \<longrightarrow> e' \<noteq> e \<longrightarrow> pte_val s1 e' = pte_val s e')"

lemma other_slots:
  assumes i: "pt_inv U N s" and k: "k \<le> 4" and e: "slot C s r v k = Some e" and u: "entry_set e w s s1"
    and o: "\<not> (r' = r \<and> same_pre k v v')"
  shows "j \<le> 4 \<Longrightarrow> slot C s r' v' j = Some e' \<Longrightarrow> pte_val s1 e' = pte_val s e'"
    "j \<le> 4 \<Longrightarrow> slot C s1 r' v' j = slot C s r' v' j" "leaf C s1 r' v' = leaf C s r' v'"
proof -
  have val: "pte_val s1 e' = pte_val s e'" if "j \<le> 4" "slot C s r' v' j = Some e'" for j e'
  proof -
    have "e' \<noteq> e" using slot_inj[OF i k that(1) e] that(2) o by auto
    then show ?thesis using u that unfolding entry_set_def by blast
  qed
  then show "j \<le> 4 \<Longrightarrow> slot C s r' v' j = Some e' \<Longrightarrow> pte_val s1 e' = pte_val s e'" .
  show "slot C s1 r' v' j = slot C s r' v' j" if "j \<le> 4" by (rule slot_agree, rule val) (use that in auto)
  show "leaf C s1 r' v' = leaf C s r' v'" by (rule leaf_agree) (rule val)
qed

lemma upper_slots:
  assumes i: "pt_inv U N s" and k: "k \<le> 4" and e: "slot C s r v k = Some e" and u: "entry_set e w s s1"
    and j: "j \<le> k"
  shows "slot C s1 r' v' j = slot C s r' v' j" "j < k \<Longrightarrow> table C s1 r' v' j = table C s r' v' j"
proof -
  have val: "pte_val s1 e' = pte_val s e'" if "i < k" "slot C s r' v' i = Some e'" for i e'
  proof -
    have "e' \<noteq> e" using slot_inj[OF i k _ e, of i r' v'] that k by auto
    then show ?thesis using u that k unfolding entry_set_def by (meson le_trans less_imp_le)
  qed
  show sl: "slot C s1 r' v' j = slot C s r' v' j" by (rule slot_agree, rule val) (use j in auto)
  show "table C s1 r' v' j = table C s r' v' j" if "j < k"
    using sl val[OF that] by (auto simp: table_def split: option.splits)
qed

text \<open>An entry that ends a lookup: nothing, a page, or a superpage.\<close>

definition final :: "'r \<Rightarrow> nat \<Rightarrow> mword \<Rightarrow> bool" where
  "final r k w \<longleftrightarrow> w = 0 \<or> k = 4 \<or> pte_super (C r) (4 - k) w"

lemma write_final:
  assumes i: "pt_inv U N s" and k: "k \<le> 4" and e: "slot C s r v k = Some e" and u: "entry_set e w s s1" and f: "final r k w"
  shows "leaf C s1 r' v' = (if r' = r \<and> same_pre k v v' then if w = 0 then None else Some (4 - k, w) else leaf C s r' v')"
    and "j < 4 \<Longrightarrow> table C s1 r' v' j = Some A \<Longrightarrow> table C s r' v' j = Some A \<and> \<not> (r' = r \<and> same_pre k v v' \<and> k \<le> j)"
proof -
  have w: "pte_val s1 e = w" using u by (simp add: entry_set_def)
  have same: "slot C s1 r v' k = Some e" if "same_pre k v v'" for v'
    using upper_slots(1)[OF i k e u order.refl, of r v'] e slot_pre[OF k that, of C s r] by simp
  show "leaf C s1 r' v' = (if r' = r \<and> same_pre k v v' then if w = 0 then None else Some (4 - k, w) else leaf C s r' v')"
  proof (cases "r' = r \<and> same_pre k v v'")
    case True
    then have "leaf C s1 r' v' = leaf_from (C r) v' (4 - k) e s1" using leaf_slot[OF k same] by simp
    then show ?thesis using True w f k by (cases "4 - k") (auto simp: final_def)
  qed (use other_slots(3)[OF i k e u] in auto)
  assume j: "j < 4" "table C s1 r' v' j = Some A"
  show "table C s r' v' j = Some A \<and> \<not> (r' = r \<and> same_pre k v v' \<and> k \<le> j)"
  proof (cases "r' = r \<and> same_pre k v v'")
    case True
    have "table C s1 r' v' k = None" if "k < 4" using same True w f that by (auto simp: table_def final_def)
    moreover have "\<exists>e. slot C s1 r' v' (Suc k) = Some e" if "k < j"
    proof -
      obtain e' where "slot C s1 r' v' j = Some e'" using j(2) by (auto simp: table_def split: option.splits)
      then show ?thesis using slot_prev[of C s1 r' v' j e' "Suc k"] that by auto
    qed
    ultimately have "\<not> k \<le> j" using j by (cases "k = j") (auto simp: slot_Suc)
    then show ?thesis using upper_slots(2)[OF i k e u, of j r' v'] j(2) by auto
  next
    case False
    have "slot C s1 r' v' j = slot C s r' v' j" using other_slots(2)[OF i k e u False] j(1) by simp
    then have "table C s1 r' v' j = table C s r' v' j"
      using other_slots(1)[OF i k e u False, of j] j(1) by (auto simp: table_def split: option.splits)
    then show ?thesis using j(2) False by auto
  qed
qed

lemma write_link:
  assumes i: "pt_inv U N s" and k: "k < 4" and e: "slot C s r v k = Some e" and z: "pte_val s e = 0"
    and u: "entry_set e (pte_link (C r) (4 - k) p) s s1" and p: "p \<notin> U" "p \<noteq> 0" "take_bit 12 p = 0" "p < 2 ^ 52"
    and zero: "\<And>n. n < 512 \<Longrightarrow> pmem s1 (p + 8 * n) = 0"
    and q: "pool_ok (ppool s1) (insert p U) N'"
  shows "leaf C s1 r' v' = leaf C s r' v'" "pt_inv (insert p U) N' s1" "table C s1 r v k = Some p"
    "\<And>j. same_pre k v v' \<Longrightarrow> k < j \<Longrightarrow> table C s1 r v' j = None"
    "\<And>j. j < 4 \<Longrightarrow> j < k \<or> \<not> (r' = r \<and> same_pre k v v') \<Longrightarrow> table C s1 r' v' j = table C s r' v' j"
proof -
  have k4: "k \<le> 4" using k by simp
  have lk: "pte_link (C r) (4 - k) p \<noteq> 0" "\<not> pte_super (C r) (4 - k) (pte_link (C r) (4 - k) p)"
    "pte_addr (C r) (pte_link (C r) (4 - k) p) = p"
    using pte_laws.link_addr[OF class_laws[of r], of "4 - k" p] k p by auto
  have w: "pte_val s1 e = pte_link (C r) (4 - k) p" using u by (simp add: entry_set_def)
  have same: "slot C s1 r v' k = Some e" if "same_pre k v v'" for v'
    using upper_slots(1)[OF i k4 e u order.refl, of r v'] e slot_pre[OF k4 that, of C s r] by simp
  have tk: "table C s1 r v' k = Some p" if "same_pre k v v'" for v' using same[OF that] w lk by (simp add: table_def)
  then show "table C s1 r v k = Some p" by simp
  have sk: "slot C s1 r v' (Suc k) = Some (PEnt (p + 8 * pt_idx v' (3 - k)))" if "same_pre k v v'" for v'
    using tk[OF that] by (simp add: slot_Suc)
  have vz: "pte_val s1 (PEnt (p + 8 * pt_idx v' (3 - k))) = 0" for v' using zero[OF idx_bound] by simp
  have tn: "table C s1 r v' j = None" if sv: "same_pre k v v'" and j: "k < j" for v' j
  proof -
    have "table C s1 r v' (Suc k) = None" using sk[OF sv] vz by (simp add: table_def)
    moreover have "slot C s1 r v' j = None" if "Suc k < j"
    proof (rule ccontr)
      assume "slot C s1 r v' j \<noteq> None"
      then obtain e' where "slot C s1 r v' j = Some e'" by blast
      then show False using slot_prev[of C s1 r v' j e' "Suc (Suc k)"] that calculation by (auto simp: slot_Suc)
    qed
    ultimately show ?thesis using j by (cases "j = Suc k") (auto simp: table_def)
  qed
  then show "\<And>j. same_pre k v v' \<Longrightarrow> k < j \<Longrightarrow> table C s1 r v' j = None" .
  have to: "table C s1 r' v' j = table C s r' v' j" if j: "j < 4" and d: "j < k \<or> \<not> (r' = r \<and> same_pre k v v')" for r' v' j
  proof (cases "r' = r \<and> same_pre k v v'")
    case True
    then show ?thesis using upper_slots(2)[OF i k4 e u, of j r' v'] d by auto
  next
    case False
    then show ?thesis using other_slots(1,2)[OF i k4 e u False, of j] j by (auto simp: table_def split: option.splits)
  qed
  then show "\<And>j. j < 4 \<Longrightarrow> j < k \<or> \<not> (r' = r \<and> same_pre k v v') \<Longrightarrow> table C s1 r' v' j = table C s r' v' j" .
  have cases: "(r' = r \<and> same_pre k v v' \<and> j = k \<and> A = p) \<or> table C s r' v' j = Some A"
    if "j < 4" "table C s1 r' v' j = Some A" for r' v' j A
  proof (cases "j < k \<or> \<not> (r' = r \<and> same_pre k v v')")
    case True
    then show ?thesis using to[OF that(1) True] that(2) by simp
  next
    case False
    then have "j = k" using tn[of v' j] that(2) by (cases "k < j") auto
    then show ?thesis using tk[of v'] False that(2) by auto
  qed
  show "pt_inv (insert p U) N' s1" unfolding tables_inv_def
  proof (intro conjI allI impI)
    show "pool_ok (ppool s1) (insert p U) N'" by (rule q)
    show "A \<in> insert p U" if "j < 4" "table C s1 r' v' j = Some A" for r' v' j A
      using cases[OF that] pt_invD(2)[OF i that(1), of r' v' A] by auto
    fix r1 v1 k1 r2 v2 k2 A
    assume a: "k1 < 4" "k2 < 4" "table C s1 r1 v1 k1 = Some A" "table C s1 r2 v2 k2 = Some A"
    have np: "A \<noteq> p" if "table C s r' v' j = Some A" "j < 4" for r' v' j using pt_invD(2)[OF i that(2,1)] p(1) by auto
    have "r1 = r2 \<and> k1 = k2 \<and> same_pre k1 v1 v2"
    proof (cases "A = p")
      case True
      then have "r1 = r \<and> same_pre k v v1 \<and> k1 = k" "r2 = r \<and> same_pre k v v2 \<and> k2 = k"
        using cases[OF a(1,3)] cases[OF a(2,4)] np a(1,2) by blast+
      then show ?thesis using same_pre_trans[OF same_pre_sym] by blast
    next
      case False
      then have "table C s r1 v1 k1 = Some A" "table C s r2 v2 k2 = Some A" using cases[OF a(1,3)] cases[OF a(2,4)] by auto
      then show ?thesis using pt_invD(3)[OF i a(1,2)] by blast
    qed
    then show "r1 = r2" "k1 = k2" "same_pre k1 v1 v2" by auto
  qed
  show "leaf C s1 r' v' = leaf C s r' v'"
  proof (cases "r' = r \<and> same_pre k v v'")
    case True
    have "leaf C s r' v' = leaf_from (C r) v' (4 - k) e s" using leaf_slot[OF k4, of C s r v' e] slot_pre[OF k4, of v v' C s r] e True by simp
    then have "leaf C s r' v' = None" using z by (cases "4 - k") auto
    moreover have "leaf C s1 r' v' = leaf_from (C r) v' (4 - Suc k) (PEnt (p + 8 * pt_idx v' (3 - k))) s1"
      using leaf_slot[of "Suc k" C s1 r v'] sk[of v'] True k by simp
    then have "leaf C s1 r' v' = None" using vz[of v'] by (cases "4 - Suc k") auto
    ultimately show ?thesis by simp
  qed (rule other_slots(3)[OF i k4 e u])
qed

subsection \<open>Walks\<close>

lemma new_table:
  assumes i: "pt_inv U (Suc N) s" and k: "k < 4" and e: "slot C s r v k = Some e" and z: "pte_val s e = 0"
  shows "\<exists>p s1 t. pte_new g qi s = Inr (p, s1) \<and> t = pte_set e (pte_link (C r) (4 - k) p) s1 \<and> pt_inv (insert p U) N t \<and>
      (\<forall>r' v'. leaf C t r' v' = leaf C s r' v') \<and> table C t r v k = Some p \<and>
      (\<forall>n < 512. pmem t (p + 8 * n) = 0) \<and> (\<forall>j. k < j \<longrightarrow> table C t r v j = None) \<and> ptst.more t = ptst.more s"
proof -
  obtain p q where a: "pg_alloc g qi 0 (ppool s) = Inr (p, q)" "pool_ok q (insert p U) N" "p \<notin> U"
    using alloc_ok[OF pt_invD(1)[OF i]] by blast
  have p: "p \<noteq> 0" "take_bit 12 p = 0" "p < 2 ^ 52" using used_page[OF a(2), of p] by auto
  let ?s = "s\<lparr>ppool := q, pmem := fill_pages p 0 0 (pmem s)\<rparr>"
  let ?w = "pte_link (C r) (4 - k) p"
  let ?t = "pte_set e ?w ?s"
  have out: "pmem ?s x = pmem s x" if "x AND NOT 0xfff \<noteq> p" for x
    using in_page[OF p(2), of x] that by (auto simp: fill_pages_def PAGE_BITS_def)
  have val: "pte_val ?t e' = pte_val s e'" if "e' \<noteq> e" "n \<le> 4" "slot C s r' v' n = Some e'" for r' v' n e'
  proof (cases e')
    case (PEnt x)
    then have "x AND NOT 0xfff \<in> U" using slot_top_or_used[OF i that(2)] that(3) by simp
    then have "x AND NOT 0xfff \<noteq> p" using a(3) by auto
    then have "pmem ?s x = pmem s x" by (rule out)
    then show ?thesis using that(1) PEnt by (cases e) auto
  qed (use that(1) in \<open>cases e; auto\<close>)
  have self: "pte_val ?t e = ?w" by (cases e) auto
  have es: "entry_set e ?w s ?t" unfolding entry_set_def using val self by blast
  have zero: "pmem ?t (p + 8 * n) = 0" if "n < 512" for n
  proof -
    have "e \<noteq> PEnt (p + 8 * n)"
    proof
      assume "e = PEnt (p + 8 * n)"
      then have "(p + 8 * n) AND NOT 0xfff \<in> U" using slot_top_or_used[OF i _ e[unfolded \<open>e = _\<close>]] k by simp
      then show False using page_entry(2)[OF p(2) that] a(3) by simp
    qed
    then show ?thesis using fill_entry[OF p(3) that, of 0 "pmem s"] by (cases e) auto
  qed
  have pl: "ppool ?t = q" "ptst.more ?t = ptst.more s" by (cases e; simp)+
  note wl = write_link[OF i k e z es a(3) p zero, unfolded pl, OF _ a(2)]
  have "pte_new g qi s = Inr (p, ?s)" using a(1) by (simp add: pte_new_def)
  then show ?thesis using wl(1,2,3) wl(4)[where v' = v] pl zero by (intro exI[of _ p] exI[of _ ?s] exI[of _ ?t]) auto
qed

lemma walk_ok:
  fixes s :: "('r, 'q, 'x) ptst_scheme"
  assumes "pt_inv U N s" "n \<le> 4" "k \<le> 4 - n" "slot C s r v k = Some e"
    and "\<forall>j e. k \<le> j \<and> j < 4 - n \<and> slot C s r v j = Some e \<longrightarrow> \<not> (pte_val s e \<noteq> 0 \<and> pte_super (C r) (4 - j) (pte_val s e))"
    and "4 - n - k \<le> N"
  shows "\<exists>e1 s1. pt_walk_from (C r) g qi v n True (4 - k) e s = Inr (Some e1, s1) \<and> slot C s1 r v (4 - n) = Some e1 \<and>
      sound s1 \<and> (\<forall>r' v'. leaf C s1 r' v' = leaf C s r' v') \<and> ptst.more s1 = ptst.more s"
  using assms
proof (induction "4 - n - k" arbitrary: k e s U N)
  case 0
  then have kn: "k = 4 - n" "4 - k = n" by auto
  have "pt_walk_from (C r) g qi v n True (4 - k) e s = Inr (Some e, s)" unfolding kn(2) by (cases n) auto
  then show ?case using 0 kn(1) unfolding sound_def by blast
next
  case (Suc d)
  have k: "k < 4" "4 - k = Suc (3 - k)" "Suc (3 - k) \<noteq> n" "Suc k \<le> 4 - n" "d = 4 - n - Suc k" "3 - k = 4 - Suc k"
    using Suc.hyps(2) by auto
  have step: "\<exists>e1 s1. pt_walk_from (C r) g qi v n True (3 - k) (pte_next (C r) v (3 - k) e t) t = Inr (Some e1, s1) \<and>
      slot C s1 r v (4 - n) = Some e1 \<and> sound s1 \<and> (\<forall>r' v'. leaf C s1 r' v' = leaf C t r' v') \<and> ptst.more s1 = ptst.more t"
    if t: "pt_inv U' N' t" "slot C t r v (Suc k) = Some (pte_next (C r) v (3 - k) e t)" "d \<le> N'"
      "\<forall>j e. Suc k \<le> j \<and> j < 4 - n \<and> slot C t r v j = Some e \<longrightarrow> \<not> (pte_val t e \<noteq> 0 \<and> pte_super (C r) (4 - j) (pte_val t e))" for t :: "('r, 'q, 'x) ptst_scheme" and U' N'
    unfolding k(6) using Suc.hyps(1)[OF k(5) t(1) Suc.prems(2) k(4) t(2)[unfolded k(6)] t(4)] t(3) k(5) by simp
  show ?case
  proof (cases "pte_val s e = 0")
    case True
    obtain N' where N: "N = Suc N'" using Suc.prems(6) Suc.hyps(2) by (cases N) auto
    obtain p s1 t where n: "pte_new g qi s = Inr (p, s1)" "t = pte_set e (pte_link (C r) (4 - k) p) s1" and
      t: "pt_inv (insert p U) N' t" "\<forall>r' v'. leaf C t r' v' = leaf C s r' v'" "table C t r v k = Some p" "\<forall>j. k < j \<longrightarrow> table C t r v j = None"
         "\<forall>n < 512. pmem t (p + 8 * n) = 0" "ptst.more t = ptst.more s"
      using new_table[OF Suc.prems(1)[unfolded N] k(1) Suc.prems(4) True] by blast
    have sl: "slot C t r v (Suc k) = Some (pte_next (C r) v (3 - k) e t)"
    proof -
      have "pte_val t e = pte_link (C r) (4 - k) p" unfolding n(2) by (cases e) auto
      moreover have "p \<noteq> 0 \<and> take_bit 12 p = 0 \<and> p < 2 ^ 52" using table_page[OF t(1) k(1) t(3)] .
      ultimately have "pte_addr (C r) (pte_val t e) = p"
        using pte_laws.link_addr[OF class_laws[of r], of "4 - k" p] k(1) by auto
      then show ?thesis using t(3) by (simp add: slot_Suc pte_next_def)
    qed
    have cl: "\<forall>j e. Suc k \<le> j \<and> j < 4 - n \<and> slot C t r v j = Some e \<longrightarrow> \<not> (pte_val t e \<noteq> 0 \<and> pte_super (C r) (4 - j) (pte_val t e))"
    proof (intro allI impI)
      fix j e' assume j: "Suc k \<le> j \<and> j < 4 - n \<and> slot C t r v j = Some e'"
      have "j = Suc k"
      proof (rule ccontr)
        assume "j \<noteq> Suc k"
        then obtain e'' where "slot C t r v (Suc (Suc k)) = Some e''" using slot_prev[of C t r v j e' "Suc (Suc k)"] j by auto
        then show False using t(4) by (auto simp: slot_Suc)
      qed
      then have "e' = PEnt (p + 8 * pt_idx v (3 - k))" using j t(3) by (simp add: slot_Suc)
      then show "\<not> (pte_val t e' \<noteq> 0 \<and> pte_super (C r) (4 - j) (pte_val t e'))" using t(5) idx_bound by simp
    qed
    have "d \<le> N'" using N Suc.prems(6) Suc.hyps(2) by linarith
    from step[OF t(1) sl this cl] obtain e1 s2 where w:
      "pt_walk_from (C r) g qi v n True (3 - k) (pte_next (C r) v (3 - k) e t) t = Inr (Some e1, s2)"
      "slot C s2 r v (4 - n) = Some e1" "sound s2" "\<forall>r' v'. leaf C s2 r' v' = leaf C t r' v'" "ptst.more s2 = ptst.more t" by blast
    have "pt_walk_from (C r) g qi v n True (4 - k) e s = Inr (Some e1, s2)"
      using True n(1) n(2)[unfolded k(2)] k(3) w(1) unfolding k(2) by (simp add: Let_def)
    then show ?thesis using w(2-5) t(2,6) by auto
  next
    case False
    have "\<not> pte_super (C r) (4 - k) (pte_val s e)" 
      using spec[OF spec[OF Suc.prems(5), of k], of e] Suc.prems(4) False k(4) by simp
    then have "slot C s r v (Suc k) = Some (pte_next (C r) v (3 - k) e s)"
      using Suc.prems(4) False by (simp add: slot.simps(2))
    moreover have "d \<le> N" using Suc.prems(6) Suc.hyps(2) by linarith
    moreover have "\<forall>j e. Suc k \<le> j \<and> j < 4 - n \<and> slot C s r v j = Some e \<longrightarrow> \<not> (pte_val s e \<noteq> 0 \<and> pte_super (C r) (4 - j) (pte_val s e))"
      using Suc.prems(5) by auto
    ultimately obtain e1 s2 where w:
      "pt_walk_from (C r) g qi v n True (3 - k) (pte_next (C r) v (3 - k) e s) s = Inr (Some e1, s2)"
      "slot C s2 r v (4 - n) = Some e1" "sound s2" "\<forall>r' v'. leaf C s2 r' v' = leaf C s r' v'" "ptst.more s2 = ptst.more s"
      using step[OF Suc.prems(1)] by blast
    have "pt_walk_from (C r) g qi v n True (4 - k) e s = Inr (Some e1, s2)" using False k(3) w(1) unfolding k(2) by simp
    then show ?thesis using w(2-5) by auto
  qed
qed

subsection \<open>Updates\<close>

definition update_body :: "'i \<Rightarrow> 'r \<Rightarrow> pte_type \<Rightarrow> nat \<Rightarrow> 'r pent \<Rightarrow> mword \<Rightarrow> bool \<Rightarrow> ('r, 'q, 'x) ptst_scheme \<Rightarrow>
  (bool \<times> ('r, 'q, 'x) ptst_scheme) result" where
  "update_body qi r t l e p f s =
     (let w = pte_val s e
      in if w = 0 then Inr (f, s)
         else (let f = (f \<or> l \<noteq> 0 \<and> w \<noteq> p)
               in if t = TYPE_DF then Inr (f, s)
                  else if l \<noteq> 0 \<and> \<not> pte_super (C r) l w
                  then bind_result (pte_destroy g qi (pte_addr (C r) w) s) (\<lambda>s. Inr (True, s))
                  else Inr (f, s)))"

lemma update_step:
  assumes i: "pt_inv U N s" and k: "k \<le> 4" and e: "slot C s r u k = Some e" and fin: "final r k w"
  shows "\<exists>f' s0 s1. update_body qi r t (4 - k) e w f s = Inr (f', s0) \<and> s1 = pte_set e w s0 \<and> sound s1 \<and>
      (\<forall>r' v'. leaf C s1 r' v' = (if r' = r \<and> same_pre k u v' then if w = 0 then None else Some (4 - k, w) else leaf C s r' v')) \<and>
      (\<forall>r' v'. slot C s1 r' v' k = slot C s r' v' k) \<and> ptst.more s1 = ptst.more s"
proof -
  have es: "entry_set e w s (pte_set e w (s\<lparr>ppool := q\<rparr>))" for q
  proof -
    have "pte_val (pte_set e w (s\<lparr>ppool := q\<rparr>)) e' = (if e' = e then w else pte_val s e')" for e'
      by (cases e; cases e') auto
    then show ?thesis by (simp add: entry_set_def)
  qed
  have rest: "pt_inv U' N (pte_set e w (s\<lparr>ppool := q\<rparr>))"
    if "pool_ok q U' N" "\<And>r' v' j A. j < 4 \<Longrightarrow> table C (pte_set e w (s\<lparr>ppool := q\<rparr>)) r' v' j = Some A \<Longrightarrow> A \<in> U'" for q U'
  proof -
    have pl: "ppool (pte_set e w (s\<lparr>ppool := q\<rparr>)) = q" by (cases e) auto
    show ?thesis unfolding tables_inv_def pl
    proof (intro conjI allI impI)
      fix r1 v1 k1 r2 v2 k2 A
      assume a: "k1 < 4" "k2 < 4" "table C (pte_set e w (s\<lparr>ppool := q\<rparr>)) r1 v1 k1 = Some A" "table C (pte_set e w (s\<lparr>ppool := q\<rparr>)) r2 v2 k2 = Some A"
      have "table C s r1 v1 k1 = Some A" "table C s r2 v2 k2 = Some A"
        using write_final(2)[OF i k e es fin] a by blast+
      then show "r1 = r2" "k1 = k2" "same_pre k1 v1 v2" using pt_invD(3)[OF i a(1,2)] by blast+
    qed (use that in auto)
  qed
  have fin': "\<exists>f' s0 s1. update_body qi r t (4 - k) e w f s = Inr (f', s0) \<and> s1 = pte_set e w s0 \<and> sound s1 \<and>
      (\<forall>r' v'. leaf C s1 r' v' = (if r' = r \<and> same_pre k u v' then if w = 0 then None else Some (4 - k, w) else leaf C s r' v')) \<and>
      (\<forall>r' v'. slot C s1 r' v' k = slot C s r' v' k) \<and> ptst.more s1 = ptst.more s"
    if q: "update_body qi r t (4 - k) e w f s = Inr (f', s\<lparr>ppool := q\<rparr>)" "pt_inv U' N (pte_set e w (s\<lparr>ppool := q\<rparr>))" for f' q U'
  proof -
    have m: "ptst.more (pte_set e w (s\<lparr>ppool := q\<rparr>)) = ptst.more s" by (cases e) auto
    have snd: "sound (pte_set e w (s\<lparr>ppool := q\<rparr>))" using q(2) unfolding sound_def by blast
    show ?thesis
      using q(1) snd write_final(1)[OF i k e es fin] upper_slots(1)[OF i k e es order.refl] m
      by (intro exI[of _ f'] exI[of _ "s\<lparr>ppool := q\<rparr>"] exI[of _ "pte_set e w (s\<lparr>ppool := q\<rparr>)"]) auto
  qed
  have same: "s\<lparr>ppool := ppool s\<rparr> = s" by simp
  have keep: "pt_inv U N (pte_set e w (s\<lparr>ppool := ppool s\<rparr>))"
    using write_final(2)[OF i k e es fin] pt_invD(2)[OF i] by (intro rest pt_invD(1)[OF i]) blast
  show ?thesis
  proof (cases "pte_val s e \<noteq> 0 \<and> t \<noteq> TYPE_DF \<and> 4 - k \<noteq> 0 \<and> \<not> pte_super (C r) (4 - k) (pte_val s e)")
    case True
    then have k4: "k < 4" by auto
    let ?A = "pte_addr (C r) (pte_val s e)"
    have A: "table C s r u k = Some ?A" using e True by (simp add: table_def)
    then obtain q where q: "pg_free g qi ?A (ppool s) = Inr q" "pool_ok q (U - {?A}) N"
      using free_ok[OF pt_invD(1)[OF i] pt_invD(2)[OF i k4 A]] by blast
    have "B \<in> U - {?A}" if "j < 4" "table C (pte_set e w (s\<lparr>ppool := q\<rparr>)) r' v' j = Some B" for r' v' j B
    proof -
      have b: "table C s r' v' j = Some B" "\<not> (r' = r \<and> same_pre k u v' \<and> k \<le> j)"
        using write_final(2)[OF i k e es fin that] by auto
      have "B \<noteq> ?A" using pt_invD(3)[OF i k4 that(1) A] b by auto
      then show ?thesis using pt_invD(2)[OF i that(1) b(1)] by simp
    qed
    then have "pt_inv (U - {?A}) N (pte_set e w (s\<lparr>ppool := q\<rparr>))" by (rule rest[OF q(2)])
    then show ?thesis using True q(1) by (intro fin'[of True q "U - {?A}"]) (simp_all add: update_body_def Let_def pte_destroy_def)
  next
    case False
    then have "\<exists>f'. update_body qi r t (4 - k) e w f s = Inr (f', s\<lparr>ppool := ppool s\<rparr>)"
      unfolding same update_body_def Let_def by (cases "pte_val s e = 0"; cases "t = TYPE_DF") auto
    then obtain f' where "update_body qi r t (4 - k) e w f s = Inr (f', s\<lparr>ppool := ppool s\<rparr>)" by blast
    then show ?thesis using keep by (rule fin')
  qed
qed

lemma update_loop_Suc:
  "pt_update_loop (C r) g qi t l (PEnt x) k (Suc n) p sz f s =
     bind_result (update_body qi r t l (PEnt (x + 8 * k)) p f s) (\<lambda>(f, s).
       pt_update_loop (C r) g qi t l (PEnt x) (k + 1) n (p + sz) sz f (pte_set (PEnt (x + 8 * k)) p s))"
  by (simp add: update_body_def Let_def)

lemma update_loop_ok:
  fixes s :: "('r, 'q, 'x) ptst_scheme"
  assumes "sound s" "k \<le> 4"
    and "\<forall>j < n. slot C s r (V (a + j)) k = Some (PEnt (x + 8 * of_nat (a + j)))"
    and "\<forall>j < n. final r k (p + of_nat j * sz)"
    and "\<forall>j < n. \<forall>j' < n. j \<noteq> j' \<longrightarrow> \<not> same_pre k (V (a + j)) (V (a + j'))"
  shows "\<exists>f' s1. pt_update_loop (C r) g qi t (4 - k) (PEnt x) (of_nat a) n p sz f s = Inr (f', s1) \<and> sound s1 \<and>
      (\<forall>j < n. \<forall>v'. same_pre k (V (a + j)) v' \<longrightarrow>
         leaf C s1 r v' = (if p + of_nat j * sz = 0 then None else Some (4 - k, p + of_nat j * sz))) \<and>
      (\<forall>r' v'. r' \<noteq> r \<or> (\<forall>j < n. \<not> same_pre k (V (a + j)) v') \<longrightarrow> leaf C s1 r' v' = leaf C s r' v') \<and> ptst.more s1 = ptst.more s"
  using assms
proof (induction n arbitrary: a p f s)
  case (Suc n)
  let ?e = "PEnt (x + 8 * of_nat a)"
  have e: "slot C s r (V a) k = Some ?e" and fin: "final r k p" using Suc.prems(3,4) by (auto dest: spec[of _ 0])
  obtain U N where UN: "pt_inv U N s" using Suc.prems(1) by (auto simp: sound_def)
  obtain f1 s0 s1 where s1: "update_body qi r t (4 - k) ?e p f s = Inr (f1, s0)" "s1 = pte_set ?e p s0" "sound s1"
    "\<forall>r' v'. leaf C s1 r' v' = (if r' = r \<and> same_pre k (V a) v' then if p = 0 then None else Some (4 - k, p) else leaf C s r' v')"
    "\<forall>r' v'. slot C s1 r' v' k = slot C s r' v' k" "ptst.more s1 = ptst.more s"
    using update_step[OF UN Suc.prems(2) e fin, of qi t f] by blast
  have "\<exists>f' s2. pt_update_loop (C r) g qi t (4 - k) (PEnt x) (of_nat (Suc a)) n (p + sz) sz f1 s1 = Inr (f', s2) \<and> sound s2 \<and>
      (\<forall>j < n. \<forall>v'. same_pre k (V (Suc a + j)) v' \<longrightarrow>
         leaf C s2 r v' = (if p + sz + of_nat j * sz = 0 then None else Some (4 - k, p + sz + of_nat j * sz))) \<and>
      (\<forall>r' v'. r' \<noteq> r \<or> (\<forall>j < n. \<not> same_pre k (V (Suc a + j)) v') \<longrightarrow> leaf C s2 r' v' = leaf C s1 r' v') \<and> ptst.more s2 = ptst.more s1"
  proof (rule Suc.IH[OF s1(3) Suc.prems(2)])
    show "\<forall>j < n. slot C s1 r (V (Suc a + j)) k = Some (PEnt (x + 8 * of_nat (Suc a + j)))"
      using Suc.prems(3) s1(5) by (metis add_Suc_shift not_less_eq)
    show "\<forall>j < n. final r k (p + sz + of_nat j * sz)"
    proof (intro allI impI)
      fix j assume "j < n"
      then have "final r k (p + of_nat (Suc j) * sz)" using Suc.prems(4) by blast
      then show "final r k (p + sz + of_nat j * sz)" by (simp add: algebra_simps)
    qed
    show "\<forall>j < n. \<forall>j' < n. j \<noteq> j' \<longrightarrow> \<not> same_pre k (V (Suc a + j)) (V (Suc a + j'))"
      using Suc.prems(5) by (metis add_Suc_shift nat.inject not_less_eq)
  qed
  then obtain f2 s2 where s2: "pt_update_loop (C r) g qi t (4 - k) (PEnt x) (of_nat (Suc a)) n (p + sz) sz f1 s1 = Inr (f2, s2)" "sound s2"
    "\<forall>j < n. \<forall>v'. same_pre k (V (Suc a + j)) v' \<longrightarrow>
         leaf C s2 r v' = (if p + sz + of_nat j * sz = 0 then None else Some (4 - k, p + sz + of_nat j * sz))"
    "\<forall>r' v'. r' \<noteq> r \<or> (\<forall>j < n. \<not> same_pre k (V (Suc a + j)) v') \<longrightarrow> leaf C s2 r' v' = leaf C s1 r' v'" "ptst.more s2 = ptst.more s1" by blast
  have run: "pt_update_loop (C r) g qi t (4 - k) (PEnt x) (of_nat a) (Suc n) p sz f s = Inr (f2, s2)"
    unfolding update_loop_Suc using s1(1,2) s2(1) by (simp del: pt_update_loop.simps add: add.commute)
  have one: "leaf C s2 r v' = (if p + of_nat j * sz = 0 then None else Some (4 - k, p + of_nat j * sz))"
    if j: "j < Suc n" "same_pre k (V (a + j)) v'" for j v'
  proof (cases j)
    case 0
    have "\<not> same_pre k (V (Suc a + i)) v'" if "i < n" for i
    proof
      assume "same_pre k (V (Suc a + i)) v'"
      then have "same_pre k (V (a + 0)) (V (a + Suc i))" using j(2) 0 by (metis add.right_neutral add_Suc_shift same_pre_sym same_pre_trans)
      then show False using Suc.prems(5) that by (metis Suc_less_eq nat.distinct(1) zero_less_Suc)
    qed
    then have "leaf C s2 r v' = leaf C s1 r v'" using s2(4) by blast
    then show ?thesis using s1(4) j(2) 0 by simp
  next
    case (Suc i)
    then have "leaf C s2 r v' = (if p + sz + of_nat i * sz = 0 then None else Some (4 - k, p + sz + of_nat i * sz))"
      using s2(3) j by simp
    then show ?thesis by (simp add: Suc algebra_simps)
  qed
  have other: "leaf C s2 r' v' = leaf C s r' v'" if "r' \<noteq> r \<or> (\<forall>j < Suc n. \<not> same_pre k (V (a + j)) v')" for r' v'
  proof -
    have "r' \<noteq> r \<or> (\<forall>j < n. \<not> same_pre k (V (Suc a + j)) v')" using that by (metis Suc_less_eq add_Suc_shift)
    moreover have "\<not> (r' = r \<and> same_pre k (V a) v')" using that by (metis add.right_neutral zero_less_Suc)
    ultimately show ?thesis using s2(4) s1(4) by metis
  qed
  show ?case using run s2(2,5) s1(6) one other by (intro exI[of _ f2] exI[of _ s2]) auto
qed auto

end

subsection \<open>Mapping a block\<close>

text \<open>The addresses of the block of \<open>2 ^ o\<close> pages at \<open>v\<close>, among the 48 bits that are translated.\<close>

definition in_block :: "nat \<Rightarrow> mword \<Rightarrow> mword \<Rightarrow> bool" where
  "in_block o' v v' \<longleftrightarrow> (\<forall>j. 12 + o' \<le> j \<and> j < 48 \<longrightarrow> bit v j = bit v' j)"

definition part :: "nat \<Rightarrow> nat \<Rightarrow> mword" where
  "part l j = push_bit (l * 9 + 12) (of_nat j)"

lemma bit_part: "j < 2 ^ m \<Longrightarrow> m < 9 \<Longrightarrow> l < 4 \<Longrightarrow> bit (part l j) b \<longleftrightarrow> l * 9 + 12 \<le> b \<and> bit j (b - (l * 9 + 12))"
proof -
  assume "j < 2 ^ m" "m < 9" "l < 4"
  have h: "b' < m" if "bit j b'" for b'
  proof (rule ccontr)
    assume "\<not> b' < m"
    then have "(2::nat) ^ m \<le> 2 ^ b'" by simp
    then have "j < 2 ^ b'" using \<open>j < 2 ^ m\<close> by linarith
    then show False using that by (simp add: bit_iff_odd)
  qed
  show ?thesis using h[of "b - (l * 9 + 12)"] \<open>m < 9\<close> \<open>l < 4\<close> by (auto simp: part_def bit_simps)
qed

lemma bit_low: "j < 2 ^ m \<Longrightarrow> bit j b \<Longrightarrow> b < m" for j m b :: nat
proof (rule ccontr)
  assume "j < 2 ^ m" "bit j b" "\<not> b < m"
  then have "(2::nat) ^ m \<le> 2 ^ b" by simp
  then have "j < 2 ^ b" using \<open>j < 2 ^ m\<close> by linarith
  then show False using \<open>bit j b\<close> by (simp add: bit_iff_odd)
qed

lemma aligned_low: "take_bit n (v :: mword) = 0 \<Longrightarrow> j < n \<Longrightarrow> \<not> bit v j"
  by (metis bit_0_eq bit_take_bit_iff bot_apply bot_bool_def)

text \<open>\<open>block l m v\<close>: a block of \<open>2 ^ m\<close> entries of level \<open>l\<close> can start at \<open>v\<close>.\<close>

definition block :: "nat \<Rightarrow> nat \<Rightarrow> mword \<Rightarrow> bool" where
  "block l m v \<longleftrightarrow> l < 4 \<and> m < 9 \<and> take_bit (12 + (l * 9 + m)) v = 0"

lemma block_low: "block l m v \<Longrightarrow> b < 12 + (l * 9 + m) \<Longrightarrow> \<not> bit v b"
  by (rule aligned_low) (auto simp: block_def)

lemma block_bits: "block l m v \<Longrightarrow> j < 2 ^ m \<Longrightarrow> bit (v OR part l j) b \<longleftrightarrow> bit v b \<or> l * 9 + 12 \<le> b \<and> bit j (b - (l * 9 + 12))"
  using bit_part[of j m l b] by (simp add: block_def bit_simps)

lemma block_idx: "block l m v \<Longrightarrow> j < 2 ^ m \<Longrightarrow> pt_idx (v OR part l j) l = pt_idx v l + of_nat j"
proof -
  assume B: "block l m v" and j: "j < 2 ^ m"
  have lm: "l < 4" "m < 9" using B by (auto simp: block_def)
  have "(2::nat) ^ m \<le> 2 ^ 8" using lm(2) by (intro power_increasing) auto
  then have b: "bit (of_nat j :: mword) b \<longleftrightarrow> bit j b" for b
    using bit_low[OF j, of b] lm(2) by (auto simp: bit_simps)
  have dis: "pt_idx v l AND of_nat j = 0"
  proof (rule bit_word_eqI)
    fix b
    show "bit (pt_idx v l AND of_nat j) b = bit (0 :: mword) b"
      using block_low[OF B, of "l * 9 + 12 + b"] bit_low[OF j, of b] b[of b] by (auto simp: pt_idx_take bit_simps)
  qed
  have "pt_idx (v OR part l j) l = pt_idx v l OR of_nat j"
  proof (rule bit_word_eqI)
    fix b
    show "bit (pt_idx (v OR part l j) l) b = bit (pt_idx v l OR of_nat j) b"
      using block_bits[OF B j, of "l * 9 + 12 + b"] bit_low[OF j, of b] b[of b] lm
      by (auto simp: pt_idx_take bit_take_bit_iff bit_drop_bit_eq bit_or_iff)
  qed
  then show ?thesis using dis by (simp add: disjunctive_add_eq_or)
qed

lemma block_pre: "block l m v \<Longrightarrow> j < 2 ^ m \<Longrightarrow> same_pre (3 - l) v (v OR part l j)"
proof -
  assume B: "block l m v" and j: "j < 2 ^ m"
  have lm: "l < 4" "m < 9" using B by (auto simp: block_def)
  have "12 + 9 * (4 - (3 - l)) = l * 9 + 21" using lm(1) by simp
  then show ?thesis
    using block_bits[OF B j] bit_low[OF j] lm(2) unfolding same_pre_def by fastforce
qed

lemma block_distinct: "block l m v \<Longrightarrow> j < 2 ^ m \<Longrightarrow> j' < 2 ^ m \<Longrightarrow> same_pre (4 - l) (v OR part l j) (v OR part l j') \<Longrightarrow> j = j'"
proof -
  assume B: "block l m v" and j: "j < 2 ^ m" "j' < 2 ^ m" and s: "same_pre (4 - l) (v OR part l j) (v OR part l j')"
  have lm: "l < 4" "m < 9" using B by (auto simp: block_def)
  have "4 - l = Suc (3 - l)" "3 - l < 4" "3 - (3 - l) = l" using lm(1) by auto
  then have "pt_idx (v OR part l j) l = pt_idx (v OR part l j') l" using s same_pre_Suc[of "3 - l"] by metis
  then have "(of_nat j :: mword) = of_nat j'" by (simp add: block_idx[OF B] j)
  moreover have "(2::nat) ^ m \<le> 2 ^ 8" using lm(2) by (intro power_increasing) auto
  ultimately show "j = j'" using j by (auto simp: word_unat_eq_iff unat_of_nat)
qed

lemma in_block_iff: "block l m v \<Longrightarrow> in_block (l * 9 + m) v v' \<longleftrightarrow> same_pre (4 - l) (v OR part l (unat (take_bit m (drop_bit (l * 9 + 12) v')))) v'"
proof -
  assume B: "block l m v"
  have lm: "l < 4" "m < 9" using B by (auto simp: block_def)
  let ?j = "unat (take_bit m (drop_bit (l * 9 + 12) v'))"
  have j: "?j < 2 ^ m" by (simp only: unsigned_take_bit_eq take_bit_nat_less_exp)
  have bj: "bit ?j b \<longleftrightarrow> b < m \<and> bit v' (l * 9 + 12 + b)" for b
    by (auto simp: bit_unsigned_iff bit_simps)
  have e: "12 + 9 * (4 - (4 - l)) = l * 9 + 12" using lm(1) by simp
  have "bit (v OR part l ?j) b = bit v' b \<longleftrightarrow> (12 + (l * 9 + m) \<le> b \<longrightarrow> bit v b = bit v' b)" if "l * 9 + 12 \<le> b" for b
    using block_bits[OF B j, of b] bj[of "b - (l * 9 + 12)"] block_low[OF B, of b] that by auto
  then show ?thesis unfolding in_block_def same_pre_def e by auto
qed

lemma same_pre_in_block:
  assumes B: "block l m v" and j: "j < 2 ^ m" and s: "same_pre (4 - l) (v OR part l j) v'"
  shows "in_block (l * 9 + m) v v'"
  unfolding in_block_def
proof (intro allI impI)
  fix b assume b: "12 + (l * 9 + m) \<le> b \<and> b < 48"
  have "12 + 9 * (4 - (4 - l)) = l * 9 + 12" using B by (auto simp: block_def)
  then have "bit (v OR part l j) b = bit v' b" using s b unfolding same_pre_def by auto
  then show "bit v b = bit v' b" using block_bits[OF B j, of b] bit_low[OF j, of "b - (l * 9 + 12)"] b by auto
qed

lemma block_or:
  assumes "block l m v" "j < 2 ^ m" and w: "\<And>b. 12 \<le> b \<Longrightarrow> b < 52 \<Longrightarrow> \<not> bit w b"
  shows "(v OR w) + of_nat j * push_bit (l * 9 + 12) 1 = (v OR part l j) OR w"
proof -
  have lm: "l < 4" "m < 9" using assms(1) by (auto simp: block_def)
  have "of_nat j * push_bit (l * 9 + 12) 1 = part l j" by (simp add: part_def push_bit_eq_mult)
  moreover have "(v OR w) AND part l j = 0"
  proof (rule bit_word_eqI)
    fix b
    have False if "bit (part l j) b" "bit (v OR w) b"
    proof -
      have b: "l * 9 + 12 \<le> b" "b - (l * 9 + 12) < m"
        using bit_part[OF assms(2) lm(2,1), of b] bit_low[OF assms(2), of "b - (l * 9 + 12)"] that(1) by auto
      then have "12 \<le> b" "b < 12 + (l * 9 + m)" "b < 52" using lm by linarith+
      then show False using block_low[OF assms(1), of b] w[of b] that(2) by (simp add: bit_or_iff)
    qed
    then show "bit ((v OR w) AND part l j) b = bit (0 :: mword) b" by (auto simp: bit_and_iff)
  qed
  ultimately show ?thesis by (simp add: disjunctive_add_eq_or ac_simps)
qed

text \<open>The value of the entry for part \<open>j\<close> of a block mapped to \<open>p\<close>.\<close>

definition block_entry :: "pte_class \<Rightarrow> nat \<Rightarrow> nat \<Rightarrow> mword \<Rightarrow> mword \<Rightarrow> nat \<Rightarrow> mword" where
  "block_entry c l m p a j = (p OR part l j) OR (pte_ord c (of_nat m) OR pte_s c l OR a)"

context tables begin

lemma block_slots:
  fixes s :: "('r, 'q, 'x) ptst_scheme"
  assumes "block l m v" "table C s r v (3 - l) = Some A" "j < 2 ^ m"
  shows "slot C s r (v OR part l (0 + j)) (4 - l) = Some (PEnt (A + 8 * pt_idx v l + 8 * of_nat (0 + j)))"
proof -
  have k: "4 - l = Suc (3 - l)" "3 - (3 - l) = l" using assms(1) by (auto simp: block_def)
  have "table C s r (v OR part l j) (3 - l) = Some A" using table_pre[OF _ block_pre[OF assms(1,3)], of C s r] assms(2) by simp
  then show ?thesis unfolding k(1) slot_Suc k(2) by (simp add: block_idx[OF assms(1,3)] algebra_simps)
qed

lemma update_maps:
  fixes s :: "('r, 'q, 'x) ptst_scheme"
  assumes i: "pt_inv U N s" "4 - l \<le> N" and bv: "block l m v" and bp: "block l m p" and a: "attr_ok r a" "a \<noteq> 0"
    and nosup: "no_super_above C s r v l"
  shows "\<exists>f s1. pt_update (C r) g qi r v (l * 9 + m) p a TYPE_UP s = Inr (f, s1) \<and> sound s1 \<and> ptst.more s1 = ptst.more s \<and>
      (\<forall>r' v'. leaf C s1 r' v' =
         (if r' = r \<and> in_block (l * 9 + m) v v' then Some (l, block_entry (C r) l m p a (unat (take_bit m (drop_bit (l * 9 + 12) v'))))
          else leaf C s r' v'))"
proof -
  have lm: "l < 4" "m < 9" using bv by (auto simp: block_def)
  have k: "4 - l = Suc (3 - l)" "3 - l < 4" "3 - (3 - l) = l" "4 - l \<le> 4" "4 - (4 - l) = l" using lm(1) by auto
  note L = class_laws[of r]
  let ?w = "pte_ord (C r) (of_nat m) OR pte_s (C r) l OR a"
  let ?sz = "push_bit (l * 9 + 12) 1 :: mword"
  obtain e1 s1 where w: "pt_walk_from (C r) g qi v l True 4 (PTop r) s = Inr (Some e1, s1)" "slot C s1 r v (4 - l) = Some e1"
    "sound s1" "\<forall>r' v'. leaf C s1 r' v' = leaf C s r' v'" "ptst.more s1 = ptst.more s"
    using walk_ok[OF i(1), of l 0 r v "PTop r" qi] lm(1) nosup[unfolded no_super_above_def] i(2) by auto
  then obtain A where A: "table C s1 r v (3 - l) = Some A" "e1 = PEnt (A + 8 * pt_idx v l)"
    unfolding k(1) slot_Suc k(3) by auto
  have wb: "\<not> bit ?w b" if "12 \<le> b" "b < 52" for b
    using pte_laws.attr_bits[OF L a(1) that] pte_laws.low_bits(1)[OF L lm(2) that(1)] pte_laws.low_bits(2)[OF L that(1), of l]
    by (simp add: bit_or_iff)
  have ent: "(p OR ?w) + of_nat j * ?sz = block_entry (C r) l m p a j" if "j < 2 ^ m" for j
    unfolding block_entry_def by (rule block_or[OF bp that wb])
  have fin: "final r (4 - l) (block_entry (C r) l m p a j)" if j: "j < 2 ^ m" for j
  proof (cases "l = 0")
    case False
    have "take_bit 12 (p OR part l j) = 0"
    proof (rule bit_word_eqI)
      fix b show "bit (take_bit 12 (p OR part l j)) b = bit (0 :: mword) b"
        using block_bits[OF bp j, of b] block_low[OF bp, of b] unfolding bit_take_bit_iff by (cases "b < 12") auto
    qed
    then show ?thesis using pte_laws.leaf_super[OF L _ _ a(1) lm(2), of l "p OR part l j"] False
      unfolding final_def block_entry_def k(5) by (simp add: or.assoc)
  qed (simp add: final_def)
  have nz: "block_entry (C r) l m p a j \<noteq> 0" for j using a(2) by (auto simp: block_entry_def or_eq_0_iff)
  have dist: "\<forall>j < 2 ^ m. \<forall>j' < 2 ^ m. j \<noteq> j' \<longrightarrow> \<not> same_pre (4 - l) (v OR part l (0 + j)) (v OR part l (0 + j'))"
    using block_distinct[OF bv] by auto
  have fin': "\<forall>j < 2 ^ m. final r (4 - l) ((p OR ?w) + of_nat j * ?sz)" using ent fin by simp
  have sl': "\<forall>j < 2 ^ m. slot C s1 r (v OR part l (0 + j)) (4 - l) = Some (PEnt (A + 8 * pt_idx v l + 8 * of_nat (0 + j)))"
    using block_slots[OF bv A(1)] by blast
  obtain f s2 where u: "pt_update_loop (C r) g qi TYPE_UP l (PEnt (A + 8 * pt_idx v l)) (of_nat 0) (2 ^ m) (p OR ?w) ?sz False s1 = Inr (f, s2)" "sound s2"
    "\<forall>j < 2 ^ m. \<forall>v'. same_pre (4 - l) (v OR part l j) v' \<longrightarrow>
         leaf C s2 r v' = (if (p OR ?w) + of_nat j * ?sz = 0 then None else Some (l, (p OR ?w) + of_nat j * ?sz))"
    "\<forall>r' v'. r' \<noteq> r \<or> (\<forall>j < 2 ^ m. \<not> same_pre (4 - l) (v OR part l j) v') \<longrightarrow> leaf C s2 r' v' = leaf C s1 r' v'" "ptst.more s2 = ptst.more s1"
    using update_loop_ok[OF w(3) k(4) sl' fin' dist, of qi TYPE_UP False] unfolding k(5) add_0 of_nat_0 by (elim exE conjE) (rule that)
  have dm: "(l * 9 + m) div 9 = l" "m mod 9 = m" using lm(2) by auto
  have run: "pt_update (C r) g qi r v (l * 9 + m) p a TYPE_UP s = Inr (f, s2)"
    using w(1) u(1) a(2) by (simp add: pt_update_def pt_walk_def PTE_BPL_def PTE_LEV_def PAGE_BITS_def dm A(2) or.assoc)
  have lf: "leaf C s2 r' v' =
         (if r' = r \<and> in_block (l * 9 + m) v v' then Some (l, block_entry (C r) l m p a (unat (take_bit m (drop_bit (l * 9 + 12) v'))))
          else leaf C s r' v')" for r' v'
  proof -
    let ?j = "unat (take_bit m (drop_bit (l * 9 + 12) v'))"
    have j: "?j < 2 ^ m" by (simp only: unsigned_take_bit_eq take_bit_nat_less_exp)
    show ?thesis
    proof (cases "r' = r \<and> in_block (l * 9 + m) v v'")
      case True
      then have "same_pre (4 - l) (v OR part l ?j) v'" using in_block_iff[OF bv] by blast
      then have "leaf C s2 r v' = Some (l, block_entry (C r) l m p a ?j)" using u(3) j nz ent[OF j] by simp
      then show ?thesis using True by simp
    next
      case False
      have "in_block (l * 9 + m) v v'" if "j < 2 ^ m" "same_pre (4 - l) (v OR part l j) v'" for j
        using same_pre_in_block[OF bv that] .
      then have "leaf C s2 r' v' = leaf C s1 r' v'" using u(4) False by blast
      then show ?thesis using w(4) False by auto
    qed
  qed
  show ?thesis using run u(2,5) w(5) lf by (intro exI[of _ f] exI[of _ s2]) auto
qed

text \<open>What a lookup answers in the block: the frame, with the offset of the address in the block.\<close>

lemma block_translate:
  fixes v' :: mword
  assumes bp: "block l m p" and p: "p < 2 ^ 52" and a: "attr_ok r a"
  defines "w \<equiv> block_entry (C r) l m p a (unat (take_bit m (drop_bit (l * 9 + 12) v')))"
  shows "\<exists>k \<in> {0, m}. translate (C r) v' (l, w) =
    (push_bit (l * 9 + 12 + k) 1, p OR take_bit (12 + (l * 9 + m)) v', pte_attr w)"
proof -
  let ?j = "unat (take_bit m (drop_bit (l * 9 + 12) v'))"
  have lm: "l < 4" "m < 9" using bp by (auto simp: block_def)
  have j: "?j < 2 ^ m" by (simp only: unsigned_take_bit_eq take_bit_nat_less_exp)
  have bj: "bit ?j b \<longleftrightarrow> b < m \<and> bit v' (l * 9 + 12 + b)" for b by (auto simp: bit_unsigned_iff bit_simps)
  have bits: "bit (p OR part l ?j) b \<longleftrightarrow> bit p b \<or> l * 9 + 12 \<le> b \<and> b < 12 + (l * 9 + m) \<and> bit v' b" for b
    using block_bits[OF bp j, of b] bj[of "b - (l * 9 + 12)"] by auto
  have low: "take_bit 12 (p OR part l ?j) = 0"
  proof (rule bit_word_eqI)
    fix b show "bit (take_bit 12 (p OR part l ?j)) b = bit (0 :: mword) b"
      using bits[of b] block_low[OF bp, of b] unfolding bit_take_bit_iff by (cases "b < 12") auto
  qed
  have high: "p OR part l ?j < 2 ^ 52"
  proof -
    have np: "\<not> bit p b" if "52 \<le> b" for b
    proof
      assume "bit p b"
      then have "2 ^ b \<le> unat p" by (rule unat_ge_if_bit)
      moreover have "(2::nat) ^ 52 \<le> 2 ^ b" using that by (rule power_increasing) simp
      ultimately show False using p by (simp add: word_less_nat_alt)
    qed
    have "\<not> bit (p OR part l ?j) b" if "52 \<le> b" for b
    proof -
      have "\<not> b < 12 + (l * 9 + m)" using lm that by linarith
      then show ?thesis unfolding bits using np[OF that] by blast
    qed
    then have "bit (take_bit 52 (p OR part l ?j)) b = bit (p OR part l ?j) b" for b
      unfolding bit_take_bit_iff by (cases "b < 52") auto
    then have e: "take_bit 52 (p OR part l ?j) = p OR part l ?j" by (intro bit_word_eqI)
    have "unat (take_bit 52 (p OR part l ?j)) < 2 ^ 52" by (simp only: unsigned_take_bit_eq take_bit_nat_less_exp)
    then have "unat (p OR part l ?j) < 2 ^ 52" unfolding e .
    then show ?thesis by (simp add: word_less_nat_alt)
  qed
  note L = class_laws[of r]
  have ad: "pte_addr (C r) w = p OR part l ?j" and od: "pte_order (C r) w \<in> {12, 12 + m}"
    unfolding w_def block_entry_def by (rule pte_laws.leaf_addr[OF L low high a lm(2)], rule pte_laws.leaf_order[OF L low a lm(2)])
  then obtain k where k: "k \<in> {0, m}" "pte_order (C r) w = 12 + k" by auto
  have "(p OR part l ?j) OR (v' AND (push_bit (l * 9 + 12 + k) 1 - 1)) = p OR take_bit (12 + (l * 9 + m)) v'"
  proof -
    have e: "push_bit (l * 9 + 12 + k) 1 - 1 = (mask (l * 9 + 12 + k) :: mword)" by (simp add: mask_eq_exp_minus_1)
    show ?thesis unfolding e
    proof (rule bit_word_eqI)
      fix b assume "b < LENGTH(64)"
      show "bit ((p OR part l ?j) OR (v' AND mask (l * 9 + 12 + k))) b = bit (p OR take_bit (12 + (l * 9 + m)) v') b"
        unfolding bit_or_iff[of "p OR part l ?j"] bits using k(1) \<open>b < _\<close> by (auto simp: bit_simps)
    qed
  qed
  then show ?thesis using k ad by (intro bexI[of _ k]) (simp_all add: translate_def add.assoc)
qed

subsection \<open>Unmapping a block\<close>

lemma walk_find:
  assumes "n \<le> 4" "k \<le> 4 - n" "slot C s r v k = Some e"
    and "\<forall>j e. k \<le> j \<and> j < 4 - n \<and> slot C s r v j = Some e \<longrightarrow> \<not> (pte_val s e \<noteq> 0 \<and> pte_super (C r) (4 - j) (pte_val s e))"
  shows "pt_walk_from (C r) g qi v n False (4 - k) e s = Inr (slot C s r v (4 - n), s) \<and>
      (slot C s r v (4 - n) = None \<longrightarrow> (\<exists>j < 4 - n. \<exists>e. slot C s r v j = Some e \<and> pte_val s e = 0))"
  using assms
proof (induction "4 - n - k" arbitrary: k e)
  case 0
  then have kn: "k = 4 - n" "4 - k = n" by auto
  have "pt_walk_from (C r) g qi v n False (4 - k) e s = Inr (Some e, s)" unfolding kn(2) by (cases n) auto
  then show ?case using 0 kn(1) by auto
next
  case (Suc d)
  have k: "k < 4" "4 - k = Suc (3 - k)" "Suc (3 - k) \<noteq> n" "Suc k \<le> 4 - n" "d = 4 - n - Suc k" "3 - k = 4 - Suc k" "k < 4 - n"
    using Suc.hyps(2) by auto
  show ?case
  proof (cases "pte_val s e = 0")
    case True
    have "slot C s r v (Suc k) = None" using Suc.prems(3) True by (simp add: slot.simps(2))
    then have "slot C s r v (4 - n) = None" using slot_prev[of C s r v "4 - n" _ "Suc k"] k(4) by fastforce
    then show ?thesis using True k(3,7) Suc.prems(3) unfolding k(2) by auto
  next
    case False
    have "\<not> pte_super (C r) (4 - k) (pte_val s e)"
      using spec[OF spec[OF Suc.prems(4), of k], of e] Suc.prems(3) False k(7) by simp
    then have "slot C s r v (Suc k) = Some (pte_next (C r) v (3 - k) e s)" using Suc.prems(3) False by (simp add: slot.simps(2))
    from Suc.hyps(1)[OF k(5) Suc.prems(1) k(4) this] Suc.prems(4)
    have "pt_walk_from (C r) g qi v n False (3 - k) (pte_next (C r) v (3 - k) e s) s = Inr (slot C s r v (4 - n), s) \<and>
      (slot C s r v (4 - n) = None \<longrightarrow> (\<exists>j < 4 - n. \<exists>e. slot C s r v j = Some e \<and> pte_val s e = 0))"
      unfolding k(6) by auto
    then show ?thesis using False k(3) unfolding k(2) by simp
  qed
qed

lemma update_unmaps:
  fixes s :: "('r, 'q, 'x) ptst_scheme"
  assumes i: "pt_inv U N s" and bv: "block l m v" and nosup: "no_super_above C s r v l"
  shows "\<exists>f s1. pt_update (C r) g qi r v (l * 9 + m) p 0 TYPE_DN s = Inr (f, s1) \<and> sound s1 \<and> ptst.more s1 = ptst.more s \<and>
      (\<forall>r' v'. leaf C s1 r' v' = (if r' = r \<and> in_block (l * 9 + m) v v' then None else leaf C s r' v'))"
proof -
  have lm: "l < 4" "m < 9" using bv by (auto simp: block_def)
  have k: "4 - l = Suc (3 - l)" "3 - l < 4" "3 - (3 - l) = l" "4 - l \<le> 4" "4 - (4 - l) = l" using lm(1) by auto
  have dm: "(l * 9 + m) div 9 = l" "m mod 9 = m" using lm(2) by auto
  have pre: "same_pre (3 - l) v v'" if "in_block (l * 9 + m) v v'" for v'
  proof -
    have "12 + 9 * (4 - (3 - l)) = l * 9 + 21" using lm(1) by simp
    then show ?thesis using that lm unfolding in_block_def same_pre_def by auto
  qed
  have w: "pt_walk_from (C r) g qi v l False 4 (PTop r) s = Inr (slot C s r v (4 - l), s)"
      "slot C s r v (4 - l) = None \<Longrightarrow> \<exists>j < 4 - l. \<exists>e. slot C s r v j = Some e \<and> pte_val s e = 0"
    using walk_find[of l 0 s r v "PTop r" qi] lm(1) nosup[unfolded no_super_above_def] by auto
  show ?thesis
  proof (cases "slot C s r v (4 - l)")
    case None
    then obtain j e where e: "j < 4 - l" "slot C s r v j = Some e" "pte_val s e = 0" using w(2) by blast
    have "leaf C s r v' = None" if "in_block (l * 9 + m) v v'" for v'
    proof -
      have "same_pre j v v'" using same_pre_mono[OF pre[OF that], of j] e(1) by simp
      then have "leaf C s r v' = leaf_from (C r) v' (4 - j) e s"
        using leaf_slot[of j C s r v' e] slot_pre[of j v v' C s r] e(1,2) by simp
      then show ?thesis using e(3) by (cases "4 - j") auto
    qed
    moreover have "pt_update (C r) g qi r v (l * 9 + m) p 0 TYPE_DN s = Inr (False, s)"
      using w(1) None by (simp add: pt_update_def pt_walk_def PTE_BPL_def PTE_LEV_def dm)
    ultimately show ?thesis using i unfolding sound_def by (intro exI[of _ False] exI[of _ s]) auto
  next
    case (Some e1)
    then obtain A where A: "table C s r v (3 - l) = Some A" "e1 = PEnt (A + 8 * pt_idx v l)"
      unfolding k(1) slot_Suc k(3) by auto
    have sl: "\<forall>j < 2 ^ m. slot C s r (v OR part l (0 + j)) (4 - l) = Some (PEnt (A + 8 * pt_idx v l + 8 * of_nat (0 + j)))"
      using block_slots[OF bv A(1)] by blast
    have dist: "\<forall>j < 2 ^ m. \<forall>j' < 2 ^ m. j \<noteq> j' \<longrightarrow> \<not> same_pre (4 - l) (v OR part l (0 + j)) (v OR part l (0 + j'))"
      using block_distinct[OF bv] by auto
    have fin: "\<forall>j < 2 ^ m. final r (4 - l) (0 + of_nat j * 0)" by (simp add: final_def)
    have snd: "sound s" using i unfolding sound_def by blast
    obtain f s2 where u: "pt_update_loop (C r) g qi TYPE_DN l (PEnt (A + 8 * pt_idx v l)) (of_nat 0) (2 ^ m) 0 0 False s = Inr (f, s2)" "sound s2"
      "\<forall>j < 2 ^ m. \<forall>v'. same_pre (4 - l) (v OR part l j) v' \<longrightarrow>
         leaf C s2 r v' = (if of_nat j * 0 = (0 :: mword) then None else Some (l, of_nat j * 0))"
      "\<forall>r' v'. r' \<noteq> r \<or> (\<forall>j < 2 ^ m. \<not> same_pre (4 - l) (v OR part l j) v') \<longrightarrow> leaf C s2 r' v' = leaf C s r' v'" "ptst.more s2 = ptst.more s"
      using update_loop_ok[OF snd k(4) sl fin dist, of qi TYPE_DN False] unfolding k(5) add_0 of_nat_0 by (elim exE conjE) (rule that)
    have run: "pt_update (C r) g qi r v (l * 9 + m) p 0 TYPE_DN s = Inr (f, s2)"
      using w(1) u(1) Some by (simp add: pt_update_def pt_walk_def PTE_BPL_def PTE_LEV_def PAGE_BITS_def dm A(2))
    have lf: "leaf C s2 r' v' = (if r' = r \<and> in_block (l * 9 + m) v v' then None else leaf C s r' v')" for r' v'
    proof (cases "r' = r \<and> in_block (l * 9 + m) v v'")
      case True
      let ?j = "unat (take_bit m (drop_bit (l * 9 + 12) v'))"
      have "?j < 2 ^ m" by (simp only: unsigned_take_bit_eq take_bit_nat_less_exp)
      moreover have "same_pre (4 - l) (v OR part l ?j) v'" using in_block_iff[OF bv] True by blast
      ultimately show ?thesis using u(3) True by simp
    next
      case False
      then show ?thesis using u(4) same_pre_in_block[OF bv] by auto
    qed
    show ?thesis using run u(2,5) lf by (intro exI[of _ f] exI[of _ s2]) auto
  qed
qed

end

end
