(* ===== verification/Paging.thy ===== *)
theory Paging
  imports Pte_map
begin

text \<open>
  The page tables of the hypervisor on the memory of the buddy allocator: the four kinds of
  table obey \<open>pte_laws\<close>, a pool of \<open>Buddy\<close> is a \<open>page_source\<close>, and so an update of a table
  translates the addresses of its block to the frames asked for and no others.
\<close>

subsection \<open>Pages from the buddy allocator\<close>

text \<open>
  \<open>Pte::operator new\<close> and \<open>Pte::destroy\<close>: a page of order 0 by its physical address, at the
  expense of the quota \<open>i\<close>. The contents are set by \<open>pte_new\<close>.
\<close>

definition pool_offset :: "pool list \<Rightarrow> mword" where
  "pool_offset ps = (case ps of [] \<Rightarrow> 0 | p # _ \<Rightarrow> offset p)"

definition buddy_pages :: "('i, pool list \<times> 'i quotas) pages_src" where
  "buddy_pages =
     \<lparr>pg_alloc = \<lambda>i o' (ps, qs).
        bind_result (buddy_alloc o' NOFILL ps (qs i) (\<lambda>_. 0)) (\<lambda>(a, ps, q, m). Inr (a - pool_offset ps, ps, qs(i := q))),
      pg_free = \<lambda>i p (ps, qs).
        bind_result (buddy_free (p + pool_offset ps) ps (qs i)) (\<lambda>(ps, q). Inr (ps, qs(i := q)))\<rparr>"

definition page_phys :: "pool \<Rightarrow> int \<Rightarrow> mword" where
  "page_phys p i = index_to_page p i - offset p"

definition phys_ok :: "pool \<Rightarrow> bool" where
  "phys_ok p \<longleftrightarrow> 0 < uint (base p - offset p) + min_idx p * 2 ^ 12 \<and> uint (base p - offset p) + max_idx p * 2 ^ 12 \<le> 2 ^ 52"

definition free_indices :: "pool \<Rightarrow> (int \<times> nat) set \<Rightarrow> int set" where
  "free_indices p B = {min_idx p..<max_idx p} - (\<Union>b\<in>B. rng b)"

text \<open>The pages \<open>U\<close> are used blocks of one page, and at least \<open>N\<close> more pages are free.\<close>

definition buddy_ok :: "pool list \<times> 'i quotas \<Rightarrow> mword set \<Rightarrow> nat \<Rightarrow> bool" where
  "buddy_ok q U N \<longleftrightarrow> (\<exists>p fl B. fst q = [p] \<and> pool_inv p fl B {} \<and> geometry_ok p \<and> phys_ok p \<and>
     U \<subseteq> {page_phys p i |i. (i, 0) \<in> B} \<and> N \<le> card (free_indices p B))"

lemma page_phys_uint:
  assumes "phys_ok p" "min_idx p \<le> i" "i < max_idx p"
  shows "uint (page_phys p i) = uint (base p - offset p) + i * 2 ^ 12"
proof -
  have e: "page_phys p i = word_of_int (uint (base p - offset p) + i * 2 ^ 12)"
    by (simp add: page_phys_def index_to_page_def PAGE_SIZE_def)
  have "0 < uint (base p - offset p) + i * 2 ^ 12" "uint (base p - offset p) + i * 2 ^ 12 < 2 ^ 52"
    using assms by (auto simp: phys_ok_def)
  then show ?thesis unfolding e by (simp only: uint_word_of_int) simp
qed

lemma page_phys_inj:
  assumes "phys_ok p" "min_idx p \<le> i" "i < max_idx p" "min_idx p \<le> j" "j < max_idx p" "page_phys p i = page_phys p j"
  shows "i = j"
proof -
  have "uint (base p - offset p) + i * 2 ^ 12 = uint (base p - offset p) + j * 2 ^ 12"
    unfolding page_phys_uint[OF assms(1-3), symmetric] page_phys_uint[OF assms(1,4,5), symmetric] by (rule arg_cong[OF assms(6)])
  then show ?thesis by simp
qed

lemma used_index:
  assumes "pool_inv p fl B {}" "(i, k) \<in> B"
  shows "k < order p" "min_idx p \<le> i" "i < max_idx p" "2 ^ k dvd i"
proof -
  have "(i, k) \<in> all_blocks fl B {}" using assms(2) by (simp add: all_blocks_def)
  note b = parts_okD[OF pool_invD(2)[OF assms(1)] this]
  then show "k < order p" "min_idx p \<le> i" "2 ^ k dvd i" by auto
  show "i < max_idx p" using b(4) zero_less_power[of "2::int" k] by linarith
qed

lemma page_phys_page:
  assumes "pool_inv p fl B {}" "geometry_ok p" "phys_ok p" "(i, 0) \<in> B"
  shows "page_phys p i \<noteq> 0 \<and> take_bit 12 (page_phys p i) = 0 \<and> page_phys p i < 2 ^ 52"
proof -
  note u = used_index[OF assms(1,4)]
  have l: "uint (page_phys p i) = uint (base p - offset p) + i * 2 ^ 12" by (rule page_phys_uint[OF assms(3) u(2,3)])
  then have "0 < uint (page_phys p i)" "uint (page_phys p i) < 2 ^ 52" using assms(3) u(2,3) by (auto simp: phys_ok_def)
  then have "page_phys p i \<noteq> 0" "page_phys p i < 2 ^ 52" by (auto simp: word_less_def)
  moreover have "order_aligned p (index_to_page p i) 0" by (rule block_aligned[OF assms(2) u(1)]) simp
  then have "take_bit 12 (page_phys p i) = 0"
    by (simp add: order_aligned_def virt_to_phys_def page_phys_def PAGE_BITS_def take_bit_eq_mask mask_eq_exp_minus_1)
  ultimately show ?thesis by blast
qed

lemma buddy_alloc_page:
  fixes qs :: "'i quotas"
  assumes "buddy_ok (ps, qs) U (Suc N)"
  shows "\<exists>p q'. pg_alloc buddy_pages i 0 (ps, qs) = Inr (p, q') \<and> p \<notin> U \<and> buddy_ok q' (insert p U) N"
proof -
  obtain p fl B where b: "ps = [p]" "pool_inv p fl B {}" "geometry_ok p" "phys_ok p"
    "U \<subseteq> {page_phys p i |i. (i, 0) \<in> B}" "Suc N \<le> card (free_indices p B)"
    using assms by (auto simp: buddy_ok_def)
  then obtain x where x: "x \<in> free_indices p B" by (cases "free_indices p B = {}") auto
  then obtain c where c: "c \<in> all_blocks fl B {}" "x \<in> rng c"
    using pool_invD(2)[OF b(2)] by (auto simp: free_indices_def parts_ok_def)
  then have "c \<in> frees fl" using x by (auto simp: all_blocks_def free_indices_def)
  then have ne: "\<not> (\<forall>j. 0 \<le> j \<longrightarrow> fl j = [])" by (force simp: frees_def)
  obtain n p' fl' j where a: "pool_alloc 0 NOFILL p (qs i) (\<lambda>_. 0) = Inr (Some (index_to_page p n), p', quota_alloc (qs i) (push_bit 0 1), \<lambda>_. 0)"
    "pool_inv p' fl' (insert (n, 0) B) {}" "same_geometry p p'" "n \<in> set (fl j)"
    using pool_alloc_spec[OF b(2,3), of 0 NOFILL "qs i" "\<lambda>_. 0", unfolded if_not_P[OF ne]] by auto
  have g: "min_idx p' = min_idx p" "max_idx p' = max_idx p" "offset p' = offset p" "base p' = base p" "geometry_ok p'" "phys_ok p'"
    "page_phys p' = page_phys p"
    using a(3) geometry_same[OF a(3)] b(3,4) by (auto simp: same_geometry_def phys_ok_def page_phys_def index_to_page_def fun_eq_iff)
  let ?q = "([p'], qs(i := quota_alloc (qs i) 1))"
  have run: "pg_alloc buddy_pages i 0 (ps, qs) = Inr (page_phys p n, ?q)"
    using a(1) by (simp add: b(1) buddy_pages_def pool_offset_def g(3) page_phys_def)
  note n = used_index[OF a(2), of n 0, simplified]
  have "page_phys p n \<notin> U"
  proof
    assume "page_phys p n \<in> U"
    then obtain k where k: "page_phys p n = page_phys p k" "(k, 0) \<in> B" using b(5) by blast
    note u = used_index[OF b(2) k(2)]
    have "n = k" by (rule page_phys_inj[OF b(4) _ _ u(2,3) k(1)]) (use n g in auto)
    then show False using tags_okD(2)[OF pool_invD(3)[OF b(2)] k(2)] tags_okD(1)[OF pool_invD(3)[OF b(2)] a(4)] by simp
  qed
  moreover have "buddy_ok ?q (insert (page_phys p n) U) N"
  proof -
    have "free_indices p B - {n} = free_indices p' (insert (n, 0) B)" by (auto simp: free_indices_def g rng_def)
    moreover have "N \<le> card (free_indices p B - {n})" using b(6) by (cases "n \<in> free_indices p B") (simp_all add: card_Diff_singleton)
    ultimately show ?thesis unfolding buddy_ok_def using a(2) b(5) g by (intro exI[of _ p'] exI[of _ fl'] exI[of _ "insert (n, 0) B"]) auto
  qed
  ultimately show ?thesis using run by blast
qed

lemma buddy_free_page:
  fixes qs :: "'i quotas"
  assumes "buddy_ok (ps, qs) U N" "a \<in> U"
  shows "\<exists>q'. pg_free buddy_pages i a (ps, qs) = Inr q' \<and> buddy_ok q' (U - {a}) N"
proof -
  obtain p fl B where b: "ps = [p]" "pool_inv p fl B {}" "geometry_ok p" "phys_ok p"
    "U \<subseteq> {page_phys p i |i. (i, 0) \<in> B}" "N \<le> card (free_indices p B)"
    using assms(1) by (auto simp: buddy_ok_def)
  obtain n where n: "a = page_phys p n" "(n, 0) \<in> B" using b(5) assms(2) by blast
  obtain p' fl' where f: "pool_free (index_to_page p n) p (qs i) = Inr (p', quota_free (qs i) (push_bit 0 1))"
    "pool_inv p' fl' (B - {(n, 0)}) {}" "same_geometry p p'"
    using pool_free_spec[OF b(2,3) n(2)] by blast
  note u = used_index[OF b(2) n(2)]
  have ix: "page_to_index p (index_to_page p n) = n" by (rule page_index_roundtrip[OF b(3) u(2,3)])
  let ?q = "([p'], qs(i := quota_free (qs i) 1))"
  have run: "pg_free buddy_pages i a (ps, qs) = Inr ?q"
    using f(1) ix u(2,3) by (simp add: b(1) n(1) buddy_pages_def pool_offset_def page_phys_def)
  have g: "min_idx p' = min_idx p" "max_idx p' = max_idx p" "geometry_ok p'" "phys_ok p'" "page_phys p' = page_phys p"
    using f(3) geometry_same[OF f(3)] b(3,4) by (auto simp: same_geometry_def phys_ok_def page_phys_def index_to_page_def fun_eq_iff)
  have "card (free_indices p B) \<le> card (free_indices p' (B - {(n, 0)}))"
    by (rule card_mono) (auto simp: free_indices_def g)
  moreover have "U - {a} \<subseteq> {page_phys p i |i. (i, 0) \<in> B - {(n, 0)}}" using b(5) n(1) by auto
  ultimately have "buddy_ok ?q (U - {a}) N" unfolding buddy_ok_def using f(2) b(6) g
    by (intro exI[of _ p'] exI[of _ fl'] exI[of _ "B - {(n, 0)}"]) auto
  then show ?thesis using run by blast
qed

interpretation bp: page_source "buddy_pages :: ('i, pool list \<times> 'i quotas) pages_src" buddy_ok
proof
  fix q :: "pool list \<times> 'i quotas" and U N i p
  show "\<exists>p q'. pg_alloc buddy_pages i 0 q = Inr (p, q') \<and> p \<notin> U \<and> buddy_ok q' (insert p U) N" if "buddy_ok q U (Suc N)"
    using buddy_alloc_page[of "fst q" "snd q" U N i] that by simp
  show "\<exists>q'. pg_free buddy_pages i p q = Inr q' \<and> buddy_ok q' (U - {p}) N" if "buddy_ok q U N" "p \<in> U"
    using buddy_free_page[of "fst q" "snd q" U N p i] that by simp
  show "p \<noteq> 0 \<and> take_bit 12 p = 0 \<and> p < 2 ^ 52" if q: "buddy_ok q U N" and p: "p \<in> U"
  proof -
    obtain r fl B where b: "pool_inv r fl B {}" "geometry_ok r" "phys_ok r" "U \<subseteq> {page_phys r i |i. (i, 0) \<in> B}"
      using q unfolding buddy_ok_def by blast
    obtain n where n: "p = page_phys r n" "(n, 0) \<in> B" using subsetD[OF b(4) p] by auto
    show ?thesis unfolding n(1) by (rule page_phys_page[OF b(1-3) n(2)])
  qed
qed

subsection \<open>The laws of the entries\<close>

lemma bit_fff: "bit (0xfff :: mword) j \<longleftrightarrow> j < 12"
  using bit_mask_iff[of 12 j, where 'a = "64 word"] by (auto simp: mask_eq_exp_minus_1)

lemma page_mask: "push_bit PAGE_BITS 1 - 1 = (0xfff :: mword)" "PAGE_MASK = 0xfff"
  by (simp_all add: PAGE_BITS_def PAGE_MASK_def)

lemma low_zero: "take_bit n (p :: mword) = 0 \<longleftrightarrow> (\<forall>j < n. \<not> bit p j)"
  by (auto dest: aligned_low intro!: bit_word_eqI simp: bit_take_bit_iff)

lemma unat_exp: "n < 64 \<Longrightarrow> unat (2 ^ n :: mword) = 2 ^ n"
proof -
  assume "n < 64"
  then have "(2::nat) ^ n < 2 ^ 64" by (intro power_strict_increasing) simp_all
  moreover have "(2 :: mword) ^ n = word_of_nat (2 ^ n)" by simp
  ultimately show ?thesis by (simp only: unat_of_nat) simp
qed

lemma high_zero: "n < 64 \<Longrightarrow> p < 2 ^ n \<Longrightarrow> n \<le> j \<Longrightarrow> \<not> bit (p :: mword) j"
proof
  assume "n < 64" "p < 2 ^ n" "n \<le> j" "bit p j"
  then have "2 ^ j \<le> unat p" by (intro unat_ge_if_bit)
  moreover have "(2::nat) ^ n \<le> 2 ^ j" using \<open>n \<le> j\<close> by (rule power_increasing) simp
  moreover have "unat p < 2 ^ n" using \<open>p < 2 ^ n\<close> \<open>n < 64\<close> by (simp add: word_less_nat_alt unat_exp)
  ultimately show False by linarith
qed

text \<open>The bits of an entry outside its address.\<close>

definition ctl :: "mword \<Rightarrow> bool" where
  "ctl c \<longleftrightarrow> take_bit 12 c OR push_bit 52 (drop_bit 52 c) = c"

lemma ctl_bits: "ctl c \<Longrightarrow> 12 \<le> j \<Longrightarrow> j < 52 \<Longrightarrow> \<not> bit c j"
proof
  assume "ctl c" and j: "12 \<le> j" "j < 52" "bit c j"
  then have "bit (take_bit 12 c OR push_bit 52 (drop_bit 52 c)) j" by (simp add: ctl_def)
  then show False using j by (simp add: bit_simps)
qed

lemma ctlI: "(\<And>j. 12 \<le> j \<Longrightarrow> j < 52 \<Longrightarrow> \<not> bit c j) \<Longrightarrow> ctl c"
  unfolding ctl_def
proof (rule bit_word_eqI)
  fix n assume "\<And>j. 12 \<le> j \<Longrightarrow> j < 52 \<Longrightarrow> \<not> bit c j" "n < LENGTH(64)"
  then show "bit (take_bit 12 c OR push_bit 52 (drop_bit 52 c)) n = bit c n"
    by (cases "n < 12"; cases "n < 52") (auto simp: bit_simps)
qed

lemma low_const: "take_bit n c = (c :: mword) \<Longrightarrow> n \<le> j \<Longrightarrow> \<not> bit c j"
  by (metis bit_take_bit_iff not_le)

lemma ctl_low: "take_bit 12 c = c \<Longrightarrow> ctl c"
  by (rule ctlI) (rule low_const)

lemma mask_addr:
  assumes "take_bit 12 p = 0" "take_bit 12 c = c"
  shows "(p OR c) AND NOT 0xfff = (p :: mword)"
proof (rule bit_word_eqI)
  fix j assume "j < LENGTH(64)"
  have "\<not> bit p j" if "j < 12" using assms(1) that by (simp add: low_zero)
  moreover have "\<not> bit c j" if "12 \<le> j" using arg_cong[OF assms(2), of "\<lambda>w. bit w j"] that by (simp add: bit_take_bit_iff)
  ultimately show "bit ((p OR c) AND NOT 0xfff) j = bit p j"
    using \<open>j < _\<close> unfolding bit_and_iff bit_or_iff bit_not_iff bit_fff by (cases "j < 12") auto
qed

lemma bit_NX: "x AND HPT_NX \<noteq> 0 \<longleftrightarrow> bit x 63" "x AND drop_bit 1 HPT_NX \<noteq> 0 \<longleftrightarrow> bit x 62"
proof -
  have e: "drop_bit 1 HPT_NX = (2 ^ 62 :: mword)" "HPT_NX = 2 ^ 63" by (simp_all add: HPT_NX_def drop_bit_eq_div)
  show "x AND HPT_NX \<noteq> 0 \<longleftrightarrow> bit x 63" "x AND drop_bit 1 HPT_NX \<noteq> 0 \<longleftrightarrow> bit x 62"
    unfolding e(1) by (simp_all only: e(2) and_exp_eq_0_iff_not_bit not_not)
qed

lemma hpt_addr_or:
  assumes p: "take_bit 12 p = 0" "p < 2 ^ 52" and c: "ctl c" "\<And>j. 52 \<le> j \<Longrightarrow> j < 63 \<Longrightarrow> \<not> bit c j"
  shows "hpt_addr (p OR c) = p"
proof -
  let ?a = "(p OR c) AND NOT 0xfff"
  have a: "bit ?a j \<longleftrightarrow> bit p j \<or> j = 63 \<and> bit c j" for j
  proof (cases "12 \<le> j \<and> j < 64")
    case True
    then show ?thesis using ctl_bits[OF c(1), of j] c(2)[of j] high_zero[OF _ p(2), of j]
      unfolding bit_and_iff bit_or_iff bit_not_iff bit_fff by (cases "j < 52"; cases "j = 63") auto
  next
    case False
    then show ?thesis using p(1) unfolding bit_and_iff bit_or_iff bit_not_iff bit_fff low_zero by (auto dest: bit_imp_le_length)
  qed
  have p6: "\<not> bit p 62" "\<not> bit p 63" using high_zero[OF _ p(2)] by simp_all
  have "HPT_NX = 2 ^ 63" by (simp add: HPT_NX_def)
  then have nx: "bit HPT_NX j \<longleftrightarrow> j = 63" for j unfolding \<open>HPT_NX = _\<close> bit_exp_iff by auto
  show ?thesis
  proof (cases "bit c 63")
    case True
    have "hpt_addr (p OR c) = (NOT 0 XOR HPT_NX) AND ?a"
      unfolding hpt_addr_def Let_def page_mask bit_NX a using True p6 c(2)[of 62] by simp
    also have "\<dots> = p"
    proof (rule bit_word_eqI)
      fix j assume "j < LENGTH(64)"
      then show "bit ((NOT 0 XOR HPT_NX) AND ?a) j = bit p j"
        unfolding bit_and_iff[of _ ?a] a bit_xor_iff bit_not_iff nx using p6 by (cases "j = 63") auto
    qed
    finally show ?thesis .
  next
    case False
    have "hpt_addr (p OR c) = ?a" unfolding hpt_addr_def Let_def page_mask bit_NX a using False p6 by simp
    also have "\<dots> = p" by (rule bit_word_eqI) (use a False in auto)
    finally show ?thesis .
  qed
qed

text \<open>Attributes: the low bits, and for a host page table the bit that forbids execution.\<close>

definition hpt_attr_ok :: "mword \<Rightarrow> bool" where
  "hpt_attr_ok a \<longleftrightarrow> take_bit 12 a OR push_bit 63 (drop_bit 63 a) = a"

definition ept_attr_ok :: "mword \<Rightarrow> bool" where
  "ept_attr_ok a \<longleftrightarrow> take_bit 8 a = a"

definition dpt_attr_ok :: "mword \<Rightarrow> bool" where
  "dpt_attr_ok a \<longleftrightarrow> take_bit 12 a = a"

definition ipt_attr_ok :: "mword \<Rightarrow> bool" where
  "ipt_attr_ok a \<longleftrightarrow> take_bit 9 a OR push_bit 52 (drop_bit 52 a) = a"

lemma hpt_attr_bits: "hpt_attr_ok a \<Longrightarrow> 12 \<le> j \<Longrightarrow> j < 63 \<Longrightarrow> \<not> bit a j"
proof
  assume "hpt_attr_ok a" and j: "12 \<le> j" "j < 63" "bit a j"
  then have "bit (take_bit 12 a OR push_bit 63 (drop_bit 63 a)) j" by (simp add: hpt_attr_ok_def)
  then show False using j by (simp add: bit_simps)
qed

lemma or_bit7: "l \<noteq> 0 \<Longrightarrow> (x OR (y OR ((if l \<noteq> (0::nat) then 0x80 else 0) OR a))) AND 0x80 \<noteq> (0 :: mword)"
proof
  assume l: "l \<noteq> 0" and z: "(x OR (y OR ((if l \<noteq> (0::nat) then 0x80 else 0) OR a))) AND 0x80 = (0 :: mword)"
  have e: "(0x80 :: mword) = 2 ^ 7" by simp
  have "\<not> bit (x OR (y OR (0x80 OR a))) 7" using z l unfolding e and_exp_eq_0_iff_not_bit by simp
  then show False by (simp add: bit_or_iff)
qed


lemma link_bits: "pte_link Hpt l p = p OR (if l = 4 then 0 else 0x27)" "pte_link Ept l p = p OR (if l = 4 then 0 else 7)"
  "pte_link Dpt l p = p OR (if l = 4 then 0 else 3)"
  "pte_link Ipt l p = p OR ((if l = 4 then 0 else 0x6000000000000001) OR push_bit 9 (of_nat l))"
  by (simp_all add: pte_link_def PTE_LEV_def Hpt_def Ept_def Dpt_def Ipt_def HPT_A_def HPT_U_def HPT_W_def HPT_P_def
      EPT_R_def EPT_W_def EPT_X_def DPT_R_def DPT_W_def IPT_R_def IPT_W_def IPT_P_def or.assoc)

lemma no_bit7: "take_bit 12 p = 0 \<Longrightarrow> \<not> bit c 7 \<Longrightarrow> (p OR c) AND 0x80 = (0 :: mword)"
proof -
  assume "take_bit 12 p = 0" "\<not> bit c 7"
  then have "\<not> bit (p OR c) 7" using aligned_low[of 12 p 7] by (simp add: bit_or_iff)
  then show ?thesis using and_exp_eq_0_iff_not_bit[of "p OR c" 7] by simp
qed

lemma or_nonzero: "p \<noteq> 0 \<Longrightarrow> p OR c \<noteq> (0 :: mword)"
  by (simp add: or_eq_0_iff)

interpretation hpt: pte_laws Hpt hpt_attr_ok
proof
  fix l m j :: nat and p a :: mword
  show "pte_link Hpt l p \<noteq> 0 \<and> \<not> pte_super Hpt l (pte_link Hpt l p) \<and> pte_addr Hpt (pte_link Hpt l p) = p"
    if "0 < l" "l \<le> 4" "p \<noteq> 0" "take_bit 12 p = 0" "p < 2 ^ 52"
  proof -
    let ?c = "if l = 4 then 0 else 0x27 :: mword"
    have c: "take_bit 12 ?c = ?c" "\<not> bit ?c 7" by simp_all
    have "\<not> bit ?c i" if "52 \<le> i" for i using low_const[OF c(1), of i] that by simp
    then have "hpt_addr (p OR ?c) = p" by (intro hpt_addr_or that ctl_low c)
    then show ?thesis unfolding link_bits using no_bit7[OF that(4) c(2)] or_nonzero[OF that(3), of ?c] by (simp add: Hpt_def HPT_S_def)
  qed
  show "pte_super Hpt l (p OR pte_ord Hpt (of_nat m) OR pte_s Hpt l OR a)" if "0 < l"
    using or_bit7[of l p 0 a] that by (simp add: Hpt_def HPT_S_def)
  show "\<not> bit a j" if "hpt_attr_ok a" "12 \<le> j" "j < 52" using hpt_attr_bits[OF that(1,2)] that(3) by simp
  show "\<not> bit (pte_ord Hpt (of_nat m)) j" by (simp add: Hpt_def)
  show "\<not> bit (pte_s Hpt l) j" if "12 \<le> j"
    using low_const[of 12 "pte_s Hpt l"] that by (simp add: Hpt_def HPT_S_def)
  show "pte_addr Hpt (p OR (pte_ord Hpt (of_nat m) OR pte_s Hpt l OR a)) = p" if "take_bit 12 p = 0" "p < 2 ^ 52" "hpt_attr_ok a"
  proof -
    let ?c = "pte_ord Hpt (of_nat m) OR pte_s Hpt l OR a"
    have s: "\<not> bit (pte_s Hpt l) i" if "12 \<le> i" for i
      using low_const[of 12 "pte_s Hpt l"] that by (simp add: Hpt_def HPT_S_def)
    have c: "\<not> bit ?c i" if "12 \<le> i" "i < 63" for i
      using s[OF that(1)] hpt_attr_bits[OF \<open>hpt_attr_ok a\<close> that] unfolding bit_or_iff by (simp add: Hpt_def)
    have "ctl ?c" by (rule ctlI) (simp add: c)
    then have "hpt_addr (p OR ?c) = p" by (intro hpt_addr_or that c) simp_all
    then show ?thesis by (simp add: Hpt_def)
  qed
  show "pte_order Hpt (p OR (pte_ord Hpt (of_nat m) OR pte_s Hpt l OR a)) \<in> {12, 12 + m}" by (simp add: Hpt_def PAGE_BITS_def)
qed

lemma nat_lt_9: "m < 9 \<Longrightarrow> m \<in> {0, 1, 2, 3, 4, 5, 6, 7, 8 :: nat}"
  by auto

lemma ept_low:
  assumes "ept_attr_ok a" "m < 9"
  shows "take_bit 12 (pte_ord Ept (of_nat m) OR pte_s Ept l OR a) = pte_ord Ept (of_nat m) OR pte_s Ept l OR a"
proof -
  have "bit (take_bit 12 a) j = bit a j" for j
    using low_const[of 8 a j] assms(1) by (cases "j < 12") (auto simp: ept_attr_ok_def bit_take_bit_iff)
  then have "take_bit 12 a = a" by (intro bit_word_eqI)
  moreover have "take_bit 12 (pte_ord Ept (of_nat m)) = pte_ord Ept (of_nat m)" using nat_lt_9[OF assms(2)] by (auto simp: Ept_def)
  moreover have "take_bit 12 (pte_s Ept l) = pte_s Ept l" by (simp add: Ept_def EPT_S_def)
  ultimately show ?thesis by simp
qed

lemma ept_order_or:
  assumes "take_bit 12 p = 0" "ept_attr_ok a" "m < 9"
  shows "pte_order Ept (p OR (pte_ord Ept (of_nat m) OR pte_s Ept l OR a)) = 12 + m"
proof -
  have "drop_bit 8 (p OR (push_bit 8 (of_nat m) OR pte_s Ept l OR a)) AND 0xf = (of_nat m :: mword)"
  proof (rule bit_word_eqI)
    fix i
    have m4: "(0xf :: mword) = mask 4" by (simp add: mask_eq_exp_minus_1)
    have s: "\<not> bit (pte_s Ept l) (8 + i)" using low_const[of 8 "pte_s Ept l"] by (simp add: Ept_def EPT_S_def)
    have a: "\<not> bit a (8 + i)" using low_const[of 8 a] assms(2) by (simp add: ept_attr_ok_def)
    have "take_bit 4 (of_nat m :: mword) = of_nat m" using nat_lt_9[OF assms(3)] by auto
    then have m: "bit (of_nat m :: mword) i \<Longrightarrow> i < 4" using low_const[of 4 "of_nat m" i] by (meson not_le)
    show "bit (drop_bit 8 (p OR (push_bit 8 (of_nat m) OR pte_s Ept l OR a)) AND 0xf) i = bit (of_nat m :: mword) i"
      unfolding m4 bit_and_iff bit_drop_bit_eq comp_def bit_or_iff bit_mask_iff
      using s a m aligned_low[OF assms(1), of "8 + i"] by (cases "i < 4") (auto simp: bit_push_bit_iff)
  qed
  then have "unat (drop_bit 8 (p OR (push_bit 8 (of_nat m) OR pte_s Ept l OR a)) AND 0xf) = m"
    using nat_lt_9[OF assms(3)] by (simp only: ) auto
  then show ?thesis by (simp add: Ept_def ept_order_def PAGE_BITS_def)
qed

interpretation ept: pte_laws Ept ept_attr_ok
proof
  fix l m j :: nat and p a :: mword
  show "pte_link Ept l p \<noteq> 0 \<and> \<not> pte_super Ept l (pte_link Ept l p) \<and> pte_addr Ept (pte_link Ept l p) = p"
    if "0 < l" "l \<le> 4" "p \<noteq> 0" "take_bit 12 p = 0" "p < 2 ^ 52"
  proof -
    let ?c = "if l = 4 then 0 else 7 :: mword"
    have c: "take_bit 12 ?c = ?c" "\<not> bit ?c 7" by simp_all
    show ?thesis unfolding link_bits using no_bit7[OF that(4) c(2)] or_nonzero[OF that(3), of ?c] mask_addr[OF that(4) c(1)]
      by (simp add: Ept_def EPT_S_def PAGE_BITS_def)
  qed
  show "pte_super Ept l (p OR pte_ord Ept (of_nat m) OR pte_s Ept l OR a)" if "0 < l"
    using or_bit7[of l p "push_bit 8 (of_nat m)" a] that by (simp add: Ept_def EPT_S_def or.assoc)
  show "\<not> bit a j" if "ept_attr_ok a" "12 \<le> j" "j < 52" using low_const[of 8 a j] that by (simp add: ept_attr_ok_def)
  show "\<not> bit (pte_ord Ept (of_nat m)) j" if "m < 9" "12 \<le> j"
  proof -
    have "m \<in> {0..<9}" using that(1) by simp
    then have "take_bit 12 (pte_ord Ept (of_nat m)) = pte_ord Ept (of_nat m)"
      by (auto simp: atLeastLessThan_nat_numeral Ept_def)
    then show ?thesis using that(2) by (rule low_const)
  qed
  show "\<not> bit (pte_s Ept l) j" if "12 \<le> j"
    using low_const[of 12 "pte_s Ept l"] that by (simp add: Ept_def EPT_S_def)
  show "pte_addr Ept (p OR (pte_ord Ept (of_nat m) OR pte_s Ept l OR a)) = p" if "take_bit 12 p = 0" "ept_attr_ok a" "m < 9"
    using mask_addr[OF that(1) ept_low[OF that(2,3), of l]] by (simp add: Ept_def PAGE_BITS_def)
  show "pte_order Ept (p OR (pte_ord Ept (of_nat m) OR pte_s Ept l OR a)) \<in> {12, 12 + m}" if "take_bit 12 p = 0" "ept_attr_ok a" "m < 9"
    using ept_order_or[OF that] by (simp add: Ept_def)
qed

interpretation dpt: pte_laws Dpt dpt_attr_ok
proof
  fix l m j :: nat and p a :: mword
  show "pte_link Dpt l p \<noteq> 0 \<and> \<not> pte_super Dpt l (pte_link Dpt l p) \<and> pte_addr Dpt (pte_link Dpt l p) = p"
    if "0 < l" "l \<le> 4" "p \<noteq> 0" "take_bit 12 p = 0" "p < 2 ^ 52"
  proof -
    let ?c = "if l = 4 then 0 else 3 :: mword"
    have c: "take_bit 12 ?c = ?c" "\<not> bit ?c 7" by simp_all
    show ?thesis unfolding link_bits using no_bit7[OF that(4) c(2)] or_nonzero[OF that(3), of ?c] mask_addr[OF that(4) c(1)]
      by (simp add: Dpt_def DPT_S_def PAGE_BITS_def)
  qed
  show "pte_super Dpt l (p OR pte_ord Dpt (of_nat m) OR pte_s Dpt l OR a)" if "0 < l"
    using or_bit7[of l p 0 a] that by (simp add: Dpt_def DPT_S_def)
  show "\<not> bit a j" if "dpt_attr_ok a" "12 \<le> j" "j < 52" using low_const[of 12 a j] that by (simp add: dpt_attr_ok_def)
  show "\<not> bit (pte_ord Dpt (of_nat m)) j" by (simp add: Dpt_def)
  show "\<not> bit (pte_s Dpt l) j" if "12 \<le> j"
    using low_const[of 12 "pte_s Dpt l"] that by (simp add: Dpt_def DPT_S_def)
  show "pte_addr Dpt (p OR (pte_ord Dpt (of_nat m) OR pte_s Dpt l OR a)) = p" if "take_bit 12 p = 0" "dpt_attr_ok a"
  proof -
    have "take_bit 12 (pte_s Dpt l OR a) = pte_s Dpt l OR a" using that(2) by (simp add: Dpt_def DPT_S_def dpt_attr_ok_def)
    from mask_addr[OF that(1) this] show ?thesis by (simp add: Dpt_def PAGE_BITS_def)
  qed
  show "pte_order Dpt (p OR (pte_ord Dpt (of_nat m) OR pte_s Dpt l OR a)) \<in> {12, 12 + m}" by (simp add: Dpt_def PAGE_BITS_def)
qed

lemma ipt_addr_or:
  assumes "take_bit 12 p = 0" "p < 2 ^ 52" "ctl c"
  shows "pte_addr Ipt (p OR c) = p"
proof (rule bit_word_eqI)
  fix j assume "j < LENGTH(64)"
  have m: "push_bit 52 1 - 1 = (mask 52 :: mword)" by (simp add: mask_eq_exp_minus_1)
  show "bit (pte_addr Ipt (p OR c)) j = bit p j"
    using aligned_low[OF assms(1), of j] high_zero[OF _ assms(2), of j] ctl_bits[OF assms(3), of j] \<open>j < _\<close>
    unfolding Ipt_def pte_class.simps m bit_and_iff bit_or_iff bit_not_iff bit_fff bit_mask_iff by (cases "j < 52") auto
qed

lemma ipt_super: "l \<noteq> 0 \<Longrightarrow> take_bit 12 p = 0 \<Longrightarrow> (\<And>j. 9 \<le> j \<Longrightarrow> j < 12 \<Longrightarrow> \<not> bit c j) \<Longrightarrow> pte_super Ipt l (p OR c)"
proof -
  assume l: "l \<noteq> 0" and p: "take_bit 12 p = 0" and c: "\<And>j. 9 \<le> j \<Longrightarrow> j < 12 \<Longrightarrow> \<not> bit c j"
  have m: "(7 :: mword) = mask 3" by (simp add: mask_eq_exp_minus_1)
  have "drop_bit 9 (p OR c) AND 7 = 0"
  proof (rule bit_word_eqI)
    fix j
    show "bit (drop_bit 9 (p OR c) AND 7) j = bit (0 :: mword) j"
      using aligned_low[OF p, of "9 + j"] c[of "9 + j"] unfolding m bit_and_iff bit_drop_bit_eq bit_mask_iff comp_def bit_or_iff by auto
  qed
  then show ?thesis using l by (simp add: Ipt_def)
qed

interpretation ipt: pte_laws Ipt ipt_attr_ok
proof
  fix l m j :: nat and p a :: mword
  show "pte_link Ipt l p \<noteq> 0 \<and> \<not> pte_super Ipt l (pte_link Ipt l p) \<and> pte_addr Ipt (pte_link Ipt l p) = p"
    if "0 < l" "l \<le> 4" "p \<noteq> 0" "take_bit 12 p = 0" "p < 2 ^ 52"
  proof -
    let ?c = "(if l = 4 then 0 else 0x6000000000000001) OR push_bit 9 (of_nat l) :: mword"
    have l: "l \<in> {1, 2, 3, 4}" using that(1,2) by auto
    then have c: "ctl ?c" by (auto simp: ctl_def)
    have "\<exists>i\<in>{0, 1, 2 :: nat}. bit ?c (9 + i)" using l by auto
    then obtain i where i: "i \<in> {0, 1, 2}" "bit ?c (9 + i)" by blast
    then have "i < 3" by auto
    have "bit (drop_bit 9 (p OR ?c) AND mask 3) i" using i(2) \<open>i < 3\<close> unfolding bit_and_iff bit_drop_bit_eq comp_def bit_or_iff bit_mask_iff by simp
    then have "drop_bit 9 (p OR ?c) AND 7 \<noteq> 0" by (auto simp: mask_eq_exp_minus_1)
    then show ?thesis unfolding link_bits using or_nonzero[OF that(3), of ?c] ipt_addr_or[OF that(4,5) c] by (simp add: Ipt_def)
  qed
  show "pte_super Ipt l (p OR pte_ord Ipt (of_nat m) OR pte_s Ipt l OR a)" if "0 < l" "take_bit 12 p = 0" "ipt_attr_ok a"
  proof -
    have "\<not> bit a j" if "9 \<le> j" "j < 12" for j
    proof
      assume "bit a j"
      then have "bit (take_bit 9 a OR push_bit 52 (drop_bit 52 a)) j" using \<open>ipt_attr_ok a\<close> by (simp add: ipt_attr_ok_def)
      then show False using that by (simp add: bit_simps)
    qed
    then show ?thesis using ipt_super[of l p a] that by (simp add: Ipt_def)
  qed
  show "\<not> bit a j" if "ipt_attr_ok a" "12 \<le> j" "j < 52"
  proof
    assume "bit a j"
    then have "bit (take_bit 9 a OR push_bit 52 (drop_bit 52 a)) j" using that(1) by (simp add: ipt_attr_ok_def)
    then show False using that(2,3) by (simp add: bit_simps)
  qed
  show "\<not> bit (pte_ord Ipt (of_nat m)) j" "\<not> bit (pte_s Ipt l) j" by (simp_all add: Ipt_def)
  show "pte_addr Ipt (p OR (pte_ord Ipt (of_nat m) OR pte_s Ipt l OR a)) = p" if "take_bit 12 p = 0" "p < 2 ^ 52" "ipt_attr_ok a"
  proof -
    have "ctl a" unfolding ctl_def
    proof (rule bit_word_eqI)
      fix i
      have e: "bit (take_bit 9 a OR push_bit 52 (drop_bit 52 a)) i = bit a i" using that(3) by (simp add: ipt_attr_ok_def)
      then show "bit (take_bit 12 a OR push_bit 52 (drop_bit 52 a)) i = bit a i"
        unfolding bit_or_iff bit_take_bit_iff by (cases "i < 9"; cases "i < 12") auto
    qed
    from ipt_addr_or[OF that(1,2) this] show ?thesis by (simp add: Ipt_def)
  qed
  show "pte_order Ipt (p OR (pte_ord Ipt (of_nat m) OR pte_s Ipt l OR a)) \<in> {12, 12 + m}" by (simp add: Ipt_def PAGE_BITS_def)
qed

subsection \<open>The tables of a memory space\<close>

text \<open>
  The roots of \<open>Space_mem\<close>: one host page table per domain and one per domain and CPU, and two
  unions, of the tables for the two kinds of IOMMU and of the two kinds of nested table. Which
  member of a union is in use is fixed by the machine.
\<close>

datatype 'p ptroot = Root_hpt 'p | Root_loc 'p nat | Root_io 'p | Root_nst 'p

fun root_class :: "bool \<Rightarrow> bool \<Rightarrow> 'p ptroot \<Rightarrow> pte_class" where
  "root_class ip np (Root_hpt _) = Hpt"
| "root_class ip np (Root_loc _ _) = Hpt"
| "root_class ip np (Root_io _) = (if ip then Ipt else Dpt)"
| "root_class ip np (Root_nst _) = (if np then Hpt else Ept)"

fun root_attr_ok :: "bool \<Rightarrow> bool \<Rightarrow> 'p ptroot \<Rightarrow> mword \<Rightarrow> bool" where
  "root_attr_ok ip np (Root_hpt _) a = hpt_attr_ok a"
| "root_attr_ok ip np (Root_loc _ _) a = hpt_attr_ok a"
| "root_attr_ok ip np (Root_io _) a = (if ip then ipt_attr_ok a else dpt_attr_ok a)"
| "root_attr_ok ip np (Root_nst _) a = (if np then hpt_attr_ok a else ept_attr_ok a)"

interpretation sm: tables "buddy_pages :: ('i, pool list \<times> 'i quotas) pages_src" buddy_ok
  "root_class ip np :: 'p ptroot \<Rightarrow> pte_class" "root_attr_ok ip np"
  for ip np :: bool
proof (rule tables.intro[OF bp.page_source_axioms], rule tables_axioms.intro)
  fix r :: "'p ptroot"
  have a: "root_attr_ok ip np (Root_hpt x) = hpt_attr_ok" "root_attr_ok ip np (Root_loc x c) = hpt_attr_ok"
    "root_attr_ok ip np (Root_io x) = (if ip then ipt_attr_ok else dpt_attr_ok)"
    "root_attr_ok ip np (Root_nst x) = (if np then hpt_attr_ok else ept_attr_ok)" for x :: 'p and c
    by (simp_all add: fun_eq_iff)
  show "pte_laws (root_class ip np r) (root_attr_ok ip np r)"
    using hpt.pte_laws_axioms ept.pte_laws_axioms dpt.pte_laws_axioms ipt.pte_laws_axioms
    by (cases r) (simp_all only: a root_class.simps if_True if_False split: if_splits, auto)
qed

subsection \<open>Properties\<close>



subsection \<open>Empty tables on a fresh pool\<close>

lemma empty_table: "pt_root s r = 0 \<Longrightarrow> table C s r v k = None"
proof (induction k)
  case 0
  then show ?case by (simp add: table_def)
next
  case (Suc k)
  then show ?case by (simp add: table_def[of _ _ _ _ "Suc k"] slot_Suc)
qed

lemma in_blockI: "drop_bit (12 + o') v = drop_bit (12 + o') v' \<Longrightarrow> in_block o' v v'"
  unfolding in_block_def
proof (intro allI impI)
  fix j assume "drop_bit (12 + o') v = drop_bit (12 + o') v'" "12 + o' \<le> j \<and> j < 48"
  then have "bit (drop_bit (12 + o') v) (j - (12 + o')) = bit (drop_bit (12 + o') v') (j - (12 + o'))" by simp
  then show "bit v j = bit v' j" using \<open>12 + o' \<le> j \<and> j < 48\<close> unfolding bit_drop_bit_eq comp_def by simp
qed

definition empty_spaces :: "'q \<Rightarrow> (nat ptroot, 'q) ptst" where
  "empty_spaces q = \<lparr>pt_root = \<lambda>_. 0, pmem = \<lambda>_. 0, ppool = q\<rparr>"

lemma empty_spaces_inv: "ok q {} N \<Longrightarrow> tables_inv ok C {} N (empty_spaces q)"
  by (simp add: tables_inv_def empty_spaces_def empty_table)

lemma empty_spaces_super: "no_super_above C (empty_spaces q) r v l"
  unfolding no_super_above_def
proof (intro allI impI, elim conjE)
  fix j e assume "j < 4 - l" "slot C (empty_spaces q) r v j = Some e"
  then have "e = PTop r" by (cases j) (simp_all add: slot_Suc empty_table empty_spaces_def)
  then show "\<not> (pte_val (empty_spaces q) e \<noteq> 0 \<and> pte_super (C r) (4 - j) (pte_val (empty_spaces q) e))" by (simp add: empty_spaces_def)
qed

lemma fresh_buddy:
  "\<exists>p q. init_free 4 (index_to_page ex_pool 0) (index_to_page ex_pool 4) ex_pool Quota_new = Inr (p, q) \<and>
     (\<forall>qs :: nat quotas. buddy_ok ([p], qs) {} 4)"
proof -
  have e: "pages 0 0 = {}" "min_idx ex_pool = 0" "max_idx ex_pool = 4" "uint (base ex_pool) = 0x100000" "offset ex_pool = 0"
    by (simp_all add: pages_def ex_pool_def)
  have "\<exists>p fl q. init_free 4 (index_to_page ex_pool 0) (index_to_page ex_pool 4) ex_pool Quota_new = Inr (p, q) \<and> pool_inv p fl {} {} \<and> same_geometry ex_pool p"
  proof -
    have "pool_inv ex_pool (\<lambda>_. []) ({} \<union> pages 0 4) {}" using ex_pool_inv by simp
    from init_free_spec[OF this _ ex_geometry, of 4 Quota_new] show ?thesis unfolding e by simp
  qed
  then obtain p fl q where p: "init_free 4 (index_to_page ex_pool 0) (index_to_page ex_pool 4) ex_pool Quota_new = Inr (p, q)"
    "pool_inv p fl {} {}" "same_geometry ex_pool p" by blast
  have "free_indices p {} = {0..<4}" "phys_ok p"
    using p(3) by (simp_all add: free_indices_def phys_ok_def same_geometry_def ex_pool_def)
  then have "buddy_ok ([p], qs) {} 4" for qs :: "nat quotas"
    unfolding buddy_ok_def using p(2) geometry_same[OF p(3)] ex_geometry by (intro exI[of _ p] exI[of _ fl] exI[of _ "{}"]) simp
  then show ?thesis using p(1) by blast
qed



end
