(* ===== verification/Avl.thy ===== *)
theory Avl
  imports Prelude "HOL-Library.Tree"
begin

text \<open>
  The balanced search tree of \<open>include/avl.hpp\<close> and \<open>src/avl.cpp\<close>, on the
  pointers it is written with. A node has two links and a balance: 0 or 1 for the direction of
  its higher subtree, 2 when both have the same height. A variable of type \<open>Avl **\<close> is
  a \<open>slot\<close>: the root of a tree or a link of a node. The comparisons \<open>larger\<close> and
  \<open>equal\<close> of the class given as template argument are arguments of the operations.
  The theorems show that insertion and removal keep the links an ordered tree whose
  balances are right, so that a search ends after a number of rounds given by the height.
\<close>

subsection \<open>Nodes, slots and rotations\<close>

record ('n, 's) avl =
  lnk :: "'n \<Rightarrow> bool \<Rightarrow> 'n option"
  bal :: "'n \<Rightarrow> u32"
  root :: "'s \<Rightarrow> 'n option"

datatype ('n, 's) slot = Root 's | Lnk 'n bool

fun deref :: "('n, 's, 'x) avl_scheme \<Rightarrow> ('n, 's) slot \<Rightarrow> 'n option" where
  "deref s (Root r) = root s r"
| "deref s (Lnk n d) = lnk s n d"

definition set_lnk :: "'n \<Rightarrow> bool \<Rightarrow> 'n option \<Rightarrow> ('n, 's, 'x) avl_scheme \<Rightarrow> ('n, 's, 'x) avl_scheme" where
  "set_lnk n d v s = s\<lparr>lnk := (lnk s)(n := (lnk s n)(d := v))\<rparr>"

definition set_bal :: "'n \<Rightarrow> u32 \<Rightarrow> ('n, 's, 'x) avl_scheme \<Rightarrow> ('n, 's, 'x) avl_scheme" where
  "set_bal n b s = s\<lparr>bal := (bal s)(n := b)\<rparr>"

fun assign :: "('n, 's) slot \<Rightarrow> 'n option \<Rightarrow> ('n, 's, 'x) avl_scheme \<Rightarrow> ('n, 's, 'x) avl_scheme" where
  "assign (Root r) v s = s\<lparr>root := (root s)(r := v)\<rparr>"
| "assign (Lnk n d) v s = set_lnk n d v s"

definition Avl_init :: "'n \<Rightarrow> ('n, 's, 'x) avl_scheme \<Rightarrow> ('n, 's, 'x) avl_scheme" where
  "Avl_init n s = set_lnk n False None (set_lnk n True None (set_bal n 2 s))"

definition balanced :: "('n, 's, 'x) avl_scheme \<Rightarrow> 'n \<Rightarrow> bool" where
  "balanced s n = (bal s n = 2)"

definition the_node :: "'n option \<Rightarrow> ('n \<Rightarrow> 'b result) \<Rightarrow> 'b result" where
  "the_node q f = (case q of None \<Rightarrow> Inl Null_deref | Some n \<Rightarrow> f n)"

definition rotate :: "('n, 's) slot \<Rightarrow> bool \<Rightarrow> ('n, 's, 'x) avl_scheme \<Rightarrow>
  ('n option \<times> ('n, 's, 'x) avl_scheme) result" where
  "rotate tree d s =
     the_node (deref s tree) (\<lambda>node.
       let s = assign tree (lnk s node d) s
       in the_node (deref s tree) (\<lambda>t.
            let s = set_lnk node d (lnk s t (\<not> d)) s;
                s = set_lnk t (\<not> d) (Some node) s;
                s = set_bal node 2 (set_bal t 2 s)
            in Inr (lnk s t d, s)))"

definition rotate2 :: "('n, 's) slot \<Rightarrow> bool \<Rightarrow> u32 \<Rightarrow> ('n, 's, 'x) avl_scheme \<Rightarrow>
  ('n option \<times> ('n, 's, 'x) avl_scheme) result" where
  "rotate2 tree d b s =
     the_node (deref s tree) (\<lambda>node0.
       the_node (lnk s node0 d) (\<lambda>node1.
         let s = assign tree (lnk s node1 (\<not> d)) s
         in the_node (deref s tree) (\<lambda>t.
              let s = set_lnk node0 d (lnk s t (\<not> d)) s;
                  s = set_lnk node1 (\<not> d) (lnk s t d) s;
                  s = set_lnk t d (Some node1) s;
                  s = set_lnk t (\<not> d) (Some node0) s;
                  s = set_bal t 2 (set_bal node0 2 (set_bal node1 2 s))
              in if b = 2 then Inr (None, s)
                 else (let s = set_bal (if b \<noteq> of_bool d then node1 else node0) (of_bool (b = 0)) s
                       in Inr (lnk s (if b = of_bool d then node1 else node0) (b = 0), s)))))"

subsection \<open>Insertion\<close>

fun insert_find :: "('n \<Rightarrow> 'n \<Rightarrow> bool) \<Rightarrow> ('n \<Rightarrow> 'n \<Rightarrow> bool) \<Rightarrow> nat \<Rightarrow> 'n \<Rightarrow> ('n, 's) slot \<Rightarrow> ('n, 's) slot \<Rightarrow>
  ('n, 's, 'x) avl_scheme \<Rightarrow> (('n, 's) slot \<times> ('n, 's) slot) option result" where
  "insert_find larger equal 0 node p tree s = Inl Out_of_fuel"
| "insert_find larger equal (Suc k) node p tree s =
     (case deref s tree of
        None \<Rightarrow> Inr (Some (p, tree))
      | Some n \<Rightarrow>
          (if equal node n then Inr None
           else insert_find larger equal k node (if \<not> balanced s n then tree else p) (Lnk n (larger node n)) s))"

fun insert_path :: "('n \<Rightarrow> 'n \<Rightarrow> bool) \<Rightarrow> ('n \<Rightarrow> 'n \<Rightarrow> bool) \<Rightarrow> nat \<Rightarrow> 'n \<Rightarrow> 'n option \<Rightarrow>
  ('n, 's, 'x) avl_scheme \<Rightarrow> ('n, 's, 'x) avl_scheme result" where
  "insert_path larger equal 0 node q s = Inl Out_of_fuel"
| "insert_path larger equal (Suc k) node q s =
     (case q of
        None \<Rightarrow> Inr s
      | Some n \<Rightarrow>
          (if equal node n then Inr s
           else (let d = larger node n; s = set_bal n (of_bool d) s
                 in insert_path larger equal k node (lnk s n d) s)))"

definition insert_fix :: "('n \<Rightarrow> 'n \<Rightarrow> bool) \<Rightarrow> ('n \<Rightarrow> 'n \<Rightarrow> bool) \<Rightarrow> 'n \<Rightarrow> ('n, 's) slot \<Rightarrow>
  ('n, 's, 'x) avl_scheme \<Rightarrow> ('n option \<times> ('n, 's, 'x) avl_scheme) result" where
  "insert_fix larger equal node p s =
     the_node (deref s p) (\<lambda>n.
       if balanced s n then Inr (Some n, s)
       else
         (let d1 = larger node n
          in if bal s n \<noteq> of_bool d1 then (let s = set_bal n 2 s in Inr (lnk s n d1, s))
             else the_node (lnk s n d1) (\<lambda>c.
               let d2 = larger node c
               in if d1 = d2 then rotate p d1 s
                  else the_node (lnk s c d2) (\<lambda>g.
                    rotate2 p d1 (if equal node g then 2 else of_bool (larger node g)) s))))"

definition avl_insert :: "('n \<Rightarrow> 'n \<Rightarrow> bool) \<Rightarrow> ('n \<Rightarrow> 'n \<Rightarrow> bool) \<Rightarrow> nat \<Rightarrow> ('n, 's) slot \<Rightarrow> 'n \<Rightarrow>
  ('n, 's, 'x) avl_scheme \<Rightarrow> (bool \<times> ('n, 's, 'x) avl_scheme) result" where
  "avl_insert larger equal k tree node s =
     bind_result (insert_find larger equal k node tree tree s) (\<lambda>r.
       case r of
         None \<Rightarrow> Inr (False, s)
       | Some (p, tree) \<Rightarrow>
           bind_result (insert_fix larger equal node p (assign tree (Some node) s)) (\<lambda>(n, s).
             bind_result (insert_path larger equal k node n s) (\<lambda>s. Inr (True, s))))"

subsection \<open>Removal\<close>

fun remove_find :: "('n \<Rightarrow> 'n \<Rightarrow> bool) \<Rightarrow> ('n \<Rightarrow> 'n \<Rightarrow> bool) \<Rightarrow> nat \<Rightarrow> 'n \<Rightarrow> ('n, 's) slot \<Rightarrow> ('n, 's) slot option \<Rightarrow>
  bool \<Rightarrow> ('n, 's) slot \<Rightarrow> ('n, 's, 'x) avl_scheme \<Rightarrow>
  (('n, 's) slot \<times> ('n, 's) slot option \<times> bool \<times> ('n, 's) slot) result" where
  "remove_find larger equal 0 node p item d tree s = Inl Out_of_fuel"
| "remove_find larger equal (Suc k) node p item d tree s =
     (case deref s tree of
        None \<Rightarrow> Inr (p, item, d, tree)
      | Some n \<Rightarrow>
          (let item = (if equal node n then Some tree else item);
               d = larger node n
           in if lnk s n d = None then Inr (p, item, d, tree)
              else if balanced s n
              then remove_find larger equal k node tree item d (Lnk n d) s
              else if bal s n = of_bool (\<not> d)
              then the_node (lnk s n (\<not> d)) (\<lambda>c.
                     remove_find larger equal k node (if balanced s c then tree else p) item d (Lnk n d) s)
              else remove_find larger equal k node p item d (Lnk n d) s))"

fun remove_path :: "('n \<Rightarrow> 'n \<Rightarrow> bool) \<Rightarrow> nat \<Rightarrow> 'n \<Rightarrow> ('n, 's) slot \<Rightarrow> ('n, 's) slot \<Rightarrow> bool \<Rightarrow>
  ('n, 's, 'x) avl_scheme \<Rightarrow> (('n, 's) slot \<times> bool \<times> ('n, 's, 'x) avl_scheme) result" where
  "remove_path larger 0 node p item d s = Inl Out_of_fuel"
| "remove_path larger (Suc k) node p item d s =
     (case deref s p of
        None \<Rightarrow> Inr (item, d, s)
      | Some n \<Rightarrow>
          (let d = larger node n
           in if lnk s n d = None then Inr (item, d, s)
              else if balanced s n
              then remove_path larger k node (Lnk n d) item d (set_bal n (of_bool (\<not> d)) s)
              else if bal s n = of_bool d
              then remove_path larger k node (Lnk n d) item d (set_bal n 2 s)
              else the_node (lnk s n (\<not> d)) (\<lambda>c.
                let b = bal s c
                in bind_result
                     (if b = of_bool d
                      then the_node (lnk s c d) (\<lambda>g. rotate2 p (\<not> d) (bal s g) s)
                      else bind_result (rotate p (\<not> d) s) (\<lambda>(r, s).
                             if b = 2
                             then the_node (deref s p) (\<lambda>t.
                                    Inr (r, set_bal t (of_bool d) (set_bal n (of_bool (\<not> d)) s)))
                             else Inr (r, s)))
                     (\<lambda>(r, s).
                        if n = node
                        then the_node (deref s p) (\<lambda>t. remove_path larger k node (Lnk n d) (Lnk t d) d s)
                        else remove_path larger k node (Lnk n d) item d s))))"

definition avl_remove :: "('n \<Rightarrow> 'n \<Rightarrow> bool) \<Rightarrow> ('n \<Rightarrow> 'n \<Rightarrow> bool) \<Rightarrow> nat \<Rightarrow> ('n, 's) slot \<Rightarrow> 'n \<Rightarrow>
  ('n, 's, 'x) avl_scheme \<Rightarrow> (bool \<times> ('n, 's, 'x) avl_scheme) result" where
  "avl_remove larger equal k tree node s =
     bind_result (remove_find larger equal k node tree None False tree s) (\<lambda>(p, item, d, tree).
       case item of
         None \<Rightarrow> Inr (False, s)
       | Some item \<Rightarrow>
           bind_result (remove_path larger k node p item d s) (\<lambda>(item, d, s).
             the_node (deref s tree) (\<lambda>n.
               let s = assign item (Some n) s;
                   s = assign tree (lnk s n (\<not> d)) s;
                   s = set_lnk n False (lnk s node False) s;
                   s = set_lnk n True (lnk s node True) s;
                   s = set_bal n (bal s node) s
               in Inr (True, s))))"

subsection \<open>Trees in the store\<close>

text \<open>
  \<open>avl_at s q t\<close>: the links of the store lead from \<open>q\<close> through the nodes of
  \<open>t\<close>, in its shape. \<open>bal_ok s t\<close>: the subtrees of each node differ in height by
  at most one, and the balance says which is the higher.
\<close>

fun avl_at :: "('n, 's, 'x) avl_scheme \<Rightarrow> 'n option \<Rightarrow> 'n tree \<Rightarrow> bool" where
  "avl_at s q Leaf = (q = None)"
| "avl_at s q (Node l a r) = (q = Some a \<and> avl_at s (lnk s a False) l \<and> avl_at s (lnk s a True) r)"

fun bal_ok :: "('n, 's, 'x) avl_scheme \<Rightarrow> 'n tree \<Rightarrow> bool" where
  "bal_ok s Leaf = True"
| "bal_ok s (Node l a r) = (bal_ok s l \<and> bal_ok s r \<and>
     (bal s a = 2 \<and> height l = height r \<or> bal s a = 1 \<and> height r = Suc (height l) \<or>
      bal s a = 0 \<and> height l = Suc (height r)))"

fun distinct_tree :: "'n tree \<Rightarrow> bool" where
  "distinct_tree Leaf = True"
| "distinct_tree (Node l a r) = (distinct_tree l \<and> distinct_tree r \<and> a \<notin> set_tree l \<and> a \<notin> set_tree r \<and>
     set_tree l \<inter> set_tree r = {})"

fun owner :: "('n, 's) slot \<Rightarrow> 'n set" where
  "owner (Root r) = {}"
| "owner (Lnk n d) = {n}"

text \<open>Insertion of a leaf without rebalancing, and the nodes a search for \<open>x\<close> visits.\<close>

fun ins :: "('n \<Rightarrow> 'n \<Rightarrow> bool) \<Rightarrow> 'n \<Rightarrow> 'n tree \<Rightarrow> 'n tree" where
  "ins larger x Leaf = Node Leaf x Leaf"
| "ins larger x (Node l a r) =
     (if larger x a then Node l a (ins larger x r) else Node (ins larger x l) a r)"

fun path :: "('n \<Rightarrow> 'n \<Rightarrow> bool) \<Rightarrow> 'n \<Rightarrow> 'n tree \<Rightarrow> 'n list" where
  "path larger x Leaf = []"
| "path larger x (Node l a r) = a # path larger x (if larger x a then r else l)"

fun leaf_slot :: "('n \<Rightarrow> 'n \<Rightarrow> bool) \<Rightarrow> 'n \<Rightarrow> ('n, 's) slot \<Rightarrow> 'n tree \<Rightarrow> ('n, 's) slot" where
  "leaf_slot larger x q Leaf = q"
| "leaf_slot larger x q (Node l a r) = leaf_slot larger x (Lnk a (larger x a)) (if larger x a then r else l)"

fun last_unbal :: "('n \<Rightarrow> 'n \<Rightarrow> bool) \<Rightarrow> ('n, 's, 'x) avl_scheme \<Rightarrow> 'n \<Rightarrow> ('n, 's) slot \<Rightarrow> ('n, 's) slot \<Rightarrow> 'n tree \<Rightarrow> ('n, 's) slot" where
  "last_unbal larger s x p q Leaf = p"
| "last_unbal larger s x p q (Node l a r) =
     last_unbal larger s x (if balanced s a then p else q) (Lnk a (larger x a)) (if larger x a then r else l)"

definition path_bal :: "('n \<Rightarrow> 'n \<Rightarrow> bool) \<Rightarrow> ('n, 's, 'x) avl_scheme \<Rightarrow> 'n \<Rightarrow> 'n tree \<Rightarrow> bool" where
  "path_bal larger s x t = (\<forall>n \<in> set (path larger x t). balanced s n)"

lemma store_simps [simp]:
  "lnk (set_bal n b s) = lnk s" "root (set_bal n b s) = root s" "bal (set_bal n b s) = (bal s)(n := b)"
  "lnk (set_lnk n d v s) = (lnk s)(n := (lnk s n)(d := v))" "root (set_lnk n d v s) = root s"
  "bal (set_lnk n d v s) = bal s" "bal (assign q v s) = bal s"
  "the_node (Some n) f = f n" "the_node None f = Inl Null_deref"
  by (cases q; simp add: set_bal_def set_lnk_def the_node_def)+

lemma deref_set_bal [simp]: "deref (set_bal n b s) q = deref s q"
  by (cases q) simp_all

lemma deref_assign [simp]: "deref (assign q v s) q = v"
  by (cases q) simp_all

lemma avl_at_cong:
  "(\<And>n. n \<in> set_tree t \<Longrightarrow> lnk s' n = lnk s n) \<Longrightarrow> avl_at s' q t = avl_at s q t"
  by (induction t arbitrary: q) auto

lemma bal_ok_cong:
  "(\<And>n. n \<in> set_tree t \<Longrightarrow> bal s' n = bal s n) \<Longrightarrow> bal_ok s' t = bal_ok s t"
  by (induction t) auto

lemma path_set: "set (path larger x t) \<subseteq> set_tree t"
  by (induction t) auto

lemma path_bal_cong:
  "(\<And>n. n \<in> set_tree t \<Longrightarrow> bal s' n = bal s n) \<Longrightarrow> path_bal larger s' x t = path_bal larger s x t"
  using path_set[of larger x t] unfolding path_bal_def balanced_def by (metis subsetD)

lemma frame_simps [simp]:
  "avl_at (set_bal a b s) q t = avl_at s q t"
  "a \<notin> set_tree t \<Longrightarrow> avl_at (set_lnk a d v s) q t = avl_at s q t"
  "bal_ok (set_lnk a d v s) t = bal_ok s t" "bal_ok (assign p v s) t = bal_ok s t"
  "a \<notin> set_tree t \<Longrightarrow> bal_ok (set_bal a b s) t = bal_ok s t"
  "path_bal larger (set_lnk a d v s) x t = path_bal larger s x t"
  "path_bal larger (assign p v s) x t = path_bal larger s x t"
  "a \<notin> set_tree t \<Longrightarrow> path_bal larger (set_bal a b s) x t = path_bal larger s x t"
  by (rule avl_at_cong bal_ok_cong path_bal_cong; auto)+

lemma bal_ok_frame:
  assumes "bal_ok s t" "\<forall>n. n \<notin> A \<longrightarrow> bal s' n = bal s n" "set_tree t \<inter> A = {}"
  shows "bal_ok s' t"
  using assms(1) by (subst bal_ok_cong[of t s' s]) (use assms(2,3) in auto)

lemma avl_at_frame:
  assumes "avl_at s q t" "\<forall>n. n \<notin> A \<longrightarrow> lnk s' n = lnk s n" "set_tree t \<inter> A = {}"
  shows "avl_at s' q t"
  using assms(1) by (subst avl_at_cong[of t s' s]) (use assms(2,3) in auto)

lemma path_bal_Node:
  "path_bal larger s x (Node l a r) \<longleftrightarrow>
     balanced s a \<and> path_bal larger s x (if larger x a then r else l)"
  "path_bal larger s x Leaf"
  by (simp_all add: path_bal_def)

lemma set_ins [simp]: "set_tree (ins larger x t) = insert x (set_tree t)"
  by (induction t) auto

lemma distinct_ins: "distinct_tree t \<Longrightarrow> x \<notin> set_tree t \<Longrightarrow> distinct_tree (ins larger x t)"
  by (induction t) auto

subsection \<open>The three phases of an insertion\<close>

lemma insert_find_ok:
  assumes "avl_at s (deref s q) t" "\<forall>n \<in> set (path larger x t). \<not> equal x n" "height t < k"
  shows "insert_find larger equal k x p q s = Inr (Some (last_unbal larger s x p q t, leaf_slot larger x q t))"
  using assms
proof (induction t arbitrary: k p q)
  case Leaf then show ?case by (cases k) auto
next
  case (Node l a r)
  then show ?case by (cases k) auto
qed

lemma insert_find_equal:
  assumes "avl_at s (deref s q) t" "n \<in> set (path larger x t)" "equal x n" "height t < k"
  shows "insert_find larger equal k x p q s = Inr None"
  using assms
proof (induction t arbitrary: k p q)
  case (Node l a r)
  then show ?case by (cases k) (auto split: if_splits)
qed simp

lemma last_unbal_below:
  "\<not> path_bal larger s x t \<Longrightarrow> last_unbal larger s x p q t = last_unbal larger s x p' q t"
  "path_bal larger s x t \<Longrightarrow> last_unbal larger s x p q t = p"
  by (induction t arbitrary: p p' q) (auto simp: path_bal_Node)

lemma leaf_slot_owner:
  "owner (leaf_slot larger x q t) \<subseteq> owner q \<union> set_tree t"
  "t \<noteq> Leaf \<Longrightarrow> owner (leaf_slot larger x q t) \<subseteq> set_tree t"
  by (induction t arbitrary: q) (auto; fastforce)+

lemma assign_other: "n \<notin> owner q \<Longrightarrow> lnk (assign q v s) n = lnk s n"
  by (cases q) auto

lemma deref_assign_other:
  "owner q \<inter> owner (Lnk n d) = {} \<Longrightarrow> deref (assign (Lnk n d) v s) q = deref s q"
  by (cases q) auto

lemma leaf_slot_Lnk: "\<exists>m e. leaf_slot larger x (Lnk n d) t = Lnk m e"
  by (induction t arbitrary: n d) auto

lemma insert_leaf:
  assumes "avl_at s (deref s q) t" "distinct_tree t" "x \<notin> set_tree t" "owner q \<inter> set_tree t = {}"
    and "lnk s x = (\<lambda>_. None)" "x \<notin> owner q"
  shows "avl_at (assign (leaf_slot larger x q t) (Some x) s)
           (deref (assign (leaf_slot larger x q t) (Some x) s) q) (ins larger x t)"
  using assms
proof (induction t arbitrary: q)
  case Leaf then show ?case by (cases q) auto
next
  case (Node l a r)
  let ?d = "larger x a"
  let ?c = "if ?d then r else l"
  let ?o = "if ?d then l else r"
  let ?s = "assign (leaf_slot larger x (Lnk a ?d) ?c) (Some x) s"
  have ih: "avl_at ?s (deref ?s (Lnk a ?d)) (ins larger x ?c)"
    using Node.prems Node.IH(1)[of "Lnk a False"] Node.IH(2)[of "Lnk a True"] by (cases ?d) simp_all
  have own: "owner (leaf_slot larger x (Lnk a ?d) ?c) \<subseteq> insert a (set_tree ?c)"
    using leaf_slot_owner(1)[of larger x "Lnk a ?d" ?c] by auto
  then have oth: "avl_at ?s (lnk s a (\<not> ?d)) ?o"
  proof -
    have "avl_at ?s (lnk s a (\<not> ?d)) ?o = avl_at s (lnk s a (\<not> ?d)) ?o"
      by (rule avl_at_cong, rule assign_other) (use own Node.prems in \<open>auto split: if_splits\<close>)
    then show ?thesis using Node.prems by auto
  qed
  have lo: "lnk ?s a (\<not> ?d) = lnk s a (\<not> ?d)"
  proof (cases "?c = Leaf")
    case True then show ?thesis by auto
  next
    case False
    then have "a \<notin> owner (leaf_slot larger x (Lnk a ?d) ?c)"
      using leaf_slot_owner(2)[OF False, of larger x "Lnk a ?d"] Node.prems by (auto split: if_splits)
    then have "lnk ?s a = lnk s a" by (rule assign_other)
    then show ?thesis by simp
  qed
  have "owner q \<inter> owner (leaf_slot larger x (Lnk a ?d) ?c) = {}"
    using own Node.prems by (auto split: if_splits)
  then have "deref ?s q = Some a"
    using Node.prems(1) leaf_slot_Lnk[of larger x a ?d ?c] deref_assign_other[of q]
    by (metis avl_at.simps(2))
  then show ?case using ih oth lo by (cases ?d) auto
qed

text \<open>Setting the balances on the way down to the new leaf, when every node on it was balanced.\<close>

lemma height_ins:
  assumes "path_bal larger s x t" "bal_ok s t"
  shows "height (ins larger x t) = Suc (height t)"
  using assms by (induction t) (auto simp: path_bal_Node balanced_def split: if_splits)

lemma insert_path_ok:
  assumes "avl_at s q (ins larger x t)" "distinct_tree t" "x \<notin> set_tree t"
    and "path_bal larger s x t" "bal_ok s t" "bal s x = 2"
    and "\<forall>n \<in> set (path larger x t). \<not> equal x n" "equal x x" "height t < k"
  shows "\<exists>s'. insert_path larger equal k x q s = Inr s' \<and> bal_ok s' (ins larger x t) \<and>
           lnk s' = lnk s \<and> root s' = root s \<and> (\<forall>n. n \<notin> set_tree t \<longrightarrow> bal s' n = bal s n)"
  using assms
proof (induction t arbitrary: k q s)
  case Leaf then show ?case by (cases k) auto
next
  case (Node l a r)
  obtain k' where k: "k = Suc k'" "height l < k'" "height r < k'" using Node.prems(9) by (cases k) auto
  let ?d = "larger x a"
  let ?c = "if ?d then r else l"
  let ?o = "if ?d then l else r"
  let ?s = "set_bal a (of_bool ?d) s"
  have q: "q = Some a" "\<not> equal x a" "x \<noteq> a" using Node.prems by (auto split: if_splits)
  have a: "a \<notin> set_tree ?c" "a \<notin> set_tree ?o" "set_tree ?c \<inter> set_tree ?o = {}" using Node.prems by auto
  have bal_s: "bal_ok ?s ?c" "path_bal larger ?s x ?c" "bal_ok ?s ?o"
    using Node.prems(4,5) a by (simp_all add: path_bal_Node)
  have at: "avl_at ?s (lnk ?s a ?d) (ins larger x ?c)"
    using Node.prems(1) by (cases ?d) auto
  have "\<exists>s'. insert_path larger equal k' x (lnk ?s a ?d) ?s = Inr s' \<and> bal_ok s' (ins larger x ?c) \<and>
           lnk s' = lnk ?s \<and> root s' = root ?s \<and> (\<forall>n. n \<notin> set_tree ?c \<longrightarrow> bal s' n = bal ?s n)"
  proof (cases ?d)
    case True
    show ?thesis using Node.IH(2)[of ?s "lnk ?s a ?d" k'] Node.prems at bal_s k True q(3) by simp
  next
    case False
    show ?thesis using Node.IH(1)[of ?s "lnk ?s a ?d" k'] Node.prems at bal_s k False q(3) by simp
  qed
  then obtain s' where s': "insert_path larger equal k' x (lnk ?s a ?d) ?s = Inr s'" "bal_ok s' (ins larger x ?c)"
    "lnk s' = lnk ?s" "root s' = root ?s" "\<forall>n. n \<notin> set_tree ?c \<longrightarrow> bal s' n = bal ?s n" by auto
  have "bal_ok s' ?o" using bal_ok_frame[OF bal_s(3) s'(5)] a by blast
  moreover have "height (ins larger x ?c) = Suc (height ?c)" using height_ins bal_s by metis
  moreover have "bal s' a = of_bool ?d" using s'(5) a by simp
  moreover have "height l = height r" using Node.prems(4,5) by (auto simp: path_bal_Node balanced_def)
  ultimately have "bal_ok s' (ins larger x (Node l a r))" using s'(2) by (cases ?d) auto
  moreover have "insert_path larger equal k x q s = Inr s'" using q k(1) s'(1) by (simp add: Let_def)
  ultimately show ?case using s'(3-5) by (auto split: if_splits)
qed

subsection \<open>Rotations on trees\<close>

text \<open>\<open>mk d b a c\<close> is the tree with root \<open>a\<close>, child \<open>c\<close> in direction \<open>d\<close> and child \<open>b\<close> in the other.\<close>

definition mk :: "bool \<Rightarrow> 'n tree \<Rightarrow> 'n \<Rightarrow> 'n tree \<Rightarrow> 'n tree" where
  "mk d b a c = (if d then Node b a c else Node c a b)"

definition frame :: "('n, 's) slot \<Rightarrow> 'n set \<Rightarrow> ('n, 's, 'x) avl_scheme \<Rightarrow> ('n, 's, 'x) avl_scheme \<Rightarrow> bool" where
  "frame q A s s' \<longleftrightarrow> (\<forall>p. p \<noteq> q \<longrightarrow> owner p \<inter> A = {} \<longrightarrow> deref s' p = deref s p) \<and>
     (\<forall>n. n \<notin> A \<longrightarrow> bal s' n = bal s n) \<and> avl.more s' = avl.more s"

lemma Node_mk: "Node l a r = mk d (if d then l else r) a (if d then r else l)"
  by (simp add: mk_def)

lemma mk_simps [simp]:
  "avl_at s q (mk d b a c) \<longleftrightarrow> q = Some a \<and> avl_at s (lnk s a (\<not> d)) b \<and> avl_at s (lnk s a d) c"
  "bal_ok s (mk d b a c) \<longleftrightarrow> bal_ok s b \<and> bal_ok s c \<and>
     (bal s a = 2 \<and> height b = height c \<or> bal s a = of_bool d \<and> height c = Suc (height b) \<or>
      bal s a = of_bool (\<not> d) \<and> height b = Suc (height c))"
  "distinct_tree (mk d b a c) \<longleftrightarrow> distinct_tree b \<and> distinct_tree c \<and> a \<notin> set_tree b \<and> a \<notin> set_tree c \<and>
     set_tree b \<inter> set_tree c = {}"
  "set_tree (mk d b a c) = insert a (set_tree b \<union> set_tree c)"
  "height (mk d b a c) = Suc (max (height b) (height c))"
  "mk d b a c \<noteq> Leaf"
  by (auto simp: mk_def)

lemma mk_path:
  "path larger x (mk d b a c) = a # path larger x (if larger x a = d then c else b)"
  "ins larger x (mk d b a c) = (if larger x a = d then mk d b a (ins larger x c) else mk d (ins larger x b) a c)"
  by (auto simp: mk_def)

lemma inorder_mk:
  "inorder (mk d (mk d b a b') c h) = inorder (mk d b a (mk d b' c h))"
  "inorder (mk d (mk d b a g1) g (mk d g2 c h)) = inorder (mk d b a (mk d (mk d g1 g g2) c h))"
  by (cases d; simp add: mk_def)+

lemma inorder_mk_cong:
  "inorder b = inorder b' \<Longrightarrow> inorder c = inorder c' \<Longrightarrow> inorder (mk d b a c) = inorder (mk d b' a c')"
  by (simp add: mk_def)

lemma of_bool_neq [simp]:
  "(of_bool d :: u32) \<noteq> 2" "(2 :: u32) \<noteq> of_bool d" "of_bool (\<not> d) \<noteq> (of_bool d :: u32)"
  "of_bool d \<noteq> (of_bool (\<not> d) :: u32)"
  by (cases d; simp)+

lemma lnk_assign: "lnk (assign q v s) n d = (if q = Lnk n d then v else lnk s n d)"
  by (cases q) auto

lemma avl_at_assign [simp]: "owner q \<inter> set_tree t = {} \<Longrightarrow> avl_at (assign q v s) p t = avl_at s p t"
  by (rule avl_at_cong) (rule assign_other, auto)

lemma deref_set_lnk: "deref (set_lnk n d v s) q = (if q = Lnk n d then v else deref s q)"
  by (cases q) auto

lemma deref_assign_iff: "deref (assign p v s) q = (if q = p then v else deref s q)"
  by (cases p; cases q) auto

lemma more_simps [simp]:
  "avl.more (set_lnk n d v s) = avl.more s" "avl.more (set_bal n b s) = avl.more s"
  "avl.more (assign q v s) = avl.more s"
  by (cases q; simp add: set_lnk_def set_bal_def)+

lemma rotate_ok:
  assumes "avl_at s (deref s q) (mk d b a (mk d b' c g))" "distinct_tree (mk d b a (mk d b' c g))"
    and "owner q \<inter> set_tree (mk d b a (mk d b' c g)) = {}"
  shows "\<exists>s'. rotate q d s = Inr (lnk s c d, s') \<and> avl_at s' (deref s' q) (mk d (mk d b a b') c g) \<and>
           bal s' = (bal s)(a := 2, c := 2) \<and> lnk s' c d = lnk s c d \<and>
           frame q {a, c} s s'"
proof -
  let ?s = "set_bal a 2 (set_bal c 2 (set_lnk c (\<not> d) (Some a) (set_lnk a d (lnk s c (\<not> d)) (assign q (Some c) s))))"
  have q: "q \<noteq> Lnk a d" "q \<noteq> Lnk a (\<not> d)" "q \<noteq> Lnk c d" "q \<noteq> Lnk c (\<not> d)" using assms(3) by auto
  have l: "deref s q = Some a" "lnk s a d = Some c" "a \<noteq> c" using assms by auto
  have "rotate q d s = Inr (lnk s c d, ?s)"
    using l q by (simp add: rotate_def lnk_assign Let_def fun_upd_twist)
  moreover have "avl_at ?s (deref ?s q) (mk d (mk d b a b') c g)"
    using assms q l by (auto simp: deref_set_lnk lnk_assign Int_Un_distrib)
  moreover have "bal ?s = (bal s)(a := 2, c := 2)" using l(3) by (simp add: fun_upd_twist)
  moreover have "frame q {a, c} s ?s"
    by (auto simp: frame_def deref_set_lnk deref_assign_iff)
  moreover have "lnk ?s c d = lnk s c d" using q l by (simp add: lnk_assign)
  ultimately show ?thesis by blast
qed

lemma rotate2_ok:
  assumes t: "t = mk d b a (mk d (mk d g1 g g2) c h)"
    and "avl_at s (deref s q) t" "distinct_tree t" "owner q \<inter> set_tree t = {}"
    and "e = 2 \<or> e = of_bool d \<or> e = of_bool (\<not> d)"
  shows "\<exists>r s'. rotate2 q d e s = Inr (r, s') \<and> avl_at s' (deref s' q) (mk d (mk d b a g1) g (mk d g2 c h)) \<and>
           r = (if e = 2 then None else if e = of_bool d then lnk s' c (\<not> d) else lnk s' a d) \<and>
           bal s' = (bal s)(a := if e = of_bool d then of_bool (\<not> d) else 2,
                            c := if e = of_bool (\<not> d) then of_bool d else 2, g := 2) \<and>
           frame q {a, c, g} s s'"
proof -
  let ?s = "set_bal g 2 (set_bal a 2 (set_bal c 2 (set_lnk g (\<not> d) (Some a) (set_lnk g d (Some c)
              (set_lnk c (\<not> d) (lnk s g d) (set_lnk a d (lnk s g (\<not> d)) (assign q (Some g) s)))))))"
  let ?r = "if e = 2 then ?s else if e = of_bool d then set_bal a (of_bool (\<not> d)) ?s
            else set_bal c (of_bool d) ?s"
  have ne: "(e = 0) = (e = of_bool (\<not> d) \<and> d \<or> e = of_bool d \<and> \<not> d)" using assms(5) by (cases d) auto
  have q: "q \<noteq> Lnk a d" "q \<noteq> Lnk a (\<not> d)" "q \<noteq> Lnk c d" "q \<noteq> Lnk c (\<not> d)" "q \<noteq> Lnk g d" "q \<noteq> Lnk g (\<not> d)"
    using assms(4) t by auto
  have l: "deref s q = Some a" "lnk s a d = Some c" "lnk s c (\<not> d) = Some g" "a \<noteq> c" "a \<noteq> g" "c \<noteq> g"
    using assms(2,3) t by auto
  have "rotate2 q d e s = Inr (if e = 2 then None else if e = of_bool d then lnk ?r c (\<not> d) else lnk ?r a d, ?r)"
    using assms(5) l q by (cases d) (auto simp: rotate2_def lnk_assign Let_def)
  moreover have "avl_at ?s (deref ?s q) (mk d (mk d b a g1) g (mk d g2 c h))"
    using assms(2-4) t q l by (auto simp: deref_set_lnk lnk_assign Int_Un_distrib)
  then have "avl_at ?r (deref ?r q) (mk d (mk d b a g1) g (mk d g2 c h))" by (simp split: if_splits)
  moreover have "bal ?r = (bal s)(a := if e = of_bool d then of_bool (\<not> d) else 2,
                            c := if e = of_bool (\<not> d) then of_bool d else 2, g := 2)"
    using l assms(5) by (auto simp: fun_eq_iff)
  moreover have "frame q {a, c, g} s ?r"
    by (auto simp: frame_def deref_set_lnk deref_assign_iff)
  ultimately show ?thesis by blast
qed

subsection \<open>An insertion as a whole\<close>

text \<open>
  What one call leaves at the slot it was given: a tree with the same nodes in the same order
  plus the new one, with right balances and at most one level higher.
\<close>

definition rebuilt :: "('n \<Rightarrow> 'n \<Rightarrow> bool) \<Rightarrow> 'n \<Rightarrow> ('n, 's) slot \<Rightarrow> 'n tree \<Rightarrow> bool \<Rightarrow>
  ('n, 's, 'x) avl_scheme \<Rightarrow> ('n, 's, 'x) avl_scheme \<Rightarrow> bool" where
  "rebuilt larger x q t up s s' \<longleftrightarrow> (\<exists>t'. avl_at s' (deref s' q) t' \<and> bal_ok s' t' \<and>
     inorder t' = inorder (ins larger x t) \<and> height t' = height t + of_bool up \<and>
     frame q (insert x (set_tree t)) s s')"

definition insert_rest :: "('n \<Rightarrow> 'n \<Rightarrow> bool) \<Rightarrow> ('n \<Rightarrow> 'n \<Rightarrow> bool) \<Rightarrow> nat \<Rightarrow> 'n \<Rightarrow> ('n, 's) slot \<Rightarrow>
  ('n, 's, 'x) avl_scheme \<Rightarrow> ('n, 's, 'x) avl_scheme result" where
  "insert_rest larger equal k x p s =
     bind_result (insert_fix larger equal x p s) (\<lambda>(n, s). insert_path larger equal k x n s)"

lemma frame_trans:
  assumes "frame q A s s1" "frame q A s1 s2" shows "frame q A s s2"
  using assms by (simp add: frame_def)

lemma frame_bal:
  assumes "lnk s' = lnk s" "root s' = root s" "\<forall>n. n \<notin> A \<longrightarrow> bal s' n = bal s n" "avl.more s' = avl.more s"
  shows "frame q A s s'"
proof -
  have "deref s' p = deref s p" for p using assms by (cases p) auto
  then show ?thesis using assms by (simp add: frame_def)
qed

lemma insert_path_more: "insert_path larger equal k x q s = Inr s' \<Longrightarrow> avl.more s' = avl.more s"
  by (induction k arbitrary: q s) (auto simp: Let_def split: option.splits if_splits)

lemma deref_eq: "lnk s' = lnk s \<Longrightarrow> root s' = root s \<Longrightarrow> deref s' q = deref s q"
  by (cases q) auto

text \<open>The situation after the new leaf is linked in below \<open>q\<close>.\<close>

definition leaf_linked :: "('n \<Rightarrow> 'n \<Rightarrow> bool) \<Rightarrow> ('n \<Rightarrow> 'n \<Rightarrow> bool) \<Rightarrow> 'n \<Rightarrow> ('n, 's) slot \<Rightarrow> 'n tree \<Rightarrow> nat \<Rightarrow>
  ('n, 's, 'x) avl_scheme \<Rightarrow> bool" where
  "leaf_linked larger equal x q t k s \<longleftrightarrow> avl_at s (deref s q) (ins larger x t) \<and> distinct_tree t \<and>
     x \<notin> set_tree t \<and> owner q \<inter> insert x (set_tree t) = {} \<and> bal_ok s t \<and> bal s x = 2 \<and>
     (\<forall>n \<in> set (path larger x t). \<not> equal x n) \<and> equal x x \<and> height t < k"

lemma rest_balanced:
  assumes "leaf_linked larger equal x q t k s" "path_bal larger s x t"
  shows "\<exists>s'. insert_rest larger equal k x q s = Inr s' \<and> rebuilt larger x q t True s s'"
proof -
  note L = assms(1)[unfolded leaf_linked_def]
  obtain n where n: "deref s q = Some n" "balanced s n"
    using L assms(2) by (cases t) (auto simp: path_bal_Node balanced_def split: if_splits)
  obtain s' where s': "insert_path larger equal k x (deref s q) s = Inr s'" "bal_ok s' (ins larger x t)"
    "lnk s' = lnk s" "root s' = root s" "\<forall>n. n \<notin> set_tree t \<longrightarrow> bal s' n = bal s n"
    using insert_path_ok[of s "deref s q" larger x t equal k] L assms(2) by auto
  have "avl_at s' (deref s' q) (ins larger x t)"
    using L avl_at_cong[of "ins larger x t" s' s] s'(3,4) deref_eq[of s' s q] by simp
  moreover have "frame q (insert x (set_tree t)) s s'"
    using s' insert_path_more[OF s'(1)] by (intro frame_bal) auto
  moreover have "height (ins larger x t) = Suc (height t)" using height_ins[of larger s x t] L assms(2) by simp
  ultimately have "rebuilt larger x q t True s s'" unfolding rebuilt_def using s'(2) by auto
  then show ?thesis using n s'(1) by (auto simp: insert_rest_def insert_fix_def)
qed

text \<open>The path below a node whose subtree the insertion makes higher.\<close>

lemma rest_path:
  assumes "insert_fix larger equal x q s = Inr (n, s1)" "avl_at s1 n (ins larger x c)"
    and "distinct_tree c" "x \<notin> set_tree c" "path_bal larger s1 x c" "bal_ok s1 c" "bal s1 x = 2"
    and "\<forall>n \<in> set (path larger x c). \<not> equal x n" "equal x x" "height c < k"
  obtains s' where "insert_rest larger equal k x q s = Inr s'" "bal_ok s' (ins larger x c)"
    "lnk s' = lnk s1" "\<forall>n. n \<notin> set_tree c \<longrightarrow> bal s' n = bal s1 n" "\<And>p. deref s' p = deref s1 p"
    "\<And>q A. frame q A s s1 \<Longrightarrow> set_tree c \<subseteq> A \<Longrightarrow> frame q A s s'"
    "height (ins larger x c) = Suc (height c)"
proof -
  obtain s' where s': "insert_path larger equal k x n s1 = Inr s'" "bal_ok s' (ins larger x c)"
    "lnk s' = lnk s1" "root s' = root s1" "\<forall>n. n \<notin> set_tree c \<longrightarrow> bal s' n = bal s1 n"
    using insert_path_ok[of s1 n larger x c equal k] assms by auto
  show ?thesis
  proof (rule that[OF _ s'(2,3,5)])
    show "insert_rest larger equal k x q s = Inr s'" using assms(1) s'(1) by (simp add: insert_rest_def)
    show "deref s' p = deref s1 p" for p using s'(3,4) by (rule deref_eq)
    show "frame q A s s'" if "frame q A s s1" "set_tree c \<subseteq> A" for q A
      using frame_trans[OF that(1) frame_bal[of s' s1 A q]] s' insert_path_more[OF s'(1)] that(2) by auto
    show "height (ins larger x c) = Suc (height c)" using height_ins assms by metis
  qed
qed

lemma leaf_linkedD:
  assumes "leaf_linked larger equal x q t k s"
  shows "avl_at s (deref s q) (ins larger x t)" "distinct_tree t" "x \<notin> set_tree t"
    "owner q \<inter> insert x (set_tree t) = {}" "bal_ok s t" "bal s x = 2"
    "\<forall>n \<in> set (path larger x t). \<not> equal x n" "equal x x" "height t < k"
  using assms by (simp_all add: leaf_linked_def)

lemma rest_lower:
  assumes L: "leaf_linked larger equal x q (mk d b a c) k s" and d: "larger x a = d"
    and pb: "path_bal larger s x c" and bl: "bal s a = of_bool (\<not> d)"
  shows "\<exists>s'. insert_rest larger equal k x q s = Inr s' \<and> rebuilt larger x q (mk d b a c) False s s'"
proof -
  note l = leaf_linkedD[OF L]
  let ?s = "set_bal a 2 s"
  have fx: "insert_fix larger equal x q s = Inr (lnk s a d, ?s)"
    using l(1) d bl by (simp add: insert_fix_def mk_path balanced_def Let_def)
  have h: "height b = Suc (height c)" using l(5) bl by auto
  obtain s' where s': "insert_rest larger equal k x q s = Inr s'" "bal_ok s' (ins larger x c)"
    "lnk s' = lnk ?s" "\<forall>n. n \<notin> set_tree c \<longrightarrow> bal s' n = bal ?s n" "\<And>p. deref s' p = deref ?s p"
    "\<And>q A. frame q A s ?s \<Longrightarrow> set_tree c \<subseteq> A \<Longrightarrow> frame q A s s'" "height (ins larger x c) = Suc (height c)"
    by (rule rest_path[OF fx, of c k]) (use l d pb in \<open>auto simp: mk_path\<close>)
  have "bal_ok s' b" using bal_ok_frame[of ?s b "set_tree c" s'] l(2,5) s'(4) by auto
  moreover have "bal s' a = 2" using s'(4) l(2) by auto
  moreover have "avl_at s' (deref s' q) (mk d b a (ins larger x c))"
    using l(1) d s'(3,5) avl_at_cong[of _ s' s] by (simp add: mk_path)
  moreover have "frame q (insert x (set_tree (mk d b a c))) s s'"
    by (rule s'(6)) (auto simp: frame_def)
  moreover have "ins larger x (mk d b a c) = mk d b a (ins larger x c)" using d by (simp add: mk_path)
  ultimately have "rebuilt larger x q (mk d b a c) False s s'"
    unfolding rebuilt_def using s'(2,7) h by (intro exI[of _ "mk d b a (ins larger x c)"]) simp
  with s'(1) show ?thesis by blast
qed

lemma rest_single:
  assumes L: "leaf_linked larger equal x q (mk d b a (mk d b' e c)) k s" and d: "larger x a = d" "larger x e = d"
    and pb: "balanced s e" "path_bal larger s x c" and bl: "bal s a = of_bool d"
  shows "\<exists>s'. insert_rest larger equal k x q s = Inr s' \<and>
           rebuilt larger x q (mk d b a (mk d b' e c)) False s s'"
proof -
  note l = leaf_linkedD[OF L]
  let ?t = "mk d b a (mk d b' e (ins larger x c))"
  have t: "ins larger x (mk d b a (mk d b' e c)) = ?t" using d by (simp add: mk_path)
  have dt: "distinct_tree ?t" "owner q \<inter> set_tree ?t = {}" using l(2-4) distinct_ins[of c x larger] by auto
  obtain s1 where s1: "rotate q d s = Inr (lnk s e d, s1)"
    "avl_at s1 (deref s1 q) (mk d (mk d b a b') e (ins larger x c))" "bal s1 = (bal s)(a := 2, e := 2)"
    "lnk s1 e d = lnk s e d" "frame q {a, e} s s1"
    using rotate_ok[OF l(1)[unfolded t] dt] by blast
  have fx: "insert_fix larger equal x q s = Inr (lnk s1 e d, s1)"
    using l(1) d bl s1(1,4) t by (simp add: insert_fix_def balanced_def Let_def)
  have h: "height c = height b" "height b' = height b" using l(5) bl pb(1) by (auto simp: balanced_def)
  have dist: "a \<notin> set_tree c" "e \<notin> set_tree c" "a \<noteq> e" "x \<noteq> a" "x \<noteq> e" "set_tree c \<inter> set_tree b = {}"
    "set_tree c \<inter> set_tree b' = {}" "a \<notin> set_tree b" "a \<notin> set_tree b'" "e \<notin> set_tree b" "e \<notin> set_tree b'"
    using l(2,3) by auto
  have keep: "bal_ok s1 v = bal_ok s v" "path_bal larger s1 x v = path_bal larger s x v"
    if "a \<notin> set_tree v" "e \<notin> set_tree v" for v
    by (rule bal_ok_cong path_bal_cong; use that s1(3) in auto)+
  obtain s' where s': "insert_rest larger equal k x q s = Inr s'" "bal_ok s' (ins larger x c)"
    "lnk s' = lnk s1" "\<forall>n. n \<notin> set_tree c \<longrightarrow> bal s' n = bal s1 n" "\<And>p. deref s' p = deref s1 p"
    "\<And>q A. frame q A s s1 \<Longrightarrow> set_tree c \<subseteq> A \<Longrightarrow> frame q A s s'" "height (ins larger x c) = Suc (height c)"
    by (rule rest_path[OF fx, of c k]) (use l d pb s1 keep dist in \<open>auto simp: mk_path\<close>)
  have "bal_ok s' b" "bal_ok s' b'" "bal s' a = 2" "bal s' e = 2"
    using bal_ok_frame[of s1 b "set_tree c" s'] bal_ok_frame[of s1 b' "set_tree c" s'] l(5) s'(4) s1(3) keep dist
    by (auto simp: Int_commute)
  moreover have "avl_at s' (deref s' q) (mk d (mk d b a b') e (ins larger x c))"
    using s1(2) s'(3,5) avl_at_cong[of _ s' s1] by simp
  moreover have "frame q (insert x (set_tree (mk d b a (mk d b' e c)))) s s'"
    using s1(5) by (intro s'(6)) (auto simp: frame_def)
  ultimately have "rebuilt larger x q (mk d b a (mk d b' e c)) False s s'"
    unfolding rebuilt_def t using s'(2,7) h
    by (intro exI[of _ "mk d (mk d b a b') e (ins larger x c)"]) (simp add: inorder_mk)
  with s'(1) show ?thesis by blast
qed

text \<open>The inner grandchild is the new node itself, or the new node lies in direction \<open>f\<close> below it.\<close>

lemma rest_double_new:
  assumes L: "leaf_linked larger equal x q (mk d b a (mk d Leaf e c)) k s" and d: "larger x a = d" "larger x e = (\<not> d)"
    and pb: "balanced s e" and bl: "bal s a = of_bool d"
  shows "\<exists>s'. insert_rest larger equal k x q s = Inr s' \<and>
           rebuilt larger x q (mk d b a (mk d Leaf e c)) False s s'"
proof -
  note l = leaf_linkedD[OF L]
  let ?t = "mk d b a (mk d (mk d Leaf x Leaf) e c)"
  have t: "ins larger x (mk d b a (mk d Leaf e c)) = ?t" using d by (simp add: mk_path) (simp add: mk_def)
  have dt: "distinct_tree ?t" "owner q \<inter> set_tree ?t = {}" using l(2-4) by auto
  obtain s1 where s1: "rotate2 q d 2 s = Inr (None, s1)"
    "avl_at s1 (deref s1 q) (mk d (mk d b a Leaf) x (mk d Leaf e c))"
    "bal s1 = (bal s)(a := 2, e := 2, x := 2)" "frame q {a, e, x} s s1"
    using rotate2_ok[OF refl l(1)[unfolded t] dt, of 2] by auto
  have "insert_fix larger equal x q s = Inr (None, s1)"
    using l(1,8) d bl s1(1) t by (simp add: insert_fix_def balanced_def Let_def)
  then have r: "insert_rest larger equal k x q s = Inr s1" using l(9) by (cases k) (simp_all add: insert_rest_def)
  have h: "height c = 0" "height b = 0" using l(5) bl pb(1) by (auto simp: balanced_def)
  have "bal_ok s1 c" "bal_ok s1 b" by (rule bal_ok_frame[of s _ "{a, e, x}"], use l s1(3) in auto)+
  moreover have "bal s1 a = 2" "bal s1 e = 2" "bal s1 x = 2" using l(2,3) s1(3) by auto
  ultimately have "rebuilt larger x q (mk d b a (mk d Leaf e c)) False s s1"
    unfolding rebuilt_def t using s1 h
    by (intro exI[of _ "mk d (mk d b a Leaf) x (mk d Leaf e c)"])
       (simp add: inorder_mk(2) insert_commute)
  with r show ?thesis by blast
qed

lemma rest_double_below:
  assumes L: "leaf_linked larger equal x q (mk d b a (mk d (mk d g1 g g2) e c)) k s"
    and d: "larger x a = d" "larger x e = (\<not> d)"
    and pb: "balanced s e" "balanced s g" "path_bal larger s x (if larger x g = d then g2 else g1)"
    and bl: "bal s a = of_bool d"
  shows "\<exists>s'. insert_rest larger equal k x q s = Inr s' \<and>
           rebuilt larger x q (mk d b a (mk d (mk d g1 g g2) e c)) False s s'"
proof -
  note l = leaf_linkedD[OF L]
  let ?f = "larger x g = d"
  let ?v = "if ?f then g2 else g1" and ?w = "if ?f then g1 else g2"
  let ?h1 = "if ?f then g1 else ins larger x g1" and ?h2 = "if ?f then ins larger x g2 else g2"
  let ?t = "mk d b a (mk d (mk d ?h1 g ?h2) e c)"
  let ?t' = "mk d (mk d b a ?h1) g (mk d ?h2 e c)"
  let ?b = "of_bool (larger x g) :: u32"
  have t: "ins larger x (mk d b a (mk d (mk d g1 g g2) e c)) = ?t" using d by (simp add: mk_path)
  have dt: "distinct_tree ?t" "owner q \<inter> set_tree ?t = {}"
    using l(2-4) distinct_ins[of g1 x larger] distinct_ins[of g2 x larger] by auto
  have bd: "?b = of_bool d \<or> ?b = of_bool (\<not> d)" by (cases d; cases "larger x g"; simp)
  then obtain n s1 where s1: "rotate2 q d ?b s = Inr (n, s1)" "avl_at s1 (deref s1 q) ?t'"
    "n = (if ?f then lnk s1 e (\<not> d) else lnk s1 a d)"
    "bal s1 = (bal s)(a := if ?f then of_bool (\<not> d) else 2, e := if ?f then 2 else of_bool d, g := 2)"
    "frame q {a, e, g} s s1"
    using rotate2_ok[OF refl l(1)[unfolded t] dt, of ?b] by (cases d; cases "larger x g"; simp) blast+
  have "\<not> equal x g" using l(7) d by (simp add: mk_path)
  then have fx: "insert_fix larger equal x q s = Inr (n, s1)"
    using l(1) d bl s1(1) t by (simp add: insert_fix_def balanced_def Let_def)
  have h: "height c = height b" "height g1 = height g2" "height b = Suc (height g1)"
    using l(5) bl pb(1,2) by (auto simp: balanced_def)
  have dist: "{a, e, g} \<inter> set_tree v = {}" if "v \<in> {b, c, g1, g2}" for v using l(2,3) that by auto
  have keep: "bal_ok s1 v = bal_ok s v" "path_bal larger s1 x v = path_bal larger s x v" if "v \<in> {b, c, g1, g2}" for v
    by (rule bal_ok_cong path_bal_cong; use dist[OF that] s1(4) in auto)+
  have v: "avl_at s1 n (ins larger x ?v)" "distinct_tree ?v" "x \<notin> set_tree ?v" "path_bal larger s1 x ?v" "bal_ok s1 ?v"
    "bal s1 x = 2" "\<forall>n \<in> set (path larger x ?v). \<not> equal x n" "equal x x" "height ?v < k"
  proof -
    show "avl_at s1 n (ins larger x ?v)" using s1(2,3) by (cases ?f) simp_all
    show "distinct_tree ?v" "x \<notin> set_tree ?v" "height ?v < k" using l(2,3,9) by (cases ?f; simp)+
    show "path_bal larger s1 x ?v" "bal_ok s1 ?v" using pb(3) l(5) keep by (cases ?f; simp)+
    show "bal s1 x = 2" using s1(4) l(3,6) by auto
    show "\<forall>n \<in> set (path larger x ?v). \<not> equal x n" using l(7) d by (simp add: mk_path)
    show "equal x x" by (rule l(8))
  qed
  obtain s' where s': "insert_rest larger equal k x q s = Inr s'" "bal_ok s' (ins larger x ?v)"
    "lnk s' = lnk s1" "\<forall>n. n \<notin> set_tree ?v \<longrightarrow> bal s' n = bal s1 n" "\<And>p. deref s' p = deref s1 p"
    "\<And>q A. frame q A s s1 \<Longrightarrow> set_tree ?v \<subseteq> A \<Longrightarrow> frame q A s s'" "height (ins larger x ?v) = Suc (height ?v)"
    by (rule rest_path[OF fx v]) (rule that)
  have "bal_ok s1 b" "bal_ok s1 c" "bal_ok s1 ?w" using keep(1) l(5) by simp_all
  moreover have "set_tree b \<inter> set_tree ?v = {}" "set_tree c \<inter> set_tree ?v = {}" "set_tree ?w \<inter> set_tree ?v = {}"
    using l(2) by (cases ?f; auto)+
  ultimately have "bal_ok s' b" "bal_ok s' c" "bal_ok s' ?w" using bal_ok_frame[OF _ s'(4)] by blast+
  moreover have "bal s' a = (if ?f then of_bool (\<not> d) else 2)" "bal s' e = (if ?f then 2 else of_bool d)" "bal s' g = 2"
    using s'(4) s1(4) l(2) dist by auto
  ultimately have "bal_ok s' ?t'" "height ?t' = height (mk d b a (mk d (mk d g1 g g2) e c))"
    using s'(2,7) h by (cases ?f; simp)+
  moreover have "avl_at s' (deref s' q) ?t'" using s1(2) s'(3,5) avl_at_cong[of _ s' s1] by simp
  moreover have "frame q (insert x (set_tree (mk d b a (mk d (mk d g1 g g2) e c)))) s s'"
    using s1(5) by (intro s'(6)) (auto simp: frame_def)
  ultimately have "rebuilt larger x q (mk d b a (mk d (mk d g1 g g2) e c)) False s s'"
    unfolding rebuilt_def t using inorder_mk(2)[of d b a ?h1 g ?h2 e c] by (intro exI[of _ ?t']) simp
  with s'(1) show ?thesis by blast
qed

lemma insert_as_rest:
  assumes "avl_at s (deref s q) t" "\<forall>n \<in> set (path larger x t). \<not> equal x n" "height t < k"
  shows "avl_insert larger equal k q x s =
           bind_result (insert_rest larger equal k x (last_unbal larger s x q q t)
             (assign (leaf_slot larger x q t) (Some x) s)) (\<lambda>s. Inr (True, s))"
  using insert_find_ok[of s q t larger x equal k q] assms
  by (cases "insert_fix larger equal x (last_unbal larger s x q q t) (assign (leaf_slot larger x q t) (Some x) s)")
     (auto simp: avl_insert_def insert_rest_def split: prod.splits)

lemma linked_assign:
  assumes "avl_at s (deref s q) t" "bal_ok s t" "distinct_tree t" "x \<notin> set_tree t"
    "owner q \<inter> insert x (set_tree t) = {}" "lnk s x = (\<lambda>_. None)" "bal s x = 2"
    "\<forall>n \<in> set (path larger x t). \<not> equal x n" "equal x x" "height t < k"
  shows "leaf_linked larger equal x q t k (assign (leaf_slot larger x q t) (Some x) s)"
    "frame q (insert x (set_tree t)) s (assign (leaf_slot larger x q t) (Some x) s)"
proof -
  show "leaf_linked larger equal x q t k (assign (leaf_slot larger x q t) (Some x) s)"
    using insert_leaf[of s q t x larger] assms by (auto simp: leaf_linked_def)
  have "leaf_slot larger x q t = q \<or> owner (leaf_slot larger x q t) \<subseteq> set_tree t \<and> owner (leaf_slot larger x q t) \<noteq> {}"
  proof (cases t)
    case (Node l a r)
    then obtain m f where "leaf_slot larger x q t = Lnk m f"
      using leaf_slot_Lnk[of larger x a "larger x a"] by (metis leaf_slot.simps(2))
    then show ?thesis using leaf_slot_owner(2)[of t larger x q] Node by auto
  qed simp
  then show "frame q (insert x (set_tree t)) s (assign (leaf_slot larger x q t) (Some x) s)"
    by (auto simp: frame_def deref_assign_iff)
qed

lemma rest_unbalanced:
  assumes L: "leaf_linked larger equal x q (mk d b a c) k s" and d: "larger x a = d"
    and pb: "path_bal larger s x c" and na: "\<not> balanced s a"
  shows "\<exists>s'. insert_rest larger equal k x q s = Inr s' \<and> rebuilt larger x q (mk d b a c) False s s'"
proof (cases "bal s a = of_bool d")
  case False
  then have "bal s a = of_bool (\<not> d)" using leaf_linkedD(5)[OF L] na by (auto simp: balanced_def)
  then show ?thesis using rest_lower[OF L d pb] by blast
next
  case True
  then have "c \<noteq> Leaf" using leaf_linkedD(5)[OF L] by auto
  then obtain l e r where c: "c = Node l e r" by (cases c) auto
  let ?i = "if d then l else r" and ?o = "if d then r else l"
  have cm: "c = mk d ?i e ?o" using Node_mk[of l e r d] c by simp
  have e: "balanced s e" "path_bal larger s x (if larger x e then r else l)"
    using pb c by (simp_all add: path_bal_Node)
  show ?thesis
  proof (cases "larger x e = d")
    case eq: True
    have "path_bal larger s x ?o" using e(2) eq by (cases d) auto
    then show ?thesis using rest_single[OF L[unfolded cm] d eq e(1) _ True] cm by simp
  next
    case ne: False
    then have nd: "larger x e = (\<not> d)" by auto
    have pi: "path_bal larger s x ?i" using e(2) nd by (cases d) auto
    show ?thesis
    proof (cases ?i)
      case Leaf
      then have cl: "c = mk d Leaf e ?o" using cm by simp
      show ?thesis using rest_double_new[where larger = larger, OF L[unfolded cl] d nd e(1) True] cl by simp
    next
      case (Node g1 g g2)
      let ?g1 = "if d then g1 else g2" and ?g2 = "if d then g2 else g1"
      have gm: "?i = mk d ?g1 g ?g2" using Node_mk[of g1 g g2 d] Node by simp
      have cg: "c = mk d (mk d ?g1 g ?g2) e ?o" using cm gm by simp
      have "path_bal larger s x (mk d ?g1 g ?g2)" using pi gm by simp
      then have g: "balanced s g" "path_bal larger s x (if larger x g = d then ?g2 else ?g1)"
        unfolding path_bal_def mk_path by simp_all
      show ?thesis
        using rest_double_below[where larger = larger, OF L[unfolded cg] d nd e(1) g True] cg by simp
    qed
  qed
qed

lemma frame_deref: "frame q A s s' \<Longrightarrow> p \<noteq> q \<Longrightarrow> owner p \<inter> A = {} \<Longrightarrow> deref s' p = deref s p"
  by (simp add: frame_def)

lemma frame_avl_at:
  assumes "avl_at s r t" "frame q A s s'" "set_tree t \<inter> A = {}" "owner q \<inter> set_tree t = {}"
  shows "avl_at s' r t"
  using assms(1)
proof (subst avl_at_cong[of t s' s])
  fix n assume "n \<in> set_tree t"
  then have "deref s' (Lnk n d) = deref s (Lnk n d)" for d
    using assms by (intro frame_deref) auto
  then show "lnk s' n = lnk s n" by auto
qed

lemma frame_bal_ok:
  "bal_ok s t \<Longrightarrow> frame q A s s' \<Longrightarrow> set_tree t \<inter> A = {} \<Longrightarrow> bal_ok s' t"
  using bal_ok_frame[of s t A s'] by (simp add: frame_def)

lemma frame_weaken:
  assumes "frame (Lnk a d) A s s'" "insert a A \<subseteq> B" shows "frame q B s s'"
proof -
  have "deref s' p = deref s p" if "owner p \<inter> B = {}" for p
    using assms that by (intro frame_deref[OF assms(1)]) auto
  then show ?thesis using assms by (auto simp: frame_def)
qed

lemma rebuilt_trans:
  "frame q (insert x (set_tree t)) s s1 \<Longrightarrow> rebuilt larger x q t u s1 s' \<Longrightarrow> rebuilt larger x q t u s s'"
  unfolding rebuilt_def using frame_trans by blast

lemma insert_ok:
  assumes "avl_at s (deref s q) t" "bal_ok s t" "distinct_tree t" "x \<notin> set_tree t"
    and "owner q \<inter> insert x (set_tree t) = {}" "lnk s x = (\<lambda>_. None)" "bal s x = 2"
    and "\<forall>n \<in> set (path larger x t). \<not> equal x n" "equal x x" "height t < k"
  shows "\<exists>s'. avl_insert larger equal k q x s = Inr (True, s') \<and>
           rebuilt larger x q t (path_bal larger s x t) s s'"
  using assms
proof (induction t arbitrary: q)
  case Leaf
  let ?s = "assign q (Some x) s"
  obtain s' where "insert_rest larger equal k x q ?s = Inr s'" "rebuilt larger x q Leaf True ?s s'"
    using rest_balanced[of larger equal x q Leaf k ?s] linked_assign(1)[where larger = larger and equal = equal, OF Leaf] by (auto simp: path_bal_Node)
  moreover have "frame q {x} s ?s" using linked_assign(2)[where larger = larger and equal = equal, OF Leaf] by simp
  ultimately show ?case using insert_as_rest[of s q Leaf larger x equal k] Leaf
      rebuilt_trans[of q x Leaf s ?s] by (auto simp: path_bal_Node)
next
  case (Node l a r)
  let ?d = "larger x a"
  let ?b = "if ?d then l else r" and ?c = "if ?d then r else l"
  let ?t = "mk ?d ?b a ?c"
  have t: "Node l a r = ?t" by (rule Node_mk)
  note P = Node.prems[unfolded t]
  let ?s = "assign (leaf_slot larger x q ?t) (Some x) s"
  note L = linked_assign[where larger = larger and equal = equal, OF P]
  have lift: "\<exists>s'. avl_insert larger equal k q x s = Inr (True, s') \<and> rebuilt larger x q ?t u s s'"
    if "last_unbal larger s x q q ?t = q"
      "\<exists>s'. insert_rest larger equal k x q ?s = Inr s' \<and> rebuilt larger x q ?t u ?s s'" for u
    using that insert_as_rest[where larger = larger and equal = equal, OF P(1) P(8) P(10)] rebuilt_trans[OF L(2)] by fastforce
  have pb: "path_bal larger s x ?t \<longleftrightarrow> balanced s a \<and> path_bal larger s x ?c"
    by (simp add: path_bal_def mk_path)
  have lu: "last_unbal larger s x q q ?t = last_unbal larger s x q (Lnk a ?d) ?c"
    unfolding t[symmetric] by simp
  show ?case unfolding t
  proof (cases "path_bal larger s x ?c")
    case True
    have q: "last_unbal larger s x q q ?t = q" unfolding lu by (rule last_unbal_below(2)[OF True])
    show "\<exists>s'. avl_insert larger equal k q x s = Inr (True, s') \<and>
        rebuilt larger x q ?t (path_bal larger s x ?t) s s'"
    proof (rule lift[OF q], cases "balanced s a")
      case b: True
      then have "path_bal larger s x ?t" using pb True by simp
      then show "\<exists>s'. insert_rest larger equal k x q ?s = Inr s' \<and>
        rebuilt larger x q ?t (path_bal larger s x ?t) ?s s'" using rest_balanced[OF L(1)] by simp
    next
      case b: False
      then have "\<not> path_bal larger s x ?t" using pb by simp
      then show "\<exists>s'. insert_rest larger equal k x q ?s = Inr s' \<and>
        rebuilt larger x q ?t (path_bal larger s x ?t) ?s s'"
        using rest_unbalanced[OF L(1) refl] True b by (simp add: balanced_def)
    qed
  next
    case False
    have IH: "\<exists>s'. avl_insert larger equal k (Lnk a ?d) x s = Inr (True, s') \<and>
        rebuilt larger x (Lnk a ?d) ?c (path_bal larger s x ?c) s s'"
      using Node.IH(1)[of "Lnk a ?d"] Node.IH(2)[of "Lnk a ?d"] P by (cases ?d) (simp_all add: mk_path)
    then obtain s' c' where s': "avl_insert larger equal k (Lnk a ?d) x s = Inr (True, s')"
      "avl_at s' (lnk s' a ?d) c'" "bal_ok s' c'" "inorder c' = inorder (ins larger x ?c)" "height c' = height ?c"
      and fr: "frame (Lnk a ?d) (insert x (set_tree ?c)) s s'"
      using False by (auto simp: rebuilt_def)
    have cp: "avl_at s (deref s (Lnk a ?d)) ?c" "\<forall>n \<in> set (path larger x ?c). \<not> equal x n" "height ?c < k"
      using P by (simp_all add: mk_path)
    have same: "avl_insert larger equal k q x s = avl_insert larger equal k (Lnk a ?d) x s"
      unfolding insert_as_rest[where larger = larger and equal = equal, OF P(1) P(8) P(10)] insert_as_rest[where larger = larger and equal = equal, OF cp] lu
        last_unbal_below(1)[OF False, of q _ "Lnk a ?d"] unfolding t[symmetric] by simp
    have "lnk s' a (\<not> ?d) = lnk s a (\<not> ?d)"
      using frame_deref[OF fr, of "Lnk a (\<not> ?d)"] P(3,4) by simp
    moreover have "set_tree ?b \<inter> insert x (set_tree ?c) = {}" "owner (Lnk a ?d) \<inter> set_tree ?b = {}"
      using P(3,4) by auto
    ultimately have o: "avl_at s' (lnk s' a (\<not> ?d)) ?b" "bal_ok s' ?b"
      using frame_avl_at[OF _ fr, of "lnk s a (\<not> ?d)" ?b] frame_bal_ok[OF _ fr, of ?b] P(1,2) by simp_all
    have "a \<notin> insert x (set_tree ?c)" "owner q \<inter> insert x (set_tree ?c) = {}" "q \<noteq> Lnk a ?d"
      using P(3-5) by (auto split: if_splits)
    then have "bal s' a = bal s a" "deref s' q = Some a"
      using fr frame_deref[OF fr, of q] P(1) by (simp_all add: frame_def)
    then have "avl_at s' (deref s' q) (mk ?d ?b a c') \<and> bal_ok s' (mk ?d ?b a c')"
      using o s' P(2) by simp
    moreover have "inorder (mk ?d ?b a c') = inorder (ins larger x ?t)"
      using inorder_mk_cong[OF refl s'(4)] by (simp add: mk_path)
    moreover have "frame q (insert x (set_tree ?t)) s s'" by (rule frame_weaken[OF fr]) auto
    ultimately have "rebuilt larger x q ?t False s s'"
      unfolding rebuilt_def using s'(5) by (intro exI[of _ "mk ?d ?b a c'"]) auto
    then show "\<exists>s'. avl_insert larger equal k q x s = Inr (True, s') \<and>
        rebuilt larger x q ?t (path_bal larger s x ?t) s s'" using same s'(1) pb False by simp
  qed
qed

subsection \<open>A removal as a whole\<close>

text \<open>
  The search of a removal leaves a path of nodes above the node it ends at. A path is a list
  of triples, from the top: the direction taken, the node, and the subtree in the other
  direction. The removal rebalances the path before it unlinks the last node, as if the
  subtree at its end had already become one level lower.
\<close>

type_synonym 'n zipper = "(bool \<times> 'n \<times> 'n tree) list"

fun plug :: "'n zipper \<Rightarrow> 'n tree \<Rightarrow> 'n tree" where
  "plug [] h = h"
| "plug ((d, a, b) # z) h = mk d b a (plug z h)"

fun hole :: "('n, 's) slot \<Rightarrow> 'n zipper \<Rightarrow> ('n, 's) slot" where
  "hole q [] = q"
| "hole q ((d, a, b) # z) = hole (Lnk a d) z"

fun zslot :: "('n, 's) slot \<Rightarrow> 'n zipper \<Rightarrow> 'n \<Rightarrow> ('n, 's) slot" where
  "zslot q [] x = q"
| "zslot q ((d, a, b) # z) x = (if a = x then q else zslot (Lnk a d) z x)"

fun zl :: "'n zipper \<Rightarrow> 'n list" where
  "zl [] = []"
| "zl ((d, a, b) # z) = (if d then inorder b @ a # zl z else zl z)"

fun zr :: "'n zipper \<Rightarrow> 'n list" where
  "zr [] = []"
| "zr ((d, a, b) # z) = (if d then zr z else zr z @ a # inorder b)"

fun znodes :: "'n zipper \<Rightarrow> 'n set" where
  "znodes [] = {}"
| "znodes ((d, a, b) # z) = insert a (set_tree b \<union> znodes z)"

fun spine :: "'n zipper \<Rightarrow> 'n set" where
  "spine [] = {}"
| "spine ((d, a, b) # z) = insert a (spine z)"

definition stop :: "('n, 's, 'x) avl_scheme \<Rightarrow> bool \<Rightarrow> 'n \<Rightarrow> 'n tree \<Rightarrow> bool" where
  "stop s d a b \<longleftrightarrow> balanced s a \<or>
     (bal s a = of_bool (\<not> d) \<and> (case b of Leaf \<Rightarrow> False | Node l n r \<Rightarrow> balanced s n))"

lemma inorder_plug: "inorder (plug z h) = zl z @ inorder h @ zr z"
  by (induction z h rule: plug.induct) (auto simp: mk_def)

lemma plug_append [simp]: "plug (z @ y) h = plug z (plug y h)"
  by (induction z h rule: plug.induct) auto

lemma hole_append [simp]: "hole q (z @ y) = hole (hole q z) y"
  by (induction q z rule: hole.induct) auto

lemma zl_append [simp]: "zl (z @ y) = zl z @ zl y" "zr (z @ y) = zr y @ zr z"
  by (induction z rule: zl.induct) auto

lemma znodes_append [simp]: "znodes (z @ y) = znodes z \<union> znodes y"
  by (induction z rule: znodes.induct) auto

lemma spine_append [simp]: "spine (z @ y) = spine z \<union> spine y"
  by (induction z rule: spine.induct) auto

lemma zslot_append [simp]:
  "zslot q (z @ y) x = (if x \<in> spine z then zslot q z x else zslot (hole q z) y x)"
  by (induction q z x rule: zslot.induct) auto

lemma set_plug [simp]: "set_tree (plug z h) = znodes z \<union> set_tree h"
  by (induction z h rule: plug.induct) auto

lemma spine_znodes: "spine z \<subseteq> znodes z"
  by (induction z rule: znodes.induct) auto

lemma mk_flip: "mk (\<not> d) c a b = mk d b a c"
  by (simp add: mk_def)

text \<open>
  What one round of the rebalancing does below the slot \<open>q\<close> to the triple it meets: the
  triples \<open>z\<close> take its place, with balances that fit a subtree lower by one level.
\<close>

definition stepped :: "('n, 's) slot \<Rightarrow> bool \<Rightarrow> 'n \<Rightarrow> 'n tree \<Rightarrow> 'n tree \<Rightarrow> 'n zipper \<Rightarrow>
  ('n, 's, 'x) avl_scheme \<Rightarrow> ('n, 's, 'x) avl_scheme \<Rightarrow> bool" where
  "stepped q d a b c z s s1 \<longleftrightarrow> avl_at s1 (deref s1 q) (plug z c) \<and> z \<noteq> [] \<and> hole q z = Lnk a d \<and>
     zl z = zl [(d, a, b)] \<and> zr z = zr [(d, a, b)] \<and> znodes z = insert a (set_tree b) \<and>
     a \<in> spine z \<and> frame q (insert a (set_tree b)) s s1 \<and>
     (\<forall>c' (s' :: ('n, 's, 'x) avl_scheme). Suc (height c') = height c \<longrightarrow> bal_ok s' c' \<longrightarrow> (\<forall>n \<in> insert a (set_tree b). bal s' n = bal s1 n) \<longrightarrow>
        bal_ok s' (plug z c') \<and> height (plug z c') + of_bool (\<not> stop s d a b) = height (mk d b a c))"

lemma distinct_inorder: "distinct_tree t = distinct (inorder t)"
  by (induction t) auto

lemma steppedD:
  fixes s :: "('n, 's, 'x) avl_scheme"
  assumes "stepped q d a b c z s s1"
  shows "avl_at s1 (deref s1 q) (plug z c)" "z \<noteq> []" "hole q z = Lnk a d" "zl z = zl [(d, a, b)]" "zr z = zr [(d, a, b)]"
    "znodes z = insert a (set_tree b)" "a \<in> spine z" "frame q (insert a (set_tree b)) s s1"
    "inorder (plug z t) = inorder (mk d b a t)"
    "\<And>c' (s' :: ('n, 's, 'x) avl_scheme). Suc (height c') = height c \<Longrightarrow> bal_ok s' c' \<Longrightarrow> (\<forall>n \<in> insert a (set_tree b). bal s' n = bal s1 n) \<Longrightarrow>
        bal_ok s' (plug z c') \<and> height (plug z c') + of_bool (\<not> stop s d a b) = height (mk d b a c)"
  using assms inorder_plug[of z t] by (auto simp: stepped_def mk_def)

lemma step_keep:
  fixes s :: "('n, 's, 'x) avl_scheme"
  assumes t: "avl_at s (deref s q) (mk d b a c)" "bal_ok s (mk d b a c)" "distinct_tree (mk d b a c)"
    and nb: "bal s a = 2 \<and> v = of_bool (\<not> d) \<or> bal s a = of_bool d \<and> v = 2"
  shows "stepped q d a b c [(d, a, b)] s (set_bal a v s)"
proof -
  have st: "stop s d a b = (bal s a = 2)" using nb by (auto simp: stop_def balanced_def)
  have key: "bal_ok s' (mk d b a c') \<and> height (mk d b a c') + of_bool (\<not> stop s d a b) = height (mk d b a c)"
    if c: "Suc (height c') = height c" "bal_ok s' c'" "\<forall>n \<in> insert a (set_tree b). bal s' n = (if n = a then v else bal s n)"
    for c' and s' :: "('n, 's, 'x) avl_scheme"
  proof -
    have "bal_ok s' b" by (subst bal_ok_cong[of b s' s]) (use c t(2,3) in auto)
    then show ?thesis using c t(2) nb st by auto
  qed
  then show ?thesis using t by (simp add: stepped_def frame_def)
qed

lemma step_rotate:
  fixes s :: "('n, 's, 'x) avl_scheme"
  assumes t: "avl_at s (deref s q) (mk d b a c)" "bal_ok s (mk d b a c)" "distinct_tree (mk d b a c)"
    "owner q \<inter> set_tree (mk d b a c) = {}"
    and ba: "bal s a = of_bool (\<not> d)" and b: "b = mk (\<not> d) b1 e b2" and be: "bal s e \<noteq> of_bool d"
    and r: "rotate q (\<not> d) s = Inr (r, s1)"
    and v: "s2 = (if bal s e = 2 then set_bal e (of_bool d) (set_bal a (of_bool (\<not> d)) s1) else s1)"
  shows "stepped q d a b c [(d, e, b2), (d, a, b1)] s s2" "deref s1 q = Some e"
proof -
  let ?D = "\<not> d"
  have t': "mk d b a c = mk ?D c a (mk ?D b1 e b2)" using mk_flip[of "\<not> d" b a c] b by simp
  have s1: "avl_at s1 (deref s1 q) (mk ?D (mk ?D c a b1) e b2)" "bal s1 = (bal s)(a := 2, e := 2)" "frame q {a, e} s s1"
    using rotate_ok[of s q ?D c a b1 e b2] t r unfolding t' by auto
  have ne: "a \<noteq> e" using t(3) b by auto
  have tr: "plug [(d, e, b2), (d, a, b1)] h = mk ?D (mk ?D h a b1) e b2" for h by (simp add: mk_flip)
  have at: "avl_at s2 (deref s2 q) (plug [(d, e, b2), (d, a, b1)] c)" unfolding tr v using s1(1) by simp
  have fr: "frame q (insert a (set_tree b)) s s2" unfolding v using s1(3) b by (auto simp: frame_def)
  have st: "stop s d a b = (bal s e = 2)" using ba b by (auto simp: stop_def balanced_def mk_def)
  have hs: "height b = Suc (height c)" using t(2) ba by auto
  have bl: "bal s2 a = (if bal s e = 2 then of_bool (\<not> d) else 2)" "bal s2 e = (if bal s e = 2 then of_bool d else 2)"
    "\<forall>n \<in> set_tree b1 \<union> set_tree b2. bal s2 n = bal s n"
    unfolding v using s1(2) ne t(3) b by auto
  have key: "bal_ok s' (plug [(d, e, b2), (d, a, b1)] c') \<and>
      height (plug [(d, e, b2), (d, a, b1)] c') + of_bool (\<not> stop s d a b) = height (mk d b a c)"
    if c: "Suc (height c') = height c" "bal_ok s' c'" "\<forall>n \<in> insert a (set_tree b). bal s' n = bal s2 n"
    for c' and s' :: "('n, 's, 'x) avl_scheme"
  proof -
    have "bal_ok s' b1" "bal_ok s' b2"
      by (subst bal_ok_cong[of _ s' s]; use c(3) bl(3) t(2) b in auto)+
    then show ?thesis using c bl hs t(2) b be st by auto
  qed
  show "stepped q d a b c [(d, e, b2), (d, a, b1)] s s2"
    unfolding stepped_def using at fr key b by (auto simp: mk_def)
  show "deref s1 q = Some e" using s1(1) by simp
qed

lemma step_rotate2:
  fixes s :: "('n, 's, 'x) avl_scheme"
  assumes t: "avl_at s (deref s q) (mk d b a c)" "bal_ok s (mk d b a c)" "distinct_tree (mk d b a c)"
    "owner q \<inter> set_tree (mk d b a c) = {}"
    and ba: "bal s a = of_bool (\<not> d)" and b: "b = mk (\<not> d) (mk (\<not> d) g1 g g2) e b2" and be: "bal s e = of_bool d"
    and r: "rotate2 q (\<not> d) (bal s g) s = Inr (r, s1)"
  shows "stepped q d a b c [(d, g, mk (\<not> d) g2 e b2), (d, a, g1)] s s1" "deref s1 q = Some g"
proof -
  let ?D = "\<not> d" and ?z = "[(d, g, mk (\<not> d) g2 e b2), (d, a, g1)]"
  have t': "mk d b a c = mk ?D c a (mk ?D (mk ?D g1 g g2) e b2)" using mk_flip[of "\<not> d" b a c] b by simp
  have bg: "bal s g = 2 \<or> bal s g = of_bool ?D \<or> bal s g = of_bool (\<not> ?D)" using t(2) b by auto
  have s1: "avl_at s1 (deref s1 q) (mk ?D (mk ?D c a g1) g (mk ?D g2 e b2))"
    "bal s1 = (bal s)(a := if bal s g = of_bool ?D then of_bool d else 2,
                      e := if bal s g = of_bool d then of_bool ?D else 2, g := 2)" "frame q {a, e, g} s s1"
    using rotate2_ok[OF t' t(1,3,4) bg] r by auto
  have ne: "a \<noteq> e" "a \<noteq> g" "e \<noteq> g" using t(3) b by auto
  have tr: "plug ?z h = mk ?D (mk ?D h a g1) g (mk ?D g2 e b2)" for h by (simp add: mk_flip)
  have at: "avl_at s1 (deref s1 q) (plug ?z c)" unfolding tr using s1(1) by simp
  have fr: "frame q (insert a (set_tree b)) s s1" using s1(3) b by (auto simp: frame_def)
  have st: "\<not> stop s d a b" using ba b be by (auto simp: stop_def balanced_def mk_def)
  have hs: "height b = Suc (height c)" using t(2) ba by auto
  have bl: "bal s1 a = (if bal s g = of_bool ?D then of_bool d else 2)"
    "bal s1 e = (if bal s g = of_bool d then of_bool ?D else 2)" "bal s1 g = 2"
    "\<forall>n \<in> set_tree g1 \<union> set_tree g2 \<union> set_tree b2. bal s1 n = bal s n"
    using s1(2) ne t(3) b by auto
  have key: "bal_ok s' (plug ?z c') \<and> height (plug ?z c') + of_bool (\<not> stop s d a b) = height (mk d b a c)"
    if c: "Suc (height c') = height c" "bal_ok s' c'" "\<forall>n \<in> insert a (set_tree b). bal s' n = bal s1 n"
    for c' and s' :: "('n, 's, 'x) avl_scheme"
  proof -
    have "bal_ok s' g1" "bal_ok s' g2" "bal_ok s' b2"
      by (subst bal_ok_cong[of _ s' s]; use c(3) bl(4) t(2) b in auto)+
    then show ?thesis using c bl hs t(2) b be st by auto
  qed
  show "stepped q d a b c ?z s s1"
    unfolding stepped_def using at fr key b by (auto simp: mk_def)
  show "deref s1 q = Some g" using s1(1) by simp
qed

lemma remove_step:
  fixes s :: "('n, 's, 'x) avl_scheme"
  assumes t: "avl_at s (deref s q) (mk d b a c)" "bal_ok s (mk d b a c)" "distinct_tree (mk d b a c)"
    "owner q \<inter> set_tree (mk d b a c) = {}"
    and c: "c \<noteq> Leaf" and d: "larger x a = d"
  shows "\<exists>z s1. stepped q d a b c z s s1 \<and>
           (\<forall>k item d0. (a = x \<longrightarrow> item = q) \<longrightarrow> remove_path larger (Suc k) x q item d0 s =
              remove_path larger k x (Lnk a d) (if a = x then zslot q z x else item) d s1)"
proof -
  obtain y where q: "deref s q = Some a" "lnk s a d = Some y" using t(1) c by (cases c) auto
  consider "bal s a = 2" | "bal s a = of_bool d" | "bal s a = of_bool (\<not> d)" using t(2) by auto
  then show ?thesis
  proof cases
    case 1
    show ?thesis
      by (rule exI, rule exI, rule conjI[OF step_keep[OF t(1-3), of "of_bool (\<not> d)"]])
         (use 1 q d in \<open>simp_all add: balanced_def Let_def\<close>)
  next
    case 2
    show ?thesis
      by (rule exI, rule exI, rule conjI[OF step_keep[OF t(1-3), of 2]])
         (use 2 q d in \<open>simp_all add: balanced_def Let_def\<close>)
  next
    case 3
    have "height b = Suc (height c)" "height c \<noteq> 0" using t(2) 3 c by auto
    then obtain l e r where "b = Node l e r" by (cases b) auto
    then have b: "b = mk (\<not> d) (if \<not> d then l else r) e (if \<not> d then r else l)" by (simp add: Node_mk[of l e r "\<not> d"])
    define b1 b2 where "b1 = (if \<not> d then l else r)" and "b2 = (if \<not> d then r else l)"
    note b = b[folded b1_def b2_def]
    have t': "mk d b a c = mk (\<not> d) c a (mk (\<not> d) b1 e b2)" using mk_flip[of "\<not> d" b a c] b by simp
    have le: "lnk s a (\<not> d) = Some e" "a \<noteq> e" using t(1,3) b by auto
    have run: "remove_path larger (Suc k) x q item d0 s =
        bind_result
          (if bal s e = of_bool d
           then the_node (lnk s e d) (\<lambda>g. rotate2 q (\<not> d) (bal s g) s)
           else bind_result (rotate q (\<not> d) s) (\<lambda>(r, s1).
                  if bal s e = 2 then the_node (deref s1 q) (\<lambda>t.
                         Inr (r, set_bal t (of_bool d) (set_bal a (of_bool (\<not> d)) s1)))
                  else Inr (r, s1)))
          (\<lambda>(r, s). if a = x then the_node (deref s q) (\<lambda>t. remove_path larger k x (Lnk a d) (Lnk t d) d s)
              else remove_path larger k x (Lnk a d) item d s)" for k item d0
      using q 3 d le by (simp add: balanced_def Let_def)
    show ?thesis
    proof (cases "bal s e = of_bool d")
      case True
      then have "height b1 = Suc (height b2)" using t(2) b by auto
      then obtain l1 g r1 where "b1 = Node l1 g r1" by (cases b1) auto
      then obtain g1 g2 where b1: "b1 = mk (\<not> d) g1 g g2" using Node_mk by metis
      note bb = b[unfolded b1]
      have lg: "lnk s e d = Some g" using t(1) bb by auto
      have bg: "bal s g = 2 \<or> bal s g = of_bool (\<not> d) \<or> bal s g = of_bool (\<not> \<not> d)" using t(2) bb by auto
      obtain r s1 where r: "rotate2 q (\<not> d) (bal s g) s = Inr (r, s1)"
        using rotate2_ok[OF t'[unfolded b1] t(1,3,4) bg] by blast
      note S = step_rotate2[OF t 3 bb True r]
      have zs: "zslot q [(d, g, mk (\<not> d) g2 e b2), (d, a, g1)] a = Lnk g d" using t(3) bb by auto
      show ?thesis
        by (intro exI conjI, rule S(1)) (use zs S(2) True lg r in \<open>auto simp: run simp del: remove_path.simps\<close>)
    next
      case False
      obtain r s1 where r: "rotate q (\<not> d) s = Inr (r, s1)"
        using rotate_ok[of s q "\<not> d" c a b1 e b2] t unfolding t' by blast
      let ?s2 = "if bal s e = 2 then set_bal e (of_bool d) (set_bal a (of_bool (\<not> d)) s1) else s1"
      note S = step_rotate[OF t 3 b False r refl]
      have zs: "zslot q [(d, e, b2), (d, a, b1)] a = Lnk e d" "deref ?s2 q = Some e" using le S(2) by simp_all
      show ?thesis
        by (intro exI conjI, rule S(1)) (use zs S(2) False r in \<open>auto simp: run simp del: remove_path.simps\<close>)
    qed
  qed
qed

lemma avl_at_hole: "avl_at s (deref s q) (plug z h) \<Longrightarrow> avl_at s (deref s (hole q z)) h"
  by (induction q z rule: hole.induct) auto

lemma hole_in_spine: "z \<noteq> [] \<Longrightarrow> \<exists>a d. hole q z = Lnk a d \<and> a \<in> spine z"
proof (induction q z rule: hole.induct)
  case (2 q d a b z)
  then show ?case by (cases z) auto
qed simp

lemma avl_at_replace:
  assumes "avl_at s (deref s q) (plug z c)" "distinct_tree (plug z c)" "owner q \<inter> (znodes z \<union> A) = {}"
    and "znodes z \<inter> A = {}" "frame (hole q z) A s s'" "avl_at s' (deref s' (hole q z)) c'"
  shows "avl_at s' (deref s' q) (plug z c')"
  using assms
proof (induction q z rule: hole.induct)
  case (2 q d a b z)
  have rest: "avl_at s' (deref s' (Lnk a d)) (plug z c')"
    by (rule "2.IH") (use "2.prems" in auto)
  obtain e f where h: "hole q ((d, a, b) # z) = Lnk e f" "e \<in> spine ((d, a, b) # z)"
    using hole_in_spine[of "(d, a, b) # z" q] by auto
  have nh: "hole q ((d, a, b) # z) \<noteq> Lnk a (\<not> d)"
  proof (cases z)
    case (Cons y ys)
    then obtain e f where ef: "hole q ((d, a, b) # z) = Lnk e f" "e \<in> spine z"
      using hole_in_spine[of z "Lnk a d"] by auto
    then have "e \<noteq> a" using spine_znodes[of z] "2.prems"(2) by auto
    then show ?thesis using ef(1) by simp
  qed simp
  have e: "e \<in> insert a (znodes z)" using h(2) spine_znodes[of z] by auto
  have "owner q \<inter> A = {}" "q \<noteq> Lnk e f" using "2.prems"(3) e by auto
  then have "deref s' q = Some a"
    using frame_deref[OF "2.prems"(5), of q] "2.prems"(1) h by simp
  moreover have "lnk s' a (\<not> d) = lnk s a (\<not> d)"
    using frame_deref[OF "2.prems"(5) nh[symmetric]] "2.prems"(4) by simp
  moreover have "avl_at s' (lnk s a (\<not> d)) b"
    by (rule frame_avl_at[OF _ "2.prems"(5)]) (use "2.prems"(1,2,4) e h in auto)
  ultimately show ?case using rest by simp
qed simp

text \<open>The rebalancing of the path \<open>z\<close> above the subtree \<open>h\<close>.\<close>

definition hd_stop :: "('n, 's, 'x) avl_scheme \<Rightarrow> 'n zipper \<Rightarrow> bool" where
  "hd_stop s z = (case z of [] \<Rightarrow> False | (d, a, b) # _ \<Rightarrow> stop s d a b)"

definition lowered :: "('n, 's) slot \<Rightarrow> 'n zipper \<Rightarrow> 'n tree \<Rightarrow> 'n \<Rightarrow> 'n zipper \<Rightarrow>
  ('n, 's, 'x) avl_scheme \<Rightarrow> ('n, 's, 'x) avl_scheme \<Rightarrow> bool" where
  "lowered q z h x z' s s' \<longleftrightarrow> avl_at s' (deref s' q) (plug z' h) \<and> hole q z' = hole q z \<and>
     zl z' = zl z \<and> zr z' = zr z \<and> znodes z' = znodes z \<and> (x \<in> spine z \<longrightarrow> x \<in> spine z') \<and> frame q (znodes z) s s' \<and>
     (\<forall>h' (s'' :: ('n, 's, 'x) avl_scheme). Suc (height h') = height h \<longrightarrow> bal_ok s'' h' \<longrightarrow> (\<forall>n \<in> znodes z. bal s'' n = bal s' n) \<longrightarrow>
        bal_ok s'' (plug z' h') \<and> height (plug z' h') + of_bool (\<not> hd_stop s z) = height (plug z h))"

lemma loweredD:
  fixes s :: "('n, 's, 'x) avl_scheme"
  assumes "lowered q z h x z' s s'"
  shows "avl_at s' (deref s' q) (plug z' h)" "hole q z' = hole q z" "zl z' = zl z" "zr z' = zr z"
    "znodes z' = znodes z" "x \<in> spine z \<Longrightarrow> x \<in> spine z'" "frame q (znodes z) s s'"
    "\<And>h' (s'' :: ('n, 's, 'x) avl_scheme). Suc (height h') = height h \<Longrightarrow> bal_ok s'' h' \<Longrightarrow> (\<forall>n \<in> znodes z. bal s'' n = bal s' n) \<Longrightarrow>
        bal_ok s'' (plug z' h') \<and> height (plug z' h') + of_bool (\<not> hd_stop s z) = height (plug z h)"
  using assms by (auto simp: lowered_def)

lemma frame_weaken2: "frame q A s s' \<Longrightarrow> A \<subseteq> B \<Longrightarrow> frame q B s s'"
  unfolding frame_def by blast

definition ends_at :: "('n \<Rightarrow> 'n \<Rightarrow> bool) \<Rightarrow> 'n \<Rightarrow> 'n tree \<Rightarrow> 'n \<Rightarrow> bool" where
  "ends_at larger x h m \<longleftrightarrow> (\<exists>c. h = mk (larger x m) c m Leaf)"

definition follows :: "('n \<Rightarrow> 'n \<Rightarrow> bool) \<Rightarrow> 'n \<Rightarrow> 'n zipper \<Rightarrow> bool" where
  "follows larger x z \<longleftrightarrow> (\<forall>(d, a, b) \<in> set z. larger x a = d)"

definition all_lower :: "('n, 's, 'x) avl_scheme \<Rightarrow> 'n zipper \<Rightarrow> bool" where
  "all_lower s z \<longleftrightarrow> (\<forall>(d, a, b) \<in> set z. \<not> stop s d a b)"

lemma stop_cong:
  "bal s' a = bal s a \<Longrightarrow> (\<And>n. n \<in> set_tree b \<Longrightarrow> bal s' n = bal s n) \<Longrightarrow> stop s' d a b = stop s d a b"
  by (cases b) (auto simp: stop_def balanced_def)

lemma all_lower_cong:
  "(\<And>n. n \<in> znodes z \<Longrightarrow> bal s' n = bal s n) \<Longrightarrow> all_lower s' z = all_lower s z"
proof (induction z rule: znodes.induct)
  case (2 d a b z)
  then show ?case using stop_cong[of s' a s b d] by (auto simp: all_lower_def)
qed (simp add: all_lower_def)

lemma distinct_plug: "distinct_tree (plug z h) \<Longrightarrow> distinct_tree h \<and> znodes z \<inter> set_tree h = {}"
  by (induction z h rule: plug.induct) auto

lemma remove_path_ok:
  fixes s :: "('n, 's, 'x) avl_scheme"
  assumes "avl_at s (deref s q) (plug z h)" "bal_ok s (plug z h)" "distinct_tree (plug z h)"
    "owner q \<inter> set_tree (plug z h) = {}" "ends_at larger x h m" "follows larger x z" "all_lower s (tl z)"
    "x \<in> spine z \<longrightarrow> item = zslot q z x" "length z < k"
  shows "\<exists>z' s'. lowered q z h x z' s s' \<and> remove_path larger k x q item d0 s =
           Inr (if x \<in> spine z then zslot q z' x else item, larger x m, s')"
  using assms
proof (induction z arbitrary: q s item k d0)
  case Nil
  obtain c where h: "h = mk (larger x m) c m Leaf" using Nil.prems(5) by (auto simp: ends_at_def)
  have "lowered q [] h x [] s s" using Nil.prems(1) by (auto simp: lowered_def frame_def hd_stop_def)
  moreover have "remove_path larger k x q item d0 s = Inr (item, larger x m, s)"
    using Nil.prems h by (cases k) auto
  ultimately show ?case by auto
next
  case (Cons e z)
  obtain d a b where e: "e = (d, a, b)" by (cases e) auto
  let ?c = "plug z h"
  obtain k' where k: "k = Suc k'" "length z < k'" using Cons.prems(9) by (cases k) auto
  note P = Cons.prems[unfolded e]
  have c: "?c \<noteq> Leaf" using P(5) by (cases z) (auto simp: ends_at_def)
  have d: "larger x a = d" using P(6) by (auto simp: follows_def)
  obtain z0 s1 where z0: "stepped q d a b ?c z0 s s1"
    and run: "\<forall>k item d0. (a = x \<longrightarrow> item = q) \<longrightarrow> remove_path larger (Suc k) x q item d0 s =
              remove_path larger k x (Lnk a d) (if a = x then zslot q z0 x else item) d s1"
    using remove_step[where larger = larger, of s q d b a ?c x] P(1-4) c d by auto
  note S = steppedD[OF z0]
  have dis: "a \<notin> set_tree ?c" "set_tree b \<inter> set_tree ?c = {}" "distinct_tree ?c" using P(3) by auto
  have bals: "bal s1 n = bal s n" if "n \<in> set_tree ?c" for n
    using S(8) dis that by (auto simp: frame_def simp del: set_plug)
  let ?item = "if a = x then zslot q z0 x else item"
  have "\<exists>z' s'. lowered (Lnk a d) z h x z' s1 s' \<and> remove_path larger k' x (Lnk a d) ?item d s1 =
           Inr (if x \<in> spine z then zslot (Lnk a d) z' x else ?item, larger x m, s')"
  proof (rule Cons.IH)
    show "avl_at s1 (deref s1 (Lnk a d)) ?c" using avl_at_hole[of s1 q z0 ?c] S by simp
    show "bal_ok s1 ?c" using bal_ok_cong[of ?c s1 s] bals P(2) by simp
    show "all_lower s1 (tl z)"
      using all_lower_cong[of "tl z" s1 s] bals P(7) by (cases z) (auto simp: all_lower_def)
    show "follows larger x z" using P(6) by (auto simp: follows_def)
    show "x \<in> spine z \<longrightarrow> ?item = zslot (Lnk a d) z x" using P(8) dis spine_znodes[of z] by auto
  qed (use dis P k in auto)
  then obtain z' s' where z': "lowered (Lnk a d) z h x z' s1 s'"
    and run': "remove_path larger k' x (Lnk a d) ?item d s1 =
           Inr (if x \<in> spine z then zslot (Lnk a d) z' x else ?item, larger x m, s')" by blast
  note T = loweredD[OF z']
  have dz: "znodes z \<inter> znodes z0 = {}" "distinct_tree (plug z0 ?c)"
    using dis S(6,9) P(3) by (auto simp: distinct_inorder)
  have fr: "frame q (znodes (e # z)) s s'"
    using frame_weaken2[OF S(8), of "znodes (e # z)"] frame_weaken[OF T(7), of "znodes (e # z)" q] e
    by (auto intro: frame_trans)
  have "lowered q (e # z) h x (z0 @ z') s s'"
    unfolding lowered_def
  proof (intro conjI allI impI)
    show "avl_at s' (deref s' q) (plug (z0 @ z') h)"
      unfolding plug_append
      by (rule avl_at_replace[OF S(1) dz(2), of "znodes z"]) (use dz S(3,6) T(1,7) P(4) in auto)
    show "frame q (znodes (e # z)) s s'" by (rule fr)
    fix h' and s'' :: "('n, 's, 'x) avl_scheme"
    assume h': "Suc (height h') = height h" "bal_ok s'' h'" "\<forall>n \<in> znodes (e # z). bal s'' n = bal s' n"
    have "bal_ok s'' (plug z' h') \<and> height (plug z' h') + of_bool (\<not> hd_stop s1 z) = height ?c"
      by (rule T(8)) (use h' e in auto)
    moreover have "\<not> hd_stop s1 z"
    proof (cases z)
      case (Cons y ys)
      obtain d' a' b' where y: "y = (d', a', b')" by (cases y) auto
      have "stop s1 d' a' b' = stop s d' a' b'" by (rule stop_cong) (use bals Cons y in auto)
      then show ?thesis using P(7) Cons y by (simp add: hd_stop_def all_lower_def)
    qed (simp add: hd_stop_def)
    moreover have "\<forall>n \<in> insert a (set_tree b). bal s'' n = bal s1 n"
      using h'(3) T(7) dz(1) S(6) e by (auto simp: frame_def)
    ultimately show "bal_ok s'' (plug (z0 @ z') h')"
      "height (plug (z0 @ z') h') + of_bool (\<not> hd_stop s (e # z)) = height (plug (e # z) h)"
      using S(10)[of "plug z' h'" s''] e by (simp_all add: hd_stop_def)
  qed (use S T e in auto)
  moreover have aq: "a = x \<longrightarrow> item = q" using P(8) by simp
  moreover have "x \<in> spine z \<Longrightarrow> x \<notin> spine z0" "x \<in> spine z \<Longrightarrow> a \<noteq> x"
    using spine_znodes[of z] spine_znodes[of z0] dz(1) S(6) by auto
  then have "(if x \<in> spine z then zslot (Lnk a d) z' x else ?item) =
      (if x \<in> spine (e # z) then zslot q (z0 @ z') x else item)"
    using S(3,7) e by simp
  then have "remove_path larger k x q item d0 s =
      Inr (if x \<in> spine (e # z) then zslot q (z0 @ z') x else item, larger x m, s')"
    unfolding k(1) using run aq run' by (simp del: remove_path.simps)
  ultimately show ?case by blast
qed

text \<open>
  The order of a search tree, and where the search of a removal ends: at the node itself when
  it has no left subtree, else at its predecessor.
\<close>

fun ordered :: "('n \<Rightarrow> 'n \<Rightarrow> bool) \<Rightarrow> 'n tree \<Rightarrow> bool" where
  "ordered larger Leaf = True"
| "ordered larger (Node l a r) = ((\<forall>y \<in> set_tree l. larger a y \<and> \<not> larger y a) \<and>
     (\<forall>y \<in> set_tree r. larger y a \<and> \<not> larger a y) \<and> ordered larger l \<and> ordered larger r)"

lemma descend_right:
  assumes "t \<noteq> Leaf" "\<forall>y \<in> set_tree t. larger x y"
  shows "\<exists>z h m. t = plug z h \<and> ends_at larger x h m \<and> follows larger x z \<and> zr z = [] \<and> larger x m"
  using assms
proof (induction t)
  case (Node l a r)
  show ?case
  proof (cases "r = Leaf")
    case True
    then show ?thesis using Node.prems
      by (intro exI[of _ "[]"] exI[of _ "Node l a r"] exI[of _ a]) (auto simp: ends_at_def follows_def mk_def)
  next
    case False
    then obtain z h m where "r = plug z h" "ends_at larger x h m" "follows larger x z" "zr z = []" "larger x m"
      using Node by auto
    then show ?thesis using Node.prems
      by (intro exI[of _ "(True, a, l) # z"] exI[of _ h] exI[of _ m]) (auto simp: follows_def mk_def)
  qed
qed simp

lemma descend_to:
  assumes "x \<in> set_tree t" "ordered larger t" "\<not> larger x x" "distinct_tree t"
  shows "\<exists>z h m. t = plug z h \<and> ends_at larger x h m \<and> follows larger x z \<and>
           (m = x \<or> x \<in> spine z \<and> larger x m \<and> (\<exists>R. zr z = x # R))"
  using assms
proof (induction t)
  case (Node l a r)
  consider (here) "x = a" | (right) "x \<in> set_tree r" "larger x a" | (left) "x \<in> set_tree l" "\<not> larger x a"
    using Node.prems by auto
  then show ?case
  proof cases
    case here
    show ?thesis
    proof (cases "l = Leaf")
      case True
      then show ?thesis using Node.prems here
        by (intro exI[of _ "[]"] exI[of _ "Node l a r"] exI[of _ a]) (auto simp: ends_at_def follows_def mk_def)
    next
      case False
      then obtain z h m where "l = plug z h" "ends_at larger x h m" "follows larger x z" "zr z = []" "larger x m"
        using descend_right[of l larger x] Node.prems here by auto
      then show ?thesis using Node.prems here
        by (intro exI[of _ "(False, a, r) # z"] exI[of _ h] exI[of _ m]) (auto simp: follows_def mk_def)
    qed
  next
    case right
    then obtain z h m where "r = plug z h" "ends_at larger x h m" "follows larger x z"
      "m = x \<or> x \<in> spine z \<and> larger x m \<and> (\<exists>R. zr z = x # R)" using Node by auto
    then show ?thesis using right
      by (intro exI[of _ "(True, a, l) # z"] exI[of _ h] exI[of _ m]) (auto simp: follows_def mk_def)
  next
    case left
    then obtain z h m where "l = plug z h" "ends_at larger x h m" "follows larger x z"
      "m = x \<or> x \<in> spine z \<and> larger x m \<and> (\<exists>R. zr z = x # R)" using Node by auto
    then show ?thesis using left
      by (intro exI[of _ "(False, a, r) # z"] exI[of _ h] exI[of _ m]) (auto simp: follows_def mk_def)
  qed
qed simp

fun last_stop :: "('n, 's, 'x) avl_scheme \<Rightarrow> ('n, 's) slot \<Rightarrow> ('n, 's) slot \<Rightarrow> 'n zipper \<Rightarrow> ('n, 's) slot" where
  "last_stop s p q [] = p"
| "last_stop s p q ((d, a, b) # z) = last_stop s (if stop s d a b then q else p) (Lnk a d) z"

lemma last_stop_split:
  "(last_stop s p q z = p \<and> all_lower s z) \<or>
   (\<exists>z1 z2. z = z1 @ z2 \<and> last_stop s p q z = hole q z1 \<and> hd_stop s z2 \<and> all_lower s (tl z2))"
proof (induction s p q z rule: last_stop.induct)
  case (2 s p q d a b z)
  then show ?case
  proof
    assume "last_stop s (if stop s d a b then q else p) (Lnk a d) z = (if stop s d a b then q else p) \<and> all_lower s z"
    then show ?thesis
      by (cases "stop s d a b")
         (auto simp: hd_stop_def all_lower_def intro: exI[of _ "[]"] exI[of _ "(d, a, b) # z"])
  next
    assume "\<exists>z1 z2. z = z1 @ z2 \<and> last_stop s (if stop s d a b then q else p) (Lnk a d) z = hole (Lnk a d) z1 \<and>
        hd_stop s z2 \<and> all_lower s (tl z2)"
    then obtain z1 z2 where "z = z1 @ z2"
      "last_stop s (if stop s d a b then q else p) (Lnk a d) z = hole (Lnk a d) z1" "hd_stop s z2" "all_lower s (tl z2)"
      by blast
    then show ?thesis by (intro disjI2 exI[of _ "(d, a, b) # z1"] exI[of _ z2]) simp
  qed
qed (simp add: all_lower_def)

lemma remove_find_ok:
  assumes "avl_at s (deref s q) (plug z h)" "bal_ok s (plug z h)" "distinct_tree (plug z h)"
    "ends_at larger x h m" "follows larger x z" "\<forall>n \<in> insert m (spine z). equal x n = (n = x)" "length z < k"
  shows "remove_find larger equal k x p item d0 q s =
           Inr (last_stop s p q z, (if x \<in> insert m (spine z) then Some (zslot q z x) else item), larger x m, hole q z)"
  using assms
proof (induction z arbitrary: q k p item d0)
  case Nil
  then show ?case by (cases k) (auto simp: ends_at_def)
next
  case (Cons e z)
  obtain d a b where e: "e = (d, a, b)" by (cases e) auto
  obtain k' where k: "k = Suc k'" "length z < k'" using Cons.prems(7) by (cases k) auto
  note P = Cons.prems[unfolded e]
  have d: "larger x a = d" using P(5) by (auto simp: follows_def)
  have c: "plug z h \<noteq> Leaf" using P(4) by (cases z) (auto simp: ends_at_def)
  obtain y where y: "lnk s a d = Some y" using P(1) c by (cases "plug z h") auto
  have ax: "a = x \<Longrightarrow> x \<notin> insert m (spine z)"
    using P(3,4) spine_znodes[of z] by (auto simp: ends_at_def)
  let ?item = "if equal x a then Some q else item"
  have ih: "remove_find larger equal k' x p ?item d (Lnk a d) s =
      Inr (last_stop s p (Lnk a d) z, (if x \<in> insert m (spine z) then Some (zslot (Lnk a d) z x) else ?item),
        larger x m, hole (Lnk a d) z)" for p
    by (rule Cons.IH) (use P k in \<open>auto simp: follows_def\<close>)
  have one: "remove_find larger equal (Suc k') x p item d0 q s =
      remove_find larger equal k' x (if stop s d a b then q else p) ?item d (Lnk a d) s"
  proof (cases b)
    case Leaf
    then show ?thesis using P(1,2) d y by (auto simp: stop_def balanced_def Let_def)
  next
    case (Node l n r)
    then show ?thesis using P(1,2) d y by (auto simp: stop_def balanced_def Let_def)
  qed
  show ?case unfolding k(1) one ih e using ax P(6) by auto
qed

text \<open>The last node takes the place of the removed one.\<close>

definition ren :: "'n \<Rightarrow> 'n \<Rightarrow> 'n zipper \<Rightarrow> 'n zipper" where
  "ren x m z = map (\<lambda>(d, a, b). (d, if a = x then m else a, b)) z"

definition take_place :: "('n, 's) slot \<Rightarrow> 'n \<Rightarrow> 'n \<Rightarrow> ('n, 's, 'x) avl_scheme \<Rightarrow> ('n, 's, 'x) avl_scheme" where
  "take_place item x m s =
     (let s = assign item (Some m) s;
          s = set_lnk m False (lnk s x False) s;
          s = set_lnk m True (lnk s x True) s
      in set_bal m (bal s x) s)"

lemma ren_simps [simp]:
  "ren x m [] = []" "ren x m ((d, a, b) # z) = (d, if a = x then m else a, b) # ren x m z"
  by (simp_all add: ren_def)

lemma ren_id: "x \<notin> spine z \<Longrightarrow> ren x m z = z"
  by (induction z rule: spine.induct) auto

lemma zslot_owner: "x \<in> spine z \<Longrightarrow> zslot q z x = q \<or> (\<exists>a d. zslot q z x = Lnk a d \<and> a \<in> spine z \<and> a \<noteq> x)"
proof (induction q z x rule: zslot.induct)
  case (2 q d a b z x)
  then show ?case by (cases "a = x") auto
qed simp

lemma take_place_lnk:
  "x \<noteq> m \<Longrightarrow> x \<notin> owner item \<Longrightarrow> m \<notin> owner item \<Longrightarrow>
   lnk (take_place item x m s) n d = (if n = m then lnk s x d else if item = Lnk n d then Some m else lnk s n d)"
  by (cases item; cases d) (auto simp: take_place_def Let_def)

lemma take_place_bal [simp]: "bal (take_place item x m s) = (bal s)(m := bal s x)"
  by (simp add: take_place_def Let_def)

lemma take_place_more [simp]: "avl.more (take_place item x m s) = avl.more s"
  by (simp add: take_place_def Let_def)

lemma take_place_deref:
  assumes "x \<noteq> m" "x \<notin> owner item" "m \<notin> owner item" "m \<notin> owner p"
  shows "deref (take_place item x m s) p = (if item = p then Some m else deref s p)"
  using assms by (cases p; cases item) (auto simp: take_place_def Let_def)

lemma take_place_keep:
  assumes "x \<noteq> m" "x \<notin> owner item" "m \<notin> owner item" "m \<notin> set_tree v" "owner item \<inter> set_tree v = {}"
  shows "avl_at (take_place item x m s) r v = avl_at s r v"
proof (rule avl_at_cong)
  fix n assume n: "n \<in> set_tree v"
  have "item \<noteq> Lnk n d" for d using n assms(5) by auto
  then show "lnk (take_place item x m s) n = lnk s n"
    using n assms(4) by (auto simp: fun_eq_iff take_place_lnk[OF assms(1-3)])
qed

lemma take_place_tree:
  assumes "avl_at s (deref s q) (plug z c)" "distinct_tree (plug z c)" "x \<in> spine z" "m \<notin> set_tree (plug z c)"
    "owner q \<inter> insert m (set_tree (plug z c)) = {}"
  shows "avl_at (take_place (zslot q z x) x m s) (deref (take_place (zslot q z x) x m s) q) (plug (ren x m z) c)"
  using assms
proof (induction q z rule: hole.induct)
  case (2 q d a b z)
  let ?s = "take_place (zslot q ((d, a, b) # z) x) x m s"
  have xz: "x \<in> insert a (znodes z)" using "2.prems"(3) spine_znodes[of z] by auto
  have xo: "x \<noteq> m" "x \<notin> owner q" "m \<notin> owner q" using xz "2.prems"(4,5) by auto
  have zs: "zslot q ((d, a, b) # z) x = q \<or>
      (\<exists>a' d'. zslot q ((d, a, b) # z) x = Lnk a' d' \<and> a' \<in> insert a (znodes z) \<and> a' \<noteq> x)"
    using zslot_owner[OF "2.prems"(3), of q] spine_znodes[of z] by auto
  have own: "x \<notin> owner (zslot q ((d, a, b) # z) x)" "m \<notin> owner (zslot q ((d, a, b) # z) x)"
    using zs xo "2.prems"(4) by auto
  note keep = take_place_keep[OF xo(1) own]
  have b: "avl_at ?s (lnk s a (\<not> d)) b"
  proof (subst keep[where v = b])
    show "owner (zslot q ((d, a, b) # z) x) \<inter> set_tree b = {}" using zs "2.prems"(2,5) by auto
  qed (use "2.prems" in auto)
  show ?case
  proof (cases "a = x")
    case True
    then have "ren x m z = z" using "2.prems"(2) spine_znodes[of z] by (intro ren_id) auto
    moreover have "avl_at ?s (lnk s a d) (plug z c)" using keep[of "plug z c" s] True "2.prems" by (simp add: Int_Un_distrib)
    ultimately show ?thesis
      using b True xo by (simp add: take_place_lnk take_place_deref)
  next
    case False
    then have x: "x \<in> spine z" using "2.prems"(3) by simp
    have ih: "avl_at ?s (deref ?s (Lnk a d)) (plug (ren x m z) c)"
      using "2.IH" "2.prems" x False by simp
    have "\<exists>a' d'. zslot q ((d, a, b) # z) x = Lnk a' d' \<and> (a' = a \<and> d' = d \<or> a' \<in> znodes z)"
      using zslot_owner[OF x, of "Lnk a d"] False spine_znodes[of z] by auto
    then have zne: "zslot q ((d, a, b) # z) x \<noteq> q" "zslot q ((d, a, b) # z) x \<noteq> Lnk a (\<not> d)"
      using "2.prems"(2,5) by auto
    then have "deref ?s q = deref s q" "lnk ?s a (\<not> d) = lnk s a (\<not> d)"
      using False "2.prems"(4) xo own by (auto simp: take_place_lnk take_place_deref)
    then show ?thesis using ih b False "2.prems"(1) by simp
  qed
qed simp

lemma take_place_bal_ok:
  assumes "bal_ok s (plug z c)" "distinct_tree (plug z c)" "x \<in> spine z" "m \<notin> set_tree (plug z c)"
  shows "bal_ok (take_place item x m s) (plug (ren x m z) c) \<and> height (plug (ren x m z) c) = height (plug z c)"
  using assms
proof (induction z)
  case (Cons e z)
  obtain d a b where e: "e = (d, a, b)" by (cases e) auto
  have keep: "bal_ok (take_place item x m s) v = bal_ok s v" if "m \<notin> set_tree v" for v
    by (rule bal_ok_cong) (use that in auto)
  show ?case
  proof (cases "a = x")
    case True
    then have "ren x m z = z" using Cons.prems(2) e spine_znodes[of z] by (intro ren_id) auto
    then show ?thesis using True Cons.prems keep e by auto
  next
    case False
    then have "bal_ok (take_place item x m s) (plug (ren x m z) c) \<and> height (plug (ren x m z) c) = height (plug z c)"
      using Cons e by auto
    then show ?thesis using False Cons.prems keep e by auto
  qed
qed simp

lemma inorder_ren:
  assumes "zr z = x # R" "x \<in> spine z" "distinct_tree (plug z c)"
  shows "inorder (plug (ren x m z) c) = zl z @ inorder c @ m # R"
proof -
  have "plug (ren x m z) c = map_tree (\<lambda>n. if n = x then m else n) (plug z c)"
    using assms(2,3)
  proof (induction z)
    case (Cons e z)
    obtain d a b where e: "e = (d, a, b)" by (cases e) auto
    have b: "x \<notin> set_tree b" "a = x \<Longrightarrow> x \<notin> set_tree (plug z c)"
      using Cons.prems e spine_znodes[of z] by auto
    then have "map_tree (\<lambda>n. if n = x then m else n) b = b" by (intro tree.map_ident_strong) auto
    moreover have "a = x \<Longrightarrow> map_tree (\<lambda>n. if n = x then m else n) (plug z c) = plug z c"
      using b(2) by (intro tree.map_ident_strong) auto
    moreover have "a = x \<Longrightarrow> ren x m z = z" using b(2) spine_znodes[of z] by (intro ren_id) auto
    moreover have "distinct_tree (plug z c)" using Cons.prems(2) e by simp
    ultimately show ?case using Cons.IH Cons.prems(1) e by (auto simp: mk_def)
  qed simp
  then have "inorder (plug (ren x m z) c) = map (\<lambda>n. if n = x then m else n) (zl z @ inorder c @ x # R)"
    using inorder_plug[of z c] assms(1) by (simp add: inorder_map)
  moreover have "distinct (zl z @ inorder c @ x # R)" using assms(3) by (simp add: distinct_inorder inorder_plug assms(1))
  then have "map (\<lambda>n. if n = x then m else n) (zl z @ inorder c @ x # R) = zl z @ inorder c @ m # R"
    by (auto intro!: map_idI)
  ultimately show ?thesis by simp
qed

lemma remove_end:
  assumes "deref s tree = Some m" "item = tree \<or> m \<notin> owner item" "item = tree \<longleftrightarrow> x = m"
    "x \<noteq> m \<longrightarrow> x \<notin> owner item" "m \<notin> owner tree"
    and e_def: "e = assign tree (lnk s m (\<not> d)) s"
  shows "(let s = assign item (Some m) s; s = assign tree (lnk s m (\<not> d)) s;
              s = set_lnk m False (lnk s x False) s; s = set_lnk m True (lnk s x True) s;
              s = set_bal m (bal s x) s in s) = (if x = m then e else take_place item x m e)"
proof (cases "x = m")
  case True
  have id: "set_lnk m f (lnk s m f) s = s" "set_bal m (bal s m) s = s" for f and s :: "('a, 'b, 'c) avl_scheme"
    by (simp_all add: set_lnk_def set_bal_def)
  have "assign tree (Some m) s = s" using assms(1) by (cases tree) (simp_all add: set_lnk_def fun_upd_idem)
  then show ?thesis using True assms(3) by (simp add: Let_def id e_def)
next
  case False
  have "lnk (assign item (Some m) s) m = lnk s m" using False assms(2,3) by (intro assign_other) auto
  moreover have "assign tree v (assign item w s) = assign item w (assign tree v s)" for v w
    using False assms(3) by (cases tree; cases item) (auto simp: set_lnk_def fun_upd_twist)
  ultimately show ?thesis using False by (simp add: Let_def take_place_def e_def)
qed

lemma bal_ok_hole: "bal_ok s (plug z h) \<Longrightarrow> bal_ok s h"
  by (induction z h rule: plug.induct) auto

lemma zslot_hole: "x \<notin> spine z \<Longrightarrow> zslot q z x = hole q z"
  by (induction q z x rule: zslot.induct) auto

lemma bal_ok_outer:
  assumes "bal_ok s (plug z c)" "\<forall>n \<in> znodes z. bal s' n = bal s n" "bal_ok s' c'" "height c' = height c"
  shows "bal_ok s' (plug z c') \<and> height (plug z c') = height (plug z c)"
  using assms
proof (induction z)
  case (Cons e z)
  obtain d a b where e: "e = (d, a, b)" by (cases e) auto
  have "bal_ok s' b = bal_ok s b" by (rule bal_ok_cong) (use Cons.prems(2) e in auto)
  then show ?case using Cons e by auto
qed simp

text \<open>Search and rebalancing together, on the path from the root.\<close>

lemma remove_lowered:
  fixes s :: "('n, 's, 'x) avl_scheme"
  assumes "avl_at s (deref s q) (plug z h)" "bal_ok s (plug z h)" "distinct_tree (plug z h)"
    "owner q \<inter> set_tree (plug z h) = {}" "ends_at larger x h m" "follows larger x z"
    "x \<in> insert m (spine z)" "\<forall>n \<in> insert m (spine z). equal x n = (n = x)" "length z < k"
  shows "\<exists>p item z' s'. remove_find larger equal k x q None False q s = Inr (p, Some item, larger x m, hole q z) \<and>
    remove_path larger k x p item (larger x m) s = Inr (zslot q z' x, larger x m, s') \<and>
    avl_at s' (deref s' q) (plug z' h) \<and> hole q z' = hole q z \<and> zl z' = zl z \<and> zr z' = zr z \<and>
    znodes z' = znodes z \<and> (x \<in> spine z' \<longleftrightarrow> x \<in> spine z) \<and> frame q (znodes z) s s' \<and>
    (\<forall>h' (s'' :: ('n, 's, 'x) avl_scheme). Suc (height h') = height h \<longrightarrow> bal_ok s'' h' \<longrightarrow>
       (\<forall>n \<in> znodes z. bal s'' n = bal s' n) \<longrightarrow> bal_ok s'' (plug z' h'))"
proof -
  have rf: "remove_find larger equal k x q None False q s =
      Inr (last_stop s q q z, Some (zslot q z x), larger x m, hole q z)"
    using remove_find_ok[where larger = larger and equal = equal and p = q and item = None, OF assms(1-3,5,6,8,9)] assms(7) by simp
  obtain z1 z2 where z: "z = z1 @ z2" "last_stop s q q z = hole q z1" "all_lower s (tl z2)" "z1 = [] \<or> hd_stop s z2"
    using last_stop_split[of s q q z] by (cases z) (fastforce simp: all_lower_def)+
  note P = assms[unfolded z(1)]
  have at2: "avl_at s (deref s (hole q z1)) (plug z2 h)" using avl_at_hole[of s q z1 "plug z2 h"] P(1) by simp
  have mh: "m \<in> set_tree h" using P(5) by (auto simp: ends_at_def)
  have dis: "distinct_tree (plug z2 h)" "znodes z1 \<inter> set_tree (plug z2 h) = {}"
    using distinct_plug[of z1 "plug z2 h"] P(3) by simp_all
  have mz: "m \<notin> znodes z" using distinct_plug[of z h] assms(3) mh by auto
  have own: "owner (hole q z1) \<inter> set_tree (plug z2 h) = {}"
    using hole_in_spine[of z1 q] spine_znodes[of z1] dis(2) P(4) by (cases "z1 = []") auto
  have item: "x \<in> spine z2 \<longrightarrow> zslot q z x = zslot (hole q z1) z2 x"
    using z(1) dis(2) spine_znodes[of z1] spine_znodes[of z2] by auto
  obtain z2' s' where z2': "lowered (hole q z1) z2 h x z2' s s'"
    and rp: "remove_path larger k x (hole q z1) (zslot q z x) (larger x m) s =
      Inr (if x \<in> spine z2 then zslot (hole q z1) z2' x else zslot q z x, larger x m, s')"
    using remove_path_ok[OF at2 _ dis(1) own P(5) _ z(3) item, of k "larger x m"] bal_ok_hole[of s z1] P(2,6,9)
    by (auto simp: follows_def)
  note T = loweredD[OF z2']
  let ?z = "z1 @ z2'"
  have xs: "x \<in> spine ?z \<longleftrightarrow> x \<in> spine z"
    using T(5,6) mz assms(7) z(1) spine_znodes[of z2'] spine_znodes[of z1] by auto
  have hz: "hole q ?z = hole q z" "znodes ?z = znodes z" using T(2,5) z(1) by simp_all
  have "(if x \<in> spine z2 then zslot (hole q z1) z2' x else zslot q z x) = zslot q ?z x"
  proof (cases "x \<in> spine z")
    case True
    then show ?thesis using xs item z(1) dis(2) spine_znodes[of z1] spine_znodes[of z2] T(5) spine_znodes[of z2'] by auto
  next
    case False
    then show ?thesis using zslot_hole[of x z q] zslot_hole[of x ?z q] xs hz z(1) by auto
  qed
  moreover have "avl_at s' (deref s' q) (plug ?z h)"
    unfolding plug_append by (rule avl_at_replace[OF _ _ _ _ T(7,1)]) (use P(1,3,4) dis(2) in auto)
  moreover have "frame q (znodes z) s s'"
    using T(7) hole_in_spine[of z1 q] spine_znodes[of z1] z(1) frame_weaken[of _ _ "znodes z2" s s' "znodes z" q]
      frame_weaken2[of q "znodes z2" s s' "znodes z"] by (cases "z1 = []") auto
  moreover have "bal_ok s'' (plug ?z h')"
    if h': "Suc (height h') = height h" "bal_ok s'' h'" "\<forall>n \<in> znodes z. bal s'' n = bal s' n"
    for h' and s'' :: "('n, 's, 'x) avl_scheme"
  proof -
    have "bal_ok s'' (plug z2' h') \<and> height (plug z2' h') + of_bool (\<not> hd_stop s z2) = height (plug z2 h)"
      by (rule T(8)) (use h' z(1) in auto)
    moreover have "\<forall>n \<in> znodes z1. bal s'' n = bal s n"
      using h'(3) T(7) dis(2) z(1) by (auto simp: frame_def)
    ultimately show ?thesis
      using bal_ok_outer[of s z1 "plug z2 h" s'' "plug z2' h'"] P(2) z(4) by (cases "z1 = []") auto
  qed
  ultimately show ?thesis
    using rf rp xs hz T(3,4) z(1,2)
    by (intro exI[of _ "hole q z1"] exI[of _ "zslot q z x"] exI[of _ ?z] exI[of _ s']) auto
qed

lemma zslot_at: "avl_at s (deref s q) (plug z h) \<Longrightarrow> x \<in> spine z \<Longrightarrow> deref s (zslot q z x) = Some x"
  by (induction q z x rule: zslot.induct) auto

lemma frame_take_place:
  assumes "item = q \<or> owner item \<noteq> {} \<and> owner item \<subseteq> A" "x \<noteq> m" "x \<notin> owner item" "m \<notin> owner item" "m \<in> A"
  shows "frame q A s (take_place item x m s)"
proof -
  have "deref (take_place item x m s) p = deref s p" if "p \<noteq> q" "owner p \<inter> A = {}" for p
  proof -
    have "m \<notin> owner p" "item \<noteq> p" using assms(1,5) that by auto
    then show ?thesis using take_place_deref[OF assms(2-4), of p s] by simp
  qed
  then show ?thesis using assms(5) by (auto simp: frame_def)
qed

lemma filter_neq: "x \<notin> set xs \<Longrightarrow> filter (\<lambda>n. n \<noteq> x) xs = xs"
  by (induction xs) auto

lemma length_plug: "length z + height h \<le> height (plug z h)"
  by (induction z h rule: plug.induct) auto

lemma remove_ok:
  fixes s :: "('n, 's, 'x) avl_scheme"
  assumes t: "avl_at s (deref s q) t" "bal_ok s t" "distinct_tree t" "ordered larger t"
    and x: "x \<in> set_tree t" "\<not> larger x x" "\<forall>n \<in> set_tree t. equal x n = (n = x)"
    and q: "owner q \<inter> set_tree t = {}" "height t < k"
  shows "\<exists>s' t'. avl_remove larger equal k q x s = Inr (True, s') \<and> avl_at s' (deref s' q) t' \<and>
           bal_ok s' t' \<and> inorder t' = filter (\<lambda>n. n \<noteq> x) (inorder t) \<and> frame q (set_tree t) s s'"
proof -
  obtain z h m where d: "t = plug z h" "ends_at larger x h m" "follows larger x z"
    "m = x \<or> x \<in> spine z \<and> larger x m \<and> (\<exists>R. zr z = x # R)"
    using descend_to[OF x(1) t(4) x(2) t(3)] by blast
  note P = t(1-3)[unfolded d(1)] q(1)[unfolded d(1)]
  obtain c where h: "h = mk (larger x m) c m Leaf" using d(2) by (auto simp: ends_at_def)
  have sub: "insert m (spine z) \<subseteq> set_tree t" using d(1) h spine_znodes[of z] by auto
  have xs: "x \<in> insert m (spine z)" "\<forall>n \<in> insert m (spine z). equal x n = (n = x)" "length z < k"
    using d(4) sub x(3) length_plug[of z h] q(2) d(1) by auto
  obtain p item z' s1 where
    f: "remove_find larger equal k x q None False q s = Inr (p, Some item, larger x m, hole q z)"
    and r: "remove_path larger k x p item (larger x m) s = Inr (zslot q z' x, larger x m, s1)"
    and z': "avl_at s1 (deref s1 q) (plug z' h)" "hole q z' = hole q z" "zl z' = zl z" "zr z' = zr z"
      "znodes z' = znodes z" "x \<in> spine z' \<longleftrightarrow> x \<in> spine z" "frame q (znodes z) s s1"
    and b: "\<And>h' (s'' :: ('n, 's, 'x) avl_scheme). Suc (height h') = height h \<Longrightarrow> bal_ok s'' h' \<Longrightarrow>
       \<forall>n \<in> znodes z. bal s'' n = bal s1 n \<Longrightarrow> bal_ok s'' (plug z' h')"
    using remove_lowered[where larger = larger and equal = equal, OF P d(2,3) xs] by blast
  have dz: "znodes z \<inter> set_tree h = {}" using distinct_plug P(3) by blast
  have mz: "m \<notin> znodes z" "m \<notin> set_tree c" "znodes z \<inter> set_tree c = {}"
    using dz h distinct_plug[of z h] P(3) by auto
  have ino: "inorder (plug z' g) = zl z @ inorder g @ zr z" for g using inorder_plug[of z' g] z'(3,4) by simp
  have dis: "distinct_tree (plug z' h)" "distinct_tree (plug z' c)"
    using P(3) ino inorder_plug[of z h] h by (auto simp: distinct_inorder mk_def split: if_splits)
  let ?tr = "hole q z"
  let ?e = "assign ?tr (lnk s1 m (\<not> larger x m)) s1"
  have trm: "deref s1 ?tr = Some m" "avl_at s1 (lnk s1 m (\<not> larger x m)) c"
    using avl_at_hole[OF z'(1)] h z'(2) by auto
  have own: "owner ?tr \<subseteq> owner q \<union> znodes z" "m \<notin> owner ?tr" "owner ?tr \<inter> set_tree h = {}"
    using hole_in_spine[of z q] spine_znodes[of z] mz dz P(4) h by (cases "z = []"; auto)+
  have fe: "frame ?tr {} s1 ?e" by (auto simp: frame_def deref_assign_iff)
  have "avl_at ?e (deref ?e (hole q z')) c"
    using trm(2) own(3) h z'(2) by (simp add: Int_Un_distrib)
  then have at: "avl_at ?e (deref ?e q) (plug z' c)"
    using avl_at_replace[OF z'(1) dis(1), of "{}" ?e c] fe P(4) z'(2,5) by auto
  have "bal_ok s1 c"
    using frame_bal_ok[OF _ z'(7), of c] bal_ok_hole[of s z h] P(2) mz(3) h by auto
  then have bo: "bal_ok ?e (plug z' c)" using b[of c ?e] h by simp
  have sp: "m \<notin> spine z'" "x \<in> spine z' \<longrightarrow> x \<notin> owner q" "m \<notin> owner q" "x = m \<or> x \<in> spine z'"
    using spine_znodes[of z'] z'(5,6) mz(1) P(4) h d(4) by auto
  have zo: "zslot q z' x = ?tr \<longleftrightarrow> x = m" "zslot q z' x = ?tr \<or> m \<notin> owner (zslot q z' x)"
    "x \<noteq> m \<longrightarrow> x \<notin> owner (zslot q z' x) \<and>
       (zslot q z' x = q \<or> owner (zslot q z' x) \<noteq> {} \<and> owner (zslot q z' x) \<subseteq> spine z')"
    using sp zslot_at[OF z'(1), of x] zslot_owner[of x z' q] zslot_hole[of x z' q] z'(2) trm(1) by auto
  then have zx: "x \<noteq> m \<longrightarrow> x \<notin> owner (zslot q z' x)" by simp
  let ?s' = "if x = m then ?e else take_place (zslot q z' x) x m ?e"
  have run: "avl_remove larger equal k q x s = Inr (True, ?s')"
    using remove_end[OF trm(1) zo(2,1) zx own(2) refl, of "larger x m"] f r trm(1)
    by (simp add: avl_remove_def Let_def)
  have "?tr = q \<or> (\<exists>a f. ?tr = Lnk a f \<and> a \<in> znodes z)"
    using hole_in_spine[of z q] spine_znodes[of z] by (cases "z = []") auto
  then have fr: "frame q (set_tree t) s ?e"
    using z'(7) d(1) by (auto simp: frame_def deref_assign_iff)
  have nt: "inorder t = zl z @ inorder h @ zr z" "distinct (inorder t)"
    using inorder_plug[of z h] d(1) t(3) by (simp_all add: distinct_inorder)
  show ?thesis
  proof (cases "x = m")
    case True
    then have "inorder h = m # inorder c" using h x(2) by (simp add: mk_def)
    then have "inorder (plug z' c) = filter (\<lambda>n. n \<noteq> x) (inorder t)"
      using nt ino[of c] True by (auto simp: filter_neq)
    then show ?thesis using run True at bo fr by auto
  next
    case False
    then obtain R where R: "x \<in> spine z" "larger x m" "zr z = x # R" using d(4) by auto
    have mc: "m \<notin> set_tree (plug z' c)" "owner q \<inter> insert m (set_tree (plug z' c)) = {}"
      using mz z'(5) P(4) h by auto
    have "inorder h = inorder c @ [m]" using h R(2) by (simp add: mk_def)
    then have "inorder (plug (ren x m z') c) = filter (\<lambda>n. n \<noteq> x) (inorder t)"
      using nt R inorder_ren[of z' x R c m] z'(3,4,6) dis(2) False
      by (auto simp: filter_neq)
    moreover have "avl_at ?s' (deref ?s' q) (plug (ren x m z') c)"
      using take_place_tree[OF at dis(2) _ mc] R(1) z'(6) False by simp
    moreover have "bal_ok ?s' (plug (ren x m z') c)"
      using take_place_bal_ok[OF bo dis(2) _ mc(1)] R(1) z'(6) False by simp
    moreover have "frame q (set_tree t) s ?s'"
      using frame_trans[OF fr frame_take_place[of "zslot q z' x" q "set_tree t" x m ?e]] zo False
        spine_znodes[of z'] z'(5) d(1) h by auto
    ultimately show ?thesis using run by blast
  qed
qed

subsection \<open>Height\<close>

lemma bal_ok_size: "bal_ok s t \<Longrightarrow> 2 ^ (height t div 2) \<le> size1 t"
proof (induction t)
  case (Node l a r)
  let ?m = "min (height l) (height r)"
  have h: "height (Node l a r) div 2 \<le> Suc (?m div 2)" using Node.prems by auto
  have "2 ^ (?m div 2) \<le> (2 :: nat) ^ (height l div 2)" "2 ^ (?m div 2) \<le> (2 :: nat) ^ (height r div 2)"
    by (simp_all add: div_le_mono)
  moreover have "2 ^ (height l div 2) \<le> size1 l" "2 ^ (height r div 2) \<le> size1 r" using Node by simp_all
  ultimately have "2 ^ (?m div 2) \<le> size1 l" "2 ^ (?m div 2) \<le> size1 r" by (blast intro: order_trans)+
  then have "2 * 2 ^ (?m div 2) \<le> size1 l + size1 r" by linarith
  moreover have "(2 :: nat) ^ (height (Node l a r) div 2) \<le> 2 ^ Suc (?m div 2)" using h by (rule power_increasing) simp
  ultimately show ?case by simp
qed simp

subsection \<open>Trees ordered by a comparison\<close>

text \<open>
  What the tree relies on of the comparisons of its elements: \<open>larger\<close> is a strict order,
  \<open>equal\<close> (the elements overlap) is reflexive and symmetric, two elements that do not
  overlap are comparable, and an element that does not overlap two others that overlap each
  other is on the same side of both.
\<close>

locale comparison =
  fixes larger equal :: "'n \<Rightarrow> 'n \<Rightarrow> bool"
  assumes irrefl: "\<not> larger x x"
    and trans: "larger x y \<Longrightarrow> larger y z \<Longrightarrow> larger x z"
    and equal_refl: "equal x x"
    and equal_sym: "equal x y \<Longrightarrow> equal y x"
    and total: "\<not> equal x y \<Longrightarrow> larger x y \<or> larger y x"
    and convex: "\<not> equal x m \<Longrightarrow> equal x n \<Longrightarrow> \<not> equal m n \<Longrightarrow> larger n m = larger x m"
begin

definition before :: "'n \<Rightarrow> 'n \<Rightarrow> bool" where
  "before a b \<longleftrightarrow> larger b a \<and> \<not> equal a b"

definition search_tree :: "'n tree \<Rightarrow> bool" where
  "search_tree t \<longleftrightarrow> sorted_wrt before (inorder t)"

lemma asym: "larger x y \<Longrightarrow> \<not> larger y x"
  using irrefl trans by blast

lemma before_asym: "before a b \<Longrightarrow> \<not> before b a"
  using asym by (auto simp: before_def)

lemma search_tree_Node:
  "search_tree (Node l a r) \<longleftrightarrow> search_tree l \<and> search_tree r \<and> (\<forall>y \<in> set_tree l. before y a) \<and>
     (\<forall>y \<in> set_tree r. before a y) \<and> (\<forall>y \<in> set_tree l. \<forall>z \<in> set_tree r. before y z)"
  by (auto simp: search_tree_def sorted_wrt_append)

lemma search_tree_ordered: "search_tree t \<Longrightarrow> ordered larger t"
  by (induction t) (auto simp: search_tree_Node before_def dest: asym)

lemma search_tree_distinct: "search_tree t \<Longrightarrow> distinct_tree t"
proof (induction t)
  case (Node l a r)
  then have "x \<notin> set_tree r" if "x \<in> set_tree l" for x
    using that irrefl[of x] by (auto simp: search_tree_Node before_def)
  then show ?case using Node irrefl by (auto simp: search_tree_Node before_def)
qed simp

lemma search_tree_apart:
  assumes "search_tree t" "a \<in> set_tree t" "b \<in> set_tree t" "a \<noteq> b"
  shows "\<not> equal a b"
  using assms
proof (induction t)
  case (Node l c r)
  then show ?case by (auto simp: search_tree_Node before_def dest: equal_sym)
qed simp

lemma path_meets:
  assumes "search_tree t" "n \<in> set_tree t" "equal x n"
  shows "\<exists>m \<in> set (path larger x t). equal x m"
  using assms
proof (induction t)
  case (Node l a r)
  show ?case
  proof (cases "equal x a")
    case False
    have "n \<noteq> a" using False Node.prems(3) by auto
    then have "\<not> equal a n" using search_tree_apart[OF Node.prems(1), of a n] Node.prems(2) by auto
    then have "larger n a = larger x a" using convex[OF False Node.prems(3)] by blast
    then have "n \<in> set_tree (if larger x a then r else l)"
      using Node.prems(1,2) \<open>n \<noteq> a\<close> asym by (auto simp: search_tree_Node before_def)
    then show ?thesis using Node by (auto simp: search_tree_Node)
  qed auto
qed simp

lemma path_within: "n \<in> set (path larger x t) \<Longrightarrow> n \<in> set_tree t"
  using path_set by fastforce

lemma search_tree_ins:
  assumes "search_tree t" "\<forall>n \<in> set_tree t. \<not> equal x n"
  shows "search_tree (ins larger x t)"
  using assms
proof (induction t)
  case Leaf then show ?case by (simp add: search_tree_def)
next
  case (Node l a r)
  have xa: "\<not> equal x a" "\<not> equal a x" using Node.prems(2) equal_sym by auto
  have ne: "\<not> equal n x" "\<not> equal x n" if "n \<in> set_tree l \<union> set_tree r" for n
    using Node.prems(2) equal_sym that by auto
  show ?case
  proof (cases "larger x a")
    case True
    moreover have "before a x" using True xa by (simp add: before_def)
    moreover have "before n x" if "n \<in> set_tree l" for n
      using that True Node.prems(1) ne trans by (auto simp: search_tree_Node before_def)
    ultimately show ?thesis using Node by (auto simp: search_tree_Node)
  next
    case False
    then have "larger a x" using total xa by blast
    then have "before x a" using xa by (simp add: before_def)
    moreover have "before x n" if "n \<in> set_tree r" for n
      using that \<open>larger a x\<close> Node.prems(1) ne trans by (auto simp: search_tree_Node before_def)
    ultimately show ?thesis using Node False by (auto simp: search_tree_Node)
  qed
qed

text \<open>A tree at a slot that is in order and balanced.\<close>

definition tree_at :: "('n, 's, 'x) avl_scheme \<Rightarrow> ('n, 's) slot \<Rightarrow> 'n tree \<Rightarrow> bool" where
  "tree_at s q t \<longleftrightarrow> avl_at s (deref s q) t \<and> bal_ok s t \<and> search_tree t \<and> owner q \<inter> set_tree t = {}"

lemma insert_fresh:
  assumes "tree_at s q t" "\<forall>n \<in> set_tree t. \<not> equal x n" "x \<notin> owner q"
    and "lnk s x = (\<lambda>_. None)" "bal s x = 2" "height t < k"
  shows "\<exists>s' t'. avl_insert larger equal k q x s = Inr (True, s') \<and> tree_at s' q t' \<and>
           set_tree t' = insert x (set_tree t) \<and> frame q (insert x (set_tree t)) s s'"
proof -
  have t: "avl_at s (deref s q) t" "bal_ok s t" "search_tree t" "owner q \<inter> set_tree t = {}"
    using assms(1) by (simp_all add: tree_at_def)
  have "x \<notin> set_tree t" using assms(2) equal_refl by blast
  moreover have "\<forall>n \<in> set (path larger x t). \<not> equal x n" using assms(2) path_within by blast
  moreover have "owner q \<inter> insert x (set_tree t) = {}" using t(4) assms(3) by auto
  ultimately obtain s' where s': "avl_insert larger equal k q x s = Inr (True, s')"
    "rebuilt larger x q t (path_bal larger s x t) s s'"
    using insert_ok[where larger = larger and equal = equal, OF t(1,2) search_tree_distinct[OF t(3)] _ _ assms(4,5) _ equal_refl assms(6)]
    by blast
  then obtain t' where t': "avl_at s' (deref s' q) t'" "bal_ok s' t'" "inorder t' = inorder (ins larger x t)"
    "frame q (insert x (set_tree t)) s s'" by (auto simp: rebuilt_def)
  have st: "set_tree t' = insert x (set_tree t)" using t'(3) by (metis set_inorder set_ins)
  moreover have "search_tree t'" using search_tree_ins[OF t(3) assms(2)] t'(3) by (simp add: search_tree_def)
  ultimately have "tree_at s' q t'" using t' t(4) assms(3) by (auto simp: tree_at_def)
  then show ?thesis using s'(1) st t'(4) by blast
qed

lemma insert_taken:
  assumes "tree_at s q t" "n \<in> set_tree t" "equal x n" "height t < k"
  shows "avl_insert larger equal k q x s = Inr (False, s)"
proof -
  have t: "avl_at s (deref s q) t" "search_tree t" using assms(1) by (simp_all add: tree_at_def)
  obtain m where "m \<in> set (path larger x t)" "equal x m" using path_meets[OF t(2) assms(2,3)] by blast
  then show ?thesis
    using insert_find_equal[where larger = larger and equal = equal, OF t(1) _ _ assms(4)] by (simp add: avl_insert_def)
qed

lemma remove_member:
  assumes "tree_at s q t" "x \<in> set_tree t" "height t < k"
  shows "\<exists>s' t'. avl_remove larger equal k q x s = Inr (True, s') \<and> tree_at s' q t' \<and>
           set_tree t' = set_tree t - {x} \<and> frame q (set_tree t) s s'"
proof -
  have t: "avl_at s (deref s q) t" "bal_ok s t" "search_tree t" "owner q \<inter> set_tree t = {}"
    using assms(1) by (simp_all add: tree_at_def)
  have "\<forall>n \<in> set_tree t. equal x n = (n = x)"
    using search_tree_apart[OF t(3) assms(2)] equal_refl by blast
  then obtain s' t' where t': "avl_remove larger equal k q x s = Inr (True, s')" "avl_at s' (deref s' q) t'"
    "bal_ok s' t'" "inorder t' = filter (\<lambda>n. n \<noteq> x) (inorder t)" "frame q (set_tree t) s s'"
    using remove_ok[where larger = larger and equal = equal, OF t(1,2) search_tree_distinct[OF t(3)]
        search_tree_ordered[OF t(3)] assms(2) irrefl _ t(4) assms(3)] by blast
  have st: "set_tree t' = set_tree t - {x}" using t'(4) by (simp flip: set_inorder) auto
  moreover have "search_tree t'" using t(3) t'(4) by (simp add: search_tree_def sorted_wrt_filter)
  ultimately have "tree_at s' q t'" using t' t(4) by (auto simp: tree_at_def)
  then show ?thesis using t' st by blast
qed

end

end
