(* ===== verification/Mdb.thy ===== *)
theory Mdb
  imports Avl Ring Bits
begin

text \<open>
  The mapping database of \<open>include/mdb.hpp\<close> and \<open>src/mdb.cpp\<close>, and the spaces of
  \<open>include/space.hpp\<close> that index it. A mapping is a node of two structures: the search tree
  of its space (links, balance, \<open>larger\<close> and \<open>equal\<close>) and the circular list of a
  delegation tree, in which a node is followed by the mappings delegated from it, one level
  deeper. The lock of the database and of the spaces make each operation atomic.
\<close>

record ('n, 's) mdb = "('n, 's) avl" +
  mlinks :: "'n links"
  dpth :: "'n \<Rightarrow> u16"
  prnt :: "'n \<Rightarrow> 'n option"
  mspace :: "'n \<Rightarrow> 's option"
  node_phys :: "'n \<Rightarrow> mword"
  node_base :: "'n \<Rightarrow> mword"
  node_order :: "'n \<Rightarrow> mword"
  node_attr :: "'n \<Rightarrow> mword"
  node_type :: "'n \<Rightarrow> mword"
  node_sub :: "'n \<Rightarrow> mword"

subsection \<open>Nodes\<close>

definition mdb_larger :: "('n, 's, 'x) mdb_scheme \<Rightarrow> 'n \<Rightarrow> 'n \<Rightarrow> bool" where
  "mdb_larger s n x = (node_base s n > node_base s x)"

definition mdb_equal :: "('n, 's, 'x) mdb_scheme \<Rightarrow> 'n \<Rightarrow> 'n \<Rightarrow> bool" where
  "mdb_equal s n x =
     (drop_bit (unat (max (node_order s n) (node_order s x))) (node_base s n XOR node_base s x) = 0)"

definition covers :: "('n, 's, 'x) mdb_scheme \<Rightarrow> 'n \<Rightarrow> mword \<Rightarrow> bool" where
  "covers s m idx = (drop_bit (unat (node_order s m)) (node_base s m XOR idx) = 0)"

definition Mdb_make :: "'n \<Rightarrow> 's option \<Rightarrow> mword \<Rightarrow> mword \<Rightarrow> mword \<Rightarrow> mword \<Rightarrow> mword \<Rightarrow> mword \<Rightarrow> u16 \<Rightarrow>
  ('n, 's, 'x) mdb_scheme \<Rightarrow> ('n, 's, 'x) mdb_scheme" where
  "Mdb_make n sp p b o' a t sub depth s =
     (Avl_init n s)\<lparr>mlinks := set_next n (Some n) (set_prev n (Some n) (mlinks s)),
        dpth := (dpth s)(n := depth), prnt := (prnt s)(n := None), mspace := (mspace s)(n := sp),
        node_phys := (node_phys s)(n := p), node_base := (node_base s)(n := b),
        node_order := (node_order s)(n := o'), node_attr := (node_attr s)(n := a),
        node_type := (node_type s)(n := t), node_sub := (node_sub s)(n := sub)\<rparr>"

definition Mdb_make_root :: "'n \<Rightarrow> 's option \<Rightarrow> mword \<Rightarrow> mword \<Rightarrow> mword \<Rightarrow>
  ('n, 's, 'x) mdb_scheme \<Rightarrow> ('n, 's, 'x) mdb_scheme" where
  "Mdb_make_root n sp p b a s = Mdb_make n sp p b 0 a 0 0 0 s"

fun mdb_lookup :: "nat \<Rightarrow> 'n option \<Rightarrow> mword \<Rightarrow> bool \<Rightarrow> 'n option \<Rightarrow> ('n, 's, 'x) mdb_scheme \<Rightarrow> 'n option result" where
  "mdb_lookup 0 m base nxt n s = Inl Out_of_fuel"
| "mdb_lookup (Suc k) m base nxt n s =
     (case m of
        None \<Rightarrow> Inr n
      | Some m \<Rightarrow>
          (if covers s m base then Inr (Some m)
           else (let d = base > node_base s m
                 in mdb_lookup k (lnk s m d) base nxt (if \<not> d \<and> nxt then Some m else n) s)))"

subsection \<open>The list of a delegation tree\<close>

definition mdb_alive :: "'n \<Rightarrow> ('n, 's, 'x) mdb_scheme \<Rightarrow> bool result" where
  "mdb_alive n s =
     the_node (lprev (mlinks s) n) (\<lambda>p. the_node (lnext (mlinks s) n) (\<lambda>q.
       Inr (lnext (mlinks s) p = Some n \<and> lprev (mlinks s) q = Some n)))"

definition insert_node :: "'n \<Rightarrow> 'n \<Rightarrow> mword \<Rightarrow> ('n, 's, 'x) mdb_scheme \<Rightarrow> (bool \<times> ('n, 's, 'x) mdb_scheme) result" where
  "insert_node this p a s =
     (let s = s\<lparr>node_attr := (node_attr s)(this := node_attr s p AND a)\<rparr>
      in if node_attr s this = 0 then Inr (False, s)
         else the_node (lnext (mlinks s) p) (\<lambda>q.
           let l = set_next this (Some q) (set_prev this (Some p) (mlinks s));
               l = set_prev q (Some this) l;
               l = set_next p (Some this) l
           in Inr (True, s\<lparr>prnt := (prnt s)(this := Some p), mlinks := l\<rparr>)))"

definition demote_node :: "'n \<Rightarrow> mword \<Rightarrow> ('n, 's, 'x) mdb_scheme \<Rightarrow> ('n, 's, 'x) mdb_scheme" where
  "demote_node this a s = s\<lparr>node_attr := (node_attr s)(this := node_attr s this AND NOT a)\<rparr>"

definition remove_node :: "'n \<Rightarrow> bool \<Rightarrow> ('n, 's, 'x) mdb_scheme \<Rightarrow> (bool \<times> ('n, 's, 'x) mdb_scheme) result" where
  "remove_node this leaf s =
     (if node_attr s this \<noteq> 0 then Inr (False, s)
      else bind_result (mdb_alive this s) (\<lambda>alive.
        if \<not> alive then Inr (False, s)
        else the_node (lnext (mlinks s) this) (\<lambda>q. the_node (lprev (mlinks s) this) (\<lambda>p.
          if leaf \<and> dpth s q > dpth s this then Inr (False, s)
          else (let s = (if \<not> leaf then s\<lparr>prnt := (prnt s)(q := prnt s this)\<rparr> else s);
                    l = set_prev q (Some p) (mlinks s);
                    l = set_next p (Some q) l
                in Inr (True, s\<lparr>mlinks := l\<rparr>))))))"

subsection \<open>Spaces\<close>

definition space_tree_lookup :: "nat \<Rightarrow> 's \<Rightarrow> mword \<Rightarrow> bool \<Rightarrow> ('n, 's, 'x) mdb_scheme \<Rightarrow> 'n option result" where
  "space_tree_lookup k sp idx nxt s = mdb_lookup k (root s sp) idx nxt None s"

definition space_tree_insert :: "nat \<Rightarrow> 'n \<Rightarrow> ('n, 's, 'x) mdb_scheme \<Rightarrow> (bool \<times> ('n, 's, 'x) mdb_scheme) result" where
  "space_tree_insert k node s =
     the_node (mspace s node) (\<lambda>sp. avl_insert (mdb_larger s) (mdb_equal s) k (Root sp) node s)"

definition space_tree_remove :: "nat \<Rightarrow> 'n \<Rightarrow> ('n, 's, 'x) mdb_scheme \<Rightarrow> (bool \<times> ('n, 's, 'x) mdb_scheme) result" where
  "space_tree_remove k node s =
     the_node (mspace s node) (\<lambda>sp. avl_remove (mdb_larger s) (mdb_equal s) k (Root sp) node s)"

text \<open>
  \<open>Space::addreg\<close> cuts a range into blocks of the largest order that alignment and length
  allow and inserts a node for each; \<open>alloc\<close> is the slab cache the nodes come from.
\<close>

fun addreg :: "('q \<Rightarrow> ('n \<times> 'q) result) \<Rightarrow> nat \<Rightarrow> nat \<Rightarrow> 's \<Rightarrow> mword \<Rightarrow> mword \<Rightarrow> mword \<Rightarrow> mword \<Rightarrow>
  'q \<Rightarrow> ('n, 's, 'x) mdb_scheme \<Rightarrow> ('q \<times> ('n, 's, 'x) mdb_scheme) result" where
  "addreg alloc k 0 sp addr sz attr ty c s = Inl Out_of_fuel"
| "addreg alloc k (Suc r) sp addr sz attr ty c s =
     (if sz = 0 then Inr (c, s)
      else bind_result (alloc c) (\<lambda>(n, c).
        let o' = max_order addr sz;
            s = Mdb_make n None addr addr o' attr ty 0 0 s
        in bind_result (avl_insert (mdb_larger s) (mdb_equal s) k (Root sp) n s) (\<lambda>(b, s).
             addreg alloc k r sp (addr + push_bit (unat o') 1) (sz - push_bit (unat o') 1) attr ty c s)))"

definition delreg :: "('q \<Rightarrow> ('n \<times> 'q) result) \<Rightarrow> ('n \<Rightarrow> 'q \<Rightarrow> 'q result) \<Rightarrow> nat \<Rightarrow> nat \<Rightarrow> 's \<Rightarrow> mword \<Rightarrow>
  'q \<Rightarrow> ('n, 's, 'x) mdb_scheme \<Rightarrow> ('q \<times> ('n, 's, 'x) mdb_scheme) result" where
  "delreg alloc dealloc k r sp addr c s =
     (let addr = drop_bit 12 addr
      in bind_result (mdb_lookup k (root s sp) addr False None s) (\<lambda>m.
        case m of
          None \<Rightarrow> Inr (c, s)
        | Some node \<Rightarrow>
            bind_result (avl_remove (mdb_larger s) (mdb_equal s) k (Root sp) node s) (\<lambda>(b, s).
              let nx = addr + 1; base = node_base s node; last = base + push_bit (unat (node_order s node)) 1
              in bind_result (addreg alloc k r sp base (addr - base) (node_attr s node) (node_type s node) c s) (\<lambda>(c, s).
                   bind_result (addreg alloc k r sp nx (last - nx) (node_attr s node) (node_type s node) c s) (\<lambda>(c, s).
                     bind_result (dealloc node c) (\<lambda>c. Inr (c, s)))))))"

subsection \<open>The order of the nodes of a space\<close>

text \<open>Two bases agree above bit \<open>k\<close> exactly if they lie in the same block of \<open>2 ^ k\<close> addresses.\<close>

lemma same_block:
  fixes a b :: mword
  shows "drop_bit k (a XOR b) = 0 \<longleftrightarrow> unat a div 2 ^ k = unat b div 2 ^ k"
proof -
  have "drop_bit k (a XOR b) = drop_bit k a XOR drop_bit k b" by (simp add: drop_bit_xor)
  also have "\<dots> = 0 \<longleftrightarrow> drop_bit k a = drop_bit k b" by (simp add: bit_eq_iff bit_xor_iff)
  also have "\<dots> \<longleftrightarrow> unat (drop_bit k a) = unat (drop_bit k b)" by (rule word_unat_eq_iff)
  also have "\<dots> \<longleftrightarrow> unat a div 2 ^ k = unat b div 2 ^ k" by (simp only: unat_drop_bit_eq) (simp only: drop_bit_eq_div)
  finally show ?thesis .
qed

lemma unat_max: "unat (max a b) = max (unat a) (unat (b :: mword))"
  by (simp add: max_def word_le_nat_alt)

lemma block_convex:
  fixes a b c :: nat
  assumes "a div 2 ^ j = c div 2 ^ j" "a \<le> b" "b \<le> c"
  shows "a div 2 ^ j = b div 2 ^ j"
  using assms(1) div_le_mono[OF assms(2), of "2 ^ j"] div_le_mono[OF assms(3), of "2 ^ j"] by simp

lemma block_mono:
  fixes a b :: nat
  assumes "a div 2 ^ j = b div 2 ^ j" "j \<le> k"
  shows "a div 2 ^ k = b div 2 ^ k"
proof -
  have "x div 2 ^ k = x div 2 ^ j div 2 ^ (k - j)" for x :: nat
    using assms(2) by (simp flip: div_mult2_eq power_add)
  then show ?thesis using assms(1) by simp
qed

interpretation mdb_order: comparison "mdb_larger s" "mdb_equal s" for s
proof
  let ?o = "\<lambda>n. unat (node_order s n)" and ?b = "\<lambda>n. unat (node_base s n)"
  have eq: "mdb_equal s x y \<longleftrightarrow> ?b x div 2 ^ max (?o x) (?o y) = ?b y div 2 ^ max (?o x) (?o y)" for x y
    by (simp only: mdb_equal_def same_block unat_max)
  have lg: "mdb_larger s x y \<longleftrightarrow> ?b x > ?b y" for x y by (simp add: mdb_larger_def word_less_nat_alt)
  show "\<not> mdb_larger s x x" for x by (simp add: lg)
  show "mdb_larger s x y \<Longrightarrow> mdb_larger s y z \<Longrightarrow> mdb_larger s x z" for x y z by (simp add: lg)
  show "mdb_equal s x x" for x by (simp add: eq)
  show "mdb_equal s x y \<Longrightarrow> mdb_equal s y x" for x y by (simp add: eq max.commute)
  show "\<not> mdb_equal s x y \<Longrightarrow> mdb_larger s x y \<or> mdb_larger s y x" for x y
    by (metis eq lg linorder_neqE_nat)
  show "mdb_larger s n m = mdb_larger s x m"
    if "\<not> mdb_equal s x m" "mdb_equal s x n" "\<not> mdb_equal s m n" for x m n
  proof (rule ccontr)
    assume ne: "mdb_larger s n m \<noteq> mdb_larger s x m"
    let ?j = "max (?o x) (?o n)"
    have j: "?b x div 2 ^ ?j = ?b n div 2 ^ ?j" using that(2) by (simp add: eq)
    have "?b x \<le> ?b m \<and> ?b m \<le> ?b n \<or> ?b n \<le> ?b m \<and> ?b m \<le> ?b x" using ne unfolding lg by linarith
    then have e: "?b x div 2 ^ ?j = ?b m div 2 ^ ?j \<and> ?b n div 2 ^ ?j = ?b m div 2 ^ ?j"
      using block_convex[OF j] block_convex[OF j[symmetric]] j by metis
    then have "?b x div 2 ^ max (?o x) (?o m) = ?b m div 2 ^ max (?o x) (?o m) \<or>
        ?b m div 2 ^ max (?o m) (?o n) = ?b n div 2 ^ max (?o m) (?o n)"
    proof (cases "?o n \<le> ?o x")
      case True
      show ?thesis by (rule disjI1, rule block_mono[OF conjunct1[OF e]]) (use True in simp)
    next
      case False
      show ?thesis by (rule disjI2, rule block_mono[OF conjunct2[OF e, symmetric]]) (use False in simp)
    qed
    then show False using that unfolding eq by blast
  qed
qed

subsection \<open>The tree of a space\<close>

text \<open>
  The nodes of a space hang in a balanced tree below its root, ordered by base and without
  overlap.
\<close>

definition space_tree :: "('n, 's, 'x) mdb_scheme \<Rightarrow> 's \<Rightarrow> 'n tree \<Rightarrow> bool" where
  "space_tree s sp t \<longleftrightarrow> avl_at s (root s sp) t \<and> bal_ok s t \<and>
     sorted_wrt (\<lambda>a b. node_base s a < node_base s b \<and> \<not> mdb_equal s a b) (inorder t)"

lemma space_tree_at: "space_tree s sp t = comparison.tree_at (mdb_larger s) (mdb_equal s) s (Root sp) t"
  unfolding mdb_order.tree_at_def mdb_order.search_tree_def space_tree_def mdb_order.before_def[abs_def]
  by (simp add: mdb_larger_def)

text \<open>The tree operations leave the fields of the mappings alone.\<close>

lemma more_fields:
  assumes "avl.more s' = avl.more (s :: ('n, 's, 'x) mdb_scheme)"
  shows "node_base s' = node_base s" "node_order s' = node_order s" "node_attr s' = node_attr s"
    "node_phys s' = node_phys s" "node_type s' = node_type s" "node_sub s' = node_sub s"
    "mlinks s' = mlinks s" "dpth s' = dpth s" "prnt s' = prnt s" "mspace s' = mspace s"
    "mdb.more s' = mdb.more s" "mdb_larger s' = mdb_larger s" "mdb_equal s' = mdb_equal s"
  using assms by (cases s; cases s'; auto simp: mdb_larger_def[abs_def] mdb_equal_def[abs_def])+

lemma frame_more: "frame q A s s' \<Longrightarrow> avl.more s' = avl.more s"
  by (simp add: frame_def)

lemma space_tree_height:
  assumes "space_tree s sp t" "size t < 2 ^ j" shows "height t < 2 * j + 2"
proof -
  have "2 ^ (height t div 2) \<le> size1 t" using assms(1) bal_ok_size by (auto simp: space_tree_def)
  also have "\<dots> \<le> 2 ^ j" using assms(2) by (simp add: size1_size)
  finally have "height t div 2 \<le> j" using power_le_imp_le_exp[of 2] by simp
  then show ?thesis by linarith
qed

lemma covers_block: "covers s m idx \<longleftrightarrow> unat (node_base s m) div 2 ^ unat (node_order s m) = unat idx div 2 ^ unat (node_order s m)"
  by (simp only: covers_def same_block)

lemma equal_block: "mdb_equal s x y \<longleftrightarrow>
   unat (node_base s x) div 2 ^ max (unat (node_order s x)) (unat (node_order s y)) =
   unat (node_base s y) div 2 ^ max (unat (node_order s x)) (unat (node_order s y))"
  by (simp only: mdb_equal_def same_block unat_max)

lemma covers_apart:
  assumes "covers s m idx" "node_base s a \<noteq> node_base s m"
    and "covers s a idx \<or> node_base s m < node_base s a \<and> node_base s a < idx \<or>
         idx < node_base s a \<and> node_base s a < node_base s m"
  shows "mdb_equal s m a" "mdb_equal s a m"
proof -
  let ?k = "max (unat (node_order s m)) (unat (node_order s a))"
  let ?j = "unat (node_order s m)"
  have c: "unat (node_base s m) div 2 ^ ?j = unat idx div 2 ^ ?j" using assms(1) by (simp only: covers_block)
  consider "covers s a idx" | "unat (node_base s m) < unat (node_base s a)" "unat (node_base s a) < unat idx"
    | "unat idx < unat (node_base s a)" "unat (node_base s a) < unat (node_base s m)"
    using assms(3) by (auto simp: word_less_nat_alt)
  then show "mdb_equal s m a"
  proof cases
    case 1
    then have "unat (node_base s a) div 2 ^ ?k = unat idx div 2 ^ ?k"
      using block_mono[of "unat (node_base s a)" "unat (node_order s a)" "unat idx" ?k] by (simp add: covers_block)
    moreover have "unat (node_base s m) div 2 ^ ?k = unat idx div 2 ^ ?k" using block_mono[OF c, of ?k] by simp
    ultimately show ?thesis by (simp only: equal_block)
  next
    case 2
    then have "unat (node_base s m) div 2 ^ ?j = unat (node_base s a) div 2 ^ ?j" by (intro block_convex[OF c]) simp_all
    then show ?thesis using block_mono[of "unat (node_base s m)" ?j _ ?k] by (simp only: equal_block)
  next
    case 3
    then have "unat idx div 2 ^ ?j = unat (node_base s a) div 2 ^ ?j" by (intro block_convex[OF c[symmetric]]) simp_all
    then show ?thesis using block_mono[of "unat (node_base s m)" ?j _ ?k] c by (simp only: equal_block)
  qed
  then show "mdb_equal s a m" by (rule mdb_order.equal_sym)
qed

lemma find_append: "find P (xs @ ys) = (case find P xs of None \<Rightarrow> find P ys | Some x \<Rightarrow> Some x)"
  by (induction xs) auto

lemma find_none: "(\<And>x. x \<in> set xs \<Longrightarrow> \<not> P x) \<Longrightarrow> find P xs = None"
  by (simp add: find_None_iff)

lemma lookup_ok:
  assumes "avl_at s q t" "height t < k"
    and "sorted_wrt (\<lambda>a b. node_base s a < node_base s b \<and> \<not> mdb_equal s a b) (inorder t)"
  shows "mdb_lookup k q idx nxt n s = Inr
    (case find (\<lambda>m. covers s m idx) (inorder t) of
       Some m \<Rightarrow> Some m
     | None \<Rightarrow> (if nxt then (case find (\<lambda>m. idx < node_base s m) (inorder t) of Some m \<Rightarrow> Some m | None \<Rightarrow> n) else n))"
  using assms
proof (induction t arbitrary: k q n)
  case Leaf then show ?case by (cases k) auto
next
  case (Node l a r)
  obtain k' where k: "k = Suc k'" "height l < k'" "height r < k'" using Node.prems(2) by (cases k) auto
  have q: "q = Some a" "avl_at s (lnk s a False) l" "avl_at s (lnk s a True) r" using Node.prems(1) by auto
  have so: "sorted_wrt (\<lambda>a b. node_base s a < node_base s b \<and> \<not> mdb_equal s a b) (inorder l)"
    "sorted_wrt (\<lambda>a b. node_base s a < node_base s b \<and> \<not> mdb_equal s a b) (inorder r)"
    and lt: "\<And>m. m \<in> set_tree l \<Longrightarrow> node_base s m < node_base s a \<and> \<not> mdb_equal s m a"
      "\<And>m. m \<in> set_tree r \<Longrightarrow> node_base s a < node_base s m \<and> \<not> mdb_equal s a m"
    using Node.prems(3) by (auto simp: sorted_wrt_append)
  consider (here) "covers s a idx" | (right) "\<not> covers s a idx" "node_base s a < idx"
    | (left) "\<not> covers s a idx" "idx < node_base s a"
    by (metis covers_block linorder_cases)
  then show ?case
  proof cases
    case here
    have "find (\<lambda>m. covers s m idx) (inorder l) = None"
      using covers_apart(1) here lt(1) by (intro find_none) fastforce
    then show ?thesis using here q k(1) by (simp add: find_append)
  next
    case right
    have "find (\<lambda>m. covers s m idx) (inorder l) = None"
      using covers_apart(1)[of s _ idx a] right lt(1) by (intro find_none) fastforce
    moreover have "find (\<lambda>m. idx < node_base s m) (inorder l) = None"
      using right(2) lt(1) by (intro find_none) (auto dest: order.strict_trans less_asym)
    ultimately show ?thesis
      using right q k Node.IH(2)[OF q(3) k(3) so(2)] less_not_sym[OF right(2)]
      by (auto simp: find_append Let_def split: option.splits)
  next
    case left
    have "find (\<lambda>m. covers s m idx) (inorder r) = None"
      using covers_apart(2)[of s _ idx a] left lt(2) by (intro find_none) fastforce
    then show ?thesis
      using left q k Node.IH(1)[OF q(2) k(2) so(1)] less_not_sym[OF left(2)]
      by (auto simp: find_append Let_def split: option.splits)
  qed
qed

text \<open>C20: space_lookup_finds. A search in a space returns the mapping that covers the index;
  when there is none it returns, if asked to, the mapping with the least base above the index.
  With fewer than \<open>2 ^ j\<close> mappings it ends after at most \<open>2 * j + 2\<close> rounds.\<close>
theorem space_lookup_finds:
  assumes "space_tree s sp t" "size t < 2 ^ j"
  shows "space_tree_lookup (2 * j + 2) sp idx nxt s = Inr
    (case find (\<lambda>m. covers s m idx) (inorder t) of
       Some m \<Rightarrow> Some m
     | None \<Rightarrow> if nxt then find (\<lambda>m. idx < node_base s m) (inorder t) else None)"
  using lookup_ok[of s "root s sp" t "2 * j + 2" idx nxt None] assms space_tree_height[OF assms]
  by (auto simp: space_tree_lookup_def space_tree_def split: option.splits)

lemma space_insert_fresh:
  assumes "space_tree s sp t" "mspace s n = Some sp" "lnk s n = (\<lambda>_. None)" "bal s n = 2" "height t < k"
    and "\<forall>m \<in> set_tree t. \<not> mdb_equal s n m"
  shows "\<exists>s' t'. space_tree_insert k n s = Inr (True, s') \<and> space_tree s' sp t' \<and>
           set_tree t' = insert n (set_tree t) \<and> frame (Root sp) (insert n (set_tree t)) s s'"
proof -
  obtain s' t' where s': "avl_insert (mdb_larger s) (mdb_equal s) k (Root sp) n s = Inr (True, s')"
    "comparison.tree_at (mdb_larger s) (mdb_equal s) s' (Root sp) t'" "set_tree t' = insert n (set_tree t)"
    "frame (Root sp) (insert n (set_tree t)) s s'"
    using mdb_order.insert_fresh[OF assms(1)[unfolded space_tree_at] assms(6) _ assms(3-5)] by auto
  then show ?thesis
    using assms(2) more_fields[OF frame_more[OF s'(4)]] by (auto simp: space_tree_insert_def space_tree_at)
qed

text \<open>C18: space_insert_sound. Inserting a new mapping into a space succeeds exactly if no
  mapping there overlaps it. Then the tree of the space holds the new mapping besides the old
  ones, in order, without overlap and balanced, and no field of a mapping and no other tree has
  changed; otherwise nothing changes.\<close>
theorem space_insert_sound:
  assumes "space_tree s sp t" "mspace s n = Some sp" "lnk s n = (\<lambda>_. None)" "bal s n = 2" "height t < k"
  shows "if \<exists>m. m \<in> set_tree t \<and> mdb_equal s n m then space_tree_insert k n s = Inr (False, s)
         else \<exists>s' t'. space_tree_insert k n s = Inr (True, s') \<and> space_tree s' sp t' \<and>
           set_tree t' = insert n (set_tree t) \<and> frame (Root sp) (insert n (set_tree t)) s s'"
proof (cases "\<exists>m. m \<in> set_tree t \<and> mdb_equal s n m")
  case True
  then obtain m where m: "m \<in> set_tree t" "mdb_equal s n m" by blast
  show ?thesis
    using mdb_order.insert_taken[OF assms(1)[unfolded space_tree_at] m assms(5)] True assms(2)
    by (simp add: space_tree_insert_def)
qed (use space_insert_fresh[OF assms] in auto)

lemma space_remove_ok:
  assumes "space_tree s sp t" "mspace s n = Some sp" "n \<in> set_tree t" "height t < k"
  shows "\<exists>s' t'. space_tree_remove k n s = Inr (True, s') \<and> space_tree s' sp t' \<and>
           set_tree t' = set_tree t - {n} \<and> frame (Root sp) (set_tree t) s s'"
proof -
  obtain s' t' where s': "avl_remove (mdb_larger s) (mdb_equal s) k (Root sp) n s = Inr (True, s')"
    "comparison.tree_at (mdb_larger s) (mdb_equal s) s' (Root sp) t'" "set_tree t' = set_tree t - {n}"
    "frame (Root sp) (set_tree t) s s'"
    using mdb_order.remove_member[OF assms(1)[unfolded space_tree_at] assms(3,4)] by auto
  then show ?thesis
    using assms(2) more_fields[OF frame_more[OF s'(4)]] by (auto simp: space_tree_remove_def space_tree_at)
qed

text \<open>C19: space_remove_sound. Removing a mapping from its space takes exactly this mapping out
  of the tree and leaves it in order and balanced.\<close>
theorem space_remove_sound:
  assumes "space_tree s sp t" "mspace s n = Some sp" "n \<in> set_tree t" "height t < k"
  shows "\<exists>s' t'. space_tree_remove k n s = Inr (True, s') \<and> space_tree s' sp t' \<and>
           set_tree t' = set_tree t - {n} \<and> frame (Root sp) (set_tree t) s s'"
  using space_remove_ok[OF assms] .

subsection \<open>Delegation trees\<close>

text \<open>
  The list of a delegation tree: the mapping a node was delegated from is the nearest one
  before it that is less deep, and one level less deep. \<open>family s ra ys\<close> says so of the
  nodes \<open>ys\<close>, with the nodes \<open>ra\<close> before them in reverse order.
\<close>

definition parent_ok :: "('n, 's, 'x) mdb_scheme \<Rightarrow> 'n list \<Rightarrow> 'n \<Rightarrow> bool" where
  "parent_ok s ra y = (case find (\<lambda>z. dpth s z < dpth s y) ra of
     None \<Rightarrow> ra = [] \<and> prnt s y = None
   | Some p \<Rightarrow> prnt s y = Some p \<and> unat (dpth s y) = Suc (unat (dpth s p)))"

fun family :: "('n, 's, 'x) mdb_scheme \<Rightarrow> 'n list \<Rightarrow> 'n list \<Rightarrow> bool" where
  "family s ra [] = True"
| "family s ra (y # ys) = (parent_ok s ra y \<and> family s (y # ra) ys)"

definition delegation :: "('n, 's, 'x) mdb_scheme \<Rightarrow> 'n list \<Rightarrow> bool" where
  "delegation s xs \<longleftrightarrow> ring (mlinks s) xs \<and> family s [] xs"

definition below :: "('n, 's, 'x) mdb_scheme \<Rightarrow> 'n \<Rightarrow> 'n list \<Rightarrow> 'n list" where
  "below s x ys = takeWhile (\<lambda>y. dpth s x < dpth s y) ys"

inductive derived :: "('n, 's, 'x) mdb_scheme \<Rightarrow> 'n \<Rightarrow> 'n \<Rightarrow> bool" for s x where
  derived_one: "prnt s y = Some x \<Longrightarrow> derived s x y"
| derived_more: "derived s x y \<Longrightarrow> prnt s z = Some y \<Longrightarrow> derived s x z"

lemma family_append: "family s ra (xs @ ys) \<longleftrightarrow> family s ra xs \<and> family s (rev xs @ ra) ys"
  by (induction xs arbitrary: ra) auto

lemma find_Some_in: "find P xs = Some p \<Longrightarrow> p \<in> set xs \<and> P p"
  by (induction xs) (auto split: if_splits)

lemma family_cong:
  assumes "\<And>n. n \<in> set ra \<union> set xs \<Longrightarrow> dpth s' n = dpth s n" "\<And>n. n \<in> set xs \<Longrightarrow> prnt s' n = prnt s n"
  shows "family s' ra xs = family s ra xs"
  using assms
proof (induction xs arbitrary: ra)
  case (Cons y ys)
  have f: "find (\<lambda>z. dpth s' z < dpth s' y) ra = find (\<lambda>z. dpth s z < dpth s y) ra"
    using Cons.prems(1) by (intro find_cong) auto
  have "parent_ok s' ra y = parent_ok s ra y"
    unfolding parent_ok_def f using Cons.prems by (auto split: option.splits dest!: find_Some_in)
  moreover have "family s' (y # ra) ys = family s (y # ra) ys" by (rule Cons.IH) (use Cons.prems in auto)
  ultimately show ?case by simp
qed simp

text \<open>The nodes of the run that follows a node, as long as it is deeper, are those derived from it.\<close>

lemma find_skip: "(\<And>c. c \<in> set cs \<Longrightarrow> \<not> P c) \<Longrightarrow> find P (cs @ xs) = find P xs"
  by (induction cs) auto

lemma parent_in:
  assumes "parent_ok s ra y" "prnt s y = Some p"
  shows "p \<in> set ra" "find (\<lambda>z. dpth s z < dpth s y) ra = Some p" "dpth s p < dpth s y"
  using assms by (auto simp: parent_ok_def split: option.splits dest: find_Some_in)

lemma parent_skip:
  assumes "parent_ok s (ds @ cs @ x # as) y" "prnt s y = Some p" "distinct (ds @ cs @ x # as)"
    and "\<forall>c \<in> set cs. dpth s x < dpth s c" "(\<forall>d \<in> set ds. \<not> dpth s d < dpth s y) \<longrightarrow> dpth s y \<le> dpth s x"
  shows "p \<notin> insert x (set cs)"
proof (cases "\<forall>d \<in> set ds. \<not> dpth s d < dpth s y")
  case True
  then have le: "dpth s y \<le> dpth s x" using assms(5) by blast
  have "p \<in> set ((ds @ cs @ [x]) @ as)" "dpth s p < dpth s y" using parent_in[OF assms(1,2)] by auto
  then show ?thesis using le assms(4) by (auto simp: not_less[symmetric] dest: order.strict_trans1 order.strict_trans less_not_sym)
next
  case False
  then have "find (\<lambda>z. dpth s z < dpth s y) ds \<noteq> None" by (auto simp: find_None_iff)
  then have "find (\<lambda>z. dpth s z < dpth s y) ds = Some p"
    using parent_in(2)[OF assms(1,2)] by (auto simp: find_append split: option.splits)
  then show ?thesis using assms(3) by (auto dest: find_Some_in)
qed

lemma after_run:
  assumes "family s (ds @ cs @ x # as) ys" "distinct (rev ys @ ds @ cs @ x # as)"
    and "ds \<noteq> []" "dpth s (last ds) \<le> dpth s x" "\<forall>c \<in> set cs. dpth s x < dpth s c"
    and "y \<in> set ys" "prnt s y = Some p"
  shows "p \<notin> insert x (set cs)"
  using assms
proof (induction ys arbitrary: ds)
  case (Cons z ys)
  show ?case
  proof (cases "y = z")
    case True
    have "(\<forall>d \<in> set ds. \<not> dpth s d < dpth s y) \<longrightarrow> dpth s y \<le> dpth s x"
      using Cons.prems(3,4) last_in_set[of ds] by (auto simp: not_less intro: order_trans)
    then show ?thesis using parent_skip[of s ds cs x as y p] Cons.prems True by auto
  next
    case False
    then show ?thesis using Cons.IH[of "z # ds"] Cons.prems by auto
  qed
qed simp

lemma in_run:
  assumes "family s (cs @ x # as) ys" "distinct (rev ys @ cs @ x # as)" "\<forall>c \<in> set cs. dpth s x < dpth s c"
    and "y \<in> set ys" "prnt s y = Some p" "p \<in> insert x (set cs \<union> set (below s x ys))"
  shows "y \<in> set (below s x ys)"
  using assms
proof (induction ys arbitrary: cs)
  case (Cons z ys)
  show ?case
  proof (cases "dpth s x < dpth s z")
    case True
    then have b: "below s x (z # ys) = z # below s x ys" by (simp add: below_def)
    show ?thesis
    proof (cases "y = z")
      case False
      then have "y \<in> set (below s x ys)" using Cons.IH[of "z # cs"] Cons.prems True b by auto
      then show ?thesis by (simp add: b)
    qed (simp add: b)
  next
    case False
    then have p: "p \<in> insert x (set cs)" using Cons.prems(6) by (simp add: below_def)
    show ?thesis
    proof (cases "y = z")
      case True
      then show ?thesis using parent_skip[of s "[]" cs x as y p] Cons.prems p False by auto
    next
      case ne: False
      then show ?thesis using after_run[of s "[z]" cs x as ys y p] Cons.prems p False by auto
    qed
  qed
qed simp

lemma below_derived_aux:
  assumes "family s (cs @ x # as) ys" "\<forall>c \<in> set cs. derived s x c" "y \<in> set (below s x ys)"
  shows "derived s x y"
  using assms
proof (induction ys arbitrary: cs)
  case Nil then show ?case by (simp add: below_def)
next
  case (Cons z ys)
  have z: "dpth s x < dpth s z" using Cons.prems(3) by (cases "dpth s x < dpth s z") (simp_all add: below_def)
  obtain p where p: "prnt s z = Some p" "find (\<lambda>v. dpth s v < dpth s z) (cs @ x # as) = Some p"
    using Cons.prems(1) by (auto simp: parent_ok_def split: option.splits)
  then have "p \<in> insert x (set cs)" using z by (auto simp: find_append split: option.splits if_splits dest: find_Some_in)
  then have dz: "derived s x z"
    using Cons.prems(2) p(1) derived_one[of s z x] derived_more[OF _ p(1), of x] by auto
  have "derived s x y" if "y \<in> set (below s x ys)"
    using Cons.IH[of "z # cs"] Cons.prems(1,2) dz that by simp
  then show ?case using Cons.prems(3) z dz by (auto simp: below_def)
qed

lemma family_parents: "family s ra ys \<Longrightarrow> y \<in> set ys \<Longrightarrow> prnt s y = Some p \<Longrightarrow> p \<in> set ra \<union> set ys"
proof (induction ys arbitrary: ra)
  case (Cons z ys)
  then show ?case using Cons.IH[of "z # ra"] parent_in(1)[of s ra z p] by auto
qed simp

lemma below_iff_derived:
  assumes "delegation s (as @ x # bs)"
  shows "y \<in> set (below s x bs) \<longleftrightarrow> y \<in> set (as @ x # bs) \<and> derived s x y"
proof
  have d: "distinct (as @ x # bs)" using assms ring_distinct[of "mlinks s" "as @ x # bs"] by (simp add: delegation_def)
  have f: "family s [] as" "parent_ok s (rev as) x" "family s (x # rev as) bs"
    using assms by (simp_all add: delegation_def family_append)
  show "y \<in> set (as @ x # bs) \<and> derived s x y" if "y \<in> set (below s x bs)"
    using below_derived_aux[of s "[]" x "rev as" bs y] f(3) that set_takeWhileD[of y _ bs] by (auto simp: below_def)
  assume "y \<in> set (as @ x # bs) \<and> derived s x y"
  then have "derived s x y" "y \<in> set (as @ x # bs)" by auto
  then show "y \<in> set (below s x bs)"
  proof (induction rule: derived.induct)
    case (derived_one y)
    have "y \<in> set bs" using derived_one f(1,2) d family_parents[OF f(1)] parent_in(1)[OF f(2)] by fastforce
    then show ?case using in_run[of s "[]" x "rev as" bs y x] f(3) d derived_one(1) by auto
  next
    case (derived_more y z)
    have "y \<in> set (as @ x # bs)"
      using derived_more.hyps(2) derived_more.prems family_parents[of s "[]" "as @ x # bs" z y] assms
      by (auto simp: delegation_def)
    then have y: "y \<in> set (below s x bs)" using derived_more.IH by blast
    then have "y \<in> set bs" using set_takeWhileD[of y _ bs] by (auto simp: below_def)
    then have "z \<in> set bs"
      using derived_more.prems derived_more.hyps(2) f(1,2) d family_parents[OF f(1)] parent_in(1)[OF f(2)] by fastforce
    then show ?case using in_run[of s "[]" x "rev as" bs z y] f(3) d derived_more.hyps(2) y by auto
  qed
qed

subsection \<open>Operations on delegation trees\<close>

lemma ring_insert_after:
  assumes r: "ring l (as @ p # bs)" and t: "t \<notin> set (as @ p # bs)" and q: "lnext l p = Some q"
    and n: "lnext l' = (lnext l)(t := Some q, p := Some t)"
    and v: "lprev l' = (lprev l)(t := Some p, q := Some t)"
  shows "ring l' (as @ p # t # bs)"
proof -
  have r1: "ring l (bs @ as @ [p])" using ring_rotate[of l "as @ [p]" bs] r by simp
  have r2: "ring l (p # bs @ as)" using ring_rotate[of l as "p # bs"] r by simp
  have qh: "q = hd ((bs @ as) @ [p])" using ring_next_prev(1)[OF r2] q by simp
  obtain ys where ys: "bs @ as @ [p] = q # ys" using qh by (cases "(bs @ as) @ [p]") auto
  have "ring l' (q # ys @ [t])"
  proof (rule ring_insert_last[OF r1[unfolded ys]])
    show "t \<notin> set (q # ys)" using t unfolding ys[symmetric] by auto
    show "p = last (q # ys)" unfolding ys[symmetric] by simp
  qed (use n v in auto)
  then have "ring l' (bs @ as @ [p, t])" using ys by (metis append_Cons append_assoc append_Nil)
  then show ?thesis using ring_rotate[of l' bs "as @ [p, t]"] by simp
qed

lemma ring_remove:
  assumes r: "ring l (as @ t # bs)" and ne: "as @ bs \<noteq> []" and q: "lnext l t = Some q" "lprev l t = Some p"
    and n: "lnext l' = (lnext l)(p := Some q)" and v: "lprev l' = (lprev l)(q := Some p)"
  shows "ring l' (as @ bs)"
proof -
  have r2: "ring l (t # bs @ as)" using ring_rotate[of l as "t # bs"] r by simp
  have z: "bs @ as \<noteq> []" using ne by auto
  have qp: "q = hd (bs @ as)" "p = last (bs @ as)" using ring_next_prev[OF r2] q z by (cases bs; cases as; simp)+
  have "ring l' (bs @ as)" by (rule ring_remove_front[OF r2 z]) (use n v qp in simp_all)
  then show ?thesis using ring_rotate[of l' bs as] by simp
qed

lemma ring_alive:
  assumes "ring l xs" "x \<in> set xs" "lnext l x = Some q" "lprev l x = Some p"
  shows "lnext l p = Some x" "lprev l q = Some x"
proof -
  obtain as bs where xs: "xs = as @ x # bs" and r: "ring l (x # bs @ as)" using assms(1,2) by (rule ring_to_front)
  have n: "q = hd ((bs @ as) @ [x])" "p = last (x # bs @ as)" using ring_next_prev[OF r] assms(3,4) by simp_all
  have lk: "linked l ((x # bs @ as) @ [x])" using r by (simp add: ring_def)
  obtain zs where z: "x # bs @ as = zs @ [p]" using n(2) by (metis append_butlast_last_id list.distinct(1))
  have "linked l (zs @ p # [x])" using lk z by (metis append_Cons append_assoc append_Nil)
  then show "lnext l p = Some x" using linked_append[of l zs p "[x]"] by simp
  show "lprev l q = Some x" using lk n(1) by (cases "bs @ as") auto
qed

text \<open>An insertion directly behind \<open>p\<close>, one level deeper, makes \<open>p\<close> the parent and keeps every other one.\<close>

lemma family_insert_after:
  assumes "family s (cs @ p # ra) ys" "unat (dpth s n) = Suc (unat (dpth s p))"
  shows "family s (cs @ n # p # ra) ys"
  using assms(1)
proof (induction ys arbitrary: cs)
  case (Cons y ys)
  let ?P = "\<lambda>z. dpth s z < dpth s y"
  have "parent_ok s (cs @ n # p # ra) y"
  proof (cases "find ?P cs")
    case None
    have "\<not> ?P n"
    proof
      assume pn: "?P n"
      then have "?P p" using assms(2) by (simp add: word_less_nat_alt)
      then have "unat (dpth s y) = Suc (unat (dpth s p))"
        using Cons.prems None by (simp add: parent_ok_def find_append)
      then show False using pn assms(2) by (simp add: word_less_nat_alt)
    qed
    then show ?thesis using Cons.prems None by (auto simp: parent_ok_def find_append split: option.splits if_splits)
  next
    case (Some c)
    then show ?thesis using Cons.prems by (auto simp: parent_ok_def find_append)
  qed
  moreover have "family s (y # cs @ n # p # ra) ys" using Cons.IH[of "y # cs"] Cons.prems by simp
  ultimately show ?case by simp
qed simp

lemma family_remove_leaf:
  assumes "family s (cs @ x # ra) ys" "cs = [] \<Longrightarrow> ys = [] \<or> dpth s (hd ys) \<le> dpth s x"
    and "cs \<noteq> [] \<Longrightarrow> dpth s (last cs) \<le> dpth s x" "cs @ ra \<noteq> [] \<or> ys = []"
  shows "family s (cs @ ra) ys"
  using assms
proof (induction ys arbitrary: cs)
  case (Cons y ys)
  let ?P = "\<lambda>z. dpth s z < dpth s y"
  have "parent_ok s (cs @ ra) y"
  proof (cases "find ?P cs")
    case None
    have "\<not> ?P x"
    proof (cases "cs = []")
      case True
      then show ?thesis using Cons.prems(2) by simp
    next
      case False
      then have "\<not> ?P (last cs)" using None last_in_set[OF False] by (simp add: find_None_iff)
      then show ?thesis using Cons.prems(3)[OF False] by simp
    qed
    then show ?thesis using Cons.prems None by (auto simp: parent_ok_def find_append split: option.splits if_splits)
  next
    case (Some c)
    then show ?thesis using Cons.prems by (auto simp: parent_ok_def find_append)
  qed
  moreover have "family s (y # cs @ ra) ys"
    using Cons.IH[of "y # cs"] Cons.prems by (cases "cs = []") auto
  ultimately show ?case by simp
qed simp

lemma depth_succ: "w \<noteq> 65535 \<Longrightarrow> unat (w + 1 :: u16) = Suc (unat w)"
proof -
  assume "w \<noteq> 65535"
  moreover have "(65535 :: u16) = - 1" by simp
  ultimately have "1 + w \<noteq> 0" using eq_neg_iff_add_eq_0[of w 1] by (metis add.commute)
  then show ?thesis using unatSuc[of w] by (simp add: add.commute)
qed

text \<open>C16: delegation_keeps_tree. Delegating a mapping puts the new mapping directly behind its
  origin in the list of the delegation tree: it gets the rights of the origin restricted to
  those asked for, its parent is the origin, and the list remains a delegation tree in which
  the mappings derived from a mapping are exactly the run of deeper ones behind it.\<close>
theorem delegation_keeps_tree:
  assumes "delegation s (as @ p # bs)" "n \<notin> set (as @ p # bs)" "node_attr s p AND a \<noteq> 0"
    and "dpth s n = dpth s p + 1" "dpth s p \<noteq> 65535"
  shows "\<exists>s'. insert_node n p a s = Inr (True, s') \<and> delegation s' (as @ p # n # bs) \<and>
           node_attr s' n = node_attr s p AND a \<and> derived s' p n \<and>
           (\<forall>x us vs y. as @ p # n # bs = us @ x # vs \<longrightarrow>
              (y \<in> set (below s' x vs)) = (y \<in> set (as @ p # n # bs) \<and> derived s' x y))"
proof -
  have r: "ring (mlinks s) (as @ p # bs)" "family s [] (as @ p # bs)" using assms(1) by (simp_all add: delegation_def)
  obtain q where q: "lnext (mlinks s) p = Some q" using ring_some(1)[OF r(1), of p] by auto
  let ?l = "set_next p (Some n) (set_prev q (Some n) (set_next n (Some q) (set_prev n (Some p) (mlinks s))))"
  let ?s = "s\<lparr>node_attr := (node_attr s)(n := node_attr s p AND a), prnt := (prnt s)(n := Some p), mlinks := ?l\<rparr>"
  have pn: "p \<noteq> n" using assms(2) by auto
  have run: "insert_node n p a s = Inr (True, ?s)"
    using assms(3) q pn by (simp add: insert_node_def Let_def)
  have ring': "ring ?l (as @ p # n # bs)"
    by (rule ring_insert_after[OF r(1) assms(2) q]) (simp_all add: fun_eq_iff)
  have dn: "unat (dpth s n) = Suc (unat (dpth s p))" using depth_succ[OF assms(5)] assms(4) by simp
  have "family s [] as" "parent_ok s (rev as) p" "family s (p # rev as) bs" using r(2) by (simp_all add: family_append)
  moreover have "family s (n # p # rev as) bs" using family_insert_after[of s "[]" p "rev as" bs n] calculation(3) dn by simp
  moreover have "find (\<lambda>z. dpth s z < dpth s n) (p # rev as) = Some p" using dn by (simp add: word_less_nat_alt)
  then have "parent_ok ?s (p # rev as) n" using dn by (simp add: parent_ok_def)
  moreover have "family ?s [] as = family s [] as" "family ?s (n # p # rev as) bs = family s (n # p # rev as) bs"
    "family ?s (rev as) [p] = family s (rev as) [p]"
    using assms(2) by (intro family_cong; auto)+
  ultimately have "family ?s [] (as @ p # n # bs)" by (simp add: family_append)
  then have del: "delegation ?s (as @ p # n # bs)" using ring' by (simp add: delegation_def)
  have "derived ?s p n" by (rule derived_one) simp
  then show ?thesis using run del below_iff_derived by (intro exI[of _ ?s]) fastforce
qed

lemma family_deeper:
  assumes "family s ra ys" "\<forall>z \<in> set ra. d \<le> dpth s z" "ra \<noteq> []" "y \<in> set ys"
  shows "d < dpth s y"
  using assms
proof (induction ys arbitrary: ra)
  case (Cons z ys)
  obtain p where "p \<in> set ra" "dpth s p < dpth s z"
    using Cons.prems(1,3) by (auto simp: parent_ok_def split: option.splits dest: find_Some_in)
  then have "d < dpth s z" using Cons.prems(2) by auto
  then show ?case using Cons.IH[of "z # ra"] Cons.prems by auto
qed simp

lemma delegation_next:
  assumes "delegation s (as @ x # bs)" "lnext (mlinks s) x = Some q"
  shows "dpth s x < dpth s q \<longleftrightarrow> below s x bs \<noteq> []"
proof (cases bs)
  case Nil
  have q: "q = hd (as @ [x])"
    using ring_next_prev(1)[of "mlinks s" x as] ring_rotate[of "mlinks s" as "[x]"] assms Nil by (simp add: delegation_def)
  have "\<not> dpth s x < dpth s q"
  proof (cases as)
    case (Cons r as')
    have "dpth s r < dpth s x"
      using family_deeper[of s "[r]" "as' @ [x]" "dpth s r" x] assms(1) Cons Nil by (simp add: delegation_def)
    then show ?thesis using q Cons by auto
  qed (use q in simp)
  then show ?thesis using Nil by (simp add: below_def)
next
  case (Cons b bs')
  have "q = b" using ring_next_prev(1)[of "mlinks s" x "bs @ as"] ring_rotate[of "mlinks s" as "x # bs"] assms Cons
    by (simp add: delegation_def)
  then show ?thesis using Cons by (auto simp: below_def)
qed

lemma remove_leaf_ok:
  assumes "delegation s (as @ x # bs)"
  shows "node_attr s x = 0 \<Longrightarrow> below s x bs = [] \<Longrightarrow>
           \<exists>l. remove_node x True s = Inr (True, s\<lparr>mlinks := l\<rparr>) \<and> delegation (s\<lparr>mlinks := l\<rparr>) (as @ bs) \<and>
             lprev l x = lprev (mlinks s) x \<and>
             (\<forall>m. m \<notin> set (as @ x # bs) \<longrightarrow> lnext l m = lnext (mlinks s) m \<and> lprev l m = lprev (mlinks s) m)"
    and "node_attr s x \<noteq> 0 \<or> below s x bs \<noteq> [] \<Longrightarrow> remove_node x True s = Inr (False, s)"
proof -
  have r: "ring (mlinks s) (as @ x # bs)" "family s [] (as @ x # bs)" using assms(1) by (simp_all add: delegation_def)
  obtain q p where q: "lnext (mlinks s) x = Some q" "lprev (mlinks s) x = Some p"
    using ring_some[OF r(1), of x] by auto
  have al: "mdb_alive x s = Inr True" using ring_alive[OF r(1), of x] q by (simp add: mdb_alive_def)
  note nx = delegation_next[OF assms(1) q(1)]
  show "remove_node x True s = Inr (False, s)" if "node_attr s x \<noteq> 0 \<or> below s x bs \<noteq> []"
    using al q nx that by (auto simp: remove_node_def)
  assume x: "node_attr s x = 0" "below s x bs = []"
  let ?l = "set_next p (Some q) (set_prev q (Some p) (mlinks s))"
  have "remove_node x True s = Inr (True, s\<lparr>mlinks := ?l\<rparr>)" using x al q nx by (simp add: remove_node_def Let_def)
  moreover have "delegation (s\<lparr>mlinks := ?l\<rparr>) (as @ bs)"
  proof (cases "as = []")
    case True
    have "bs = []" using x(2) r(2) True family_deeper[of s "[x]" bs "dpth s x"] by (cases bs) (auto simp: below_def split: if_splits)
    then show ?thesis using True by (simp add: delegation_def)
  next
    case False
    have "ring ?l (as @ bs)" by (rule ring_remove[OF r(1) _ q]) (use False in simp_all)
    moreover have "bs = [] \<or> dpth s (hd bs) \<le> dpth s x" using x(2) by (cases bs) (auto simp: below_def not_less split: if_splits)
    then have "family s [] (as @ bs)" using family_remove_leaf[of s "[]" x "rev as" bs] r(2) False by (simp add: family_append)
    then have "family (s\<lparr>mlinks := ?l\<rparr>) [] (as @ bs)" using family_cong[of "[]" "as @ bs" "s\<lparr>mlinks := ?l\<rparr>" s] by simp
    ultimately show ?thesis by (simp add: delegation_def)
  qed
  moreover have "lprev ?l x = lprev (mlinks s) x"
    using ring_alive(2)[OF r(1) _ q] q by (cases "q = x") auto
  moreover have "q \<in> set (as @ x # bs)" "p \<in> set (as @ x # bs)"
    using ring_some[OF r(1), of x] q by auto
  then have "\<forall>m. m \<notin> set (as @ x # bs) \<longrightarrow> lnext ?l m = lnext (mlinks s) m \<and> lprev ?l m = lprev (mlinks s) m"
    by auto
  ultimately show "\<exists>l. remove_node x True s = Inr (True, s\<lparr>mlinks := l\<rparr>) \<and> delegation (s\<lparr>mlinks := l\<rparr>) (as @ bs) \<and>
             lprev l x = lprev (mlinks s) x \<and>
             (\<forall>m. m \<notin> set (as @ x # bs) \<longrightarrow> lnext l m = lnext (mlinks s) m \<and> lprev l m = lprev (mlinks s) m)" by blast
qed

text \<open>C17: removal_keeps_tree. A mapping without rights is taken out of the list of its
  delegation tree exactly if nothing is derived from it; the rest remains a delegation tree. A
  mapping with rights or with derived mappings stays where it is.\<close>
theorem removal_keeps_tree:
  assumes "delegation s (as @ x # bs)"
  shows "if node_attr s x = 0 \<and> below s x bs = []
         then \<exists>s'. remove_node x True s = Inr (True, s') \<and> delegation s' (as @ bs)
         else remove_node x True s = Inr (False, s)"
  using remove_leaf_ok[OF assms] by auto


text \<open>C38: kept_removal_dangles. Taking a mapping out while its children are kept gives the
  next mapping in the list a new parent, but no other one: a second child still names the
  removed mapping as its parent.\<close>
theorem kept_removal_dangles:
  assumes "ring (mlinks s) (as @ x # c # d # bs)" "node_attr s x = 0" "prnt s c = Some x" "prnt s d = Some x"
  shows "\<exists>s'. remove_node x False s = Inr (True, s') \<and> ring (mlinks s') (as @ c # d # bs) \<and>
           prnt s' c = prnt s x \<and> prnt s' d = Some x \<and> x \<notin> set (as @ c # d # bs)"
proof -
  note r = assms(1)
  obtain q p where q: "lnext (mlinks s) x = Some q" "lprev (mlinks s) x = Some p"
    using ring_some[OF r, of x] by auto
  have al: "mdb_alive x s = Inr True" using ring_alive[OF r, of x] q by (simp add: mdb_alive_def)
  have qc: "q = c"
    using ring_next_prev(1)[of "mlinks s" x "c # d # bs @ as"] ring_rotate[of "mlinks s" as "x # c # d # bs"] r q by simp
  let ?s = "s\<lparr>prnt := (prnt s)(q := prnt s x), mlinks := set_next p (Some q) (set_prev q (Some p) (mlinks s))\<rparr>"
  have "remove_node x False s = Inr (True, ?s)" using al q assms(2) by (simp add: remove_node_def Let_def)
  moreover have "ring (mlinks ?s) (as @ c # d # bs)" by (rule ring_remove[OF r _ q]) simp_all
  moreover have "distinct (as @ x # c # d # bs)" using r by (rule ring_distinct)
  ultimately show ?thesis using qc assms(4) by (intro exI[of _ ?s]) auto
qed

subsection \<open>Examples\<close>

text \<open>
  Mapping 1, the root, in space 0; mapping 2, delegated from it, in space 1; a new mapping 3
  for space 0.
\<close>

definition sample :: "(nat, nat) mdb" where
  "sample = \<lparr>lnk = \<lambda>_ _. None, bal = \<lambda>_. 2, root = \<lambda>sp. if sp = 0 then Some 1 else if sp = 1 then Some 2 else None,
     mlinks = \<lparr>lnext = (\<lambda>n. if n = 1 then Some 2 else if n = 2 then Some 1 else Some n),
               lprev = (\<lambda>n. if n = 1 then Some 2 else if n = 2 then Some 1 else Some n)\<rparr>,
     dpth = (\<lambda>n. if n = 1 then 0 else if n = 2 then 1 else 2), prnt = (\<lambda>n. if n = 2 then Some 1 else None),
     mspace = (\<lambda>n. if n = 2 then Some 1 else Some 0), node_phys = \<lambda>n. of_nat n * 4, node_base = \<lambda>n. of_nat n * 4,
     node_order = \<lambda>_. 1, node_attr = (\<lambda>n. if n = 1 then 7 else 3), node_type = \<lambda>_. 0, node_sub = \<lambda>_. 0\<rparr>"

lemma sample_simps [simp]:
  "lnk sample n = (\<lambda>_. None)" "bal sample n = 2" "root sample 0 = Some 1" "root sample (Suc 0) = Some 2"
  "mspace sample 1 = Some 0" "mspace sample (Suc 0) = Some 0" "mspace sample 3 = Some 0" "node_base sample n = of_nat n * 4" "node_order sample n = 1"
  "node_attr sample (Suc 0) = 7" "node_attr sample 2 = 3" "dpth sample (Suc 0) = 0" "dpth sample 2 = 1" "dpth sample 3 = 2"
  "prnt sample (Suc 0) = None" "prnt sample 2 = Some 1"
  by (simp_all add: sample_def)

lemma sample_trees: "space_tree sample 0 (Node Leaf 1 Leaf)" "delegation sample [1, 2]"
  "delegation (sample\<lparr>node_attr := \<lambda>_. 0\<rparr>) [1, 2]"
  by (simp_all add: space_tree_def delegation_def ring_def parent_ok_def) (simp_all add: sample_def)

theorem space_lookup_finds_witness: "space_tree_lookup 4 0 5 True sample = Inr (Some 1)"
  using space_lookup_finds[OF sample_trees(1), of 1 5 True] by (simp add: covers_def drop_bit_Suc)

theorem space_insert_sound_witness:
  "\<exists>s' t'. space_tree_insert 2 3 sample = Inr (True, s') \<and> space_tree s' 0 t' \<and> set_tree t' = {1, 3}"
  using space_insert_sound[OF sample_trees(1), of 3 2] by (auto simp: mdb_equal_def drop_bit_Suc insert_commute)

theorem space_remove_sound_witness:
  "\<exists>s' t'. space_tree_remove 2 1 sample = Inr (True, s') \<and> space_tree s' 0 t' \<and> set_tree t' = {}"
  using space_remove_sound[OF sample_trees(1), of 1 2] by auto

theorem delegation_keeps_tree_witness:
  "\<exists>s'. insert_node 3 2 1 sample = Inr (True, s') \<and> delegation s' [1, 2, 3] \<and> node_attr s' 3 = 1 \<and> derived s' 2 3"
  using delegation_keeps_tree[of sample "[1]" 2 "[]" 3 1] sample_trees(2) by auto

theorem removal_keeps_tree_witness:
  "\<exists>s'. remove_node 2 True (sample\<lparr>node_attr := \<lambda>_. 0\<rparr>) = Inr (True, s') \<and> delegation s' [1]"
  using removal_keeps_tree[of "sample\<lparr>node_attr := \<lambda>_. 0\<rparr>" "[1]" 2 "[]"] sample_trees(3) by (simp add: below_def)


theorem kept_removal_dangles_witness:
  "\<exists>s'. remove_node 1 False (sample\<lparr>node_attr := \<lambda>_. 0, prnt := \<lambda>n. if n = 1 then None else Some 1,
       mlinks := \<lparr>lnext = (\<lambda>n. if n = 3 then Some 1 else Some (n + 1)), lprev = (\<lambda>n. if n = 1 then Some 3 else Some (n - 1))\<rparr>\<rparr>) = Inr (True, s') \<and>
     prnt s' 2 = None \<and> prnt s' 3 = Some 1"
  using kept_removal_dangles[of "sample\<lparr>node_attr := \<lambda>_. 0, prnt := \<lambda>n. if n = 1 then None else Some 1,
       mlinks := \<lparr>lnext = (\<lambda>n. if n = 3 then Some 1 else Some (n + 1)), lprev = (\<lambda>n. if n = 1 then Some 3 else Some (n - 1))\<rparr>\<rparr>" "[]" 1 2 3 "[]"]
  by (auto simp: ring_def)

end
