(* ===== verification/Pd.thy ===== *)
theory Pd
  imports Mdb Quota Crd
begin

text \<open>
  Delegation, revocation and translation of mappings between protection domains, after
  \<open>src/pd.cpp\<close>. A space is named by its protection domain and its kind; the templates
  \<open>delegate\<close> and \<open>revoke\<close> take the kind as an argument, and what they do to page tables,
  permission bitmaps and capability tables (\<open>S::update\<close>), the slab caches the mappings come from, the
  flush of an IOMMU and the shootdown of TLBs through the functions of an environment.
  A function that may go through a list or a tree takes a number of rounds.
\<close>

datatype spkind = MEM_SPC | PIO_SPC | OBJ_SPC

type_synonym 'p space = "'p \<times> spkind"

definition HZD_OOM :: u32 where "HZD_OOM = 0x20"
definition HZD_IOMMU :: u32 where "HZD_IOMMU = 0x40"

record ('n, 'p, 'b) pdst = "('n, 'p space) mdb" +
  pd_hazard :: u32
  pd_preempt :: bool
  pd_rcu :: "'n list"
  pd_quota :: "'p option quotas"
  pd_back :: 'b

type_synonym ('n, 'p, 'b) pd_upd =
  "spkind \<Rightarrow> 'p option \<Rightarrow> 'n \<Rightarrow> mword \<Rightarrow> ('n, 'p, 'b) pdst \<Rightarrow> (bool \<times> ('n, 'p, 'b) pdst) result"

record ('n, 'p, 'b) pd_env =
  env_update :: "('n, 'p, 'b) pd_upd"
  env_alloc :: "'p \<Rightarrow> 'p option \<Rightarrow> ('n, 'p, 'b) pdst \<Rightarrow> ('n \<times> ('n, 'p, 'b) pdst) result"
  env_free :: "'p \<Rightarrow> 'p option \<Rightarrow> 'n \<Rightarrow> ('n, 'p, 'b) pdst \<Rightarrow> ('n, 'p, 'b) pdst result"
  env_flush :: "'p \<Rightarrow> ('n, 'p, 'b) pdst \<Rightarrow> ('n, 'p, 'b) pdst result"
  env_shootdown :: "'p \<Rightarrow> ('n, 'p, 'b) pdst \<Rightarrow> ('n, 'p, 'b) pdst result"
  env_merge_htlb :: "'p \<Rightarrow> ('n, 'p, 'b) pdst \<Rightarrow> ('n, 'p, 'b) pdst result"

definition set_hz :: "u32 \<Rightarrow> ('n, 'p, 'b) pdst \<Rightarrow> ('n, 'p, 'b) pdst" where
  "set_hz h s = s\<lparr>pd_hazard := pd_hazard s OR h\<rparr>"

definition clr_hz :: "u32 \<Rightarrow> ('n, 'p, 'b) pdst \<Rightarrow> ('n, 'p, 'b) pdst" where
  "clr_hz h s = s\<lparr>pd_hazard := pd_hazard s AND NOT h\<rparr>"

definition rcu_call :: "'n \<Rightarrow> ('n, 'p, 'b) pdst \<Rightarrow> ('n, 'p, 'b) pdst" where
  "rcu_call n s = s\<lparr>pd_rcu := pd_rcu s @ [n]\<rparr>"

definition guard_new :: "('n, 'p, 'b) pdst \<Rightarrow> ('n, 'p, 'b) pdst" where
  "guard_new s = s\<lparr>pd_quota := (pd_quota s)(None := Quota_new)\<rparr>"

definition guard_end :: "'p \<Rightarrow> ('n, 'p, 'b) pdst \<Rightarrow> ('n, 'p, 'b) pdst" where
  "guard_end this s = s\<lparr>pd_quota := quota_guard_destroy (pd_quota s) None (Some this)\<rparr>"

subsection \<open>Ranges\<close>

definition clamp :: "mword \<Rightarrow> mword \<Rightarrow> mword \<Rightarrow> mword \<Rightarrow> mword \<times> mword" where
  "clamp snd_base rcv_base snd_ord rcv_ord =
     (if drop_bit (unat (max snd_ord rcv_ord)) (snd_base XOR rcv_base) \<noteq> 0 then (NOT 0, rcv_base)
      else (min snd_ord rcv_ord, rcv_base OR snd_base))"

definition clamp_hot :: "mword \<Rightarrow> mword \<Rightarrow> mword \<Rightarrow> mword \<Rightarrow> mword \<Rightarrow> (mword \<times> mword \<times> mword) result" where
  "clamp_hot snd_base rcv_base snd_ord rcv_ord h =
     (if \<not> snd_ord < 64 \<or> \<not> rcv_ord < 64 then Inl Assert_failed
      else
        (let s = push_bit (unat snd_ord) 1 - 1;
             r = push_bit (unat rcv_ord) 1 - 1;
             snd_base = snd_base AND NOT s;
             rcv_base = rcv_base AND NOT r
         in if s < r then Inr (snd_ord, snd_base, rcv_base OR (h AND r AND NOT s))
            else Inr (rcv_ord, snd_base OR (h AND s AND NOT r), rcv_base)))"

definition sticky_sub :: "spkind \<Rightarrow> mword \<Rightarrow> mword" where
  "sticky_sub S s = (case S of MEM_SPC \<Rightarrow> s AND 0x4 | PIO_SPC \<Rightarrow> 0 | OBJ_SPC \<Rightarrow> 0)"

subsection \<open>Delegation\<close>

definition node_gone :: "nat \<Rightarrow> 'n \<Rightarrow> ('n, 'p, 'b) pdst \<Rightarrow> ('n, 'p, 'b) pdst result" where
  "node_gone k node s =
     bind_result (space_tree_remove k node s) (\<lambda>(r, s). Inr (if r then rcu_call node s else s))"

definition delegate_one ::
  "('n, 'p, 'b) pd_env \<Rightarrow> nat \<Rightarrow> spkind \<Rightarrow> 'p \<Rightarrow> 'n \<Rightarrow> mword \<Rightarrow> mword \<Rightarrow> mword \<Rightarrow> mword \<Rightarrow> mword \<Rightarrow> mword \<Rightarrow>
   ('n, 'p, 'b) pdst \<Rightarrow> (bool \<times> bool \<times> ('n, 'p, 'b) pdst) result" where
  "delegate_one e k S this mdb o' b snd_base rcv_base attr sub s =
     bind_result (env_alloc e this None s) (\<lambda>(node, s).
       let s = Mdb_make node (Some (this, S)) (b - node_base s mdb + node_phys s mdb) (b - snd_base + rcv_base) o' 0
                 (node_type s mdb) (sticky_sub S (node_sub s mdb) OR sub) (dpth s mdb + 1) s
       in bind_result (space_tree_insert k node s) (\<lambda>(ins, s).
            if \<not> ins then bind_result (env_free e this None node s) (\<lambda>s. Inr (False, False, s))
            else bind_result (insert_node node mdb attr s) (\<lambda>(ok, s).
              if \<not> ok
              then (if lprev (mlinks s) node \<noteq> Some node \<or> lnext (mlinks s) node \<noteq> Some node then Inl Assert_failed
                    else bind_result (node_gone k node s) (\<lambda>s. Inr (False, False, s)))
              else bind_result (env_update e S None node 0 s) (\<lambda>(f, s).
                if pd_hazard s AND HZD_OOM = 0 then Inr (f, False, s)
                else bind_result (env_update e S None node attr s) (\<lambda>(g, s).
                  let s = demote_node node attr s
                  in bind_result (remove_node node True s) (\<lambda>(rm, s).
                       bind_result (if rm then node_gone k node s else Inr s) (\<lambda>s. Inr (f \<or> g, True, s))))))))"

fun delegate_loop ::
  "('n, 'p, 'b) pd_env \<Rightarrow> nat \<Rightarrow> nat \<Rightarrow> spkind \<Rightarrow> 'p \<Rightarrow> 'p \<Rightarrow> mword \<Rightarrow> mword \<Rightarrow> mword \<Rightarrow> mword \<Rightarrow> mword \<Rightarrow> mword \<Rightarrow> bool \<Rightarrow>
   ('n, 'p, 'b) pdst \<Rightarrow> (bool \<times> bool \<times> ('n, 'p, 'b) pdst) result" where
  "delegate_loop e k 0 S this snder addr snd_base rcv_base ord attr sub f s = Inl Out_of_fuel"
| "delegate_loop e k (Suc r) S this snder addr snd_base rcv_base ord attr sub f s =
     bind_result (space_tree_lookup k (snder, S) addr True s) (\<lambda>m.
       case m of
         None \<Rightarrow> Inr (f, False, s)
       | Some mdb \<Rightarrow>
           (case clamp (node_base s mdb) snd_base (node_order s mdb) ord of (o', b) \<Rightarrow>
              if o' = NOT 0 then Inr (f, False, s)
              else if hit_limit (pd_quota s (Some this)) 1 then Inr (f, True, set_hz HZD_OOM s)
              else bind_result (delegate_one e k S this mdb o' b snd_base rcv_base attr sub s) (\<lambda>(g, stop, s).
                if stop then Inr (f \<or> g, True, s)
                else delegate_loop e k r S this snder (node_base s mdb + push_bit (unat (node_order s mdb)) 1)
                       snd_base rcv_base ord attr sub (f \<or> g) s)))"

definition delegate ::
  "('n, 'p, 'b) pd_env \<Rightarrow> nat \<Rightarrow> nat \<Rightarrow> spkind \<Rightarrow> 'p \<Rightarrow> 'p \<Rightarrow> mword \<Rightarrow> mword \<Rightarrow> mword \<Rightarrow> mword \<Rightarrow> mword \<Rightarrow>
   ('n, 'p, 'b) pdst \<Rightarrow> (bool \<times> ('n, 'p, 'b) pdst) result" where
  "delegate e k r S this snder snd_base rcv_base ord attr sub s =
     bind_result (delegate_loop e k r S this snder snd_base snd_base rcv_base ord attr sub False (guard_new s)) (\<lambda>(f, ret, s).
       if ret then Inr (f, guard_end this s)
       else (case quota_guard_check (pd_quota s) None (Some this) 0 of
               (ok, q) \<Rightarrow>
                 (let s = s\<lparr>pd_quota := q\<rparr>
                  in Inr (f, guard_end this (if ok then s else set_hz HZD_OOM s)))))"

subsection \<open>Revocation\<close>

text \<open>
  \<open>revoke_demote\<close> is the loop that takes the rights from a mapping and the mappings derived
  from it, \<open>revoke_remove\<close> the loop back over them that takes out those without rights.
\<close>

definition demote_one ::
  "('n, 'p, 'b) pd_env \<Rightarrow> 'p \<Rightarrow> spkind \<Rightarrow> 'n \<Rightarrow> mword \<Rightarrow> 'n \<Rightarrow> ('n, 'p, 'b) pdst \<Rightarrow> ('n, 'p, 'b) pdst result" where
  "demote_one e this S mdb attr node s =
     (let s = (if node_sub s mdb AND 0x1 \<noteq> 0 then set_hz HZD_IOMMU s else s);
          s = guard_new s
      in bind_result (env_update e S None node attr s) (\<lambda>(f, s).
           Inr (guard_end this (demote_node node attr s))))"

fun revoke_demote ::
  "('n, 'p, 'b) pd_env \<Rightarrow> nat \<Rightarrow> 'p \<Rightarrow> spkind \<Rightarrow> 'n \<Rightarrow> mword \<Rightarrow> mword \<Rightarrow> mword \<Rightarrow> bool \<Rightarrow> u16 \<Rightarrow> bool \<Rightarrow> 'n \<Rightarrow>
   ('n, 'p, 'b) pdst \<Rightarrow> ('n \<times> ('n, 'p, 'b) pdst) result" where
  "revoke_demote e 0 this S mdb b o' attr self d demote node s = Inl Out_of_fuel"
| "revoke_demote e (Suc r) this S mdb b o' attr self d demote node s =
     bind_result (if demote \<and> node_attr s node AND attr \<noteq> 0 then demote_one e this S mdb attr node s else Inr s) (\<lambda>s.
       case lnext (mlinks s) node of
         None \<Rightarrow> Inr (node, s)
       | Some ptr \<Rightarrow>
           (if dpth s ptr \<le> d then Inr (node, s)
            else
              (let demote = (if \<not> self \<and> prnt s ptr = Some mdb
                             then fst (clamp (node_phys s ptr) (b - node_base s mdb + node_phys s mdb) (node_order s ptr) o') \<noteq> NOT 0
                             else demote)
               in revoke_demote e r this S mdb b o' attr self d demote ptr s)))"

definition remove_one :: "nat \<Rightarrow> 'n \<Rightarrow> bool \<Rightarrow> ('n, 'p, 'b) pdst \<Rightarrow> ('n, 'p, 'b) pdst result" where
  "remove_one k node leaf s =
     bind_result (remove_node node leaf s) (\<lambda>(rm, s). if rm then node_gone k node s else Inr s)"

fun revoke_remove ::
  "nat \<Rightarrow> nat \<Rightarrow> u16 \<Rightarrow> 'n \<Rightarrow> ('n, 'p, 'b) pdst \<Rightarrow> ('n \<times> ('n, 'p, 'b) pdst) result" where
  "revoke_remove k 0 d node s = Inl Out_of_fuel"
| "revoke_remove k (Suc r) d node s =
     (let pre = pd_preempt s;
          s = (if pre then s\<lparr>pd_preempt := False\<rparr> else s)
      in bind_result (remove_one k node True s) (\<lambda>s.
           let s = (if pre then s\<lparr>pd_preempt := True\<rparr> else s)
           in if dpth s node \<le> d then Inr (node, s)
              else the_node (lprev (mlinks s) node) (\<lambda>ptr. revoke_remove k r d ptr s)))"

definition revoke_one ::
  "('n, 'p, 'b) pd_env \<Rightarrow> nat \<Rightarrow> nat \<Rightarrow> 'p \<Rightarrow> spkind \<Rightarrow> 'n \<Rightarrow> mword \<Rightarrow> mword \<Rightarrow> mword \<Rightarrow> bool \<Rightarrow>
   ('n, 'p, 'b) pdst \<Rightarrow> ('n, 'p, 'b) pdst result" where
  "revoke_one e k r this S mdb b o' attr self s =
     (let d = dpth s mdb;
          demote = self \<and> fst (clamp (node_phys s mdb) (b - node_base s mdb + node_phys s mdb) (node_order s mdb) o') \<noteq> NOT 0
      in bind_result (revoke_demote e r this S mdb b o' attr self d demote mdb s) (\<lambda>(node, s).
           the_node (lnext (mlinks s) node) (\<lambda>x.
             if \<not> (dpth s x \<le> d \<or> (self \<and> node_attr s x AND attr = 0) \<or>
                   (\<not> self \<and> (mdb = node \<or> unat (dpth s x) \<le> unat d + 1 \<or> node_attr s x AND attr = 0)))
             then Inl Assert_failed
             else bind_result (revoke_remove k r d node s) (\<lambda>(node, s).
               if node \<noteq> mdb then Inl Assert_failed else Inr s))))"

definition revoke_kept ::
  "('n, 'p, 'b) pd_env \<Rightarrow> nat \<Rightarrow> 'p \<Rightarrow> spkind \<Rightarrow> 'n \<Rightarrow> ('n, 'p, 'b) pdst \<Rightarrow> ('n, 'p, 'b) pdst result" where
  "revoke_kept e k this S mdb s =
     bind_result
       (if node_attr s mdb AND 0x1f \<noteq> 0 then demote_one e this S mdb 0x1f mdb s
        else Inr (guard_end this (guard_new s))) (\<lambda>s.
       let pre = pd_preempt s;
           s = (if pre then s\<lparr>pd_preempt := False\<rparr> else s)
       in bind_result (remove_one k mdb False s) (\<lambda>s. Inr (if pre then s\<lparr>pd_preempt := True\<rparr> else s)))"

fun revoke_loop ::
  "('n, 'p, 'b) pd_env \<Rightarrow> nat \<Rightarrow> nat \<Rightarrow> nat \<Rightarrow> spkind \<Rightarrow> 'p \<Rightarrow> mword \<Rightarrow> mword \<Rightarrow> mword \<Rightarrow> mword \<Rightarrow> bool \<Rightarrow> bool \<Rightarrow>
   ('n, 'p, 'b) pdst \<Rightarrow> ('n, 'p, 'b) pdst result" where
  "revoke_loop e k m 0 S this addr base ord attr self kim s = Inl Out_of_fuel"
| "revoke_loop e k m (Suc r) S this addr base ord attr self kim s =
     bind_result (space_tree_lookup k (this, S) addr True s) (\<lambda>q.
       case q of
         None \<Rightarrow> Inr s
       | Some mdb \<Rightarrow>
           (case clamp (node_base s mdb) base (node_order s mdb) ord of (o', b) \<Rightarrow>
              if o' = NOT 0 then Inr s
              else the_node (lnext (mlinks s) mdb) (\<lambda>x.
                bind_result
                  (if kim \<and> dpth s x > dpth s mdb then revoke_kept e k this S mdb s
                   else revoke_one e k m this S mdb b o' attr self s) (\<lambda>s.
                  revoke_loop e k m r S this (node_base s mdb + push_bit (unat (node_order s mdb)) 1) base ord attr self kim s))))"

definition flush_iommu :: "('n, 'p, 'b) pd_env \<Rightarrow> 'p \<Rightarrow> ('n, 'p, 'b) pdst \<Rightarrow> ('n, 'p, 'b) pdst result" where
  "flush_iommu e this s = bind_result (env_flush e this s) (\<lambda>s. Inr (clr_hz HZD_IOMMU s))"

definition revoke ::
  "('n, 'p, 'b) pd_env \<Rightarrow> nat \<Rightarrow> nat \<Rightarrow> nat \<Rightarrow> spkind \<Rightarrow> 'p \<Rightarrow> mword \<Rightarrow> mword \<Rightarrow> mword \<Rightarrow> bool \<Rightarrow> bool \<Rightarrow>
   ('n, 'p, 'b) pdst \<Rightarrow> ('n, 'p, 'b) pdst result" where
  "revoke e k m r S this base ord attr self kim s =
     bind_result (revoke_loop e k m r S this base base ord attr self kim s) (\<lambda>s.
       if \<not> pd_preempt s \<and> pd_hazard s AND HZD_IOMMU \<noteq> 0 then flush_iommu e this s else Inr s)"

subsection \<open>Range descriptors\<close>

definition subspace :: "'p \<Rightarrow> mword \<Rightarrow> 'p space option" where
  "subspace p t = (if t = Crd_MEM then Some (p, MEM_SPC) else if t = Crd_PIO then Some (p, PIO_SPC)
     else if t = Crd_OBJ then Some (p, OBJ_SPC) else None)"

fun xlt_search :: "nat \<Rightarrow> 'p space \<Rightarrow> 'n option \<Rightarrow> 'n option \<Rightarrow> mword \<Rightarrow> mword \<Rightarrow> ('n, 'p, 'b) pdst \<Rightarrow>
  ('n option \<times> mword \<times> mword) result" where
  "xlt_search 0 rcv mdb node rb ro s = Inl Out_of_fuel"
| "xlt_search (Suc r) rcv mdb node rb ro s =
     (case node of
        None \<Rightarrow> Inr (None, rb, ro)
      | Some n \<Rightarrow>
          (if mspace s n = Some rcv \<and> node \<noteq> mdb
           then (case clamp (node_base s n) rb (node_order s n) ro of (ro, rb) \<Rightarrow>
                   if ro \<noteq> NOT 0 then Inr (Some n, rb, ro) else xlt_search r rcv mdb (prnt s n) rb ro s)
           else xlt_search r rcv mdb (prnt s n) rb ro s))"

definition xlt_crd :: "nat \<Rightarrow> nat \<Rightarrow> 'p \<Rightarrow> 'p \<Rightarrow> mword \<Rightarrow> mword \<Rightarrow> ('n, 'p, 'b) pdst \<Rightarrow> mword result" where
  "xlt_crd k r this pd xlt crd s =
     (let t = crd_type xlt
      in if t = 0 \<or> t \<noteq> crd_type crd then Inr Crd_null
         else
           (case (subspace pd t, subspace this t) of
              (Some sp, Some rcv) \<Rightarrow>
                bind_result (space_tree_lookup k sp (crd_base crd) False s) (\<lambda>mdb.
                  bind_result (xlt_search r rcv mdb mdb (crd_base xlt) (ucast (crd_order xlt)) s) (\<lambda>(node, rb, ro).
                    let (node, rb, ro) =
                      (case node of
                         Some n \<Rightarrow> (Some n, rb, ro)
                       | None \<Rightarrow>
                           (case mdb of
                              None \<Rightarrow> (None, rb, ro)
                            | Some first \<Rightarrow>
                                if mspace s first = Some rcv
                                then (case clamp (node_base s first) (crd_base xlt) (node_order s first) (ucast (crd_order xlt)) of
                                        (ro, rb) \<Rightarrow> if ro \<noteq> NOT 0 then (Some first, rb, ro) else (None, rb, ro))
                                else (None, rb, ro)))
                    in (case (node, mdb) of
                          (Some n, Some m) \<Rightarrow>
                            (case clamp (node_base s m) (crd_base crd) (node_order s m) (ucast (crd_order crd)) of (so, sb) \<Rightarrow>
                               (let sb = (sb - node_base s m) + (node_phys s m - node_phys s n) + node_base s n
                                in (case clamp sb rb so ro of (ro, rb) \<Rightarrow>
                                      if ro \<noteq> NOT 0 then Inr (Crd_make (crd_type crd) rb ro (node_attr s m)) else Inr Crd_null)))
                        | _ \<Rightarrow> Inr Crd_null)))
            | _ \<Rightarrow> Inl Null_deref))"

definition del_crd :: "('n, 'p, 'b) pd_env \<Rightarrow> nat \<Rightarrow> nat \<Rightarrow> 'p \<Rightarrow> 'p \<Rightarrow> mword \<Rightarrow> mword \<Rightarrow> mword \<Rightarrow> mword \<Rightarrow>
  ('n, 'p, 'b) pdst \<Rightarrow> (mword \<times> ('n, 'p, 'b) pdst) result" where
  "del_crd e k r this pd del crd sub hot s =
     (let st = crd_type crd; rt = crd_type del; a = ucast (crd_attr crd AND crd_attr del) :: mword;
          sb = crd_base crd; so = ucast (crd_order crd); rb = crd_base del; ro = ucast (crd_order del)
      in if st \<noteq> rt \<or> a = 0 then Inr (Crd_null, s)
         else
           bind_result
             (if rt = Crd_MEM
              then bind_result (clamp_hot sb rb so ro hot) (\<lambda>(o', sb, rb).
                     bind_result (delegate e k r MEM_SPC this pd sb rb o' a sub s) (\<lambda>(f, s). Inr (f, o', rb, s)))
              else if rt = Crd_PIO
              then (case clamp sb rb so ro of (o', rb) \<Rightarrow>
                     bind_result (delegate e k r PIO_SPC this pd rb rb o' a sub s) (\<lambda>(f, s). Inr (False, o', rb, s)))
              else if rt = Crd_OBJ
              then bind_result (clamp_hot sb rb so ro hot) (\<lambda>(o', sb, rb).
                     bind_result (delegate e k r OBJ_SPC this pd sb rb o' a 0 s) (\<lambda>(f, s). Inr (f, o', rb, s)))
              else Inr (False, 0, rb, s))
             (\<lambda>(f, o', rb, s).
                bind_result (if f \<and> rt = Crd_OBJ then env_merge_htlb e this s else Inr s) (\<lambda>s.
                  bind_result (if f \<and> sub AND 0x1 \<noteq> 0 then env_flush e this s else Inr s) (\<lambda>s.
                    bind_result (if f then env_shootdown e this s else Inr s) (\<lambda>s.
                      Inr (Crd_make rt rb o' a, s))))))"

definition rev_crd :: "('n, 'p, 'b) pd_env \<Rightarrow> nat \<Rightarrow> nat \<Rightarrow> nat \<Rightarrow> 'p \<Rightarrow> mword \<Rightarrow> bool \<Rightarrow> bool \<Rightarrow> bool \<Rightarrow>
  ('n, 'p, 'b) pdst \<Rightarrow> ('n, 'p, 'b) pdst result" where
  "rev_crd e k m r this crd self preempt kim s =
     (let s = (if preempt then s\<lparr>pd_preempt := True\<rparr> else s);
          b = crd_base crd; o' = ucast (crd_order crd); a = ucast (crd_attr crd)
      in bind_result
           (if crd_type crd = Crd_MEM then revoke e k m r MEM_SPC this b o' a self kim s
            else if crd_type crd = Crd_PIO then revoke e k m r PIO_SPC this b o' a self kim s
            else if crd_type crd = Crd_OBJ then revoke e k m r OBJ_SPC this b o' a self kim s
            else Inr s) (\<lambda>s.
           let s = (if preempt then s\<lparr>pd_preempt := False\<rparr> else s)
           in bind_result (if pd_hazard s AND HZD_IOMMU \<noteq> 0 then flush_iommu e this s else Inr s) (\<lambda>s.
                if crd_type crd = Crd_MEM then env_shootdown e this s else Inr s)))"

text \<open>
  \<open>Pd::xfer_items\<close>: the descriptors of a message, translated or delegated one after the other;
  the results are written from the place \<open>d\<close> on, unless it is a null pointer.
\<close>

fun xfer_items :: "('n, 'p, 'b) pd_env \<Rightarrow> nat \<Rightarrow> nat \<Rightarrow> 'p \<Rightarrow> 'p \<Rightarrow> 'p \<Rightarrow> 'p \<Rightarrow> mword \<Rightarrow> mword \<Rightarrow> xfer list \<Rightarrow> xfer list option \<Rightarrow>
  ('n, 'p, 'b) pdst \<Rightarrow> (xfer list option \<times> ('n, 'p, 'b) pdst) result" where
  "xfer_items e k r kern rt this src xlt del [] d s = Inr (d, s)"
| "xfer_items e k r kern rt this src xlt del (x # xs) d s =
     (let f = xfer_flags x AND 3;
          dele = (\<lambda>set_as_del s.
            let root = (src = rt \<and> xfer_flags x AND 0x800 \<noteq> 0)
            in bind_result (del_crd e k r this (if root then kern else src) del (xfer_crd x)
                   (drop_bit 8 (xfer_flags x) AND (if root then 7 else 3)) (xfer_hotspot x) s) (\<lambda>(crd, s).
                 if pd_hazard s AND HZD_OOM \<noteq> 0 then Inr (d, s)
                 else xfer_items e k r kern rt this src xlt del xs
                        (map_option (\<lambda>d. d @ [Xfer_make crd (xfer_flags x OR set_as_del)]) d) s))
      in if f = 0
         then bind_result (xlt_crd k r this src xlt (xfer_crd x) s) (\<lambda>crd.
                xfer_items e k r kern rt this src xlt del xs (map_option (\<lambda>d. d @ [Xfer_make crd (xfer_flags x)]) d) s)
         else if f = 2
         then bind_result (xlt_crd k r this src xlt (xfer_crd x) s) (\<lambda>crd.
                if crd_type crd \<noteq> 0
                then xfer_items e k r kern rt this src xlt del xs (map_option (\<lambda>d. d @ [Xfer_make crd (xfer_flags x)]) d) s
                else dele 1 s)
         else if f = 1 then dele 0 s
         else xfer_items e k r kern rt this src xlt del xs (map_option (\<lambda>d. d @ [Xfer_make Crd_null (xfer_flags x)]) d) s)"

subsection \<open>Blocks of addresses\<close>

lemma blocks_overlap:
  fixes a b :: nat
  assumes "2 ^ k dvd a" "2 ^ l dvd b"
  shows "a div 2 ^ max k l = b div 2 ^ max k l \<longleftrightarrow> a < b + 2 ^ l \<and> b < a + 2 ^ k"
proof -
  have main: "a div 2 ^ l = b div 2 ^ l \<longleftrightarrow> a < b + 2 ^ l \<and> b < a + 2 ^ k"
    if kl: "k \<le> l" "2 ^ k dvd a" "2 ^ l dvd b" for a b k l :: nat
  proof -
    obtain c where b: "b = 2 ^ l * c" using kl(3) by (rule dvdE)
    obtain q where a: "a = 2 ^ k * q" using kl(2) by (rule dvdE)
    have l: "(2::nat) ^ l = 2 ^ k * 2 ^ (l - k)" using kl(1) by (simp flip: power_add)
    have ak: "a + 2 ^ k = 2 ^ k * Suc q" by (simp add: a)
    have "b < a + 2 ^ k \<longleftrightarrow> 2 ^ (l - k) * c < Suc q" unfolding ak b l mult.assoc mult_less_cancel1 by simp
    also have "\<dots> \<longleftrightarrow> b \<le> a" unfolding a b l mult.assoc mult_le_cancel1 by auto
    finally have 1: "b < a + 2 ^ k \<longleftrightarrow> b \<le> a" .
    have "a div 2 ^ l = c \<longleftrightarrow> c * 2 ^ l \<le> a \<and> a < Suc c * 2 ^ l"
      by (metis div_nat_eqI dividend_less_times_div div_times_less_eq_dividend mult.commute mult_Suc_right nat_zero_less_power_iff zero_less_numeral)
    then show ?thesis unfolding 1 by (auto simp: b mult.commute)
  qed
  show ?thesis
  proof (cases "k \<le> l")
    case True
    then show ?thesis using main[OF True assms] by (simp add: max_def)
  next
    case False
    then show ?thesis using main[of l k b a] assms by (auto simp: max_def)
  qed
qed

lemma take_bit_dvd: "2 ^ k dvd unat (x :: mword) \<Longrightarrow> take_bit k x = 0"
  by (simp only: word_unat_eq_iff unsigned_take_bit_eq) (simp add: take_bit_eq_mod dvd_eq_mod_eq_0)

lemma or_block:
  fixes x y :: mword
  assumes "drop_bit k (x XOR y) = 0" "2 ^ k dvd unat x"
  shows "y OR x = y"
proof (rule bit_word_eqI)
  fix i
  have "bit x i = bit y i" if "k \<le> i" using that arg_cong[OF assms(1), of "\<lambda>w. bit w (i - k)"] by (auto simp: bit_simps)
  moreover have "\<not> bit x i" if "i < k" using that arg_cong[OF take_bit_dvd[OF assms(2)], of "\<lambda>w. bit w i"] by (auto simp: bit_simps)
  ultimately show "bit (y OR x) i = bit y i" by (cases "i < k") (auto simp: bit_simps)
qed

lemma unat_exp_64: "k < 64 \<Longrightarrow> unat ((2 :: mword) ^ k) = 2 ^ k"
proof -
  assume "k < 64"
  then have "(2::nat) ^ k < 2 ^ 64" by (intro power_strict_increasing) simp_all
  moreover have "(2 :: mword) ^ k = word_of_nat (2 ^ k)" by simp
  ultimately show ?thesis by (simp only: unat_of_nat) simp
qed

lemma min_order: "unat o' < 64 \<Longrightarrow> min o' ord \<noteq> (NOT 0 :: mword)"
proof -
  have "unat (- 1 :: mword) = 18446744073709551615" by (simp add: unsigned_minus_1_eq_mask mask_eq_exp_minus_1)
  then show "unat o' < 64 \<Longrightarrow> min o' ord \<noteq> NOT 0" by (auto simp: min_def word_le_nat_alt)
qed

lemma clamp_block:
  assumes "2 ^ unat so dvd unat sb" "2 ^ unat ro dvd unat rb" "unat so < 64" "unat ro < 64"
  shows "clamp sb rb so ro =
    (if unat sb < unat rb + 2 ^ unat ro \<and> unat rb < unat sb + 2 ^ unat so
     then if unat so \<le> unat ro then (so, sb) else (ro, rb) else (NOT 0, rb))"
proof (cases "drop_bit (unat (max so ro)) (sb XOR rb) = 0")
  case True
  then have ov: "unat sb < unat rb + 2 ^ unat ro \<and> unat rb < unat sb + 2 ^ unat so"
    using blocks_overlap[OF assms(1,2)] by (simp only: same_block unat_max)
  have c: "clamp sb rb so ro = (min so ro, rb OR sb)" unfolding clamp_def using True by (simp del: drop_bit_xor)
  show ?thesis
  proof (cases "unat so \<le> unat ro")
    case le: True
    then have "drop_bit (unat ro) (rb XOR sb) = 0" using True by (simp only: unat_max max_absorb2 xor.commute)
    then have "sb OR rb = sb" by (rule or_block[OF _ assms(2)])
    then have "rb OR sb = sb" by (simp only: or.commute)
    then show ?thesis using c ov le by (simp add: min_def word_le_nat_alt)
  next
    case False
    then have "drop_bit (unat so) (sb XOR rb) = 0" using True by (simp only: unat_max max_absorb1 nat_le_linear)
    then have "rb OR sb = rb" by (rule or_block[OF _ assms(1)])
    then show ?thesis using c ov False by (simp add: min_def word_le_nat_alt)
  qed
next
  case False
  then have "\<not> (unat sb < unat rb + 2 ^ unat ro \<and> unat rb < unat sb + 2 ^ unat so)"
    using blocks_overlap[OF assms(1,2)] by (simp only: same_block unat_max not_False_eq_True)
  then show ?thesis using False by (auto simp: clamp_def simp del: drop_bit_xor)
qed

lemma block_inside:
  fixes a b :: nat
  assumes "2 ^ k dvd a" "2 ^ l dvd b" "k \<le> l" "a < b + 2 ^ l" "b < a + 2 ^ k"
  shows "b \<le> a" "a + 2 ^ k \<le> b + 2 ^ l"
proof -
  have "(2::nat) ^ k dvd 2 ^ l" using assms(3) by (rule le_imp_power_dvd)
  then have d: "2 ^ k dvd b" "2 ^ k dvd b + 2 ^ l" using assms(2) by (auto intro: dvd_trans)
  obtain p q r where e: "a = 2 ^ k * p" "b = 2 ^ k * q" "b + 2 ^ l = 2 ^ k * r" using assms(1) d by (auto elim!: dvdE)
  have "2 ^ k * q < 2 ^ k * Suc p" using assms(5) e by simp
  then have "q \<le> p" by (simp only: mult_less_cancel1) simp
  then show "b \<le> a" by (simp add: e)
  have "2 ^ k * p < 2 ^ k * r" using assms(4) e by simp
  then have "Suc p \<le> r" by (simp only: mult_less_cancel1) simp
  then have "2 ^ k * Suc p \<le> 2 ^ k * r" by (rule mult_le_mono2)
  then have "a + 2 ^ k \<le> 2 ^ k * r" by (simp add: e(1))
  then show "a + 2 ^ k \<le> b + 2 ^ l" by (simp only: e(3))
qed

text \<open>C21: clamp_meets. Restricting a range to a receive window: for aligned blocks the result is
  the intersection of the two blocks, again a block, and the order \<open>~0UL\<close> exactly if they have no
  address in common.\<close>
theorem clamp_meets:
  assumes "2 ^ unat so dvd unat sb" "2 ^ unat ro dvd unat rb" "unat so < 64" "unat ro < 64"
  shows "case clamp sb rb so ro of (o', b) \<Rightarrow>
    if {unat sb..<unat sb + 2 ^ unat so} \<inter> {unat rb..<unat rb + 2 ^ unat ro} = {} then o' = NOT 0
    else o' \<noteq> NOT 0 \<and> {unat b..<unat b + 2 ^ unat o'} =
      {unat sb..<unat sb + 2 ^ unat so} \<inter> {unat rb..<unat rb + 2 ^ unat ro}"
proof (cases "unat sb < unat rb + 2 ^ unat ro \<and> unat rb < unat sb + 2 ^ unat so")
  case True
  have ne: "so \<noteq> NOT 0" "ro \<noteq> NOT 0" using min_order[OF assms(3), of so] min_order[OF assms(4), of ro] by simp_all
  have "max (unat sb) (unat rb) \<in> {unat sb..<unat sb + 2 ^ unat so} \<inter> {unat rb..<unat rb + 2 ^ unat ro}" using True by auto
  then have nn: "{unat sb..<unat sb + 2 ^ unat so} \<inter> {unat rb..<unat rb + 2 ^ unat ro} \<noteq> {}" by blast
  show ?thesis
  proof (cases "unat so \<le> unat ro")
    case le: True
    then show ?thesis using block_inside[OF assms(1,2) le] True ne nn clamp_block[OF assms] by auto
  next
    case False
    then show ?thesis using block_inside[OF assms(2,1)] True ne nn clamp_block[OF assms] by auto
  qed
qed (auto simp: clamp_block[OF assms])

theorem clamp_meets_witness: "case clamp 0x30 0x20 3 5 of (o', b) \<Rightarrow> {unat b..<unat b + 2 ^ unat o'} = {0x30..<0x38}"
  using clamp_meets[of 3 "0x30" 5 "0x20"] by (simp split: prod.splits)

text \<open>C36: pio_window_ignored. The receive window of a delegation of I/O ports is not enforced:
  when the range offered and the window have nothing in common, \<open>del_crd\<close> still delegates, with the
  order \<open>~0UL\<close>, for which every mapping of the sender passes the range check.\<close>
theorem pio_window_ignored:
  assumes "crd_type crd = Crd_PIO" "crd_type del = Crd_PIO" "ucast (crd_attr crd AND crd_attr del) = a" "a \<noteq> 0"
    and "clamp (crd_base crd) (crd_base del) (ucast (crd_order crd)) (ucast (crd_order del)) = (NOT 0, crd_base del)"
  shows "del_crd e k r this pd del crd sub hot s =
      bind_result (delegate e k r PIO_SPC this pd (crd_base del) (crd_base del) (NOT 0) a sub s) (\<lambda>(f, s').
        Inr (Crd_make Crd_PIO (crd_base del) (NOT 0) a, s')) \<and>
    (\<forall>n. unat (node_order s n) < 64 \<longrightarrow>
       clamp (node_base s n) (crd_base del) (node_order s n) (NOT 0) = (node_order s n, crd_base del OR node_base s n))"
proof (intro conjI allI impI)
  have ne: "Crd_PIO \<noteq> Crd_MEM" "Crd_PIO \<noteq> Crd_OBJ" by (simp_all add: Crd_PIO_def Crd_MEM_def Crd_OBJ_def)
  show "del_crd e k r this pd del crd sub hot s =
      bind_result (delegate e k r PIO_SPC this pd (crd_base del) (crd_base del) (NOT 0) a sub s) (\<lambda>(f, s').
        Inr (Crd_make Crd_PIO (crd_base del) (NOT 0) a, s'))"
    using assms ne by (cases "delegate e k r PIO_SPC this pd (crd_base del) (crd_base del) (NOT 0) a sub s")
      (auto simp: del_crd_def Let_def)
  fix n assume "unat (node_order s n) < 64"
  have m: "unat (- 1 :: mword) = 18446744073709551615" by (simp add: unsigned_minus_1_eq_mask mask_eq_exp_minus_1)
  have "max (node_order s n) (NOT 0) = (NOT 0 :: mword)" "min (node_order s n) (NOT 0) = node_order s n"
    by (simp_all add: max_def min_def)
  moreover have "drop_bit (unat (NOT 0 :: mword)) (node_base s n XOR crd_base del) = 0"
    by (rule bit_word_eqI) (auto simp: m bit_simps dest: bit_imp_le_length)
  ultimately show "clamp (node_base s n) (crd_base del) (node_order s n) (NOT 0) = (node_order s n, crd_base del OR node_base s n)"
    by (simp add: clamp_def del: drop_bit_xor)
qed

theorem pio_window_ignored_witness:
  "\<forall>s :: (nat, nat, unit) pdst. let s' = s\<lparr>node_base := \<lambda>_. 0x20, node_order := \<lambda>_. 2\<rparr>
     in clamp (node_base s' 1) 0x60 (node_order s' 1) (NOT 0) = (2, 0x60)"
proof
  fix s :: "(nat, nat, unit) pdst"
  let ?crd = "Crd_make Crd_PIO 0x20 0 3" and ?del = "Crd_make Crd_PIO 0x60 0 3"
  let ?s = "s\<lparr>node_base := \<lambda>_. 0x20, node_order := \<lambda>_. 2\<rparr>"
  have c: "crd_type ?crd = Crd_PIO" "crd_type ?del = Crd_PIO" "(ucast (crd_attr ?crd AND crd_attr ?del) :: mword) = 3"
    "crd_base ?del = 0x60" "clamp (crd_base ?crd) (crd_base ?del) (ucast (crd_order ?crd)) (ucast (crd_order ?del)) = (NOT 0, crd_base ?del)"
    by (simp_all add: Crd_make_def Crd_PIO_def crd_type_def crd_base_def crd_attr_def crd_order_def clamp_def)
  show "let s' = ?s in clamp (node_base s' 1) 0x60 (node_order s' 1) (NOT 0) = (2, 0x60)"
    using pio_window_ignored[OF c(1-3) _ c(5), of undefined 0 0 0 0 0 0 ?s] unfolding c(4) Let_def by simp
qed

subsection \<open>Spaces and delegation trees together\<close>

text \<open>
  \<open>spaces_ok j s T\<close>: the trees \<open>T\<close> hold the mappings of all spaces, each mapping is in one
  space only, and no space has \<open>2 ^ j\<close> mappings or more, so that \<open>2 * j + 2\<close> rounds are enough.
\<close>

definition spaces_ok :: "nat \<Rightarrow> ('n, 's, 'x) mdb_scheme \<Rightarrow> ('s \<Rightarrow> 'n tree) \<Rightarrow> bool" where
  "spaces_ok j s T \<longleftrightarrow> (\<forall>sp. space_tree s sp (T sp) \<and> size (T sp) < 2 ^ j) \<and>
     (\<forall>sp sp'. sp \<noteq> sp' \<longrightarrow> set_tree (T sp) \<inter> set_tree (T sp') = {})"

lemma space_tree_cong:
  assumes "lnk s' = lnk s" "bal s' = bal s" "root s' = root s" "node_base s' = node_base s" "node_order s' = node_order s"
  shows "space_tree s' sp t = space_tree s sp t"
proof -
  have "avl_at s' q t = avl_at s q t" for q by (rule avl_at_cong) (simp add: assms)
  moreover have "bal_ok s' t = bal_ok s t" by (rule bal_ok_cong) (simp add: assms)
  ultimately show ?thesis using assms by (simp add: space_tree_def mdb_equal_def)
qed

lemma spaces_ok_cong:
  "lnk s' = lnk s \<Longrightarrow> bal s' = bal s \<Longrightarrow> root s' = root s \<Longrightarrow> node_base s' = node_base s \<Longrightarrow>
   node_order s' = node_order s \<Longrightarrow> spaces_ok j s' T = spaces_ok j s T"
  using space_tree_cong[of s' s] by (simp add: spaces_ok_def)

lemma space_tree_size: "space_tree s sp t \<Longrightarrow> size t = card (set_tree t)"
proof -
  assume "space_tree s sp t"
  then have "distinct_tree t" using mdb_order.search_tree_distinct[of s t]
    unfolding space_tree_at mdb_order.tree_at_def by blast
  then show ?thesis by (metis distinct_card distinct_inorder length_inorder set_inorder)
qed

lemma space_tree_frame:
  assumes "space_tree s sp' t" "frame (Root sp) A s s'" "sp' \<noteq> sp" "set_tree t \<inter> A = {}"
  shows "space_tree s' sp' t"
proof -
  have "root s' sp' = root s sp'" using frame_deref[OF assms(2), of "Root sp'"] assms(3) by simp
  moreover have "avl_at s' (root s sp') t"
    using assms(1) by (intro frame_avl_at[OF _ assms(2) assms(4)]) (auto simp: space_tree_def)
  moreover have "bal_ok s' t" using assms(1) frame_bal_ok[OF _ assms(2,4)] by (auto simp: space_tree_def)
  ultimately show ?thesis
    using assms(1) more_fields[OF frame_more[OF assms(2)]] by (simp add: space_tree_def)
qed

lemma tree_remove_spaces:
  assumes "spaces_ok j s T" "mspace s n = Some sp" "n \<in> set_tree (T sp)"
  shows "\<exists>s' T'. space_tree_remove (2 * j + 2) n s = Inr (True, s') \<and> spaces_ok j s' T' \<and>
           (\<forall>sp'. set_tree (T' sp') = set_tree (T sp') - {n}) \<and> avl.more s' = avl.more s"
proof -
  have sp: "space_tree s sp (T sp)" "size (T sp) < 2 ^ j" using assms(1) by (auto simp: spaces_ok_def)
  obtain s' t' where s': "space_tree_remove (2 * j + 2) n s = Inr (True, s')" "space_tree s' sp t'"
    "set_tree t' = set_tree (T sp) - {n}" "frame (Root sp) (set_tree (T sp)) s s'"
    using space_remove_ok[OF sp(1) assms(2,3) space_tree_height[OF sp]] by blast
  let ?T = "T(sp := t')"
  have sets: "set_tree (?T sp') = set_tree (T sp') - {n}" for sp'
  proof (cases "sp' = sp")
    case False
    then have "set_tree (T sp') \<inter> set_tree (T sp) = {}" using assms(1) by (auto simp: spaces_ok_def)
    then show ?thesis using False assms(3) by auto
  qed (use s'(3) in simp)
  have "card (set_tree t') \<le> card (set_tree (T sp))" unfolding s'(3) by (rule card_Diff1_le)
  then have "size t' < 2 ^ j" using sp space_tree_size[OF sp(1)] space_tree_size[OF s'(2)] by linarith
  moreover have "space_tree s' sp' (T sp')" if "sp' \<noteq> sp" for sp'
    using space_tree_frame[OF _ s'(4) that] assms(1) that by (auto simp: spaces_ok_def)
  ultimately have "space_tree s' sp' (?T sp') \<and> size (?T sp') < 2 ^ j" for sp'
    using s'(2) assms(1) by (cases "sp' = sp") (auto simp: spaces_ok_def)
  moreover have "set_tree (?T sp1) \<inter> set_tree (?T sp2) = {}" if "sp1 \<noteq> sp2" for sp1 sp2
    using assms(1) that unfolding sets spaces_ok_def by blast
  ultimately have "spaces_ok j s' ?T" unfolding spaces_ok_def by blast
  then show ?thesis using s'(1,4) sets frame_more by blast
qed

end
