(* ===== verification/Revoke.thy ===== *)
theory Revoke
  imports Pd
begin

text \<open>
  What \<open>Pd::revoke\<close> does to delegation trees and spaces. The tables behind a space, which
  \<open>S::update\<close> changes, enter through the locale \<open>backend\<close>: an update of a mapping that
  is installed returns, leaves the mapping database alone and keeps what is installed.
\<close>

subsection \<open>Pruning a delegation tree\<close>

text \<open>
  What remains of the nodes \<open>ys\<close> in front of \<open>rest\<close> when, from the back, each node
  without rights and without a node derived from it is taken out.
\<close>

fun prune :: "('n, 's, 'x) mdb_scheme \<Rightarrow> 'n list \<Rightarrow> 'n list \<Rightarrow> 'n list" where
  "prune s [] rest = rest"
| "prune s (y # ys) rest =
     (let zs = prune s ys rest in if node_attr s y = 0 \<and> below s y zs = [] then zs else y # zs)"

lemma prune_append: "prune s (xs @ ys) rest = prune s xs (prune s ys rest)"
  by (induction xs) (auto simp: Let_def)

lemma prune_cong:
  "node_attr s' = node_attr s \<Longrightarrow> dpth s' = dpth s \<Longrightarrow> prune s' ys rest = prune s ys rest"
  by (induction ys) (auto simp: Let_def below_def)

lemma prune_sub: "set rest \<subseteq> set (prune s ys rest)" "set (prune s ys rest) \<subseteq> set ys \<union> set rest"
  by (induction ys) (auto simp: Let_def)

lemma prune_length: "length (prune s ys rest) \<le> length ys + length rest"
  by (induction ys) (auto simp: Let_def)

lemma below_prune_nil:
  assumes "below s y rest = []"
  shows "below s y (prune s ys rest) = [] \<longleftrightarrow> (\<forall>z \<in> set (below s y ys). node_attr s z = 0)"
  using assms
proof (induction ys)
  case Nil then show ?case by (simp add: below_def)
next
  case (Cons z ys)
  show ?case
  proof (cases "dpth s y < dpth s z")
    case False
    have "prune s (z # ys) rest = z # prune s ys rest \<or> prune s (z # ys) rest = prune s ys rest \<and> below s z (prune s ys rest) = []"
      by (auto simp: Let_def)
    moreover have "below s y v = []" if "below s z v = []" for v
      using that False by (cases v) (auto simp: below_def split: if_splits)
    ultimately show ?thesis using False by (auto simp: below_def)
  next
    case True
    then have "below s y (z # ys) = z # below s y ys" by (simp add: below_def)
    moreover have "below s y v = [] \<Longrightarrow> below s z v = []" for v
      using True by (cases v) (auto simp: below_def split: if_splits)
    ultimately show ?thesis using Cons True by (auto simp: Let_def below_def)
  qed
qed

lemma prune_kept:
  assumes "distinct (ys @ rest)" "\<forall>y \<in> set ys. below s y rest = []" "y \<in> set ys"
    and "ys = us @ y # vs"
  shows "y \<in> set (prune s ys rest) \<longleftrightarrow> node_attr s y \<noteq> 0 \<or> (\<exists>z \<in> set (below s y vs). node_attr s z \<noteq> 0)"
proof -
  have u: "y \<notin> set us" "y \<notin> set vs" "y \<notin> set rest" using assms(1,4) by auto
  have p: "y \<in> set (prune s us zs) \<longleftrightarrow> y \<in> set zs" for zs using u(1) by (induction us) (auto simp: Let_def)
  have "y \<notin> set (prune s vs rest)" using u prune_sub(2)[of s vs rest] by auto
  then show ?thesis using below_prune_nil[of s y rest vs] assms(2,3) by (auto simp: assms(4) prune_append p Let_def)
qed

subsection \<open>The backend of a space\<close>

definition same_mdb :: "('n, 's, 'x) mdb_scheme \<Rightarrow> ('n, 's, 'x) mdb_scheme \<Rightarrow> bool" where
  "same_mdb s s' \<longleftrightarrow> mdb.truncate s' = mdb.truncate s"

lemma same_mdb_fields:
  assumes "same_mdb s s'"
  shows "lnk s' = lnk s" "bal s' = bal s" "root s' = root s" "node_base s' = node_base s"
    "node_order s' = node_order s" "node_attr s' = node_attr s" "node_phys s' = node_phys s"
    "node_type s' = node_type s" "node_sub s' = node_sub s" "mlinks s' = mlinks s" "dpth s' = dpth s"
    "prnt s' = prnt s" "mspace s' = mspace s"
  using assms by (cases s; cases s'; simp add: same_mdb_def mdb.truncate_def)+

locale backend =
  fixes e :: "('n, 'p, 'b) pd_env" and kern :: 'p and kinds :: "spkind set"
    and installed :: "('n, 'p, 'b) pdst \<Rightarrow> 'n \<Rightarrow> bool"
  assumes update_installed:
      "S \<in> kinds \<Longrightarrow> installed s n \<Longrightarrow> mspace s n = Some (p, S) \<Longrightarrow> p \<noteq> kern \<Longrightarrow> a \<noteq> 0 \<Longrightarrow>
       \<exists>f s'. env_update e S None n a s = Inr (f, s') \<and> same_mdb s s' \<and> pd_preempt s' = pd_preempt s \<and>
         pd_rcu s' = pd_rcu s \<and> (\<forall>m. installed s m \<longrightarrow> installed s' m)"
    and installed_cong:
      "pd_back s' = pd_back s \<Longrightarrow> mspace s' = mspace s \<Longrightarrow> node_base s' = node_base s \<Longrightarrow>
       node_order s' = node_order s \<Longrightarrow> node_sub s' = node_sub s \<Longrightarrow> installed s' m = installed s m"
begin

text \<open>The rights \<open>a\<close> are taken from the nodes \<open>A\<close>.\<close>

definition demoted :: "'n set \<Rightarrow> mword \<Rightarrow> ('n, 'p, 'b) pdst \<Rightarrow> ('n, 'p, 'b) pdst \<Rightarrow> bool" where
  "demoted A a s s' \<longleftrightarrow>
     mdb.truncate s' = (mdb.truncate s)\<lparr>node_attr := \<lambda>n. if n \<in> A then node_attr s n AND NOT a else node_attr s n\<rparr> \<and>
     pd_preempt s' = pd_preempt s \<and> pd_rcu s' = pd_rcu s \<and> (\<forall>m. installed s m \<longrightarrow> installed s' m)"

lemma demoted_fields:
  assumes "demoted A a s s'"
  shows "lnk s' = lnk s" "bal s' = bal s" "root s' = root s" "node_base s' = node_base s"
    "node_order s' = node_order s" "node_phys s' = node_phys s"
    "node_type s' = node_type s" "node_sub s' = node_sub s" "mlinks s' = mlinks s" "dpth s' = dpth s"
    "prnt s' = prnt s" "mspace s' = mspace s"
    "node_attr s' n = (if n \<in> A then node_attr s n AND NOT a else node_attr s n)"
  using assms by (cases s; cases s'; auto simp: demoted_def mdb.truncate_def)+

lemma demoted_empty [simp]: "demoted {} a s s"
  by (cases s) (simp add: demoted_def mdb.truncate_def)

lemma demoted_idle: "node_attr s n AND a = 0 \<Longrightarrow> demoted {n} a s s"
proof -
  assume z: "node_attr s n AND a = 0"
  have "node_attr s n = node_attr s n AND NOT a"
  proof (rule bit_word_eqI)
    fix i
    show "bit (node_attr s n) i = bit (node_attr s n AND NOT a) i"
      using arg_cong[OF z, of "\<lambda>w. bit w i"] by (auto simp: bit_simps dest: bit_imp_le_length)
  qed
  then have "(\<lambda>m. if m \<in> {n} then node_attr s m AND NOT a else node_attr s m) = node_attr s" by auto
  then show ?thesis unfolding demoted_def by (simp only:) (cases s, simp add: mdb.truncate_def)
qed

lemma demoted_trans:
  assumes "demoted A a s s'" "demoted B a s' s''" shows "demoted (A \<union> B) a s s''"
proof -
  have "(\<lambda>n. if n \<in> A \<union> B then node_attr s n AND NOT a else node_attr s n) =
        (\<lambda>n. if n \<in> B then node_attr s' n AND NOT a else node_attr s' n)"
    by (auto simp: fun_eq_iff demoted_fields(13)[OF assms(1)] and.assoc)
  then show ?thesis using assms by (simp add: demoted_def)
qed

lemma demote_one_ok:
  assumes "S \<in> kinds" "installed s n" "mspace s n = Some (p, S)" "p \<noteq> kern" "a \<noteq> 0"
  shows "\<exists>s'. demote_one e this S x a n s = Inr s' \<and> demoted {n} a s s'"
proof -
  let ?h = "if node_sub s x AND 1 \<noteq> 0 then set_hz HZD_IOMMU s else s"
  let ?s = "guard_new ?h"
  have st: "mdb.truncate ?s = mdb.truncate s" "pd_preempt ?s = pd_preempt s" "pd_rcu ?s = pd_rcu s"
    "mspace ?s = mspace s" "pd_back ?s = pd_back s" "node_base ?s = node_base s" "node_order ?s = node_order s"
    "node_sub ?s = node_sub s"
    by (cases s; simp add: guard_new_def set_hz_def mdb.truncate_def)+
  have i: "installed ?s m = installed s m" for m by (rule installed_cong) (simp_all add: st)
  obtain f s1 where u: "env_update e S None n a ?s = Inr (f, s1)" "same_mdb ?s s1" "pd_preempt s1 = pd_preempt s"
    "pd_rcu s1 = pd_rcu s" "\<forall>m. installed s m \<longrightarrow> installed s1 m"
    using update_installed[of S ?s n p a] assms i st by auto
  let ?t = "guard_end this (demote_node n a s1)"
  have "installed ?t m = installed s1 m" for m
    by (rule installed_cong) (simp_all add: guard_end_def demote_node_def)
  moreover have "mdb.truncate s1 = mdb.truncate s" using u(2) st(1) by (simp add: same_mdb_def)
  ultimately have "demoted {n} a s ?t"
    using u by (cases s; cases s1) (auto simp: demoted_def guard_end_def demote_node_def mdb.truncate_def fun_eq_iff)
  then show ?thesis using u(1) by (intro exI[of _ ?t]) (simp add: demote_one_def Let_def)
qed

lemma demote_run:
  assumes "ring (mlinks s) (us @ n # vs)" "dpth s (hd (us @ [n])) \<le> d" "length (takeWhile (\<lambda>y. d < dpth s y) vs) < r"
    and "\<forall>y \<in> insert n (set (takeWhile (\<lambda>y. d < dpth s y) vs)). installed s y \<and> (\<exists>p. mspace s y = Some (p, S) \<and> p \<noteq> kern)"
    and "a \<noteq> 0" "S \<in> kinds"
  shows "\<exists>s'. revoke_demote e r this S x b o' a True d True n s = Inr (last (n # takeWhile (\<lambda>y. d < dpth s y) vs), s') \<and>
           demoted (insert n (set (takeWhile (\<lambda>y. d < dpth s y) vs))) a s s'"
  using assms
proof (induction vs arbitrary: us n s r)
  case (Nil us n s r)
  obtain r' where r: "r = Suc r'" using Nil.prems(3) by (cases r) auto
  obtain s1 where s1: "(if True \<and> node_attr s n AND a \<noteq> 0 then demote_one e this S x a n s else Inr s) = Inr s1"
    "demoted {n} a s s1"
    using demote_one_ok[of S s n _ a this x] demoted_idle[of s n a] Nil.prems(4-6) by (cases "node_attr s n AND a = 0") auto
  have "lnext (mlinks s1) n = Some (hd (us @ [n]))"
    using ring_next_prev(1)[of "mlinks s" n us] ring_rotate[OF Nil.prems(1)] demoted_fields(9)[OF s1(2)] by simp
  then show ?case using s1 Nil.prems(2) demoted_fields(10)[OF s1(2)] by (auto simp: r)
next
  case (Cons v vs us n s r)
  obtain r' where r: "r = Suc r'" using Cons.prems(3) by (cases r) auto
  obtain s1 where s1: "(if True \<and> node_attr s n AND a \<noteq> 0 then demote_one e this S x a n s else Inr s) = Inr s1"
    "demoted {n} a s s1"
    using demote_one_ok[of S s n _ a this x] demoted_idle[of s n a] Cons.prems(4-6) by (cases "node_attr s n AND a = 0") auto
  note f = demoted_fields[OF s1(2)]
  have nx: "lnext (mlinks s1) n = Some v"
    using ring_next_prev(1)[of "mlinks s" n "v # vs @ us"] ring_rotate[OF Cons.prems(1)] f(9) by simp
  show ?case
  proof (cases "d < dpth s v")
    case False
    then have "takeWhile (\<lambda>y. d < dpth s y) (v # vs) = []" "dpth s1 v \<le> d" by (simp_all add: f(10))
    then show ?thesis using s1 nx by (simp only: list.set(1)) (auto simp: r)
  next
    case True
    have "\<exists>s'. revoke_demote e r' this S x b o' a True d True v s1 = Inr (last (v # takeWhile (\<lambda>y. d < dpth s1 y) vs), s') \<and>
           demoted (insert v (set (takeWhile (\<lambda>y. d < dpth s1 y) vs))) a s1 s'"
    proof (rule Cons.IH[of s1 "us @ [n]"])
      show "dpth s1 (hd ((us @ [n]) @ [v])) \<le> d" using Cons.prems(2) by (cases us) (auto simp: f(10))
      have "\<forall>m. installed s m \<longrightarrow> installed s1 m" using s1(2) by (simp add: demoted_def)
      then show "\<forall>y \<in> insert v (set (takeWhile (\<lambda>y. d < dpth s1 y) vs)). installed s1 y \<and>
          (\<exists>p. mspace s1 y = Some (p, S) \<and> p \<noteq> kern)"
        using Cons.prems(4) True by (auto simp: f(10,12))
    qed (use Cons.prems(1,3,5,6) True in \<open>simp_all add: f(9,10) r\<close>)
    then obtain s' where s': "revoke_demote e r' this S x b o' a True d True v s1 = Inr (last (v # takeWhile (\<lambda>y. d < dpth s y) vs), s')"
      "demoted (insert v (set (takeWhile (\<lambda>y. d < dpth s y) vs))) a s1 s'" unfolding f(10) by blast
    have "demoted (insert n (set (takeWhile (\<lambda>y. d < dpth s y) (v # vs)))) a s s'"
      using demoted_trans[OF s1(2) s'(2)] True by (simp add: insert_commute)
    then show ?thesis using s1(1) s'(1) nx True f(10) by (auto simp: r not_le)
  qed
qed

end

subsection \<open>The way back\<close>

text \<open>
  What removing nodes may change: the links of the list, the links of the trees, the nodes
  handed to RCU.
\<close>

definition removed :: "('n, 'p, 'b) pdst \<Rightarrow> ('n, 'p, 'b) pdst \<Rightarrow> bool" where
  "removed s s' \<longleftrightarrow> node_attr s' = node_attr s \<and> node_base s' = node_base s \<and> node_order s' = node_order s \<and>
     node_phys s' = node_phys s \<and> node_sub s' = node_sub s \<and> node_type s' = node_type s \<and> dpth s' = dpth s \<and> prnt s' = prnt s \<and>
     mspace s' = mspace s \<and> pd_back s' = pd_back s \<and> pd_preempt s' = pd_preempt s \<and> pd_hazard s' = pd_hazard s"

lemma removed_refl [simp]: "removed s s"
  by (simp add: removed_def)

lemma removed_trans: "removed s s' \<Longrightarrow> removed s' s'' \<Longrightarrow> removed s s''"
  by (simp add: removed_def)

definition links_kept :: "'n set \<Rightarrow> ('n, 's, 'x) mdb_scheme \<Rightarrow> ('n, 's, 'x) mdb_scheme \<Rightarrow> bool" where
  "links_kept A s s' \<longleftrightarrow> (\<forall>m. m \<notin> A \<longrightarrow> lnext (mlinks s') m = lnext (mlinks s) m \<and> lprev (mlinks s') m = lprev (mlinks s) m)"

lemma more_pd:
  assumes "avl.more s' = avl.more (s :: ('n, 'p, 'b) pdst)"
  shows "removed s s'" "pd_rcu s' = pd_rcu s" "pd_quota s' = pd_quota s"
  using assms by (cases s; cases s'; auto simp: removed_def)+

lemma delegation_prev: "delegation s (as @ p # x # bs) \<Longrightarrow> lprev (mlinks s) x = Some p"
  using ring_next_prev(2)[of "mlinks s" x "bs @ as @ [p]"] ring_rotate[of "mlinks s" "as @ [p]" "x # bs"]
  by (simp add: delegation_def)

lemma remove_one_ok:
  assumes d: "delegation s (as @ n # rest)" and ok: "spaces_ok j s T"
    and sp: "mspace s n = Some sp" "n \<in> set_tree (T sp)"
  shows "\<exists>s' T'. remove_one (2 * j + 2) n True s = Inr s' \<and> delegation s' (as @ prune s [n] rest) \<and> removed s s' \<and>
      spaces_ok j s' T' \<and> (\<forall>sp. set_tree (T' sp) = set_tree (T sp) - (set [n] - set (prune s [n] rest))) \<and>
      pd_rcu s' = pd_rcu s @ filter (\<lambda>m. m \<notin> set (prune s [n] rest)) [n] \<and>
      links_kept (set (as @ n # rest)) s s' \<and> lprev (mlinks s') n = lprev (mlinks s) n"
proof (cases "node_attr s n = 0 \<and> below s n rest = []")
  case False
  then have "remove_node n True s = Inr (False, s)" using remove_leaf_ok(2)[OF d] by blast
  then show ?thesis using False d ok by (intro exI[of _ s] exI[of _ T]) (auto simp: remove_one_def links_kept_def)
next
  case True
  then have "node_attr s n = 0" "below s n rest = []" by auto
  from remove_leaf_ok(1)[OF d this] obtain l where l: "remove_node n True s = Inr (True, s\<lparr>mlinks := l\<rparr>)" "delegation (s\<lparr>mlinks := l\<rparr>) (as @ rest)"
    "lprev l n = lprev (mlinks s) n"
    "\<forall>m. m \<notin> set (as @ n # rest) \<longrightarrow> lnext l m = lnext (mlinks s) m \<and> lprev l m = lprev (mlinks s) m" by blast
  let ?s = "s\<lparr>mlinks := l\<rparr>"
  have "spaces_ok j ?s T = spaces_ok j s T" by (rule spaces_ok_cong) simp_all
  with ok have "spaces_ok j ?s T" by blast
  then have "\<exists>s' T'. space_tree_remove (2 * j + 2) n ?s = Inr (True, s') \<and> spaces_ok j s' T' \<and>
      (\<forall>sp'. set_tree (T' sp') = set_tree (T sp') - {n}) \<and> avl.more s' = avl.more ?s"
    by (rule tree_remove_spaces) (use sp in simp_all)
  then obtain s1 T' where s1: "space_tree_remove (2 * j + 2) n ?s = Inr (True, s1)" "spaces_ok j s1 T'"
    "\<forall>sp'. set_tree (T' sp') = set_tree (T sp') - {n}" "avl.more s1 = avl.more ?s" by blast
  let ?t = "rcu_call n s1"
  have mf: "mlinks s1 = l" "dpth s1 = dpth s" "prnt s1 = prnt s" using more_fields[OF s1(4)] by simp_all
  have "remove_one (2 * j + 2) n True s = Inr ?t" using l(1) s1(1) by (simp add: remove_one_def node_gone_def)
  moreover have "delegation ?t (as @ rest)"
    using l(2) family_cong[of "[]" "as @ rest" ?t ?s] mf by (simp add: delegation_def rcu_call_def)
  moreover have "removed s ?t" using more_pd(1)[OF s1(4)] by (simp add: removed_def rcu_call_def)
  moreover have "spaces_ok j ?t T'" using s1(2) spaces_ok_cong[of ?t s1 j T'] by (simp add: rcu_call_def)
  moreover have "distinct (as @ n # rest)" using d ring_distinct[of "mlinks s" "as @ n # rest"] by (simp add: delegation_def)
  ultimately show ?thesis
    using True s1(3) l(3,4) mf more_pd(2)[OF s1(4)] by (intro exI[of _ ?t] exI[of _ T']) (auto simp: rcu_call_def links_kept_def)
qed

text \<open>The outcome of the way back over the nodes \<open>ys\<close> in front of \<open>rest\<close>.\<close>

definition pruned :: "nat \<Rightarrow> 'n list \<Rightarrow> 'n list \<Rightarrow> 'n list \<Rightarrow> ('n, 'p, 'b) pdst \<Rightarrow> ('p space \<Rightarrow> 'n tree) \<Rightarrow>
  ('n, 'p, 'b) pdst \<Rightarrow> ('p space \<Rightarrow> 'n tree) \<Rightarrow> bool" where
  "pruned j as ys rest s T s' T' \<longleftrightarrow> delegation s' (as @ prune s ys rest) \<and> removed s s' \<and> spaces_ok j s' T' \<and>
     (\<forall>sp. set_tree (T' sp) = set_tree (T sp) - (set ys - set (prune s ys rest))) \<and>
     pd_rcu s' = pd_rcu s @ rev (filter (\<lambda>m. m \<notin> set (prune s ys rest)) ys) \<and>
     links_kept (set (as @ ys @ rest)) s s'"

lemma delegation_cong:
  assumes "mlinks s' = mlinks s" "dpth s' = dpth s" "prnt s' = prnt s"
  shows "delegation s' xs = delegation s xs"
  using family_cong[of "[]" xs s' s] assms by (simp add: delegation_def)

lemma remove_step_ok:
  assumes d: "delegation s (as @ n # rest)" and ok: "spaces_ok j s T"
    and sp: "mspace s n = Some sp" "n \<in> set_tree (T sp)"
  shows "\<exists>s1 T'. remove_one (2 * j + 2) n True (if pd_preempt s then s\<lparr>pd_preempt := False\<rparr> else s) = Inr s1 \<and>
     pruned j as [n] rest s T (if pd_preempt s then s1\<lparr>pd_preempt := True\<rparr> else s1) T' \<and>
     lprev (mlinks s1) n = lprev (mlinks s) n"
proof -
  let ?s = "if pd_preempt s then s\<lparr>pd_preempt := False\<rparr> else s"
  have "delegation ?s (as @ n # rest)" using d by (subst delegation_cong[of _ s]) simp_all
  moreover have "spaces_ok j ?s T" using ok by (subst spaces_ok_cong[of _ s]) simp_all
  moreover have p: "prune ?s [n] rest = prune s [n] rest" by (rule prune_cong) simp_all
  moreover have "mspace ?s n = Some sp" using sp by simp
  ultimately obtain s1 T' where s1: "remove_one (2 * j + 2) n True ?s = Inr s1" "delegation s1 (as @ prune s [n] rest)"
    "removed ?s s1" "spaces_ok j s1 T'" "\<forall>sp. set_tree (T' sp) = set_tree (T sp) - (set [n] - set (prune s [n] rest))"
    "pd_rcu s1 = pd_rcu s @ filter (\<lambda>m. m \<notin> set (prune s [n] rest)) [n]"
    "links_kept (set (as @ n # rest)) s s1" "lprev (mlinks s1) n = lprev (mlinks s) n"
    using remove_one_ok[of ?s as n rest j T sp] sp by (auto simp: links_kept_def)
  let ?t = "if pd_preempt s then s1\<lparr>pd_preempt := True\<rparr> else s1"
  have "delegation ?t (as @ prune s [n] rest)" using s1(2) by (subst delegation_cong[of _ s1]) simp_all
  moreover have "spaces_ok j ?t T'" using s1(4) by (subst spaces_ok_cong[of _ s1]) simp_all
  moreover have "removed s ?t" using s1(3) by (auto simp: removed_def split: if_splits)
  ultimately have "pruned j as [n] rest s T ?t T'" using s1(5-7) by (simp add: pruned_def links_kept_def)
  then show ?thesis using s1(1,8) by blast
qed

lemma pruned_trans:
  assumes "pruned j (as @ ys) [n] rest s T s1 T1" "pruned j as ys (prune s [n] rest) s1 T1 s2 T2" "n \<notin> set ys"
  shows "pruned j as (ys @ [n]) rest s T s2 T2"
proof -
  let ?r = "prune s [n] rest" and ?P = "prune s ys (prune s [n] rest)"
  have c: "prune s1 zs r = prune s zs r" for zs r
    using assms(1) by (intro prune_cong) (auto simp: pruned_def removed_def)
  have a: "prune s (ys @ [n]) rest = ?P" by (simp only: prune_append)
  have n: "n \<in> set ?P \<longleftrightarrow> n \<in> set ?r" using prune_sub[where s = s and ys = ys and rest = ?r] assms(3) by blast
  have rs: "set ?r \<subseteq> insert n (set rest)" using prune_sub(2)[of s "[n]" rest] by auto
  have "set_tree (T2 sp) = set_tree (T sp) - (set (ys @ [n]) - set ?P)" for sp
  proof -
    have "set_tree (T1 sp) = set_tree (T sp) - (set [n] - set ?r)" "set_tree (T2 sp) = set_tree (T1 sp) - (set ys - set ?P)"
      using assms(1,2) unfolding pruned_def c by blast+
    then show ?thesis using n by (simp del: prune.simps) blast
  qed
  moreover have "links_kept (set (as @ (ys @ [n]) @ rest)) s s2"
    using assms(1,2) rs unfolding pruned_def links_kept_def c by (auto simp del: prune.simps)
  moreover have "removed s s2" using assms removed_trans by (auto simp: pruned_def)
  ultimately show ?thesis using assms(1,2) n unfolding pruned_def a c by simp
qed

lemma remove_run:
  assumes "delegation s (as @ (x # ys) @ rest)" "spaces_ok j s T"
    and "\<forall>y \<in> set (x # ys). \<exists>sp. mspace s y = Some sp \<and> y \<in> set_tree (T sp)"
    and "\<forall>y \<in> set ys. d < dpth s y" "dpth s x \<le> d" "length ys < r"
  shows "\<exists>s' T'. revoke_remove (2 * j + 2) r d (last (x # ys)) s = Inr (x, s') \<and> pruned j as (x # ys) rest s T s' T'"
  using assms
proof (induction ys arbitrary: s T rest r rule: rev_induct)
  case Nil
  obtain r' where r: "r = Suc r'" using Nil.prems(6) by (cases r) auto
  obtain sp where sp: "mspace s x = Some sp" "x \<in> set_tree (T sp)" using Nil.prems(3) by auto
  obtain s1 T' where s1: "remove_one (2 * j + 2) x True (if pd_preempt s then s\<lparr>pd_preempt := False\<rparr> else s) = Inr s1"
    "pruned j as [x] rest s T (if pd_preempt s then s1\<lparr>pd_preempt := True\<rparr> else s1) T'"
    using remove_step_ok[OF _ Nil.prems(2) sp, of as rest] Nil.prems(1) by auto
  have "dpth (if pd_preempt s then s1\<lparr>pd_preempt := True\<rparr> else s1) = dpth s" using s1(2) by (auto simp: pruned_def removed_def)
  then show ?case using s1 Nil.prems(5) r by (auto simp: Let_def)
next
  case (snoc y ys)
  obtain r' where r: "r = Suc r'" "length ys < r'" using snoc.prems(6) by (cases r) auto
  obtain sp where sp: "mspace s y = Some sp" "y \<in> set_tree (T sp)" using snoc.prems(3) by auto
  have dl: "delegation s ((as @ x # ys) @ y # rest)" using snoc.prems(1) by simp
  obtain s1 T1 where s1: "remove_one (2 * j + 2) y True (if pd_preempt s then s\<lparr>pd_preempt := False\<rparr> else s) = Inr s1"
    "pruned j (as @ x # ys) [y] rest s T (if pd_preempt s then s1\<lparr>pd_preempt := True\<rparr> else s1) T1"
    "lprev (mlinks s1) y = lprev (mlinks s) y"
    using remove_step_ok[OF dl snoc.prems(2) sp] by auto
  let ?t = "if pd_preempt s then s1\<lparr>pd_preempt := True\<rparr> else s1"
  have f: "dpth ?t = dpth s" "mspace ?t = mspace s" using s1(2) by (auto simp: pruned_def removed_def)
  have yx: "y \<notin> set (x # ys)" using dl ring_distinct[of "mlinks s" "(as @ x # ys) @ y # rest"] by (auto simp: delegation_def)
  have "lprev (mlinks s) y = Some (last (x # ys))"
    using delegation_prev[of s "as @ butlast (x # ys)" "last (x # ys)" y rest] dl
      append_butlast_last_id[of "x # ys"] by (metis append_assoc append_Cons append_Nil list.distinct(1))
  then have pv: "lprev (mlinks ?t) y = Some (last (x # ys))" using s1(3) by simp
  have "\<exists>s' T'. revoke_remove (2 * j + 2) r' d (last (x # ys)) ?t = Inr (x, s') \<and>
          pruned j as (x # ys) (prune s [y] rest) ?t T1 s' T'"
  proof (rule snoc.IH)
    show "delegation ?t (as @ (x # ys) @ prune s [y] rest)" "spaces_ok j ?t T1" using s1(2) by (simp_all add: pruned_def)
    show "\<forall>y \<in> set (x # ys). \<exists>sp. mspace ?t y = Some sp \<and> y \<in> set_tree (T1 sp)"
    proof
      fix z assume z: "z \<in> set (x # ys)"
      then obtain sp where "mspace s z = Some sp" "z \<in> set_tree (T sp)" using snoc.prems(3) by auto
      moreover have "set_tree (T1 sp) = set_tree (T sp) - (set [y] - set (prune s [y] rest))"
        using s1(2) unfolding pruned_def by blast
      moreover have "z \<noteq> y" using yx z by blast
      ultimately have "mspace ?t z = Some sp" "z \<in> set_tree (T1 sp)" by (simp_all add: f)
      then show "\<exists>sp. mspace ?t z = Some sp \<and> z \<in> set_tree (T1 sp)" by blast
    qed
  qed (use snoc.prems(4,5) r(2) f in auto)
  then obtain s' T' where s': "revoke_remove (2 * j + 2) r' d (last (x # ys)) ?t = Inr (x, s')"
    "pruned j as (x # ys) (prune s [y] rest) ?t T1 s' T'" by blast
  have "\<not> dpth s y \<le> d" using snoc.prems(4) by (simp add: not_le)
  then have "revoke_remove (2 * j + 2) r d y s = Inr (x, s')"
    using s1(1) s'(1) pv f(1) by (simp add: r(1) Let_def)
  moreover have "pruned j as ((x # ys) @ [y]) rest s T s' T'" by (rule pruned_trans[OF s1(2) s'(2) yx])
  ultimately show ?case by auto
qed

subsection \<open>Revocation of one mapping\<close>

context backend begin

lemma revoke_one_ok:
  assumes d: "delegation s (as @ x # bs)" and ok: "spaces_ok j s T"
    and mem: "\<forall>y \<in> set (x # below s x bs). installed s y \<and> (\<exists>p. mspace s y = Some (p, S) \<and> p \<noteq> kern \<and> y \<in> set_tree (T (p, S)))"
    and a: "a \<noteq> 0" "S \<in> kinds" and m: "length (below s x bs) < m"
    and cl: "fst (clamp (node_phys s x) (b - node_base s x + node_phys s x) (node_order s x) o') \<noteq> NOT 0"
  shows "\<exists>s1 s' T'. revoke_one e (2 * j + 2) m this S x b o' a True s = Inr s' \<and>
      demoted (set (x # below s x bs)) a s s1 \<and>
      pruned j as (x # below s x bs) (dropWhile (\<lambda>y. dpth s x < dpth s y) bs) s1 T s' T'"
proof -
  let ?ys = "below s x bs" and ?rest = "dropWhile (\<lambda>y. dpth s x < dpth s y) bs"
  have r: "ring (mlinks s) (as @ x # bs)" "family s [] (as @ x # bs)" using d by (simp_all add: delegation_def)
  have bs: "bs = ?ys @ ?rest" by (simp add: below_def)
  have hd: "dpth s (hd (as @ [x])) \<le> dpth s x"
  proof (cases as)
    case (Cons c cs)
    then show ?thesis using family_deeper[of s "[c]" "cs @ x # bs" "dpth s c" x] r(2) by simp
  qed simp
  obtain s1 where s1: "revoke_demote e m this S x b o' a True (dpth s x) True x s = Inr (last (x # ?ys), s1)"
    "demoted (set (x # ?ys)) a s s1"
    using demote_run[OF r(1) hd, of m S a this x b o'] mem m a by (auto simp: below_def)
  note f = demoted_fields[OF s1(2)]
  have d1: "delegation s1 (as @ (x # ?ys) @ ?rest)" using d f bs by (subst delegation_cong[of _ s]) simp_all
  have ok1: "spaces_ok j s1 T" using ok f by (subst spaces_ok_cong[of _ s]) simp_all
  have mem1: "\<forall>y \<in> set (x # ?ys). \<exists>sp. mspace s1 y = Some sp \<and> y \<in> set_tree (T sp)" using mem unfolding f by blast
  have dp: "\<forall>y \<in> set ?ys. dpth s x < dpth s1 y" "dpth s1 x \<le> dpth s x"
    unfolding f by (auto simp: below_def dest: set_takeWhileD)
  obtain s' T' where s': "revoke_remove (2 * j + 2) m (dpth s x) (last (x # ?ys)) s1 = Inr (x, s')"
    "pruned j as (x # ?ys) ?rest s1 T s' T'"
    using remove_run[OF d1 ok1 mem1 dp m] by blast
  let ?l = "last (x # ?ys)" and ?us = "as @ butlast (x # ?ys)"
  have sp: "as @ x # bs = ?us @ ?l # ?rest"
    by (metis append_assoc append_butlast_last_id append_Cons append_Nil bs list.distinct(1))
  have "ring (mlinks s) (?l # ?rest @ ?us)" using ring_rotate[of "mlinks s" ?us "?l # ?rest"] r(1) sp by simp
  then have nx: "lnext (mlinks s1) ?l = Some (hd (?rest @ ?us @ [?l]))" using ring_next_prev(1) f(9) by fastforce
  have "dpth s (hd (?rest @ ?us @ [?l])) \<le> dpth s x"
  proof (cases ?rest)
    case Nil
    have "hd (?us @ [?l]) = hd (as @ [x])" by (cases as) (simp_all add: hd_append)
    then show ?thesis using hd by (simp only: Nil append_Nil)
  next
    case (Cons z zs)
    then have "\<not> dpth s x < dpth s z" by (simp add: dropWhile_eq_Cons_conv)
    then show ?thesis using Cons by (simp add: not_less)
  qed
  then have "revoke_one e (2 * j + 2) m this S x b o' a True s = Inr s'"
    using cl s1(1) s'(1) nx f(10) by (simp add: revoke_one_def Let_def)
  then show ?thesis using s1(2) s'(2) by blast
qed

end

subsection \<open>The forest of delegation trees\<close>

text \<open>
  \<open>F\<close> holds the lists of all delegation trees. Every mapping of a space is in one of them; a
  node that is in no space of a protection domain other than the kernel is a root. The
  mappings of one tree are of one kind.
\<close>

definition member :: "'p \<Rightarrow> ('n, 'p, 'b) pdst \<Rightarrow> ('p space \<Rightarrow> 'n tree) \<Rightarrow> spkind \<Rightarrow> 'n \<Rightarrow> bool" where
  "member kern s T S n \<longleftrightarrow> (\<exists>p. p \<noteq> kern \<and> mspace s n = Some (p, S) \<and> n \<in> set_tree (T (p, S)))"

definition nodes :: "'n list set \<Rightarrow> 'n set" where
  "nodes F = (\<Union>xs \<in> F. set xs)"

definition tree_ok :: "'p \<Rightarrow> ('n, 'p, 'b) pdst \<Rightarrow> ('p space \<Rightarrow> 'n tree) \<Rightarrow> 'n list \<Rightarrow> bool" where
  "tree_ok kern s T xs \<longleftrightarrow> delegation s xs \<and>
     (\<exists>S. \<forall>n \<in> set xs. member kern s T S n \<or> prnt s n = None \<and> (\<forall>p S'. p \<noteq> kern \<longrightarrow> n \<notin> set_tree (T (p, S'))))"

definition forest :: "'p \<Rightarrow> ('n, 'p, 'b) pdst \<Rightarrow> ('p space \<Rightarrow> 'n tree) \<Rightarrow> 'n list set \<Rightarrow> bool" where
  "forest kern s T F \<longleftrightarrow> (\<forall>xs \<in> F. tree_ok kern s T xs) \<and>
     (\<forall>xs \<in> F. \<forall>ys \<in> F. xs \<noteq> ys \<longrightarrow> set xs \<inter> set ys = {}) \<and>
     (\<forall>p S. p \<noteq> kern \<longrightarrow> set_tree (T (p, S)) \<subseteq> nodes F)"

definition subtree :: "('n, 's, 'x) mdb_scheme \<Rightarrow> 'n list set \<Rightarrow> 'n \<Rightarrow> 'n set" where
  "subtree s F x = {y \<in> nodes F. y = x \<or> derived s x y}"

text \<open>The mappings that are taken out: those of \<open>R\<close> that, with all derived from them, have no rights.\<close>

definition void :: "('n, 's, 'x) mdb_scheme \<Rightarrow> ('n \<Rightarrow> mword) \<Rightarrow> 'n list set \<Rightarrow> 'n set \<Rightarrow> 'n set" where
  "void s attr F R = {y \<in> R. \<forall>z \<in> subtree s F y. attr z = 0}"

text \<open>The effect of a revocation of the rights \<open>a\<close> from the mappings \<open>R\<close>.\<close>

definition fields_kept :: "('n, 'p, 'b) pdst \<Rightarrow> ('n, 'p, 'b) pdst \<Rightarrow> bool" where
  "fields_kept s s' \<longleftrightarrow> node_base s' = node_base s \<and> node_order s' = node_order s \<and> node_phys s' = node_phys s \<and>
     node_sub s' = node_sub s \<and> node_type s' = node_type s \<and> dpth s' = dpth s \<and> prnt s' = prnt s \<and> mspace s' = mspace s \<and>
     pd_preempt s' = pd_preempt s"

definition revoked :: "'n set \<Rightarrow> mword \<Rightarrow> ('n, 'p, 'b) pdst \<Rightarrow> ('p space \<Rightarrow> 'n tree) \<Rightarrow> 'n list set \<Rightarrow>
  ('n, 'p, 'b) pdst \<Rightarrow> ('p space \<Rightarrow> 'n tree) \<Rightarrow> 'n list set \<Rightarrow> bool" where
  "revoked R a s T F s' T' F' \<longleftrightarrow> fields_kept s s' \<and>
     node_attr s' = (\<lambda>n. if n \<in> R then node_attr s n AND NOT a else node_attr s n) \<and>
     (\<forall>sp. set_tree (T' sp) = set_tree (T sp) - void s (node_attr s') F R) \<and>
     nodes F' = nodes F - void s (node_attr s') F R \<and>
     set (pd_rcu s') = set (pd_rcu s) \<union> void s (node_attr s') F R"

lemma derived_mono: "derived s x y \<Longrightarrow> prnt s' = prnt s \<Longrightarrow> derived s' x y"
  by (induction rule: derived.induct) (auto intro: derived.intros)

lemma derived_cong: "prnt s' = prnt s \<Longrightarrow> derived s' x y = derived s x y"
  using derived_mono[of s x y s'] derived_mono[of s' x y s] by auto

lemma derived_trans: "derived s y z \<Longrightarrow> derived s x y \<Longrightarrow> derived s x z"
  by (induction rule: derived.induct) (auto intro: derived.intros)

lemma forest_unique: "forest kern s T F \<Longrightarrow> xs \<in> F \<Longrightarrow> ys \<in> F \<Longrightarrow> n \<in> set xs \<Longrightarrow> n \<in> set ys \<Longrightarrow> xs = ys"
  unfolding forest_def by blast

lemma derived_same_tree:
  assumes "forest kern s T F" "derived s x y" "ys \<in> F" "y \<in> set ys"
  shows "x \<in> set ys"
  using assms(2,4)
proof (induction rule: derived.induct)
  case (derived_one y)
  have "family s [] ys" using assms(1,3) by (auto simp: forest_def tree_ok_def delegation_def)
  then show ?case using family_parents[of s "[]" ys y x] derived_one by auto
next
  case (derived_more y z)
  have "family s [] ys" using assms(1,3) by (auto simp: forest_def tree_ok_def delegation_def)
  then show ?case using family_parents[of s "[]" ys z y] derived_more by auto
qed

lemma subtree_below:
  assumes "forest kern s T F" "as @ x # bs \<in> F"
  shows "subtree s F x = set (x # below s x bs)"
proof -
  have d: "delegation s (as @ x # bs)" using assms by (auto simp: forest_def tree_ok_def)
  have "y \<in> set (as @ x # bs)" if "y \<in> nodes F" "derived s x y" for y
  proof -
    obtain ys where ys: "ys \<in> F" "y \<in> set ys" using \<open>y \<in> nodes F\<close> by (auto simp: nodes_def)
    then have "x \<in> set ys" using derived_same_tree[OF assms(1) that(2)] by blast
    then show ?thesis using forest_unique[OF assms(1) ys(1) assms(2)] ys(2) by auto
  qed
  then have "y \<in> subtree s F x \<longleftrightarrow> y = x \<or> y \<in> set (as @ x # bs) \<and> derived s x y" for y
    using assms(2) unfolding subtree_def nodes_def by fastforce
  then show ?thesis unfolding below_iff_derived[OF d, symmetric] by auto
qed

lemma subtree_members:
  assumes "forest kern s T F" "spaces_ok j s T" "as @ x # bs \<in> F" "x \<in> set_tree (T (p, S))" "p \<noteq> kern" "y \<in> set (x # below s x bs)"
  shows "member kern s T S y"
proof -
  obtain S' where S': "\<forall>n \<in> set (as @ x # bs). member kern s T S' n \<or> prnt s n = None \<and> (\<forall>p S'. p \<noteq> kern \<longrightarrow> n \<notin> set_tree (T (p, S')))"
    and d: "delegation s (as @ x # bs)" using assms(1,3) by (auto simp: forest_def tree_ok_def)
  then have "member kern s T S' x" using assms(4,5) by auto
  then obtain p' where p': "x \<in> set_tree (T (p', S'))" by (auto simp: member_def)
  have "(p', S') = (p, S)" using assms(2,4) p' unfolding spaces_ok_def by (metis disjoint_iff)
  moreover have "prnt s y \<noteq> None" if "y \<noteq> x"
    using below_iff_derived[OF d, of y] assms(6) that by (auto elim: derived.cases)
  moreover have "y \<in> set (as @ x # bs)" using assms(6) by (auto simp: below_def dest: set_takeWhileD)
  ultimately have "member kern s T S' y" using S' \<open>member kern s T S' x\<close> by (cases "y = x") auto
  then show ?thesis using \<open>(p', S') = (p, S)\<close> by simp
qed

text \<open>Revoking one mapping is a revocation from its subtree and keeps the forest.\<close>

lemma forest_step:
  assumes fo: "forest kern s T F" and xs: "as @ x # bs \<in> F"
    and f: "fields_kept s s'" and sub: "set xs' \<subseteq> set (as @ x # bs)"
    and G: "G = set (as @ x # bs) - set xs'"
    and d: "delegation s' xs'" and lk: "links_kept (set (as @ x # bs)) s s'"
    and T': "\<forall>sp. set_tree (T' sp) = set_tree (T sp) - G"
  shows "forest kern s' T' (insert xs' (F - {as @ x # bs}))" "nodes (insert xs' (F - {as @ x # bs})) = nodes F - G"
proof -
  let ?xs = "as @ x # bs" and ?F = "insert xs' (F - {as @ x # bs})"
  have dis: "set ys \<inter> set ?xs = {}" if "ys \<in> F" "ys \<noteq> ?xs" for ys using fo xs that unfolding forest_def by blast
  have un: "nodes F = set ?xs \<union> nodes (F - {?xs})" using xs unfolding nodes_def by blast
  have dn: "nodes (F - {?xs}) \<inter> set ?xs = {}" using dis unfolding nodes_def by blast
  show nd: "nodes ?F = nodes F - G" unfolding un G using dn sub unfolding nodes_def by auto
  have mem: "member kern s' T' S n \<or> prnt s' n = None \<and> (\<forall>p S'. p \<noteq> kern \<longrightarrow> n \<notin> set_tree (T' (p, S')))"
    if "member kern s T S n \<or> prnt s n = None \<and> (\<forall>p S'. p \<noteq> kern \<longrightarrow> n \<notin> set_tree (T (p, S')))" "n \<notin> G" for n S
    using that T' f unfolding member_def fields_kept_def by (metis DiffD1 DiffI)
  have old: "tree_ok kern s' T' ys" if ys: "ys \<in> F" "ys \<noteq> ?xs" for ys
  proof -
    have ok: "tree_ok kern s T ys" using fo ys by (simp add: forest_def)
    have "ring (mlinks s') ys = ring (mlinks s) ys" using lk dis[OF ys] by (intro ring_cong) (auto simp: links_kept_def)
    moreover have "family s' [] ys = family s [] ys" using f by (intro family_cong) (auto simp: fields_kept_def)
    moreover have "\<forall>n \<in> set ys. n \<notin> G" using dis[OF ys] G by blast
    ultimately show ?thesis using ok mem unfolding tree_ok_def delegation_def by blast
  qed
  have "tree_ok kern s T ?xs" using fo xs by (simp add: forest_def)
  moreover have "\<forall>n \<in> set xs'. n \<notin> G \<and> n \<in> set ?xs" using G sub by blast
  ultimately have new: "tree_ok kern s' T' xs'" using d mem unfolding tree_ok_def by blast
  have pw: "set ys \<inter> set zs = {}" if "ys \<in> ?F" "zs \<in> ?F" "ys \<noteq> zs" for ys zs
  proof -
    have n: "set vs \<inter> set xs' = {}" if "vs \<in> F - {?xs}" for vs using dis[of vs] that sub by blast
    have p: "set vs \<inter> set ws = {}" if "vs \<in> F" "ws \<in> F" "vs \<noteq> ws" for vs ws
      using fo that by (simp add: forest_def)
    from that consider "ys = xs'" "zs \<in> F - {?xs}" | "zs = xs'" "ys \<in> F - {?xs}" | "ys \<in> F" "zs \<in> F" by blast
    then show ?thesis using n[of zs] n[of ys] p[of ys zs] that(3) by cases auto
  qed
  have tn: "set_tree (T' (p, S)) \<subseteq> nodes ?F" if "p \<noteq> kern" for p S
    using fo that T' unfolding nd forest_def by blast
  have tk: "tree_ok kern s' T' ys" if "ys \<in> ?F" for ys using that old new by blast
  show "forest kern s' T' ?F"
    unfolding forest_def by (intro conjI ballI allI impI tk pw tn)
qed

lemma void_prune:
  assumes fo: "forest kern s T F" and xs: "as @ x # bs \<in> F" and f: "dpth s1 = dpth s" "prnt s1 = prnt s"
    and r: "rest = dropWhile (\<lambda>y. dpth s x < dpth s y) bs"
  shows "void s (node_attr s1) F (subtree s F x) = set (x # below s x bs) - set (prune s1 (x # below s x bs) rest)"
proof -
  let ?ys = "x # below s x bs" and ?P = "prune s1 (x # below s x bs) rest"
  have d: "delegation s (as @ x # bs)" using fo xs by (auto simp: forest_def tree_ok_def)
  have bs: "bs = below s x bs @ rest" by (simp add: below_def r)
  have dis: "distinct (?ys @ rest)"
    using d ring_distinct[of "mlinks s" "as @ x # bs"] bs by (metis append_Cons delegation_def distinct_append)
  have dn: "\<forall>y \<in> set ?ys. below s1 y rest = []"
  proof
    fix y assume "y \<in> set ?ys"
    then have "dpth s x \<le> dpth s y" by (auto simp: below_def dest: set_takeWhileD)
    then show "below s1 y rest = []"
    proof (cases rest)
      case (Cons z zs)
      then have "\<not> dpth s x < dpth s z" by (simp add: r dropWhile_eq_Cons_conv)
      then show ?thesis using Cons \<open>dpth s x \<le> dpth s y\<close> by (auto simp: below_def f)
    qed (simp add: below_def)
  qed
  have "y \<in> set ?P \<longleftrightarrow> (\<exists>z \<in> subtree s F y. node_attr s1 z \<noteq> 0)" if y: "y \<in> set ?ys" for y
  proof -
    obtain us vs where uv: "?ys = us @ y # vs" using y split_list by metis
    have "as @ x # bs = (as @ us) @ y # vs @ rest" using uv bs by (metis append_Cons append_assoc)
    then have "subtree s F y = set (y # below s y (vs @ rest))" using subtree_below[OF fo, of "as @ us" y "vs @ rest"] xs by metis
    moreover have "takeWhile Q rest = [] \<Longrightarrow> takeWhile Q (vs @ rest) = takeWhile Q vs" for Q by (induction vs) auto
    then have "below s y (vs @ rest) = below s y vs"
      using bspec[OF dn y] unfolding below_def f by (simp only:)
    moreover have "below s1 y vs = below s y vs" by (simp add: below_def f)
    ultimately show ?thesis using prune_kept[OF dis dn y uv] by auto
  qed
  moreover have "subtree s F x = set ?ys" by (rule subtree_below[OF fo xs])
  ultimately show ?thesis unfolding void_def by blast
qed

subsection \<open>Revocation of a range\<close>

definition nbase :: "('n, 's, 'x) mdb_scheme \<Rightarrow> 'n \<Rightarrow> nat" where
  "nbase s n = unat (node_base s n)"

definition nend :: "('n, 's, 'x) mdb_scheme \<Rightarrow> 'n \<Rightarrow> nat" where
  "nend s n = unat (node_base s n) + 2 ^ unat (node_order s n)"

definition aligned :: "('n, 's, 'x) mdb_scheme \<Rightarrow> 'n \<Rightarrow> bool" where
  "aligned s n \<longleftrightarrow> 2 ^ unat (node_order s n) dvd nbase s n \<and> 2 ^ unat (node_order s n) dvd unat (node_phys s n) \<and>
     nend s n < 2 ^ 64"

definition in_range :: "('n, 's, 'x) mdb_scheme \<Rightarrow> mword \<Rightarrow> mword \<Rightarrow> 'n \<Rightarrow> bool" where
  "in_range s base ord n \<longleftrightarrow> nbase s n < unat base + 2 ^ unat ord \<and> unat base < nend s n"

text \<open>The mappings of a space in a range, and those derived from them.\<close>

definition reached :: "('n, 'p, 'b) pdst \<Rightarrow> ('p space \<Rightarrow> 'n tree) \<Rightarrow> 'n list set \<Rightarrow> 'p space \<Rightarrow> mword \<Rightarrow> mword \<Rightarrow> 'n set" where
  "reached s T F sp base ord = (\<Union>x \<in> {x \<in> set_tree (T sp). in_range s base ord x}. subtree s F x)"

lemma aligned_order: "aligned s n \<Longrightarrow> unat (node_order s n) < 64"
proof -
  assume "aligned s n"
  then have "(2::nat) ^ unat (node_order s n) < 2 ^ 64" by (simp add: aligned_def nend_def)
  then show ?thesis by (rule power_less_imp_less_exp[rotated]) simp
qed

lemma clamp_range:
  assumes "aligned s n" "2 ^ unat ord dvd unat base"
  shows "fst (clamp (node_base s n) base (node_order s n) ord) = NOT 0 \<longleftrightarrow> \<not> in_range s base ord n"
  using blocks_overlap[of "unat (node_order s n)" "nbase s n" "unat ord" "unat base"] assms min_order[OF aligned_order[OF assms(1)], of ord]
    same_block[of "unat (max (node_order s n) ord)" "node_base s n" base]
  by (auto simp: clamp_def unat_max in_range_def nend_def aligned_def nbase_def simp del: drop_bit_xor)

lemma clamp_phys:
  assumes al: "aligned s n" and ba: "2 ^ unat ord dvd unat base" and r: "in_range s base ord n"
    and c: "clamp (node_base s n) base (node_order s n) ord = (o', b)"
  shows "fst (clamp (node_phys s n) (b - node_base s n + node_phys s n) (node_order s n) o') \<noteq> NOT 0"
proof -
  let ?k = "unat (node_order s n)" and ?nb = "node_base s n" and ?ph = "node_phys s n"
  have "fst (clamp ?nb base (node_order s n) ord) \<noteq> NOT 0" using clamp_range[OF al ba] r by blast
  then have d: "drop_bit (max ?k (unat ord)) (?nb XOR base) = 0" and o': "o' = min (node_order s n) ord" "b = base OR ?nb"
    using c by (auto simp: clamp_def unat_max split: if_splits)
  have mk: "max (node_order s n) o' = node_order s n" by (simp add: o' max_def min_def)
  have "unat (b - ?nb + ?ph) div 2 ^ ?k = unat ?ph div 2 ^ ?k"
  proof (cases "unat ord \<le> ?k")
    case True
    then have b: "b = base" using or_block[of ?k ?nb base] d al by (simp add: o' aligned_def nbase_def max_def)
    have ov: "nbase s n \<le> unat base" "unat base < nbase s n + 2 ^ ?k"
      using blocks_overlap[of ?k "nbase s n" 0 "unat base"] al d True same_block[of ?k ?nb base]
      by (auto simp: aligned_def nbase_def max_def)
    then have off: "unat (b - ?nb) < 2 ^ ?k" by (simp add: b unat_sub word_le_nat_alt nbase_def)
    obtain q where q: "unat ?ph = 2 ^ ?k * q" using al by (auto simp: aligned_def)
    have "(2::nat) ^ 64 = 2 ^ ?k * 2 ^ (64 - ?k)" using aligned_order[OF al] by (simp flip: power_add)
    moreover have "unat ?ph < 2 ^ 64" using unsigned_less[of ?ph] by simp
    ultimately have "2 ^ ?k * q < 2 ^ ?k * 2 ^ (64 - ?k)" by (simp only: q)
    then have "q < 2 ^ (64 - ?k)" by (simp only: mult_less_cancel1)
    then have "2 ^ ?k * Suc q \<le> 2 ^ 64" using \<open>(2::nat) ^ 64 = _\<close> by (metis Suc_leI mult_le_mono2)
    then have "unat (b - ?nb) + unat ?ph < 2 ^ 64" using off q by simp
    then have "unat (b - ?nb + ?ph) = unat (b - ?nb) + unat ?ph" by (simp add: unat_word_ariths)
    then show ?thesis using off by (simp add: q)
  next
    case False
    then have "?nb OR base = ?nb" using or_block[of "unat ord" base ?nb] d ba by (simp add: xor.commute max_def)
    then have "b = ?nb" by (simp add: o' or.commute)
    then show ?thesis by simp
  qed
  then have "drop_bit ?k (?ph XOR (b - ?nb + ?ph)) = 0" by (simp only: same_block)
  then show ?thesis using min_order[OF aligned_order[OF al], of o'] by (simp add: clamp_def mk)
qed

lemma covers_aligned: "aligned s n \<Longrightarrow> covers s n addr \<longleftrightarrow> nbase s n \<le> unat addr \<and> unat addr < nend s n"
  using blocks_overlap[of "unat (node_order s n)" "nbase s n" 0 "unat addr"]
  by (auto simp: covers_block nbase_def nend_def aligned_def)

lemma apart_aligned:
  "aligned s m \<Longrightarrow> aligned s n \<Longrightarrow> node_base s m < node_base s n \<Longrightarrow> \<not> mdb_equal s m n \<Longrightarrow> nend s m \<le> nbase s n"
  using blocks_overlap[of "unat (node_order s m)" "nbase s m" "unat (node_order s n)" "nbase s n"]
  by (auto simp: equal_block nbase_def nend_def aligned_def word_less_nat_alt)

lemma find_split: "find P xs = Some x \<Longrightarrow> \<exists>us vs. xs = us @ x # vs \<and> P x \<and> (\<forall>u \<in> set us. \<not> P u)"
proof (induction xs)
  case (Cons y ys)
  show ?case
  proof (cases "P y")
    case True
    then show ?thesis using Cons.prems by (intro exI[of _ "[]"] exI[of _ ys]) simp
  next
    case False
    then obtain us vs where "ys = us @ x # vs" "P x" "\<forall>u \<in> set us. \<not> P u" using Cons by auto
    then show ?thesis using False by (intro exI[of _ "y # us"] exI[of _ vs]) simp
  qed
qed simp

lemma lookup_first:
  assumes st: "space_tree s sp t" "size t < 2 ^ j" and al: "\<forall>n \<in> set_tree t. aligned s n"
  obtains (none) "space_tree_lookup (2 * j + 2) sp addr True s = Inr None" "\<forall>n \<in> set_tree t. nend s n \<le> unat addr"
  | (some) x where "space_tree_lookup (2 * j + 2) sp addr True s = Inr (Some x)" "x \<in> set_tree t" "unat addr < nend s x"
      "\<forall>n \<in> set_tree t. n \<noteq> x \<longrightarrow> unat addr < nend s n \<longrightarrow> nend s x \<le> nbase s n"
proof -
  let ?c = "\<lambda>m. covers s m addr" and ?u = "\<lambda>m. addr < node_base s m"
  let ?L = "inorder t"
  have so: "sorted_wrt (\<lambda>a b. node_base s a < node_base s b \<and> \<not> mdb_equal s a b) ?L" using st by (simp add: space_tree_def)
  have lk: "space_tree_lookup (2 * j + 2) sp addr True s = Inr (case find ?c ?L of Some m \<Rightarrow> Some m | None \<Rightarrow> find ?u ?L)"
    using lookup_ok[of s "root s sp" t "2 * j + 2" addr True None] st space_tree_height[OF st]
    by (auto simp: space_tree_lookup_def space_tree_def split: option.splits)
  have cov: "?c n \<longleftrightarrow> nbase s n \<le> unat addr \<and> unat addr < nend s n" if "n \<in> set_tree t" for n
    using covers_aligned[of s n addr] al that by simp
  have up: "?u n \<longleftrightarrow> unat addr < nbase s n" for n by (simp add: word_less_nat_alt nbase_def)
  have be: "nbase s n < nend s n" for n by (simp add: nbase_def nend_def)
  have split: "x \<in> set_tree t \<and> P x \<and> (\<forall>n \<in> set_tree t. n \<noteq> x \<longrightarrow> nend s x \<le> nbase s n \<or> nend s n \<le> nbase s x \<and> \<not> P n)"
    if f: "find P ?L = Some x" for P x
  proof -
    obtain us vs where L: "?L = us @ x # vs" "P x" "\<forall>u \<in> set us. \<not> P u" using find_split[OF f] by blast
    have mem: "n \<in> set_tree t \<longleftrightarrow> n \<in> set us \<or> n = x \<or> n \<in> set vs" for n using L(1) set_inorder[of t] by auto
    have "nend s u \<le> nbase s x" if "u \<in> set us" for u
      using apart_aligned[of s u x] so al mem that unfolding L by (auto simp: sorted_wrt_append)
    moreover have "nend s x \<le> nbase s v" if "v \<in> set vs" for v
      using apart_aligned[of s x v] so al mem that unfolding L by (auto simp: sorted_wrt_append)
    ultimately show ?thesis using L(2,3) mem by blast
  qed
  show thesis
  proof (cases "find ?c ?L")
    case (Some x)
    show thesis
    proof (rule some[of x])
      have "x \<in> set_tree t" "?c x" using split[OF Some] by blast+
      then show "x \<in> set_tree t" "unat addr < nend s x" using cov by blast+
      show "\<forall>n \<in> set_tree t. n \<noteq> x \<longrightarrow> unat addr < nend s n \<longrightarrow> nend s x \<le> nbase s n"
        using split[OF Some] cov[OF \<open>x \<in> set_tree t\<close>] \<open>?c x\<close> by (meson leD le_trans)
    qed (simp only: lk Some option.case)
  next
    case None
    then have nc: "\<not> ?c n" if "n \<in> set_tree t" for n using that set_inorder[of t] by (auto simp: find_None_iff)
    show thesis
    proof (cases "find ?u ?L")
      case (Some x)
      show thesis
      proof (rule some[of x])
        have "x \<in> set_tree t" "?u x" using split[OF Some] by blast+
        then show "x \<in> set_tree t" "unat addr < nend s x" using up[of x] be[of x] by auto
        show "\<forall>n \<in> set_tree t. n \<noteq> x \<longrightarrow> unat addr < nend s n \<longrightarrow> nend s x \<le> nbase s n"
          using split[OF Some] cov nc up by (meson leI)
      qed (simp only: lk Some None option.case)
    next
      case n2: None
      then have "\<not> ?u n" if "n \<in> set_tree t" for n using that set_inorder[of t] by (auto simp: find_None_iff)
      then have le: "\<forall>n \<in> set_tree t. nend s n \<le> unat addr" using cov nc up by (meson leI)
      show thesis by (rule none[OF _ le]) (simp only: lk None n2 option.case)
    qed
  qed
qed

lemma revoked_trans:
  assumes 1: "revoked R1 a s T F s1 T1 F1" and 2: "revoked R2 a s1 T1 F1 s2 T2 F2"
    and R1: "R1 \<subseteq> nodes F" "\<And>y z. y \<in> R1 \<Longrightarrow> z \<in> subtree s F y \<Longrightarrow> z \<in> R1"
  shows "revoked (R1 \<union> R2) a s T F s2 T2 F2"
proof -
  let ?G1 = "void s (node_attr s1) F R1" and ?G2 = "void s1 (node_attr s2) F1 R2" and ?G = "void s (node_attr s2) F (R1 \<union> R2)"
  have f: "fields_kept s s1" "fields_kept s1 s2" using 1 2 by (auto simp: revoked_def)
  have at: "node_attr s1 = (\<lambda>n. if n \<in> R1 then node_attr s n AND NOT a else node_attr s n)"
    "node_attr s2 = (\<lambda>n. if n \<in> R2 then node_attr s1 n AND NOT a else node_attr s1 n)"
    using 1 2 by (auto simp: revoked_def)
  have at2: "node_attr s2 = (\<lambda>n. if n \<in> R1 \<union> R2 then node_attr s n AND NOT a else node_attr s n)"
    unfolding at by (auto simp: fun_eq_iff and.assoc)
  have same: "node_attr s2 z = node_attr s1 z" if "z \<in> R1" for z using that unfolding at by (auto simp: and.assoc)
  have nF: "nodes F1 = nodes F - ?G1" using 1 by (simp add: revoked_def)
  have dr: "derived s1 x y = derived s x y" for x y by (rule derived_cong) (use f in \<open>simp add: fields_kept_def\<close>)
  have g1: "node_attr s2 z = 0" if "z \<in> ?G1" for z
  proof -
    have "z \<in> R1" "z \<in> subtree s F z" using that R1(1) by (auto simp: void_def subtree_def)
    then show ?thesis using that same by (auto simp: void_def)
  qed
  have sub: "subtree s1 F1 y = subtree s F y - ?G1" for y unfolding subtree_def nF dr by auto
  have "y \<in> ?G1 \<longleftrightarrow> (\<forall>z \<in> subtree s F y. node_attr s2 z = 0)" if "y \<in> R1" for y
    using R1(2)[OF that] same that by (auto simp: void_def)
  moreover have "(\<forall>z \<in> subtree s1 F1 y. node_attr s2 z = 0) \<longleftrightarrow> (\<forall>z \<in> subtree s F y. node_attr s2 z = 0)" for y
    unfolding sub using g1 by blast
  ultimately have G: "?G = ?G1 \<union> ?G2" unfolding void_def by blast
  have T: "set_tree (T1 sp) = set_tree (T sp) - ?G1" "set_tree (T2 sp) = set_tree (T1 sp) - ?G2" for sp
    using 1 2 unfolding revoked_def by blast+
  show ?thesis unfolding revoked_def G
  proof (intro conjI allI)
    show "fields_kept s s2" using f by (simp add: fields_kept_def)
    show "set_tree (T2 sp) = set_tree (T sp) - (?G1 \<union> ?G2)" for sp unfolding T by blast
    show "nodes F2 = nodes F - (?G1 \<union> ?G2)" using 1 2 unfolding revoked_def by blast
    show "set (pd_rcu s2) = set (pd_rcu s) \<union> (?G1 \<union> ?G2)" using 1 2 unfolding revoked_def by blast
    show "node_attr s2 = (\<lambda>n. if n \<in> R1 \<union> R2 then node_attr s n AND NOT a else node_attr s n)" by (rule at2)
  qed
qed

context backend begin

text \<open>A state in which ranges can be revoked: all mappings are installed and aligned.\<close>

definition ready :: "nat \<Rightarrow> nat \<Rightarrow> ('n, 'p, 'b) pdst \<Rightarrow> ('p space \<Rightarrow> 'n tree) \<Rightarrow> 'n list set \<Rightarrow> bool" where
  "ready m j s T F \<longleftrightarrow> spaces_ok j s T \<and> forest kern s T F \<and> (\<forall>xs \<in> F. length xs \<le> m) \<and>
     (\<forall>S \<in> kinds. \<forall>n. member kern s T S n \<longrightarrow> installed s n \<and> aligned s n)"

lemma revoke_step:
  assumes rd: "ready m j s T F" and x: "x \<in> set_tree (T (this, S))" "this \<noteq> kern" and a: "a \<noteq> 0" "S \<in> kinds"
    and cl: "fst (clamp (node_phys s x) (b - node_base s x + node_phys s x) (node_order s x) o') \<noteq> NOT 0"
  shows "\<exists>s' T' F'. revoke_one e (2 * j + 2) m this S x b o' a True s = Inr s' \<and> ready m j s' T' F' \<and>
           revoked (subtree s F x) a s T F s' T' F'"
proof -
  have fo: "forest kern s T F" and ok: "spaces_ok j s T" using rd by (simp_all add: ready_def)
  have "x \<in> nodes F" using fo x unfolding forest_def by blast
  then obtain xs where "xs \<in> F" "x \<in> set xs" by (auto simp: nodes_def)
  then obtain as bs where xs: "as @ x # bs \<in> F" by (metis split_list)
  let ?ys = "x # below s x bs" and ?rest = "dropWhile (\<lambda>y. dpth s x < dpth s y) bs"
  have bs: "bs = below s x bs @ ?rest" by (simp add: below_def)
  have d: "delegation s (as @ x # bs)" using fo xs by (auto simp: forest_def tree_ok_def)
  have mem: "\<forall>y \<in> set ?ys. member kern s T S y" using subtree_members[OF fo ok xs x] by blast
  have "length (as @ x # bs) \<le> m" using rd xs by (auto simp: ready_def)
  then have lm: "length (below s x bs) < m" using length_takeWhile_le[of "\<lambda>y. dpth s x < dpth s y" bs] by (simp add: below_def)
  have in1: "\<forall>y \<in> set ?ys. installed s y \<and> (\<exists>p. mspace s y = Some (p, S) \<and> p \<noteq> kern \<and> y \<in> set_tree (T (p, S)))"
    using mem rd a(2) unfolding member_def ready_def by blast
  obtain s1 s' T' where run: "revoke_one e (2 * j + 2) m this S x b o' a True s = Inr s'"
    and dm: "demoted (set ?ys) a s s1" and pr: "pruned j as ?ys ?rest s1 T s' T'"
    using revoke_one_ok[OF d ok in1 a lm cl] by blast
  note f1 = demoted_fields[OF dm]
  have rm: "removed s1 s'" using pr by (simp add: pruned_def)
  have fk: "fields_kept s s'" using rm f1 dm by (simp add: fields_kept_def removed_def demoted_def)
  have st: "subtree s F x = set ?ys" by (rule subtree_below[OF fo xs])
  have at: "node_attr s' = node_attr s1" using rm by (simp add: removed_def)
  let ?P = "prune s1 ?ys ?rest"
  let ?G = "set ?ys - set ?P"
  have vd: "void s (node_attr s') F (subtree s F x) = ?G"
    unfolding at by (rule void_prune[OF fo xs f1(10,11) refl])
  have dis: "distinct (as @ x # bs)" using d ring_distinct[of "mlinks s" "as @ x # bs"] by (simp add: delegation_def)
  have Ps: "set ?rest \<subseteq> set ?P" "set ?P \<subseteq> set ?ys \<union> set ?rest" by (rule prune_sub)+
  have bs': "set bs = set (below s x bs) \<union> set ?rest" using bs by (metis set_append)
  have G: "?G = set (as @ x # bs) - set (as @ ?P)" using Ps dis bs' by auto
  have lk: "links_kept (set (as @ x # bs)) s s'" using pr f1(9) bs' by (simp add: pruned_def links_kept_def)
  have T': "\<forall>sp. set_tree (T' sp) = set_tree (T sp) - ?G" using pr unfolding pruned_def by blast
  have d': "delegation s' (as @ ?P)" using pr by (simp add: pruned_def)
  let ?F = "insert (as @ ?P) (F - {as @ x # bs})"
  have fo': "forest kern s' T' ?F" and nd: "nodes ?F = nodes F - ?G"
    using forest_step[OF fo xs fk _ G d' lk T'] Ps bs' by auto
  have "set (pd_rcu s') = set (pd_rcu s) \<union> ?G" using pr dm by (auto simp: pruned_def demoted_def)
  then have rv: "revoked (subtree s F x) a s T F s' T' ?F"
    unfolding revoked_def vd using fk at f1(13) T' nd by (simp add: st fun_eq_iff)
  have "length (as @ ?P) \<le> length (as @ x # bs)"
    using prune_length[of s1 ?ys ?rest] arg_cong[OF bs, of length] by simp
  then have "\<forall>xs \<in> ?F. length xs \<le> m" using rd xs by (auto simp: ready_def)
  moreover have "installed s' n \<and> aligned s' n" if S': "S' \<in> kinds" "member kern s' T' S' n" for S' n
  proof -
    have "member kern s T S' n" using S'(2) T' fk by (auto simp: member_def fields_kept_def)
    then have "installed s n" "aligned s n" using rd S'(1) by (auto simp: ready_def)
    moreover have "installed s1 n" using calculation(1) dm by (simp add: demoted_def)
    moreover have "installed s' n = installed s1 n" by (rule installed_cong) (use rm in \<open>simp_all add: removed_def\<close>)
    ultimately show ?thesis using fk by (simp add: aligned_def nbase_def nend_def fields_kept_def)
  qed
  ultimately have "ready m j s' T' ?F" using fo' pr unfolding ready_def pruned_def by blast
  then show ?thesis using run rv by blast
qed

text \<open>The mappings that remain to be visited from an address on.\<close>

definition ahead :: "('n, 'p, 'b) pdst \<Rightarrow> ('p space \<Rightarrow> 'n tree) \<Rightarrow> 'p space \<Rightarrow> mword \<Rightarrow> mword \<Rightarrow> nat \<Rightarrow> 'n set" where
  "ahead s T sp base ord lo = {x \<in> set_tree (T sp). in_range s base ord x \<and> lo < nend s x}"

lemma ready_aligned: "ready m j s T F \<Longrightarrow> S \<in> kinds \<Longrightarrow> p \<noteq> kern \<Longrightarrow> n \<in> set_tree (T (p, S)) \<Longrightarrow> aligned s n"
proof -
  assume rd: "ready m j s T F" and S: "S \<in> kinds" and n: "p \<noteq> kern" "n \<in> set_tree (T (p, S))"
  then have fo: "forest kern s T F" by (simp add: ready_def)
  have "n \<in> nodes F" using fo n unfolding forest_def by blast
  then obtain xs where xs: "xs \<in> F" "n \<in> set xs" by (auto simp: nodes_def)
  then have "tree_ok kern s T xs" using fo by (simp add: forest_def)
  then obtain S' where mem: "member kern s T S' n" using xs n unfolding tree_ok_def by blast
  then obtain p' where "n \<in> set_tree (T (p', S'))" by (auto simp: member_def)
  moreover have "spaces_ok j s T" using rd by (simp add: ready_def)
  ultimately have "(p', S') = (p, S)" using n(2) unfolding spaces_ok_def by (metis disjoint_iff)
  then show ?thesis using rd mem S by (auto simp: ready_def)
qed

lemma subtree_closed:
  "y \<in> subtree s F x \<Longrightarrow> z \<in> subtree s F y \<Longrightarrow> z \<in> subtree s F x"
  unfolding subtree_def by (auto intro: derived_trans)

lemma ready_next:
  assumes "ready m j s T F" "p \<noteq> kern" "x \<in> set_tree (T (p, S))"
  shows "\<exists>y. lnext (mlinks s) x = Some y"
proof -
  have fo: "forest kern s T F" using assms(1) by (simp add: ready_def)
  then have "x \<in> nodes F" using assms(2,3) unfolding forest_def by blast
  then obtain xs where xs: "xs \<in> F" "x \<in> set xs" by (auto simp: nodes_def)
  then have "ring (mlinks s) xs" using fo by (simp add: forest_def tree_ok_def delegation_def)
  from ring_some(1)[OF this xs(2)] show ?thesis by blast
qed

lemma reached_step:
  assumes rv: "revoked (subtree s F x) a s T F s1 T1 F1" and x: "x \<in> set_tree (T sp)" "in_range s base ord x" "lo < nend s x"
    and nx: "\<forall>n \<in> set_tree (T sp). n \<noteq> x \<longrightarrow> lo < nend s n \<longrightarrow> nend s x \<le> nbase s n"
  shows "(\<Union>y \<in> ahead s T sp base ord lo. subtree s F y) =
      subtree s F x \<union> (\<Union>y \<in> ahead s1 T1 sp base ord (nend s x). subtree s1 F1 y)" (is "?L = ?X \<union> ?R")
proof -
  let ?G = "void s (node_attr s1) F ?X"
  have T1: "set_tree (T1 sp) = set_tree (T sp) - ?G" and nF: "nodes F1 = nodes F - ?G" and fk: "fields_kept s s1"
    using rv unfolding revoked_def by blast+
  have G: "?G \<subseteq> ?X" by (auto simp: void_def)
  have dr: "derived s1 u v = derived s u v" for u v by (rule derived_cong) (use fk in \<open>simp add: fields_kept_def\<close>)
  have sub: "subtree s1 F1 y = subtree s F y - ?G" for y unfolding subtree_def nF dr by auto
  have rg: "in_range s1 base ord n = in_range s base ord n" "nend s1 n = nend s n" for n
    using fk by (simp_all add: in_range_def nbase_def nend_def fields_kept_def)
  have be: "nbase s n < nend s n" for n by (simp add: nbase_def nend_def)
  have up: "nend s x < nend s y" if "y \<in> ahead s T sp base ord lo" "y \<noteq> x" for y
  proof -
    have "nend s x \<le> nbase s y" using nx that by (auto simp: ahead_def)
    then show ?thesis using be[of y] by linarith
  qed
  have "?L \<subseteq> ?X \<union> ?R"
  proof
    fix z assume "z \<in> ?L"
    then obtain y where y: "y \<in> ahead s T sp base ord lo" "z \<in> subtree s F y" by blast
    show "z \<in> ?X \<union> ?R"
    proof (cases "z \<in> ?X")
      case False
      then have "y \<noteq> x" "y \<notin> ?X" using y(2) subtree_closed[of y s F x z] by auto
      then have "y \<in> ahead s1 T1 sp base ord (nend s x)" using y(1) up[OF y(1)] G T1 rg by (auto simp: ahead_def)
      moreover have "z \<in> subtree s1 F1 y" using y(2) False G sub by blast
      ultimately show ?thesis by blast
    qed simp
  qed
  moreover have "x \<in> ahead s T sp base ord lo" using x by (simp add: ahead_def)
  then have "?X \<subseteq> ?L" by (rule UN_upper)
  moreover have "ahead s1 T1 sp base ord (nend s x) \<subseteq> ahead s T sp base ord lo" using T1 rg x(3) by (auto simp: ahead_def)
  then have "?R \<subseteq> ?L" by (rule UN_mono) (simp add: sub)
  ultimately show ?thesis by (intro equalityI Un_least)
qed

lemma revoke_range:
  assumes "ready m j s T F" "this \<noteq> kern" "a \<noteq> 0" "2 ^ unat ord dvd unat base" "unat base \<le> unat addr"
    and "S \<in> kinds" "card {x \<in> set_tree (T (this, S)). unat addr < nend s x} < r"
  shows "\<exists>s' T' F'. revoke_loop e (2 * j + 2) m r S this addr base ord a True False s = Inr s' \<and> ready m j s' T' F' \<and>
           revoked (\<Union>x \<in> ahead s T (this, S) base ord (unat addr). subtree s F x) a s T F s' T' F'"
  using assms
proof (induction r arbitrary: s T F addr)
  case (Suc r)
  let ?sp = "(this, S)"
  let ?R = "\<Union>x \<in> ahead s T ?sp base ord (unat addr). subtree s F x"
  have st: "space_tree s ?sp (T ?sp)" "size (T ?sp) < 2 ^ j" using Suc.prems(1) by (auto simp: ready_def spaces_ok_def)
  have al: "\<forall>n \<in> set_tree (T ?sp). aligned s n" using ready_aligned[OF Suc.prems(1,6,2)] by blast
  have stop: ?case if "revoke_loop e (2 * j + 2) m (Suc r) S this addr base ord a True False s = Inr s"
    "ahead s T ?sp base ord (unat addr) = {}"
  proof -
    have "?R = {}" using that(2) by blast
    moreover have "revoked {} a s T F s T F" by (simp add: revoked_def fields_kept_def void_def)
    ultimately show ?thesis using that(1) Suc.prems(1) by (simp only:) blast
  qed
  from st al show ?case
  proof (cases rule: lookup_first[where addr = addr])
    case none
    have "ahead s T ?sp base ord (unat addr) = {}" using none(2) by (auto simp: ahead_def)
    then show ?thesis using none(1) by (intro stop) simp_all
  next
    case (some x)
    have ax: "aligned s x" using al some(2) by blast
    obtain o' b where c: "clamp (node_base s x) base (node_order s x) ord = (o', b)" by force
    show ?thesis
    proof (cases "o' = NOT 0")
      case True
      have nr: "\<not> in_range s base ord x" using clamp_range[OF ax Suc.prems(4)] c True by simp
      have lo: "unat base + 2 ^ unat ord \<le> nbase s x" using nr some(3) Suc.prems(5) by (auto simp: in_range_def)
      have "\<not> in_range s base ord n" if "n \<in> set_tree (T ?sp)" "unat addr < nend s n" for n
      proof (cases "n = x")
        case False
        then have "nend s x \<le> nbase s n" using some(4) that by blast
        moreover have "nbase s x < nend s x" by (simp add: nbase_def nend_def)
        ultimately show ?thesis using lo by (simp add: in_range_def)
      qed (use nr in simp)
      then have "ahead s T ?sp base ord (unat addr) = {}" by (auto simp: ahead_def)
      then show ?thesis using some(1) c True by (intro stop) simp_all
    next
      case False
      then have ir: "in_range s base ord x" using clamp_range[OF ax Suc.prems(4)] c by simp
      obtain s1 T1 F1 where s1: "revoke_one e (2 * j + 2) m this S x b o' a True s = Inr s1" "ready m j s1 T1 F1"
        "revoked (subtree s F x) a s T F s1 T1 F1"
        using revoke_step[OF Suc.prems(1) some(2) Suc.prems(2,3,6) clamp_phys[OF ax Suc.prems(4) ir c]] by blast
      have fk: "fields_kept s s1" using s1(3) by (simp add: revoked_def)
      let ?addr = "node_base s1 x + push_bit (unat (node_order s1 x)) 1"
      have fe: "node_base s1 = node_base s" "node_order s1 = node_order s" using fk by (simp_all add: fields_kept_def)
      have na: "unat ?addr = nend s x"
      proof -
        have "nend s x < 2 ^ 64" using ax by (simp add: aligned_def)
        moreover have "unat (push_bit (unat (node_order s x)) (1 :: mword)) = 2 ^ unat (node_order s x)"
          using aligned_order[OF ax] by (simp add: push_bit_eq_mult unat_exp_64)
        ultimately show ?thesis unfolding fe nend_def by (simp add: unat_word_ariths)
      qed
      have "nend s1 = nend s" using fe by (simp add: nend_def fun_eq_iff)
      moreover have "set_tree (T1 ?sp) \<subseteq> set_tree (T ?sp)" using s1(3) unfolding revoked_def by blast
      ultimately have "{y \<in> set_tree (T1 ?sp). unat ?addr < nend s1 y} \<subset> {y \<in> set_tree (T ?sp). unat addr < nend s y}"
        using some(2,3) unfolding na by auto
      then have "card {y \<in> set_tree (T1 ?sp). unat ?addr < nend s1 y} < card {y \<in> set_tree (T ?sp). unat addr < nend s y}"
        by (rule psubset_card_mono[rotated]) simp
      then have cd: "card {y \<in> set_tree (T1 ?sp). unat ?addr < nend s1 y} < r" using Suc.prems(7) by linarith
      have "unat base \<le> unat ?addr" using Suc.prems(5) some(3) unfolding na by linarith
      from Suc.IH[OF s1(2) Suc.prems(2-4) this Suc.prems(6) cd] obtain s2 T2 F2 where s2:
        "revoke_loop e (2 * j + 2) m r S this ?addr base ord a True False s1 = Inr s2" "ready m j s2 T2 F2"
        "revoked (\<Union>x \<in> ahead s1 T1 ?sp base ord (unat ?addr). subtree s1 F1 x) a s1 T1 F1 s2 T2 F2" by blast
      obtain y where y: "lnext (mlinks s) x = Some y" using ready_next[OF Suc.prems(1,2) some(2)] by blast
      have run: "revoke_loop e (2 * j + 2) m (Suc r) S this addr base ord a True False s = Inr s2"
        using some(1) c False y s1(1) s2(1) by (simp only: revoke_loop.simps bind_result_simps option.case prod.case if_False store_simps HOL.simp_thms)
      have "revoked ?R a s T F s2 T2 F2"
        unfolding reached_step[OF s1(3) some(2) ir some(3,4)] na[symmetric]
      proof (rule revoked_trans[OF s1(3) s2(3)])
        show "subtree s F x \<subseteq> nodes F" by (auto simp: subtree_def)
      qed (rule subtree_closed)
      then show ?thesis using run s2(2) by blast
    qed
  qed
qed simp

end

end
