(* ===== verification/Spaces.thy ===== *)
theory Spaces
  imports Paging Revoke Cpuset
begin

text \<open>
  The spaces of a protection domain, after \<open>src/space_mem.cpp\<close>, \<open>src/space_pio.cpp\<close> and
  \<open>src/space_obj.cpp\<close>: page tables, permission bitmaps for I/O ports and capability tables, all in
  one physical memory. They are the backend that \<open>Pd::delegate\<close> and \<open>Pd::revoke\<close> update, and the
  quotas that pay for their pages are those of the domains. What the machine fixes (the largest
  orders of the tables, the use of nested tables, the two frames with constant contents) is a
  record; the value of a variable that is read before it is written is an argument.
\<close>

record 'p spaces = "('p ptroot, pool list \<times> 'p option quotas) ptst" +
  hbmp :: "'p \<Rightarrow> mword"
  gbmp :: "'p \<Rightarrow> mword"
  sp_cpus :: "'p \<Rightarrow> cpuset"
  htlb :: "'p \<Rightarrow> cpuset"
  gtlb :: "'p \<Rightarrow> cpuset"

record machine =
  Dpt_ord :: mword
  Ipt_ord :: mword
  Ept_ord :: mword
  Hpt_ord :: mword
  force_flush :: bool
  has_npt :: bool
  FRAME_0 :: mword
  FRAME_1 :: mword
  n_cpu :: nat
  stale :: mword

type_synonym 'p quota_ref = "'p option"

subsection \<open>Memory\<close>

definition mem_lookup :: "'p \<Rightarrow> mword \<Rightarrow> 'p spaces \<Rightarrow> (mword \<times> mword) option" where
  "mem_lookup pd virt b = map_option (\<lambda>(sz, phys, _). (sz, phys)) (pt_lookup Hpt (Root_hpt pd) virt b)"

definition mem_insert :: "'p quota_ref \<Rightarrow> 'p \<Rightarrow> mword \<Rightarrow> nat \<Rightarrow> mword \<Rightarrow> mword \<Rightarrow> 'p spaces \<Rightarrow> 'p spaces result" where
  "mem_insert q pd virt o' attr phys b =
     bind_result (pt_update Hpt buddy_pages q (Root_hpt pd) virt o' phys attr TYPE_UP b) (\<lambda>(_, b). Inr b)"

definition mem_replace :: "'p quota_ref \<Rightarrow> 'p \<Rightarrow> mword \<Rightarrow> mword \<Rightarrow> 'p spaces \<Rightarrow> (mword \<times> 'p spaces) result" where
  "mem_replace q pd v p b = hpt_replace buddy_pages q (Root_hpt pd) v p b"

definition mem_init :: "nat \<Rightarrow> 'p quota_ref \<Rightarrow> 'p \<Rightarrow> 'p \<Rightarrow> 'p ptroot \<Rightarrow> cpu \<Rightarrow> 'p spaces \<Rightarrow> 'p spaces result" where
  "mem_init r q kern pd pdbr c b =
     (case cs_set (sp_cpus b pd) c of
        (fresh, cs) \<Rightarrow>
          (let b = b\<lparr>sp_cpus := (sp_cpus b)(pd := cs)\<rparr>; loc = Root_loc pd (unat c)
           in if \<not> fresh then Inr b
              else bind_result (hpt_sync_from buddy_pages q loc (Root_loc kern (unat c)) CPU_LOCAL SPC_LOCAL b) (\<lambda>(_, b).
                     hpt_sync_master_range r buddy_pages q loc pdbr LINK_ADDR CPU_LOCAL b)))"

text \<open>
  The loops of \<open>Space_mem::update\<close> over the blocks of a mapping, in one kind of table; the second
  result is whether the quota did not suffice.
\<close>

fun map_blocks :: "pte_class \<Rightarrow> 'p \<Rightarrow> 'p ptroot \<Rightarrow> mword \<Rightarrow> mword \<Rightarrow> mword \<Rightarrow> mword \<Rightarrow> pte_type \<Rightarrow> bool \<Rightarrow> mword \<Rightarrow> nat \<Rightarrow>
  bool \<Rightarrow> 'p spaces \<Rightarrow> (bool \<times> bool \<times> 'p spaces) result" where
  "map_blocks c pd rt b ord p a t gd i 0 f s = Inr (f, False, s)"
| "map_blocks c pd rt b ord p a t gd i (Suc n) f s =
     (let (ok, q) = (if gd then pt_check (snd (ppool s)) pd (unat ord) else (True, snd (ppool s)));
          s = s\<lparr>ppool := (fst (ppool s), q)\<rparr>; d = i * push_bit (unat ord + PAGE_BITS) 1
      in if \<not> ok then Inr (f, True, s)
         else bind_result (pt_update c buddy_pages None rt (b + d) (unat ord) (p + d) a t s) (\<lambda>(g, s).
                map_blocks c pd rt b ord p a t gd (i + 1) n (f \<or> g) s))"

definition n_blocks :: "mword \<Rightarrow> mword \<Rightarrow> nat" where
  "n_blocks o' ord = 2 ^ unat (o' - ord)"

definition mem_io :: "machine \<Rightarrow> 'p \<Rightarrow> mword \<Rightarrow> mword \<Rightarrow> mword \<Rightarrow> mword \<Rightarrow> mword \<Rightarrow> mword \<Rightarrow> 'p spaces \<Rightarrow> (bool \<times> bool \<times> 'p spaces) result" where
  "mem_io m pd p b o' a sub r s =
     (let t = (if r \<noteq> 0 then TYPE_DN else TYPE_UP)
      in bind_result
           (if sub AND 1 \<noteq> 0 \<and> Dpt_ord m \<noteq> NOT 0
            then (let ord = min o' (Dpt_ord m)
                  in bind_result (map_blocks Dpt pd (Root_io pd) b ord p a t (r = 0) 0 (n_blocks o' ord) False s) (\<lambda>(f, oom, s).
                       if oom then Inr (False, True, s) else Inr (f \<or> force_flush m, False, s)))
            else Inr (False, False, s)) (\<lambda>(f, oom, s).
           if oom then Inr (False, True, s)
           else if sub AND 1 \<noteq> 0 \<and> Ipt_ord m \<noteq> NOT 0
           then (let ord = min o' (Ipt_ord m)
                 in bind_result (map_blocks Ipt pd (Root_io pd) b ord p (ipt_hw_attr a) t (r = 0) 0 (n_blocks o' ord) f s) (\<lambda>(f, oom, s).
                      if oom then Inr (False, True, s) else Inr (f, False, s)))
           else Inr (f, False, s)))"

definition mem_nst :: "machine \<Rightarrow> 'p \<Rightarrow> mword \<Rightarrow> mword \<Rightarrow> mword \<Rightarrow> mword \<Rightarrow> mword \<Rightarrow> mword \<Rightarrow> mword \<Rightarrow> 'p spaces \<Rightarrow> (bool \<times> 'p spaces) result" where
  "mem_nst m pd p b o' a ty sub r s =
     (let t = (if r \<noteq> 0 then TYPE_DN else TYPE_UP);
          c = (if has_npt m then Hpt else Ept);
          ord = min o' (if has_npt m then Hpt_ord m else Ept_ord m);
          hw = (if has_npt m then hpt_hw_attr a else ept_hw_attr a ty)
      in if sub AND 2 = 0 then Inr (False, s)
         else bind_result (map_blocks c pd (Root_nst pd) b ord p hw t (r = 0) 0 (n_blocks o' ord) False s) (\<lambda>(_, oom, s).
                if oom then Inr (True, s)
                else Inr (False, if r \<noteq> 0 then s\<lparr>gtlb := (gtlb s)(pd := merge (gtlb s pd) (sp_cpus s pd))\<rparr> else s)))"

fun mem_locs :: "'p \<Rightarrow> mword \<Rightarrow> mword \<Rightarrow> mword \<Rightarrow> mword \<Rightarrow> bool \<Rightarrow> nat \<Rightarrow> nat list \<Rightarrow> 'p spaces \<Rightarrow> (bool \<times> 'p spaces) result" where
  "mem_locs pd p b ord hw gd n [] s = Inr (False, s)"
| "mem_locs pd p b ord hw gd n (j # js) s =
     (if hpt_addr (pt_root s (Root_loc pd j)) = 0 then mem_locs pd p b ord hw gd n js s
      else bind_result (map_blocks Hpt pd (Root_loc pd j) b ord p hw TYPE_DF gd 0 n False s) (\<lambda>(_, oom, s).
             if oom then Inr (True, s) else mem_locs pd p b ord hw gd n js s))"

definition mem_host :: "machine \<Rightarrow> 'p \<Rightarrow> mword \<Rightarrow> mword \<Rightarrow> mword \<Rightarrow> mword \<Rightarrow> mword \<Rightarrow> bool \<Rightarrow> 'p spaces \<Rightarrow> (bool \<times> bool \<times> 'p spaces) result" where
  "mem_host m pd p b o' a r f s =
     (let ord = min o' (Hpt_ord m); n = n_blocks o' ord; hw = hpt_hw_attr a
      in bind_result (map_blocks Hpt pd (Root_hpt pd) b ord p hw (if r \<noteq> 0 then TYPE_DN else TYPE_UP) (r = 0) 0 n f s) (\<lambda>(f, oom, s).
           if oom then Inr (f, True, s)
           else if r \<noteq> 0 \<or> f
           then bind_result (mem_locs pd p b ord hw (r = 0) n [0..<n_cpu m] s) (\<lambda>(oom, s).
                  if oom then Inr (r \<noteq> 0 \<or> f, True, s)
                  else Inr (True, False, s\<lparr>htlb := (htlb s)(pd := merge (htlb s pd) (sp_cpus s pd))\<rparr>))
           else Inr (False, False, s)))"

definition USER_PAGES :: mword where "USER_PAGES = drop_bit 12 0x00007fffc0000000"

definition mem_tables :: "machine \<Rightarrow> 'p \<Rightarrow> mword \<Rightarrow> mword \<Rightarrow> mword \<Rightarrow> mword \<Rightarrow> mword \<Rightarrow> mword \<Rightarrow> mword \<Rightarrow> 'p spaces \<Rightarrow> (bool \<times> bool \<times> 'p spaces) result" where
  "mem_tables m pd ph nb o' a ty sub r s =
     (let p = push_bit PAGE_BITS ph; b = push_bit PAGE_BITS nb; ne = nb + push_bit (unat o') 1
      in bind_result (mem_io m pd p b o' a sub r s) (\<lambda>(f, oom, s).
           if oom then Inr (False, True, s)
           else bind_result (mem_nst m pd p b o' a ty sub r s) (\<lambda>(oom, s).
             if oom then Inr (False, True, s)
             else (let a = (if sub AND 4 \<noteq> 0 \<and> a \<noteq> 0 then a OR HPT_PWT else a)
                   in if nb \<ge> USER_PAGES \<or> ne > USER_PAGES \<or> ne \<le> nb then Inr (False, False, s)
                      else mem_host m pd p b o' a r f s))))"

subsection \<open>I/O ports\<close>

definition pio_idx_to_virt :: "mword \<Rightarrow> mword" where
  "pio_idx_to_virt idx = SPC_LOCAL_IOP + (idx div 8 div 8) * 8"

definition pio_idx_to_mask :: "mword \<Rightarrow> mword" where
  "pio_idx_to_mask idx = push_bit (unat (idx mod 64)) 1"

definition pio_bmp :: "bool \<Rightarrow> 'p \<Rightarrow> 'p spaces \<Rightarrow> mword" where
  "pio_bmp host pd s = (if host then hbmp s pd else gbmp s pd)"

definition set_pio_bmp :: "bool \<Rightarrow> 'p \<Rightarrow> mword \<Rightarrow> 'p spaces \<Rightarrow> 'p spaces" where
  "set_pio_bmp host pd v s = (if host then s\<lparr>hbmp := (hbmp s)(pd := v)\<rparr> else s\<lparr>gbmp := (gbmp s)(pd := v)\<rparr>)"

definition pio_word :: "mword \<Rightarrow> mword \<Rightarrow> mword" where
  "pio_word bmp idx = bmp OR (pio_idx_to_virt idx AND (2 * PAGE_SIZE - 1))"

definition pio_walk :: "'p quota_ref \<Rightarrow> 'p \<Rightarrow> bool \<Rightarrow> mword \<Rightarrow> 'p spaces \<Rightarrow> (mword \<times> 'p spaces) result" where
  "pio_walk q pd host idx s =
     bind_result
       (if pio_bmp host pd s \<noteq> 0 then Inr s
        else bind_result (pg_alloc buddy_pages q 1 (ppool s)) (\<lambda>(p, pl).
               let s = set_pio_bmp host pd p (s\<lparr>ppool := pl, pmem := fill_pages p 1 (NOT 0) (pmem s)\<rparr>)
               in if host then mem_insert q pd SPC_LOCAL_IOP 1 (HPT_NX OR HPT_D OR HPT_A OR HPT_W OR HPT_P) p s else Inr s))
       (\<lambda>s. Inr (pio_word (pio_bmp host pd s) idx, s))"

definition pio_set :: "'p quota_ref \<Rightarrow> 'p \<Rightarrow> bool \<Rightarrow> mword \<Rightarrow> mword \<Rightarrow> 'p spaces \<Rightarrow> 'p spaces result" where
  "pio_set q pd host idx attr s =
     bind_result (pio_walk q pd host idx s) (\<lambda>(x, s).
       Inr (s\<lparr>pmem := (pmem s)(x := (if attr \<noteq> 0 then pmem s x AND NOT (pio_idx_to_mask idx) else pmem s x OR pio_idx_to_mask idx))\<rparr>))"

fun pio_range :: "'p quota_ref \<Rightarrow> 'p \<Rightarrow> bool \<Rightarrow> mword \<Rightarrow> nat \<Rightarrow> mword \<Rightarrow> 'p spaces \<Rightarrow> 'p spaces result" where
  "pio_range q pd host idx 0 attr s = Inr s"
| "pio_range q pd host idx (Suc n) attr s =
     bind_result (pio_set q pd host idx attr s) (\<lambda>s. pio_range q pd host (idx + 1) n attr s)"

definition pio_update :: "'p quota_ref \<Rightarrow> 'p \<Rightarrow> mword \<Rightarrow> mword \<Rightarrow> mword \<Rightarrow> mword \<Rightarrow> 'p spaces \<Rightarrow> 'p spaces result" where
  "pio_update q pd nb o' a sub s =
     bind_result (if sub AND 2 \<noteq> 0 then pio_range q pd False nb (2 ^ unat o') a s else Inr s) (\<lambda>s.
       pio_range q pd True nb (2 ^ unat o') a s)"

subsection \<open>Objects\<close>

definition obj_caps :: mword where "obj_caps = (0 - SPC_LOCAL_OBJ) div 8"

definition obj_idx_to_virt :: "mword \<Rightarrow> mword" where
  "obj_idx_to_virt idx = SPC_LOCAL_OBJ + (idx mod obj_caps) * 8"

definition obj_walk :: "machine \<Rightarrow> 'p quota_ref \<Rightarrow> 'p \<Rightarrow> mword \<Rightarrow> 'p spaces \<Rightarrow> (mword \<times> bool option \<times> 'p spaces) result" where
  "obj_walk m q pd idx s =
     (let virt = obj_idx_to_virt idx; l = mem_lookup pd virt s;
          phys = (case l of None \<Rightarrow> stale m | Some (_, p) \<Rightarrow> p)
      in if l = None \<or> phys AND NOT PAGE_MASK = FRAME_0 m
         then bind_result (pg_alloc buddy_pages q 0 (ppool s)) (\<lambda>(p, pl).
                let s = s\<lparr>ppool := pl, pmem := fill_pages p 0 0 (pmem s)\<rparr>; sh = (phys AND NOT PAGE_MASK = FRAME_0 m)
                in bind_result (mem_replace q pd virt (p OR HPT_NX OR HPT_D OR HPT_A OR HPT_W OR HPT_P) s) (\<lambda>(phys, s).
                     bind_result (if phys \<noteq> p then pte_destroy buddy_pages q p s else Inr s) (\<lambda>s.
                       Inr (phys OR (virt AND PAGE_MASK), Some sh, s))))
         else Inr (phys, None, s))"

definition obj_store :: "machine \<Rightarrow> 'p quota_ref \<Rightarrow> 'p \<Rightarrow> mword \<Rightarrow> mword \<Rightarrow> 'p spaces \<Rightarrow> (bool \<times> 'p spaces) result" where
  "obj_store m q pd idx cap s =
     bind_result (obj_walk m q pd idx s) (\<lambda>(x, sh, s). Inr (sh = Some True, s\<lparr>pmem := (pmem s)(x := cap)\<rparr>))"

definition obj_lookup_cap :: "machine \<Rightarrow> 'p \<Rightarrow> mword \<Rightarrow> 'p spaces \<Rightarrow> mword option" where
  "obj_lookup_cap m pd idx s =
     (case mem_lookup pd (obj_idx_to_virt idx) s of
        None \<Rightarrow> None
      | Some (_, phys) \<Rightarrow> if phys AND NOT PAGE_MASK = FRAME_0 m then None else Some (pmem s phys))"

text \<open>Faults in the area of the bitmap and of the capabilities; \<open>ERR_W\<close> is bit 1 of the error code.\<close>

definition space_fault :: "mword \<Rightarrow> 'p quota_ref \<Rightarrow> 'p \<Rightarrow> nat \<Rightarrow> mword \<Rightarrow> mword \<Rightarrow> 'p spaces \<Rightarrow> 'p spaces result" where
  "space_fault fr q cur c addr error s =
     (if error AND 2 \<noteq> 0 then Inl Assert_failed
      else bind_result (hpt_sync_from buddy_pages q (Root_loc cur c) (Root_hpt cur) addr CPU_LOCAL s) (\<lambda>(done', s).
             if done' then Inr s
             else bind_result (mem_replace q cur addr (fr OR HPT_NX OR HPT_A OR HPT_P) s) (\<lambda>(_, s). Inr s)))"

definition pio_page_fault :: "machine \<Rightarrow> 'p quota_ref \<Rightarrow> 'p \<Rightarrow> nat \<Rightarrow> mword \<Rightarrow> mword \<Rightarrow> 'p spaces \<Rightarrow> 'p spaces result" where
  "pio_page_fault m = space_fault (FRAME_1 m)"

definition obj_page_fault :: "machine \<Rightarrow> 'p quota_ref \<Rightarrow> 'p \<Rightarrow> nat \<Rightarrow> mword \<Rightarrow> mword \<Rightarrow> 'p spaces \<Rightarrow> 'p spaces result" where
  "obj_page_fault m = space_fault (FRAME_0 m)"

subsection \<open>The spaces of a domain as its backend\<close>

text \<open>An operation on the tables, on the quotas of the domains.\<close>

definition on_back :: "('p spaces \<Rightarrow> ('a \<times> 'p spaces) result) \<Rightarrow> ('n, 'p, 'p spaces) pdst \<Rightarrow> ('a \<times> ('n, 'p, 'p spaces) pdst) result" where
  "on_back h s =
     bind_result (h ((pd_back s)\<lparr>ppool := (fst (ppool (pd_back s)), pd_quota s)\<rparr>)) (\<lambda>(x, b).
       Inr (x, s\<lparr>pd_back := b, pd_quota := snd (ppool b)\<rparr>))"

definition space_update :: "machine \<Rightarrow> 'p \<Rightarrow> ('n, 'p, 'p spaces) pd_upd" where
  "space_update m kern S q n r s =
     (case mspace s n of
        None \<Rightarrow> Inl Assert_failed
      | Some (pd, S') \<Rightarrow>
          if S' \<noteq> S \<or> pd = kern then Inl Assert_failed
          else
            (let a = node_attr s n AND NOT r
             in case S of
                  MEM_SPC \<Rightarrow>
                    bind_result (on_back (\<lambda>b. bind_result (mem_tables m pd (node_phys s n) (node_base s n) (node_order s n) a
                          (node_type s n) (node_sub s n) r b) (\<lambda>(f, oom, b). Inr ((f, oom), b))) s) (\<lambda>((f, oom), s).
                      Inr (f, if oom then set_hz HZD_OOM s else s))
                | PIO_SPC \<Rightarrow>
                    bind_result (on_back (\<lambda>b. bind_result (pio_update q pd (node_base s n) (node_order s n) a (node_sub s n) b) (\<lambda>b. Inr ((), b))) s)
                      (\<lambda>(_, s). Inr (False, s))
                | OBJ_SPC \<Rightarrow> on_back (obj_store m q pd (node_base s n) (Capability_make (node_phys s n) a)) s))"

definition spaces_env :: "machine \<Rightarrow> 'p \<Rightarrow> ('n, 'p, 'p spaces) pd_env \<Rightarrow> ('n, 'p, 'p spaces) pd_env" where
  "spaces_env m kern e = e\<lparr>env_update := space_update m kern,
     env_merge_htlb := \<lambda>pd s. Inr (s\<lparr>pd_back := (pd_back s)\<lparr>htlb := (htlb (pd_back s))(pd := merge (htlb (pd_back s) pd) (sp_cpus (pd_back s) pd))\<rparr>\<rparr>)\<rparr>"

subsection \<open>Message buffers, roots and shootdown\<close>

definition insert_utcb :: "('n, 'p, 'p spaces) pd_env \<Rightarrow> nat \<Rightarrow> 'p quota_ref \<Rightarrow> 'p \<Rightarrow> mword \<Rightarrow> mword \<Rightarrow>
  ('n, 'p, 'p spaces) pdst \<Rightarrow> (bool \<times> ('n, 'p, 'p spaces) pdst) result" where
  "insert_utcb e k q pd b phys s =
     (if phys = 0 \<or> b = 0 then Inr (True, s)
      else bind_result (env_alloc e pd q s) (\<lambda>(mdb, s).
             let s = Mdb_make mdb (Some (pd, MEM_SPC)) phys (drop_bit PAGE_BITS b) 0 0x3 0 0 0 s
             in bind_result (space_tree_insert k mdb s) (\<lambda>(ins, s).
                  if ins then Inr (True, s)
                  else bind_result (env_free e pd q mdb s) (\<lambda>s. Inr (False, s)))))"

definition remove_utcb :: "nat \<Rightarrow> 'p \<Rightarrow> mword \<Rightarrow> ('n, 'p, 'p spaces) pdst \<Rightarrow> (bool \<times> ('n, 'p, 'p spaces) pdst) result" where
  "remove_utcb k pd b s =
     (if b = 0 then Inr (False, s)
      else bind_result (space_tree_lookup k (pd, MEM_SPC) (drop_bit PAGE_BITS b) False s) (\<lambda>q.
        case q of
          None \<Rightarrow> Inr (False, s)
        | Some mdb \<Rightarrow>
            bind_result (remove_node mdb True (demote_node mdb 0x3 s)) (\<lambda>(rm, s).
              if \<not> rm then Inr (False, s)
              else bind_result (space_tree_remove k mdb s) (\<lambda>(gone, s).
                Inr (gone, if gone then rcu_call mdb s else s)))))"

definition obj_insert_root :: "machine \<Rightarrow> 'p \<Rightarrow> nat \<Rightarrow> 'p quota_ref \<Rightarrow> (mword \<Rightarrow> 'n) \<Rightarrow> mword \<Rightarrow>
  ('n, 'p, 'p spaces) pdst \<Rightarrow> (bool \<times> ('n, 'p, 'p spaces) pdst) result" where
  "obj_insert_root m kern k q node obj s =
     bind_result (space_tree_insert k (node obj) s) (\<lambda>(ins, s).
       if \<not> ins then Inr (False, s)
       else (case mspace s (node obj) of
               None \<Rightarrow> Inl Null_deref
             | Some (pd, _) \<Rightarrow>
                 if pd = kern then Inr (True, s)
                 else bind_result (on_back (obj_store m q pd (node_base s (node obj)) (Capability_make obj (node_attr s (node obj)))) s) (\<lambda>(_, s).
                        Inr (True, s))))"

text \<open>
  \<open>Space_mem::shootdown\<close>: the CPUs that get an interrupt, in order; whether it was accepted in
  time is only reported. The current CPU gets the hazard \<open>HZD_SCHED\<close> instead.
\<close>

fun shootdown :: "(nat \<Rightarrow> bool) \<Rightarrow> (nat \<Rightarrow> 'p) \<Rightarrow> nat \<Rightarrow> 'p \<Rightarrow> nat list \<Rightarrow> ('n, 'p, 'p spaces) pdst \<Rightarrow> nat list \<times> ('n, 'p, 'p spaces) pdst" where
  "shootdown online remote self local [] s = ([], s)"
| "shootdown online remote self local (c # cs) s =
     (let b = pd_back s; pd = remote c
      in if \<not> online c \<or> \<not> chk (sp_cpus b local) (of_nat c) \<or> (\<not> chk (htlb b pd) (of_nat c) \<and> \<not> chk (gtlb b pd) (of_nat c))
         then shootdown online remote self local cs s
         else if c = self then shootdown online remote self local cs (set_hz 0x1 s)
         else (case shootdown online remote self local cs s of (ts, s) \<Rightarrow> (c # ts, s)))"

subsection \<open>Writes beside the tables\<close>

text \<open>
  The words of bitmaps and of capabilities that are in use, and that none of them is an entry of a
  host page table of a domain: then writing one of them changes no translation.
\<close>

abbreviation hpt_slot :: "'p spaces \<Rightarrow> 'p \<Rightarrow> mword \<Rightarrow> nat \<Rightarrow> 'p ptroot pent option" where
  "hpt_slot b pd v k \<equiv> slot (\<lambda>_. Hpt) b (Root_hpt pd) v k"

definition table_entries :: "'p spaces \<Rightarrow> mword set" where
  "table_entries b = {x. \<exists>pd v k. k \<le> 4 \<and> hpt_slot b pd v k = Some (PEnt x)}"

definition pio_words :: "'p spaces \<Rightarrow> mword set" where
  "pio_words b = {pio_word (pio_bmp h pd b) idx |h pd idx. pio_bmp h pd b \<noteq> 0}"

definition cap_words :: "machine \<Rightarrow> 'p spaces \<Rightarrow> mword set" where
  "cap_words m b = {phys. \<exists>pd idx sz. mem_lookup pd (obj_idx_to_virt idx) b = Some (sz, phys) \<and> phys AND NOT PAGE_MASK \<noteq> FRAME_0 m}"

definition apart :: "machine \<Rightarrow> 'p spaces \<Rightarrow> bool" where
  "apart m b \<longleftrightarrow> table_entries b \<inter> (pio_words b \<union> cap_words m b) = {}"

definition tables_kept :: "'p spaces \<Rightarrow> 'p spaces \<Rightarrow> bool" where
  "tables_kept b b' \<longleftrightarrow> (\<forall>pd v k. k \<le> 4 \<longrightarrow> hpt_slot b' pd v k = hpt_slot b pd v k) \<and>
     (\<forall>pd v. mem_lookup pd v b' = mem_lookup pd v b) \<and> hbmp b' = hbmp b \<and> gbmp b' = gbmp b"

lemma tables_keptI:
  assumes "\<And>pd v k e. k \<le> 4 \<Longrightarrow> hpt_slot b pd v k = Some e \<Longrightarrow> pte_val b' e = pte_val b e" "hbmp b' = hbmp b" "gbmp b' = gbmp b"
  shows "tables_kept b b'"
proof -
  have "hpt_slot b' pd v k = hpt_slot b pd v k" if "k \<le> 4" for pd v k
  proof (rule slot_agree)
    show "pte_val b' e = pte_val b e" if "j < k" "hpt_slot b pd v j = Some e" for j e
      by (rule assms(1)[OF _ that(2)]) (use that(1) \<open>k \<le> 4\<close> in simp)
  qed
  moreover have "leaf (\<lambda>_. Hpt) b' (Root_hpt pd) v = leaf (\<lambda>_. Hpt) b (Root_hpt pd) v" for pd v
    by (rule leaf_agree) (rule assms(1))
  then have "mem_lookup pd v b' = mem_lookup pd v b" for pd v
    unfolding mem_lookup_def using lookup_leaf[of "\<lambda>_. Hpt" "Root_hpt pd" v] by metis
  ultimately show ?thesis using assms(2,3) by (simp add: tables_kept_def)
qed

lemma tables_kept_refl [simp]: "tables_kept b b"
  by (simp add: tables_kept_def)

lemma tables_kept_trans: "tables_kept b b' \<Longrightarrow> tables_kept b' b'' \<Longrightarrow> tables_kept b b''"
  by (simp add: tables_kept_def)

lemma tables_kept_words:
  assumes "tables_kept b b'"
  shows "table_entries b' = table_entries b" "pio_words b' = pio_words b" "cap_words m b' = cap_words m b" "apart m b' = apart m b"
proof -
  show t: "table_entries b' = table_entries b" "pio_words b' = pio_words b" "cap_words m b' = cap_words m b"
    using assms unfolding tables_kept_def table_entries_def pio_words_def cap_words_def pio_bmp_def by (auto cong: conj_cong)
  show "apart m b' = apart m b" by (simp add: apart_def t)
qed

lemma kept_pool: "tables_kept b (b\<lparr>ppool := q\<rparr>)"
proof (rule tables_keptI)
  show "pte_val (b\<lparr>ppool := q\<rparr>) e = pte_val b e" for e by (cases e) auto
qed simp_all

lemma kept_write:
  assumes "apart m b" "x \<in> pio_words b \<union> cap_words m b"
  shows "tables_kept b (b\<lparr>pmem := (pmem b)(x := w)\<rparr>)"
proof (rule tables_keptI)
  fix pd v k e assume e: "k \<le> 4" "hpt_slot b pd v k = Some e"
  show "pte_val (b\<lparr>pmem := (pmem b)(x := w)\<rparr>) e = pte_val b e"
  proof (cases e)
    case (PEnt y)
    then have "y \<in> table_entries b" using e unfolding table_entries_def by blast
    then have "y \<noteq> x" using assms unfolding apart_def by blast
    then show ?thesis by (simp add: PEnt)
  qed simp
qed simp_all

subsection \<open>Permission bitmaps\<close>

definition port_open :: "(mword \<Rightarrow> mword) \<Rightarrow> mword \<Rightarrow> nat \<Rightarrow> bool" where
  "port_open mem bmp j \<longleftrightarrow> \<not> bit (mem (pio_word bmp (of_nat j))) (j mod 64)"

lemma pio_word_eq:
  assumes "take_bit 13 bmp = 0" "unat idx < 65536"
  shows "pio_word bmp idx = bmp OR of_nat (8 * (unat idx div 64))" "take_bit 13 (pio_word bmp idx) = of_nat (8 * (unat idx div 64))"
proof -
  let ?w = "(idx div 8 div 8) * 8"
  have u: "unat (idx div 8 div 8) = unat idx div 64" by (simp add: unat_div div_mult2_eq flip: div_mult2_eq)
  have w: "?w = of_nat (8 * (unat idx div 64))" unfolding u[symmetric] by simp
  have lt: "8 * (unat idx div 64) < 2 ^ 13" using assms(2) by simp
  have tw: "take_bit 13 ?w = ?w" unfolding w take_bit_of_nat using lt by (simp add: take_bit_nat_eq_self)
  have z: "take_bit 13 SPC_LOCAL_IOP = (0 :: mword)" by (simp add: SPC_LOCAL_IOP_def SPC_LOCAL_def)
  have "SPC_LOCAL_IOP AND ?w = 0"
  proof (rule bit_word_eqI)
    fix n
    show "bit (SPC_LOCAL_IOP AND ?w) n = bit (0 :: mword) n"
      using aligned_low[OF z, of n] low_const[OF tw, of n] unfolding bit_and_iff by (cases "n < 13") auto
  qed
  then have "pio_idx_to_virt idx = SPC_LOCAL_IOP OR ?w" unfolding pio_idx_to_virt_def by (rule disjunctive_add_eq_or)
  then have v: "take_bit 13 (pio_idx_to_virt idx) = ?w" unfolding take_bit_or z tw by (simp only: or.left_neutral take_bit_or z tw)
  have m: "2 * PAGE_SIZE - 1 = (mask 13 :: mword)" by (simp add: PAGE_SIZE_def mask_eq_exp_minus_1)
  show e: "pio_word bmp idx = bmp OR of_nat (8 * (unat idx div 64))"
    unfolding pio_word_def m take_bit_eq_mask[symmetric] v w ..
  show "take_bit 13 (pio_word bmp idx) = of_nat (8 * (unat idx div 64))" unfolding e take_bit_or assms(1) using tw unfolding w by simp
qed

lemma pio_word_base: "take_bit 13 bmp = 0 \<Longrightarrow> pio_word bmp idx AND NOT (mask 13) = bmp"
proof -
  assume z: "take_bit 13 bmp = 0"
  have m: "2 * PAGE_SIZE - 1 = (mask 13 :: mword)" by (simp add: PAGE_SIZE_def mask_eq_exp_minus_1)
  show ?thesis unfolding pio_word_def m
  proof (rule bit_word_eqI)
    fix n assume "n < LENGTH(64)"
    then show "bit ((bmp OR (pio_idx_to_virt idx AND mask 13)) AND NOT (mask 13)) n = bit bmp n"
      using aligned_low[OF z, of n] unfolding bit_and_iff bit_or_iff bit_not_iff bit_mask_iff by auto
  qed
qed

lemma pio_word_inj:
  assumes "take_bit 13 bmp = 0" "unat i < 65536" "unat j < 65536" "pio_word bmp i = pio_word bmp j"
  shows "unat i div 64 = unat j div 64"
proof -
  have "(of_nat (8 * (unat i div 64)) :: mword) = of_nat (8 * (unat j div 64))"
    using pio_word_eq(2)[OF assms(1,2)] pio_word_eq(2)[OF assms(1,3)] assms(4) by simp
  then have "8 * (unat i div 64) mod 2 ^ 64 = 8 * (unat j div 64) mod 2 ^ 64" by (simp only: word_unat_eq_iff unat_of_nat) simp
  moreover have "8 * (unat i div 64) < 2 ^ 64" "8 * (unat j div 64) < 2 ^ 64" using assms(2,3) by simp_all
  ultimately have "8 * (unat i div 64) = 8 * (unat j div 64)" by (metis mod_less)
  then show ?thesis by simp
qed

lemma pio_set_run:
  assumes "pio_bmp h pd b \<noteq> 0"
  shows "\<exists>w. pio_set q pd h idx a b = Inr (b\<lparr>pmem := (pmem b)(pio_word (pio_bmp h pd b) idx := w)\<rparr>) \<and>
     (\<forall>n < 64. bit w n \<longleftrightarrow> (if n = unat idx mod 64 then a = 0 else bit (pmem b (pio_word (pio_bmp h pd b) idx)) n))"
proof -
  let ?x = "pio_word (pio_bmp h pd b) idx" and ?k = "unat idx mod 64"
  have k: "unat (idx mod 64) = ?k" by (simp add: unat_mod)
  have mask: "bit (pio_idx_to_mask idx) n \<longleftrightarrow> n = ?k" if "n < 64" for n
    using that unfolding pio_idx_to_mask_def k by (auto simp: bit_simps)
  let ?w = "if a \<noteq> 0 then pmem b ?x AND NOT (pio_idx_to_mask idx) else pmem b ?x OR pio_idx_to_mask idx"
  have "pio_set q pd h idx a b = Inr (b\<lparr>pmem := (pmem b)(?x := ?w)\<rparr>)"
    using assms by (simp add: pio_set_def pio_walk_def)
  moreover have "bit ?w n \<longleftrightarrow> (if n = ?k then a = 0 else bit (pmem b ?x) n)" if "n < 64" for n
    using mask[OF that] that by (auto simp: bit_and_iff bit_or_iff bit_not_iff)
  ultimately show ?thesis by blast
qed

lemma pio_bmp_mem [simp]: "pio_bmp h pd (b\<lparr>pmem := mem\<rparr>) = pio_bmp h pd b"
  by (simp add: pio_bmp_def)

lemma pio_range_run:
  assumes "pio_bmp h pd b \<noteq> 0" "apart m b"
  shows "\<exists>mem. pio_range q pd h idx n a b = Inr (b\<lparr>pmem := mem\<rparr>) \<and> tables_kept b (b\<lparr>pmem := mem\<rparr>) \<and>
     (take_bit 13 (pio_bmp h pd b) = 0 \<longrightarrow> unat idx + n \<le> 65536 \<longrightarrow>
        (\<forall>j < 65536. port_open mem (pio_bmp h pd b) j \<longleftrightarrow>
           (if unat idx \<le> j \<and> j < unat idx + n then a \<noteq> 0 else port_open (pmem b) (pio_bmp h pd b) j)) \<and>
        (\<forall>x. x \<notin> range (pio_word (pio_bmp h pd b)) \<longrightarrow> mem x = pmem b x))"
  using assms
proof (induction n arbitrary: idx b)
  case 0
  have "b\<lparr>pmem := pmem b\<rparr> = b" by simp
  then show ?case by (intro exI[of _ "pmem b"]) auto
next
  case (Suc n)
  let ?B = "pio_bmp h pd b"
  let ?x = "pio_word ?B idx"
  obtain w where w: "pio_set q pd h idx a b = Inr (b\<lparr>pmem := (pmem b)(?x := w)\<rparr>)"
    "\<forall>n < 64. bit w n \<longleftrightarrow> (if n = unat idx mod 64 then a = 0 else bit (pmem b ?x) n)"
    using pio_set_run[OF Suc.prems(1), of q idx a] by blast
  let ?b = "b\<lparr>pmem := (pmem b)(?x := w)\<rparr>"
  have "?x \<in> pio_words b" using Suc.prems(1) unfolding pio_words_def by blast
  then have k1: "tables_kept b ?b" by (intro kept_write[OF Suc.prems(2)]) simp
  have ap: "apart m ?b" using tables_kept_words(4)[OF k1] Suc.prems(2) by blast
  obtain mem where mem: "pio_range q pd h (idx + 1) n a ?b = Inr (?b\<lparr>pmem := mem\<rparr>)" "tables_kept ?b (?b\<lparr>pmem := mem\<rparr>)"
    "take_bit 13 ?B = 0 \<longrightarrow> unat (idx + 1) + n \<le> 65536 \<longrightarrow>
        (\<forall>j < 65536. port_open mem ?B j \<longleftrightarrow>
           (if unat (idx + 1) \<le> j \<and> j < unat (idx + 1) + n then a \<noteq> 0 else port_open ((pmem b)(?x := w)) ?B j)) \<and>
        (\<forall>x. x \<notin> range (pio_word ?B) \<longrightarrow> mem x = ((pmem b)(?x := w)) x)"
    using Suc.IH[of ?b "idx + 1"] Suc.prems(1) ap by auto
  have one: "port_open ((pmem b)(?x := w)) ?B j \<longleftrightarrow> (if j = unat idx then a \<noteq> 0 else port_open (pmem b) ?B j)"
    if "take_bit 13 ?B = 0" "unat idx < 65536" "j < 65536" for j
  proof -
    have uj: "unat (of_nat j :: mword) = j" using that(3) by (simp add: unat_of_nat)
    show ?thesis
    proof (cases "pio_word ?B (of_nat j) = ?x")
      case True
      then have d: "j div 64 = unat idx div 64" using pio_word_inj[OF that(1) _ that(2), of "of_nat j"] uj that(3) by simp
      have "j mod 64 = unat idx mod 64 \<longleftrightarrow> j = unat idx" using d by (metis div_mult_mod_eq)
      moreover have "bit w (j mod 64) \<longleftrightarrow> (if j mod 64 = unat idx mod 64 then a = 0 else bit (pmem b ?x) (j mod 64))"
        using w(2) by simp
      ultimately show ?thesis unfolding port_open_def using True by simp
    next
      case False
      then have "j \<noteq> unat idx" by auto
      then show ?thesis using False by (simp add: port_open_def)
    qed
  qed
  have "(\<forall>j < 65536. port_open mem ?B j \<longleftrightarrow>
           (if unat idx \<le> j \<and> j < unat idx + Suc n then a \<noteq> 0 else port_open (pmem b) ?B j)) \<and>
        (\<forall>x. x \<notin> range (pio_word ?B) \<longrightarrow> mem x = pmem b x)"
    if "take_bit 13 ?B = 0" "unat idx + Suc n \<le> 65536"
  proof -
    have u: "unat (idx + 1) = Suc (unat idx)" using that(2) by (simp add: unat_word_ariths)
    have "(\<forall>j < 65536. port_open mem ?B j \<longleftrightarrow>
           (if unat (idx + 1) \<le> j \<and> j < unat (idx + 1) + n then a \<noteq> 0 else port_open ((pmem b)(?x := w)) ?B j))"
      "\<forall>x. x \<notin> range (pio_word ?B) \<longrightarrow> mem x = ((pmem b)(?x := w)) x"
      using mem(3) that u by auto
    moreover have "unat idx < 65536" using that(2) by simp
    ultimately show ?thesis unfolding u using one[OF that(1)] by auto
  qed
  moreover have "pio_range q pd h idx (Suc n) a b = Inr (b\<lparr>pmem := mem\<rparr>)" using w(1) mem(1) by simp
  moreover have "tables_kept b (b\<lparr>pmem := mem\<rparr>)" using tables_kept_trans[OF k1 mem(2)] by simp
  ultimately show ?case by blast
qed

subsection \<open>What is installed\<close>

text \<open>
  A mapping of ports is installed when its domain has the bitmaps it needs, a capability when
  its place in the table of the domain is backed by a page.
\<close>

definition space_installed :: "machine \<Rightarrow> ('n, 'p, 'p spaces) pdst \<Rightarrow> 'n \<Rightarrow> bool" where
  "space_installed m s n \<longleftrightarrow> apart m (pd_back s) \<and>
     (case mspace s n of
        Some (pd, PIO_SPC) \<Rightarrow> hbmp (pd_back s) pd \<noteq> 0 \<and> (node_sub s n AND 2 \<noteq> 0 \<longrightarrow> gbmp (pd_back s) pd \<noteq> 0)
      | Some (pd, OBJ_SPC) \<Rightarrow> (\<exists>sz phys. mem_lookup pd (obj_idx_to_virt (node_base s n)) (pd_back s) = Some (sz, phys) \<and>
                                 phys AND NOT PAGE_MASK \<noteq> FRAME_0 m)
      | _ \<Rightarrow> True)"

lemma on_back_kept:
  assumes run: "h ((pd_back s)\<lparr>ppool := (fst (ppool (pd_back s)), pd_quota s)\<rparr>) = Inr (x, b)"
    and k: "tables_kept ((pd_back s)\<lparr>ppool := (fst (ppool (pd_back s)), pd_quota s)\<rparr>) b"
  shows "\<exists>s'. on_back h s = Inr (x, s') \<and> same_mdb s s' \<and> pd_preempt s' = pd_preempt s \<and> pd_rcu s' = pd_rcu s \<and> pd_hazard s' = pd_hazard s \<and>
     pd_back s' = b \<and> (\<forall>m n. space_installed m s n \<longrightarrow> space_installed m s' n)"
proof -
  let ?s = "s\<lparr>pd_back := b, pd_quota := snd (ppool b)\<rparr>"
  have t: "tables_kept (pd_back s) b" by (rule tables_kept_trans[OF kept_pool k])
  have "space_installed m ?s n" if "space_installed m s n" for m n
  proof -
    have "mem_lookup pd v b = mem_lookup pd v (pd_back s)" "hbmp b = hbmp (pd_back s)" "gbmp b = gbmp (pd_back s)" for pd v
      using t by (simp_all add: tables_kept_def)
    then show ?thesis using that tables_kept_words(4)[OF t, of m] unfolding space_installed_def
      by (cases "mspace s n") (auto split: spkind.splits)
  qed
  moreover have "same_mdb s ?s" by (simp add: same_mdb_def mdb.truncate_def)
  ultimately show ?thesis using run by (intro exI[of _ ?s]) (simp add: on_back_def)
qed

lemma pio_update_run:
  assumes "hbmp b pd \<noteq> 0" "sub AND 2 \<noteq> 0 \<longrightarrow> gbmp b pd \<noteq> 0" "apart m b"
  shows "\<exists>b'. pio_update q pd nb o' a sub b = Inr b' \<and> tables_kept b b'"
proof -
  obtain b1 where b1: "(if sub AND 2 \<noteq> 0 then pio_range q pd False nb (2 ^ unat o') a b else Inr b) = Inr b1" "tables_kept b b1"
  proof (cases "sub AND 2 \<noteq> 0")
    case True
    then have "pio_bmp False pd b \<noteq> 0" using assms(2) by (simp add: pio_bmp_def)
    from pio_range_run[OF this assms(3), of q nb "2 ^ unat o'" a] True show ?thesis using that by auto
  qed (use that in auto)
  have "pio_bmp True pd b1 \<noteq> 0" using b1(2) assms(1) by (simp add: pio_bmp_def tables_kept_def)
  moreover have "apart m b1" using tables_kept_words(4)[OF b1(2)] assms(3) by blast
  ultimately obtain b2 where b2: "pio_range q pd True nb (2 ^ unat o') a b1 = Inr b2" "tables_kept b1 b2"
    using pio_range_run[of True pd b1 m q nb "2 ^ unat o'" a] by blast
  have "pio_update q pd nb o' a sub b = Inr b2" unfolding pio_update_def b1(1) by (simp add: b2(1))
  then show ?thesis using tables_kept_trans[OF b1(2) b2(2)] by blast
qed

lemma obj_store_run:
  assumes "mem_lookup pd (obj_idx_to_virt idx) b = Some (sz, phys)" "phys AND NOT PAGE_MASK \<noteq> FRAME_0 m" "apart m b"
  shows "obj_store m q pd idx cap b = Inr (False, b\<lparr>pmem := (pmem b)(phys := cap)\<rparr>)"
    "tables_kept b (b\<lparr>pmem := (pmem b)(phys := cap)\<rparr>)"
proof -
  show "obj_store m q pd idx cap b = Inr (False, b\<lparr>pmem := (pmem b)(phys := cap)\<rparr>)"
    using assms(1,2) by (simp add: obj_store_def obj_walk_def Let_def)
  have "phys \<in> cap_words m b" using assms(1,2) unfolding cap_words_def by blast
  then show "tables_kept b (b\<lparr>pmem := (pmem b)(phys := cap)\<rparr>)" by (intro kept_write[OF assms(3)]) simp
qed

interpretation sb: backend "spaces_env m kern e" kern "{PIO_SPC, OBJ_SPC}" "space_installed m"
  for m :: machine and kern :: 'p and e :: "('n, 'p, 'p spaces) pd_env"
proof
  fix S p a n and s :: "('n, 'p, 'p spaces) pdst"
  assume S: "S \<in> {PIO_SPC, OBJ_SPC}" and i: "space_installed m s n" and sp: "mspace s n = Some (p, S)" and p: "p \<noteq> kern" and "a \<noteq> (0 :: mword)"
  let ?b = "(pd_back s)\<lparr>ppool := (fst (ppool (pd_back s)), pd_quota s)\<rparr>"
  have kp: "tables_kept (pd_back s) ?b" by (rule kept_pool)
  have ap: "apart m ?b" using i tables_kept_words(4)[OF kp, of m] by (simp add: space_installed_def)
  let ?a = "node_attr s n AND NOT a"
  show "\<exists>f s'. env_update (spaces_env m kern e) S None n a s = Inr (f, s') \<and> same_mdb s s' \<and>
      pd_preempt s' = pd_preempt s \<and> pd_rcu s' = pd_rcu s \<and> (\<forall>n. space_installed m s n \<longrightarrow> space_installed m s' n)"
  proof (cases "S = PIO_SPC")
    case True
    have "hbmp ?b p \<noteq> 0" "node_sub s n AND 2 \<noteq> 0 \<longrightarrow> gbmp ?b p \<noteq> 0" using i sp True by (simp_all add: space_installed_def)
    from pio_update_run[OF this ap, of None "node_base s n" "node_order s n" ?a] obtain b where
      b: "pio_update None p (node_base s n) (node_order s n) ?a (node_sub s n) ?b = Inr b" "tables_kept ?b b" by blast
    let ?h = "\<lambda>b. bind_result (pio_update None p (node_base s n) (node_order s n) ?a (node_sub s n) b) (\<lambda>b. Inr ((), b))"
    have "?h ?b = Inr ((), b)" using b(1) by simp
    from on_back_kept[of ?h, OF this b(2)] show ?thesis
      using sp p True by (auto simp: spaces_env_def space_update_def)
  next
    case False
    then have S: "S = OBJ_SPC" using S by simp
    obtain sz phys where l: "mem_lookup p (obj_idx_to_virt (node_base s n)) (pd_back s) = Some (sz, phys)" "phys AND NOT PAGE_MASK \<noteq> FRAME_0 m"
      using i sp S by (auto simp: space_installed_def)
    then have l': "mem_lookup p (obj_idx_to_virt (node_base s n)) ?b = Some (sz, phys)" using kp by (simp add: tables_kept_def)
    let ?c = "Capability_make (node_phys s n) ?a"
    from on_back_kept[of "obj_store m None p (node_base s n) ?c" s, OF obj_store_run(1)[OF l' l(2) ap, of None ?c] obj_store_run(2)[OF l' l(2) ap, of ?c]] show ?thesis using sp p S by (auto simp: spaces_env_def space_update_def)
  qed
next
  fix s s' :: "('n, 'p, 'p spaces) pdst" and n
  assume "pd_back s' = pd_back s" "mspace s' = mspace s" "node_base s' = node_base s" "node_order s' = node_order s" "node_sub s' = node_sub s"
  then show "space_installed m s' n = space_installed m s n" unfolding space_installed_def by (simp only:)
qed

subsection \<open>Properties\<close>

text \<open>All mappings of ports and objects are aligned, installed and in the delegation trees \<open>F\<close>.\<close>

definition spaces_ready :: "machine \<Rightarrow> 'p \<Rightarrow> nat \<Rightarrow> nat \<Rightarrow> ('n, 'p, 'p spaces) pdst \<Rightarrow> ('p space \<Rightarrow> 'n tree) \<Rightarrow> 'n list set \<Rightarrow> bool" where
  "spaces_ready m kern l j s T F \<longleftrightarrow> spaces_ok j s T \<and> forest kern s T F \<and> (\<forall>xs \<in> F. length xs \<le> l) \<and>
     (\<forall>S \<in> {PIO_SPC, OBJ_SPC}. \<forall>n. member kern s T S n \<longrightarrow> space_installed m s n \<and> aligned s n)"

text \<open>C13: revoke_takes_rights. Revoking the rights \<open>a\<close> from a range of ports or objects, the own mappings
  included: the revocation returns, it takes these rights from exactly the mappings of the
  domain that meet the range and from all mappings derived from them, in every domain, it takes
  exactly those of them that are left without rights, and have none derived that has any, out of
  the trees and hands them to RCU, and it keeps all invariants.\<close>
theorem revoke_takes_rights:
  fixes s :: "('n, 'p, 'p spaces) pdst"
  assumes "spaces_ready m kern l j s T F" "this \<noteq> kern" "S \<in> {PIO_SPC, OBJ_SPC}" "a \<noteq> 0" "2 ^ unat ord dvd unat nb"
    and "card (set_tree (T (this, S))) < r" "pd_preempt s"
  shows "\<exists>s' T' F'. revoke (spaces_env m kern e) (2 * j + 2) l r S this nb ord a True False s = Inr s' \<and>
     spaces_ready m kern l j s' T' F' \<and> revoked (reached s T F (this, S) nb ord) a s T F s' T' F'"
proof -
  have rd: "sb.ready kern m l j s T F" using assms(1) unfolding sb.ready_def spaces_ready_def .
  have "card {x \<in> set_tree (T (this, S)). unat nb < nend s x} \<le> card (set_tree (T (this, S)))"
    by (rule card_mono) auto
  then have c: "card {x \<in> set_tree (T (this, S)). unat nb < nend s x} < r" using assms(6) by linarith
  obtain s' T' F' where u: "revoke_loop (spaces_env m kern e) (2 * j + 2) l r S this nb nb ord a True False s = Inr s'"
    "sb.ready kern m l j s' T' F'" "revoked (\<Union>x \<in> sb.ahead s T (this, S) nb ord (unat nb). subtree s F x) a s T F s' T' F'"
    using sb.revoke_range[OF rd assms(2,4,5) order.refl assms(3) c, of e] by blast
  have "sb.ahead s T (this, S) nb ord (unat nb) = {x \<in> set_tree (T (this, S)). in_range s nb ord x}"
    by (auto simp: sb.ahead_def in_range_def)
  then have rv: "revoked (reached s T F (this, S) nb ord) a s T F s' T' F'" using u(3) by (simp add: reached_def)
  then have "pd_preempt s'" using assms(7) by (simp add: revoked_def fields_kept_def)
  then have "revoke (spaces_env m kern e) (2 * j + 2) l r S this nb ord a True False s = Inr s'"
    using u(1) by (simp add: revoke_def)
  then show ?thesis using u(2) rv unfolding sb.ready_def spaces_ready_def by blast
qed


subsection \<open>Two domains that share ports\<close>

text \<open>
  Domain 1 has the ports from \<open>0x60\<close> on and has delegated them to domain 2; no page table is in
  use, and the bitmaps are at \<open>0x2000\<close> and \<open>0x4000\<close>.
\<close>

definition port_spaces :: "nat spaces" where
  "port_spaces = \<lparr>pt_root = \<lambda>_. 0, pmem = \<lambda>_. NOT 0, ppool = ([], \<lambda>_. Quota_new), hbmp = \<lambda>p. of_nat p * 0x2000, gbmp = \<lambda>_. 0x10000,
     sp_cpus = \<lambda>_. [], htlb = \<lambda>_. [], gtlb = \<lambda>_. []\<rparr>"

definition port_state :: "(nat, nat, nat spaces) pdst" where
  "port_state = \<lparr>lnk = \<lambda>_ _. None, bal = \<lambda>_. 2,
     root = \<lambda>sp. if sp = (1, PIO_SPC) then Some 1 else if sp = (2, PIO_SPC) then Some 2 else None,
     mlinks = \<lparr>lnext = (\<lambda>n. if n = 1 then Some 2 else Some 1), lprev = (\<lambda>n. if n = 1 then Some 2 else Some 1)\<rparr>,
     dpth = (\<lambda>n. if n = 1 then 0 else 1), prnt = (\<lambda>n. if n = 2 then Some 1 else None),
     mspace = (\<lambda>n. Some (n, PIO_SPC)), node_phys = \<lambda>_. 0x60, node_base = \<lambda>_. 0x60, node_order = \<lambda>_. 4, node_attr = \<lambda>_. 3,
     node_type = \<lambda>_. 0, node_sub = \<lambda>_. 0, pd_hazard = 0, pd_preempt = True, pd_rcu = [], pd_quota = \<lambda>_. Quota_new, pd_back = port_spaces\<rparr>"

definition port_machine :: machine where
  "port_machine = \<lparr>Dpt_ord = NOT 0, Ipt_ord = NOT 0, Ept_ord = 18, Hpt_ord = 18, force_flush = False, has_npt = False,
     FRAME_0 = 0, FRAME_1 = 0x1000, n_cpu = 4, stale = 0\<rparr>"

definition port_trees :: "nat space \<Rightarrow> nat tree" where
  "port_trees sp = (if sp = (1, PIO_SPC) then Node Leaf 1 Leaf else if sp = (2, PIO_SPC) then Node Leaf 2 Leaf else Leaf)"

lemma port_apart: "apart m port_spaces"
proof -
  have z: "pt_root port_spaces r = 0" for r by (simp add: port_spaces_def)
  have "hpt_slot port_spaces pd v k \<noteq> Some (PEnt x)" for pd v k x
    by (cases k) (simp_all add: slot_Suc empty_table[OF z])
  then show ?thesis by (simp add: apart_def table_entries_def)
qed

lemma port_ready: "spaces_ready port_machine 0 2 1 port_state port_trees {[1, 2]}"
proof -
  let ?s = port_state
  have "space_tree ?s sp (port_trees sp)" "size (port_trees sp) < 2 ^ 1" for sp
    by (auto simp: space_tree_def port_state_def port_trees_def)
  moreover have "set_tree (port_trees sp) \<inter> set_tree (port_trees sp') = {}" if "sp \<noteq> sp'" for sp sp'
    using that by (auto simp: port_trees_def)
  ultimately have 1: "spaces_ok 1 ?s port_trees" unfolding spaces_ok_def by blast
  have d: "delegation ?s [1, 2]" by (simp add: delegation_def ring_def parent_ok_def port_state_def)
  have "member 0 ?s port_trees PIO_SPC n" if "n \<in> {1, 2}" for n
    using that by (auto simp: member_def port_state_def port_trees_def)
  then have "tree_ok 0 ?s port_trees [1, 2]" unfolding tree_ok_def using d by auto
  moreover have "set_tree (port_trees sp) \<subseteq> {1, 2}" for sp by (auto simp: port_trees_def)
  ultimately have 2: "forest 0 ?s port_trees {[1, 2]}" unfolding forest_def nodes_def by auto
  have 3: "space_installed m ?s n" if "n \<noteq> 0" "n \<le> 2" for n m
  proof -
    have "n = 1 \<or> n = 2" using that by auto
    moreover have "pd_back ?s = port_spaces" "mspace ?s n = Some (n, PIO_SPC)" "node_sub ?s n = 0" by (simp_all add: port_state_def)
    ultimately show ?thesis using port_apart[of m] by (auto simp: space_installed_def port_spaces_def)
  qed
  have 4: "aligned ?s n" for n by (simp add: aligned_def nbase_def nend_def port_state_def)
  have "n \<noteq> 0 \<and> n \<le> 2" if "member 0 ?s port_trees S n" for S n
    using that by (auto simp: member_def port_state_def port_trees_def split: if_splits)
  then show ?thesis unfolding spaces_ready_def using 1 2 3 4 by auto
qed

theorem revoke_takes_rights_witness:
  "\<forall>e. \<exists>s'. revoke (spaces_env port_machine 0 e) 4 2 2 PIO_SPC 1 0x60 4 3 True False port_state = Inr s' \<and>
     node_attr s' 1 = 0 \<and> node_attr s' 2 = 0 \<and> set (pd_rcu s') = {1, 2}"
proof
  fix e :: "(nat, nat, nat spaces) pd_env"
  let ?s = port_state and ?R = "reached port_state port_trees {[1, 2]} (1, PIO_SPC) 0x60 4"
  obtain s' T' F' where r: "revoke (spaces_env port_machine 0 e) (2 * 1 + 2) 2 2 PIO_SPC 1 0x60 4 3 True False ?s = Inr s'"
    "revoked ?R 3 ?s port_trees {[1, 2]} s' T' F'"
    using revoke_takes_rights[OF port_ready, of 1 PIO_SPC 3 4 "0x60" 2 e] by (auto simp: port_trees_def port_state_def)
  have sub: "subtree ?s {[1, 2]} 1 = {1, 2}"
    using derived_one[of ?s 2 1] by (auto simp: subtree_def nodes_def port_state_def)
  have R: "?R = {1, 2}"
    unfolding reached_def using sub by (auto simp: port_trees_def in_range_def nbase_def nend_def port_state_def)
  have a: "node_attr s' = (\<lambda>n. if n \<in> {1, 2} then 0 else 3)"
    using r(2) unfolding revoked_def R by (auto simp: port_state_def)
  have "void ?s (node_attr s') {[1, 2]} {1, 2} = {1, 2}" by (auto simp: void_def subtree_def nodes_def a)
  then have "set (pd_rcu s') = {1, 2}" using r(2) unfolding revoked_def R by (auto simp: port_state_def)
  then show "\<exists>s'. revoke (spaces_env port_machine 0 e) 4 2 2 PIO_SPC 1 0x60 4 3 True False ?s = Inr s' \<and>
     node_attr s' 1 = 0 \<and> node_attr s' 2 = 0 \<and> set (pd_rcu s') = {1, 2}"
    using r(1) a by (intro exI[of _ s']) simp
qed


end
