(* ===== verification/Spec2Isabelle.thy ===== *)
theory Spec2Isabelle
  imports Bits Quota Crd Bit_alloc Spinlock Sched Semaphore Core_alloc Buddy Sys_args Syscall Rcu
    Vmx Svm Guest_regs Utcb Msr_access Spaces
begin

text \<open>
  Tukija is a fork of the NOVA microhypervisor with elastic allocation of CPU cores.
\<close>

end
